(* ===== verification/Prelude.thy ===== *)
theory Prelude
  imports Main "HOL-Library.Word" "HOL-Library.Monad_Syntax"
begin

text \<open>
  Shared ground of the development: the machine types of the C sources, byte
  access to memory (\<open>get_u16\<close>, \<open>get_u32\<close>, \<open>put_u16\<close>, \<open>put_u32\<close> of
  \<^verbatim>\<open>cutils.h\<close>), block writes that refuse to leave their block, and the
  total-correctness predicate \<open>okw\<close> for computations that may fault.

  A computation that touches memory has a result of type \<open>'a option\<close>: \<open>None\<close>
  stands for an access outside the object (or, where fuel is used, for not having
  returned), never for an error the C code itself reports. C error returns stay
  the integers the code returns.
\<close>

unbundle bit_operations_syntax

type_synonym u8 = "8 word"
type_synonym u16 = "16 word"
type_synonym u32 = "32 word"
type_synonym u64 = "64 word"

named_theorems wp \<open>rules that push \<open>okw\<close> through a computation\<close>
named_theorems len_simps \<open>lengths of the buffers the operations return\<close>

section \<open>Computations that may fault\<close>

definition okw :: "'a option \<Rightarrow> ('a \<Rightarrow> bool) \<Rightarrow> bool" where
  "okw m Q \<longleftrightarrow> (case m of None \<Rightarrow> False | Some x \<Rightarrow> Q x)"

lemma okw_Some [wp, simp]: "okw (Some x) Q = Q x"
  by (simp add: okw_def)

lemma okw_None [wp, simp]: "okw None Q = False"
  by (simp add: okw_def)

lemma okw_bind [wp]: "okw (m \<bind> f) Q = okw m (\<lambda>x. okw (f x) Q)"
  by (cases m) simp_all

lemma okw_if [wp]: "okw (if b then m else n) Q = (if b then okw m Q else okw n Q)"
  by simp

lemma okw_mono: "okw m P \<Longrightarrow> (\<And>x. P x \<Longrightarrow> Q x) \<Longrightarrow> okw m Q"
  by (cases m) simp_all

lemma okw_ex: "okw m Q \<Longrightarrow> \<exists>x. m = Some x \<and> Q x"
  by (cases m) simp_all

lemma okw_conj: "okw m P \<Longrightarrow> okw m Q \<Longrightarrow> okw m (\<lambda>x. P x \<and> Q x)"
  by (cases m) simp_all

lemma okw_eqD: "okw m Q \<Longrightarrow> m = Some x \<Longrightarrow> Q x"
  by simp

section \<open>Bytes and memory blocks\<close>

definition rd :: "'a list \<Rightarrow> nat \<Rightarrow> 'a option" where
  "rd b i = (if i < length b then Some (b ! i) else None)"

definition mem_write :: "'a list \<Rightarrow> nat \<Rightarrow> 'a list \<Rightarrow> 'a list option" where
  "mem_write b off d =
     (if off + length d \<le> length b then Some (take off b @ d @ drop (off + length d) b)
      else None)"

definition mem_read :: "'a list \<Rightarrow> nat \<Rightarrow> nat \<Rightarrow> 'a list option" where
  "mem_read b off n = (if off + n \<le> length b then Some (take n (drop off b)) else None)"

lemma okw_rd [wp]: "okw (rd b i) Q \<longleftrightarrow> i < length b \<and> Q (b ! i)"
  by (auto simp: rd_def okw_def)

lemma rd_Some: "i < length b \<Longrightarrow> rd b i = Some (b ! i)"
  by (simp add: rd_def)

lemma mem_write_length [len_simps]: "mem_write b off d = Some b' \<Longrightarrow> length b' = length b"
  by (auto simp: mem_write_def split: if_splits)

lemma mem_write_take: "mem_write b off d = Some b' \<Longrightarrow> take off b' = take off b"
  by (auto simp: mem_write_def split: if_splits)

lemma mem_write_take_end:
  "mem_write b off d = Some b' \<Longrightarrow> take (off + length d) b' = take off b @ d"
  by (auto simp: mem_write_def split: if_splits)

lemma okw_mem_write [wp]:
  "okw (mem_write b off d) Q \<longleftrightarrow>
     off + length d \<le> length b \<and> Q (take off b @ d @ drop (off + length d) b)"
  by (auto simp: mem_write_def okw_def)

lemma okw_mem_read [wp]:
  "okw (mem_read b off n) Q \<longleftrightarrow> off + n \<le> length b \<and> Q (take n (drop off b))"
  by (auto simp: mem_read_def okw_def)

section \<open>Multi-byte values (little endian, \<^verbatim>\<open>WORDS_BIGENDIAN\<close> is undefined)\<close>

definition u16_bytes :: "u16 \<Rightarrow> u8 list" where
  "u16_bytes v = [ucast v, ucast (drop_bit 8 v)]"

definition u32_bytes :: "u32 \<Rightarrow> u8 list" where
  "u32_bytes v = [ucast v, ucast (drop_bit 8 v), ucast (drop_bit 16 v), ucast (drop_bit 24 v)]"

definition u16_of :: "u8 \<Rightarrow> u8 \<Rightarrow> u16" where
  "u16_of b0 b1 = ucast b0 OR push_bit 8 (ucast b1)"

definition u32_of :: "u8 \<Rightarrow> u8 \<Rightarrow> u8 \<Rightarrow> u8 \<Rightarrow> u32" where
  "u32_of b0 b1 b2 b3 =
     ucast b0 OR push_bit 8 (ucast b1) OR push_bit 16 (ucast b2) OR push_bit 24 (ucast b3)"

definition get_u16 :: "u8 list \<Rightarrow> nat \<Rightarrow> u16 option" where
  "get_u16 b i = (if i + 2 \<le> length b then Some (u16_of (b ! i) (b ! (i + 1))) else None)"

definition get_u32 :: "u8 list \<Rightarrow> nat \<Rightarrow> u32 option" where
  "get_u32 b i =
     (if i + 4 \<le> length b then Some (u32_of (b ! i) (b ! (i + 1)) (b ! (i + 2)) (b ! (i + 3)))
      else None)"

definition put_u16 :: "u8 list \<Rightarrow> nat \<Rightarrow> u16 \<Rightarrow> u8 list option" where
  "put_u16 b i v = mem_write b i (u16_bytes v)"

definition put_u32 :: "u8 list \<Rightarrow> nat \<Rightarrow> u32 \<Rightarrow> u8 list option" where
  "put_u32 b i v = mem_write b i (u32_bytes v)"

lemma length_u16_bytes [simp]: "length (u16_bytes v) = 2"
  by (simp add: u16_bytes_def)

lemma length_u32_bytes [simp]: "length (u32_bytes v) = 4"
  by (simp add: u32_bytes_def)

lemma okw_get_u16 [wp]:
  "okw (get_u16 b i) Q \<longleftrightarrow> i + 2 \<le> length b \<and> Q (u16_of (b ! i) (b ! (i + 1)))"
  by (auto simp: get_u16_def okw_def)

lemma okw_get_u32 [wp]:
  "okw (get_u32 b i) Q \<longleftrightarrow>
     i + 4 \<le> length b \<and> Q (u32_of (b ! i) (b ! (i + 1)) (b ! (i + 2)) (b ! (i + 3)))"
  by (auto simp: get_u32_def okw_def)

lemma u16_of_bytes: "u16_of (ucast v) (ucast (drop_bit 8 v)) = v"
  unfolding u16_of_def
  by (rule bit_word_eqI)
    (auto simp: bit_or_iff bit_push_bit_iff bit_ucast_iff bit_drop_bit_eq)

lemma u32_of_bytes:
  "u32_of (ucast v) (ucast (drop_bit 8 v)) (ucast (drop_bit 16 v)) (ucast (drop_bit 24 v)) = v"
proof (rule bit_word_eqI)
  fix n assume "n < LENGTH(32)"
  then consider "n < 8" | "8 \<le> n" "n < 16" | "16 \<le> n" "n < 24" | "24 \<le> n" "n < 32"
    by fastforce
  then show "bit (u32_of (ucast v) (ucast (drop_bit 8 v)) (ucast (drop_bit 16 v))
      (ucast (drop_bit 24 v))) n = bit v n"
    by cases (auto simp: u32_of_def bit_or_iff bit_push_bit_iff bit_ucast_iff bit_drop_bit_eq)
qed

lemma get_put_u16: "put_u16 b i v = Some b' \<Longrightarrow> get_u16 b' i = Some v"
  by (auto simp: put_u16_def mem_write_def get_u16_def u16_bytes_def nth_append u16_of_bytes
      split: if_splits)

lemma get_put_u32: "put_u32 b i v = Some b' \<Longrightarrow> get_u32 b' i = Some v"
  by (auto simp: put_u32_def mem_write_def get_u32_def u32_bytes_def nth_append u32_of_bytes
      split: if_splits)

end
