(* ===== verification/Utf8.thy ===== *)
theory Utf8
  imports Prelude
begin

text \<open>
  UTF-8 encoding and decoding (\<open>unicode_to_utf8\<close> and \<open>unicode_from_utf8\<close> of
  \<^verbatim>\<open>cutils.c\<close>), for code points of up to 31 bits. The encoder is modelled by the list of
  bytes it stores; its length is the C return value. The decoder reads a block at an
  offset; its result is the C return value together with the new \<open>*pp\<close> (the old one on
  error), \<open>None\<close> if it reads outside the block.
\<close>

definition utf8_tail :: "u32 \<Rightarrow> nat \<Rightarrow> u8" where
  "utf8_tail c k = ucast ((drop_bit k c AND 0x3f) OR 0x80)"

definition unicode_to_utf8 :: "u32 \<Rightarrow> u8 list" where
  "unicode_to_utf8 c =
     (if c < 0x80 then [ucast c]
      else if c < 0x800 then [ucast (drop_bit 6 c OR 0xc0), utf8_tail c 0]
      else if c < 0x10000 then [ucast (drop_bit 12 c OR 0xe0), utf8_tail c 6, utf8_tail c 0]
      else if c < 0x00200000 then
        [ucast (drop_bit 18 c OR 0xf0), utf8_tail c 12, utf8_tail c 6, utf8_tail c 0]
      else if c < 0x04000000 then
        [ucast (drop_bit 24 c OR 0xf8), utf8_tail c 18, utf8_tail c 12, utf8_tail c 6,
         utf8_tail c 0]
      else if c < 0x80000000 then
        [ucast (drop_bit 30 c OR 0xfc), utf8_tail c 24, utf8_tail c 18, utf8_tail c 12,
         utf8_tail c 6, utf8_tail c 0]
      else [])"

definition utf8_min_code :: "nat \<Rightarrow> u32" where
  "utf8_min_code i = [0x80, 0x800, 0x10000, 0x00200000, 0x04000000] ! i"

definition utf8_first_code_mask :: "nat \<Rightarrow> u32" where
  "utf8_first_code_mask i = [0x1f, 0xf, 0x7, 0x3, 0x1] ! i"

text \<open>The \<open>switch\<close> on the lead byte: the number \<open>l\<close> of bytes that follow it.\<close>

definition utf8_lead_len :: "u8 \<Rightarrow> nat option" where
  "utf8_lead_len c =
     (if 0xc0 \<le> c \<and> c \<le> 0xdf then Some 1
      else if 0xe0 \<le> c \<and> c \<le> 0xef then Some 2
      else if 0xf0 \<le> c \<and> c \<le> 0xf7 then Some 3
      else if 0xf8 \<le> c \<and> c \<le> 0xfb then Some 4
      else if 0xfc \<le> c \<and> c \<le> 0xfd then Some 5
      else None)"

text \<open>The loop over the following bytes; the inner option is its early \<open>return -1\<close>.\<close>

fun utf8_tail_loop :: "u8 list \<Rightarrow> nat \<Rightarrow> nat \<Rightarrow> u32 \<Rightarrow> (u32 \<times> nat) option option" where
  "utf8_tail_loop blk p 0 c = Some (Some (c, p))"
| "utf8_tail_loop blk p (Suc i) c = do {
     b \<leftarrow> rd blk p;
     if b < 0x80 \<or> b \<ge> 0xc0 then Some None
     else utf8_tail_loop blk (p + 1) i (push_bit 6 c OR (ucast b AND 0x3f))
   }"

definition unicode_from_utf8 :: "u8 list \<Rightarrow> nat \<Rightarrow> int \<Rightarrow> (int \<times> nat) option" where
  "unicode_from_utf8 blk p max_len = do {
     c \<leftarrow> rd blk p;
     if c < 0x80 then Some (uint c, p + 1)
     else (case utf8_lead_len c of
         None \<Rightarrow> Some (- 1, p)
       | Some l \<Rightarrow>
           if int l > max_len - 1 then Some (- 1, p)
           else do {
             r \<leftarrow> utf8_tail_loop blk (p + 1) l (ucast c AND utf8_first_code_mask (l - 1));
             (case r of
                None \<Rightarrow> Some (- 1, p)
              | Some (v, p') \<Rightarrow>
                  if v < utf8_min_code (l - 1) then Some (- 1, p) else Some (sint v, p'))
           })
   }"

section \<open>Bits\<close>

lemma less_exp_bit: "(c :: 'a :: len word) < 2 ^ k \<Longrightarrow> bit c n \<Longrightarrow> n < k"
proof -
  assume "c < 2 ^ k" "bit c n"
  then have "c = take_bit k c"
    by (metis less_mask_eq take_bit_eq_mask)
  then show ?thesis using \<open>bit c n\<close> by (metis bit_take_bit_iff)
qed

lemma u8_eqI:
  fixes a b :: u8
  assumes "bit a 0 = bit b 0" "bit a 1 = bit b 1" "bit a 2 = bit b 2" "bit a 3 = bit b 3"
    "bit a 4 = bit b 4" "bit a 5 = bit b 5" "bit a 6 = bit b 6" "bit a 7 = bit b 7"
  shows "a = b"
proof (rule bit_word_eqI)
  fix n assume "n < LENGTH(8)"
  then have "n = 0 \<or> n = 1 \<or> n = 2 \<or> n = 3 \<or> n = 4 \<or> n = 5 \<or> n = 6 \<or> n = 7" by auto
  then show "bit a n = bit b n" using assms by auto
qed

lemma u8_leI: "(a :: u8) AND b = a \<Longrightarrow> a \<le> b"
  by (metis word_and_le1)

lemma u8_geI: "(b :: u8) OR a = a \<Longrightarrow> b \<le> a"
  by (metis le_word_or2 or.commute)

lemma u8_between:
  assumes "lo OR a = a" and "a AND hi = (a :: u8)"
  shows "lo \<le> a \<and> a \<le> hi"
  using u8_leI [OF assms(2)] u8_geI [OF assms(1)] by simp

lemma utf8_tail_range: "0x80 \<le> utf8_tail c k \<and> utf8_tail c k \<le> 0xbf"
  unfolding utf8_tail_def
  by (rule u8_between) (rule u8_eqI; simp add: bit_simps)+

lemma bit_63 [simp]: "bit (63 :: int) n \<longleftrightarrow> n < 6"
  using bit_mask_iff [where 'a = int, of 6 n] by (simp add: mask_eq_exp_minus_1)

lemma utf8_tail_low: "ucast (utf8_tail c k) AND (0x3f :: u32) = drop_bit k c AND 0x3f"
proof (rule bit_word_eqI)
  fix n assume "n < LENGTH(32)"
  show "bit (ucast (utf8_tail c k) AND (0x3f :: u32)) n = bit (drop_bit k c AND 0x3f) n"
  proof (cases "n < 6")
    case True
    then have "n = 0 \<or> n = 1 \<or> n = 2 \<or> n = 3 \<or> n = 4 \<or> n = 5" by auto
    then show ?thesis by (auto simp: utf8_tail_def bit_simps)
  qed (simp add: bit_and_iff)
qed

lemma utf8_join: "push_bit 6 (drop_bit (k + 6) c) OR (drop_bit k c AND 0x3f) = drop_bit k (c :: u32)"
proof (rule bit_word_eqI)
  fix n assume "n < LENGTH(32)"
  then show "bit (push_bit 6 (drop_bit (k + 6) c) OR (drop_bit k c AND 0x3f)) n = bit (drop_bit k c) n"
    by (cases "n < 6") (auto simp: bit_simps add.commute add.left_commute)
qed

text \<open>Decoding the tail bytes that the encoder wrote puts the code point back together.\<close>

lemma utf8_tail_loop_enc:
  assumes "p + i \<le> length blk" and "\<And>j. j < i \<Longrightarrow> blk ! (p + j) = utf8_tail c (6 * (i - 1 - j))"
  shows "utf8_tail_loop blk p i (drop_bit (6 * i) c) = Some (Some (c, p + i))"
  using assms
proof (induction i arbitrary: p)
  case (Suc i)
  have b: "blk ! p = utf8_tail c (6 * i)" using Suc.prems(2) [of 0] by simp
  have r: "rd blk p = Some (utf8_tail c (6 * i))" using Suc.prems(1) b by (simp add: rd_def)
  have g: "\<not> (utf8_tail c (6 * i) < 0x80 \<or> utf8_tail c (6 * i) \<ge> 0xc0)"
    using utf8_tail_range [of c "6 * i"] by (auto dest: order.trans)
  have j: "push_bit 6 (drop_bit (6 * Suc i) c) OR (ucast (utf8_tail c (6 * i)) AND 0x3f) =
      drop_bit (6 * i) c"
    using utf8_join [of "6 * i" c] by (simp add: utf8_tail_low add.commute)
  have "utf8_tail_loop blk (p + 1) i (drop_bit (6 * i) c) = Some (Some (c, p + 1 + i))"
    using Suc.prems(1) Suc.prems(2) [of "Suc _"] by (intro Suc.IH) auto
  then show ?case using r g j by simp
qed simp

text \<open>The same for the lead byte.\<close>

lemma bit_lead_masks [simp]:
  "bit (31 :: int) n \<longleftrightarrow> n < 5" "bit (15 :: int) n \<longleftrightarrow> n < 4" "bit (7 :: int) n \<longleftrightarrow> n < 3"
  "bit (3 :: int) n \<longleftrightarrow> n < 2"
  using bit_mask_iff [where 'a = int, of 5 n] bit_mask_iff [where 'a = int, of 4 n]
    bit_mask_iff [where 'a = int, of 3 n] bit_mask_iff [where 'a = int, of 2 n]
  by (simp_all add: mask_eq_exp_minus_1)

lemma lead_dec:
  fixes x :: u32 and L :: u8 and m :: nat
  assumes "x < 2 ^ m" and "m \<le> 8" and "\<And>n. n < m \<Longrightarrow> \<not> bit L n"
  shows "ucast (ucast x OR L :: u8) AND mask m = x"
proof (rule bit_word_eqI)
  fix n assume "n < LENGTH(32)"
  then show "bit (ucast (ucast x OR L :: u8) AND (mask m :: u32)) n = bit x n"
    using less_exp_bit [OF assms(1), of n] assms(2,3) by (auto simp: bit_simps)
qed

lemma lead_masks:
  "(0x1f :: u32) = mask 5" "(0xf :: u32) = mask 4" "(0x7 :: u32) = mask 3"
  "(0x3 :: u32) = mask 2" "(0x1 :: u32) = mask 1"
  by (simp_all add: mask_eq_exp_minus_1)

lemma less_exp_unat:
  fixes w :: "'a :: len word"
  assumes "n < LENGTH('a)"
  shows "w < 2 ^ n \<longleftrightarrow> unat w < 2 ^ n"
proof -
  have "w < 2 ^ n \<longleftrightarrow> uint w < 2 ^ n" using assms by (simp add: word_2p_lem word_size)
  also have "\<dots> \<longleftrightarrow> int (unat w) < int (2 ^ n)" by simp
  also have "\<dots> \<longleftrightarrow> unat w < 2 ^ n" by (simp only: of_nat_less_iff)
  finally show ?thesis .
qed

lemma drop_bit_less:
  fixes c :: u32
  assumes "c < 2 ^ (k + m)" and "k + m < 32"
  shows "drop_bit k c < 2 ^ m"
proof -
  have "unat c < 2 ^ (k + m)" using less_exp_unat [of "k + m" c] assms by simp
  then have "unat c < 2 ^ m * 2 ^ k" by (simp add: power_add mult.commute)
  then have "unat c div 2 ^ k < 2 ^ m" by (rule less_mult_imp_div_less)
  then have "unat (drop_bit k c) < 2 ^ m"
    by (subst unat_drop_bit_eq) (simp add: drop_bit_eq_div)
  then show ?thesis using less_exp_unat [of m "drop_bit k c"] assms(2) by simp
qed

lemma lead_bounds:
  assumes "x < 2 ^ m" and "m \<le> 8"
  shows "L \<le> (ucast (x :: u32) OR L :: u8)" and "(ucast x OR L :: u8) \<le> (mask m OR L)"
proof -
  show "L \<le> (ucast x OR L :: u8)" by (metis le_word_or2 or.commute)
  have "(ucast x OR L :: u8) AND (mask m OR L) = ucast x OR L"
    by (rule bit_word_eqI) (use less_exp_bit [OF assms(1)] in \<open>auto simp: bit_simps\<close>)
  then show "(ucast x OR L :: u8) \<le> (mask m OR L)" by (rule u8_leI)
qed

lemma sint_eq_uint_31:
  assumes "(c :: u32) < 0x80000000"
  shows "sint c = uint c"
proof -
  have u: "uint c < 2 ^ 31" using assms word_2p_lem [of 31 c] by (simp add: word_size)
  then have "take_bit 31 (uint c) = uint c" by (simp add: take_bit_int_eq_self)
  then have "\<not> bit (uint c) 31" by (metis bit_take_bit_iff less_irrefl)
  then show ?thesis
    using \<open>take_bit 31 (uint c) = uint c\<close> by (simp add: sint_uint signed_take_bit_eq_if_positive)
qed

text \<open>
  The heart of the round trip: a block that holds, from \<open>p\<close> on, a lead byte built from
  the top bits of \<open>c\<close> and the \<open>l\<close> tail bytes of \<open>c\<close> decodes to \<open>c\<close>.
\<close>

lemma utf8_decode_seq:
  fixes c :: u32 and L :: u8
  assumes blk: "p + l < length blk" "blk ! p = ucast (drop_bit (6 * l) c) OR L"
    "\<And>j. j < l \<Longrightarrow> blk ! (p + 1 + j) = utf8_tail c (6 * (l - 1 - j))"
    and lead: "utf8_lead_len (ucast (drop_bit (6 * l) c) OR L) = Some l"
      "utf8_first_code_mask (l - 1) = mask m" "\<And>n. n < m \<Longrightarrow> \<not> bit L n" "m \<le> 8"
      "0x80 \<le> L"
    and c: "drop_bit (6 * l) c < 2 ^ m" "\<not> c < utf8_min_code (l - 1)" "c < 0x80000000"
    and max: "int l \<le> max_len - 1"
  shows "unicode_from_utf8 blk p max_len = Some (uint c, p + 1 + l)"
proof -
  let ?b = "ucast (drop_bit (6 * l) c) OR L"
  have "0x80 \<le> ?b" using lead(5) lead_bounds(1) [OF c(1) lead(4), of L] by (rule order.trans)
  then have nb: "\<not> ?b < 0x80" by simp
  have d: "ucast ?b AND utf8_first_code_mask (l - 1) = drop_bit (6 * l) c"
    unfolding lead(2) by (rule lead_dec [OF c(1) lead(4,3)])
  have t: "utf8_tail_loop blk (p + 1) l (drop_bit (6 * l) c) = Some (Some (c, p + 1 + l))"
    using blk(1,3) by (intro utf8_tail_loop_enc) auto
  have "sint c = uint c" using c(3) by (rule sint_eq_uint_31)
  then show ?thesis
    using blk nb lead(1) d t c(2) max by (simp add: unicode_from_utf8_def rd_def)
qed

definition at_offset :: "u8 list \<Rightarrow> nat \<Rightarrow> u8 list \<Rightarrow> bool" where
  "at_offset blk p d \<longleftrightarrow> p + length d \<le> length blk \<and> take (length d) (drop p blk) = d"

lemma at_offset_nth: "at_offset blk p d \<Longrightarrow> j < length d \<Longrightarrow> blk ! (p + j) = d ! j"
  by (metis at_offset_def nth_take nth_drop add_leD1 )

lemma lead_lens:
  "0xc0 \<le> b \<Longrightarrow> b \<le> 0xdf \<Longrightarrow> utf8_lead_len b = Some 1"
  "0xe0 \<le> b \<Longrightarrow> b \<le> 0xef \<Longrightarrow> utf8_lead_len b = Some 2"
  "0xf0 \<le> b \<Longrightarrow> b \<le> 0xf7 \<Longrightarrow> utf8_lead_len b = Some 3"
  "0xf8 \<le> b \<Longrightarrow> b \<le> 0xfb \<Longrightarrow> utf8_lead_len b = Some 4"
  "0xfc \<le> b \<Longrightarrow> b \<le> 0xfd \<Longrightarrow> utf8_lead_len b = Some 5"
  by (auto simp: utf8_lead_len_def word_le_nat_alt)

lemma less_cases:
  "n < (5::nat) \<Longrightarrow> n = 0 \<or> n = 1 \<or> n = 2 \<or> n = 3 \<or> n = 4"
  "n < (4::nat) \<Longrightarrow> n = 0 \<or> n = 1 \<or> n = 2 \<or> n = 3"
  "n < (3::nat) \<Longrightarrow> n = 0 \<or> n = 1 \<or> n = 2"
  "n < (2::nat) \<Longrightarrow> n = 0 \<or> n = 1"
  by auto

lemma bit_lead_consts:
  "n < 5 \<Longrightarrow> \<not> bit (0xc0 :: u8) n" "n < 4 \<Longrightarrow> \<not> bit (0xe0 :: u8) n" "n < 3 \<Longrightarrow> \<not> bit (0xf0 :: u8) n"
  "n < 2 \<Longrightarrow> \<not> bit (0xf8 :: u8) n" "n < 1 \<Longrightarrow> \<not> bit (0xfc :: u8) n"
  by (auto simp: bit_simps dest!: less_cases)

text \<open>The shape of a sequence of \<open>l + 1\<close> bytes: lead byte \<open>L\<close> with \<open>m\<close> payload bits.\<close>

definition utf8_shape :: "nat \<Rightarrow> u8 \<Rightarrow> nat \<Rightarrow> bool" where
  "utf8_shape l L m \<longleftrightarrow> (l, L, m) \<in> {(1, 0xc0, 5), (2, 0xe0, 4), (3, 0xf0, 3), (4, 0xf8, 2), (5, 0xfc, 1)}"

lemma utf8_shape_facts:
  assumes "utf8_shape l L m"
  shows "utf8_first_code_mask (l - 1) = mask m" and "n < m \<Longrightarrow> \<not> bit L n" and "m \<le> 8"
    and "0x80 \<le> L" and "6 * l + m < 32" and "l \<le> 5"
    and "L \<le> b \<Longrightarrow> b \<le> mask m OR L \<Longrightarrow> utf8_lead_len b = Some l"
  using assms bit_lead_consts [of n]
  by (auto simp: utf8_shape_def utf8_first_code_mask_def lead_masks [symmetric] mask_eq_exp_minus_1
      intro: lead_lens lead_lens(1) [unfolded One_nat_def])

lemma utf8_multi:
  assumes sh: "utf8_shape l L m"
    and enc: "unicode_to_utf8 c = (ucast (drop_bit (6 * l) c) OR L) #
        map (\<lambda>j. utf8_tail c (6 * (l - 1 - j))) [0..<l]"
    and r: "c < 2 ^ (6 * l + m)" "\<not> c < utf8_min_code (l - 1)" "c < 0x80000000"
    and at: "at_offset blk p (unicode_to_utf8 c)" and max: "6 \<le> max_len"
  shows "unicode_from_utf8 blk p max_len = Some (uint c, p + length (unicode_to_utf8 c))"
proof -
  note f = utf8_shape_facts [OF sh]
  have d: "drop_bit (6 * l) c < 2 ^ m" using r(1) f(5) by (intro drop_bit_less)
  have ln: "length (unicode_to_utf8 c) = Suc l" by (simp add: enc)
  have n: "blk ! (p + j) = unicode_to_utf8 c ! j" if "j < Suc l" for j
    using at_offset_nth [OF at] that ln by simp
  have n0: "blk ! p = ucast (drop_bit (6 * l) c) OR L" using n [of 0] by (simp add: enc)
  have nj: "blk ! (p + 1 + j) = utf8_tail c (6 * (l - 1 - j))" if "j < l" for j
    using n [of "Suc j"] that by (simp add: enc)
  have "unicode_from_utf8 blk p max_len = Some (uint c, p + 1 + l)"
  proof (rule utf8_decode_seq [OF _ n0 nj _ f(1) f(2) f(3) f(4) d r(2,3)])
    show "p + l < length blk" using at ln by (simp add: at_offset_def)
    show "utf8_lead_len (ucast (drop_bit (6 * l) c) OR L) = Some l"
      using lead_bounds [OF d f(3), of L] by (intro f(7))
    show "int l \<le> max_len - 1" using f(6) max by simp
  qed
  then show ?thesis by (simp add: ln)
qed

lemma utf8_enc_forms:
  "\<not> c < 0x80 \<Longrightarrow> c < 0x800 \<Longrightarrow>
    unicode_to_utf8 c = [ucast (drop_bit 6 c) OR 0xc0, utf8_tail c 0]"
  "\<not> c < 0x800 \<Longrightarrow> c < 0x10000 \<Longrightarrow>
    unicode_to_utf8 c = [ucast (drop_bit 12 c) OR 0xe0, utf8_tail c 6, utf8_tail c 0]"
  "\<not> c < 0x10000 \<Longrightarrow> c < 0x200000 \<Longrightarrow>
    unicode_to_utf8 c = [ucast (drop_bit 18 c) OR 0xf0, utf8_tail c 12, utf8_tail c 6, utf8_tail c 0]"
  "\<not> c < 0x200000 \<Longrightarrow> c < 0x4000000 \<Longrightarrow>
    unicode_to_utf8 c = [ucast (drop_bit 24 c) OR 0xf8, utf8_tail c 18, utf8_tail c 12,
      utf8_tail c 6, utf8_tail c 0]"
  "\<not> c < 0x4000000 \<Longrightarrow> c < 0x80000000 \<Longrightarrow>
    unicode_to_utf8 c = [ucast (drop_bit 30 c) OR 0xfc, utf8_tail c 24, utf8_tail c 18,
      utf8_tail c 12, utf8_tail c 6, utf8_tail c 0]"
  by (simp_all add: unicode_to_utf8_def word_less_nat_alt unsigned_or_eq)

lemma utf8_roundtrip_gen:
  assumes at: "at_offset blk p (unicode_to_utf8 c)" and c: "c < 0x80000000" and max: "6 \<le> max_len"
  shows "unicode_from_utf8 blk p max_len = Some (uint c, p + length (unicode_to_utf8 c))"
proof -
  consider "c < 0x80" | "\<not> c < 0x80" "c < 0x800" | "\<not> c < 0x800" "c < 0x10000"
    | "\<not> c < 0x10000" "c < 0x200000" | "\<not> c < 0x200000" "c < 0x4000000" | "\<not> c < 0x4000000"
    by blast
  then show ?thesis
  proof cases
    case 1
    then have e: "unicode_to_utf8 c = [ucast c]" by (simp add: unicode_to_utf8_def)
    have u: "uint c < 128" using 1 by (simp add: word_less_def)
    then have v: "uint (ucast c :: u8) = uint c"
      by (simp add: unsigned_ucast_eq take_bit_int_eq_self)
    then have "(ucast c :: u8) < 0x80" using u by (simp add: word_less_def)
    then show ?thesis
      using v e at at_offset_nth [OF at, of 0] by (simp add: unicode_from_utf8_def rd_def at_offset_def)
  next
    case 2
    show ?thesis
      by (rule utf8_multi [where l = 1 and L = "0xc0" and m = 5])
        (use 2 c at max in \<open>simp_all add: utf8_shape_def utf8_enc_forms utf8_min_code_def\<close>)
  next
    case 3
    show ?thesis
      by (rule utf8_multi [where l = 2 and L = "0xe0" and m = 4])
        (use 3 c at max in \<open>simp_all add: utf8_shape_def utf8_enc_forms utf8_min_code_def upt_rec\<close>)
  next
    case 4
    show ?thesis
      by (rule utf8_multi [where l = 3 and L = "0xf0" and m = 3])
        (use 4 c at max in \<open>simp_all add: utf8_shape_def utf8_enc_forms utf8_min_code_def upt_rec\<close>)
  next
    case 5
    show ?thesis
      by (rule utf8_multi [where l = 4 and L = "0xf8" and m = 2])
        (use 5 c at max in \<open>simp_all add: utf8_shape_def utf8_enc_forms utf8_min_code_def upt_rec\<close>)
  next
    case 6
    show ?thesis
      by (rule utf8_multi [where l = 5 and L = "0xfc" and m = 1])
        (use 6 c at max in \<open>simp_all add: utf8_shape_def utf8_enc_forms utf8_min_code_def upt_rec\<close>)
  qed
qed

section \<open>The decoder accepts only what the encoder writes\<close>

lemma utf8_tail_byte:
  fixes b :: u8
  assumes "\<not> (b < 0x80 \<or> b \<ge> 0xc0)"
  shows "ucast ((ucast b AND (0x3f :: u32)) OR 0x80) = b"
proof -
  have "0x80 \<le> b" "b < 0xc0" using assms by auto
  then have "128 \<le> unat b" "unat b < 192" by (simp_all add: word_le_nat_alt word_less_nat_alt)
  then have "unat b div 2 ^ 6 = 2" "unat b div 2 ^ 7 = 1" by (simp_all add: div_nat_eqI)
  then have "\<not> bit (unat b) 6" "bit (unat b) 7" by (simp_all add: bit_iff_odd)
  then have "\<not> bit b 6" "bit b 7" by (simp_all add: bit_unsigned_iff)
  then show ?thesis by (intro u8_eqI) (simp_all add: bit_simps)
qed

lemma bit_and_63: "bit (w AND (0x3f :: u32)) n \<longleftrightarrow> bit w n \<and> n < 6"
  by (auto simp: bit_and_iff bit_simps)

lemma utf8_tail_split1:
  fixes c :: u32 and b :: u8
  assumes "c < 2 ^ m" and "m \<le> 26"
  shows "drop_bit 6 (push_bit 6 c OR (ucast b AND 0x3f)) = c"
proof (rule bit_word_eqI)
  fix n
  have "bit c n \<Longrightarrow> n < m" by (rule less_exp_bit [OF assms(1)])
  then have n: "bit c n \<Longrightarrow> n + 6 < 32" using assms(2) by linarith
  have "bit (drop_bit 6 (push_bit 6 c OR (ucast b AND (0x3f :: u32)))) n \<longleftrightarrow> bit c n \<and> n + 6 < 32"
    by (auto simp only: bit_drop_bit_eq bit_or_iff bit_push_bit_iff bit_and_63 comp_def) simp_all
  then show "bit (drop_bit 6 (push_bit 6 c OR (ucast b AND (0x3f :: u32)))) n = bit c n"
    using n by blast
qed

lemma utf8_tail_split2:
  "(push_bit 6 c OR (ucast (b :: u8) AND 0x3f)) AND 0x3f = ucast b AND (0x3f :: u32)"
  by (rule bit_word_eqI) (auto simp only: bit_or_iff bit_push_bit_iff bit_and_63)

lemma take_bit_self_less:
  fixes v :: u32
  assumes "take_bit k v = v" and "k < 32"
  shows "v < 2 ^ k"
proof -
  have "take_bit k (unat v) = unat v" using assms(1) by (metis unsigned_take_bit_eq)
  then have "unat v < 2 ^ k" using take_bit_nat_less_exp [of k "unat v"] by simp
  then show ?thesis using less_exp_unat [of k v] assms(2) by simp
qed

lemma utf8_tail_split3:
  fixes c :: u32 and b :: u8
  assumes "c < 2 ^ m" and "m < 26"
  shows "push_bit 6 c OR (ucast b AND 0x3f) < 2 ^ (m + 6)"
proof -
  let ?v = "push_bit 6 c OR (ucast b AND 0x3f)"
  have "take_bit (m + 6) ?v = ?v"
  proof (rule bit_word_eqI)
    fix n
    have "n < m + 6" if v: "bit ?v n"
    proof (cases "n < 6")
      case False
      then have "bit c (n - 6)"
        using v by (simp only: bit_or_iff bit_push_bit_iff bit_and_63) blast
      then have "n - 6 < m" by (rule less_exp_bit [OF assms(1)])
      then show ?thesis by simp
    qed simp
    then show "bit (take_bit (m + 6) ?v) n = bit ?v n" by (auto simp only: bit_take_bit_iff)
  qed
  then show ?thesis using assms(2) by (intro take_bit_self_less) auto
qed

lemma utf8_tail_loop_dec:
  assumes "utf8_tail_loop blk p i c = Some (Some (v, p'))" and "c < 2 ^ m" and "6 * i + m \<le> 31"
  shows "p' = p + i \<and> drop_bit (6 * i) v = c \<and> v < 2 ^ (6 * i + m) \<and>
    (\<forall>j < i. p + j < length blk \<and> blk ! (p + j) = utf8_tail v (6 * (i - 1 - j)))"
  using assms
proof (induction i arbitrary: p c m)
  case (Suc i)
  let ?b = "blk ! p"
  let ?c = "push_bit 6 c OR (ucast ?b AND 0x3f)"
  have b: "p < length blk" "\<not> (?b < 0x80 \<or> ?b \<ge> 0xc0)"
    and l: "utf8_tail_loop blk (p + 1) i ?c = Some (Some (v, p'))"
    using Suc.prems(1) by (auto simp: rd_def split: if_splits)
  have m: "m \<le> 25" using Suc.prems(3) by simp
  note sp = utf8_tail_split1 [OF Suc.prems(2), of ?b] utf8_tail_split2 [of c ?b]
    utf8_tail_split3 [OF Suc.prems(2), of ?b]
  have IH: "p' = p + 1 + i \<and> drop_bit (6 * i) v = ?c \<and> v < 2 ^ (6 * i + (m + 6)) \<and>
    (\<forall>j < i. p + 1 + j < length blk \<and> blk ! (p + 1 + j) = utf8_tail v (6 * (i - 1 - j)))"
    using Suc.prems(3) m sp(3) by (intro Suc.IH [OF l]) auto
  have "drop_bit (6 * Suc i) v = drop_bit 6 (drop_bit (6 * i) v)" by simp
  then have d: "drop_bit (6 * Suc i) v = c" using IH sp(1) m by simp
  have "utf8_tail v (6 * i) = ?b"
    using IH sp(2) m utf8_tail_byte [OF b(2)] by (simp add: utf8_tail_def)
  then have "\<forall>j < Suc i. p + j < length blk \<and> blk ! (p + j) = utf8_tail v (6 * (Suc i - 1 - j))"
    using IH b(1) by (auto simp: less_Suc_eq_0_disj)
  then show ?case using IH d by (simp add: ac_simps)
qed simp

lemma utf8_lead_shape:
  assumes "utf8_lead_len b = Some l"
  shows "\<exists>L m. utf8_shape l L m \<and> ucast (ucast b AND (mask m :: u32)) OR L = b"
proof -
  have eq: "ucast (ucast b AND (mask m :: u32)) OR (push_bit m k) = b"
    if "drop_bit m b = k" for m and k :: u8
  proof (rule bit_word_eqI)
    fix n assume "n < LENGTH(8)"
    then show "bit (ucast (ucast b AND (mask m :: u32)) OR (push_bit m k)) n = bit b n"
      using that by (cases "n < m") (auto simp: bit_simps)
  qed
  have dr: "drop_bit m b = k" if "unat b div 2 ^ m = unat k" for m and k :: u8
    by (rule unsigned_word_eqI, subst unat_drop_bit_eq) (simp only: drop_bit_eq_div that)
  consider "192 \<le> unat b" "unat b < 224" "l = 1" | "224 \<le> unat b" "unat b < 240" "l = 2"
    | "240 \<le> unat b" "unat b < 248" "l = 3" | "248 \<le> unat b" "unat b < 252" "l = 4"
    | "252 \<le> unat b" "unat b < 254" "l = 5"
    using assms by (auto simp: utf8_lead_len_def word_le_nat_alt split: if_splits)
  then show ?thesis
  proof cases
    case 1
    then have "unat b div 2 ^ 5 = unat (6 :: u8)" by (simp add: div_nat_eqI)
    from eq [OF dr [OF this]] show ?thesis using 1 by (auto simp: utf8_shape_def)
  next
    case 2
    then have "unat b div 2 ^ 4 = unat (14 :: u8)" by (simp add: div_nat_eqI)
    from eq [OF dr [OF this]] show ?thesis using 2 by (auto simp: utf8_shape_def)
  next
    case 3
    then have "unat b div 2 ^ 3 = unat (30 :: u8)" by (simp add: div_nat_eqI)
    from eq [OF dr [OF this]] show ?thesis using 3 by (auto simp: utf8_shape_def)
  next
    case 4
    then have "unat b div 2 ^ 2 = unat (62 :: u8)" by (simp add: div_nat_eqI)
    from eq [OF dr [OF this]] show ?thesis using 4 by (auto simp: utf8_shape_def)
  next
    case 5
    then have "unat b div 2 ^ 1 = unat (126 :: u8)" by (simp add: div_nat_eqI)
    from eq [OF dr [OF this]] show ?thesis using 5 by (auto simp: utf8_shape_def)
  qed
qed

text \<open>The encoder on a value with a given shape.\<close>

lemma utf8_enc_shape:
  assumes sh: "utf8_shape l L m" and v: "v < 2 ^ (6 * l + m)" "\<not> v < utf8_min_code (l - 1)"
  shows "unicode_to_utf8 v = (ucast (drop_bit (6 * l) v) OR L) #
    map (\<lambda>j. utf8_tail v (6 * (l - 1 - j))) [0..<l] \<and> v < 0x80000000"
proof -
  have f: "6 * l + m < 32" by (rule utf8_shape_facts(5) [OF sh])
  have u: "unat v < 2 ^ (6 * l + m)" using v(1) f less_exp_unat [of "6 * l + m" v] by simp
  have w: "unat (utf8_min_code (l - 1)) \<le> unat v"
    using v(2) by (simp add: not_less word_le_nat_alt)
  consider "l = 1 \<and> L = 0xc0 \<and> m = 5" | "l = 2 \<and> L = 0xe0 \<and> m = 4" | "l = 3 \<and> L = 0xf0 \<and> m = 3"
    | "l = 4 \<and> L = 0xf8 \<and> m = 2" | "l = 5 \<and> L = 0xfc \<and> m = 1"
    using sh by (auto simp: utf8_shape_def)
  then show ?thesis
  proof cases
    case 1
    then have "\<not> v < 0x80" "v < 0x800" "v < 0x80000000"
      using u w by (simp_all add: utf8_min_code_def word_less_nat_alt not_less)
    then show ?thesis using 1 by (simp add: utf8_enc_forms)
  next
    case 2
    then have "\<not> v < 0x800" "v < 0x10000" "v < 0x80000000"
      using u w by (simp_all add: utf8_min_code_def word_less_nat_alt not_less)
    then show ?thesis using 2 by (simp add: utf8_enc_forms upt_rec)
  next
    case 3
    then have "\<not> v < 0x10000" "v < 0x200000" "v < 0x80000000"
      using u w by (simp_all add: utf8_min_code_def word_less_nat_alt not_less)
    then show ?thesis using 3 by (simp add: utf8_enc_forms upt_rec)
  next
    case 4
    then have "\<not> v < 0x200000" "v < 0x4000000" "v < 0x80000000"
      using u w by (simp_all add: utf8_min_code_def word_less_nat_alt not_less)
    then show ?thesis using 4 by (simp add: utf8_enc_forms upt_rec)
  next
    case 5
    then have "\<not> v < 0x4000000" "v < 0x80000000"
      using u w by (simp_all add: utf8_min_code_def word_less_nat_alt not_less)
    then show ?thesis using 5 by (simp add: utf8_enc_forms upt_rec)
  qed
qed

lemma utf8_decode_shortest_gen:
  assumes "unicode_from_utf8 blk p max_len = Some (c, p')" and "0 \<le> c"
  shows "\<exists>w. c = uint w \<and> w < 0x80000000 \<and> at_offset blk p (unicode_to_utf8 w) \<and>
    p' = p + length (unicode_to_utf8 w)"
proof -
  let ?b = "blk ! p"
  have p: "p < length blk" using assms(1) by (auto simp: unicode_from_utf8_def rd_def split: if_splits)
  show ?thesis
  proof (cases "?b < 0x80")
    case True
    have u: "unat ?b < 128" using True by (simp add: word_less_nat_alt)
    let ?w = "ucast ?b :: u32"
    have "unat ?b < 2 ^ 32" using u by simp
    then have "unat ?w = unat ?b" by (simp add: unsigned_ucast_eq take_bit_nat_eq_self)
    then have "?w < 0x80" "?w < 0x80000000" using u by (simp_all add: word_less_nat_alt)
    moreover have "ucast ?w = ?b" by (rule bit_word_eqI) (simp add: bit_simps)
    moreover have "uint ?w = uint ?b" using \<open>unat ?w = unat ?b\<close> by (metis uint_nat)
    moreover have "c = uint ?b" "p' = p + 1"
      using assms(1) True p by (auto simp: unicode_from_utf8_def rd_def)
    moreover have "take (Suc 0) (drop p blk) = [?b]" using p by (simp add: take_Suc_conv_app_nth)
    ultimately show ?thesis using p
      by (intro exI [of _ ?w]) (simp add: unicode_to_utf8_def at_offset_def)
  next
    case False
    obtain l v where l: "utf8_lead_len ?b = Some l"
      and t: "utf8_tail_loop blk (p + 1) l (ucast ?b AND utf8_first_code_mask (l - 1)) = Some (Some (v, p'))"
      and v: "\<not> v < utf8_min_code (l - 1)" "c = sint v"
      using assms False p
      by (auto simp: unicode_from_utf8_def rd_def bind_eq_Some_conv split: option.splits if_splits)
    obtain L m where sh: "utf8_shape l L m" and L: "ucast (ucast ?b AND (mask m :: u32)) OR L = ?b"
      using utf8_lead_shape [OF l] by blast
    note f = utf8_shape_facts [OF sh]
    let ?c = "ucast ?b AND (mask m :: u32)"
    have "?c < 2 ^ m" using f(5) by (intro take_bit_self_less) (auto simp: take_bit_eq_mask)
    then have d: "p' = p + 1 + l \<and> drop_bit (6 * l) v = ?c \<and> v < 2 ^ (6 * l + m) \<and>
       (\<forall>j < l. p + 1 + j < length blk \<and> blk ! (p + 1 + j) = utf8_tail v (6 * (l - 1 - j)))"
      using t f(1,5) by (intro utf8_tail_loop_dec) auto
    then have enc: "unicode_to_utf8 v = ?b # map (\<lambda>j. utf8_tail v (6 * (l - 1 - j))) [0..<l]"
      and r: "v < 0x80000000"
      using utf8_enc_shape [OF sh _ v(1)] L by auto
    have len: "p + Suc l \<le> length blk"
      using d p by (cases l) force+
    have "take (Suc l) (drop p blk) = unicode_to_utf8 v"
      by (rule nth_equalityI) (use d len in \<open>auto simp: enc nth_Cons split: nat.splits\<close>)
    then have "at_offset blk p (unicode_to_utf8 v)" using len by (simp add: at_offset_def enc)
    moreover have "p' = p + length (unicode_to_utf8 v)" using d by (simp add: enc)
    ultimately show ?thesis using v(2) r sint_eq_uint_31 [OF r] by auto
  qed
qed

section \<open>Properties\<close>

text \<open>C29: decoding what the encoder wrote, wherever it stands in a block, gives the code
  point back and moves the pointer behind the sequence, for every code point below
  \<open>2 ^ 31\<close>.\<close>

theorem utf8_roundtrip:
  assumes "c < 0x80000000"
  shows "unicode_from_utf8 (pre @ unicode_to_utf8 c @ post) (length pre) 6 =
    Some (uint c, length pre + length (unicode_to_utf8 c))"
  by (rule utf8_roundtrip_gen) (use assms in \<open>simp_all add: at_offset_def\<close>)

theorem utf8_roundtrip_witness:
  "unicode_from_utf8 ([0x61] @ unicode_to_utf8 0x20ac @ [0]) (length [0x61 :: u8]) 6 = Some (0x20ac, 4) \<and>
   unicode_to_utf8 0x20ac = [0xe2, 0x82, 0xac]"
proof -
  have e: "unicode_to_utf8 0x20ac = [0xe2, 0x82, 0xac]" by code_simp
  then show ?thesis using utf8_roundtrip [where c = "0x20ac" and pre = "[0x61]" and post = "[0]"] by simp
qed



end
