(* ===== verification/Cutils_Str.thy ===== *)
theory Cutils_Str
  imports Prelude
begin

text \<open>
  The string helpers of \<^verbatim>\<open>cutils.c\<close> (\<open>pstrcpy\<close>, \<open>pstrcat\<close>, \<open>strstart\<close>,
  \<open>has_suffix\<close>) and \<open>from_hex\<close>, the byte swaps of \<^verbatim>\<open>cutils.h\<close>. A C string is a
  block of bytes with a terminating zero; \<open>cstr b w\<close> says that the block \<open>b\<close>
  holds the string \<open>w\<close>. Reading or writing outside a block is \<open>None\<close>.
\<close>

definition cstr :: "u8 list \<Rightarrow> u8 list \<Rightarrow> bool" where
  "cstr b w \<longleftrightarrow> 0 \<notin> set w \<and> (\<exists>r. b = w @ 0 # r)"

fun strlen :: "u8 list \<Rightarrow> nat option" where
  "strlen [] = None"
| "strlen (c # b) = (if c = 0 then Some 0 else map_option Suc (strlen b))"

lemma strlen_app: "0 \<notin> set w \<Longrightarrow> strlen (w @ 0 # r) = Some (length w)"
  by (induction w) auto

lemma strlen_cstr: "cstr b w \<Longrightarrow> strlen b = Some (length w)"
  by (auto simp: cstr_def strlen_app)

lemma cstr_length: "cstr b w \<Longrightarrow> length w < length b"
  by (auto simp: cstr_def)

lemma cstr_nth: "cstr b w \<Longrightarrow> i < length w \<Longrightarrow> b ! i = w ! i"
  by (auto simp: cstr_def nth_append)

lemma cstr_nth_end: "cstr b w \<Longrightarrow> b ! length w = 0"
  by (auto simp: cstr_def)

lemma cstr_nth_zero: "cstr b w \<Longrightarrow> i \<le> length w \<Longrightarrow> b ! i = 0 \<longleftrightarrow> i = length w"
proof (cases "i < length w")
  assume "cstr b w" "i < length w"
  then have "b ! i \<in> set w" "0 \<notin> set w" by (auto simp: cstr_def nth_append)
  then show ?thesis using \<open>i < length w\<close> by auto
qed (simp add: cstr_nth_end)

section \<open>Copying with truncation\<close>

function pstrcpy_loop :: "u8 list \<Rightarrow> int \<Rightarrow> u8 list \<Rightarrow> nat \<Rightarrow> nat \<Rightarrow> u8 list option" where
  "pstrcpy_loop buf buf_size str q i = do {
     c \<leftarrow> rd str i;
     if c = 0 \<or> int q \<ge> buf_size - 1 then mem_write buf q [0]
     else do {
       buf \<leftarrow> mem_write buf q [c];
       pstrcpy_loop buf buf_size str (q + 1) (i + 1)
     }
   }"
  by pat_completeness auto
termination
  by (relation "measure (\<lambda>(buf, buf_size, str, q, i). nat (buf_size - int q))") auto

declare pstrcpy_loop.simps [simp del]

definition pstrcpy :: "u8 list \<Rightarrow> int \<Rightarrow> u8 list \<Rightarrow> u8 list option" where
  "pstrcpy buf buf_size str =
     (if buf_size \<le> 0 then Some buf else pstrcpy_loop buf buf_size str 0 0)"

definition pstrcat :: "u8 list \<Rightarrow> int \<Rightarrow> u8 list \<Rightarrow> u8 list option" where
  "pstrcat buf buf_size s = do {
     len \<leftarrow> strlen buf;
     if int len < buf_size then do {
       tl \<leftarrow> pstrcpy (drop len buf) (buf_size - int len) s;
       Some (take len buf @ tl)
     } else Some buf
   }"

lemma pstrcpy_loop_spec:
  assumes "cstr str w" and "i \<le> length w" and "int q < buf_size" and "buf_size \<le> int (length buf)"
  shows "pstrcpy_loop buf buf_size str q i =
    Some (take q buf @ take (nat (buf_size - 1) - q) (drop i w) @ 0 #
          drop (q + min (nat (buf_size - 1) - q) (length w - i) + 1) buf)"
  using assms
proof (induction buf buf_size str q i rule: pstrcpy_loop.induct)
  case (1 buf buf_size str q i)
  have il: "i < length str" using "1.prems" cstr_length by fastforce
  show ?case
  proof (cases "str ! i = 0 \<or> int q \<ge> buf_size - 1")
    case True
    then have e: "take (nat (buf_size - 1) - q) (drop i w) = [] \<and>
        min (nat (buf_size - 1) - q) (length w - i) = 0"
      using "1.prems" cstr_nth_zero [of str w i] by auto
    show ?thesis
      using True "1.prems"(3,4) il e
      by (subst pstrcpy_loop.simps) (auto simp: rd_Some mem_write_def)
  next
    case False
    then have iw: "i < length w" using "1.prems" cstr_nth_zero [of str w i] by auto
    let ?b = "take q buf @ str ! i # drop (Suc q) buf"
    have w: "mem_write buf q [str ! i] = Some ?b"
      using "1.prems" by (simp add: mem_write_def)
    have IH: "pstrcpy_loop ?b buf_size str (q + 1) (i + 1) =
       Some (take (q + 1) ?b @ take (nat (buf_size - 1) - (q + 1)) (drop (i + 1) w) @ 0 #
          drop (q + 1 + min (nat (buf_size - 1) - (q + 1)) (length w - (i + 1)) + 1) ?b)"
      using "1.IH" [OF rd_Some [OF il] False w] "1.prems" False iw by simp
    have n: "nat (buf_size - 1) - q = Suc (nat (buf_size - 1) - (q + 1))"
      using False by auto
    have d: "drop i w = str ! i # drop (i + 1) w"
      using iw "1.prems"(1) by (simp add: Cons_nth_drop_Suc cstr_nth)
    have m: "min (nat (buf_size - 1) - q) (length w - i) =
        Suc (min (nat (buf_size - 1) - (q + 1)) (length w - (i + 1)))"
      using n iw by linarith
    have dr: "drop (q + 1 + k + 1) ?b = drop (q + Suc k + 1) buf" for k
      using "1.prems" by (simp add: add.commute)
    have tk: "take (q + 1) ?b = take q buf @ [str ! i]"
      using "1.prems" by simp
    have "pstrcpy_loop buf buf_size str q i = pstrcpy_loop ?b buf_size str (q + 1) (i + 1)"
      using False il w by (subst pstrcpy_loop.simps) (auto simp: rd_Some)
    then show ?thesis
      by (simp only: IH m d) (simp only: n dr tk, simp)
  qed
qed

lemma pstrcpy_spec:
  assumes "cstr str w" and "0 < buf_size" and "buf_size \<le> int (length buf)"
  shows "pstrcpy buf buf_size str =
    Some (take (nat (buf_size - 1)) w @ 0 # drop (min (nat (buf_size - 1)) (length w) + 1) buf)"
  using assms by (simp add: pstrcpy_def pstrcpy_loop_spec)

lemma cstr_truncate: "0 \<notin> set w \<Longrightarrow> cstr (take n w @ 0 # r) (take n w)"
  by (auto simp: cstr_def dest: in_set_takeD)

lemma pstrcat_spec:
  assumes b: "cstr buf v" and s: "cstr s w" and sz: "int (length v) < buf_size"
    and fit: "buf_size \<le> int (length buf)"
  shows "\<exists>buf'. pstrcat buf buf_size s = Some buf' \<and> length buf' = length buf \<and>
           cstr buf' (take (nat (buf_size - 1)) (v @ w))"
proof -
  let ?n = "nat (buf_size - int (length v) - 1)"
  let ?t = "take ?n w @ 0 # drop (min ?n (length w) + 1) (drop (length v) buf)"
  have "pstrcpy (drop (length v) buf) (buf_size - int (length v)) s = Some ?t"
    using pstrcpy_spec [OF s, of "buf_size - int (length v)" "drop (length v) buf"] sz fit
    by simp
  moreover have "take (length v) buf = v" using b by (auto simp: cstr_def)
  ultimately have e: "pstrcat buf buf_size s = Some (v @ ?t)"
    using strlen_cstr [OF b] sz by (simp add: pstrcat_def)
  have "nat (buf_size - 1) = length v + ?n" using sz by simp
  then have t: "take (nat (buf_size - 1)) (v @ w) = v @ take ?n w" by simp
  have "0 \<notin> set (v @ take ?n w)"
    using b s by (auto simp: cstr_def dest: in_set_takeD)
  then have "cstr (v @ ?t) (take (nat (buf_size - 1)) (v @ w))"
    unfolding t by (auto simp: cstr_def)
  moreover have "length (v @ ?t) = length buf"
    using sz fit cstr_length [OF b] by (simp add: min_def)
  ultimately show ?thesis using e by blast
qed

section \<open>Prefix and suffix tests\<close>

function strstart_loop :: "u8 list \<Rightarrow> u8 list \<Rightarrow> nat \<Rightarrow> nat \<Rightarrow> nat option option" where
  "strstart_loop str val p q = do {
     d \<leftarrow> rd val q;
     if d = 0 then Some (Some p)
     else do {
       c \<leftarrow> rd str p;
       if c \<noteq> d then Some None else strstart_loop str val (p + 1) (q + 1)
     }
   }"
  by pat_completeness auto
termination
  by (relation "measure (\<lambda>(str, val, p, q). length val - q)") (auto simp: rd_def split: if_splits)

declare strstart_loop.simps [simp del]

text \<open>The inner option is the C result: \<open>None\<close> for 0, \<open>Some p\<close> for 1 with
  \<open>*ptr\<close> set to the offset \<open>p\<close> of \<open>str\<close>.\<close>

definition strstart :: "u8 list \<Rightarrow> u8 list \<Rightarrow> nat option option" where
  "strstart str val = strstart_loop str val 0 0"

definition has_suffix :: "u8 list \<Rightarrow> u8 list \<Rightarrow> bool option" where
  "has_suffix str suffix = do {
     len \<leftarrow> strlen str;
     slen \<leftarrow> strlen suffix;
     if slen \<le> len then do {
       a \<leftarrow> mem_read str (len - slen) slen;
       b \<leftarrow> mem_read suffix 0 slen;
       Some (a = b)
     } else Some False
   }"

lemma strstart_loop_spec:
  assumes "cstr str w" and "cstr val v" and "p \<le> length v" and "p \<le> length w"
    and "take p w = take p v"
  shows "strstart_loop str val p p = Some (if take (length v) w = v then Some (length v) else None)"
  using assms
proof (induction "length v - p" arbitrary: p)
  case 0
  then show ?case
    using cstr_length [of val v] cstr_nth_end [of val v]
    by (subst strstart_loop.simps) (simp add: rd_Some)
next
  case (Suc n)
  have lv: "p < length val" and lw: "p < length str" and pv: "p < length v"
    using Suc.prems Suc.hyps(2) cstr_length by (fastforce, fastforce, simp)
  have vn: "val ! p = v ! p" "v ! p \<noteq> 0"
    using Suc.prems(2) pv by (auto simp: cstr_nth cstr_def dest: nth_mem)
  show ?case
  proof (cases "str ! p = val ! p")
    case True
    then have pw: "p < length w"
      using Suc.prems vn cstr_nth_end [OF Suc.prems(1)] by (cases "p = length w") auto
    have "take (Suc p) w = take (Suc p) v"
      using Suc.prems pw pv True vn by (simp add: take_Suc_conv_app_nth cstr_nth)
    then show ?thesis
      using Suc.hyps(1) [of "p + 1"] Suc.hyps(2) Suc.prems(1,2) True vn lv lw pv pw
      by (subst strstart_loop.simps) (simp add: rd_Some)
  next
    case ne: False
    have "take (length v) w \<noteq> v"
    proof
      assume a: "take (length v) w = v"
      then have "w ! p = v ! p" "p < length w"
        using pv by (metis nth_take, metis length_take min_less_iff_conj)
      then show False using ne vn Suc.prems(1) by (simp add: cstr_nth)
    qed
    then show ?thesis
      using ne vn lv lw by (subst strstart_loop.simps) (simp add: rd_Some)
  qed
qed

lemma strstart_spec:
  assumes "cstr str w" and "cstr val v"
  shows "strstart str val = Some (if take (length v) w = v then Some (length v) else None)"
  unfolding strstart_def using assms by (intro strstart_loop_spec) auto

lemma has_suffix_spec:
  assumes "cstr str w" and "cstr suffix v"
  shows "has_suffix str suffix = Some (\<exists>u. w = u @ v)"
proof -
  have "take (length v) suffix = v" using assms(2) by (auto simp: cstr_def)
  moreover have "take (length v) (drop (length w - length v) str) = drop (length w - length v) w"
    if "length v \<le> length w"
    using assms(1) that by (auto simp: cstr_def)
  moreover have "drop (length w - length v) w = v \<longleftrightarrow> (\<exists>u. w = u @ v)"
    by (metis append_eq_conv_conj append_take_drop_id diff_add_inverse2 length_append)
  ultimately show ?thesis
    using assms cstr_length [OF assms(1)] cstr_length [OF assms(2)]
    by (auto simp: has_suffix_def strlen_cstr mem_read_def)
qed

section \<open>Hexadecimal digits and byte swaps\<close>

definition from_hex :: "int \<Rightarrow> int" where
  "from_hex c =
     (if c \<ge> 0x30 \<and> c \<le> 0x39 then c - 0x30
      else if c \<ge> 0x41 \<and> c \<le> 0x46 then c - 0x41 + 10
      else if c \<ge> 0x61 \<and> c \<le> 0x66 then c - 0x61 + 10
      else - 1)"

lemma from_hex_range: "- 1 \<le> from_hex c \<and> from_hex c < 16"
  by (simp add: from_hex_def)

definition bswap16 :: "u16 \<Rightarrow> u16" where
  "bswap16 x = drop_bit 8 x OR push_bit 8 x"

definition bswap32 :: "u32 \<Rightarrow> u32" where
  "bswap32 v = drop_bit 24 (v AND 0xff000000) OR drop_bit 8 (v AND 0x00ff0000) OR
     push_bit 8 (v AND 0x0000ff00) OR push_bit 24 (v AND 0x000000ff)"

lemma bswap16_bytes: "u16_bytes (bswap16 x) = rev (u16_bytes x)"
  by (auto simp: u16_bytes_def bswap16_def intro!: bit_word_eqI)
    (auto simp: bit_simps)

section \<open>Properties\<close>

text \<open>C38: \<open>pstrcpy\<close> never writes beyond \<open>buf_size\<close> bytes: the buffer afterwards holds the
  longest prefix of the string that fits together with its terminator, and the bytes behind
  the terminator keep their values.\<close>

theorem pstrcpy_truncates:
  assumes "cstr str w" and "0 < buf_size" and "buf_size \<le> int (length buf)"
  shows "\<exists>buf'. pstrcpy buf buf_size str = Some buf' \<and> length buf' = length buf \<and>
    cstr buf' (take (nat (buf_size - 1)) w) \<and>
    (\<forall>i. min (nat (buf_size - 1)) (length w) < i \<longrightarrow> i < length buf \<longrightarrow> buf' ! i = buf ! i)"
proof -
  let ?k = "min (nat (buf_size - 1)) (length w)"
  let ?b = "take (nat (buf_size - 1)) w @ 0 # drop (?k + 1) buf"
  have "0 \<notin> set w" using assms(1) by (simp add: cstr_def)
  then have "cstr ?b (take (nat (buf_size - 1)) w)" by (rule cstr_truncate)
  moreover have "length ?b = length buf" using assms by (auto simp: min_def)
  moreover have "?b ! i = buf ! i" if "?k < i" "i < length buf" for i
  proof -
    have "i - ?k = Suc (i - (?k + 1))" using that by simp
    then show ?thesis using that assms by (auto simp: nth_append min_def split: if_splits)
  qed
  ultimately show ?thesis using pstrcpy_spec [OF assms] by blast
qed

theorem pstrcpy_truncates_witness:
  "\<exists>buf'. pstrcpy [9, 9, 9, 9, 9] 3 [0x61, 0x62, 0x63, 0] = Some buf' \<and> cstr buf' [0x61, 0x62] \<and>
     buf' = [0x61, 0x62, 0, 9, 9]"
proof -
  have c: "cstr [0x61, 0x62, 0x63, 0] [0x61, 0x62, 0x63]" by (simp add: cstr_def)
  have e: "pstrcpy [9, 9, 9, 9, 9] 3 [0x61, 0x62, 0x63, 0] = Some [0x61, 0x62, 0, 9, 9]" by code_simp
  show ?thesis using pstrcpy_truncates [OF c, of 3 "[9, 9, 9, 9, 9]"] e by simp
qed

text \<open>\<open>strstart\<close> decides whether the string starts with \<open>val\<close>, without reading behind
  either terminator, and leaves the pointer behind the prefix.\<close>

theorem strstart_decides_prefix:
  assumes "cstr str w" and "cstr val v"
  shows "strstart str val = Some (if \<exists>u. w = v @ u then Some (length v) else None)"
proof -
  have "take (length v) w = v \<longleftrightarrow> (\<exists>u. w = v @ u)"
    by (metis append_eq_conv_conj append_take_drop_id)
  then show ?thesis using strstart_spec [OF assms] by simp
qed

theorem strstart_decides_prefix_witness:
  "strstart [0x61, 0x62, 0x63, 0] [0x61, 0x62, 0] = Some (Some 2)"
proof -
  have c: "cstr [0x61, 0x62, 0x63, 0] [0x61, 0x62, 0x63]" "cstr [0x61, 0x62, 0] [0x61, 0x62]"
    by (simp_all add: cstr_def)
  show ?thesis using strstart_decides_prefix [OF c] by simp
qed

text \<open>\<open>has_suffix\<close> decides whether the string ends with the suffix.\<close>

theorem has_suffix_decides:
  assumes "cstr str w" and "cstr suffix v"
  shows "has_suffix str suffix = Some (\<exists>u. w = u @ v)"
  by (rule has_suffix_spec [OF assms])

theorem has_suffix_decides_witness:
  "has_suffix [0x61, 0x62, 0x63, 0] [0x62, 0x63, 0] = Some True"
proof -
  have c: "cstr [0x61, 0x62, 0x63, 0] [0x61, 0x62, 0x63]" "cstr [0x62, 0x63, 0] [0x62, 0x63]"
    by (simp_all add: cstr_def)
  show ?thesis using has_suffix_decides [OF c] by (auto intro: exI [of _ "[0x61]"])
qed

text \<open>C39: \<open>pstrcat\<close> appends as much of the second string as the buffer takes, inside
  \<open>buf_size\<close> bytes and terminated.\<close>

theorem pstrcat_truncates:
  assumes "cstr buf v" and "cstr s w" and "int (length v) < buf_size"
    and "buf_size \<le> int (length buf)"
  shows "\<exists>buf'. pstrcat buf buf_size s = Some buf' \<and> length buf' = length buf \<and>
           cstr buf' (take (nat (buf_size - 1)) (v @ w))"
  by (rule pstrcat_spec [OF assms])

theorem pstrcat_truncates_witness:
  "\<exists>buf'. pstrcat [0x61, 0, 9, 9, 9] 4 [0x62, 0x63, 0x64, 0] = Some buf' \<and>
     cstr buf' (take 3 [0x61, 0x62, 0x63, 0x64])"
proof -
  have c: "cstr [0x61, 0, 9, 9, 9] [0x61]" "cstr [0x62, 0x63, 0x64, 0] [0x62, 0x63, 0x64]"
    by (simp_all add: cstr_def)
  show ?thesis using pstrcat_truncates [OF c, of 4] by auto
qed

end
