(* ===== verification/DynBuf.thy ===== *)
theory DynBuf
  imports Prelude
begin

text \<open>
  The dynamic buffer of \<^verbatim>\<open>cutils.c\<close>. \<open>buf\<close> is the allocated block, so its length is
  the field \<open>allocated_size\<close>; \<open>dsize\<close> is the field \<open>size\<close>, \<open>derror\<close> the field
  \<open>error\<close>. The reallocation function is a field of the structure as in the code
  (\<open>None\<close> is the NULL that \<open>dbuf_free\<close> leaves): it maps the old block and the new
  size to the new block, or to \<open>None\<close> when it cannot allocate. \<open>opaque\<close> is inside
  that function. Every operation is \<open>None\<close> when the C code would access memory
  outside the block, and otherwise the C return value with the new structure.
\<close>

type_synonym 'a realloc = "'a list \<Rightarrow> nat \<Rightarrow> 'a list option"

record dynbuf =
  buf :: "u8 list"
  dsize :: nat
  derror :: bool
  realloc_func :: "u8 realloc option"

abbreviation allocated_size :: "dynbuf \<Rightarrow> nat" where
  "allocated_size s \<equiv> length (buf s)"

section \<open>The allocator interface\<close>

text \<open>What \<open>realloc\<close> promises: the new block has the size asked for and keeps the old
  contents up to the smaller of the two sizes.\<close>

locale allocator =
  fixes ra :: "'a realloc"
  assumes ra_length: "ra b n = Some b' \<Longrightarrow> length b' = n"
    and ra_keeps: "ra b n = Some b' \<Longrightarrow> i < length b \<Longrightarrow> i < n \<Longrightarrow> b' ! i = b ! i"
begin

lemma ra_prefix:
  assumes "ra b n = Some b'" and "k \<le> length b" and "k \<le> n"
  shows "take k b' = take k b"
  using assms ra_length [OF assms(1)] ra_keeps [OF assms(1)]
  by (intro nth_equalityI) auto

lemma ra_grow: "ra b n = Some b' \<Longrightarrow> length b \<le> n \<Longrightarrow> take (length b) b' = b"
  using ra_prefix [of b n b' "length b"] by simp

end

text \<open>The default reallocation of the code is the C library's \<open>realloc\<close> on a heap with
  room for blocks of at most \<open>lim\<close> bytes; fresh bytes are zero here.\<close>

definition std_realloc :: "nat \<Rightarrow> 'a :: zero realloc" where
  "std_realloc lim b n = (if n \<le> lim then Some (take n b @ replicate (n - length b) 0) else None)"

definition dbuf_default_realloc :: "nat \<Rightarrow> 'a :: zero realloc" where
  "dbuf_default_realloc lim b n = std_realloc lim b n"

interpretation std_heap: allocator "dbuf_default_realloc lim" for lim
  by unfold_locales
    (auto simp: dbuf_default_realloc_def std_realloc_def nth_append split: if_splits)

section \<open>Operations\<close>

definition dbuf_init2 :: "nat \<Rightarrow> u8 realloc option \<Rightarrow> dynbuf" where
  "dbuf_init2 lim realloc_f =
     \<lparr>buf = [], dsize = 0, derror = False,
      realloc_func = (case realloc_f of None \<Rightarrow> Some (dbuf_default_realloc lim) | Some f \<Rightarrow> Some f)\<rparr>"

definition dbuf_init :: "nat \<Rightarrow> dynbuf" where
  "dbuf_init lim = dbuf_init2 lim None"

definition dbuf_realloc :: "dynbuf \<Rightarrow> nat \<Rightarrow> (int \<times> dynbuf) option" where
  "dbuf_realloc s new_size =
     (if new_size > allocated_size s then
        if derror s then Some (-1, s)
        else let size = allocated_size s * 3 div 2;
                 new_size = (if size > new_size then size else new_size)
             in (case realloc_func s of
                   None \<Rightarrow> None
                 | Some f \<Rightarrow> (case f (buf s) new_size of
                       None \<Rightarrow> Some (-1, s\<lparr>derror := True\<rparr>)
                     | Some new_buf \<Rightarrow> Some (0, s\<lparr>buf := new_buf\<rparr>)))
      else Some (0, s))"

definition dbuf_write :: "dynbuf \<Rightarrow> nat \<Rightarrow> u8 list \<Rightarrow> (int \<times> dynbuf) option" where
  "dbuf_write s offset data = do {
     let end = offset + length data;
     (r, s) \<leftarrow> dbuf_realloc s end;
     if r \<noteq> 0 then Some (-1, s)
     else do {
       b \<leftarrow> mem_write (buf s) offset data;
       let s = s\<lparr>buf := b\<rparr>;
       Some (0, if end > dsize s then s\<lparr>dsize := end\<rparr> else s)
     }
   }"

definition dbuf_grow :: "dynbuf \<Rightarrow> nat \<Rightarrow> (int \<times> dynbuf) option" where
  "dbuf_grow s len =
     (if dsize s + len > allocated_size s then dbuf_realloc s (dsize s + len) else Some (0, s))"

definition dbuf_put :: "dynbuf \<Rightarrow> u8 list \<Rightarrow> (int \<times> dynbuf) option" where
  "dbuf_put s data = do {
     (r, s) \<leftarrow> dbuf_grow s (length data);
     if r \<noteq> 0 then Some (-1, s)
     else do {
       b \<leftarrow> mem_write (buf s) (dsize s) data;
       Some (0, s\<lparr>buf := b, dsize := dsize s + length data\<rparr>)
     }
   }"

definition dbuf_put_self :: "dynbuf \<Rightarrow> nat \<Rightarrow> nat \<Rightarrow> (int \<times> dynbuf) option" where
  "dbuf_put_self s offset len = do {
     (r, s) \<leftarrow> dbuf_grow s len;
     if r \<noteq> 0 then Some (-1, s)
     else do {
       data \<leftarrow> mem_read (buf s) offset len;
       b \<leftarrow> mem_write (buf s) (dsize s) data;
       Some (0, s\<lparr>buf := b, dsize := dsize s + len\<rparr>)
     }
   }"

definition dbuf_putc :: "dynbuf \<Rightarrow> u8 \<Rightarrow> (int \<times> dynbuf) option" where
  "dbuf_putc s c = dbuf_put s [c]"

definition dbuf_putstr :: "dynbuf \<Rightarrow> u8 list \<Rightarrow> (int \<times> dynbuf) option" where
  "dbuf_putstr s w = dbuf_put s w"

definition dbuf_put_u16 :: "dynbuf \<Rightarrow> u16 \<Rightarrow> (int \<times> dynbuf) option" where
  "dbuf_put_u16 s val = dbuf_put s (u16_bytes val)"

definition dbuf_put_u32 :: "dynbuf \<Rightarrow> u32 \<Rightarrow> (int \<times> dynbuf) option" where
  "dbuf_put_u32 s val = dbuf_put s (u32_bytes val)"

text \<open>\<open>dbuf_printf\<close>: \<open>out\<close> is the formatted text, what \<open>vsnprintf\<close> of the C library
  writes when the room suffices; with less room it writes a prefix and a zero byte.\<close>

definition dbuf_printf :: "dynbuf \<Rightarrow> u8 list \<Rightarrow> (int \<times> dynbuf) option" where
  "dbuf_printf s out = do {
     let len = length out;
     if len < 128 then dbuf_put s out
     else do {
       (r, s) \<leftarrow> dbuf_realloc s (dsize s + len + 1);
       if r \<noteq> 0 then Some (-1, s)
       else do {
         b \<leftarrow> mem_write (buf s) (dsize s)
                (take (allocated_size s - dsize s - 1) out @ [0]);
         Some (0, s\<lparr>buf := b, dsize := dsize s + len\<rparr>)
       }
     }
   }"

definition dbuf_free :: "dynbuf \<Rightarrow> dynbuf" where
  "dbuf_free s = \<lparr>buf = [], dsize = 0, derror = False, realloc_func = None\<rparr>"

text \<open>\<open>dbuf_insert\<close> of \<^verbatim>\<open>libregexp.c\<close>: makes room for \<open>len\<close> bytes at \<open>pos\<close>, whose
  contents are left as they were.\<close>

definition dbuf_insert :: "dynbuf \<Rightarrow> nat \<Rightarrow> nat \<Rightarrow> (int \<times> dynbuf) option" where
  "dbuf_insert s pos len = do {
     (r, s) \<leftarrow> dbuf_realloc s (dsize s + len);
     if r \<noteq> 0 then Some (-1, s)
     else do {
       data \<leftarrow> (if pos \<le> dsize s then mem_read (buf s) pos (dsize s - pos) else None);
       b \<leftarrow> mem_write (buf s) (pos + len) data;
       Some (0, s\<lparr>buf := b, dsize := dsize s + len\<rparr>)
     }
   }"

section \<open>Contents and well-formedness\<close>

definition contents :: "dynbuf \<Rightarrow> u8 list" where
  "contents s = take (dsize s) (buf s)"

definition ra_ok :: "u8 realloc option \<Rightarrow> bool" where
  "ra_ok rf \<longleftrightarrow> (case rf of None \<Rightarrow> False | Some f \<Rightarrow> allocator f)"

definition dbuf_wf :: "dynbuf \<Rightarrow> bool" where
  "dbuf_wf s \<longleftrightarrow> dsize s \<le> allocated_size s \<and> ra_ok (realloc_func s)"

lemma length_contents [simp]: "dbuf_wf s \<Longrightarrow> length (contents s) = dsize s"
  by (simp add: contents_def dbuf_wf_def)

lemma dbuf_wf_init2: "(\<And>f. rf = Some f \<Longrightarrow> allocator f) \<Longrightarrow> dbuf_wf (dbuf_init2 lim rf)"
  using std_heap.allocator_axioms
  by (auto simp: dbuf_init2_def dbuf_wf_def ra_ok_def split: option.splits)

lemma contents_init2 [simp]: "contents (dbuf_init2 lim rf) = []"
  by (simp add: dbuf_init2_def contents_def)

text \<open>The post-condition every operation shares: the structure stays well formed, it
  keeps its allocator, an error is sticky, and a failing operation reports an error.\<close>

definition dbuf_post :: "dynbuf \<Rightarrow> u8 list \<Rightarrow> int \<times> dynbuf \<Rightarrow> bool" where
  "dbuf_post s new rs \<longleftrightarrow> (case rs of (r, s') \<Rightarrow>
     dbuf_wf s' \<and> realloc_func s' = realloc_func s \<and> (derror s \<longrightarrow> derror s') \<and>
     (r = 0 \<and> contents s' = new \<and> derror s' = derror s \<or>
      r = - 1 \<and> contents s' = contents s \<and> buf s' = buf s \<and> derror s'))"

lemma dbuf_realloc_post:
  assumes "dbuf_wf s"
  shows "okw (dbuf_realloc s n) (\<lambda>rs. dbuf_post s (contents s) rs \<and>
     dsize (snd rs) = dsize s \<and> (fst rs = 0 \<longrightarrow> n \<le> allocated_size (snd rs)))"
proof (cases "allocated_size s < n \<and> \<not> derror s")
  case False
  then show ?thesis using assms by (auto simp: dbuf_realloc_def dbuf_post_def)
next
  case True
  obtain f where f: "realloc_func s = Some f" "allocator f" and le: "dsize s \<le> allocated_size s"
    using assms by (auto simp: dbuf_wf_def ra_ok_def split: option.splits)
  define m where "m = (if allocated_size s * 3 div 2 > n then allocated_size s * 3 div 2 else n)"
  have m: "n \<le> m" by (simp add: m_def)
  show ?thesis
  proof (cases "f (buf s) m")
    case None
    then show ?thesis
      using True f le assms
      by (simp add: dbuf_realloc_def dbuf_post_def dbuf_wf_def ra_ok_def contents_def m_def [symmetric])
  next
    case (Some b)
    then have "length b = m" "take (dsize s) b = take (dsize s) (buf s)"
      using allocator.ra_length [OF f(2)] allocator.ra_prefix [OF f(2), of "buf s" m b "dsize s"]
        le m True by auto
    then show ?thesis
      using Some True f le m
      by (simp add: dbuf_realloc_def dbuf_post_def dbuf_wf_def ra_ok_def contents_def m_def [symmetric])
  qed
qed

lemma dbuf_grow_post:
  assumes "dbuf_wf s"
  shows "okw (dbuf_grow s n) (\<lambda>rs. dbuf_post s (contents s) rs \<and>
     dsize (snd rs) = dsize s \<and> (fst rs = 0 \<longrightarrow> dsize s + n \<le> allocated_size (snd rs)))"
  using assms dbuf_realloc_post [OF assms, of "dsize s + n"]
  by (auto simp: dbuf_grow_def dbuf_post_def)

lemma contents_overwrite:
  assumes "off \<le> n" and "off + length d \<le> length b"
  shows "take (max n (off + length d)) (take off b @ d @ drop (off + length d) b) =
         take off (take n b) @ d @ drop (off + length d) (take n b)"
  using assms by (intro nth_equalityI) (auto simp: nth_append)

lemma dbuf_write_post:
  assumes "dbuf_wf s" and "off \<le> dsize s"
  shows "okw (dbuf_write s off d)
     (dbuf_post s (take off (contents s) @ d @ drop (off + length d) (contents s)))"
  unfolding dbuf_write_def okw_bind Let_def
proof (rule okw_mono [OF dbuf_realloc_post [OF assms(1), of "off + length d"]], goal_cases)
  case (1 rs)
  obtain r s' where rs: "rs = (r, s')" by (cases rs)
  have c: "contents s' = contents s" "dsize s' = dsize s"
    using 1 by (auto simp: rs dbuf_post_def)
  show ?case
  proof (cases "r = 0")
    case False
    then show ?thesis using 1 by (auto simp: rs dbuf_post_def)
  next
    case True
    then have le: "off + length d \<le> length (buf s')" using 1 by (simp add: rs)
    have "contents s' = take (dsize s) (buf s')" using c by (simp add: contents_def)
    then show ?thesis
      using True 1 le assms(2) c contents_overwrite [of off "dsize s" d "buf s'"]
      by (auto simp: rs dbuf_post_def dbuf_wf_def wp contents_def max_def)
  qed
qed

lemma dbuf_put_post:
  assumes "dbuf_wf s"
  shows "okw (dbuf_put s d) (dbuf_post s (contents s @ d))"
  unfolding dbuf_put_def okw_bind
proof (rule okw_mono [OF dbuf_grow_post [OF assms, of "length d"]], goal_cases)
  case (1 rs)
  then show ?case
    by (cases rs) (auto simp: dbuf_post_def dbuf_wf_def wp contents_def)
qed

lemma dbuf_put_self_post:
  assumes "dbuf_wf s" and "off + len \<le> dsize s"
  shows "okw (dbuf_put_self s off len)
     (dbuf_post s (contents s @ take len (drop off (contents s))))"
  unfolding dbuf_put_self_def okw_bind
proof (rule okw_mono [OF dbuf_grow_post [OF assms(1), of len]], goal_cases)
  case (1 rs)
  obtain r s' where rs: "rs = (r, s')" by (cases rs)
  have c: "contents s' = contents s" "dsize s' = dsize s"
    using 1 by (auto simp: rs dbuf_post_def)
  show ?case
  proof (cases "r = 0")
    case False
    then show ?thesis using 1 by (auto simp: rs dbuf_post_def)
  next
    case True
    then have le: "dsize s' + len \<le> length (buf s')" using 1 c by (simp add: rs)
    have "take len (drop off (take (dsize s) (buf s'))) = take len (drop off (buf s'))"
      using assms(2) by (simp add: drop_take min_def)
    then show ?thesis
      using True 1 le assms c
      by (auto simp: rs dbuf_post_def dbuf_wf_def wp contents_def)
  qed
qed

lemma dbuf_insert_post:
  assumes "dbuf_wf s" and "pos \<le> dsize s"
  shows "okw (dbuf_insert s pos len) (\<lambda>rs. \<exists>j. length j = len \<and>
     dbuf_post s (take pos (contents s) @ j @ drop pos (contents s)) rs)"
  unfolding dbuf_insert_def okw_bind
proof (rule okw_mono [OF dbuf_realloc_post [OF assms(1), of "dsize s + len"]], goal_cases)
  case (1 rs)
  obtain r s' where rs: "rs = (r, s')" by (cases rs)
  have c: "contents s' = contents s" "dsize s' = dsize s"
    using 1 by (auto simp: rs dbuf_post_def)
  show ?case
  proof (cases "r = 0")
    case False
    then show ?thesis using 1
      by (auto simp: rs dbuf_post_def intro!: exI [of _ "replicate len 0"])
  next
    case True
    then have le: "dsize s + len \<le> length (buf s')" using 1 by (simp add: rs)
    have cs: "contents s = take (dsize s) (buf s')" using c by (simp add: contents_def)
    let ?b = "take (pos + len) (buf s') @ take (dsize s - pos) (drop pos (buf s')) @
       drop (len + dsize s) (buf s')"
    let ?j = "take len (drop pos (buf s'))"
    have "take (dsize s + len) ?b =
        take pos (contents s) @ ?j @ drop pos (contents s)"
      using assms(2) le by (intro nth_equalityI) (auto simp: cs nth_append)
    then have "dbuf_post s (take pos (contents s) @ ?j @ drop pos (contents s))
        (0, s'\<lparr>buf := ?b, dsize := dsize s + len\<rparr>)"
      using True 1 le assms
      by (simp add: rs dbuf_post_def dbuf_wf_def contents_def [of "s'\<lparr>buf := _, dsize := _\<rparr>"])
    moreover have "length ?j = len" using le assms(2) by simp
    ultimately show ?thesis
      using True le assms(2) c by (auto simp: rs wp ac_simps intro!: exI [of _ ?j])
  qed
qed

text \<open>An allocator that never refuses: then no operation fails.\<close>

definition never_fails :: "'a realloc \<Rightarrow> bool" where
  "never_fails f \<longleftrightarrow> (\<forall>b n. f b n \<noteq> None)"

definition dbuf_live :: "dynbuf \<Rightarrow> bool" where
  "dbuf_live s \<longleftrightarrow> \<not> derror s \<and> (\<exists>f. realloc_func s = Some f \<and> never_fails f)"

lemma dbuf_realloc_live:
  assumes "dbuf_live s" and "dbuf_realloc s n = Some (r, s')"
  shows "r = 0 \<and> dbuf_live s'"
proof -
  obtain f where f: "realloc_func s = Some f" "\<And>b n. f b n \<noteq> None" "never_fails f"
    using assms(1) by (auto simp: dbuf_live_def never_fails_def)
  show ?thesis
    using assms f(1,3) f(2) [of "buf s" "if allocated_size s * 3 div 2 > n then allocated_size s * 3 div 2 else n"]
    by (auto simp: dbuf_realloc_def dbuf_live_def Let_def split: if_splits option.splits)
qed

lemma dbuf_grow_live:
  "dbuf_grow s n = Some (r, s') \<Longrightarrow> dbuf_live s \<Longrightarrow> r = 0 \<and> dbuf_live s'"
  by (auto simp: dbuf_grow_def split: if_splits dest: dbuf_realloc_live [rotated])

lemma dbuf_live_buf [simp]: "dbuf_live (s\<lparr>buf := b, dsize := n\<rparr>) = dbuf_live s"
  by (simp add: dbuf_live_def)

lemma dbuf_put_live:
  "dbuf_put s d = Some (r, s') \<Longrightarrow> dbuf_live s \<Longrightarrow> r = 0 \<and> dbuf_live s'"
  by (auto simp: dbuf_put_def bind_eq_Some_conv split: if_splits dest!: dbuf_grow_live)

lemma dbuf_put_self_live:
  "dbuf_put_self s off n = Some (r, s') \<Longrightarrow> dbuf_live s \<Longrightarrow> r = 0 \<and> dbuf_live s'"
  by (auto simp: dbuf_put_self_def bind_eq_Some_conv split: if_splits dest!: dbuf_grow_live)

lemma dbuf_insert_live:
  "dbuf_insert s pos n = Some (r, s') \<Longrightarrow> dbuf_live s \<Longrightarrow> r = 0 \<and> dbuf_live s'"
  by (auto simp: dbuf_insert_def bind_eq_Some_conv split: if_splits dest!: dbuf_realloc_live [rotated])

text \<open>The allocator of the examples: as the default one, on a heap without bound.\<close>

definition heap_realloc :: "'a :: zero realloc" where
  "heap_realloc b n = Some (take n b @ replicate (n - length b) 0)"

interpretation heap: allocator heap_realloc
  by unfold_locales (auto simp: heap_realloc_def nth_append)

lemma heap_never_fails [simp]: "never_fails heap_realloc"
  by (simp add: heap_realloc_def never_fails_def)

section \<open>Properties\<close>

text \<open>C34: \<open>dbuf_insert\<close> makes room for \<open>len\<close> bytes at \<open>pos\<close>: it stays inside the block,
  what stood in front of and behind \<open>pos\<close> is kept, and a failed allocation returns -1,
  sets the error flag and leaves the contents alone.\<close>

theorem dbuf_insert_contract:
  assumes "dbuf_wf s" and "pos \<le> dsize s"
  shows "\<exists>r s'. dbuf_insert s pos len = Some (r, s') \<and> dbuf_wf s' \<and>
    (r = 0 \<and> derror s' = derror s \<and> dsize s' = dsize s + len \<and>
       take pos (contents s') = take pos (contents s) \<and>
       drop (pos + len) (contents s') = drop pos (contents s) \<or>
     r = - 1 \<and> derror s' \<and> contents s' = contents s)"
proof -
  obtain r s' j where e: "dbuf_insert s pos len = Some (r, s')" and j: "length j = len"
    and p: "dbuf_post s (take pos (contents s) @ j @ drop pos (contents s)) (r, s')"
    using dbuf_insert_post [OF assms, of len] by (auto dest!: okw_ex)
  have l: "length (take pos (contents s)) = pos" using assms by simp
  show ?thesis
  proof (cases "r = 0")
    case True
    then have c: "contents s' = take pos (contents s) @ j @ drop pos (contents s)" "dbuf_wf s'"
      using p by (auto simp: dbuf_post_def)
    have "dsize s' = dsize s + len"
      using length_contents [OF c(2)] l j assms by (simp add: c(1))
    then show ?thesis using e True c l j p by (auto simp: dbuf_post_def)
  next
    case False
    then show ?thesis using e p by (auto simp: dbuf_post_def)
  qed
qed

theorem dbuf_insert_contract_witness:
  "let s = (dbuf_init 100)\<lparr>buf := [1, 2, 3], dsize := 3\<rparr>
   in \<exists>r s'. dbuf_insert s 1 2 = Some (r, s') \<and> r = 0 \<and> take 1 (contents s') = [1] \<and>
        drop 3 (contents s') = [2, 3]"
proof -
  let ?s = "(dbuf_init 100)\<lparr>buf := [1, 2, 3], dsize := 3\<rparr>"
  have a: "allocator (dbuf_default_realloc 100 :: u8 realloc)" by (rule std_heap.allocator_axioms)
  have w: "dbuf_wf ?s"
    using a by (simp add: dbuf_wf_def ra_ok_def dbuf_init_def dbuf_init2_def)
  have e: "dbuf_insert ?s 1 2 = Some (0, ?s\<lparr>buf := [1, 2, 3, 2, 3], dsize := 5\<rparr>)"
    by (simp add: dbuf_insert_def dbuf_realloc_def dbuf_init_def dbuf_init2_def mem_read_def mem_write_def
        dbuf_default_realloc_def std_realloc_def)
  show ?thesis
    using dbuf_insert_contract [OF w, of 1 2] e by (simp add: contents_def dbuf_init_def dbuf_init2_def)
qed

text \<open>C36: a 32-bit value appended with \<open>dbuf_put_u32\<close> is read back by \<open>get_u32\<close> at the old
  size, and everything before it is unchanged.\<close>

theorem dbuf_put_u32_get_u32:
  assumes "dbuf_wf s" and "dbuf_put_u32 s v = Some (0, s')"
  shows "get_u32 (buf s') (dsize s) = Some v \<and> dsize s' = dsize s + 4 \<and>
    take (dsize s) (buf s') = contents s"
proof -
  have p: "dbuf_post s (contents s @ u32_bytes v) (0, s')"
    using dbuf_put_post [OF assms(1), of "u32_bytes v"] assms(2)
    by (simp add: dbuf_put_u32_def)
  then have c: "contents s' = contents s @ u32_bytes v" and w: "dbuf_wf s'"
    by (auto simp: dbuf_post_def)
  have d: "dsize s' = dsize s + 4" using length_contents [OF w] assms(1) by (simp add: c)
  have t: "take (dsize s + 4) (buf s') = contents s @ u32_bytes v"
    using c d by (simp add: contents_def)
  have le: "dsize s + 4 \<le> length (buf s')" using w d by (simp add: dbuf_wf_def)
  have n: "buf s' ! (dsize s + i) = u32_bytes v ! i" if "i < 4" for i
  proof -
    have "buf s' ! (dsize s + i) = take (dsize s + 4) (buf s') ! (dsize s + i)" using that by simp
    also have "\<dots> = u32_bytes v ! i"
      using length_contents [OF assms(1)] by (simp add: t nth_append)
    finally show ?thesis .
  qed
  have "get_u32 (buf s') (dsize s) = Some v"
    using le n [of 0] n [of 1] n [of 2] n [of 3]
    by (simp add: get_u32_def u32_bytes_def u32_of_bytes)
  moreover have "take (dsize s) (buf s') = take (dsize s) (take (dsize s + 4) (buf s'))" by simp
  ultimately show ?thesis using d length_contents [OF assms(1)] by (simp add: t)
qed

theorem dbuf_put_u32_get_u32_witness:
  "\<exists>s'. dbuf_put_u32 (dbuf_init 100) 0x11223344 = Some (0, s') \<and>
     get_u32 (buf s') 0 = Some 0x11223344 \<and> buf s' = [0x44, 0x33, 0x22, 0x11]"
proof -
  let ?s = "dbuf_init 100"
  have a: "allocator (dbuf_default_realloc 100 :: u8 realloc)" by (rule std_heap.allocator_axioms)
  have w: "dbuf_wf ?s"
    using a by (simp add: dbuf_wf_def ra_ok_def dbuf_init_def dbuf_init2_def)
  have e: "dbuf_put_u32 ?s 0x11223344 =
      Some (0, ?s\<lparr>buf := [0x44, 0x33, 0x22, 0x11], dsize := 4\<rparr>)"
    by (simp add: dbuf_put_u32_def dbuf_put_def dbuf_grow_def dbuf_realloc_def dbuf_init_def
        dbuf_init2_def mem_write_def dbuf_default_realloc_def std_realloc_def u32_bytes_def)
  show ?thesis
    using dbuf_put_u32_get_u32 [OF w e] e by (simp add: dbuf_init_def dbuf_init2_def)
qed

text \<open>C35: \<open>dbuf_write\<close> at an offset inside the contents overwrites exactly the bytes it
  covers and extends the contents when it reaches beyond their end; a failure changes
  nothing but the error flag.\<close>

theorem dbuf_write_contract:
  assumes "dbuf_wf s" and "off \<le> dsize s"
  shows "\<exists>r s'. dbuf_write s off d = Some (r, s') \<and> dbuf_wf s' \<and>
    (r = 0 \<and> derror s' = derror s \<and> dsize s' = max (dsize s) (off + length d) \<and>
       (\<forall>i. i < dsize s' \<longrightarrow> contents s' ! i =
          (if off \<le> i \<and> i < off + length d then d ! (i - off) else contents s ! i)) \<or>
     r = - 1 \<and> derror s' \<and> contents s' = contents s)"
proof -
  obtain r s' where e: "dbuf_write s off d = Some (r, s')"
    and p: "dbuf_post s (take off (contents s) @ d @ drop (off + length d) (contents s)) (r, s')"
    using dbuf_write_post [OF assms, of d] by (auto dest!: okw_ex)
  show ?thesis
  proof (cases "r = 0")
    case True
    then have c: "contents s' = take off (contents s) @ d @ drop (off + length d) (contents s)"
      and w: "dbuf_wf s'" using p by (auto simp: dbuf_post_def)
    have "dsize s' = max (dsize s) (off + length d)"
      using length_contents [OF w, symmetric] length_contents [OF assms(1)] assms(2)
      by (auto simp: c max_def)
    then show ?thesis
      using e True w p length_contents [OF assms(1)] assms(2)
      by (auto simp: c nth_append dbuf_post_def)
  next
    case False
    then show ?thesis using e p by (auto simp: dbuf_post_def)
  qed
qed

theorem dbuf_write_contract_witness:
  "let s = (dbuf_init 100)\<lparr>buf := [1, 2, 3], dsize := 3\<rparr>
   in \<exists>s'. dbuf_write s 2 [9, 8] = Some (0, s') \<and> contents s' = [1, 2, 9, 8] \<and> dsize s' = max 3 4"
proof -
  let ?s = "(dbuf_init 100)\<lparr>buf := [1, 2, 3], dsize := 3\<rparr>"
  have a: "allocator (dbuf_default_realloc 100 :: u8 realloc)" by (rule std_heap.allocator_axioms)
  have w: "dbuf_wf ?s"
    using a by (simp add: dbuf_wf_def ra_ok_def dbuf_init_def dbuf_init2_def)
  have e: "dbuf_write ?s 2 [9, 8] = Some (0, ?s\<lparr>buf := [1, 2, 9, 8], dsize := 4\<rparr>)"
    by (simp add: dbuf_write_def dbuf_realloc_def dbuf_init_def dbuf_init2_def mem_write_def
        dbuf_default_realloc_def std_realloc_def)
  show ?thesis
    using dbuf_write_contract [OF w, of 2 "[9, 8]"] e by (simp add: contents_def dbuf_init_def dbuf_init2_def)
qed

end
