(* ===== verification/CharRange.thy ===== *)
theory CharRange
  imports DynBuf
begin

text \<open>
  Character ranges (\<open>CharRange\<close> of \<^verbatim>\<open>libunicode.h\<close>, operations of \<^verbatim>\<open>libunicode.c\<close>).
  A range is a sorted array of points; the points at even indices open an interval, those
  at odd indices close it. \<open>points\<close> is the allocated block (its length is the field
  \<open>size\<close>), \<open>cr_len\<close> the field \<open>len\<close>.
\<close>

datatype cr_opcode = CR_OP_UNION | CR_OP_INTER | CR_OP_XOR

record char_range =
  cr_len :: nat
  points :: "u32 list"
  cr_realloc_func :: "u32 realloc"

section \<open>Operations\<close>

definition cr_init :: "u32 realloc \<Rightarrow> char_range" where
  "cr_init f = \<lparr>cr_len = 0, points = [], cr_realloc_func = f\<rparr>"

definition cr_free :: "char_range \<Rightarrow> char_range" where
  "cr_free cr = cr\<lparr>points := []\<rparr>"

definition cr_realloc :: "char_range \<Rightarrow> nat \<Rightarrow> int \<times> char_range" where
  "cr_realloc cr sz =
     (if sz > length (points cr) then
        let new_size = max sz (length (points cr) * 3 div 2)
        in case cr_realloc_func cr (points cr) new_size of
             None \<Rightarrow> (- 1, cr)
           | Some new_buf \<Rightarrow> (0, cr\<lparr>points := new_buf\<rparr>)
      else (0, cr))"

definition cr_add_point :: "char_range \<Rightarrow> u32 \<Rightarrow> (int \<times> char_range) option" where
  "cr_add_point cr v = do {
     let (r, cr) = (if cr_len cr \<ge> length (points cr) then cr_realloc cr (cr_len cr + 1) else (0, cr));
     if r \<noteq> 0 then Some (- 1, cr)
     else do {
       pts \<leftarrow> mem_write (points cr) (cr_len cr) [v];
       Some (0, cr\<lparr>points := pts, cr_len := cr_len cr + 1\<rparr>)
     }
   }"

definition cr_add_interval :: "char_range \<Rightarrow> u32 \<Rightarrow> u32 \<Rightarrow> (int \<times> char_range) option" where
  "cr_add_interval cr c1 c2 = do {
     let (r, cr) = (if cr_len cr + 2 > length (points cr) then cr_realloc cr (cr_len cr + 2) else (0, cr));
     if r \<noteq> 0 then Some (- 1, cr)
     else do {
       pts \<leftarrow> mem_write (points cr) (cr_len cr) [c1, c2];
       Some (0, cr\<lparr>points := pts, cr_len := cr_len cr + 2\<rparr>)
     }
   }"

definition cr_copy :: "char_range \<Rightarrow> char_range \<Rightarrow> (int \<times> char_range) option" where
  "cr_copy cr cr1 = do {
     let (r, cr) = cr_realloc cr (cr_len cr1);
     if r \<noteq> 0 then Some (- 1, cr)
     else do {
       d \<leftarrow> mem_read (points cr1) 0 (cr_len cr1);
       pts \<leftarrow> mem_write (points cr) 0 d;
       Some (0, cr\<lparr>points := pts, cr_len := cr_len cr1\<rparr>)
     }
   }"

text \<open>\<open>cr_compress\<close>: the inner loop over \<open>j\<close>, then the outer loop over \<open>i\<close> and \<open>k\<close>,
  which overwrites the points in place.\<close>

function cr_compress_j :: "u32 list \<Rightarrow> nat \<Rightarrow> nat \<Rightarrow> nat option" where
  "cr_compress_j pt len j =
     (if j + 3 < len then do {
        a \<leftarrow> rd pt (j + 1);
        b \<leftarrow> rd pt (j + 2);
        if a = b then cr_compress_j pt len (j + 2) else Some j
      }
      else Some j)"
  by pat_completeness auto
termination by (relation "measure (\<lambda>(pt, len, j). len - j)") auto

declare cr_compress_j.simps [simp del]

lemma cr_compress_j_ge: "cr_compress_j pt len j = Some j' \<Longrightarrow> j \<le> j'"
proof (induction pt len j rule: cr_compress_j.induct)
  case (1 pt len j)
  then show ?case
    by (subst (asm) cr_compress_j.simps) (fastforce simp: bind_eq_Some_conv split: if_splits)
qed

function cr_compress_loop :: "u32 list \<Rightarrow> nat \<Rightarrow> nat \<Rightarrow> nat \<Rightarrow> (nat \<times> u32 list) option" where
  "cr_compress_loop pt len i k =
     (if i + 1 < len then do {
        a \<leftarrow> rd pt i;
        b \<leftarrow> rd pt (i + 1);
        if a = b then cr_compress_loop pt len (i + 2) k
        else do {
          j \<leftarrow> cr_compress_j pt len i;
          c \<leftarrow> rd pt (j + 1);
          pt \<leftarrow> mem_write pt k [a, c];
          cr_compress_loop pt len (j + 2) (k + 2)
        }
      }
      else Some (k, pt))"
  by pat_completeness auto
termination
  by (relation "measure (\<lambda>(pt, len, i, k). len - i)") (auto dest!: cr_compress_j_ge)

declare cr_compress_loop.simps [simp del]

definition cr_compress :: "char_range \<Rightarrow> char_range option" where
  "cr_compress cr = do {
     (k, pt) \<leftarrow> cr_compress_loop (points cr) (cr_len cr) 0 0;
     Some (cr\<lparr>points := pt, cr_len := k\<rparr>)
   }"

fun cr_op_in :: "cr_opcode \<Rightarrow> bool \<Rightarrow> bool \<Rightarrow> bool" where
  "cr_op_in CR_OP_UNION a b = (a \<or> b)"
| "cr_op_in CR_OP_INTER a b = (a \<and> b)"
| "cr_op_in CR_OP_XOR a b = (a \<noteq> b)"

text \<open>One more point from \<open>a\<close> or \<open>b\<close> in increasing order: the point and the new indices.\<close>

definition cr_op_next ::
  "u32 list \<Rightarrow> nat \<Rightarrow> u32 list \<Rightarrow> nat \<Rightarrow> nat \<Rightarrow> nat \<Rightarrow> (u32 \<times> nat \<times> nat) option option" where
  "cr_op_next a_pt a_len b_pt b_len a_idx b_idx =
     (if a_idx < a_len \<and> b_idx < b_len then do {
        x \<leftarrow> rd a_pt a_idx;
        y \<leftarrow> rd b_pt b_idx;
        if x < y then Some (Some (x, a_idx + 1, b_idx))
        else if x = y then Some (Some (x, a_idx + 1, b_idx + 1))
        else Some (Some (y, a_idx, b_idx + 1))
      }
      else if a_idx < a_len then do { x \<leftarrow> rd a_pt a_idx; Some (Some (x, a_idx + 1, b_idx)) }
      else if b_idx < b_len then do { y \<leftarrow> rd b_pt b_idx; Some (Some (y, a_idx, b_idx + 1)) }
      else Some None)"

lemma cr_op_next_decr:
  "cr_op_next a_pt a_len b_pt b_len a_idx b_idx = Some (Some (v, ai, bi)) \<Longrightarrow>
     (a_len - ai) + (b_len - bi) < (a_len - a_idx) + (b_len - b_idx)"
  by (auto simp: cr_op_next_def bind_eq_Some_conv split: if_splits)

function cr_op_loop ::
  "char_range \<Rightarrow> u32 list \<Rightarrow> nat \<Rightarrow> u32 list \<Rightarrow> nat \<Rightarrow> cr_opcode \<Rightarrow> nat \<Rightarrow> nat \<Rightarrow>
   (int \<times> char_range) option" where
  "cr_op_loop cr a_pt a_len b_pt b_len opc a_idx b_idx = do {
     nx \<leftarrow> cr_op_next a_pt a_len b_pt b_len a_idx b_idx;
     (case nx of
        None \<Rightarrow> Some (0, cr)
      | Some (v, ai, bi) \<Rightarrow>
          if cr_op_in opc (odd ai) (odd bi) \<noteq> odd (cr_len cr) then do {
            (r, cr) \<leftarrow> cr_add_point cr v;
            if r \<noteq> 0 then Some (- 1, cr)
            else cr_op_loop cr a_pt a_len b_pt b_len opc ai bi
          }
          else cr_op_loop cr a_pt a_len b_pt b_len opc ai bi)
   }"
  by pat_completeness auto
termination
  by (relation "measure (\<lambda>(cr, a_pt, a_len, b_pt, b_len, opc, ai, bi). (a_len - ai) + (b_len - bi))")
    (auto dest!: cr_op_next_decr)

declare cr_op_loop.simps [simp del]

definition cr_op ::
  "char_range \<Rightarrow> u32 list \<Rightarrow> nat \<Rightarrow> u32 list \<Rightarrow> nat \<Rightarrow> cr_opcode \<Rightarrow> (int \<times> char_range) option" where
  "cr_op cr a_pt a_len b_pt b_len opc = do {
     (r, cr) \<leftarrow> cr_op_loop cr a_pt a_len b_pt b_len opc 0 0;
     if r \<noteq> 0 then Some (- 1, cr)
     else do { cr \<leftarrow> cr_compress cr; Some (0, cr) }
   }"

definition cr_union1 :: "char_range \<Rightarrow> u32 list \<Rightarrow> nat \<Rightarrow> (int \<times> char_range) option" where
  "cr_union1 cr b_pt b_len =
     cr_op (cr\<lparr>cr_len := 0, points := []\<rparr>) (points cr) (cr_len cr) b_pt b_len CR_OP_UNION"

definition cr_union_interval :: "char_range \<Rightarrow> u32 \<Rightarrow> u32 \<Rightarrow> (int \<times> char_range) option" where
  "cr_union_interval cr c1 c2 = cr_union1 cr [c1, c2 + 1] 2"

definition cr_invert :: "char_range \<Rightarrow> (int \<times> char_range) option" where
  "cr_invert cr = do {
     let len = cr_len cr;
     let (r, cr) = cr_realloc cr (len + 2);
     if r \<noteq> 0 then Some (- 1, cr)
     else do {
       d \<leftarrow> mem_read (points cr) 0 len;
       pts \<leftarrow> mem_write (points cr) 1 d;
       pts \<leftarrow> mem_write pts 0 [0];
       pts \<leftarrow> mem_write pts (len + 1) [0xffffffff];
       cr \<leftarrow> cr_compress (cr\<lparr>points := pts, cr_len := len + 2\<rparr>);
       Some (0, cr)
     }
   }"

section \<open>Meaning\<close>

definition cr_pts :: "char_range \<Rightarrow> u32 list" where
  "cr_pts cr = take (cr_len cr) (points cr)"

definition cr_wf :: "char_range \<Rightarrow> bool" where
  "cr_wf cr \<longleftrightarrow> cr_len cr \<le> length (points cr) \<and> allocator (cr_realloc_func cr)"

text \<open>A code point is in the range when an odd number of points are at most it.\<close>

definition pts_in :: "u32 list \<Rightarrow> u32 \<Rightarrow> bool" where
  "pts_in ps x \<longleftrightarrow> odd (length (filter (\<lambda>p. p \<le> x) ps))"

definition cr_in :: "char_range \<Rightarrow> u32 \<Rightarrow> bool" where
  "cr_in cr x \<longleftrightarrow> pts_in (cr_pts cr) x"

text \<open>The canonical form every operation establishes: strictly increasing, even length.\<close>

definition pts_canon :: "u32 list \<Rightarrow> bool" where
  "pts_canon ps \<longleftrightarrow> sorted_wrt (<) ps \<and> even (length ps)"

lemma pts_in_append: "pts_in (xs @ ys) x \<longleftrightarrow> (pts_in xs x \<noteq> pts_in ys x)"
  by (auto simp: pts_in_def)

lemma pts_in_Nil [simp]: "\<not> pts_in [] x"
  by (simp add: pts_in_def)

lemma pts_in_pair: "pts_in (a # b # ps) x \<longleftrightarrow> (((a \<le> x) \<noteq> (b \<le> x)) \<noteq> pts_in ps x)"
  by (auto simp: pts_in_def)

lemma pts_in_all_le: "(\<And>p. p \<in> set ps \<Longrightarrow> p \<le> x) \<Longrightarrow> pts_in ps x \<longleftrightarrow> odd (length ps)"
  by (simp add: pts_in_def filter_id_conv)

lemma pts_in_all_gt: "(\<And>p. p \<in> set ps \<Longrightarrow> x < p) \<Longrightarrow> \<not> pts_in ps x"
  by (auto simp: pts_in_def filter_empty_conv not_le)

section \<open>Compression\<close>

text \<open>The same loops on lists, without the in-place writes.\<close>

fun comp_from :: "u32 \<Rightarrow> u32 \<Rightarrow> u32 list \<Rightarrow> u32 \<times> u32 list" where
  "comp_from a b (c # d # r) = (if b = c then comp_from a d r else (b, c # d # r))"
| "comp_from a b r = (b, r)"

lemma comp_from_length: "comp_from a b r = (e, r') \<Longrightarrow> length r' \<le> length r"
  by (induction a b r rule: comp_from.induct) (auto split: if_splits)

function compress :: "u32 list \<Rightarrow> u32 list" where
  "compress (a # b # r) =
     (if a = b then compress r
      else (case comp_from a b r of (e, r') \<Rightarrow> a # e # compress r'))"
| "compress [] = []"
| "compress [a] = []"
  by pat_completeness auto
termination
  by (relation "measure length") (auto dest!: comp_from_length [OF sym])

lemma comp_from_short: "length r \<le> 1 \<Longrightarrow> comp_from a b r = (b, r)"
  by (cases r; cases "tl r") auto

lemma compress_short: "length r \<le> 1 \<Longrightarrow> compress r = []"
  by (cases r; cases "tl r") auto

lemma comp_from_facts:
  assumes "comp_from a b r = (e, r')" and "sorted (b # r)"
  shows "sorted (e # r') \<and> b \<le> e \<and> set (e # r') \<subseteq> set (b # r) \<and>
    (even (length r') = even (length r)) \<and> (r' \<noteq> [] \<longrightarrow> even (length r) \<longrightarrow> e < hd r') \<and>
    (\<forall>x. pts_in (a # b # r) x = pts_in (a # e # r') x)"
  using assms
proof (induction a b r rule: comp_from.induct)
  case (1 a b c d r)
  show ?case
  proof (cases "b = c")
    case True
    then show ?thesis using 1 by (auto simp: pts_in_pair)
  next
    case False
    then show ?thesis using "1.prems" by auto
  qed
qed auto

lemma compress_facts:
  assumes "sorted ps" and "even (length ps)"
  shows "pts_canon (compress ps) \<and> set (compress ps) \<subseteq> set ps \<and>
    (\<forall>x. pts_in (compress ps) x = pts_in ps x)"
  using assms
proof (induction ps rule: compress.induct)
  case (1 a b r)
  show ?case
  proof (cases "a = b")
    case True
    then show ?thesis using 1 by (auto simp: pts_in_pair)
  next
    case False
    obtain e r' where er: "comp_from a b r = (e, r')" by (cases "comp_from a b r")
    have F: "sorted (e # r') \<and> b \<le> e \<and> set (e # r') \<subseteq> set (b # r) \<and>
      (even (length r') = even (length r)) \<and> (r' \<noteq> [] \<longrightarrow> even (length r) \<longrightarrow> e < hd r') \<and>
      (\<forall>x. pts_in (a # b # r) x = pts_in (a # e # r') x)"
      using er "1.prems" by (intro comp_from_facts) auto
    then have IH: "pts_canon (compress r') \<and> set (compress r') \<subseteq> set r' \<and>
        (\<forall>x. pts_in (compress r') x = pts_in r' x)"
      using 1(2) [OF False er [symmetric]] "1.prems" by auto
    have ab: "a < b" using "1.prems" False by auto
    have "e < y" if "y \<in> set r'" for y
    proof -
      have "e < hd r'" "hd r' \<le> y" using F "1.prems" that by (cases r'; auto)+
      then show ?thesis by simp
    qed
    then have e: "e < y" if "y \<in> set (compress r')" for y using that IH by blast
    have ae: "a < e" using ab F by (auto intro: less_le_trans)
    then have "a < y" if "y \<in> set (compress r')" for y using e [OF that] by (rule less_trans)
    then have "sorted_wrt (<) (a # e # compress r')"
      using IH e ae by (simp add: pts_canon_def)
    then show ?thesis
      using False er F IH "1.prems" by (auto simp: pts_canon_def pts_in_pair)
  qed
qed (auto simp: pts_canon_def)

text \<open>The in-place loops compute \<open>compress\<close>: what lies at and after \<open>i\<close> is untouched.\<close>

lemma cr_compress_j_spec:
  assumes "j + 1 < len" and "len \<le> length pt"
  shows "\<exists>j'. cr_compress_j pt len j = Some j' \<and> j \<le> j' \<and> j' + 1 < len \<and>
    comp_from a (pt ! (j + 1)) (take (len - (j + 2)) (drop (j + 2) pt)) =
      (pt ! (j' + 1), take (len - (j' + 2)) (drop (j' + 2) pt))"
  using assms
proof (induction pt len j rule: cr_compress_j.induct)
  case (1 pt len j)
  show ?case
  proof (cases "j + 3 < len")
    case False
    have "comp_from a b (take (len - (j + 2)) (drop (j + 2) pt)) =
        (b, take (len - (j + 2)) (drop (j + 2) pt))" for b
      using False by (intro comp_from_short) simp
    then show ?thesis using False "1.prems" by (subst cr_compress_j.simps) auto
  next
    case True
    have t: "take (len - (j + 2)) (drop (j + 2) pt) =
        pt ! (j + 2) # pt ! (j + 3) # take (len - (j + 4)) (drop (j + 4) pt)"
      using True "1.prems"
      by (simp add: Cons_nth_drop_Suc [symmetric] take_Cons' numeral_eq_Suc)
    show ?thesis
    proof (cases "pt ! (j + 1) = pt ! (j + 2)")
      case eq: True
      have "\<exists>j'. cr_compress_j pt len (j + 2) = Some j' \<and> j + 2 \<le> j' \<and> j' + 1 < len \<and>
        comp_from a (pt ! (j + 2 + 1)) (take (len - (j + 2 + 2)) (drop (j + 2 + 2) pt)) =
        (pt ! (j' + 1), take (len - (j' + 2)) (drop (j' + 2) pt))"
        using "1.IH" [OF True, of "pt ! (j + 1)" "pt ! (j + 2)"] True "1.prems" eq
        by (simp add: rd_def)
      then show ?thesis
        using eq True "1.prems" t
        by (subst cr_compress_j.simps) (auto simp: rd_def numeral_eq_Suc)
    next
      case ne: False
      then show ?thesis
        using True "1.prems" t by (subst cr_compress_j.simps) (auto simp: rd_def)
    qed
  qed
qed

lemma cr_compress_loop_spec:
  assumes "k \<le> i" and "len \<le> length pt" and "i \<le> len"
  shows "\<exists>n pt'. cr_compress_loop pt len i k = Some (n, pt') \<and> length pt' = length pt \<and> n \<le> len \<and>
    take n pt' = take k pt @ compress (take (len - i) (drop i pt))"
  using assms
proof (induction pt len i k rule: cr_compress_loop.induct)
  case (1 pt len i k)
  show ?case
  proof (cases "i + 1 < len")
    case False
    then have "compress (take (len - i) (drop i pt)) = []"
      by (intro compress_short) simp
    then show ?thesis using False "1.prems" by (subst cr_compress_loop.simps) auto
  next
    case True
    have t: "take (len - i) (drop i pt) =
        pt ! i # pt ! (i + 1) # take (len - (i + 2)) (drop (i + 2) pt)"
      using True "1.prems"
      by (simp add: Cons_nth_drop_Suc [symmetric] take_Cons' numeral_eq_Suc)
    have r: "rd pt i = Some (pt ! i)" "rd pt (i + 1) = Some (pt ! (i + 1))"
      using True "1.prems" by (simp_all add: rd_def)
    show ?thesis
    proof (cases "pt ! i = pt ! (i + 1)")
      case eq: True
      then have "cr_compress_loop pt len i k = cr_compress_loop pt len (i + 2) k"
        using True r by (subst cr_compress_loop.simps) simp
      then show ?thesis
        using "1.IH"(1) [OF True r eq] "1.prems" True t eq by auto
    next
      case ne: False
      obtain j where j: "cr_compress_j pt len i = Some j" "i \<le> j" "j + 1 < len"
        "comp_from (pt ! i) (pt ! (i + 1)) (take (len - (i + 2)) (drop (i + 2) pt)) =
         (pt ! (j + 1), take (len - (j + 2)) (drop (j + 2) pt))"
        using cr_compress_j_spec [OF True, of pt] "1.prems" by blast
      have rj: "rd pt (j + 1) = Some (pt ! (j + 1))" using j "1.prems" by (simp add: rd_def)
      let ?pt = "take k pt @ [pt ! i, pt ! (j + 1)] @ drop (k + 2) pt"
      have w: "mem_write pt k [pt ! i, pt ! (j + 1)] = Some ?pt"
        using "1.prems" j by (simp add: mem_write_def)
      have l: "length ?pt = length pt" using "1.prems" j by simp
      have d: "drop (j + 2) ?pt = drop (j + 2) pt"
        using "1.prems" j by (intro nth_equalityI) (auto simp: nth_append)
      have "cr_compress_loop pt len i k = cr_compress_loop ?pt len (j + 2) (k + 2)"
        using True r ne j(1) rj w by (subst cr_compress_loop.simps) simp
      moreover have "\<exists>n pt'. cr_compress_loop ?pt len (j + 2) (k + 2) = Some (n, pt') \<and>
          length pt' = length ?pt \<and> n \<le> len \<and>
          take n pt' = take (k + 2) ?pt @ compress (take (len - (j + 2)) (drop (j + 2) ?pt))"
        using "1.prems" j l by (intro "1.IH"(2) [OF True r ne j(1) rj w]) auto
      moreover have "take (k + 2) ?pt = take k pt @ [pt ! i, pt ! (j + 1)]"
        using "1.prems" j by simp
      moreover have "compress (take (len - i) (drop i pt)) =
          pt ! i # pt ! (j + 1) # compress (take (len - (j + 2)) (drop (j + 2) pt))"
        unfolding t compress.simps(1) j(4) using ne by simp
      ultimately show ?thesis
        unfolding d l by (metis append_Cons append_Nil append_assoc)
    qed
  qed
qed

lemma cr_compress_post:
  assumes "cr_wf cr"
  shows "okw (cr_compress cr) (\<lambda>cr'. cr_wf cr' \<and> cr_pts cr' = compress (cr_pts cr) \<and>
     cr_realloc_func cr' = cr_realloc_func cr)"
proof -
  obtain n pt where "cr_compress_loop (points cr) (cr_len cr) 0 0 = Some (n, pt)"
    "length pt = length (points cr)" "n \<le> cr_len cr" "take n pt = compress (cr_pts cr)"
    using cr_compress_loop_spec [of 0 0 "cr_len cr" "points cr"] assms
    by (auto simp: cr_wf_def cr_pts_def)
  then show ?thesis
    using assms by (auto simp: cr_compress_def cr_wf_def cr_pts_def)
qed

end
