(* ===== verification/CharRange_Spec.thy ===== *)
theory CharRange_Spec
  imports CharRange
begin

text \<open>
  What the character-range operations compute: \<open>cr_op\<close> is the set operation it is
  asked for, \<open>cr_union1\<close>, \<open>cr_union_interval\<close> and \<open>cr_invert\<close> are union and
  complement, and all of them leave the points strictly increasing, provided the
  allocator keeps its promise. When it refuses they return -1.
\<close>

section \<open>Adding points, the merge\<close>

lemma cr_realloc_post:
  assumes "cr_wf cr" and "cr_realloc cr n = (r, cr')"
  shows "cr_wf cr' \<and> cr_pts cr' = cr_pts cr \<and> cr_len cr' = cr_len cr \<and>
    cr_realloc_func cr' = cr_realloc_func cr \<and> (r = 0 \<and> n \<le> length (points cr') \<or> r = - 1) \<and>
    (never_fails (cr_realloc_func cr) \<longrightarrow> r = 0)"
proof (cases "n > length (points cr)")
  case False
  then show ?thesis using assms by (auto simp: cr_realloc_def)
next
  case True
  let ?m = "max n (length (points cr) * 3 div 2)"
  have a: "allocator (cr_realloc_func cr)" and le: "cr_len cr \<le> length (points cr)"
    using assms(1) by (auto simp: cr_wf_def)
  show ?thesis
  proof (cases "cr_realloc_func cr (points cr) ?m")
    case None
    then show ?thesis using True assms by (auto simp: cr_realloc_def Let_def never_fails_def)
  next
    case (Some b)
    have l: "length b = ?m" "take (cr_len cr) b = take (cr_len cr) (points cr)"
      using allocator.ra_length [OF a Some] allocator.ra_prefix [OF a Some, of "cr_len cr"] le True
      by auto
    have e: "r = 0 \<and> cr' = cr\<lparr>points := b\<rparr>" using Some True assms(2) by (auto simp: cr_realloc_def Let_def)
    then show ?thesis
      using l le True a by (simp add: cr_wf_def cr_pts_def)
  qed
qed

definition cr_post :: "char_range \<Rightarrow> u32 list \<Rightarrow> int \<times> char_range \<Rightarrow> bool" where
  "cr_post cr ps rs \<longleftrightarrow> (case rs of (r, cr') \<Rightarrow>
     cr_wf cr' \<and> cr_realloc_func cr' = cr_realloc_func cr \<and>
     (r = 0 \<and> cr_pts cr' = ps \<or> r = - 1) \<and> (never_fails (cr_realloc_func cr) \<longrightarrow> r = 0))"

lemma length_cr_pts [simp]: "cr_wf cr \<Longrightarrow> length (cr_pts cr) = cr_len cr"
  by (simp add: cr_wf_def cr_pts_def)

lemma cr_add_point_post:
  assumes "cr_wf cr"
  shows "okw (cr_add_point cr v) (cr_post cr (cr_pts cr @ [v]))"
proof -
  obtain r cr' where e: "(if cr_len cr \<ge> length (points cr) then cr_realloc cr (cr_len cr + 1) else (0, cr)) = (r, cr')"
    by fastforce
  then have p: "cr_wf cr' \<and> cr_pts cr' = cr_pts cr \<and> cr_len cr' = cr_len cr \<and>
      cr_realloc_func cr' = cr_realloc_func cr \<and> (r = 0 \<and> cr_len cr + 1 \<le> length (points cr') \<or> r = - 1) \<and>
      (never_fails (cr_realloc_func cr) \<longrightarrow> r = 0)"
    using assms cr_realloc_post [OF assms, of "cr_len cr + 1" r cr'] by (auto split: if_splits)
  show ?thesis
  proof (cases "r = 0")
    case True
    then show ?thesis
      using p e by (auto simp: cr_add_point_def wp cr_post_def cr_wf_def cr_pts_def)
  next
    case False
    then show ?thesis using p e by (auto simp: cr_add_point_def cr_post_def)
  qed
qed

lemma cr_add_interval_post:
  assumes "cr_wf cr"
  shows "okw (cr_add_interval cr a b) (cr_post cr (cr_pts cr @ [a, b]))"
proof -
  obtain r cr' where e: "(if cr_len cr + 2 > length (points cr) then cr_realloc cr (cr_len cr + 2) else (0, cr)) = (r, cr')"
    by fastforce
  then have p: "cr_wf cr' \<and> cr_pts cr' = cr_pts cr \<and> cr_len cr' = cr_len cr \<and>
      cr_realloc_func cr' = cr_realloc_func cr \<and> (r = 0 \<and> cr_len cr + 2 \<le> length (points cr') \<or> r = - 1) \<and>
      (never_fails (cr_realloc_func cr) \<longrightarrow> r = 0)"
    using assms cr_realloc_post [OF assms, of "cr_len cr + 2" r cr'] by (auto split: if_splits)
  show ?thesis
  proof (cases "r = 0")
    case True
    then show ?thesis
      using p e by (auto simp: cr_add_interval_def wp cr_post_def cr_wf_def cr_pts_def)
  next
    case False
    then show ?thesis using p e by (auto simp: cr_add_interval_def cr_post_def)
  qed
qed

text \<open>The invariant of the merge. \<open>a\<close> and \<open>b\<close> are the two point lists; every point
  taken so far is at most every point still to come.\<close>

definition merge_inv ::
  "u32 list \<Rightarrow> u32 list \<Rightarrow> cr_opcode \<Rightarrow> u32 list \<Rightarrow> nat \<Rightarrow> nat \<Rightarrow> bool" where
  "merge_inv a b opc ps ai bi \<longleftrightarrow>
     ai \<le> length a \<and> bi \<le> length b \<and> sorted ps \<and>
     (odd (length ps) = cr_op_in opc (odd ai) (odd bi)) \<and>
     (\<forall>x. pts_in ps x = cr_op_in opc (pts_in (take ai a) x) (pts_in (take bi b) x)) \<and>
     (\<forall>p \<in> set ps \<union> set (take ai a) \<union> set (take bi b).
        \<forall>q \<in> set (drop ai a) \<union> set (drop bi b). p \<le> q)"

lemma cr_op_in_False [simp]: "\<not> cr_op_in opc False False"
  by (cases opc) auto

lemma merge_inv_init: "merge_inv a b opc [] 0 0"
  by (simp add: merge_inv_def)

lemma sorted_drop_hd: "sorted a \<Longrightarrow> i < length a \<Longrightarrow> q \<in> set (drop i a) \<Longrightarrow> a ! i \<le> q"
  by (auto simp: in_set_conv_nth sorted_iff_nth_mono)

text \<open>One step takes the least remaining point \<open>v\<close>, from \<open>a\<close>, from \<open>b\<close> or from both.\<close>

lemma merge_inv_step:
  assumes inv: "merge_inv a b opc ps ai bi" and s: "sorted a" "sorted b"
    and nx: "cr_op_next a (length a) b (length b) ai bi = Some (Some (v, ai', bi'))"
    and ps': "ps' = (if cr_op_in opc (odd ai') (odd bi') \<noteq> odd (length ps) then ps @ [v] else ps)"
  shows "merge_inv a b opc ps' ai' bi'"
proof -
  have A: "(ai' = ai \<or> ai' = ai + 1 \<and> ai < length a \<and> v = a ! ai)"
    and B: "(bi' = bi \<or> bi' = bi + 1 \<and> bi < length b \<and> v = b ! bi)"
    and va: "ai < length a \<Longrightarrow> v \<le> a ! ai" and vb: "bi < length b \<Longrightarrow> v \<le> b ! bi"
    and some: "ai' \<noteq> ai \<or> bi' \<noteq> bi"
    using nx inv by (auto simp: cr_op_next_def bind_eq_Some_conv rd_def merge_inv_def split: if_splits)
  have tka: "set (take ai' a) \<subseteq> insert v (set (take ai a))"
    and tkb: "set (take bi' b) \<subseteq> insert v (set (take bi b))"
    using A B by (auto simp: take_Suc_conv_app_nth)
  have dra: "set (drop ai' a) \<subseteq> set (drop ai a)" and drb: "set (drop bi' b) \<subseteq> set (drop bi b)"
    using A B set_drop_subset_set_drop [of ai ai' a] set_drop_subset_set_drop [of bi bi' b] by auto
  have vq: "v \<le> q" if "q \<in> set (drop ai a) \<union> set (drop bi b)" for q
    using that va vb sorted_drop_hd [OF s(1), of ai q] sorted_drop_hd [OF s(2), of bi q]
    by (cases "ai < length a"; cases "bi < length b") (auto dest: order.trans)
  have vr: "v \<in> set (drop ai a) \<union> set (drop bi b)"
    using A B some by (auto simp: Cons_nth_drop_Suc [symmetric])
  have pv: "p \<le> v" if "p \<in> set ps \<union> set (take ai a) \<union> set (take bi b)" for p
    using inv that vr by (auto simp: merge_inv_def)
  have st: "odd (length ps') = cr_op_in opc (odd ai') (odd bi')" by (auto simp: ps')
  have le': "ai' \<le> length a" "bi' \<le> length b" using A B inv by (auto simp: merge_inv_def)
  have mem: "pts_in ps' x = cr_op_in opc (pts_in (take ai' a) x) (pts_in (take bi' b) x)" for x
  proof (cases "v \<le> x")
    case True
    have "pts_in ps' x = odd (length ps')"
      using pv True by (intro pts_in_all_le) (auto simp: ps' intro: order.trans split: if_splits)
    moreover have "pts_in (take ai' a) x = odd ai'"
      using pv True tka le' by (subst pts_in_all_le) (auto intro: order.trans)
    moreover have "pts_in (take bi' b) x = odd bi'"
      using pv True tkb le' by (subst pts_in_all_le) (auto intro: order.trans)
    ultimately show ?thesis using st by simp
  next
    case False
    then have v: "\<not> pts_in [v] x" by (simp add: pts_in_def)
    then have "pts_in ps' x = pts_in ps x" by (simp add: ps' pts_in_append)
    moreover have "pts_in (take ai' a) x = pts_in (take ai a) x"
      using A v by (auto simp: take_Suc_conv_app_nth pts_in_append)
    moreover have "pts_in (take bi' b) x = pts_in (take bi b) x"
      using B v by (auto simp: take_Suc_conv_app_nth pts_in_append)
    ultimately show ?thesis using inv by (simp add: merge_inv_def)
  qed
  have ps'set: "set ps' \<subseteq> insert v (set ps)" and srt: "sorted ps'"
    using inv pv by (auto simp: ps' merge_inv_def sorted_append)
  have "p \<le> q"
    if "p \<in> set ps' \<union> set (take ai' a) \<union> set (take bi' b)" "q \<in> set (drop ai' a) \<union> set (drop bi' b)" for p q
  proof -
    have "q \<in> set (drop ai a) \<union> set (drop bi b)" using that dra drb by auto
    moreover have "p = v \<or> p \<in> set ps \<union> set (take ai a) \<union> set (take bi b)"
      using that ps'set tka tkb by auto
    ultimately show ?thesis using vq pv order.trans by blast
  qed
  then show ?thesis using le' srt st mem by (auto simp: merge_inv_def)
qed

lemma cr_op_next_None:
  assumes "cr_op_next a (length a) b (length b) ai bi = Some None" "ai \<le> length a" "bi \<le> length b"
  shows "ai = length a \<and> bi = length b"
  using assms by (auto simp: cr_op_next_def bind_eq_Some_conv rd_def split: if_splits)

lemma cr_op_next_ok: "okw (cr_op_next a (length a) b (length b) ai bi) (\<lambda>_. True)"
  by (auto simp: cr_op_next_def wp)

text \<open>The blocks may be longer than the number of points in use.\<close>

lemma cr_op_next_take:
  "na \<le> length a \<Longrightarrow> nb \<le> length b \<Longrightarrow>
   cr_op_next a na b nb ai bi = cr_op_next (take na a) na (take nb b) nb ai bi"
  by (auto simp: cr_op_next_def rd_def)

lemma cr_op_loop_post:
  assumes "cr_wf cr" and "merge_inv a b opc (cr_pts cr) ai bi" and "sorted a" and "sorted b"
    and ab: "a = take na a_pt" "b = take nb b_pt" "na \<le> length a_pt" "nb \<le> length b_pt"
  shows "okw (cr_op_loop cr a_pt na b_pt nb opc ai bi) (\<lambda>(r, cr').
     cr_wf cr' \<and> cr_realloc_func cr' = cr_realloc_func cr \<and>
     (r = 0 \<and> merge_inv a b opc (cr_pts cr') (length a) (length b) \<or> r = - 1) \<and>
     (never_fails (cr_realloc_func cr) \<longrightarrow> r = 0))"
  using assms
proof (induction cr a_pt na b_pt nb opc ai bi rule: cr_op_loop.induct)
  case (1 cr a_pt na b_pt nb opc ai bi)
  have la: "length a = na" "length b = nb" using "1.prems"(5-8) by auto
  have nxt: "cr_op_next a_pt na b_pt nb ai bi = cr_op_next a (length a) b (length b) ai bi"
    using cr_op_next_take [OF "1.prems"(7,8), of ai bi] la "1.prems"(5,6) by simp
  obtain nx where nx: "cr_op_next a_pt na b_pt nb ai bi = Some nx"
    using cr_op_next_ok [of a b ai bi] unfolding nxt by (auto dest: okw_ex)
  show ?case
  proof (cases nx)
    case None
    have "ai = length a \<and> bi = length b"
      using nx "1.prems"(2) unfolding nxt None by (intro cr_op_next_None) (auto simp: merge_inv_def)
    then show ?thesis using nx None "1.prems"(1,2) by (subst cr_op_loop.simps) simp
  next
    case (Some t)
    obtain v ai' bi' where t: "t = (v, ai', bi')" by (cases t)
    let ?new = "cr_op_in opc (odd ai') (odd bi') \<noteq> odd (cr_len cr)"
    have inv: "merge_inv a b opc (if ?new then cr_pts cr @ [v] else cr_pts cr) ai' bi'"
    proof (rule merge_inv_step [OF "1.prems"(2-4)])
      show "cr_op_next a (length a) b (length b) ai bi = Some (Some (v, ai', bi'))"
        using nx by (simp only: nxt Some t)
      show "(if ?new then cr_pts cr @ [v] else cr_pts cr) =
          (if cr_op_in opc (odd ai') (odd bi') \<noteq> odd (length (cr_pts cr)) then cr_pts cr @ [v] else cr_pts cr)"
        using "1.prems"(1) by simp
    qed
    show ?thesis
    proof (cases ?new)
      case False
      have "okw (cr_op_loop cr a_pt na b_pt nb opc ai' bi') (\<lambda>(r, cr').
         cr_wf cr' \<and> cr_realloc_func cr' = cr_realloc_func cr \<and>
         (r = 0 \<and> merge_inv a b opc (cr_pts cr') (length a) (length b) \<or> r = - 1) \<and>
         (never_fails (cr_realloc_func cr) \<longrightarrow> r = 0))"
        using inv False "1.prems"
        by (intro "1.IH"(2) [OF nx Some t [symmetric] refl False]) (simp_all only: if_False)
      then show ?thesis
        using nx Some t False by (subst cr_op_loop.simps) simp
    next
      case True
      obtain r cr1 where add: "cr_add_point cr v = Some (r, cr1)"
        and p: "cr_post cr (cr_pts cr @ [v]) (r, cr1)"
        using cr_add_point_post [OF "1.prems"(1), of v] by (auto dest!: okw_ex)
      show ?thesis
      proof (cases "r = 0")
        case False
        then show ?thesis
          using nx Some t True add p by (subst cr_op_loop.simps) (auto simp: cr_post_def)
      next
        case r0: True
        then have f: "cr_realloc_func cr1 = cr_realloc_func cr" "cr_wf cr1"
            "cr_pts cr1 = cr_pts cr @ [v]"
          using p by (auto simp: cr_post_def)
        have "okw (cr_op_loop cr1 a_pt na b_pt nb opc ai' bi') (\<lambda>(r, cr').
           cr_wf cr' \<and> cr_realloc_func cr' = cr_realloc_func cr1 \<and>
           (r = 0 \<and> merge_inv a b opc (cr_pts cr') (length a) (length b) \<or> r = - 1) \<and>
           (never_fails (cr_realloc_func cr1) \<longrightarrow> r = 0))"
          using inv True "1.prems" r0 f
          by (intro "1.IH"(1) [OF nx Some t [symmetric] refl True add refl]) simp_all
        then show ?thesis
          using nx Some t True add r0 f by (subst cr_op_loop.simps) simp
      qed
    qed
  qed
qed

text \<open>\<open>cr_op\<close> computes the set operation, in canonical form.\<close>

definition cr_result :: "char_range \<Rightarrow> (u32 \<Rightarrow> bool) \<Rightarrow> int \<times> char_range \<Rightarrow> bool" where
  "cr_result cr S rs \<longleftrightarrow> (case rs of (r, cr') \<Rightarrow>
     cr_wf cr' \<and> cr_realloc_func cr' = cr_realloc_func cr \<and>
     (r = 0 \<and> pts_canon (cr_pts cr') \<and> (\<forall>x. cr_in cr' x = S x) \<or> r = - 1) \<and>
     (never_fails (cr_realloc_func cr) \<longrightarrow> r = 0))"

lemma cr_compress_result:
  assumes "cr_wf cr" and "sorted (cr_pts cr)" and "even (cr_len cr)"
  shows "okw (cr_compress cr) (\<lambda>cr'. cr_wf cr' \<and> cr_realloc_func cr' = cr_realloc_func cr \<and>
     pts_canon (cr_pts cr') \<and> set (cr_pts cr') \<subseteq> set (cr_pts cr) \<and> (\<forall>x. cr_in cr' x = cr_in cr x))"
  using cr_compress_post [OF assms(1)] compress_facts [OF assms(2)] assms
  by (elim okw_mono) (auto simp: cr_in_def)

lemma cr_op_post:
  assumes cr: "cr_wf cr" "cr_len cr = 0"
    and a: "na \<le> length a_pt" "sorted (take na a_pt)" "even na"
    and b: "nb \<le> length b_pt" "sorted (take nb b_pt)" "even nb"
  shows "okw (cr_op cr a_pt na b_pt nb opc)
     (cr_result cr (\<lambda>x. cr_op_in opc (pts_in (take na a_pt) x) (pts_in (take nb b_pt) x)))"
proof -
  let ?a = "take na a_pt" and ?b = "take nb b_pt"
  have "cr_pts cr = []" using cr(2) by (simp add: cr_pts_def)
  then have "merge_inv ?a ?b opc (cr_pts cr) 0 0" by (simp add: merge_inv_init)
  then have "okw (cr_op_loop cr a_pt na b_pt nb opc 0 0) (\<lambda>(r, cr').
     cr_wf cr' \<and> cr_realloc_func cr' = cr_realloc_func cr \<and>
     (r = 0 \<and> merge_inv ?a ?b opc (cr_pts cr') (length ?a) (length ?b) \<or> r = - 1) \<and>
     (never_fails (cr_realloc_func cr) \<longrightarrow> r = 0))"
    using cr a b by (intro cr_op_loop_post) auto
  then obtain r cr1 where l: "cr_op_loop cr a_pt na b_pt nb opc 0 0 = Some (r, cr1)"
    and w: "cr_wf cr1" "cr_realloc_func cr1 = cr_realloc_func cr"
      "never_fails (cr_realloc_func cr) \<longrightarrow> r = 0"
    and d: "r = 0 \<and> merge_inv ?a ?b opc (cr_pts cr1) (length ?a) (length ?b) \<or> r = - 1"
    by (auto dest!: okw_ex)
  show ?thesis
  proof (cases "r = 0")
    case False
    then show ?thesis using l w d by (auto simp: cr_op_def cr_result_def)
  next
    case True
    then have inv: "merge_inv ?a ?b opc (cr_pts cr1) na nb" using d a(1) b(1) by simp
    then have s: "sorted (cr_pts cr1)" "even (cr_len cr1)"
      using w a(3) b(3) by (auto simp: merge_inv_def)
    have "cr_in cr1 x = cr_op_in opc (pts_in ?a x) (pts_in ?b x)" for x
      using inv by (auto simp: merge_inv_def cr_in_def min_def)
    then show ?thesis
      using True l w cr_compress_result [OF w(1) s]
      by (auto simp: cr_op_def cr_result_def okw_bind elim!: okw_mono)
  qed
qed

definition cr_canon :: "char_range \<Rightarrow> bool" where
  "cr_canon cr \<longleftrightarrow> cr_wf cr \<and> pts_canon (cr_pts cr)"

lemma cr_canonD:
  "cr_canon cr \<Longrightarrow> cr_len cr \<le> length (points cr) \<and> sorted (take (cr_len cr) (points cr)) \<and> even (cr_len cr)"
  by (auto simp: cr_canon_def pts_canon_def cr_wf_def cr_pts_def strict_sorted_imp_sorted)

lemma cr_union1_post:
  assumes cr: "cr_canon cr" and b: "nb \<le> length b_pt" "sorted (take nb b_pt)" "even nb"
  shows "okw (cr_union1 cr b_pt nb) (cr_result cr (\<lambda>x. cr_in cr x \<or> pts_in (take nb b_pt) x))"
proof -
  let ?c = "cr\<lparr>cr_len := 0, points := []\<rparr>"
  have "cr_wf ?c" using cr by (simp add: cr_canon_def cr_wf_def)
  then have "okw (cr_union1 cr b_pt nb)
     (cr_result ?c (\<lambda>x. cr_op_in CR_OP_UNION (pts_in (take (cr_len cr) (points cr)) x) (pts_in (take nb b_pt) x)))"
    unfolding cr_union1_def using cr_canonD [OF cr] b by (intro cr_op_post) auto
  then show ?thesis
    by (rule okw_mono) (auto simp: cr_result_def cr_in_def cr_pts_def)
qed

lemma cr_union_interval_post:
  assumes cr: "cr_canon cr" and c: "c1 \<le> c2" "c2 \<noteq> 0xffffffff"
  shows "okw (cr_union_interval cr c1 c2) (cr_result cr (\<lambda>x. cr_in cr x \<or> c1 \<le> x \<and> x \<le> c2))"
proof -
  have "(- 1 :: u32) = 0xffffffff" by simp
  with c(2) have "c2 \<noteq> - 1" by (simp only:) simp
  then have lt: "x < c2 + 1 \<longleftrightarrow> x \<le> c2" for x by (simp add: inc_less_eq_iff flip: not_le)
  then have "c1 \<le> c2 + 1" using c(1) by (simp add: less_imp_le)
  then have "okw (cr_union1 cr [c1, c2 + 1] 2)
      (cr_result cr (\<lambda>x. cr_in cr x \<or> pts_in (take 2 [c1, c2 + 1]) x))"
    by (intro cr_union1_post cr) auto
  moreover have "pts_in [c1, c2 + 1] x \<longleftrightarrow> c1 \<le> x \<and> x \<le> c2" for x
    using lt [of x] c(1) by (auto simp: pts_in_pair not_le [symmetric])
  ultimately show ?thesis by (simp add: cr_union_interval_def)
qed

lemma cr_invert_post:
  assumes cr: "cr_canon cr"
  shows "okw (cr_invert cr) (cr_result cr (\<lambda>x. x \<noteq> 0xffffffff \<and> \<not> cr_in cr x))"
proof -
  have wf: "cr_wf cr" and can: "pts_canon (cr_pts cr)" using cr by (auto simp: cr_canon_def)
  obtain r c1 where r: "cr_realloc cr (cr_len cr + 2) = (r, c1)" by fastforce
  note p = cr_realloc_post [OF wf r]
  show ?thesis
  proof (cases "r = 0")
    case False
    then show ?thesis using p r by (auto simp: cr_invert_def cr_result_def)
  next
    case True
    then have le: "cr_len cr + 2 \<le> length (points c1)" using p by auto
    let ?ps = "cr_pts cr" and ?n = "cr_len cr"
    have t: "take ?n (points c1) = ?ps" "cr_len c1 = ?n" using p by (auto simp: cr_pts_def)
    let ?b = "take 1 (points c1) @ ?ps @ drop (1 + ?n) (points c1)"
    have l: "length ?ps = ?n" using wf by simp
    have w1: "mem_write (points c1) 1 ?ps = Some ?b" using le l by (simp add: mem_write_def)
    have w2: "mem_write ?b 0 [0] = Some (0 # ?ps @ drop (1 + ?n) (points c1))"
      using le l by (simp add: mem_write_def)
    have d: "drop (1 + ?n) (points c1) = points c1 ! (1 + ?n) # drop (2 + ?n) (points c1)"
      using le by (simp add: Cons_nth_drop_Suc)
    have w3: "mem_write (0 # ?ps @ drop (1 + ?n) (points c1)) (?n + 1) [0xffffffff] =
        Some (0 # ?ps @ 0xffffffff # drop (2 + ?n) (points c1))"
      unfolding d using l by (simp add: mem_write_def)
    let ?c = "c1\<lparr>points := 0 # ?ps @ 0xffffffff # drop (2 + ?n) (points c1), cr_len := ?n + 2\<rparr>"
    have rd: "mem_read (points c1) 0 ?n = Some ?ps" using le t by (simp add: mem_read_def)
    have pts: "cr_pts ?c = 0 # ?ps @ [0xffffffff]" using l by (simp add: cr_pts_def)
    have wfc: "cr_wf ?c" using p l le by (auto simp: cr_wf_def)
    have mx: "y \<le> (0xffffffff :: u32)" for y
    proof -
      have "y \<le> - 1" by (rule word_n1_ge)
      also have "(- 1 :: u32) = 0xffffffff" by simp
      finally show ?thesis .
    qed
    have s: "sorted (cr_pts ?c)" "even (cr_len ?c)"
      unfolding pts using can mx l
      by (auto simp: pts_canon_def sorted_append strict_sorted_imp_sorted)
    have ev: "\<not> pts_in ?ps 0xffffffff" using can mx by (simp add: pts_in_all_le pts_canon_def)
    have m: "cr_in ?c x = (x \<noteq> 0xffffffff \<and> \<not> cr_in cr x)" for x
      using ev mx [of x] pts_in_append [of "[0]" "?ps @ [0xffffffff]" x] pts_in_append [of ?ps "[0xffffffff]" x]
      unfolding cr_in_def pts by (auto simp: pts_in_def)
    have "cr_invert cr = cr_compress ?c \<bind> (\<lambda>cr. Some (0, cr))"
      using r True rd w1 w2 w3 by (simp add: cr_invert_def Let_def)
    then show ?thesis
      using cr_compress_result [OF wfc s] p m
      by (auto simp: cr_result_def okw_bind elim!: okw_mono)
  qed
qed

lemma cr_copy_post:
  assumes "cr_wf cr" and "cr_wf cr1"
  shows "okw (cr_copy cr cr1) (\<lambda>(r, cr'). (r = 0 \<and> cr_wf cr' \<and> cr_pts cr' = cr_pts cr1) \<or> r = - 1)"
proof -
  obtain r c1 where r: "cr_realloc cr (cr_len cr1) = (r, c1)" by fastforce
  note p = cr_realloc_post [OF assms(1) r]
  show ?thesis
    using r p assms(2) by (auto simp: cr_copy_def wp cr_wf_def cr_pts_def)
qed


section \<open>Canonical ranges are unique\<close>

lemma pts_in_Cons_gt:
  assumes "sorted_wrt (<) (a # b # r)"
  shows "pts_in (a # b # r) x \<longleftrightarrow> a \<le> x \<and> x < b \<or> pts_in r x \<and> b < x"
proof -
  have "\<not> pts_in r x" if "x \<le> b"
    using that assms by (intro pts_in_all_gt) (auto intro: le_less_trans)
  moreover have "a \<le> x" if "b \<le> x" using that assms by (auto intro: less_imp_le order.trans)
  ultimately show ?thesis by (auto simp: pts_in_pair not_le) (meson leI le_less)+
qed

lemma pts_canon_unique:
  assumes "pts_canon ps" and "pts_canon qs" and "\<And>x. pts_in ps x = pts_in qs x"
  shows "ps = qs"
  using assms
proof (induction "length ps + length qs" arbitrary: ps qs rule: less_induct)
  case less
  have nil: "rs = []" if "pts_canon rs" "\<And>x. \<not> pts_in rs x" for rs
  proof (cases rs)
    case (Cons a r)
    with that(1) obtain b r' where "r = b # r'" by (cases r) (auto simp: pts_canon_def)
    then have "pts_in rs a" using Cons that(1) pts_in_Cons_gt [of a b r' a] by (auto simp: pts_canon_def)
    then show ?thesis using that(2) by simp
  qed simp
  show ?case
  proof (cases "ps = [] \<or> qs = []")
    case True
    then show ?thesis using nil [OF less.prems(1)] nil [OF less.prems(2)] less.prems(3) by auto
  next
    case False
    then obtain a ps1 c qs1 where 0: "ps = a # ps1" "qs = c # qs1" by (auto simp: neq_Nil_conv)
    with less.prems obtain b r d t where ps: "ps = a # b # r" and qs: "qs = c # d # t"
      by (cases ps1; cases qs1) (auto simp: pts_canon_def)
    have s: "sorted_wrt (<) (a # b # r)" "sorted_wrt (<) (c # d # t)"
      using less.prems by (auto simp: pts_canon_def ps qs)
    note in1 = pts_in_Cons_gt [OF s(1)] and in2 = pts_in_Cons_gt [OF s(2)]
    have eq: "(a \<le> x \<and> x < b \<or> pts_in r x \<and> b < x) = (c \<le> x \<and> x < d \<or> pts_in t x \<and> d < x)" for x
      using less.prems(3) [of x] by (simp add: ps qs in1 in2)
    have ac: "a = c"
      using eq [of a] eq [of c] s by (auto dest: order.strict_trans)
    have bd: "b = d"
      using eq [of b] eq [of d] s by (auto simp: ac)
    have "pts_in r x = pts_in t x" for x
    proof (cases "b < x")
      case True
      then show ?thesis using eq [of x] by (auto simp: ac bd)
    next
      case False
      then have "\<not> pts_in r x" "\<not> pts_in t x"
        using s by (auto intro!: pts_in_all_gt simp: bd intro: le_less_trans)
      then show ?thesis by simp
    qed
    then have "r = t"
      using less.prems by (intro less.hyps) (auto simp: ps qs pts_canon_def)
    then show ?thesis by (simp add: ps qs ac bd)
  qed
qed

section \<open>Properties\<close>

text \<open>C21: on canonical operands and with an allocator that does not refuse, \<open>cr_op\<close>
  succeeds and its result denotes the union, intersection or symmetric difference of the
  operands.  The result is canonical, so it is the only canonical range denoting that
  set.\<close>

theorem cr_op_computes_set_operation:
  assumes "cr_canon a" and "cr_canon b" and "allocator f" and "never_fails f"
  shows "\<exists>cr. cr_op (cr_init f) (points a) (cr_len a) (points b) (cr_len b) opc = Some (0, cr) \<and>
    cr_canon cr \<and> (\<forall>x. cr_in cr x = cr_op_in opc (cr_in a x) (cr_in b x)) \<and>
    (\<forall>qs. pts_canon qs \<longrightarrow> (\<forall>x. pts_in qs x = cr_op_in opc (cr_in a x) (cr_in b x)) \<longrightarrow> qs = cr_pts cr)"
proof -
  have w: "cr_wf (cr_init f)" "cr_len (cr_init f) = 0" "cr_realloc_func (cr_init f) = f"
    using assms(3) by (simp_all add: cr_init_def cr_wf_def)
  have "okw (cr_op (cr_init f) (points a) (cr_len a) (points b) (cr_len b) opc)
     (cr_result (cr_init f) (\<lambda>x. cr_op_in opc (pts_in (take (cr_len a) (points a)) x)
        (pts_in (take (cr_len b) (points b)) x)))"
    using w cr_canonD [OF assms(1)] cr_canonD [OF assms(2)] by (intro cr_op_post) auto
  then obtain cr where e: "cr_op (cr_init f) (points a) (cr_len a) (points b) (cr_len b) opc = Some (0, cr)"
    and c: "cr_canon cr" and m: "\<And>x. cr_in cr x = cr_op_in opc (cr_in a x) (cr_in b x)"
    using assms(4) w(3) by (auto dest!: okw_ex simp: cr_result_def cr_canon_def cr_in_def cr_pts_def)
  have "qs = cr_pts cr"
    if "pts_canon qs" "\<And>x. pts_in qs x = cr_op_in opc (cr_in a x) (cr_in b x)" for qs
    using that c m by (intro pts_canon_unique) (auto simp: cr_canon_def cr_in_def)
  then show ?thesis using e c m by blast
qed

definition cr_of :: "u32 list \<Rightarrow> char_range" where
  "cr_of ps = \<lparr>cr_len = length ps, points = ps, cr_realloc_func = dbuf_default_realloc 1000\<rparr>"

lemma cr_canon_of: "pts_canon ps \<Longrightarrow> cr_canon (cr_of ps)"
  using std_heap.allocator_axioms
  by (simp add: cr_canon_def cr_of_def cr_wf_def cr_pts_def)

theorem cr_op_computes_set_operation_witness:
  "\<exists>cr. cr_op (cr_init heap_realloc) [2, 5, 9, 12] 4 [4, 10] 2 CR_OP_XOR = Some (0, cr) \<and>
     cr_pts cr = [2, 4, 5, 9, 10, 12]"
proof -
  have a: "cr_canon (cr_of [2, 5, 9, 12])" and b: "cr_canon (cr_of [4, 10])"
    by (rule cr_canon_of, simp add: pts_canon_def)+
  have q: "pts_canon [2, 4, 5, 9, 10, 12]" by (simp add: pts_canon_def)
  have "pts_in [2, 4, 5, 9, 10, 12] x \<longleftrightarrow>
      cr_op_in CR_OP_XOR (cr_in (cr_of [2, 5, 9, 12]) x) (cr_in (cr_of [4, 10]) x)" for x
    by (simp add: cr_in_def cr_of_def cr_pts_def pts_in_pair) blast
  then have "\<exists>cr. cr_op (cr_init heap_realloc) (points (cr_of [2, 5, 9, 12])) (cr_len (cr_of [2, 5, 9, 12]))
      (points (cr_of [4, 10])) (cr_len (cr_of [4, 10])) CR_OP_XOR = Some (0, cr) \<and>
      [2, 4, 5, 9, 10, 12] = cr_pts cr"
    using cr_op_computes_set_operation [OF a b heap.allocator_axioms heap_never_fails, of CR_OP_XOR] q
    by blast
  then show ?thesis by (auto simp: cr_of_def eval_nat_numeral)
qed

text \<open>C32: adding the interval from \<open>c1\<close> to \<open>c2\<close> (below the largest code) to a canonical
  range adds exactly those characters, whatever they overlap; a refused allocation is
  reported as -1.\<close>

theorem cr_union_interval_adds:
  assumes "cr_canon cr" and "c1 \<le> c2" and "c2 \<noteq> 0xffffffff"
  shows "\<exists>r cr'. cr_union_interval cr c1 c2 = Some (r, cr') \<and>
    (r = 0 \<and> cr_canon cr' \<and> (\<forall>x. cr_in cr' x \<longleftrightarrow> cr_in cr x \<or> c1 \<le> x \<and> x \<le> c2) \<or>
     r = - 1 \<and> \<not> never_fails (cr_realloc_func cr))"
  using cr_union_interval_post [OF assms]
  by (auto dest!: okw_ex simp: cr_result_def cr_canon_def)

theorem cr_union_interval_adds_witness:
  "\<exists>cr'. cr_union_interval (cr_of [2, 5, 9, 12]) 4 20 = Some (0, cr') \<and> cr_pts cr' = [2, 21] \<and>
     (\<forall>x. cr_in cr' x \<longleftrightarrow> cr_in (cr_of [2, 5, 9, 12]) x \<or> 4 \<le> x \<and> x \<le> 20)"
proof -
  have a: "cr_canon (cr_of [2, 5, 9, 12])"
    by (rule cr_canon_of, simp add: pts_canon_def)
  have e: "map_option (\<lambda>(r, cr). (r, cr_pts cr)) (cr_union_interval (cr_of [2, 5, 9, 12]) 4 20) = Some (0, [2, 21])"
    by code_simp
  then obtain cr' where "cr_union_interval (cr_of [2, 5, 9, 12]) 4 20 = Some (0, cr')" "cr_pts cr' = [2, 21]"
    by auto
  then show ?thesis using cr_union_interval_adds [OF a, of 4 20] by auto
qed

text \<open>C31: \<open>cr_invert\<close> computes the complement below the largest code, and inverting
  twice restores the points of any canonical range that does not hold the largest
  code.\<close>

theorem cr_invert_involutive:
  assumes "cr_canon cr" and "never_fails (cr_realloc_func cr)" and "\<not> cr_in cr 0xffffffff"
  shows "\<exists>cr1 cr2. cr_invert cr = Some (0, cr1) \<and> cr_invert cr1 = Some (0, cr2) \<and>
    (\<forall>x. cr_in cr1 x \<longleftrightarrow> x \<noteq> 0xffffffff \<and> \<not> cr_in cr x) \<and> cr_pts cr2 = cr_pts cr"
proof -
  obtain cr1 where 1: "cr_invert cr = Some (0, cr1)" "cr_canon cr1"
      "\<And>x. cr_in cr1 x \<longleftrightarrow> x \<noteq> 0xffffffff \<and> \<not> cr_in cr x" "cr_realloc_func cr1 = cr_realloc_func cr"
    using cr_invert_post [OF assms(1)] assms(2)
    by (auto dest!: okw_ex simp: cr_result_def cr_canon_def)
  obtain cr2 where 2: "cr_invert cr1 = Some (0, cr2)" "cr_canon cr2"
      "\<And>x. cr_in cr2 x \<longleftrightarrow> x \<noteq> 0xffffffff \<and> \<not> cr_in cr1 x"
    using cr_invert_post [OF 1(2)] assms(2) 1(4)
    by (auto dest!: okw_ex simp: cr_result_def cr_canon_def)
  have "cr_in cr2 x = cr_in cr x" for x
    using 1(3) [of x] 2(3) [of x] assms(3) by (cases "x = 0xffffffff") auto
  then have "cr_pts cr2 = cr_pts cr"
    using 2(2) assms(1) by (intro pts_canon_unique) (auto simp: cr_canon_def cr_in_def)
  then show ?thesis using 1 2 by blast
qed

theorem cr_invert_involutive_witness:
  "\<exists>cr1 cr2. cr_invert ((cr_of [2, 5])\<lparr>cr_realloc_func := heap_realloc\<rparr>) = Some (0, cr1) \<and>
     cr_invert cr1 = Some (0, cr2) \<and> cr_pts cr2 = [2, 5]"
proof -
  let ?c = "(cr_of [2, 5])\<lparr>cr_realloc_func := heap_realloc\<rparr>"
  have a: "cr_canon ?c"
    using heap.allocator_axioms by (simp add: cr_canon_def cr_of_def cr_wf_def cr_pts_def pts_canon_def)
  have n: "\<not> cr_in ?c 0xffffffff" by code_simp
  have "never_fails (cr_realloc_func ?c)" by (simp add: heap_never_fails)
  from cr_invert_involutive [OF a this n] show ?thesis by (auto simp: cr_of_def cr_pts_def)
qed

end
