(* ===== verification/Re_Opcode.thy ===== *)
theory Re_Opcode
  imports Utf8 Cutils_Str CharRange_Spec
begin

text \<open>
  The instruction set of the regular-expression bytecode (\<^verbatim>\<open>libregexp-opcode.h\<close>), the
  flags and limits of \<^verbatim>\<open>libregexp.h\<close> and \<^verbatim>\<open>libregexp.c\<close>, and the character helpers
  both the compiler and the interpreter use. The Unicode tables (generated file
  \<^verbatim>\<open>libunicode-table.h\<close>) are behind the functions of the record \<open>unicode_db\<close>.
\<close>

section \<open>Opcodes\<close>

datatype reop =
    REOP_invalid | REOP_char | REOP_char32 | REOP_dot | REOP_any | REOP_line_start
  | REOP_line_end | REOP_goto | REOP_split_goto_first | REOP_split_next_first | REOP_match
  | REOP_save_start | REOP_save_end | REOP_save_reset | REOP_loop | REOP_push_i32 | REOP_drop
  | REOP_word_boundary | REOP_not_word_boundary | REOP_back_reference
  | REOP_backward_back_reference | REOP_range | REOP_range32 | REOP_lookahead
  | REOP_negative_lookahead | REOP_push_char_pos | REOP_bne_char_pos | REOP_prev
  | REOP_simple_greedy_quant

fun reop_code :: "reop \<Rightarrow> u8" where
  "reop_code REOP_invalid = 0" | "reop_code REOP_char = 1" | "reop_code REOP_char32 = 2"
| "reop_code REOP_dot = 3" | "reop_code REOP_any = 4" | "reop_code REOP_line_start = 5"
| "reop_code REOP_line_end = 6" | "reop_code REOP_goto = 7"
| "reop_code REOP_split_goto_first = 8" | "reop_code REOP_split_next_first = 9"
| "reop_code REOP_match = 10" | "reop_code REOP_save_start = 11" | "reop_code REOP_save_end = 12"
| "reop_code REOP_save_reset = 13" | "reop_code REOP_loop = 14" | "reop_code REOP_push_i32 = 15"
| "reop_code REOP_drop = 16" | "reop_code REOP_word_boundary = 17"
| "reop_code REOP_not_word_boundary = 18" | "reop_code REOP_back_reference = 19"
| "reop_code REOP_backward_back_reference = 20" | "reop_code REOP_range = 21"
| "reop_code REOP_range32 = 22" | "reop_code REOP_lookahead = 23"
| "reop_code REOP_negative_lookahead = 24" | "reop_code REOP_push_char_pos = 25"
| "reop_code REOP_bne_char_pos = 26" | "reop_code REOP_prev = 27"
| "reop_code REOP_simple_greedy_quant = 28"

text \<open>The table \<open>reopcode_info\<close>: the size of each instruction without its variable part.\<close>

fun reop_size :: "reop \<Rightarrow> nat" where
  "reop_size REOP_invalid = 1" | "reop_size REOP_char = 3" | "reop_size REOP_char32 = 5"
| "reop_size REOP_dot = 1" | "reop_size REOP_any = 1" | "reop_size REOP_line_start = 1"
| "reop_size REOP_line_end = 1" | "reop_size REOP_goto = 5"
| "reop_size REOP_split_goto_first = 5" | "reop_size REOP_split_next_first = 5"
| "reop_size REOP_match = 1" | "reop_size REOP_save_start = 2" | "reop_size REOP_save_end = 2"
| "reop_size REOP_save_reset = 3" | "reop_size REOP_loop = 5" | "reop_size REOP_push_i32 = 5"
| "reop_size REOP_drop = 1" | "reop_size REOP_word_boundary = 1"
| "reop_size REOP_not_word_boundary = 1" | "reop_size REOP_back_reference = 2"
| "reop_size REOP_backward_back_reference = 2" | "reop_size REOP_range = 3"
| "reop_size REOP_range32 = 3" | "reop_size REOP_lookahead = 5"
| "reop_size REOP_negative_lookahead = 5" | "reop_size REOP_push_char_pos = 1"
| "reop_size REOP_bne_char_pos = 5" | "reop_size REOP_prev = 1"
| "reop_size REOP_simple_greedy_quant = 17"

definition reops :: "reop list" where
  "reops =
     [REOP_invalid, REOP_char, REOP_char32, REOP_dot, REOP_any, REOP_line_start,
      REOP_line_end, REOP_goto, REOP_split_goto_first, REOP_split_next_first, REOP_match,
      REOP_save_start, REOP_save_end, REOP_save_reset, REOP_loop, REOP_push_i32, REOP_drop,
      REOP_word_boundary, REOP_not_word_boundary, REOP_back_reference,
      REOP_backward_back_reference, REOP_range, REOP_range32, REOP_lookahead,
      REOP_negative_lookahead, REOP_push_char_pos, REOP_bne_char_pos, REOP_prev,
      REOP_simple_greedy_quant]"

text \<open>A byte read as an opcode; \<open>None\<close> for a byte that is not below \<open>REOP_COUNT\<close>.\<close>

definition reop_of :: "u8 \<Rightarrow> reop option" where
  "reop_of b = (if unat b < length reops then Some (reops ! unat b) else None)"

lemma reop_of_code [simp]: "reop_of (reop_code r) = Some r"
  by (cases r) (simp_all add: reop_of_def reops_def)

lemma reop_size_pos [simp]: "0 < reop_size r"
  by (cases r) simp_all

lemma reop_code_of: "reop_of b = Some r \<Longrightarrow> reop_code r = b"
proof -
  assume "reop_of b = Some r"
  then have l: "unat b < 29" and r: "r = reops ! unat b"
    by (auto simp: reop_of_def reops_def split: if_splits)
  have "map (\<lambda>r. unat (reop_code r)) reops = [0..<29]" by code_simp
  then have "map (\<lambda>r. unat (reop_code r)) reops ! unat b = [0..<29] ! unat b" by simp
  moreover have "length reops = 29" by (simp add: reops_def)
  ultimately have "unat (reop_code r) = unat b" using l r by simp
  then show ?thesis by (rule unsigned_word_eqI)
qed

declare reop_code.simps [simp del]

text \<open>\<open>range\<close> and \<open>range32\<close> are followed by a number of intervals: the whole length.\<close>

definition reop_len :: "u8 list \<Rightarrow> nat \<Rightarrow> reop \<Rightarrow> nat option" where
  "reop_len bc pos op =
     (case op of
        REOP_range \<Rightarrow> do { n \<leftarrow> get_u16 bc (pos + 1); Some (reop_size op + unat n * 4) }
      | REOP_range32 \<Rightarrow> do { n \<leftarrow> get_u16 bc (pos + 1); Some (reop_size op + unat n * 8) }
      | _ \<Rightarrow> Some (reop_size op))"

lemma reop_len_ge: "reop_len bc pos op = Some n \<Longrightarrow> reop_size op \<le> n"
  by (cases op) (auto simp: reop_len_def bind_eq_Some_conv)

lemma reop_len_pos: "reop_len bc pos op = Some n \<Longrightarrow> 0 < n"
  using reop_len_ge [of bc pos op n] reop_size_pos [of op] by linarith

section \<open>Flags, limits, characters\<close>

definition LRE_FLAG_GLOBAL :: u8 where "LRE_FLAG_GLOBAL = 1"
definition LRE_FLAG_IGNORECASE :: u8 where "LRE_FLAG_IGNORECASE = 2"
definition LRE_FLAG_MULTILINE :: u8 where "LRE_FLAG_MULTILINE = 4"
definition LRE_FLAG_DOTALL :: u8 where "LRE_FLAG_DOTALL = 8"
definition LRE_FLAG_UTF16 :: u8 where "LRE_FLAG_UTF16 = 16"
definition LRE_FLAG_STICKY :: u8 where "LRE_FLAG_STICKY = 32"
definition LRE_FLAG_NAMED_GROUPS :: u8 where "LRE_FLAG_NAMED_GROUPS = 128"

lemmas lre_flag_defs = LRE_FLAG_GLOBAL_def LRE_FLAG_IGNORECASE_def LRE_FLAG_MULTILINE_def
  LRE_FLAG_DOTALL_def LRE_FLAG_UTF16_def LRE_FLAG_STICKY_def LRE_FLAG_NAMED_GROUPS_def

abbreviation CAPTURE_COUNT_MAX :: nat where "CAPTURE_COUNT_MAX \<equiv> 255"
abbreviation STACK_SIZE_MAX :: nat where "STACK_SIZE_MAX \<equiv> 255"
abbreviation TMP_BUF_SIZE :: nat where "TMP_BUF_SIZE \<equiv> 128"
abbreviation RE_HEADER_LEN :: nat where "RE_HEADER_LEN \<equiv> 7"
abbreviation INT32_MAX :: nat where "INT32_MAX \<equiv> 2147483647"
abbreviation CLASS_RANGE_BASE :: int where "CLASS_RANGE_BASE \<equiv> 0x40000000"
abbreviation UTF8_CHAR_LEN_MAX :: int where "UTF8_CHAR_LEN_MAX \<equiv> 6"

definition is_digit :: "u8 \<Rightarrow> bool" where
  "is_digit c \<longleftrightarrow> 0x30 \<le> c \<and> c \<le> 0x39"

definition is_line_terminator :: "u32 \<Rightarrow> bool" where
  "is_line_terminator c \<longleftrightarrow> c = 0x0a \<or> c = 0x0d \<or> c = 0x2028 \<or> c = 0x2029"

definition is_word_char :: "u32 \<Rightarrow> bool" where
  "is_word_char c \<longleftrightarrow>
     0x30 \<le> c \<and> c \<le> 0x39 \<or> 0x61 \<le> c \<and> c \<le> 0x7a \<or> 0x41 \<le> c \<and> c \<le> 0x5a \<or> c = 0x5f"

text \<open>The functions of \<^verbatim>\<open>libunicode.c\<close> that are driven by the generated tables.\<close>

record unicode_db =
  lre_case_conv :: "u32 \<Rightarrow> nat \<Rightarrow> u32 list"
  lre_is_id_start :: "u32 \<Rightarrow> bool"
  lre_is_id_continue :: "u32 \<Rightarrow> bool"
  unicode_script :: "char_range \<Rightarrow> u8 list \<Rightarrow> bool \<Rightarrow> int \<times> char_range"
  unicode_general_category :: "char_range \<Rightarrow> u8 list \<Rightarrow> int \<times> char_range"
  unicode_prop :: "char_range \<Rightarrow> u8 list \<Rightarrow> int \<times> char_range"

definition lre_canonicalize :: "unicode_db \<Rightarrow> u32 \<Rightarrow> bool \<Rightarrow> u32" where
  "lre_canonicalize U c is_utf16 =
     (if is_utf16 then
        (if c < 128 then (if 0x41 \<le> c \<and> c \<le> 0x5a then c - 0x41 + 0x61 else c)
         else hd (lre_case_conv U c 2))
      else
        (if c < 128 then (if 0x61 \<le> c \<and> c \<le> 0x7a then c - 0x61 + 0x41 else c)
         else let res = lre_case_conv U c 0
              in if length res = 1 \<and> hd res \<ge> 128 then hd res else c))"

definition lre_id_start_table_ascii :: "u32 list" where
  "lre_id_start_table_ascii = [0x00000000, 0x00000010, 0x87FFFFFE, 0x07FFFFFE]"

definition lre_id_continue_table_ascii :: "u32 list" where
  "lre_id_continue_table_ascii = [0x00000000, 0x03FF0010, 0x87FFFFFE, 0x07FFFFFE]"

definition lre_js_is_ident_first :: "unicode_db \<Rightarrow> u32 \<Rightarrow> bool" where
  "lre_js_is_ident_first U c =
     (if c < 128 then bit (lre_id_start_table_ascii ! unat (drop_bit 5 c)) (unat (c AND 31))
      else lre_is_id_start U c)"

definition lre_js_is_ident_next :: "unicode_db \<Rightarrow> u32 \<Rightarrow> bool" where
  "lre_js_is_ident_next U c =
     (if c < 128 then bit (lre_id_continue_table_ascii ! unat (drop_bit 5 c)) (unat (c AND 31))
      else lre_is_id_continue U c \<or> c = 0x200C \<or> c = 0x200D)"

section \<open>The predefined classes\<close>

definition char_range_d :: "u32 list" where
  "char_range_d = [0x0030, 0x0039 + 1]"

definition char_range_s :: "u32 list" where
  "char_range_s =
     [0x0009, 0x000D + 1, 0x0020, 0x0020 + 1, 0x00A0, 0x00A0 + 1, 0x1680, 0x1680 + 1,
      0x2000, 0x200A + 1, 0x2028, 0x2029 + 1, 0x202F, 0x202F + 1, 0x205F, 0x205F + 1,
      0x3000, 0x3000 + 1, 0xFEFF, 0xFEFF + 1]"

definition char_range_w :: "u32 list" where
  "char_range_w =
     [0x0030, 0x0039 + 1, 0x0041, 0x005A + 1, 0x005F, 0x005F + 1, 0x0061, 0x007A + 1]"

datatype char_range_enum = CHAR_RANGE_d | CHAR_RANGE_D | CHAR_RANGE_s | CHAR_RANGE_S
  | CHAR_RANGE_w | CHAR_RANGE_W

fun char_range_table :: "char_range_enum \<Rightarrow> u32 list" where
  "char_range_table CHAR_RANGE_d = char_range_d"
| "char_range_table CHAR_RANGE_D = char_range_d"
| "char_range_table CHAR_RANGE_s = char_range_s"
| "char_range_table CHAR_RANGE_S = char_range_s"
| "char_range_table CHAR_RANGE_w = char_range_w"
| "char_range_table CHAR_RANGE_W = char_range_w"

fun char_range_inverted :: "char_range_enum \<Rightarrow> bool" where
  "char_range_inverted CHAR_RANGE_D = True"
| "char_range_inverted CHAR_RANGE_S = True"
| "char_range_inverted CHAR_RANGE_W = True"
| "char_range_inverted _ = False"

text \<open>\<open>lre_is_space\<close>: the loop over the intervals of \<open>char_range_s\<close>; \<open>c\<close> is a signed
  \<open>int\<close> in the code.\<close>

fun lre_is_space_loop :: "u32 list \<Rightarrow> int \<Rightarrow> bool" where
  "lre_is_space_loop (low # high # r) c =
     (if c < uint low then False else if c < uint high then True else lre_is_space_loop r c)"
| "lre_is_space_loop _ c = False"

definition lre_is_space :: "int \<Rightarrow> bool" where
  "lre_is_space c = lre_is_space_loop char_range_s c"

fun cr_add_points :: "char_range \<Rightarrow> u32 list \<Rightarrow> (int \<times> char_range) option" where
  "cr_add_points cr [] = Some (0, cr)"
| "cr_add_points cr (v # vs) = do {
     (r, cr) \<leftarrow> cr_add_point cr v;
     if r \<noteq> 0 then Some (- 1, cr) else cr_add_points cr vs
   }"

definition cr_init_char_range :: "u32 realloc \<Rightarrow> char_range_enum \<Rightarrow> (int \<times> char_range) option" where
  "cr_init_char_range f c = do {
     (r, cr) \<leftarrow> cr_add_points (cr_init f) (char_range_table c);
     if r \<noteq> 0 then Some (- 1, cr_free cr)
     else if char_range_inverted c then do {
       (r, cr) \<leftarrow> cr_invert cr;
       if r \<noteq> 0 then Some (- 1, cr_free cr) else Some (0, cr)
     }
     else Some (0, cr)
   }"

text \<open>\<open>cr_canonicalize\<close>: add the upper-case counterparts of the lower-case ASCII letters
  in the range. The points of the intersection are shifted in place.\<close>

definition cr_canonicalize :: "char_range \<Rightarrow> (int \<times> char_range) option" where
  "cr_canonicalize cr = do {
     let a = cr_init (cr_realloc_func cr);
     (ret, a) \<leftarrow> cr_op a (points cr) (cr_len cr) [0x61, 0x7a + 1] 2 CR_OP_INTER;
     if ret \<noteq> 0 then Some (ret, cr)
     else do {
       let pts = map (\<lambda>p. p + (0x41 - 0x61)) (take (cr_len a) (points a)) @ drop (cr_len a) (points a);
       cr_union1 cr pts (cr_len a)
     }
   }"

section \<open>The predefined classes\<close>

lemma cr_add_points_post:
  assumes "cr_wf cr" and "never_fails (cr_realloc_func cr)"
  shows "okw (cr_add_points cr vs) (\<lambda>(r, cr'). r = 0 \<and> cr_wf cr' \<and>
    cr_realloc_func cr' = cr_realloc_func cr \<and> cr_pts cr' = cr_pts cr @ vs)"
  using assms
proof (induction vs arbitrary: cr)
  case (Cons v vs)
  obtain cr1 where 1: "cr_add_point cr v = Some (0, cr1)" "cr_wf cr1"
      "cr_realloc_func cr1 = cr_realloc_func cr" "cr_pts cr1 = cr_pts cr @ [v]"
    using cr_add_point_post [OF Cons.prems(1), of v] Cons.prems(2)
    by (auto dest!: okw_ex simp: cr_post_def)
  show ?case using Cons.IH [of cr1] 1 Cons.prems by simp
qed simp

lemma char_range_table_canon: "pts_canon (char_range_table c)"
  by (cases c) (simp_all add: pts_canon_def char_range_d_def char_range_s_def char_range_w_def)

lemma char_range_table_max: "\<not> pts_in (char_range_table c) 0xffffffff"
  by (cases c; simp only:; code_simp)

definition in_class :: "char_range_enum \<Rightarrow> u32 \<Rightarrow> bool" where
  "in_class c x \<longleftrightarrow>
     (if char_range_inverted c then x \<noteq> 0xffffffff \<and> \<not> pts_in (char_range_table c) x
      else pts_in (char_range_table c) x)"

lemma cr_init_char_range_post:
  assumes "allocator f" and "never_fails f"
  shows "\<exists>cr. cr_init_char_range f c = Some (0, cr) \<and> cr_canon cr \<and> cr_realloc_func cr = f \<and>
    (\<forall>x. cr_in cr x = in_class c x)"
proof -
  have "cr_wf (cr_init f)" using assms(1) by (simp add: cr_init_def cr_wf_def)
  moreover have i: "cr_realloc_func (cr_init f) = f" "cr_pts (cr_init f) = []"
    by (simp_all add: cr_init_def cr_pts_def)
  ultimately obtain cr where 1: "cr_add_points (cr_init f) (char_range_table c) = Some (0, cr)"
      "cr_wf cr" "cr_realloc_func cr = f" "cr_pts cr = char_range_table c"
    using cr_add_points_post [of "cr_init f" "char_range_table c"] assms(2)
    by (auto dest!: okw_ex)
  then have can: "cr_canon cr" using char_range_table_canon by (simp add: cr_canon_def)
  show ?thesis
  proof (cases "char_range_inverted c")
    case False
    then show ?thesis using 1 can by (simp add: cr_init_char_range_def in_class_def cr_in_def)
  next
    case True
    obtain cr1 where "cr_invert cr = Some (0, cr1)" "cr_canon cr1" "cr_realloc_func cr1 = f"
      "\<And>x. cr_in cr1 x \<longleftrightarrow> x \<noteq> 0xffffffff \<and> \<not> cr_in cr x"
      using cr_invert_post [OF can] assms(2) 1(3)
      by (auto dest!: okw_ex simp: cr_result_def cr_canon_def)
    then show ?thesis using True 1 by (auto simp: cr_init_char_range_def in_class_def cr_in_def)
  qed
qed

lemma in_class_w: "in_class CHAR_RANGE_w x = is_word_char x"
proof -
  have "pts_in (char_range_w) x \<longleftrightarrow>
     0x30 \<le> x \<and> x < 0x3a \<or> 0x41 \<le> x \<and> x < 0x5b \<or> 0x5f \<le> x \<and> x < 0x60 \<or> 0x61 \<le> x \<and> x < 0x7b"
    by (simp add: char_range_w_def pts_in_Cons_gt word_less_nat_alt word_le_nat_alt) linarith
  then show ?thesis
    by (simp add: in_class_def is_word_char_def word_less_nat_alt word_le_nat_alt word_unat_eq_iff) linarith
qed

lemma in_class_d: "in_class CHAR_RANGE_d x \<longleftrightarrow> 0x30 \<le> x \<and> x \<le> 0x39"
proof -
  have "pts_in (char_range_d) x \<longleftrightarrow> 0x30 \<le> x \<and> x < 0x3a"
    by (simp add: char_range_d_def pts_in_Cons_gt)
  then show ?thesis
    by (simp add: in_class_def word_less_nat_alt word_le_nat_alt) linarith
qed

lemma lre_is_space_loop_pts:
  "sorted_wrt (<) ps \<Longrightarrow> even (length ps) \<Longrightarrow> lre_is_space_loop ps (uint x) = pts_in ps x"
proof (induction ps "uint x" rule: lre_is_space_loop.induct)
  case (1 low high r)
  then show ?case
    using pts_in_Cons_gt [of low high r x] pts_in_all_gt [of r x]
    by (auto simp: word_less_def word_le_def not_less)
qed auto

lemma in_class_s: "in_class CHAR_RANGE_s x = lre_is_space (uint x)"
  using char_range_table_canon [of CHAR_RANGE_s]
  by (simp add: in_class_def lre_is_space_def lre_is_space_loop_pts pts_canon_def)

section \<open>Properties\<close>

text \<open>C33: the class escapes denote what the rest of the engine means by them: \<^verbatim>\<open>\d\<close>
  the ASCII digits, \<^verbatim>\<open>\s\<close> the characters of \<open>lre_is_space\<close>, \<^verbatim>\<open>\w\<close> the word
  characters of the boundary assertions, and the capital letters the complements (below
  the largest code), each as a canonical range.\<close>

theorem class_escapes_denote:
  assumes "allocator f" and "never_fails f"
  shows "\<exists>cr. cr_init_char_range f c = Some (0, cr) \<and> cr_canon cr \<and>
    (\<forall>x. x \<noteq> 0xffffffff \<longrightarrow> cr_in cr x = (case c of
        CHAR_RANGE_d \<Rightarrow> 0x30 \<le> x \<and> x \<le> 0x39 | CHAR_RANGE_D \<Rightarrow> \<not> (0x30 \<le> x \<and> x \<le> 0x39)
      | CHAR_RANGE_s \<Rightarrow> lre_is_space (uint x) | CHAR_RANGE_S \<Rightarrow> \<not> lre_is_space (uint x)
      | CHAR_RANGE_w \<Rightarrow> is_word_char x | CHAR_RANGE_W \<Rightarrow> \<not> is_word_char x))"
proof -
  obtain cr where cr: "cr_init_char_range f c = Some (0, cr)" "cr_canon cr"
      "\<And>x. cr_in cr x = in_class c x"
    using cr_init_char_range_post [OF assms, of c] by blast
  have neg: "x \<noteq> 0xffffffff \<Longrightarrow> in_class CHAR_RANGE_D x = (\<not> in_class CHAR_RANGE_d x)"
    "x \<noteq> 0xffffffff \<Longrightarrow> in_class CHAR_RANGE_S x = (\<not> in_class CHAR_RANGE_s x)"
    "x \<noteq> 0xffffffff \<Longrightarrow> in_class CHAR_RANGE_W x = (\<not> in_class CHAR_RANGE_w x)" for x
    by (simp_all add: in_class_def)
  show ?thesis
    by (rule exI [of _ cr], intro conjI cr allI impI)
      (cases c; simp add: cr(3) neg in_class_d in_class_s in_class_w)
qed

theorem class_escapes_denote_witness:
  "\<exists>cr. cr_init_char_range heap_realloc CHAR_RANGE_W = Some (0, cr) \<and> \<not> cr_in cr 0x5f \<and> cr_in cr 0x20"
  using class_escapes_denote [OF heap.allocator_axioms heap_never_fails, of CHAR_RANGE_W]
  by (auto simp: is_word_char_def)

end
