(* ===== verification/Re_Parse.thy ===== *)
theory Re_Parse
  imports Re_Opcode
begin

text \<open>
  The lexical layer of the regular-expression compiler (\<^verbatim>\<open>libregexp.c\<close>): the parse
  state, the emission of instructions, numbers, escapes, group names and character
  classes. The pattern is the block \<open>pat\<close>: \<open>buf_end\<close> bytes and a terminating zero;
  a C pointer into it is its offset, and \<open>None\<close> is a read beyond the block (or, where
  a function takes fuel, running out of it). Where the code returns an integer and moves
  \<open>*pp\<close>, the model returns both.
\<close>

section \<open>The parse state\<close>

record re_state =
  byte_code :: dynbuf
  buf_ptr :: nat
  buf_end :: nat
  pat :: "u8 list"
  re_flags :: u8
  is_utf16 :: bool
  ignore_case :: bool
  dotall :: bool
  capture_count :: nat
  total_capture_count :: int
  has_named_captures :: int
  group_names :: dynbuf
  u_buf :: "u8 list"
  stack_overflow :: "nat \<Rightarrow> bool"
  cr_mem :: "u32 realloc"
  unicode :: unicode_db

definition str_bytes :: "string \<Rightarrow> u8 list" where
  "str_bytes w = map of_char w"

text \<open>\<open>re_parse_error\<close> formats into the buffer of the union; \<open>re_parse_out_of_memory\<close>
  is one such message. Both return -1.\<close>

definition re_parse_error :: "re_state \<Rightarrow> string \<Rightarrow> (int \<times> re_state) option" where
  "re_parse_error s msg = do {
     u \<leftarrow> mem_write (u_buf s) 0 (take (TMP_BUF_SIZE - 1) (str_bytes msg) @ [0]);
     Some (- 1, s\<lparr>u_buf := u\<rparr>)
   }"

definition re_parse_out_of_memory :: "re_state \<Rightarrow> (int \<times> re_state) option" where
  "re_parse_out_of_memory s = re_parse_error s ''out of memory''"

section \<open>Emitting instructions\<close>

text \<open>The results of the \<open>dbuf_put\<close> calls are ignored: the error flag of the buffer
  records a failure.\<close>

definition emit :: "re_state \<Rightarrow> u8 list \<Rightarrow> re_state option" where
  "emit s d = do { (r, b) \<leftarrow> dbuf_put (byte_code s) d; Some (s\<lparr>byte_code := b\<rparr>) }"

definition re_emit_op :: "re_state \<Rightarrow> reop \<Rightarrow> re_state option" where
  "re_emit_op s op = emit s [reop_code op]"

definition re_emit_op_u32 :: "re_state \<Rightarrow> reop \<Rightarrow> u32 \<Rightarrow> (nat \<times> re_state) option" where
  "re_emit_op_u32 s op val = do {
     s \<leftarrow> emit s [reop_code op];
     let pos = dsize (byte_code s);
     s \<leftarrow> emit s (u32_bytes val);
     Some (pos, s)
   }"

definition re_emit_goto :: "re_state \<Rightarrow> reop \<Rightarrow> nat \<Rightarrow> (nat \<times> re_state) option" where
  "re_emit_goto s op val = do {
     s \<leftarrow> emit s [reop_code op];
     let pos = dsize (byte_code s);
     s \<leftarrow> emit s (u32_bytes (of_nat val - of_nat (pos + 4)));
     Some (pos, s)
   }"

definition re_emit_op_u8 :: "re_state \<Rightarrow> reop \<Rightarrow> u8 \<Rightarrow> re_state option" where
  "re_emit_op_u8 s op val = do { s \<leftarrow> emit s [reop_code op]; emit s [val] }"

definition re_emit_op_u16 :: "re_state \<Rightarrow> reop \<Rightarrow> u16 \<Rightarrow> re_state option" where
  "re_emit_op_u16 s op val = do { s \<leftarrow> emit s [reop_code op]; emit s (u16_bytes val) }"

section \<open>Numbers and escapes\<close>

function parse_digits_loop :: "u8 list \<Rightarrow> nat \<Rightarrow> nat \<Rightarrow> bool \<Rightarrow> (int \<times> nat) option option" where
  "parse_digits_loop b p v allow_overflow = do {
     c \<leftarrow> rd b p;
     if \<not> is_digit c then Some (Some (int v, p))
     else let v = v * 10 + (unat c - 0x30)
          in if v \<ge> INT32_MAX then
               (if allow_overflow then parse_digits_loop b (p + 1) INT32_MAX allow_overflow
                else Some None)
             else parse_digits_loop b (p + 1) v allow_overflow
   }"
  by pat_completeness auto
termination
  by (relation "measure (\<lambda>(b, p, v, a). length b - p)") (auto simp: rd_def split: if_splits)

declare parse_digits_loop.simps [simp del]

definition parse_digits :: "u8 list \<Rightarrow> nat \<Rightarrow> bool \<Rightarrow> (int \<times> nat) option" where
  "parse_digits b p allow_overflow = do {
     r \<leftarrow> parse_digits_loop b p 0 allow_overflow;
     Some (case r of None \<Rightarrow> (- 1, p) | Some q \<Rightarrow> q)
   }"

definition re_parse_expect :: "re_state \<Rightarrow> nat \<Rightarrow> char \<Rightarrow> (int \<times> nat \<times> re_state) option" where
  "re_parse_expect s p c = do {
     d \<leftarrow> rd (pat s) p;
     if d \<noteq> of_char c then do {
       (r, s) \<leftarrow> re_parse_error s (''expecting '' @ [CHR 0x27, c, CHR 0x27]);
       Some (r, p, s)
     }
     else Some (0, p + 1, s)
   }"

text \<open>\<open>n\<close> hexadecimal digits from \<open>p\<close> on; the inner \<open>None\<close> is a byte that is none.\<close>

fun hex_digits :: "u8 list \<Rightarrow> nat \<Rightarrow> nat \<Rightarrow> u32 \<Rightarrow> u32 option option" where
  "hex_digits b p 0 c = Some (Some c)"
| "hex_digits b p (Suc n) c = do {
     d \<leftarrow> rd b p;
     let h = from_hex (uint d);
     if h < 0 then Some None
     else hex_digits b (p + 1) n (push_bit 4 c OR word_of_int h)
   }"

text \<open>The digits of \<^verbatim>\<open>\u{...}\<close>: the value and the position of the closing brace.\<close>

function brace_digits :: "u8 list \<Rightarrow> nat \<Rightarrow> u32 \<Rightarrow> (u32 \<times> nat) option option" where
  "brace_digits b p c = do {
     d \<leftarrow> rd b p;
     let h = from_hex (uint d);
     if h < 0 then Some None
     else let c = push_bit 4 c OR word_of_int h
          in if c > 0x10FFFF then Some None
             else do {
               e \<leftarrow> rd b (p + 1);
               if e = 0x7d then Some (Some (c, p + 1)) else brace_digits b (p + 1) c
             }
   }"
  by pat_completeness auto
termination
  by (relation "measure (\<lambda>(b, p, c). length b - p)") (auto simp: rd_def split: if_splits)

declare brace_digits.simps [simp del]

text \<open>The case \<open>x\<close> or \<open>u\<close> of \<open>lre_parse_escape\<close>; \<open>p\<close> is behind that letter.\<close>

definition parse_hex_escape :: "u8 list \<Rightarrow> nat \<Rightarrow> u8 \<Rightarrow> nat \<Rightarrow> (u32 \<times> nat) option option" where
  "parse_hex_escape b p c allow_utf16 = do {
     d \<leftarrow> rd b p;
     if d = 0x7b \<and> allow_utf16 \<noteq> 0 then do {
       r \<leftarrow> brace_digits b (p + 1) 0;
       Some (case r of None \<Rightarrow> None | Some (c, q) \<Rightarrow> Some (c, q + 1))
     }
     else do {
       let n = (if c = 0x78 then 2 else 4);
       r \<leftarrow> hex_digits b p n 0;
       (case r of None \<Rightarrow> Some None
        | Some c \<Rightarrow> do {
            let p = p + n;
            pair \<leftarrow> (if c \<ge> 0xd800 \<and> c < 0xdc00 \<and> allow_utf16 = 2 then do {
                       e \<leftarrow> rd b p;
                       if e = 0x5c then do { f \<leftarrow> rd b (p + 1); Some (f = 0x75) } else Some False
                     } else Some False);
            if pair then do {
              r1 \<leftarrow> hex_digits b (p + 2) 4 0;
              Some (case r1 of
                  Some c1 \<Rightarrow>
                    if c1 \<ge> 0xdc00 \<and> c1 < 0xe000
                    then Some ((push_bit 10 (c AND 0x3ff) OR (c1 AND 0x3ff)) + 0x10000, p + 6)
                    else Some (c, p)
                | None \<Rightarrow> Some (c, p))
            }
            else Some (Some (c, p))
          })
     }
   }"

text \<open>The octal case: \<open>c\<close> is the value of the first digit, \<open>p\<close> is behind it.\<close>

definition octal_digit :: "u8 \<Rightarrow> u32 option" where
  "octal_digit d = (let v = (ucast d :: u32) - 0x30 in if v > 7 then None else Some v)"

definition parse_octal_escape :: "u8 list \<Rightarrow> nat \<Rightarrow> u32 \<Rightarrow> nat \<Rightarrow> (u32 \<times> nat) option option" where
  "parse_octal_escape b p c allow_utf16 = do {
     d \<leftarrow> rd b p;
     if allow_utf16 = 2 then
       (if c \<noteq> 0 \<or> is_digit d then Some None else Some (Some (c, p)))
     else (case octal_digit d of
         None \<Rightarrow> Some (Some (c, p))
       | Some v \<Rightarrow>
           let c = push_bit 3 c OR v; p = p + 1
           in if c \<ge> 32 then Some (Some (c, p))
              else do {
                e \<leftarrow> rd b p;
                (case octal_digit e of
                   None \<Rightarrow> Some (Some (c, p))
                 | Some v \<Rightarrow> Some (Some (push_bit 3 c OR v, p + 1)))
              })
   }"

definition lre_parse_escape :: "u8 list \<Rightarrow> nat \<Rightarrow> nat \<Rightarrow> (int \<times> nat) option" where
  "lre_parse_escape b p0 allow_utf16 = do {
     c \<leftarrow> rd b p0;
     let p = p0 + 1;
     if c = 0x62 then Some (8, p)
     else if c = 0x66 then Some (12, p)
     else if c = 0x6e then Some (10, p)
     else if c = 0x72 then Some (13, p)
     else if c = 0x74 then Some (9, p)
     else if c = 0x76 then Some (11, p)
     else if c = 0x78 \<or> c = 0x75 then do {
       r \<leftarrow> parse_hex_escape b p c allow_utf16;
       Some (case r of None \<Rightarrow> (- 1, p0) | Some (c, p) \<Rightarrow> (uint c, p))
     }
     else if 0x30 \<le> c \<and> c \<le> 0x37 then do {
       r \<leftarrow> parse_octal_escape b p (ucast c - 0x30) allow_utf16;
       Some (case r of None \<Rightarrow> (- 1, p0) | Some (c, p) \<Rightarrow> (uint c, p))
     }
     else Some (- 2, p0)
   }"

section \<open>Unicode property escapes\<close>

definition is_unicode_char :: "u8 \<Rightarrow> bool" where
  "is_unicode_char c \<longleftrightarrow>
     0x30 \<le> c \<and> c \<le> 0x39 \<or> 0x41 \<le> c \<and> c \<le> 0x5a \<or> 0x61 \<le> c \<and> c \<le> 0x7a \<or> c = 0x5f"

text \<open>Copies a name into a buffer of 64 bytes: \<open>Inl\<close> when it does not fit.\<close>

function prop_name :: "u8 list \<Rightarrow> nat \<Rightarrow> u8 list \<Rightarrow> (unit + u8 list \<times> nat) option" where
  "prop_name b p name = do {
     c \<leftarrow> rd b p;
     if \<not> is_unicode_char c then Some (Inr (name, p))
     else if length name \<ge> 63 then Some (Inl ())
     else prop_name b (p + 1) (name @ [c])
   }"
  by pat_completeness auto
termination
  by (relation "measure (\<lambda>(b, p, name). length b - p)") (auto simp: rd_def split: if_splits)

declare prop_name.simps [simp del]

text \<open>The lookup in the tables, after the braces have been read.\<close>

definition unicode_property_lookup ::
  "re_state \<Rightarrow> u8 list \<Rightarrow> u8 list \<Rightarrow> (int \<times> char_range \<times> re_state) option" where
  "unicode_property_lookup s name value = do {
     let U = unicode s;
     let cr = cr_init (cr_mem s);
     if name = str_bytes ''Script'' \<or> name = str_bytes ''sc'' \<or>
        name = str_bytes ''Script_Extensions'' \<or> name = str_bytes ''scx'' then do {
       let script_ext = (name = str_bytes ''Script_Extensions'' \<or> name = str_bytes ''scx'');
       let (ret, cr) = unicode_script U cr value script_ext;
       if ret \<noteq> 0 then do {
         (r, s) \<leftarrow> (if ret = - 2 then re_parse_error s ''unknown unicode script''
                   else re_parse_out_of_memory s);
         Some (r, cr_free cr, s)
       }
       else Some (0, cr, s)
     }
     else if name = str_bytes ''General_Category'' \<or> name = str_bytes ''gc'' then do {
       let (ret, cr) = unicode_general_category U cr value;
       if ret \<noteq> 0 then do {
         (r, s) \<leftarrow> (if ret = - 2 then re_parse_error s ''unknown unicode general category''
                   else re_parse_out_of_memory s);
         Some (r, cr_free cr, s)
       }
       else Some (0, cr, s)
     }
     else if value = [] then do {
       let (ret, cr) = unicode_general_category U cr name;
       if ret = - 1 then do { (r, s) \<leftarrow> re_parse_out_of_memory s; Some (r, cr_free cr, s) }
       else if ret < 0 then do {
         let (ret, cr) = unicode_prop U cr name;
         if ret \<noteq> 0 then do {
           (r, s) \<leftarrow> (if ret = - 2 then re_parse_error s ''unknown unicode property name''
                     else re_parse_out_of_memory s);
           Some (r, cr_free cr, s)
         }
         else Some (0, cr, s)
       }
       else Some (0, cr, s)
     }
     else do { (r, s) \<leftarrow> re_parse_error s ''unknown unicode property name''; Some (r, cr, s) }
   }"

definition parse_unicode_property ::
  "re_state \<Rightarrow> nat \<Rightarrow> bool \<Rightarrow> (int \<times> nat \<times> char_range \<times> re_state) option" where
  "parse_unicode_property s p0 is_inv = do {
     let cr = cr_init (cr_mem s);
     c \<leftarrow> rd (pat s) p0;
     if c \<noteq> 0x7b then do {
       (r, s) \<leftarrow> re_parse_error s (''expecting '' @ [CHR 0x27, CHR 0x7b, CHR 0x27] @ '' after '' @ [CHR 0x5c, CHR 0x70]);
       Some (r, p0, cr, s)
     }
     else do {
       nm \<leftarrow> prop_name (pat s) (p0 + 1) [];
       (case nm of
          Inl _ \<Rightarrow> do {
            (r, s) \<leftarrow> re_parse_error s ''unknown unicode property name'';
            Some (r, p0, cr, s)
          }
        | Inr (name, p) \<Rightarrow> do {
            c \<leftarrow> rd (pat s) p;
            vl \<leftarrow> (if c = 0x3d then prop_name (pat s) (p + 1) [] else Some (Inr ([], p)));
            (case vl of
               Inl _ \<Rightarrow> do {
                 (r, s) \<leftarrow> re_parse_error s ''unknown unicode property value'';
                 Some (r, p0, cr, s)
               }
             | Inr (value, p) \<Rightarrow> do {
                 c \<leftarrow> rd (pat s) p;
                 if c \<noteq> 0x7d then do {
                   (r, s) \<leftarrow> re_parse_error s (''expecting '' @ [CHR 0x27, CHR 0x7d, CHR 0x27]);
                   Some (r, p0, cr, s)
                 }
                 else do {
                   (r, cr, s) \<leftarrow> unicode_property_lookup s name value;
                   if r \<noteq> 0 then Some (r, p0, cr, s)
                   else if is_inv then do {
                     (r, cr) \<leftarrow> cr_invert cr;
                     if r \<noteq> 0 then Some (- 1, p0, cr_free cr, s) else Some (0, p + 1, cr, s)
                   }
                   else Some (0, p + 1, cr, s)
                 }
               })
          })
     }
   }"

end
