(* ===== verification/Re_Class.thy ===== *)
theory Re_Class
  imports Re_Parse
begin

text \<open>
  Character classes and group names of the regular-expression compiler: \<open>get_class_atom\<close>,
  \<open>re_emit_range\<close>, \<open>re_parse_char_class\<close>, \<open>re_parse_group_name\<close>, \<open>re_parse_captures\<close>,
  \<open>find_group_name\<close>. Loops over the pattern take fuel.
\<close>

section \<open>Class atoms\<close>

text \<open>The range \<open>*cr\<close> the caller passes is not initialised (\<open>None\<close>); the class escapes
  and property escapes set it. Using it uninitialised is a fault.\<close>

definition class_escape :: "u8 \<Rightarrow> char_range_enum option" where
  "class_escape c =
     (if c = 0x64 then Some CHAR_RANGE_d else if c = 0x44 then Some CHAR_RANGE_D
      else if c = 0x73 then Some CHAR_RANGE_s else if c = 0x53 then Some CHAR_RANGE_S
      else if c = 0x77 then Some CHAR_RANGE_w else if c = 0x57 then Some CHAR_RANGE_W
      else None)"

text \<open>The label \<open>normal_char\<close>: the character \<open>c\<close> at \<open>p\<close>.\<close>

definition class_normal_char ::
  "re_state \<Rightarrow> char_range option \<Rightarrow> nat \<Rightarrow> nat \<Rightarrow> u8 \<Rightarrow>
   (int \<times> nat \<times> char_range option \<times> re_state) option" where
  "class_normal_char s cr p0 p c =
     (if c \<ge> 128 then do {
        (c, p) \<leftarrow> unicode_from_utf8 (pat s) p UTF8_CHAR_LEN_MAX;
        if (c < 0 \<or> c > 0xffff) \<and> \<not> is_utf16 s then do {
          (r, s) \<leftarrow> re_parse_error s ''malformed unicode char'';
          Some (r, p0, cr, s)
        }
        else Some (c, p, cr, s)
      }
      else Some (uint c, p + 1, cr, s))"

text \<open>The characters of \<open>"^$\.*+?()[]{}|/"\<close>, always valid to escape.\<close>

definition syntax_chars :: "u8 list" where
  "syntax_chars =
     [0x5e, 0x24, 0x5c, 0x2e, 0x2a, 0x2b, 0x3f, 0x28, 0x29, 0x5b, 0x5d, 0x7b, 0x7d, 0x7c, 0x2f]"

text \<open>The \<open>default\<close> branch of the inner \<open>switch\<close>: an escape; \<open>p\<close> is at the character
  \<open>c\<close> behind the backslash.\<close>

definition class_atom_escape ::
  "re_state \<Rightarrow> char_range option \<Rightarrow> nat \<Rightarrow> nat \<Rightarrow> u8 \<Rightarrow>
   (int \<times> nat \<times> char_range option \<times> re_state) option" where
  "class_atom_escape s cr p0 p c = do {
     (ret, q) \<leftarrow> lre_parse_escape (pat s) p (if is_utf16 s then 2 else 0);
     if ret \<ge> 0 then Some (ret, q, cr, s)
     else if ret = - 2 \<and> c \<noteq> 0 \<and> c \<in> set syntax_chars then class_normal_char s cr p0 p c
     else if is_utf16 s then do {
       (r, s) \<leftarrow> re_parse_error s ''invalid escape sequence in regular expression'';
       Some (r, p0, cr, s)
     }
     else class_normal_char s cr p0 p c
   }"

definition class_control_ok :: "u8 \<Rightarrow> bool \<Rightarrow> bool \<Rightarrow> bool" where
  "class_control_ok c inclass utf16 \<longleftrightarrow>
     0x61 \<le> c \<and> c \<le> 0x7a \<or> 0x41 \<le> c \<and> c \<le> 0x5a \<or>
     (0x30 \<le> c \<and> c \<le> 0x39 \<or> c = 0x5f) \<and> inclass \<and> \<not> utf16"

definition get_class_atom ::
  "re_state \<Rightarrow> char_range option \<Rightarrow> nat \<Rightarrow> bool \<Rightarrow>
   (int \<times> nat \<times> char_range option \<times> re_state) option" where
  "get_class_atom s cr p0 inclass = do {
     c \<leftarrow> rd (pat s) p0;
     if c = 0x5c then
       (let p = p0 + 1
        in if p \<ge> buf_end s then do {
             (r, s) \<leftarrow> re_parse_error s ''unexpected end'';
             Some (r, p0, cr, s)
           }
           else do {
             c \<leftarrow> rd (pat s) p;
             (case class_escape c of
                Some e \<Rightarrow> do {
                  (r, cr) \<leftarrow> cr_init_char_range (cr_mem s) e;
                  if r \<noteq> 0 then Some (- 1, p0, Some cr, s)
                  else Some (CLASS_RANGE_BASE, p + 1, Some cr, s)
                }
              | None \<Rightarrow>
                  if c = 0x63 then do {
                    d \<leftarrow> rd (pat s) (p + 1);
                    if class_control_ok d inclass (is_utf16 s)
                    then Some (uint (d AND 0x1f), p + 2, cr, s)
                    else if is_utf16 s then do {
                      (r, s) \<leftarrow> re_parse_error s ''invalid escape sequence in regular expression'';
                      Some (r, p0, cr, s)
                    }
                    else Some (0x5c, p, cr, s)
                  }
                  else if (c = 0x70 \<or> c = 0x50) \<and> is_utf16 s then do {
                    (r, p, cr, s) \<leftarrow> parse_unicode_property s (p + 1) (c = 0x50);
                    if r \<noteq> 0 then Some (- 1, p0, Some cr, s)
                    else Some (CLASS_RANGE_BASE, p, Some cr, s)
                  }
                  else class_atom_escape s cr p0 p c)
           })
     else if c = 0 \<and> p0 \<ge> buf_end s then do {
       (r, s) \<leftarrow> re_parse_error s ''unexpected end'';
       Some (r, p0, cr, s)
     }
     else class_normal_char s cr p0 p0 c
   }"

section \<open>Emitting a class\<close>

function emit_range16 :: "re_state \<Rightarrow> char_range \<Rightarrow> nat \<Rightarrow> re_state option" where
  "emit_range16 s cr i =
     (if i < cr_len cr then do {
        lo \<leftarrow> rd (points cr) i;
        s \<leftarrow> emit s (u16_bytes (ucast lo));
        hi \<leftarrow> rd (points cr) (i + 1);
        let high = hi - 1;
        let high = (if high = 0xfffffffe then 0xffff else high);
        s \<leftarrow> emit s (u16_bytes (ucast high));
        emit_range16 s cr (i + 2)
      }
      else Some s)"
  by pat_completeness auto
termination by (relation "measure (\<lambda>(s, cr, i). cr_len cr - i)") auto

function emit_range32 :: "re_state \<Rightarrow> char_range \<Rightarrow> nat \<Rightarrow> re_state option" where
  "emit_range32 s cr i =
     (if i < cr_len cr then do {
        lo \<leftarrow> rd (points cr) i;
        s \<leftarrow> emit s (u32_bytes lo);
        hi \<leftarrow> rd (points cr) (i + 1);
        s \<leftarrow> emit s (u32_bytes (hi - 1));
        emit_range32 s cr (i + 2)
      }
      else Some s)"
  by pat_completeness auto
termination by (relation "measure (\<lambda>(s, cr, i). cr_len cr - i)") auto

declare emit_range16.simps [simp del] emit_range32.simps [simp del]

definition re_emit_range :: "re_state \<Rightarrow> char_range \<Rightarrow> (int \<times> re_state) option" where
  "re_emit_range s cr = do {
     let len = cr_len cr div 2;
     if len \<ge> 65535 then re_parse_error s ''too many ranges''
     else if len = 0 then do {
       (_, s) \<leftarrow> re_emit_op_u32 s REOP_char32 (- 1);
       Some (0, s)
     }
     else do {
       high \<leftarrow> rd (points cr) (cr_len cr - 1);
       high \<leftarrow> (if high = 0xffffffff then rd (points cr) (cr_len cr - 2) else Some high);
       if high \<le> 0xffff then do {
         s \<leftarrow> re_emit_op_u16 s REOP_range (of_nat len);
         s \<leftarrow> emit_range16 s cr 0;
         Some (0, s)
       }
       else do {
         s \<leftarrow> re_emit_op_u16 s REOP_range32 (of_nat len);
         s \<leftarrow> emit_range32 s cr 0;
         Some (0, s)
       }
     }
   }"

section \<open>Bracketed classes\<close>

text \<open>The label \<open>class_atom\<close>: add the atom \<open>c1\<close> (a character or the range \<open>cr1\<close>).
  The result is 0, or -1 for the jump to \<open>memory_error\<close>.\<close>

definition class_add_atom :: "char_range \<Rightarrow> char_range option \<Rightarrow> int \<Rightarrow> (int \<times> char_range) option" where
  "class_add_atom cr cr1 c1 =
     (if c1 \<ge> CLASS_RANGE_BASE then do { cr1 \<leftarrow> cr1; cr_union1 cr (points cr1) (cr_len cr1) }
      else cr_union_interval cr (word_of_int c1) (word_of_int c1))"

text \<open>The loop up to the closing bracket. It returns the class and the position of the
  bracket, or -1 after an error.\<close>

fun char_class_loop ::
  "nat \<Rightarrow> re_state \<Rightarrow> char_range \<Rightarrow> nat \<Rightarrow> (int \<times> nat \<times> char_range \<times> re_state) option" where
  "char_class_loop 0 s cr p = None"
| "char_class_loop (Suc fuel) s cr p = do {
     let mem_err = (\<lambda>cr s. do { (r, s) \<leftarrow> re_parse_out_of_memory s; Some (- 1 :: int, p, cr, s) });
     let bad_range = (\<lambda>s. do { (r, s) \<leftarrow> re_parse_error s ''invalid class range''; Some (- 1 :: int, p, cr, s) });
     let add = (\<lambda>s cr1 c1 p. do {
       (r, cr) \<leftarrow> class_add_atom cr cr1 c1;
       if r \<noteq> 0 then mem_err cr s else char_class_loop fuel s cr p });
     c \<leftarrow> rd (pat s) p;
     if c = 0x5d then Some (0, p, cr, s)
     else do {
       (c1, p, cr1, s) \<leftarrow> get_class_atom s None p True;
       if c1 < 0 then Some (- 1, p, cr, s)
       else do {
         d \<leftarrow> rd (pat s) p;
         is_range \<leftarrow> (if d = 0x2d then do { e \<leftarrow> rd (pat s) (p + 1); Some (e \<noteq> 0x5d) } else Some False);
         if \<not> is_range then add s cr1 c1 p
         else if c1 \<ge> CLASS_RANGE_BASE then
           (if is_utf16 s then bad_range s else add s cr1 c1 p)
         else do {
           (c2, p0, cr1, s) \<leftarrow> get_class_atom s cr1 (p + 1) True;
           if c2 < 0 then Some (- 1, p, cr, s)
           else if c2 \<ge> CLASS_RANGE_BASE then
             (if is_utf16 s then bad_range s else add s cr1 c1 p)
           else if c2 < c1 then bad_range s
           else do {
             (r, cr) \<leftarrow> cr_union_interval cr (word_of_int c1) (word_of_int c2);
             if r \<noteq> 0 then mem_err cr s else char_class_loop fuel s cr p0
           }
         }
       }
     }
   }"

definition re_parse_char_class :: "nat \<Rightarrow> re_state \<Rightarrow> nat \<Rightarrow> (int \<times> nat \<times> re_state) option" where
  "re_parse_char_class fuel s p0 = do {
     let mem_err = (\<lambda>s. do { (r, s) \<leftarrow> re_parse_out_of_memory s; Some (- 1 :: int, p0, s) });
     let cr = cr_init (cr_mem s);
     let p = p0 + 1;
     c \<leftarrow> rd (pat s) p;
     let invert = (c = 0x5e);
     let p = (if invert then p + 1 else p);
     (r, p, cr, s) \<leftarrow> char_class_loop fuel s cr p;
     if r \<noteq> 0 then Some (- 1, p0, s)
     else do {
       (r, cr) \<leftarrow> (if ignore_case s then cr_canonicalize cr else Some (0, cr));
       if r \<noteq> 0 then mem_err s
       else do {
         (r, cr) \<leftarrow> (if invert then cr_invert cr else Some (0, cr));
         if r \<noteq> 0 then mem_err s
         else do {
           (r, s) \<leftarrow> re_emit_range s cr;
           if r \<noteq> 0 then Some (- 1, p0, s) else Some (0, p + 1, s)
         }
       }
     }
   }"

section \<open>Group names\<close>

text \<open>\<open>name\<close> holds the bytes written to the buffer so far. Returns the C result, the
  position (behind the closing bracket on success) and those bytes.\<close>

fun group_name_loop ::
  "nat \<Rightarrow> unicode_db \<Rightarrow> u8 list \<Rightarrow> nat \<Rightarrow> nat \<Rightarrow> bool \<Rightarrow> u8 list \<Rightarrow> (int \<times> nat \<times> u8 list) option" where
  "group_name_loop 0 U b p buf_size utf16 name = None"
| "group_name_loop (Suc fuel) U b p buf_size utf16 name = do {
     c \<leftarrow> rd b p;
     if c = 0x3e then (if name = [] then Some (- 1, p, name) else Some (0, p + 1, name))
     else do {
       (c, q) \<leftarrow> (if c = 0x5c then do {
             d \<leftarrow> rd b (p + 1);
             if d \<noteq> 0x75 then Some (- 1, p + 1) else lre_parse_escape b (p + 1) (if utf16 then 2 else 0)
           }
         else if c \<ge> 128 then unicode_from_utf8 b p UTF8_CHAR_LEN_MAX
         else Some (uint c, p + 1));
       if c < 0 \<or> c > 0x10FFFF then Some (- 1, p, name)
       else let w = (word_of_int c :: u32)
            in if \<not> (if name = [] then lre_js_is_ident_first U w else lre_js_is_ident_next U w)
               then Some (- 1, p, name)
               else if length name + 6 + 1 > buf_size then Some (- 1, p, name)
               else group_name_loop fuel U b q buf_size utf16
                      (name @ (if w < 128 then [ucast w] else unicode_to_utf8 w))
     }
   }"

definition re_parse_group_name ::
  "nat \<Rightarrow> unicode_db \<Rightarrow> u8 list \<Rightarrow> nat \<Rightarrow> nat \<Rightarrow> bool \<Rightarrow> (int \<times> nat \<times> u8 list) option" where
  "re_parse_group_name fuel U b p buf_size utf16 = do {
     (r, q, name) \<leftarrow> group_name_loop fuel U b p buf_size utf16 [];
     Some (r, (if r = 0 then q else p), name)
   }"

text \<open>\<open>*p\<close> inside brackets: to the closing bracket or the end of the pattern.\<close>

function skip_class :: "u8 list \<Rightarrow> nat \<Rightarrow> nat \<Rightarrow> nat option" where
  "skip_class b e p =
     (if p < e then do {
        c \<leftarrow> rd b p;
        if c = 0x5d then Some p
        else if c = 0x5c then skip_class b e (p + 2)
        else skip_class b e (p + 1)
      }
      else Some p)"
  by pat_completeness auto
termination by (relation "measure (\<lambda>(b, e, p). e - p)") auto

declare skip_class.simps [simp del]

text \<open>\<open>re_parse_captures\<close>: with \<open>None\<close> for \<open>capture_name\<close> the number of captures plus 1,
  otherwise the index of the named capture or -1. Also returns \<open>*phas_named_captures\<close>.\<close>

fun parse_captures_loop ::
  "nat \<Rightarrow> re_state \<Rightarrow> u8 list option \<Rightarrow> nat \<Rightarrow> nat \<Rightarrow> int \<Rightarrow> (int \<times> int) option" where
  "parse_captures_loop 0 s capture_name p capture_index has_named = None"
| "parse_captures_loop (Suc fuel) s capture_name p capture_index has_named = do {
     let fin = (\<lambda>i h. (if capture_name = None then int i else - 1, h));
     if p \<ge> buf_end s then Some (fin capture_index has_named)
     else do {
       c \<leftarrow> rd (pat s) p;
       if c = 0x28 then do {
         c1 \<leftarrow> rd (pat s) (p + 1);
         if c1 = 0x3f then do {
           c2 \<leftarrow> rd (pat s) (p + 2);
           named \<leftarrow> (if c2 = 0x3c then do {
                c3 \<leftarrow> rd (pat s) (p + 3);
                Some (c3 \<noteq> 0x3d \<and> c3 \<noteq> 0x21) } else Some False);
           if named then do {
             (found, p) \<leftarrow> (case capture_name of
                None \<Rightarrow> Some (False, p)
              | Some cn \<Rightarrow> do {
                  (r, q, name) \<leftarrow> re_parse_group_name fuel (unicode s) (pat s) (p + 3) TMP_BUF_SIZE (is_utf16 s);
                  Some (r = 0 \<and> name = cn, q) });
             if found then Some (int capture_index, 1)
             else if capture_index + 1 \<ge> CAPTURE_COUNT_MAX then Some (fin (capture_index + 1) 1)
             else parse_captures_loop fuel s capture_name (p + 1) (capture_index + 1) 1
           }
           else parse_captures_loop fuel s capture_name (p + 1) capture_index has_named
         }
         else if capture_index + 1 \<ge> CAPTURE_COUNT_MAX then Some (fin (capture_index + 1) has_named)
         else parse_captures_loop fuel s capture_name (p + 1) (capture_index + 1) has_named
       }
       else if c = 0x5c then parse_captures_loop fuel s capture_name (p + 2) capture_index has_named
       else if c = 0x5b then do {
         q \<leftarrow> skip_class (pat s) (buf_end s) (p + 1);
         parse_captures_loop fuel s capture_name (q + 1) capture_index has_named
       }
       else parse_captures_loop fuel s capture_name (p + 1) capture_index has_named
     }
   }"

definition re_parse_captures :: "nat \<Rightarrow> re_state \<Rightarrow> u8 list option \<Rightarrow> (int \<times> int) option" where
  "re_parse_captures fuel s capture_name = parse_captures_loop fuel s capture_name 0 1 0"

definition re_count_captures :: "nat \<Rightarrow> re_state \<Rightarrow> (int \<times> re_state) option" where
  "re_count_captures fuel s =
     (if total_capture_count s < 0 then do {
        (n, h) \<leftarrow> re_parse_captures fuel s None;
        Some (n, s\<lparr>total_capture_count := n, has_named_captures := h\<rparr>)
      }
      else Some (total_capture_count s, s))"

definition re_has_named_captures :: "nat \<Rightarrow> re_state \<Rightarrow> (bool \<times> re_state) option" where
  "re_has_named_captures fuel s = do {
     s \<leftarrow> (if has_named_captures s < 0 then do { (_, s) \<leftarrow> re_count_captures fuel s; Some s } else Some s);
     Some (has_named_captures s \<noteq> 0, s)
   }"

text \<open>\<open>find_group_name\<close>: the names are stored one after the other, each with a zero.\<close>

function find_group_name_loop :: "u8 list \<Rightarrow> u8 list \<Rightarrow> nat \<Rightarrow> nat \<Rightarrow> int option" where
  "find_group_name_loop g name p capture_index =
     (if p < length g then do {
        len \<leftarrow> strlen (drop p g);
        if len = length name \<and> take len (drop p g) = name then Some (int capture_index)
        else find_group_name_loop g name (p + len + 1) (capture_index + 1)
      }
      else Some (- 1))"
  by pat_completeness auto
termination by (relation "measure (\<lambda>(g, name, p, i). length g - p)") auto

declare find_group_name_loop.simps [simp del]

definition find_group_name :: "re_state \<Rightarrow> u8 list \<Rightarrow> int option" where
  "find_group_name s name = find_group_name_loop (contents (group_names s)) name 0 1"

end
