(* ===== verification/Re_Lex_Safe.thy ===== *)
theory Re_Lex_Safe
  imports Re_Class
begin

text \<open>
  The lexical layer never reads behind the zero that ends the pattern, and its loops end within the
  fuel the compiler gives them: numbers, escapes, UTF-8 characters, property names, group names and
  the two counting passes over the pattern.
\<close>

section \<open>Zero-terminated patterns\<close>

text \<open>The pattern is a block of \<open>e\<close> bytes and a zero. The bytes 0xfc to 0xff, which no UTF-8 text
  contains, are excluded: a sequence of six bytes encodes a code beyond \<open>CLASS_RANGE_BASE\<close>.\<close>

definition zpat :: "u8 list \<Rightarrow> nat \<Rightarrow> bool" where
  "zpat b e \<longleftrightarrow> length b = Suc e \<and> b ! e = 0 \<and> (\<forall>x \<in> set b. x < 0xfc)"

lemma zpat_len: "zpat b e \<Longrightarrow> length b = Suc e"
  by (simp add: zpat_def)

lemma zpat_rd: "zpat b e \<Longrightarrow> p \<le> e \<Longrightarrow> rd b p = Some (b ! p)"
  by (simp add: zpat_def rd_def)

lemma zpat_next: "zpat b e \<Longrightarrow> p \<le> e \<Longrightarrow> b ! p \<noteq> 0 \<Longrightarrow> Suc p \<le> e"
  by (metis le_antisym not_less_eq_eq zpat_def)

lemma zpat_lead: "zpat b e \<Longrightarrow> p \<le> e \<Longrightarrow> b ! p < 0xfc"
  by (simp add: zpat_def)

section \<open>Numbers\<close>

lemma is_digit_nz: "is_digit c \<Longrightarrow> c \<noteq> 0"
  by (auto simp: is_digit_def)

lemma parse_digits_loop_ok:
  "zpat b e \<Longrightarrow> p \<le> e \<Longrightarrow> v \<le> INT32_MAX \<Longrightarrow>
   okw (parse_digits_loop b p v al) (\<lambda>r. case r of None \<Rightarrow> \<not> al
     | Some (x, q) \<Rightarrow> 0 \<le> x \<and> x \<le> int INT32_MAX \<and> p \<le> q \<and> q \<le> e \<and> (is_digit (b ! p) \<longrightarrow> p < q))"
proof (induction b p v al rule: parse_digits_loop.induct)
  case (1 b p v al)
  have r: "rd b p = Some (b ! p)" using 1 zpat_rd by blast
  show ?case
  proof (cases "is_digit (b ! p)")
    case False
    then show ?thesis using r 1 by (subst parse_digits_loop.simps) auto
  next
    case True
    have n: "Suc p \<le> e" using 1 True zpat_next is_digit_nz by blast
    let ?v = "v * 10 + (unat (b ! p) - 0x30)"
    show ?thesis
    proof (cases "?v \<ge> INT32_MAX")
      case big: True
      show ?thesis
      proof (cases al)
        case True
        have "okw (parse_digits_loop b (p + 1) INT32_MAX al) (\<lambda>r. case r of None \<Rightarrow> \<not> al
          | Some (x, q) \<Rightarrow> 0 \<le> x \<and> x \<le> int INT32_MAX \<and> p + 1 \<le> q \<and> q \<le> e \<and> (is_digit (b ! (p + 1)) \<longrightarrow> p + 1 < q))"
          using n 1 r True big \<open>is_digit (b ! p)\<close> by (intro "1.IH"(1)) auto
        then show ?thesis
          using r \<open>is_digit (b ! p)\<close> big True
          by (subst parse_digits_loop.simps) (auto elim!: okw_mono split: option.splits prod.splits)
      next
        case False
        then show ?thesis using r \<open>is_digit (b ! p)\<close> big by (subst parse_digits_loop.simps) auto
      qed
    next
      case small: False
      have "okw (parse_digits_loop b (p + 1) ?v al) (\<lambda>r. case r of None \<Rightarrow> \<not> al
          | Some (x, q) \<Rightarrow> 0 \<le> x \<and> x \<le> int INT32_MAX \<and> p + 1 \<le> q \<and> q \<le> e \<and> (is_digit (b ! (p + 1)) \<longrightarrow> p + 1 < q))"
        using n 1 r small True by (intro "1.IH"(2)) auto
      then show ?thesis
        using r True small
        by (subst parse_digits_loop.simps) (auto simp: Let_def elim!: okw_mono split: option.splits prod.splits)
    qed
  qed
qed

lemma parse_digits_ok:
  assumes "zpat b e" and "p \<le> e"
  shows "okw (parse_digits b p al) (\<lambda>(x, q). - 1 \<le> x \<and> x \<le> int INT32_MAX \<and> p \<le> q \<and> q \<le> e \<and>
    (al \<longrightarrow> 0 \<le> x) \<and> (is_digit (b ! p) \<and> 0 \<le> x \<longrightarrow> p < q))"
  unfolding parse_digits_def okw_bind
  by (rule okw_mono [OF parse_digits_loop_ok [OF assms, of 0 al]]) (use assms in \<open>auto split: option.splits\<close>)

section \<open>Escapes\<close>

lemma from_hex_nz: "0 \<le> from_hex (uint (d :: u8)) \<Longrightarrow> d \<noteq> 0"
  by (auto simp: from_hex_def)

lemma shift_less:
  fixes c w :: u32
  assumes c: "c < 2 ^ m" and w: "w < 2 ^ k" and "m + k < 32"
  shows "push_bit k c OR w < 2 ^ (m + k)"
proof -
  let ?v = "push_bit k c OR w"
  have "take_bit (m + k) ?v = ?v"
  proof (rule bit_word_eqI)
    fix n
    have "n < m + k" if v: "bit ?v n"
    proof (cases "n < k")
      case False
      then have "bit c (n - k)" using v less_exp_bit [OF w, of n] by (simp only: bit_or_iff bit_push_bit_iff) blast
      then have "n - k < m" by (rule less_exp_bit [OF c])
      then show ?thesis using False by simp
    qed simp
    then show "bit (take_bit (m + k) ?v) n = bit ?v n" by (auto simp only: bit_take_bit_iff)
  qed
  then show ?thesis using assms(3) by (intro take_bit_self_less) auto
qed

lemma shift4_less:
  fixes c :: u32
  assumes "c < 2 ^ m" and "m + 4 < 32" and "0 \<le> h" and "h < 16"
  shows "push_bit 4 c OR word_of_int h < 2 ^ (m + 4)"
proof (rule shift_less [OF assms(1) _ assms(2)])
  show "(word_of_int h :: u32) < 2 ^ 4"
    using assms(3,4) by (simp add: word_less_def take_bit_int_eq_self uint_word_of_int)
qed

lemma hex_digits_ok:
  "zpat b e \<Longrightarrow> p \<le> e \<Longrightarrow> c < 2 ^ m \<Longrightarrow> m + 4 * n < 32 \<Longrightarrow>
   okw (hex_digits b p n c) (\<lambda>r. case r of None \<Rightarrow> True | Some c' \<Rightarrow> p + n \<le> e \<and> c' < 2 ^ (m + n * 4))"
proof (induction n arbitrary: p c m)
  case (Suc n)
  let ?h = "from_hex (uint (b ! p))"
  show ?case
  proof (cases "?h < 0")
    case True
    then show ?thesis using Suc.prems by (simp add: zpat_rd)
  next
    case False
    then have n: "Suc p \<le> e" using Suc.prems zpat_next from_hex_nz by (metis not_le)
    have "push_bit 4 c OR word_of_int ?h < 2 ^ (m + 4)"
      using Suc.prems False from_hex_range [of "uint (b ! p)"] by (intro shift4_less) auto
    from Suc.IH [OF Suc.prems(1) n this] Suc.prems False show ?thesis
      by (simp add: zpat_rd Let_def algebra_simps) (auto elim!: okw_mono split: option.splits)
  qed
qed auto

lemma brace_digits_ok:
  "zpat b e \<Longrightarrow> p \<le> e \<Longrightarrow>
   okw (brace_digits b p c) (\<lambda>r. case r of None \<Rightarrow> True | Some (c', q) \<Rightarrow> p < q \<and> q < e \<and> c' \<le> 0x10FFFF)"
proof (induction b p c rule: brace_digits.induct)
  case (1 b p c)
  let ?h = "from_hex (uint (b ! p))"
  let ?c = "push_bit 4 c OR word_of_int ?h"
  have r: "rd b p = Some (b ! p)" using 1 zpat_rd by blast
  show ?case
  proof (cases "?h < 0 \<or> ?c > 0x10FFFF")
    case True
    then show ?thesis using r by (subst brace_digits.simps) (auto simp: Let_def)
  next
    case False
    then have n: "Suc p \<le> e" using 1 zpat_next from_hex_nz by (metis not_le)
    have r1: "rd b (Suc p) = Some (b ! Suc p)" using n 1 zpat_rd by blast
    show ?thesis
    proof (cases "b ! Suc p = 0x7d")
      case True
      then have "Suc (Suc p) \<le> e" using zpat_next [OF "1.prems"(1) n] by simp
      then show ?thesis using False r r1 True by (subst brace_digits.simps) (auto simp: Let_def)
    next
      case ne: False
      have "okw (brace_digits b (p + 1) ?c) (\<lambda>r. case r of None \<Rightarrow> True | Some (c', q) \<Rightarrow> p + 1 < q \<and> q < e \<and> c' \<le> 0x10FFFF)"
        using False n ne "1.prems" r r1 by (intro "1.IH") auto
      then show ?thesis
        using False r r1 ne
        by (subst brace_digits.simps) (auto simp: Let_def elim!: okw_mono split: option.splits prod.splits)
    qed
  qed
qed

lemma and_less:
  fixes c :: u32
  shows "c AND 0x3ff < 2 ^ 10"
proof -
  have "c AND 0x3ff = take_bit 10 c" by (simp add: take_bit_eq_mask mask_eq_exp_minus_1)
  then show ?thesis by (simp add: take_bit_self_less del: power_numeral)
qed

lemma surrogate_less: "(push_bit 10 (c AND 0x3ff) OR (d AND 0x3ff)) + 0x10000 < (0x4000000 :: u32)"
proof -
  have "push_bit 10 (c AND 0x3ff) OR (d AND 0x3ff) < (2 ^ (10 + 10) :: u32)"
    by (rule shift_less [OF and_less and_less]) simp
  then have "unat (push_bit 10 (c AND 0x3ff) OR (d AND 0x3ff)) < 1048576"
    by (simp add: word_less_nat_alt)
  then show ?thesis by (simp add: word_less_nat_alt unat_word_ariths)
qed

lemma parse_hex_escape_ok:
  assumes z: "zpat b e" and p: "p \<le> e"
  shows "okw (parse_hex_escape b p c al) (\<lambda>r. case r of None \<Rightarrow> True
    | Some (c', q) \<Rightarrow> p \<le> q \<and> q \<le> e \<and> c' < 0x4000000)"
proof (cases "b ! p = 0x7b \<and> al \<noteq> 0")
  case True
  then have n: "Suc p \<le> e" using zpat_next [OF z p] by simp
  show ?thesis
    using True z p brace_digits_ok [OF z n, of 0]
    by (auto simp: parse_hex_escape_def zpat_rd okw_bind elim!: okw_mono split: option.splits)
      (auto simp: word_le_nat_alt word_less_nat_alt)
next
  case False
  define n :: nat where "n = (if c = 0x78 then 2 else 4)"
  have "okw (hex_digits b p n 0) (\<lambda>r. case r of None \<Rightarrow> True | Some c' \<Rightarrow> p + n \<le> e \<and> c' < 2 ^ (0 + n * 4))"
    by (rule hex_digits_ok [OF z p]) (auto simp: n_def)
  then obtain r where r0: "hex_digits b p n 0 = Some r"
      "case r of None \<Rightarrow> True | Some c' \<Rightarrow> p + n \<le> e \<and> c' < 2 ^ (0 + n * 4)"
    by (auto dest!: okw_ex)
  have n16: "(2 ^ (0 + n * 4) :: u32) \<le> 0x10000" by (simp add: n_def)
  have r: "p + n \<le> e \<and> c' < 0x10000" if "r = Some c'" for c'
    using r0(2) n16 that by auto
  have e0: "parse_hex_escape b p c al = do {
       r \<leftarrow> Some r;
       (case r of None \<Rightarrow> Some None
        | Some c \<Rightarrow> do {
            let p = p + n;
            pair \<leftarrow> (if c \<ge> 0xd800 \<and> c < 0xdc00 \<and> al = 2 then do {
                       e \<leftarrow> rd b p;
                       if e = 0x5c then do { f \<leftarrow> rd b (p + 1); Some (f = 0x75) } else Some False
                     } else Some False);
            if pair then do {
              r1 \<leftarrow> hex_digits b (p + 2) 4 0;
              Some (case r1 of
                  Some c1 \<Rightarrow>
                    if c1 \<ge> 0xdc00 \<and> c1 < 0xe000
                    then Some ((push_bit 10 (c AND 0x3ff) OR (c1 AND 0x3ff)) + 0x10000, p + 6)
                    else Some (c, p)
                | None \<Rightarrow> Some (c, p))
            }
            else Some (Some (c, p))
          }) }"
    using False by (simp only: parse_hex_escape_def zpat_rd [OF z p] Option.bind.bind_lunit n_def [symmetric] r0(1) if_False Let_def)
  have bound: "c' < 0x4000000" if "c' < (0x10000 :: u32)" for c'
    using that by (simp add: word_less_nat_alt)
  show ?thesis
  proof (cases r)
    case None
    then show ?thesis unfolding e0 by simp
  next
    case (Some c')
    let ?q = "p + n"
    have q: "?q \<le> e" "c' < 0x10000" using r Some by auto
    have q1: "Suc ?q \<le> e" if "b ! ?q = 0x5c" using zpat_next [OF z q(1)] that by simp
    have q2: "?q + 2 \<le> e" if "b ! ?q = 0x5c" "b ! Suc ?q = 0x75"
      using zpat_next [OF z q1] that by simp
    have h: "\<exists>r1. hex_digits b (?q + 2) 4 0 = Some r1 \<and> (r1 \<noteq> None \<longrightarrow> ?q + 6 \<le> e)"
      if "b ! ?q = 0x5c" "b ! Suc ?q = 0x75"
      using okw_ex [OF hex_digits_ok [OF z q2 [OF that], of 0 0 4]] by fastforce
    show ?thesis
    proof (cases "(c' \<ge> 0xd800 \<and> c' < 0xdc00 \<and> al = 2) \<and> b ! ?q = 0x5c \<and> b ! Suc ?q = 0x75")
      case True
      then obtain r1 where r1: "hex_digits b (?q + 2) 4 0 = Some r1" "r1 \<noteq> None \<longrightarrow> ?q + 6 \<le> e"
        using h by blast
      show ?thesis
        unfolding e0 Some using True q1 q r1 bound [OF q(2)] surrogate_less
        by (simp add: zpat_rd [OF z] Let_def del: push_bit_and split: option.split)
    next
      case no: False
      show ?thesis
        unfolding e0 Some using no q1 q bound [OF q(2)] by (auto simp: zpat_rd [OF z] Let_def)
    qed
  qed
qed

lemma unat_ucast_up: "unat (ucast (x :: u8) :: u32) = unat x"
proof -
  have "unat x < 2 ^ 8" using unsigned_less [where 'a = nat, of x] by simp
  then show ?thesis by (simp add: unsigned_ucast_eq take_bit_nat_eq_self)
qed

lemma octal_digit_ok: "octal_digit d = Some v \<Longrightarrow> v < 2 ^ 3 \<and> d \<noteq> 0"
  by (auto simp: octal_digit_def Let_def word_le_nat_alt word_less_nat_alt split: if_splits)

lemma parse_octal_escape_ok:
  assumes z: "zpat b e" and p: "p \<le> e" and c: "c < 2 ^ 3"
  shows "okw (parse_octal_escape b p c al) (\<lambda>r. case r of None \<Rightarrow> True
    | Some (c', q) \<Rightarrow> p \<le> q \<and> q \<le> e \<and> c' < 0x4000000)"
proof -
  have s: "x < 2 ^ 3 \<Longrightarrow> x < 0x4000000" "x < 2 ^ 6 \<Longrightarrow> x < 0x4000000" "x < 2 ^ 9 \<Longrightarrow> x < 0x4000000"
    for x :: u32 by (simp_all add: word_less_nat_alt)
  have s2: "x < 2 ^ m \<Longrightarrow> octal_digit d = Some v \<Longrightarrow> m + 3 < 32 \<Longrightarrow> push_bit 3 x OR v < 2 ^ (m + 3)" for x m d v
    using shift_less octal_digit_ok by blast
  show ?thesis
  proof (cases "al = 2")
    case True
    then show ?thesis using z p c s(1) by (simp add: parse_octal_escape_def zpat_rd)
  next
    case al: False
    show ?thesis
    proof (cases "octal_digit (b ! p)")
      case None
      then show ?thesis using al z p c s(1) by (simp add: parse_octal_escape_def zpat_rd)
    next
      case (Some v)
      let ?c = "push_bit 3 c OR v"
      have c1: "?c < 2 ^ (3 + 3)" using s2 [OF c Some] by simp
      have n: "Suc p \<le> e" using zpat_next [OF z p] octal_digit_ok [OF Some] by simp
      show ?thesis
      proof (cases "?c \<ge> 32")
        case True
        then show ?thesis using al z p n Some s(2) c1
          by (simp add: parse_octal_escape_def zpat_rd Let_def)
      next
        case small: False
        show ?thesis
        proof (cases "octal_digit (b ! Suc p)")
          case None
          then show ?thesis using al z p n Some s(2) c1 small
            by (simp add: parse_octal_escape_def zpat_rd Let_def)
        next
          case (Some w)
          have "Suc (Suc p) \<le> e" using zpat_next [OF z n] octal_digit_ok [OF Some] by simp
          moreover have "push_bit 3 ?c OR w < 2 ^ (6 + 3)" using s2 [OF _ Some, of ?c 6] c1 by simp
          ultimately show ?thesis
            using al z p n Some s(3) small \<open>octal_digit (b ! p) = Some v\<close>
            by (simp add: parse_octal_escape_def zpat_rd Let_def)
        qed
      qed
    qed
  qed
qed

lemma lre_parse_escape_ok:
  assumes z: "zpat b e" and p: "p \<le> e"
  shows "okw (lre_parse_escape b p al) (\<lambda>(c, q). (c = - 1 \<or> c = - 2) \<and> q = p \<or>
    0 \<le> c \<and> c < 0x4000000 \<and> p < q \<and> q \<le> e)"
proof (cases "b ! p = 0")
  case True
  then show ?thesis using z p by (simp add: lre_parse_escape_def zpat_rd Let_def)
next
  case False
  have n: "Suc p \<le> e" by (rule zpat_next [OF z p False])
  have d: "ucast (b ! p) - 0x30 < (2 ^ 3 :: u32)" if "0x30 \<le> b ! p" "b ! p \<le> 0x37"
  proof -
    have u: "unat (ucast (b ! p) :: u32) = unat (b ! p)"
      by (rule unat_ucast_up)
    then have "(0x30 :: u32) \<le> ucast (b ! p)" using that by (simp add: word_le_nat_alt)
    then have "unat (ucast (b ! p) - (0x30 :: u32)) = unat (b ! p) - 0x30" using u by (simp add: unat_sub)
    then show ?thesis using that by (simp add: word_less_nat_alt word_le_nat_alt)
  qed
  have u: "0 \<le> uint c \<and> uint c < 0x4000000" if "c < (0x4000000 :: u32)" for c
    using that by (simp add: word_less_def)
  have post: "okw (do { r \<leftarrow> m; Some (case r of None \<Rightarrow> (- 1 :: int, p) | Some (c, q) \<Rightarrow> (uint (c :: u32), q)) })
      (\<lambda>(c, q). (c = - 1 \<or> c = - 2) \<and> q = p \<or> 0 \<le> c \<and> c < 0x4000000 \<and> p < q \<and> q \<le> e)"
    if "okw m (\<lambda>r. case r of None \<Rightarrow> True | Some (c', q) \<Rightarrow> Suc p \<le> q \<and> q \<le> e \<and> c' < 0x4000000)" for m
    using that u unfolding okw_bind by (auto elim!: okw_mono split: option.splits)
  note h = post [OF parse_hex_escape_ok [OF z n]]
  note o = post [OF parse_octal_escape_ok [OF z n d]]
  show ?thesis
    unfolding lre_parse_escape_def zpat_rd [OF z p] Option.bind.bind_lunit Let_def
    using n h [of "b ! p" al] o [of al] by simp
qed

section \<open>Characters and names\<close>

lemma utf8_tail_loop_ok:
  "zpat b e \<Longrightarrow> p \<le> e \<Longrightarrow>
   okw (utf8_tail_loop b p i c) (\<lambda>r. case r of None \<Rightarrow> True | Some (v, q) \<Rightarrow> q = p + i \<and> q \<le> e)"
proof (induction i arbitrary: p c)
  case (Suc i)
  show ?case
  proof (cases "b ! p < 0x80 \<or> b ! p \<ge> 0xc0")
    case True
    then show ?thesis using Suc.prems by (auto simp: zpat_rd)
  next
    case False
    then have "b ! p \<noteq> 0" by auto
    then have "Suc p \<le> e" by (rule zpat_next [OF Suc.prems])
    then have n: "p + 1 \<le> e" by simp
    have "okw (utf8_tail_loop b (p + 1) i c') (\<lambda>r. case r of None \<Rightarrow> True | Some (v, q) \<Rightarrow> q = p + Suc i \<and> q \<le> e)" for c'
      by (rule okw_mono [OF Suc.IH [OF Suc.prems(1) n]]) (auto split: option.splits)
    then show ?thesis using Suc.prems False by (simp only: utf8_tail_loop.simps zpat_rd) simp
  qed
qed simp

lemma sint_small: "unat (v::u32) < 0x4000000 \<Longrightarrow> 0 \<le> sint v \<and> sint v < 0x4000000"
proof -
  assume a: "unat v < 0x4000000"
  have "uint v = int (unat v)" by simp
  then have u: "0 \<le> uint v" "uint v < 0x4000000" using a by linarith+
  then have "signed_take_bit 31 (uint v) = uint v" using order_trans [of "- 2147483648" 0 "uint v"] by (intro signed_take_bit_int_eq_self) auto
  then have "sint v = uint v" by (simp add: sint_uint del: signed_take_bit_int_eq_self)
  then show ?thesis using u by simp
qed

lemma unicode_from_utf8_ok:
  assumes z: "zpat b e" and p: "p \<le> e" and b: "b ! p \<ge> 0x80"
  shows "okw (unicode_from_utf8 b p 6) (\<lambda>(c, q). c = - 1 \<and> q = p \<or> 0 \<le> c \<and> c < 0x4000000 \<and> p < q \<and> q \<le> e)"
proof (cases "utf8_lead_len (b ! p)")
  case None
  then show ?thesis using z p leD [OF b] by (simp add: unicode_from_utf8_def zpat_rd)
next
  case (Some l)
  have "b ! p \<noteq> 0" using b by auto
  then have n: "Suc p \<le> e" by (rule zpat_next [OF z p])
  have l: "l \<le> 4"
  proof (rule ccontr)
    assume "\<not> l \<le> 4"
    then have "0xfc \<le> b ! p" using Some by (auto simp: utf8_lead_len_def split: if_splits)
    then show False using zpat_lead [OF z p] by auto
  qed
  obtain L m where sh: "utf8_shape l L m" using utf8_lead_shape [OF Some] by blast
  define c where "c = ucast (b ! p) AND utf8_first_code_mask (l - 1)"
  have c: "c < 2 ^ m"
  proof -
    have "c = take_bit m (ucast (b ! p))"
      using utf8_shape_facts(1) [OF sh] by (simp add: take_bit_eq_mask c_def)
    then show ?thesis using utf8_shape_facts(5) [OF sh] by (simp add: take_bit_self_less)
  qed
  have lm: "6 * l + m \<le> 26" using sh l by (auto simp: utf8_shape_def)
  obtain r where r: "utf8_tail_loop b (p + 1) l c = Some r"
      "case r of None \<Rightarrow> True | Some (v, q) \<Rightarrow> q = Suc p + l \<and> q \<le> e"
    using okw_ex [OF utf8_tail_loop_ok [OF z n, of l c]] by auto
  have v: "0 \<le> sint v \<and> sint v < 0x4000000" if "r = Some (v, q)" for v q
  proof -
    have "v < 2 ^ (6 * l + m)" using utf8_tail_loop_dec [of b "p + 1" l c v q m] r(1) that c lm by simp
    then have "unat v < 2 ^ (6 * l + m)" using lm less_exp_unat [of "6 * l + m" v] by simp
    also have "\<dots> \<le> 2 ^ 26" using lm by (intro power_increasing) auto
    finally show ?thesis by (intro sint_small) simp
  qed
  have "unicode_from_utf8 b p 6 = Some (case r of None \<Rightarrow> (- 1, p)
      | Some (v, q) \<Rightarrow> if v < utf8_min_code (l - 1) then (- 1, p) else (sint v, q))"
    using leD [OF b] l
    by (simp add: unicode_from_utf8_def zpat_rd [OF z p] Some r(1) flip: c_def split: option.split del: One_nat_def)
  then show ?thesis using r(2) v by (auto split: option.splits)
qed

lemma prop_name_ok:
  "zpat b e \<Longrightarrow> p \<le> e \<Longrightarrow>
   okw (prop_name b p name) (\<lambda>r. case r of Inl _ \<Rightarrow> True | Inr (nm, q) \<Rightarrow> p \<le> q \<and> q \<le> e)"
proof (induction b p name rule: prop_name.induct)
  case (1 b p name)
  have r: "rd b p = Some (b ! p)" using 1 zpat_rd by blast
  show ?case
  proof (cases "is_unicode_char (b ! p) \<and> length name < 63")
    case False
    then show ?thesis using r 1 by (subst prop_name.simps) auto
  next
    case True
    then have "b ! p \<noteq> 0" by (auto simp: is_unicode_char_def)
    then have n: "p + 1 \<le> e" using 1 zpat_next by fastforce
    have "okw (prop_name b (p + 1) (name @ [b ! p])) (\<lambda>r. case r of Inl _ \<Rightarrow> True | Inr (nm, q) \<Rightarrow> p + 1 \<le> q \<and> q \<le> e)"
      using True n "1.prems" r by (intro "1.IH") auto
    then show ?thesis
      using True r by (subst prop_name.simps) (auto elim!: okw_mono split: sum.splits)
  qed
qed

lemma skip_class_ok:
  "zpat b e \<Longrightarrow> okw (skip_class b e p) (\<lambda>q. p \<le> q)"
proof (induction b e p rule: skip_class.induct)
  case (1 b e p)
  show ?case
  proof (cases "p < e")
    case False
    then show ?thesis by (subst skip_class.simps) simp
  next
    case True
    then have r: "rd b p = Some (b ! p)" using zpat_rd [OF "1.prems"] by simp
    have "okw (skip_class b e (p + 2)) (\<lambda>q. p + 2 \<le> q)" if "b ! p = 0x5c"
      using True r that "1.prems" by (intro "1.IH"(1)) auto
    moreover have "okw (skip_class b e (p + 1)) (\<lambda>q. p + 1 \<le> q)" if "b ! p \<noteq> 0x5c" "b ! p \<noteq> 0x5d"
      using True r that "1.prems" by (intro "1.IH"(2)) auto
    ultimately show ?thesis
      using True r by (subst skip_class.simps) (auto elim!: okw_mono)
  qed
qed

section \<open>Group names\<close>

lemma utf8_bytes_nz:
  assumes "\<not> w < 128"
  shows "0 \<notin> set (unicode_to_utf8 w)"
proof -
  have "bit (0x80 :: u32) 7" "bit (0xc0 :: u32) 7" "bit (0xe0 :: u32) 7" "bit (0xf0 :: u32) 7"
    "bit (0xf8 :: u32) 7" "bit (0xfc :: u32) 7" by (simp_all add: bit_simps)
  then have "\<forall>x \<in> set (unicode_to_utf8 w). bit x 7"
    using assms by (auto simp: unicode_to_utf8_def utf8_tail_def bit_ucast_iff bit_or_iff)
  then show ?thesis by (metis bit_0_eq bot_apply bot_bool_def)
qed

lemma utf8_length: "length (unicode_to_utf8 w) \<le> 6"
  by (simp add: unicode_to_utf8_def)

lemma ucast_nz: "w < 128 \<Longrightarrow> w \<noteq> 0 \<Longrightarrow> ucast (w :: u32) \<noteq> (0 :: u8)"
proof
  assume a: "w < 128" "w \<noteq> 0" and "ucast w = (0 :: u8)"
  then have "unat (ucast w :: u8) = 0" by simp
  moreover have "unat (ucast w :: u8) = unat w"
    using a(1) by (simp add: unsigned_ucast_eq take_bit_nat_eq_self word_less_nat_alt)
  ultimately show False using a(2) by (simp add: unat_eq_0)
qed

lemma ident_nz:
  "lre_js_is_ident_first U w \<Longrightarrow> w \<noteq> 0" "lre_js_is_ident_next U w \<Longrightarrow> w \<noteq> 0"
  by (auto simp: lre_js_is_ident_first_def lre_js_is_ident_next_def lre_id_start_table_ascii_def
      lre_id_continue_table_ascii_def)

lemma group_name_loop_ok:
  "zpat b e \<Longrightarrow> p \<le> e \<Longrightarrow> e - p < fuel \<Longrightarrow> 0 \<notin> set name \<Longrightarrow> length name < bs \<Longrightarrow>
   okw (group_name_loop fuel U b p bs utf16 name) (\<lambda>(r, q, nm). 0 \<notin> set nm \<and> length nm < bs \<and>
     (r = 0 \<and> p < q \<and> q \<le> e \<or> r = - 1))"
proof (induction fuel arbitrary: p name)
  case (Suc fuel)
  have r: "rd b p = Some (b ! p)" using Suc.prems zpat_rd by blast
  show ?case
  proof (cases "b ! p = 0x3e")
    case True
    then have "Suc p \<le> e" using Suc.prems zpat_next by simp
    then show ?thesis using True r Suc.prems by simp
  next
    case False
    let ?m = "(if b ! p = 0x5c then do {
             d \<leftarrow> rd b (p + 1);
             if d \<noteq> 0x75 then Some (- 1, p + 1) else lre_parse_escape b (p + 1) (if utf16 then 2 else 0)
           }
         else if b ! p \<ge> 128 then unicode_from_utf8 b p UTF8_CHAR_LEN_MAX
         else Some (uint (b ! p), p + 1))"
    have m: "okw ?m (\<lambda>(c, q). 0 < c \<longrightarrow> p < q \<and> q \<le> e)"
    proof (cases "b ! p = 0")
      case True
      then show ?thesis by simp
    next
      case nz: False
      then have n: "Suc p \<le> e" using Suc.prems zpat_next by blast
      have "okw (lre_parse_escape b (Suc p) al) (\<lambda>(c, q). 0 < c \<longrightarrow> p < q \<and> q \<le> e)" for al
        by (rule okw_mono [OF lre_parse_escape_ok [OF Suc.prems(1) n]]) auto
      moreover have "okw (unicode_from_utf8 b p 6) (\<lambda>(c, q). 0 < c \<longrightarrow> p < q \<and> q \<le> e)" if "128 \<le> b ! p"
        by (rule okw_mono [OF unicode_from_utf8_ok [OF Suc.prems(1,2) that]]) auto
      ultimately show ?thesis using n by (simp add: zpat_rd [OF Suc.prems(1) n])
    qed
    then obtain c q where c: "?m = Some (c, q)" "0 < c \<Longrightarrow> p < q \<and> q \<le> e" by (auto dest!: okw_ex)
    let ?w = "word_of_int c :: u32"
    let ?name = "name @ (if ?w < 128 then [ucast ?w] else unicode_to_utf8 ?w)"
    let ?bad = "c < 0 \<or> c > 0x10FFFF \<or>
      \<not> (if name = [] then lre_js_is_ident_first U ?w else lre_js_is_ident_next U ?w) \<or> length name + 6 + 1 > bs"
    have e0: "group_name_loop (Suc fuel) U b p bs utf16 name =
      (if ?bad then Some (- 1, p, name) else group_name_loop fuel U b q bs utf16 ?name)"
      using False r c(1) by (simp add: Let_def)
    show ?thesis
    proof (cases ?bad)
      case True
      then show ?thesis unfolding e0 using Suc.prems by simp
    next
      case ok: False
      then have w: "?w \<noteq> 0" using ident_nz by metis
      then have "c \<noteq> 0" by auto
      then have q: "p < q" "q \<le> e" using c(2) ok by auto
      have "0 \<notin> set ?name" using w Suc.prems(4) utf8_bytes_nz [of ?w] ucast_nz [of ?w] by auto
      moreover have "length ?name < bs" using ok utf8_length [of ?w] by auto
      moreover have "e - q < fuel" using q Suc.prems(3) by simp
      ultimately have "okw (group_name_loop fuel U b q bs utf16 ?name) (\<lambda>(r, q', nm). 0 \<notin> set nm \<and> length nm < bs \<and>
          (r = 0 \<and> q < q' \<and> q' \<le> e \<or> r = - 1))"
        by (intro Suc.IH [OF Suc.prems(1) q(2)])
      then show ?thesis unfolding e0 if_not_P [OF ok] by (rule okw_mono) (use q in auto)
    qed
  qed
qed simp

lemma re_parse_group_name_ok:
  assumes "zpat b e" and "p \<le> e" and "e - p < fuel" and "0 < bs"
  shows "okw (re_parse_group_name fuel U b p bs utf16) (\<lambda>(r, q, nm). 0 \<notin> set nm \<and> length nm < bs \<and>
     (r = 0 \<and> p < q \<and> q \<le> e \<or> r = - 1 \<and> q = p))"
  unfolding re_parse_group_name_def okw_bind
  by (rule okw_mono [OF group_name_loop_ok [OF assms(1-3), of "[]" bs]]) (use assms(4) in auto)

end
