(* ===== verification/Re_Compile.thy ===== *)
theory Re_Compile
  imports Re_Class
begin

text \<open>
  The compiler of \<^verbatim>\<open>libregexp.c\<close>: terms, quantifiers, alternatives, disjunctions and
  \<open>lre_compile\<close> itself. The functions that recurse through \<open>re_parse_disjunction\<close> take
  it as an argument; the recursion and the loops over the pattern are bounded by the
  length of the pattern. A write outside the bytecode block is \<open>None\<close>.
\<close>

section \<open>Patching the bytecode\<close>

definition patch_u32 :: "re_state \<Rightarrow> nat \<Rightarrow> u32 \<Rightarrow> re_state option" where
  "patch_u32 s pos v = do {
     b \<leftarrow> put_u32 (buf (byte_code s)) pos v;
     Some (s\<lparr>byte_code := (byte_code s)\<lparr>buf := b\<rparr>\<rparr>)
   }"

definition patch_u8 :: "re_state \<Rightarrow> nat \<Rightarrow> u8 \<Rightarrow> re_state option" where
  "patch_u8 s pos v = do {
     b \<leftarrow> mem_write (buf (byte_code s)) pos [v];
     Some (s\<lparr>byte_code := (byte_code s)\<lparr>buf := b\<rparr>\<rparr>)
   }"

definition insert_code :: "re_state \<Rightarrow> nat \<Rightarrow> nat \<Rightarrow> (int \<times> re_state) option" where
  "insert_code s pos len = do {
     (r, b) \<leftarrow> dbuf_insert (byte_code s) pos len;
     Some (r, s\<lparr>byte_code := b\<rparr>)
   }"

definition copy_code :: "re_state \<Rightarrow> nat \<Rightarrow> nat \<Rightarrow> re_state option" where
  "copy_code s pos len = do {
     (r, b) \<leftarrow> dbuf_put_self (byte_code s) pos len;
     Some (s\<lparr>byte_code := b\<rparr>)
   }"

abbreviation code_size :: "re_state \<Rightarrow> nat" where
  "code_size s \<equiv> dsize (byte_code s)"

definition code_slice :: "re_state \<Rightarrow> nat \<Rightarrow> u8 list option" where
  "code_slice s start =
     (if start \<le> code_size s then mem_read (buf (byte_code s)) start (code_size s - start) else None)"

definition lfuel :: "re_state \<Rightarrow> nat" where
  "lfuel s = Suc (length (pat s))"

section \<open>Analyses of an atom's code\<close>

text \<open>\<open>re_check_advance\<close>: 1 if the code always advances, 0 if it may not, -1 if it may
  depend on a capture of its own. \<open>ret\<close> is -2 while unknown.\<close>

function check_advance_loop ::
  "u8 list \<Rightarrow> nat \<Rightarrow> int \<Rightarrow> u8 list \<Rightarrow> bool \<Rightarrow> (int \<times> u8 list \<times> bool) option" where
  "check_advance_loop bc pos ret bitmap has_back =
     (if pos < length bc then do {
        op \<leftarrow> (reop_of (bc ! pos));
        len \<leftarrow> reop_len bc pos op;
        (if op \<in> {REOP_range, REOP_range32, REOP_char, REOP_char32, REOP_dot, REOP_any} then
           check_advance_loop bc (pos + len) (if ret = - 2 then 1 else ret) bitmap has_back
         else if op \<in> {REOP_line_start, REOP_line_end, REOP_push_i32, REOP_push_char_pos,
             REOP_drop, REOP_word_boundary, REOP_not_word_boundary, REOP_prev} then
           check_advance_loop bc (pos + len) ret bitmap has_back
         else if op \<in> {REOP_save_start, REOP_save_end} then do {
           val \<leftarrow> rd bc (pos + 1);
           old \<leftarrow> rd bitmap (unat val);
           check_advance_loop bc (pos + len) ret (bitmap[unat val := old OR 1]) has_back
         }
         else if op = REOP_save_reset then do {
           val \<leftarrow> rd bc (pos + 1);
           last \<leftarrow> rd bc (pos + 2);
           if val < last \<and> unat last > length bitmap then None
           else check_advance_loop bc (pos + len) ret
             (map (\<lambda>i. if unat val \<le> i \<and> i < unat last then bitmap ! i OR 1 else bitmap ! i)
                [0..<length bitmap]) has_back
         }
         else if op \<in> {REOP_back_reference, REOP_backward_back_reference} then do {
           val \<leftarrow> rd bc (pos + 1);
           old \<leftarrow> rd bitmap (unat val);
           check_advance_loop bc (pos + len) ret (bitmap[unat val := old OR 2]) True
         }
         else check_advance_loop bc (pos + len) (if ret = - 2 then 0 else ret) bitmap has_back)
      }
      else Some (ret, bitmap, has_back))"
  by pat_completeness auto
termination
  by (relation "measure (\<lambda>(bc, pos, r, b, h). length bc - pos)") (auto dest!: reop_len_pos)

declare check_advance_loop.simps [simp del]

definition re_check_advance :: "u8 list \<Rightarrow> int option" where
  "re_check_advance bc = do {
     (ret, bitmap, has_back) \<leftarrow> check_advance_loop bc 0 (- 2) (replicate CAPTURE_COUNT_MAX 0) False;
     Some (if has_back \<and> 3 \<in> set bitmap then - 1 else if ret = - 2 then 0 else ret)
   }"

text \<open>\<open>re_is_simple_quantifier\<close>: the number of characters of a simple atom, or -1.\<close>

function simple_quantifier_loop :: "u8 list \<Rightarrow> nat \<Rightarrow> int \<Rightarrow> int option" where
  "simple_quantifier_loop bc pos count =
     (if pos < length bc then do {
        op \<leftarrow> reop_of (bc ! pos);
        len \<leftarrow> reop_len bc pos op;
        (if op \<in> {REOP_range, REOP_range32, REOP_char, REOP_char32, REOP_dot, REOP_any} then
           simple_quantifier_loop bc (pos + len) (count + 1)
         else if op \<in> {REOP_line_start, REOP_line_end, REOP_word_boundary, REOP_not_word_boundary} then
           simple_quantifier_loop bc (pos + len) count
         else Some (- 1))
      }
      else Some count)"
  by pat_completeness auto
termination
  by (relation "measure (\<lambda>(bc, pos, c). length bc - pos)") (auto dest!: reop_len_pos)

declare simple_quantifier_loop.simps [simp del]

definition re_is_simple_quantifier :: "u8 list \<Rightarrow> int option" where
  "re_is_simple_quantifier bc = simple_quantifier_loop bc 0 0"

section \<open>Terms\<close>

text \<open>What the \<open>switch\<close> of \<open>re_parse_term\<close> leaves behind: the C return value if it
  returns, the position, \<open>last_atom_start\<close> (-1: none), \<open>last_capture_count\<close>.\<close>

type_synonym atom_res = "int \<times> nat \<times> int \<times> nat \<times> re_state"

definition atom_error :: "re_state \<Rightarrow> string \<Rightarrow> atom_res option" where
  "atom_error s msg = do { (r, s) \<leftarrow> re_parse_error s msg; Some (r, 0, - 1, 0, s) }"

definition emit_prev_if :: "bool \<Rightarrow> re_state \<Rightarrow> re_state option" where
  "emit_prev_if back s = (if back then re_emit_op s REOP_prev else Some s)"

text \<open>The labels \<open>normal_char\<close> and \<open>parse_class_atom\<close>.\<close>

definition term_normal_char :: "re_state \<Rightarrow> bool \<Rightarrow> nat \<Rightarrow> int \<Rightarrow> char_range option \<Rightarrow> atom_res option" where
  "term_normal_char s back p c cr = do {
     let last_atom_start = code_size s;
     let last_capture_count = capture_count s;
     s \<leftarrow> emit_prev_if back s;
     (r, s) \<leftarrow> (if c \<ge> CLASS_RANGE_BASE then do { cr \<leftarrow> cr; re_emit_range s cr }
               else let c = (if ignore_case s
                             then lre_canonicalize (unicode s) (word_of_int c) (is_utf16 s)
                             else word_of_int c)
                    in if c \<le> 0xffff then do { s \<leftarrow> re_emit_op_u16 s REOP_char (ucast c); Some (0, s) }
                       else do { (_, s) \<leftarrow> re_emit_op_u32 s REOP_char32 c; Some (0, s) });
     if r \<noteq> 0 then Some (- 1, p, - 1, 0, s)
     else do {
       s \<leftarrow> emit_prev_if back s;
       Some (0, p, int last_atom_start, last_capture_count, s)
     }
   }"

definition term_class_atom :: "re_state \<Rightarrow> bool \<Rightarrow> nat \<Rightarrow> atom_res option" where
  "term_class_atom s back p = do {
     (c, p, cr, s) \<leftarrow> get_class_atom s None p False;
     if c < 0 then Some (- 1, p, - 1, 0, s) else term_normal_char s back p c cr
   }"

text \<open>Does the text behind \<open>{\<close> look like a repetition count up to the brace?\<close>

definition like_repetition :: "u8 list \<Rightarrow> nat \<Rightarrow> bool option" where
  "like_repetition b p = do {
     (_, p1) \<leftarrow> parse_digits b (p + 1) True;
     c \<leftarrow> rd b p1;
     p1 \<leftarrow> (if c = 0x2c then do {
              d \<leftarrow> rd b (p1 + 1);
              if is_digit d then do { (_, q) \<leftarrow> parse_digits b (p1 + 1) True; Some q }
              else Some (p1 + 1)
            } else Some p1);
     e \<leftarrow> rd b p1;
     Some (e = 0x7d)
   }"

definition term_open_brace :: "re_state \<Rightarrow> bool \<Rightarrow> nat \<Rightarrow> atom_res option" where
  "term_open_brace s back p =
     (if is_utf16 s then atom_error s ''syntax error''
      else do {
        d \<leftarrow> rd (pat s) (p + 1);
        if \<not> is_digit d then term_class_atom s back p
        else do {
          rep \<leftarrow> like_repetition (pat s) p;
          if rep then atom_error s ''nothing to repeat'' else term_class_atom s back p
        }
      })"

text \<open>Groups. \<open>dj\<close> stands for \<open>re_parse_disjunction\<close>.\<close>

type_synonym disj_fun = "re_state \<Rightarrow> bool \<Rightarrow> (int \<times> re_state) option"

definition term_lookahead ::
  "disj_fun \<Rightarrow> re_state \<Rightarrow> nat \<Rightarrow> bool \<Rightarrow> bool \<Rightarrow> atom_res option" where
  "term_lookahead dj s p is_neg is_backward_lookahead = do {
     let quantifiable = (\<not> is_utf16 s \<and> \<not> is_backward_lookahead);
     let last_atom_start = (if quantifiable then int (code_size s) else - 1);
     let last_capture_count = (if quantifiable then capture_count s else 0);
     (pos, s) \<leftarrow> re_emit_op_u32 s (if is_neg then REOP_negative_lookahead else REOP_lookahead) 0;
     (r, s) \<leftarrow> dj (s\<lparr>buf_ptr := p\<rparr>) is_backward_lookahead;
     if r \<noteq> 0 then Some (- 1, p, - 1, 0, s)
     else do {
       (r, p, s) \<leftarrow> re_parse_expect s (buf_ptr s) (CHR 0x29);
       if r \<noteq> 0 then Some (- 1, p, - 1, 0, s)
       else do {
         s \<leftarrow> re_emit_op s REOP_match;
         if derror (byte_code s) then Some (- 1, p, - 1, 0, s)
         else do {
           s \<leftarrow> patch_u32 s pos (of_nat (code_size s) - of_nat (pos + 4));
           Some (0, p, last_atom_start, last_capture_count, s)
         }
       }
     }
   }"

text \<open>The label \<open>parse_capture\<close>.\<close>

definition term_capture :: "disj_fun \<Rightarrow> re_state \<Rightarrow> bool \<Rightarrow> nat \<Rightarrow> atom_res option" where
  "term_capture dj s back p =
     (if capture_count s \<ge> CAPTURE_COUNT_MAX then atom_error s ''too many captures''
      else do {
        let last_atom_start = int (code_size s);
        let last_capture_count = capture_count s;
        let capture_index = capture_count s;
        let s = s\<lparr>capture_count := capture_count s + 1\<rparr>;
        s \<leftarrow> re_emit_op_u8 s (if back then REOP_save_end else REOP_save_start) (of_nat capture_index);
        (r, s) \<leftarrow> dj (s\<lparr>buf_ptr := p\<rparr>) back;
        if r \<noteq> 0 then Some (- 1, p, - 1, 0, s)
        else do {
          let p = buf_ptr s;
          s \<leftarrow> re_emit_op_u8 s (if back then REOP_save_start else REOP_save_end) (of_nat capture_index);
          (r, p, s) \<leftarrow> re_parse_expect s p (CHR 0x29);
          if r \<noteq> 0 then Some (- 1, p, - 1, 0, s)
          else Some (0, p, last_atom_start, last_capture_count, s)
        }
      })"

definition term_named_group :: "disj_fun \<Rightarrow> re_state \<Rightarrow> bool \<Rightarrow> nat \<Rightarrow> atom_res option" where
  "term_named_group dj s back p = do {
     (r, p, name) \<leftarrow> re_parse_group_name (lfuel s) (unicode s) (pat s) p TMP_BUF_SIZE (is_utf16 s);
     u \<leftarrow> mem_write (u_buf s) 0 (if r = 0 then name @ [0] else name);
     let s = s\<lparr>u_buf := u\<rparr>;
     if r \<noteq> 0 then atom_error s ''invalid group name''
     else do {
       i \<leftarrow> find_group_name s name;
       if i > 0 then atom_error s ''duplicate group name''
       else do {
         (_, g) \<leftarrow> dbuf_put (group_names s) (name @ [0]);
         term_capture dj (s\<lparr>group_names := g, has_named_captures := 1\<rparr>) back p
       }
     }
   }"

definition term_group :: "disj_fun \<Rightarrow> re_state \<Rightarrow> bool \<Rightarrow> nat \<Rightarrow> atom_res option" where
  "term_group dj s back p = do {
     c1 \<leftarrow> rd (pat s) (p + 1);
     if c1 = 0x3f then do {
       c2 \<leftarrow> rd (pat s) (p + 2);
       if c2 = 0x3a then do {
         let last_atom_start = int (code_size s);
         let last_capture_count = capture_count s;
         (r, s) \<leftarrow> dj (s\<lparr>buf_ptr := p + 3\<rparr>) back;
         if r \<noteq> 0 then Some (- 1, p, - 1, 0, s)
         else do {
           (r, p, s) \<leftarrow> re_parse_expect s (buf_ptr s) (CHR 0x29);
           if r \<noteq> 0 then Some (- 1, p, - 1, 0, s)
           else Some (0, p, last_atom_start, last_capture_count, s)
         }
       }
       else if c2 = 0x3d \<or> c2 = 0x21 then term_lookahead dj s (p + 3) (c2 = 0x21) False
       else if c2 = 0x3c then do {
         c3 \<leftarrow> rd (pat s) (p + 3);
         if c3 = 0x3d \<or> c3 = 0x21 then term_lookahead dj s (p + 4) (c3 = 0x21) True
         else term_named_group dj s back (p + 3)
       }
       else atom_error s ''invalid group''
     }
     else do {
       (_, g) \<leftarrow> dbuf_put (group_names s) [0];
       term_capture dj (s\<lparr>group_names := g\<rparr>) back (p + 1)
     }
   }"

text \<open>Escapes outside classes; \<open>emit_back_reference\<close>.\<close>

definition term_back_reference :: "re_state \<Rightarrow> bool \<Rightarrow> nat \<Rightarrow> int \<Rightarrow> atom_res option" where
  "term_back_reference s back p c = do {
     let last_atom_start = int (code_size s);
     let last_capture_count = capture_count s;
     s \<leftarrow> re_emit_op_u8 s (if back then REOP_backward_back_reference else REOP_back_reference)
            (word_of_int c);
     Some (0, p, last_atom_start, last_capture_count, s)
   }"

text \<open>\<open>\k\<close>: whether a failure is an error (\<open>err\<close>) or the text is taken literally.\<close>

definition term_k_fail :: "re_state \<Rightarrow> bool \<Rightarrow> nat \<Rightarrow> string \<Rightarrow> atom_res option" where
  "term_k_fail s back p msg = do {
     (strict, s) \<leftarrow> (if is_utf16 s then Some (True, s) else re_has_named_captures (lfuel s) s);
     if strict then atom_error s msg else term_class_atom s back p
   }"

definition term_named_reference :: "re_state \<Rightarrow> bool \<Rightarrow> nat \<Rightarrow> atom_res option" where
  "term_named_reference s back p = do {
     c2 \<leftarrow> rd (pat s) (p + 2);
     if c2 \<noteq> 0x3c then term_k_fail s back p ''expecting group name''
     else do {
       (r, p1, name) \<leftarrow> re_parse_group_name (lfuel s) (unicode s) (pat s) (p + 3) TMP_BUF_SIZE (is_utf16 s);
       u \<leftarrow> mem_write (u_buf s) 0 (if r = 0 then name @ [0] else name);
       let s = s\<lparr>u_buf := u\<rparr>;
       if r \<noteq> 0 then term_k_fail s back p ''invalid group name''
       else do {
         c \<leftarrow> find_group_name s name;
         if c \<ge> 0 then term_back_reference s back p1 c
         else do {
           (c, _) \<leftarrow> re_parse_captures (lfuel s) s (Some name);
           if c < 0 then term_k_fail s back p ''group name not defined''
           else term_back_reference s back p1 c
         }
       }
     }
   }"

text \<open>One more octal digit of a legacy octal escape.\<close>

definition more_octal :: "u8 list \<Rightarrow> int \<Rightarrow> nat \<Rightarrow> (int \<times> nat \<times> bool) option" where
  "more_octal b c p = do {
     d \<leftarrow> rd b p;
     Some (if 0x30 \<le> d \<and> d \<le> 0x37 then (c * 8 + (uint d - 0x30), p + 1, True) else (c, p, False))
   }"

definition term_escape_zero :: "re_state \<Rightarrow> bool \<Rightarrow> nat \<Rightarrow> atom_res option" where
  "term_escape_zero s back p0 = do {
     let p = p0 + 2;
     if is_utf16 s then do {
       d \<leftarrow> rd (pat s) p;
       if is_digit d then atom_error s ''invalid decimal escape in regular expression''
       else term_normal_char s back p 0 None
     }
     else do {
       (c, p, more) \<leftarrow> more_octal (pat s) 0 p;
       (c, p, _) \<leftarrow> (if more then more_octal (pat s) c p else Some (c, p, False));
       term_normal_char s back p c None
     }
   }"

definition legacy_octal :: "u8 list \<Rightarrow> nat \<Rightarrow> (int \<times> nat) option" where
  "legacy_octal b p = do {
     d \<leftarrow> rd b p;
     if d \<le> 0x37 then do {
       (c, p) \<leftarrow> Some (if d \<le> 0x33 then (uint d - 0x30, p + 1) else (0, p));
       (c, p, more) \<leftarrow> more_octal b c p;
       (c, p, _) \<leftarrow> (if more then more_octal b c p else Some (c, p, False));
       Some (c, p)
     }
     else Some (uint d, p + 1)
   }"

definition term_decimal_escape :: "re_state \<Rightarrow> bool \<Rightarrow> nat \<Rightarrow> atom_res option" where
  "term_decimal_escape s back p0 = do {
     let q = p0 + 1;
     (c, p) \<leftarrow> parse_digits (pat s) q False;
     (bad, s) \<leftarrow> (if c < 0 then Some (True, s)
                  else if c \<ge> int (capture_count s) then do {
                    (n, s) \<leftarrow> re_count_captures (lfuel s) s;
                    Some (c \<ge> n, s)
                  }
                  else Some (False, s));
     if \<not> bad then term_back_reference s back p c
     else if is_utf16 s then atom_error s ''back reference out of range in regular expression''
     else do {
       (c, p) \<leftarrow> legacy_octal (pat s) q;
       term_normal_char s back p c None
     }
   }"

definition term_escape :: "re_state \<Rightarrow> bool \<Rightarrow> nat \<Rightarrow> atom_res option" where
  "term_escape s back p = do {
     c1 \<leftarrow> rd (pat s) (p + 1);
     if c1 = 0x62 \<or> c1 = 0x42 then do {
       s \<leftarrow> re_emit_op s (if c1 \<noteq> 0x62 then REOP_not_word_boundary else REOP_word_boundary);
       Some (0, p + 2, - 1, 0, s)
     }
     else if c1 = 0x6b then term_named_reference s back p
     else if c1 = 0x30 then term_escape_zero s back p
     else if 0x31 \<le> c1 \<and> c1 \<le> 0x39 then term_decimal_escape s back p
     else term_class_atom s back p
   }"

text \<open>The \<open>switch\<close> of \<open>re_parse_term\<close>.\<close>

definition re_parse_atom :: "disj_fun \<Rightarrow> re_state \<Rightarrow> bool \<Rightarrow> atom_res option" where
  "re_parse_atom dj s back = do {
     let p = buf_ptr s;
     c \<leftarrow> rd (pat s) p;
     if c = 0x5e then do { s \<leftarrow> re_emit_op s REOP_line_start; Some (0, p + 1, - 1, 0, s) }
     else if c = 0x24 then do { s \<leftarrow> re_emit_op s REOP_line_end; Some (0, p + 1, - 1, 0, s) }
     else if c = 0x2e then do {
       let last_atom_start = int (code_size s);
       let last_capture_count = capture_count s;
       s \<leftarrow> emit_prev_if back s;
       s \<leftarrow> re_emit_op s (if dotall s then REOP_any else REOP_dot);
       s \<leftarrow> emit_prev_if back s;
       Some (0, p + 1, last_atom_start, last_capture_count, s)
     }
     else if c = 0x7b then term_open_brace s back p
     else if c = 0x2a \<or> c = 0x2b \<or> c = 0x3f then atom_error s ''nothing to repeat''
     else if c = 0x28 then term_group dj s back p
     else if c = 0x5c then term_escape s back p
     else if c = 0x5b then do {
       let last_atom_start = int (code_size s);
       let last_capture_count = capture_count s;
       s \<leftarrow> emit_prev_if back s;
       (r, p, s) \<leftarrow> re_parse_char_class (lfuel s) s p;
       if r \<noteq> 0 then Some (- 1, p, - 1, 0, s)
       else do {
         s \<leftarrow> emit_prev_if back s;
         Some (0, p, last_atom_start, last_capture_count, s)
       }
     }
     else if (c = 0x5d \<or> c = 0x7d) \<and> is_utf16 s then atom_error s ''syntax error''
     else term_class_atom s back p
   }"

section \<open>Quantifiers\<close>

datatype quant = NoQuant | QuantError re_state | Quant nat nat nat re_state

text \<open>The quantifier token at \<open>p\<close>: \<open>Quant quant_min quant_max p s\<close>.\<close>

definition brace_quantifier :: "re_state \<Rightarrow> nat \<Rightarrow> quant option" where
  "brace_quantifier s p0 = do {
     let bad = (\<lambda>s. do { (_, s) \<leftarrow> re_parse_error s ''invalid repetition count''; Some (QuantError s) });
     d \<leftarrow> rd (pat s) (p0 + 1);
     if \<not> is_digit d then (if is_utf16 s then bad s else Some NoQuant)
     else do {
       (quant_min, p) \<leftarrow> parse_digits (pat s) (p0 + 1) True;
       c \<leftarrow> rd (pat s) p;
       r \<leftarrow> (if c = 0x2c then do {
              d \<leftarrow> rd (pat s) (p + 1);
              if is_digit d then do {
                (quant_max, p) \<leftarrow> parse_digits (pat s) (p + 1) True;
                Some (if quant_max < quant_min then None else Some (nat quant_max, p))
              }
              else Some (Some (INT32_MAX, p + 1))
            }
            else Some (Some (nat quant_min, p)));
       (case r of
          None \<Rightarrow> bad s
        | Some (quant_max, p) \<Rightarrow> do {
            e \<leftarrow> rd (pat s) p;
            if e \<noteq> 0x7d \<and> \<not> is_utf16 s then Some NoQuant
            else do {
              (r, p, s) \<leftarrow> re_parse_expect s p (CHR 0x7d);
              if r \<noteq> 0 then Some (QuantError s) else Some (Quant (nat quant_min) quant_max p s)
            }
          })
     }
   }"

definition parse_quantifier :: "re_state \<Rightarrow> nat \<Rightarrow> quant option" where
  "parse_quantifier s p = do {
     c \<leftarrow> rd (pat s) p;
     if c = 0x2a then Some (Quant 0 INT32_MAX (p + 1) s)
     else if c = 0x2b then Some (Quant 1 INT32_MAX (p + 1) s)
     else if c = 0x3f then Some (Quant 0 1 (p + 1) s)
     else if c = 0x7b then brace_quantifier s p
     else Some NoQuant
   }"

text \<open>The optimisation for simple greedy atoms: a loop instruction of 17 bytes in front of
  the atom, whose code ends with \<open>match\<close>.\<close>

definition emit_simple_greedy ::
  "re_state \<Rightarrow> nat \<Rightarrow> nat \<Rightarrow> nat \<Rightarrow> int \<Rightarrow> (int \<times> re_state) option" where
  "emit_simple_greedy s start quant_min quant_max len = do {
     s \<leftarrow> re_emit_op s REOP_match;
     (r, s) \<leftarrow> insert_code s start 17;
     if r \<noteq> 0 then re_parse_out_of_memory s
     else do {
       s \<leftarrow> patch_u8 s start (reop_code REOP_simple_greedy_quant);
       s \<leftarrow> patch_u32 s (start + 1) (of_nat (code_size s - start - 17));
       s \<leftarrow> patch_u32 s (start + 5) (of_nat quant_min);
       s \<leftarrow> patch_u32 s (start + 9) (of_nat quant_max);
       s \<leftarrow> patch_u32 s (start + 13) (word_of_int len);
       Some (0, s)
     }
   }"

definition split_op :: "bool \<Rightarrow> reop" where
  "split_op greedy = (if greedy then REOP_split_next_first else REOP_split_goto_first)"

text \<open>\<open>quant_min = 0\<close>: \<open>len\<close> is the length of the atom at \<open>start\<close>, \<open>adv\<close> the flag
  \<open>add_zero_advance_check\<close>.\<close>

definition emit_quant_min0 ::
  "re_state \<Rightarrow> nat \<Rightarrow> nat \<Rightarrow> nat \<Rightarrow> bool \<Rightarrow> bool \<Rightarrow> nat \<Rightarrow> (int \<times> re_state) option" where
  "emit_quant_min0 s start len quant_max greedy adv last_capture_count = do {
     (r, start, s) \<leftarrow> (if last_capture_count \<noteq> capture_count s then do {
           (r, s) \<leftarrow> insert_code s start 3;
           if r \<noteq> 0 then Some (- 1, start, s)
           else do {
             s \<leftarrow> patch_u8 s start (reop_code REOP_save_reset);
             s \<leftarrow> patch_u8 s (start + 1) (of_nat last_capture_count);
             s \<leftarrow> patch_u8 s (start + 2) (of_nat (capture_count s - 1));
             Some (0 :: int, start + 3, s)
           }
         } else Some (0, start, s));
     if r \<noteq> 0 then re_parse_out_of_memory s
     else if quant_max = 0 then
       Some (0, s\<lparr>byte_code := (byte_code s)\<lparr>dsize := start\<rparr>\<rparr>)
     else if quant_max = 1 then do {
       (r, s) \<leftarrow> insert_code s start 5;
       if r \<noteq> 0 then re_parse_out_of_memory s
       else do {
         s \<leftarrow> patch_u8 s start (reop_code (split_op greedy));
         s \<leftarrow> patch_u32 s (start + 1) (of_nat len);
         Some (0, s)
       }
     }
     else if quant_max = INT32_MAX then do {
       (r, s) \<leftarrow> insert_code s start (5 + of_bool adv);
       if r \<noteq> 0 then re_parse_out_of_memory s
       else do {
         s \<leftarrow> patch_u8 s start (reop_code (split_op greedy));
         s \<leftarrow> patch_u32 s (start + 1) (of_nat (len + 5 + of_bool adv));
         if adv then do {
           s \<leftarrow> patch_u8 s (start + 1 + 4) (reop_code REOP_push_char_pos);
           (_, s) \<leftarrow> re_emit_goto s REOP_bne_char_pos start;
           Some (0, s)
         }
         else do { (_, s) \<leftarrow> re_emit_goto s REOP_goto start; Some (0, s) }
       }
     }
     else do {
       (r, s) \<leftarrow> insert_code s start 10;
       if r \<noteq> 0 then re_parse_out_of_memory s
       else do {
         s \<leftarrow> patch_u8 s start (reop_code REOP_push_i32);
         s \<leftarrow> patch_u32 s (start + 1) (of_nat quant_max);
         s \<leftarrow> patch_u8 s (start + 5) (reop_code (split_op greedy));
         s \<leftarrow> patch_u32 s (start + 6) (of_nat (len + 5));
         (_, s) \<leftarrow> re_emit_goto s REOP_loop (start + 5);
         s \<leftarrow> re_emit_op s REOP_drop;
         Some (0, s)
       }
     }
   }"

text \<open>\<open>quant_min > 0\<close>, but not the case \<open>{1,}\<close> without the check.\<close>

definition emit_quant_min1 ::
  "re_state \<Rightarrow> nat \<Rightarrow> nat \<Rightarrow> nat \<Rightarrow> nat \<Rightarrow> bool \<Rightarrow> bool \<Rightarrow> (int \<times> re_state) option" where
  "emit_quant_min1 s start len quant_min quant_max greedy adv = do {
     (r, start, s) \<leftarrow> (if quant_min = 1 then Some (0, start, s)
         else do {
           (r, s) \<leftarrow> insert_code s start 5;
           if r \<noteq> 0 then Some (- 1 :: int, start, s)
           else do {
             s \<leftarrow> patch_u8 s start (reop_code REOP_push_i32);
             s \<leftarrow> patch_u32 s (start + 1) (of_nat quant_min);
             let start = start + 5;
             (_, s) \<leftarrow> re_emit_goto s REOP_loop start;
             s \<leftarrow> re_emit_op s REOP_drop;
             Some (0, start, s)
           }
         });
     if r \<noteq> 0 then re_parse_out_of_memory s
     else if quant_max = INT32_MAX then do {
       let pos = code_size s;
       (_, s) \<leftarrow> re_emit_op_u32 s (split_op greedy) (of_nat (len + 5 + of_bool adv));
       s \<leftarrow> (if adv then re_emit_op s REOP_push_char_pos else Some s);
       s \<leftarrow> copy_code s start len;
       (_, s) \<leftarrow> re_emit_goto s (if adv then REOP_bne_char_pos else REOP_goto) pos;
       Some (0, s)
     }
     else if quant_max > quant_min then do {
       (_, s) \<leftarrow> re_emit_op_u32 s REOP_push_i32 (of_nat (quant_max - quant_min));
       let pos = code_size s;
       (_, s) \<leftarrow> re_emit_op_u32 s (split_op greedy) (of_nat (len + 5));
       s \<leftarrow> copy_code s start len;
       (_, s) \<leftarrow> re_emit_goto s REOP_loop pos;
       s \<leftarrow> re_emit_op s REOP_drop;
       Some (0, s)
     }
     else Some (0, s)
   }"

text \<open>The label \<open>quantifier\<close>, behind the token and an optional \<open>?\<close>.\<close>

definition emit_quantifier ::
  "re_state \<Rightarrow> nat \<Rightarrow> nat \<Rightarrow> nat \<Rightarrow> bool \<Rightarrow> nat \<Rightarrow> (int \<times> re_state) option" where
  "emit_quantifier s start quant_min quant_max greedy last_capture_count = do {
     if greedy \<and> derror (byte_code s) then re_parse_out_of_memory s
     else do {
       slice \<leftarrow> (if greedy then code_slice s start else Some []);
       simple \<leftarrow> (if greedy \<and> quant_max > 0 then re_is_simple_quantifier slice else Some (- 1));
       if simple > 0 then emit_simple_greedy s start quant_min quant_max simple
       else do {
         adv \<leftarrow> (if greedy then do { a \<leftarrow> re_check_advance slice; Some (a = 0) } else Some False);
         let len = code_size s - start;
         if quant_min = 0 then emit_quant_min0 s start len quant_max greedy adv last_capture_count
         else if quant_min = 1 \<and> quant_max = INT32_MAX \<and> \<not> adv then do {
           (_, s) \<leftarrow> re_emit_goto s (if greedy then REOP_split_goto_first else REOP_split_next_first) start;
           Some (0, s)
         }
         else emit_quant_min1 s start len quant_min quant_max greedy adv
       }
     }
   }"

definition re_parse_term :: "disj_fun \<Rightarrow> re_state \<Rightarrow> bool \<Rightarrow> (int \<times> re_state) option" where
  "re_parse_term dj s back = do {
     (r, p, last_atom_start, last_capture_count, s) \<leftarrow> re_parse_atom dj s back;
     if r \<noteq> 0 then Some (- 1, s)
     else if last_atom_start \<ge> 0 then do {
       q \<leftarrow> parse_quantifier s p;
       (case q of
          NoQuant \<Rightarrow> Some (0, s\<lparr>buf_ptr := p\<rparr>)
        | QuantError s \<Rightarrow> Some (- 1, s)
        | Quant quant_min quant_max p s \<Rightarrow> do {
            c \<leftarrow> rd (pat s) p;
            let greedy = (c \<noteq> 0x3f);
            let p = (if greedy then p else p + 1);
            (r, s) \<leftarrow> emit_quantifier s (nat last_atom_start) quant_min quant_max greedy last_capture_count;
            if r \<noteq> 0 then Some (- 1, s) else Some (0, s\<lparr>buf_ptr := p\<rparr>)
          })
     }
     else Some (0, s\<lparr>buf_ptr := p\<rparr>)
   }"

section \<open>Alternatives and disjunctions\<close>

text \<open>The reversal for lookbehind: the code from \<open>term_start\<close> on is moved to \<open>start\<close>.\<close>

definition rotate_term :: "re_state \<Rightarrow> nat \<Rightarrow> nat \<Rightarrow> (int \<times> re_state) option" where
  "rotate_term s start term_start = do {
     let end_pos = code_size s;
     let term_size = end_pos - term_start;
     (r, b) \<leftarrow> dbuf_realloc (byte_code s) (end_pos + term_size);
     let s = s\<lparr>byte_code := b\<rparr>;
     if r \<noteq> 0 then Some (- 1, s)
     else do {
       d \<leftarrow> mem_read (buf b) start (end_pos - start);
       m \<leftarrow> mem_write (buf b) (start + term_size) d;
       t \<leftarrow> mem_read m end_pos term_size;
       m \<leftarrow> mem_write m start t;
       Some (0, s\<lparr>byte_code := b\<lparr>buf := m\<rparr>\<rparr>)
     }
   }"

fun alternative_loop :: "nat \<Rightarrow> disj_fun \<Rightarrow> re_state \<Rightarrow> bool \<Rightarrow> nat \<Rightarrow> (int \<times> re_state) option" where
  "alternative_loop 0 dj s back start = None"
| "alternative_loop (Suc fuel) dj s back start =
     (if buf_ptr s \<ge> buf_end s then Some (0, s)
      else do {
        c \<leftarrow> rd (pat s) (buf_ptr s);
        if c = 0x7c \<or> c = 0x29 then Some (0, s)
        else do {
          let term_start = code_size s;
          (r, s) \<leftarrow> re_parse_term dj s back;
          if r \<noteq> 0 then Some (r, s)
          else if back then do {
            (r, s) \<leftarrow> rotate_term s start term_start;
            if r \<noteq> 0 then Some (- 1, s) else alternative_loop fuel dj s back start
          }
          else alternative_loop fuel dj s back start
        }
      })"

definition re_parse_alternative :: "disj_fun \<Rightarrow> re_state \<Rightarrow> bool \<Rightarrow> (int \<times> re_state) option" where
  "re_parse_alternative dj s back = alternative_loop (lfuel s) dj s back (code_size s)"

fun disjunction_loop :: "nat \<Rightarrow> disj_fun \<Rightarrow> re_state \<Rightarrow> bool \<Rightarrow> nat \<Rightarrow> (int \<times> re_state) option" where
  "disjunction_loop 0 dj s back start = None"
| "disjunction_loop (Suc fuel) dj s back start = do {
     c \<leftarrow> rd (pat s) (buf_ptr s);
     if c \<noteq> 0x7c then Some (0, s)
     else do {
       let s = s\<lparr>buf_ptr := buf_ptr s + 1\<rparr>;
       let len = code_size s - start;
       (r, s) \<leftarrow> insert_code s start 5;
       if r \<noteq> 0 then re_parse_out_of_memory s
       else do {
         s \<leftarrow> patch_u8 s start (reop_code REOP_split_next_first);
         s \<leftarrow> patch_u32 s (start + 1) (of_nat (len + 5));
         (pos, s) \<leftarrow> re_emit_op_u32 s REOP_goto 0;
         (r, s) \<leftarrow> re_parse_alternative dj s back;
         if r \<noteq> 0 then Some (- 1, s)
         else do {
           s \<leftarrow> patch_u32 s pos (of_nat (code_size s) - of_nat (pos + 4));
           disjunction_loop fuel dj s back start
         }
       }
     }
   }"

text \<open>\<open>depth\<close> is the nesting of active calls, which the check of the C stack depends on;
  the fuel bounds it.\<close>

fun re_parse_disjunction :: "nat \<Rightarrow> nat \<Rightarrow> re_state \<Rightarrow> bool \<Rightarrow> (int \<times> re_state) option" where
  "re_parse_disjunction 0 depth s back = None"
| "re_parse_disjunction (Suc fuel) depth s back =
     (if stack_overflow s depth then re_parse_error s ''stack overflow''
      else do {
        let start = code_size s;
        let dj = re_parse_disjunction fuel (Suc depth);
        (r, s) \<leftarrow> re_parse_alternative dj s back;
        if r \<noteq> 0 then Some (- 1, s)
        else disjunction_loop (lfuel s) dj s back start
      })"

section \<open>The whole compiler\<close>

function stack_size_loop :: "u8 list \<Rightarrow> nat \<Rightarrow> nat \<Rightarrow> nat \<Rightarrow> int option" where
  "stack_size_loop bc pos stack_size stack_size_max =
     (if pos < length bc then do {
        op \<leftarrow> reop_of (bc ! pos);
        if pos + reop_size op > length bc then None
        else do {
          len \<leftarrow> reop_len bc pos op;
          (if op \<in> {REOP_push_i32, REOP_push_char_pos} then
             (if stack_size + 1 > stack_size_max then
                (if stack_size + 1 > STACK_SIZE_MAX then Some (- 1)
                 else stack_size_loop bc (pos + len) (stack_size + 1) (stack_size + 1))
              else stack_size_loop bc (pos + len) (stack_size + 1) stack_size_max)
           else if op \<in> {REOP_drop, REOP_bne_char_pos} then
             (if stack_size = 0 then None
              else stack_size_loop bc (pos + len) (stack_size - 1) stack_size_max)
           else stack_size_loop bc (pos + len) stack_size stack_size_max)
        }
      }
      else Some (int stack_size_max))"
  by pat_completeness auto
termination
  by (relation "measure (\<lambda>(bc, pos, n, m). length bc - pos)") (auto dest!: reop_len_pos)

declare stack_size_loop.simps [simp del]

definition compute_stack_size :: "u8 list \<Rightarrow> int option" where
  "compute_stack_size bc = stack_size_loop (drop RE_HEADER_LEN bc) 0 0 0"

text \<open>The environment a compilation runs in: the two allocators, the check of the C stack
  and the Unicode tables.\<close>

record re_env =
  env_ra :: "u8 realloc"
  env_cr_ra :: "u32 realloc"
  env_stack_overflow :: "nat \<Rightarrow> bool"
  env_unicode :: unicode_db

definition re_init_state :: "re_env \<Rightarrow> u8 list \<Rightarrow> nat \<Rightarrow> u8 \<Rightarrow> re_state" where
  "re_init_state E b buf_len flags =
     \<lparr>byte_code = dbuf_init2 0 (Some (env_ra E)), buf_ptr = 0, buf_end = buf_len, pat = b,
      re_flags = flags, is_utf16 = (flags AND LRE_FLAG_UTF16 \<noteq> 0),
      ignore_case = (flags AND LRE_FLAG_IGNORECASE \<noteq> 0),
      dotall = (flags AND LRE_FLAG_DOTALL \<noteq> 0), capture_count = 1, total_capture_count = - 1,
      has_named_captures = - 1, group_names = dbuf_init2 0 (Some (env_ra E)),
      u_buf = replicate TMP_BUF_SIZE 0, stack_overflow = env_stack_overflow E,
      cr_mem = env_cr_ra E, unicode = env_unicode E\<rparr>"

text \<open>Header, the loop over all start positions unless sticky, and \<open>save_start 0\<close>.\<close>

definition re_emit_prologue :: "re_state \<Rightarrow> re_state option" where
  "re_emit_prologue s = do {
     s \<leftarrow> emit s [re_flags s];
     s \<leftarrow> emit s [0];
     s \<leftarrow> emit s [0];
     s \<leftarrow> emit s (u32_bytes 0);
     s \<leftarrow> (if re_flags s AND LRE_FLAG_STICKY = 0 then do {
            (_, s) \<leftarrow> re_emit_op_u32 s REOP_split_goto_first (1 + 5);
            s \<leftarrow> re_emit_op s REOP_any;
            (_, s) \<leftarrow> re_emit_op_u32 s REOP_goto (- (5 + 1 + 5));
            Some s
          } else Some s);
     re_emit_op_u8 s REOP_save_start 0
   }"

text \<open>The end of \<open>lre_compile\<close>: header fields and group names. \<open>Inl\<close> is the state at
  the label \<open>error\<close>.\<close>

definition re_finish :: "re_state \<Rightarrow> (re_state + u8 list) option" where
  "re_finish s = do {
     s \<leftarrow> re_emit_op_u8 s REOP_save_end 0;
     s \<leftarrow> re_emit_op s REOP_match;
     c \<leftarrow> rd (pat s) (buf_ptr s);
     if c \<noteq> 0 then do { (_, s) \<leftarrow> re_parse_error s ''extraneous characters at the end''; Some (Inl s) }
     else if derror (byte_code s) then do { (_, s) \<leftarrow> re_parse_out_of_memory s; Some (Inl s) }
     else do {
       stack_size \<leftarrow> compute_stack_size (contents (byte_code s));
       if stack_size < 0 then do {
         (_, s) \<leftarrow> re_parse_error s ''too many imbricated quantifiers'';
         Some (Inl s)
       }
       else do {
         s \<leftarrow> patch_u8 s 1 (of_nat (capture_count s));
         s \<leftarrow> patch_u8 s 2 (word_of_int stack_size);
         s \<leftarrow> patch_u32 s 3 (of_nat (code_size s - RE_HEADER_LEN));
         s \<leftarrow> (if dsize (group_names s) > capture_count s - 1 then do {
                s \<leftarrow> emit s (contents (group_names s));
                f \<leftarrow> rd (buf (byte_code s)) 0;
                patch_u8 s 0 (f OR LRE_FLAG_NAMED_GROUPS)
              } else Some s);
         Some (Inr (contents (byte_code s)))
       }
     }
   }"

text \<open>\<open>lre_compile\<close>: the caller's buffer for the message after the call, and the bytecode
  (\<open>None\<close> for the C result NULL).\<close>

definition lre_compile ::
  "re_env \<Rightarrow> u8 list \<Rightarrow> int \<Rightarrow> u8 list \<Rightarrow> nat \<Rightarrow> u8 \<Rightarrow> (u8 list \<times> u8 list option) option" where
  "lre_compile E error_msg error_msg_size b buf_len flags = do {
     let s = re_init_state E b buf_len flags;
     s \<leftarrow> re_emit_prologue s;
     (r, s) \<leftarrow> re_parse_disjunction (lfuel s) 0 s False;
     fin \<leftarrow> (if r \<noteq> 0 then Some (Inl s) else re_finish s);
     (case fin of
        Inl s \<Rightarrow> do {
          msg \<leftarrow> pstrcpy error_msg error_msg_size (u_buf s);
          Some (msg, None)
        }
      | Inr code \<Rightarrow> do {
          msg \<leftarrow> mem_write error_msg 0 [0];
          Some (msg, Some code)
        })
   }"

end
