(* ===== verification/Re_Code.thy ===== *)
theory Re_Code
  imports Re_Opcode
begin

text \<open>
  The shape of the bytecode the regular-expression compiler produces, as a grammar of code
  fragments. Jumps are relative and stay inside the fragment that contains them, so a
  fragment may be moved, copied and put behind another one. The grammar is the contract
  between the compiler (\<^verbatim>\<open>re_parse_disjunction\<close> emits a fragment) and the interpreter
  (\<^verbatim>\<open>lre_exec_backtrack\<close> runs one).
\<close>

definition ins :: "reop \<Rightarrow> u8 list \<Rightarrow> u8 list" where
  "ins op x = reop_code op # x"

definition rel :: "int \<Rightarrow> u8 list" where
  "rel k = u32_bytes (word_of_int k)"

lemma length_ins [simp]: "length (ins op x) = Suc (length x)"
  by (simp add: ins_def)

lemma length_rel [simp]: "length (rel k) = 4"
  by (simp add: rel_def)

text \<open>Instructions that consume one character, and assertions.\<close>

inductive char_ins :: "u8 list \<Rightarrow> bool" where
  "op \<in> {REOP_dot, REOP_any} \<Longrightarrow> char_ins (ins op [])"
| "length x = 2 \<Longrightarrow> char_ins (ins REOP_char x)"
| "length x = 4 \<Longrightarrow> char_ins (ins REOP_char32 x)"
| "0 < n \<Longrightarrow> n < 65536 \<Longrightarrow> length x = 4 * n \<Longrightarrow>
     char_ins (ins REOP_range (u16_bytes (of_nat n) @ x))"
| "0 < n \<Longrightarrow> n < 65536 \<Longrightarrow> length x = 8 * n \<Longrightarrow>
     char_ins (ins REOP_range32 (u16_bytes (of_nat n) @ x))"

inductive assert_ins :: "u8 list \<Rightarrow> bool" where
  "op \<in> {REOP_line_start, REOP_line_end, REOP_word_boundary, REOP_not_word_boundary} \<Longrightarrow>
     assert_ins (ins op [])"

text \<open>Code that consumes \<open>k\<close> characters, one after the other, or fails.\<close>

inductive simple :: "nat \<Rightarrow> u8 list \<Rightarrow> bool" where
  simple_Nil: "simple 0 []"
| simple_char: "char_ins i \<Longrightarrow> simple k a \<Longrightarrow> simple (Suc k) (i @ a)"
| simple_assert: "assert_ins i \<Longrightarrow> simple k a \<Longrightarrow> simple k (i @ a)"

lemma char_ins_length: "char_ins i \<Longrightarrow> 0 < length i"
  by (cases i rule: char_ins.cases) auto

lemma simple_length: "simple k a \<Longrightarrow> k \<le> length a"
proof (induction rule: simple.induct)
  case (simple_char i k a)
  then show ?case using char_ins_length [of i] by (cases i) auto
qed auto

definition is_split :: "reop \<Rightarrow> bool" where
  "is_split op \<longleftrightarrow> op = REOP_split_goto_first \<or> op = REOP_split_next_first"

text \<open>\<open>frag cc n a\<close>: a fragment that saves captures below \<open>cc\<close> only and needs \<open>n\<close> stack
  entries more than it finds.\<close>

inductive frag :: "nat \<Rightarrow> nat \<Rightarrow> u8 list \<Rightarrow> bool" for cc where
  frag_Nil: "frag cc 0 []"
| frag_app: "frag cc n a \<Longrightarrow> frag cc m b \<Longrightarrow> frag cc (max n m) (a @ b)"
| frag_char: "char_ins i \<Longrightarrow> frag cc 0 i"
| frag_assert: "assert_ins i \<Longrightarrow> frag cc 0 i"
| frag_prev: "frag cc 0 (ins REOP_prev [])"
| frag_save: "op \<in> {REOP_save_start, REOP_save_end} \<Longrightarrow> unat i < cc \<Longrightarrow> frag cc 0 (ins op [i])"
| frag_save_reset: "unat j < cc \<Longrightarrow> frag cc 0 (ins REOP_save_reset [i, j])"
| frag_back_ref: "op \<in> {REOP_back_reference, REOP_backward_back_reference} \<Longrightarrow> unat i < 255 \<Longrightarrow>
    frag cc 0 (ins op [i])"
| frag_alt: "frag cc n a \<Longrightarrow> frag cc m b \<Longrightarrow> is_split op \<Longrightarrow>
    frag cc (max n m) (ins op (rel (int (length a) + 5)) @ a @ ins REOP_goto (rel (int (length b))) @ b)"
| frag_opt: "frag cc n a \<Longrightarrow> is_split op \<Longrightarrow> frag cc n (ins op (rel (int (length a))) @ a)"
| frag_star: "frag cc n a \<Longrightarrow> is_split op \<Longrightarrow>
    frag cc n (ins op (rel (int (length a) + 5)) @ a @ ins REOP_goto (rel (- int (length a) - 10)))"
| frag_star_check: "frag cc n a \<Longrightarrow> is_split op \<Longrightarrow>
    frag cc (Suc n) (ins op (rel (int (length a) + 6)) @ ins REOP_push_char_pos [] @ a @
      ins REOP_bne_char_pos (rel (- int (length a) - 11)))"
| frag_plus: "frag cc n a \<Longrightarrow> is_split op \<Longrightarrow>
    frag cc n (a @ ins op (rel (- int (length a) - 5)))"
| frag_times: "frag cc n a \<Longrightarrow> length x = 4 \<Longrightarrow>
    frag cc (Suc n) (ins REOP_push_i32 x @ a @ ins REOP_loop (rel (- int (length a) - 5)) @
      ins REOP_drop [])"
| frag_upto: "frag cc n a \<Longrightarrow> length x = 4 \<Longrightarrow> is_split op \<Longrightarrow>
    frag cc (Suc n) (ins REOP_push_i32 x @ ins op (rel (int (length a) + 5)) @ a @
      ins REOP_loop (rel (- int (length a) - 10)) @ ins REOP_drop [])"
| frag_look: "frag cc n a \<Longrightarrow> op \<in> {REOP_lookahead, REOP_negative_lookahead} \<Longrightarrow>
    frag cc n (ins op (rel (int (length a) + 1)) @ a @ ins REOP_match [])"
| frag_greedy: "simple k a \<Longrightarrow> 0 < k \<Longrightarrow> length x = 8 \<Longrightarrow>
    frag cc 0 (ins REOP_simple_greedy_quant (rel (int (length a) + 1) @ x @ rel (int k)) @ a @
      ins REOP_match [])"

lemma frag_mono: "frag cc n a \<Longrightarrow> cc \<le> cc' \<Longrightarrow> frag cc' n a"
  by (induction rule: frag.induct) (auto intro: frag.intros)

text \<open>For the compiler the number of stack entries does not matter.\<close>

definition code :: "nat \<Rightarrow> u8 list \<Rightarrow> bool" where
  "code cc a \<longleftrightarrow> (\<exists>n. frag cc n a)"

named_theorems code_intros \<open>how fragments are built\<close>

lemma code_mono: "code cc a \<Longrightarrow> cc \<le> cc' \<Longrightarrow> code cc' a"
  by (auto simp: code_def intro: frag_mono)

lemma code_Nil [code_intros, simp]: "code cc []"
  by (auto simp: code_def intro: frag_Nil)

lemma code_app [code_intros]: "code cc a \<Longrightarrow> code cc b \<Longrightarrow> code cc (a @ b)"
  by (auto simp: code_def intro: frag_app)

lemma code_base [code_intros]:
  "char_ins i \<Longrightarrow> code cc i" "assert_ins i \<Longrightarrow> code cc i" "code cc (ins REOP_prev [])"
  "op \<in> {REOP_save_start, REOP_save_end} \<Longrightarrow> unat v < cc \<Longrightarrow> code cc (ins op [v])"
  "unat j < cc \<Longrightarrow> code cc (ins REOP_save_reset [v, j])"
  "op \<in> {REOP_back_reference, REOP_backward_back_reference} \<Longrightarrow> unat v < 255 \<Longrightarrow> code cc (ins op [v])"
  by (auto simp: code_def intro: frag.intros)

lemma code_quant [code_intros]:
  assumes "code cc a"
  shows "code cc b \<Longrightarrow> is_split op \<Longrightarrow>
      code cc (ins op (rel (int (length a) + 5)) @ a @ ins REOP_goto (rel (int (length b))) @ b)"
    and "is_split op \<Longrightarrow> code cc (ins op (rel (int (length a))) @ a)"
    and "is_split op \<Longrightarrow>
      code cc (ins op (rel (int (length a) + 5)) @ a @ ins REOP_goto (rel (- int (length a) - 10)))"
    and "is_split op \<Longrightarrow>
      code cc (ins op (rel (int (length a) + 6)) @ ins REOP_push_char_pos [] @ a @
        ins REOP_bne_char_pos (rel (- int (length a) - 11)))"
    and "is_split op \<Longrightarrow> code cc (a @ ins op (rel (- int (length a) - 5)))"
    and "length x = 4 \<Longrightarrow>
      code cc (ins REOP_push_i32 x @ a @ ins REOP_loop (rel (- int (length a) - 5)) @ ins REOP_drop [])"
    and "length x = 4 \<Longrightarrow> is_split op \<Longrightarrow>
      code cc (ins REOP_push_i32 x @ ins op (rel (int (length a) + 5)) @ a @
        ins REOP_loop (rel (- int (length a) - 10)) @ ins REOP_drop [])"
    and "op \<in> {REOP_lookahead, REOP_negative_lookahead} \<Longrightarrow>
      code cc (ins op (rel (int (length a) + 1)) @ a @ ins REOP_match [])"
  using assms by (auto simp: code_def intro: frag.intros)

lemma code_greedy [code_intros]:
  "simple k a \<Longrightarrow> 0 < k \<Longrightarrow> length x = 8 \<Longrightarrow>
     code cc (ins REOP_simple_greedy_quant (rel (int (length a) + 1) @ x @ rel (int k)) @ a @
       ins REOP_match [])"
  by (auto simp: code_def intro: frag_greedy)

end
