(* ===== verification/Re_Scan.thy ===== *)
theory Re_Scan
  imports Re_Code Re_Compile
begin

text \<open>
  The linear analyses of the compiler (\<open>re_check_advance\<close>, \<open>re_is_simple_quantifier\<close>,
  \<open>compute_stack_size\<close>) on code fragments: they never read outside the code, never fail an
  assertion, and compute what they are meant to.
\<close>

text \<open>An instruction with operands of the right length.\<close>

definition okins :: "reop \<Rightarrow> u8 list \<Rightarrow> bool" where
  "okins op x \<longleftrightarrow>
     (if op = REOP_range then \<exists>n y. n < 65536 \<and> x = u16_bytes (of_nat n) @ y \<and> length y = 4 * n
      else if op = REOP_range32 then \<exists>n y. n < 65536 \<and> x = u16_bytes (of_nat n) @ y \<and> length y = 8 * n
      else Suc (length x) = reop_size op)"

lemma get_u16_at:
  "get_u16 (pre @ (c # u16_bytes w @ x) @ post) (Suc (length pre)) = Some w"
  by (simp add: get_u16_def nth_append u16_bytes_def u16_of_bytes)

lemma ins_head [simp]: "(pre @ ins op x @ post) ! length pre = reop_code op"
  by (simp add: ins_def nth_append)

lemma ins_head_end [simp]: "(pre @ ins op x) ! length pre = reop_code op"
  by (simp add: ins_def nth_append)

lemma reop_len_ins:
  assumes "okins op x"
  shows "reop_len (pre @ ins op x @ post) (length pre) op = Some (Suc (length x))"
proof -
  have u: "unat (of_nat n :: u16) = n" if "n < 65536" for n using that by (simp add: unat_of_nat take_bit_eq_mod)
  show ?thesis
    using assms u
    by (cases op) (auto simp: okins_def reop_len_def ins_def get_u16_at [simplified] split: if_splits)
qed

lemma okins_len: "okins op x \<Longrightarrow> reop_size op \<le> Suc (length x)"
  by (cases op) (auto simp: okins_def)

lemma char_ins_cases:
  assumes "char_ins i"
  obtains op x where "i = ins op x" "okins op x"
    "op \<in> {REOP_range, REOP_range32, REOP_char, REOP_char32, REOP_dot, REOP_any}"
  using assms by cases (auto simp: okins_def intro: that)

lemma assert_ins_cases:
  assumes "assert_ins i"
  obtains op where "i = ins op []" "okins op []"
    "op \<in> {REOP_line_start, REOP_line_end, REOP_word_boundary, REOP_not_word_boundary}"
  using assms by cases (auto simp: okins_def intro: that)

lemma okins_fixed [simp]:
  "op \<noteq> REOP_range \<Longrightarrow> op \<noteq> REOP_range32 \<Longrightarrow> okins op x \<longleftrightarrow> Suc (length x) = reop_size op"
  by (simp add: okins_def)

lemma is_splitD: "is_split op \<Longrightarrow> op \<noteq> REOP_range \<and> op \<noteq> REOP_range32 \<and> reop_size op = 5"
  by (auto simp: is_split_def)

section \<open>\<open>re_is_simple_quantifier\<close>\<close>

lemma sq_step:
  assumes "okins op x"
  shows "simple_quantifier_loop (pre @ ins op x @ post) (length pre) n =
    (if op \<in> {REOP_range, REOP_range32, REOP_char, REOP_char32, REOP_dot, REOP_any} then
       simple_quantifier_loop (pre @ ins op x @ post) (length (pre @ ins op x)) (n + 1)
     else if op \<in> {REOP_line_start, REOP_line_end, REOP_word_boundary, REOP_not_word_boundary} then
       simple_quantifier_loop (pre @ ins op x @ post) (length (pre @ ins op x)) n
     else Some (- 1))"
  using reop_len_ins [OF assms, of pre post]
  by (subst simple_quantifier_loop.simps) simp

lemma sq_stop:
  "okins op x \<Longrightarrow> op \<notin> {REOP_range, REOP_range32, REOP_char, REOP_char32, REOP_dot, REOP_any,
     REOP_line_start, REOP_line_end, REOP_word_boundary, REOP_not_word_boundary} \<Longrightarrow>
   simple_quantifier_loop (pre @ ins op x @ post) (length pre) n = Some (- 1)"
  by (simp add: sq_step)

text \<open>Scanning a fragment: -1, or the fragment is simple and the count grows by its
  characters.\<close>

definition sq_scans :: "u8 list \<Rightarrow> bool" where
  "sq_scans a \<longleftrightarrow> (\<forall>pre post n.
     simple_quantifier_loop (pre @ a @ post) (length pre) n = Some (- 1) \<or>
     (\<exists>k. simple k a \<and> simple_quantifier_loop (pre @ a @ post) (length pre) n =
        simple_quantifier_loop (pre @ a @ post) (length (pre @ a)) (n + int k)))"

lemma simple_app: "simple k a \<Longrightarrow> simple m b \<Longrightarrow> simple (k + m) (a @ b)"
  by (induction rule: simple.induct) (auto intro: simple.intros)

lemma sq_scans_app: "sq_scans a \<Longrightarrow> sq_scans b \<Longrightarrow> sq_scans (a @ b)"
  unfolding sq_scans_def
proof (intro allI)
  fix pre post n
  assume a: "\<forall>pre post n. simple_quantifier_loop (pre @ a @ post) (length pre) n = Some (- 1) \<or>
     (\<exists>k. simple k a \<and> simple_quantifier_loop (pre @ a @ post) (length pre) n =
        simple_quantifier_loop (pre @ a @ post) (length (pre @ a)) (n + int k))"
    and b: "\<forall>pre post n. simple_quantifier_loop (pre @ b @ post) (length pre) n = Some (- 1) \<or>
     (\<exists>k. simple k b \<and> simple_quantifier_loop (pre @ b @ post) (length pre) n =
        simple_quantifier_loop (pre @ b @ post) (length (pre @ b)) (n + int k))"
  show "simple_quantifier_loop (pre @ (a @ b) @ post) (length pre) n = Some (- 1) \<or>
     (\<exists>k. simple k (a @ b) \<and> simple_quantifier_loop (pre @ (a @ b) @ post) (length pre) n =
        simple_quantifier_loop (pre @ (a @ b) @ post) (length (pre @ a @ b)) (n + int k))"
    using a [rule_format, of pre "b @ post" n]
  proof
    assume "\<exists>k. simple k a \<and> simple_quantifier_loop (pre @ a @ b @ post) (length pre) n =
        simple_quantifier_loop (pre @ a @ b @ post) (length (pre @ a)) (n + int k)"
    then obtain k where k: "simple k a" "simple_quantifier_loop (pre @ a @ b @ post) (length pre) n =
        simple_quantifier_loop (pre @ a @ b @ post) (length (pre @ a)) (n + int k)" by blast
    show ?thesis
      using b [rule_format, of "pre @ a" post "n + int k"] k simple_app [OF k(1)]
      by (auto simp: add.assoc) (metis add.assoc of_nat_add)
  qed simp
qed

lemma sq_scans_stop:
  "okins op x \<Longrightarrow> op \<notin> {REOP_range, REOP_range32, REOP_char, REOP_char32, REOP_dot, REOP_any,
     REOP_line_start, REOP_line_end, REOP_word_boundary, REOP_not_word_boundary} \<Longrightarrow>
   sq_scans (ins op x @ b)"
  unfolding sq_scans_def append_assoc by (blast intro: sq_stop)

lemma sq_scans_stop1:
  "okins op x \<Longrightarrow> op \<notin> {REOP_range, REOP_range32, REOP_char, REOP_char32, REOP_dot, REOP_any,
     REOP_line_start, REOP_line_end, REOP_word_boundary, REOP_not_word_boundary} \<Longrightarrow>
   sq_scans (ins op x)"
  using sq_scans_stop [of op x "[]"] by simp

lemma sq_scans_char:
  assumes "char_ins i"
  shows "sq_scans i"
proof -
  have "simple 1 i" using simple_char [OF assms simple_Nil] by simp
  then show ?thesis
    using assms unfolding sq_scans_def
    by (elim char_ins_cases) (auto simp: sq_step intro!: exI [of _ 1])
qed

lemma sq_scans_assert:
  assumes "assert_ins i"
  shows "sq_scans i"
proof -
  have "simple 0 i" using simple_assert [OF assms simple_Nil] by simp
  then show ?thesis
    using assms unfolding sq_scans_def
    by (elim assert_ins_cases) (auto simp: sq_step intro!: exI [of _ 0])
qed

lemma frag_sq_scans: "frag cc n a \<Longrightarrow> sq_scans a"
proof (induction rule: frag.induct)
  case frag_Nil
  show ?case by (auto simp: sq_scans_def intro: exI [of _ 0] simple_Nil)
next
  case (frag_plus n a op)
  then show ?case
    by (intro sq_scans_app sq_scans_stop1) (auto simp: is_split_def)
next
  case (frag_app n a m b)
  then show ?case by (intro sq_scans_app)
next
  case (frag_char i)
  then show ?case by (rule sq_scans_char)
next
  case (frag_assert i)
  then show ?case by (rule sq_scans_assert)
qed (auto intro!: sq_scans_stop sq_scans_stop1 simp: is_split_def)

lemma re_is_simple_quantifier_code:
  assumes "code cc a"
  shows "\<exists>k. re_is_simple_quantifier a = Some k \<and> (0 < k \<longrightarrow> simple (nat k) a)"
proof -
  obtain n where "frag cc n a" using assms by (auto simp: code_def)
  then have "sq_scans a" by (rule frag_sq_scans)
  then have "simple_quantifier_loop a 0 0 = Some (- 1) \<or>
     (\<exists>k. simple k a \<and> simple_quantifier_loop a 0 0 = simple_quantifier_loop a (length a) (int k))"
    unfolding sq_scans_def by (metis append_Nil append_Nil2 list.size(3) add_0)
  then show ?thesis
    by (auto simp: re_is_simple_quantifier_def simple_quantifier_loop.simps [of a "length a"])
qed

section \<open>\<open>re_check_advance\<close>\<close>

text \<open>Scanning a fragment goes through to its end, whatever the state of the analysis.\<close>

definition ca_scans :: "u8 list \<Rightarrow> bool" where
  "ca_scans a \<longleftrightarrow> (\<forall>pre post ret bm hb. length bm = 255 \<longrightarrow>
     (\<exists>ret' bm' hb'. length bm' = 255 \<and>
        check_advance_loop (pre @ a @ post) (length pre) ret bm hb =
        check_advance_loop (pre @ a @ post) (length (pre @ a)) ret' bm' hb'))"

lemma ca_scans_app: "ca_scans a \<Longrightarrow> ca_scans b \<Longrightarrow> ca_scans (a @ b)"
  unfolding ca_scans_def
proof (intro allI impI)
  fix pre post ret and bm :: "u8 list" and hb
  assume a: "\<forall>pre post ret bm hb. length bm = 255 \<longrightarrow> (\<exists>ret' bm' hb'. length bm' = 255 \<and>
        check_advance_loop (pre @ a @ post) (length pre) ret bm hb =
        check_advance_loop (pre @ a @ post) (length (pre @ a)) ret' bm' hb')"
    and b: "\<forall>pre post ret bm hb. length bm = 255 \<longrightarrow> (\<exists>ret' bm' hb'. length bm' = 255 \<and>
        check_advance_loop (pre @ b @ post) (length pre) ret bm hb =
        check_advance_loop (pre @ b @ post) (length (pre @ b)) ret' bm' hb')"
    and "length bm = 255"
  with a [rule_format, of bm pre "b @ post" ret hb] obtain ret1 bm1 hb1
    where 1: "length bm1 = 255" "check_advance_loop (pre @ a @ b @ post) (length pre) ret bm hb =
      check_advance_loop (pre @ a @ b @ post) (length (pre @ a)) ret1 bm1 hb1" by blast
  show "\<exists>ret' bm' hb'. length bm' = 255 \<and>
        check_advance_loop (pre @ (a @ b) @ post) (length pre) ret bm hb =
        check_advance_loop (pre @ (a @ b) @ post) (length (pre @ a @ b)) ret' bm' hb'"
    using b [rule_format, of bm1 "pre @ a" post ret1 hb1] 1 by (simp only: append_assoc)
qed

lemma ins_arg [simp]:
  "(pre @ ins op (x # y) @ post) ! Suc (length pre) = x"
  "(pre @ ins op (x # z # y) @ post) ! Suc (Suc (length pre)) = z"
  by (simp_all add: ins_def nth_append)

lemma ca_ex:
  "length b = 255 \<Longrightarrow> \<exists>ret' bm'. length bm' = 255 \<and>
     (\<exists>hb'. check_advance_loop c p r b h = check_advance_loop c p ret' bm' hb')"
  by blast

lemma ca_scans_plain:
  assumes "okins op x" and "op \<notin> {REOP_save_start, REOP_save_end, REOP_save_reset,
    REOP_back_reference, REOP_backward_back_reference}"
  shows "ca_scans (ins op x)"
  unfolding ca_scans_def
proof (intro allI impI)
  fix pre post ret and bm :: "u8 list" and hb
  assume "length bm = 255"
  then show "\<exists>ret' bm' hb'. length bm' = 255 \<and>
      check_advance_loop (pre @ ins op x @ post) (length pre) ret bm hb =
      check_advance_loop (pre @ ins op x @ post) (length (pre @ ins op x)) ret' bm' hb'"
    using assms reop_len_ins [OF assms(1), of pre post]
    by (subst check_advance_loop.simps) (auto intro!: ca_ex)
qed

lemma ca_scans_save:
  assumes "op \<in> {REOP_save_start, REOP_save_end, REOP_back_reference, REOP_backward_back_reference}"
    and "unat v < 255"
  shows "ca_scans (ins op [v])"
  unfolding ca_scans_def
proof (intro allI impI)
  fix pre post ret and bm :: "u8 list" and hb
  assume "length bm = 255"
  moreover have "okins op [v]" using assms(1) by auto
  ultimately show "\<exists>ret' bm' hb'. length bm' = 255 \<and>
      check_advance_loop (pre @ ins op [v] @ post) (length pre) ret bm hb =
      check_advance_loop (pre @ ins op [v] @ post) (length (pre @ ins op [v])) ret' bm' hb'"
    using assms reop_len_ins [of op "[v]" pre post]
    by (subst check_advance_loop.simps) (auto simp: rd_Some intro!: ca_ex)
qed

lemma ca_scans_save_reset: "ca_scans (ins REOP_save_reset [v, w])"
  unfolding ca_scans_def
proof (intro allI impI)
  fix pre post ret and bm :: "u8 list" and hb
  assume "length bm = 255"
  moreover have "unat w < 2 ^ LENGTH(8)" by (rule unsigned_less)
  then have "\<not> unat w > 255" by simp
  ultimately show "\<exists>ret' bm' hb'. length bm' = 255 \<and>
      check_advance_loop (pre @ ins REOP_save_reset [v, w] @ post) (length pre) ret bm hb =
      check_advance_loop (pre @ ins REOP_save_reset [v, w] @ post)
        (length (pre @ ins REOP_save_reset [v, w])) ret' bm' hb'"
    using reop_len_ins [of REOP_save_reset "[v, w]" pre post]
    by (subst check_advance_loop.simps) (auto simp: rd_Some intro!: ca_ex)
qed

lemma simple_ca_scans: "simple k a \<Longrightarrow> ca_scans a"
proof (induction rule: simple.induct)
  case simple_Nil
  show ?case by (auto simp: ca_scans_def)
next
  case (simple_char i k a)
  then show ?case by (elim char_ins_cases) (auto intro!: ca_scans_app ca_scans_plain)
next
  case (simple_assert i k a)
  then show ?case by (elim assert_ins_cases) (auto intro!: ca_scans_app ca_scans_plain)
qed

lemma frag_ca_scans: "frag cc n a \<Longrightarrow> cc \<le> 255 \<Longrightarrow> ca_scans a"
proof (induction rule: frag.induct)
  case frag_Nil
  show ?case by (auto simp: ca_scans_def)
next
  case (frag_char i)
  then show ?case using simple_ca_scans [OF simple_char [OF _ simple_Nil]] by fastforce
next
  case (frag_assert i)
  then show ?case using simple_ca_scans [OF simple_assert [OF _ simple_Nil]] by fastforce
next
  case (frag_save op i)
  then show ?case by (intro ca_scans_save) auto
next
  case (frag_back_ref op i)
  then show ?case by (intro ca_scans_save) auto
next
  case (frag_greedy k a x)
  then show ?case by (intro ca_scans_app ca_scans_plain simple_ca_scans) auto
qed (auto intro!: ca_scans_app ca_scans_plain ca_scans_save_reset simp: is_split_def)

lemma re_check_advance_code:
  assumes "code cc a" and "cc \<le> 255"
  shows "\<exists>r. re_check_advance a = Some r"
proof -
  obtain n where "frag cc n a" using assms by (auto simp: code_def)
  then have "ca_scans a" using assms(2) by (rule frag_ca_scans)
  then obtain ret bm hb where "check_advance_loop ([] @ a @ []) (length ([] :: u8 list)) (- 2) (replicate 255 0) False =
      check_advance_loop ([] @ a @ []) (length ([] @ a)) ret bm hb"
    unfolding ca_scans_def by (metis length_replicate)
  then show ?thesis
    by (simp add: re_check_advance_def check_advance_loop.simps [of a "length a"])
qed

section \<open>\<open>compute_stack_size\<close>\<close>

text \<open>Scanning takes the depth from \<open>d\<close> to \<open>d'\<close>; the maximum is at least \<open>N\<close> afterwards,
  or the limit was exceeded.\<close>

definition st_scans :: "u8 list \<Rightarrow> nat \<Rightarrow> nat \<Rightarrow> nat \<Rightarrow> bool" where
  "st_scans a d d' N \<longleftrightarrow> (\<forall>pre post m. d \<le> m \<longrightarrow> m \<le> 255 \<longrightarrow>
     stack_size_loop (pre @ a @ post) (length pre) d m = Some (- 1) \<or>
     (\<exists>m'. m \<le> m' \<and> N \<le> m' \<and> d' \<le> m' \<and> m' \<le> 255 \<and>
        stack_size_loop (pre @ a @ post) (length pre) d m =
        stack_size_loop (pre @ a @ post) (length (pre @ a)) d' m'))"

lemma st_scansD:
  "st_scans a d d' N \<Longrightarrow> d \<le> m \<Longrightarrow> m \<le> 255 \<Longrightarrow>
     stack_size_loop (pre @ a @ post) (length pre) d m = Some (- 1) \<or>
     (\<exists>m'. m \<le> m' \<and> N \<le> m' \<and> d' \<le> m' \<and> m' \<le> 255 \<and>
        stack_size_loop (pre @ a @ post) (length pre) d m =
        stack_size_loop (pre @ a @ post) (length (pre @ a)) d' m')"
  by (simp add: st_scans_def)

lemma st_scans_app:
  assumes "st_scans a d d' N" and "st_scans b d' d'' N'"
  shows "st_scans (a @ b) d d'' (max N N')"
  unfolding st_scans_def
proof (intro allI impI)
  fix pre post m
  assume m: "d \<le> m" "m \<le> 255"
  show "stack_size_loop (pre @ (a @ b) @ post) (length pre) d m = Some (- 1) \<or>
     (\<exists>m'. m \<le> m' \<and> max N N' \<le> m' \<and> d'' \<le> m' \<and> m' \<le> 255 \<and>
        stack_size_loop (pre @ (a @ b) @ post) (length pre) d m =
        stack_size_loop (pre @ (a @ b) @ post) (length (pre @ a @ b)) d'' m')"
    using st_scansD [OF assms(1) m, of pre "b @ post"]
  proof
    assume "\<exists>m'. m \<le> m' \<and> N \<le> m' \<and> d' \<le> m' \<and> m' \<le> 255 \<and>
        stack_size_loop (pre @ a @ b @ post) (length pre) d m =
        stack_size_loop (pre @ a @ b @ post) (length (pre @ a)) d' m'"
    then obtain m1 where 1: "m \<le> m1" "N \<le> m1" "d' \<le> m1" "m1 \<le> 255"
      "stack_size_loop (pre @ a @ b @ post) (length pre) d m =
        stack_size_loop (pre @ a @ b @ post) (length (pre @ a)) d' m1" by blast
    from st_scansD [OF assms(2) 1(3,4), of "pre @ a" post] 1 show ?thesis
      by (simp only: append_assoc) (meson max.boundedI order.trans)
  qed simp
qed

lemma st_scans_weaken: "st_scans a d d' N \<Longrightarrow> N' \<le> N \<Longrightarrow> st_scans a d d' N'"
  unfolding st_scans_def by (meson order.trans)

lemma st_step:
  assumes "okins op x"
  shows "stack_size_loop (pre @ ins op x @ post) (length pre) d m =
    (if op \<in> {REOP_push_i32, REOP_push_char_pos} then
       (if d + 1 > m then
          (if d + 1 > 255 then Some (- 1)
           else stack_size_loop (pre @ ins op x @ post) (length (pre @ ins op x)) (d + 1) (d + 1))
        else stack_size_loop (pre @ ins op x @ post) (length (pre @ ins op x)) (d + 1) m)
     else if op \<in> {REOP_drop, REOP_bne_char_pos} then
       (if d = 0 then None
        else stack_size_loop (pre @ ins op x @ post) (length (pre @ ins op x)) (d - 1) m)
     else stack_size_loop (pre @ ins op x @ post) (length (pre @ ins op x)) d m)"
proof -
  have "\<not> length pre + reop_size op > length (pre @ ins op x @ post)"
    using okins_len [OF assms] by simp
  then show ?thesis
    using reop_len_ins [OF assms, of pre post]
    by (subst stack_size_loop.simps) simp
qed

lemma st_scans_plain:
  "okins op x \<Longrightarrow> op \<notin> {REOP_push_i32, REOP_push_char_pos, REOP_drop, REOP_bne_char_pos} \<Longrightarrow>
     st_scans (ins op x) d d d"
  by (auto simp: st_scans_def st_step)

lemma st_scans_push:
  "okins op x \<Longrightarrow> op \<in> {REOP_push_i32, REOP_push_char_pos} \<Longrightarrow> st_scans (ins op x) d (Suc d) (Suc d)"
  unfolding st_scans_def
proof (intro allI impI)
  fix pre post m
  let ?b = "pre @ ins op x @ post"
  assume op: "okins op x" "op \<in> {REOP_push_i32, REOP_push_char_pos}" and m: "d \<le> m" "m \<le> 255"
  have "stack_size_loop ?b (length pre) d m =
      (if d + 1 > 255 then Some (- 1)
       else stack_size_loop ?b (length (pre @ ins op x)) (Suc d) (max m (Suc d)))"
    using st_step [OF op(1), of pre post d m] op(2) m by (auto simp: max_def)
  then show "stack_size_loop ?b (length pre) d m = Some (- 1) \<or>
     (\<exists>m'. m \<le> m' \<and> Suc d \<le> m' \<and> Suc d \<le> m' \<and> m' \<le> 255 \<and>
        stack_size_loop ?b (length pre) d m =
        stack_size_loop ?b (length (pre @ ins op x)) (Suc d) m')"
    using m by (cases "d + 1 > 255") (auto intro!: exI [of _ "max m (Suc d)"])
qed

lemma st_scans_pop:
  "okins op x \<Longrightarrow> op \<in> {REOP_drop, REOP_bne_char_pos} \<Longrightarrow> st_scans (ins op x) (Suc d) d d"
  by (auto simp: st_scans_def st_step)

lemma simple_st_scans: "simple k a \<Longrightarrow> st_scans a d d d"
proof (induction rule: simple.induct)
  case simple_Nil
  show ?case by (auto simp: st_scans_def)
next
  case (simple_char i k a)
  then obtain op x where "i = ins op x" "okins op x"
    "op \<in> {REOP_range, REOP_range32, REOP_char, REOP_char32, REOP_dot, REOP_any}"
    by (elim char_ins_cases)
  then have "st_scans i d d d" by (auto intro!: st_scans_plain)
  then show ?case using st_scans_app [OF _ simple_char.IH] by fastforce
next
  case (simple_assert i k a)
  then obtain op x where "i = ins op x" "okins op x"
    "op \<in> {REOP_line_start, REOP_line_end, REOP_word_boundary, REOP_not_word_boundary}"
    by (elim assert_ins_cases)
  then have "st_scans i d d d" by (auto intro!: st_scans_plain)
  then show ?case using st_scans_app [OF _ simple_assert.IH] by fastforce
qed

lemma frag_st_scans: "frag cc n a \<Longrightarrow> st_scans a d d (d + n)"
proof (induction arbitrary: d rule: frag.induct)
  case frag_Nil
  show ?case by (auto simp: st_scans_def)
next
  case (frag_app n a m b)
  then show ?case using st_scans_app by (fastforce simp: max_add_distrib_right)
next
  case (frag_char i)
  then show ?case using simple_st_scans [OF simple_char [OF _ simple_Nil]] by fastforce
next
  case (frag_assert i)
  then show ?case using simple_st_scans [OF simple_assert [OF _ simple_Nil]] by fastforce
next
  case (frag_save op i)
  then show ?case using st_scans_plain [of op "[i]" d] by auto
next
  case (frag_back_ref op i)
  then show ?case using st_scans_plain [of op "[i]" d] by auto
next
  case (frag_alt n a m b op)
  have 1: "st_scans (ins op (rel (int (length a) + 5))) d d d"
    "st_scans (ins REOP_goto (rel (int (length b)))) d d d"
    using is_splitD [OF frag_alt.hyps(3)] frag_alt.hyps(3)
    by (intro st_scans_plain; force simp: is_split_def)+
  show ?case
    by (rule st_scans_weaken [OF st_scans_app [OF 1(1) st_scans_app
            [OF frag_alt.IH(1) st_scans_app [OF 1(2) frag_alt.IH(2)]]]]) simp
next
  case (frag_opt n a op)
  have 1: "st_scans (ins op (rel (int (length a)))) d d d"
    using frag_opt.hyps(2) by (intro st_scans_plain; force simp: is_split_def)
  show ?case by (rule st_scans_weaken [OF st_scans_app [OF 1 frag_opt.IH]]) simp
next
  case (frag_star n a op)
  have 1: "st_scans (ins op (rel (int (length a) + 5))) d d d"
    "st_scans (ins REOP_goto (rel (- int (length a) - 10))) d d d"
    using frag_star.hyps(2) by (intro st_scans_plain; force simp: is_split_def)+
  show ?case
    by (rule st_scans_weaken [OF st_scans_app [OF 1(1) st_scans_app [OF frag_star.IH 1(2)]]]) simp
next
  case (frag_star_check n a op)
  have 1: "st_scans (ins op (rel (int (length a) + 6))) d d d"
    using frag_star_check.hyps(2) by (intro st_scans_plain; force simp: is_split_def)
  have 2: "st_scans (ins REOP_push_char_pos []) d (Suc d) (Suc d)"
    "st_scans (ins REOP_bne_char_pos (rel (- int (length a) - 11))) (Suc d) d d"
    by (auto intro: st_scans_push st_scans_pop)
  show ?case
    by (rule st_scans_weaken [OF st_scans_app [OF 1(1) st_scans_app [OF 2(1)
            st_scans_app [OF frag_star_check.IH 2(2)]]]]) simp
next
  case (frag_plus n a op)
  have 1: "st_scans (ins op (rel (- int (length a) - 5))) d d d"
    using frag_plus.hyps(2) by (intro st_scans_plain; force simp: is_split_def)
  show ?case by (rule st_scans_weaken [OF st_scans_app [OF frag_plus.IH 1]]) simp
next
  case (frag_times n a x)
  have 1: "st_scans (ins REOP_push_i32 x) d (Suc d) (Suc d)"
    "st_scans (ins REOP_loop (rel (- int (length a) - 5))) (Suc d) (Suc d) (Suc d)"
    "st_scans (ins REOP_drop []) (Suc d) d d"
    using frag_times.hyps(2) by (auto intro: st_scans_push st_scans_pop st_scans_plain)
  show ?case
    by (rule st_scans_weaken [OF st_scans_app [OF 1(1) st_scans_app [OF frag_times.IH
            st_scans_app [OF 1(2,3)]]]]) simp
next
  case (frag_upto n a x op)
  have 1: "st_scans (ins REOP_push_i32 x) d (Suc d) (Suc d)"
    "st_scans (ins REOP_loop (rel (- int (length a) - 10))) (Suc d) (Suc d) (Suc d)"
    "st_scans (ins REOP_drop []) (Suc d) d d"
    using frag_upto.hyps(2) by (auto intro: st_scans_push st_scans_pop st_scans_plain)
  have 2: "st_scans (ins op (rel (int (length a) + 5))) (Suc d) (Suc d) (Suc d)"
    using frag_upto.hyps(3) by (intro st_scans_plain; force simp: is_split_def)
  show ?case
    by (rule st_scans_weaken [OF st_scans_app [OF 1(1) st_scans_app [OF 2 st_scans_app
            [OF frag_upto.IH st_scans_app [OF 1(2,3)]]]]]) simp
next
  case (frag_look n a op)
  have 1: "st_scans (ins op (rel (int (length a) + 1))) d d d" "st_scans (ins REOP_match []) d d d"
    using frag_look.hyps(2) by (intro st_scans_plain; force)+
  show ?case
    by (rule st_scans_weaken [OF st_scans_app [OF 1(1) st_scans_app [OF frag_look.IH 1(2)]]]) simp
next
  case (frag_greedy k a x)
  have 1: "st_scans (ins REOP_simple_greedy_quant (rel (int (length a) + 1) @ x @ rel (int k))) d d d"
    "st_scans (ins REOP_match []) d d d"
    using frag_greedy.hyps(3) by (intro st_scans_plain; force)+
  show ?case
    by (rule st_scans_weaken [OF st_scans_app [OF 1(1) st_scans_app
            [OF simple_st_scans [OF frag_greedy.hyps(1)] 1(2)]]]) simp
qed (auto intro: st_scans_plain)

text \<open>The stack size of a fragment followed by \<open>match\<close>: the limit is exceeded, or it is
  large enough for the fragment.\<close>

lemma compute_stack_size_code:
  assumes "frag cc n a" and "length hdr = RE_HEADER_LEN"
  shows "\<exists>r. compute_stack_size (hdr @ a @ ins REOP_match []) = Some r \<and>
    (r = - 1 \<or> int n \<le> r \<and> r \<le> 255)"
proof -
  have m: "st_scans (ins REOP_match []) 0 0 0" by (intro st_scans_plain) auto
  from st_scans_app [OF frag_st_scans [OF assms(1), of 0] m]
  have "st_scans (a @ ins REOP_match []) 0 0 n" by (rule st_scans_weaken) simp
  from st_scansD [OF this, of 0 "[]" "[]"]
  show ?thesis
    by (auto simp: compute_stack_size_def assms(2) stack_size_loop.simps [of _ "Suc (length a)"])
qed

end
