(* ===== verification/Re_Emit_Safe.thy ===== *)
theory Re_Emit_Safe
  imports Re_Compile Re_Scan
begin

text \<open>
  The code-emitting operations of the compiler in terms of the code they leave: appending
  instructions, patching bytes, opening gaps, copying a piece of code. On these the quantifiers are
  shown to turn a code fragment into a code fragment. The allocator never refuses here.
\<close>

section \<open>Emission\<close>

definition good :: "dynbuf \<Rightarrow> bool" where
  "good b \<longleftrightarrow> dbuf_wf b \<and> dbuf_live b"

text \<open>\<open>s\<close> is \<open>s0\<close> with the code \<open>c\<close>.\<close>

definition has_code :: "re_state \<Rightarrow> u8 list \<Rightarrow> re_state \<Rightarrow> bool" where
  "has_code s0 c s \<longleftrightarrow> (\<exists>b. s = s0\<lparr>byte_code := b\<rparr> \<and> good b \<and> contents b = c)"

named_theorems emits \<open>what the emitting operations do to the code\<close>

lemma has_code_refl: "good (byte_code s) \<Longrightarrow> has_code s (contents (byte_code s)) s"
  by (auto simp: has_code_def intro!: exI [of _ "byte_code s"])

lemma has_code_size: "has_code s0 c s \<Longrightarrow> code_size s = length c"
  by (auto simp: has_code_def good_def)

lemma has_code_contents: "has_code s0 c s \<Longrightarrow> contents (byte_code s) = c \<and> good (byte_code s)"
  by (auto simp: has_code_def)

lemma has_code_derror: "has_code s0 c s \<Longrightarrow> \<not> derror (byte_code s)"
  by (auto simp: has_code_def good_def dbuf_live_def)

lemma has_code_sel:
  assumes "has_code s0 c s"
  shows "buf_ptr s = buf_ptr s0" "buf_end s = buf_end s0" "pat s = pat s0" "re_flags s = re_flags s0"
    "is_utf16 s = is_utf16 s0" "ignore_case s = ignore_case s0" "dotall s = dotall s0"
    "capture_count s = capture_count s0" "total_capture_count s = total_capture_count s0"
    "has_named_captures s = has_named_captures s0" "group_names s = group_names s0" "u_buf s = u_buf s0"
    "stack_overflow s = stack_overflow s0" "cr_mem s = cr_mem s0" "unicode s = unicode s0"
  using assms by (auto simp: has_code_def)

lemma okw_liveI:
  assumes "okw m (dbuf_post b c)" and "\<And>r b'. m = Some (r, b') \<Longrightarrow> r = 0 \<and> dbuf_live b'"
  shows "okw m (\<lambda>(r, b'). r = 0 \<and> good b' \<and> contents b' = c)"
  using assms by (cases m) (auto simp: dbuf_post_def good_def)

lemma dbuf_put_good: "good b \<Longrightarrow> okw (dbuf_put b d) (\<lambda>(r, b'). r = 0 \<and> good b' \<and> contents b' = contents b @ d)"
  by (rule okw_liveI [OF dbuf_put_post]) (auto simp: good_def dest: dbuf_put_live)

lemma dbuf_put_self_good:
  "good b \<Longrightarrow> off + len \<le> dsize b \<Longrightarrow> okw (dbuf_put_self b off len)
     (\<lambda>(r, b'). r = 0 \<and> good b' \<and> contents b' = contents b @ take len (drop off (contents b)))"
  by (rule okw_liveI [OF dbuf_put_self_post]) (auto simp: good_def dest: dbuf_put_self_live)

lemma emit_ok [emits]: "has_code s0 c s \<Longrightarrow> okw (emit s d) (has_code s0 (c @ d))"
  using okw_ex [OF dbuf_put_good, of "byte_code s" d]
  by (fastforce simp: has_code_def emit_def)

lemma re_emit_op_ok [emits]: "has_code s0 c s \<Longrightarrow> okw (re_emit_op s op) (has_code s0 (c @ ins op []))"
  using emit_ok [of s0 c s "[reop_code op]"] by (simp add: re_emit_op_def ins_def)

lemma re_emit_op_u8_ok [emits]:
  "has_code s0 c s \<Longrightarrow> okw (re_emit_op_u8 s op v) (has_code s0 (c @ ins op [v]))"
  using okw_ex [OF emit_ok [of s0 c s "[reop_code op]"]] emit_ok [of s0 "c @ [reop_code op]" _ "[v]"]
  by (auto simp: re_emit_op_u8_def ins_def)

lemma re_emit_op_u16_ok [emits]:
  "has_code s0 c s \<Longrightarrow> okw (re_emit_op_u16 s op v) (has_code s0 (c @ ins op (u16_bytes v)))"
  using okw_ex [OF emit_ok [of s0 c s "[reop_code op]"]] emit_ok [of s0 "c @ [reop_code op]" _ "u16_bytes v"]
  by (auto simp: re_emit_op_u16_def ins_def)

lemma re_emit_op_u32_ok [emits]:
  "has_code s0 c s \<Longrightarrow> okw (re_emit_op_u32 s op v)
     (\<lambda>(pos, s'). pos = Suc (length c) \<and> has_code s0 (c @ ins op (u32_bytes v)) s')"
  using okw_ex [OF emit_ok [of s0 c s "[reop_code op]"]] okw_ex [OF emit_ok [of s0 "c @ [reop_code op]" _ "u32_bytes v"]]
  by (fastforce simp: re_emit_op_u32_def ins_def has_code_size)

lemma re_emit_goto_ok [emits]:
  assumes "has_code s0 c s"
  shows "okw (re_emit_goto s op val)
     (\<lambda>(pos, s'). pos = Suc (length c) \<and> has_code s0 (c @ ins op (rel (int val - int (length c) - 5))) s')"
proof -
  have "(of_nat val :: u32) - of_nat (Suc (length c) + 4) = word_of_int (int val - int (length c) - 5)"
    by simp
  then have b: "u32_bytes (of_nat val - of_nat (Suc (length c) + 4)) = rel (int val - int (length c) - 5)"
    by (simp only: rel_def)
  obtain s1 where 1: "emit s [reop_code op] = Some s1" "has_code s0 (c @ [reop_code op]) s1"
    using okw_ex [OF emit_ok [OF assms]] by blast
  have "code_size s1 = Suc (length c)" using has_code_size [OF 1(2)] by simp
  then show ?thesis
    using 1(1) okw_ex [OF emit_ok [OF 1(2), of "rel (int val - int (length c) - 5)"]]
    by (fastforce simp: re_emit_goto_def ins_def b [simplified])
qed

section \<open>Patching\<close>

lemma buf_split:
  assumes "good b" and "contents b = pre @ x @ post"
  shows "\<exists>r. buf b = pre @ x @ post @ r \<and> dsize b = length pre + length x + length post"
proof -
  have d: "dsize b = length (pre @ x @ post)" using assms by (metis good_def length_contents)
  have "buf b = contents b @ drop (dsize b) (buf b)" by (simp add: contents_def)
  then show ?thesis using assms(2) d by auto
qed

lemma patch_bytes:
  assumes "has_code s0 (pre @ x @ post) s" and "length d = length x"
  shows "okw (do { b \<leftarrow> mem_write (buf (byte_code s)) (length pre) d; Some (s\<lparr>byte_code := (byte_code s)\<lparr>buf := b\<rparr>\<rparr>) })
    (has_code s0 (pre @ d @ post))"
proof -
  obtain b where b: "s = s0\<lparr>byte_code := b\<rparr>" "good b" "contents b = pre @ x @ post"
    using assms(1) by (auto simp: has_code_def)
  obtain r where r: "buf b = pre @ x @ post @ r" "dsize b = length pre + length x + length post"
    using buf_split [OF b(2,3)] by blast
  let ?b = "b\<lparr>buf := pre @ d @ post @ r\<rparr>"
  have "good ?b" using b(2) r assms(2) by (simp add: good_def dbuf_wf_def dbuf_live_def)
  moreover have "contents ?b = pre @ d @ post" using r assms(2) by (simp add: contents_def)
  ultimately show ?thesis
    using b r assms(2) by (auto simp: mem_write_def has_code_def)
qed

lemma patch_u8_ok:
  "has_code s0 (pre @ [x] @ post) s \<Longrightarrow> okw (patch_u8 s (length pre) v) (has_code s0 (pre @ [v] @ post))"
  using patch_bytes [of s0 pre "[x]" post s "[v]"] by (simp add: patch_u8_def)

lemma patch_u32_ok:
  "has_code s0 (pre @ x @ post) s \<Longrightarrow> length x = 4 \<Longrightarrow>
   okw (patch_u32 s (length pre) v) (has_code s0 (pre @ u32_bytes v @ post))"
  using patch_bytes [of s0 pre x post s "u32_bytes v"] by (simp add: patch_u32_def put_u32_def)

lemma insert_code_ok:
  assumes "has_code s0 (pre @ post) s"
  shows "okw (insert_code s (length pre) n)
    (\<lambda>(r, s'). r = 0 \<and> (\<exists>j. length j = n \<and> has_code s0 (pre @ j @ post) s'))"
proof -
  obtain b where b: "s = s0\<lparr>byte_code := b\<rparr>" "good b" "contents b = pre @ post"
    using assms by (auto simp: has_code_def)
  have "length pre \<le> dsize b" using buf_split [of b pre "[]" post] b by auto
  from okw_ex [OF dbuf_insert_post [OF _ this, of n]] b(2)
  obtain r b' j where p: "dbuf_insert b (length pre) n = Some (r, b')" "length j = n"
      "dbuf_post b (take (length pre) (contents b) @ j @ drop (length pre) (contents b)) (r, b')"
    by (auto simp: good_def)
  moreover have "r = 0" "dbuf_live b'" using dbuf_insert_live [OF p(1)] b(2) by (auto simp: good_def)
  ultimately show ?thesis
    using b by (auto simp: insert_code_def has_code_def dbuf_post_def good_def)
qed

lemma copy_code_ok:
  assumes "has_code s0 (pre @ x @ post) s"
  shows "okw (copy_code s (length pre) (length x)) (has_code s0 (pre @ x @ post @ x))"
proof -
  obtain b where b: "s = s0\<lparr>byte_code := b\<rparr>" "good b" "contents b = pre @ x @ post"
    using assms by (auto simp: has_code_def)
  have "length pre + length x \<le> dsize b" using buf_split [OF b(2,3)] by auto
  from okw_ex [OF dbuf_put_self_good [OF b(2) this]] b show ?thesis
    by (auto simp: copy_code_def has_code_def)
qed

lemma code_slice_ok:
  assumes "has_code s0 (pre @ a) s"
  shows "code_slice s (length pre) = Some a"
  using buf_split [of "byte_code s" pre a "[]"] assms
  by (auto simp: code_slice_def mem_read_def has_code_def)

lemma truncate_ok:
  assumes "has_code s0 (pre @ a) s"
  shows "has_code s0 pre (s\<lparr>byte_code := (byte_code s)\<lparr>dsize := length pre\<rparr>\<rparr>)"
proof -
  obtain b where b: "s = s0\<lparr>byte_code := b\<rparr>" "good b" "contents b = pre @ a"
    using assms by (auto simp: has_code_def)
  obtain r where "buf b = pre @ a @ r" "dsize b = length pre + length a"
    using buf_split [of b pre a "[]"] b(2,3) by auto
  then have "good (b\<lparr>dsize := length pre\<rparr>)" "contents (b\<lparr>dsize := length pre\<rparr>) = pre"
    using b(2) by (auto simp: good_def dbuf_wf_def dbuf_live_def contents_def)
  then show ?thesis using b(1) by (auto simp: has_code_def)
qed

section \<open>Quantifiers\<close>

lemma okw_bindI: "okw m P \<Longrightarrow> (\<And>x. P x \<Longrightarrow> okw (f x) Q) \<Longrightarrow> okw (m \<bind> f) Q"
  by (cases m) simp_all

text \<open>Writing into code at any place.\<close>

lemma fill_u8:
  assumes c: "has_code s0 c s" and p: "pos < length c"
    and f: "\<And>s'. has_code s0 (take pos c @ [v] @ drop (Suc pos) c) s' \<Longrightarrow> code_size s' = length c \<Longrightarrow>
      capture_count s' = capture_count s0 \<Longrightarrow> okw (f s') Q"
  shows "okw (patch_u8 s pos v \<bind> f) Q"
proof -
  have "has_code s0 (take pos c @ [c ! pos] @ drop (Suc pos) c) s" using c p by (simp add: Cons_nth_drop_Suc)
  from okw_ex [OF patch_u8_ok [OF this, of v]] obtain s' where
    s': "patch_u8 s pos v = Some s'" "has_code s0 (take pos c @ [v] @ drop (Suc pos) c) s'"
    using p by (auto simp: min_absorb2 less_imp_le)
  have "code_size s' = length c" using has_code_size [OF s'(2)] p by simp
  then show ?thesis using s' f has_code_sel(8) [OF s'(2)] by simp
qed

lemma fill_u32:
  assumes c: "has_code s0 c s" and p: "pos + 4 \<le> length c"
    and f: "\<And>s'. has_code s0 (take pos c @ u32_bytes v @ drop (pos + 4) c) s' \<Longrightarrow> code_size s' = length c \<Longrightarrow>
      capture_count s' = capture_count s0 \<Longrightarrow> okw (f s') Q"
  shows "okw (patch_u32 s pos v \<bind> f) Q"
proof -
  have "c = take pos c @ take 4 (drop pos c) @ drop (pos + 4) c"
    by (metis add.commute append_take_drop_id drop_drop)
  then have "has_code s0 (take pos c @ take 4 (drop pos c) @ drop (pos + 4) c) s" using c by simp
  from okw_ex [OF patch_u32_ok [OF this, of v]] obtain s' where
    s': "patch_u32 s pos v = Some s'" "has_code s0 (take pos c @ u32_bytes v @ drop (pos + 4) c) s'"
    using p by (auto simp: min_absorb2)
  have "code_size s' = length c" using has_code_size [OF s'(2)] p by simp
  then show ?thesis using s' f has_code_sel(8) [OF s'(2)] by simp
qed

lemma split_len: "length j = m + n \<Longrightarrow> \<exists>a b. j = a @ b \<and> length a = m \<and> length b = n"
  by (intro exI [of _ "take m j"] exI [of _ "drop m j"]) simp

lemma split_op_ok [simp]: "is_split (split_op g)"
  by (simp add: split_op_def is_split_def)

lemma rel_of_nat: "u32_bytes (of_nat n) = rel (int n)"
  by (simp add: rel_def)

lemma okw_insertI:
  assumes "has_code s0 (pre @ post) s" and "pos = length pre"
    and "\<And>j s'. length j = n \<Longrightarrow> has_code s0 (pre @ j @ post) s' \<Longrightarrow> okw (f (0, s')) Q"
  shows "okw (insert_code s pos n \<bind> f) Q"
  using okw_ex [OF insert_code_ok [OF assms(1), of n]] assms(2,3) by auto

text \<open>The shape of every result: the code after \<open>pre\<close> is again a fragment.\<close>

definition fragment_at :: "re_state \<Rightarrow> u8 list \<Rightarrow> int \<times> re_state \<Rightarrow> bool" where
  "fragment_at s0 pre rs \<longleftrightarrow> (case rs of (r, s') \<Rightarrow>
     r = 0 \<and> (\<exists>a. code (capture_count s0) a \<and> has_code s0 (pre @ a) s'))"


lemma emit_simple_greedy_ok:
  assumes c: "has_code s0 (pre @ a) s" and a: "simple k a" "0 < k"
  shows "okw (emit_simple_greedy s (length pre) qmin qmax (int k)) (fragment_at s0 pre)"
  unfolding emit_simple_greedy_def
proof (rule okw_bindI [OF re_emit_op_ok [OF c]], goal_cases)
  case (1 s1)
  then have c1: "has_code s0 (pre @ (a @ ins REOP_match [])) s1" by simp
  let ?q = "\<lambda>x. ins REOP_simple_greedy_quant x @ a @ ins REOP_match []"
  let ?x = "rel (int (length a) + 1) @ (u32_bytes (of_nat qmin) @ u32_bytes (of_nat qmax)) @ rel (int k)"
  have g: "code (capture_count s0) (ins REOP_simple_greedy_quant ?x @ a @ ins REOP_match [])"
    by (rule code_greedy [OF a]) simp
  show ?case
  proof (rule okw_insertI [OF c1 refl], goal_cases)
    case (1 j s2)
    obtain b j1 j2 j3 j4 where j: "j = b @ j1 @ j2 @ j3 @ j4" and
        l: "length b = 1" "length j1 = 4" "length j2 = 4" "length j3 = 4" "length j4 = 4"
      using 1(1) split_len [of j 1 16] split_len [of _ 4 12] split_len [of _ 4 8] split_len [of _ 4 4]
      by fastforce
    from 1(2) show ?case
      using g unfolding j
      apply (simp add: l)
      apply ((erule fill_u8 fill_u32, simp add: l, simp add: l)+)
      apply (auto simp: fragment_at_def ins_def rel_def ac_simps)
      done
  qed
qed

text \<open>The optional \<open>save_reset\<close> in front of an atom that may be skipped.\<close>

lemma save_reset_ok:
  assumes c: "has_code s0 (pre @ a) s" and cc: "capture_count s0 \<le> 255" "lcc < capture_count s0"
  shows "okw (do { (r, s) \<leftarrow> insert_code s (length pre) 3;
           if r \<noteq> 0 then Some (- 1, length pre, s)
           else do {
             s \<leftarrow> patch_u8 s (length pre) (reop_code REOP_save_reset);
             s \<leftarrow> patch_u8 s (length pre + 1) (of_nat lcc);
             s \<leftarrow> patch_u8 s (length pre + 2) (of_nat (capture_count s - 1));
             Some (0 :: int, length pre + 3, s)
           } }) (\<lambda>(r, st, s'). r = 0 \<and> (\<exists>x. code (capture_count s0) x \<and> st = length (pre @ x) \<and> has_code s0 ((pre @ x) @ a) s'))"
proof -
  have "unat (of_nat (capture_count s0 - 1) :: u8) < capture_count s0"
    using cc by (cases "capture_count s0") (simp_all add: unat_of_nat)
  then have g: "code (capture_count s0) (ins REOP_save_reset [of_nat lcc, of_nat (capture_count s0 - 1)])"
    by (rule code_base(5))
  show ?thesis
  proof (rule okw_insertI [OF c refl], goal_cases)
    case (1 j s2)
    obtain j1 j2 j3 where j: "j = [j1, j2, j3]" using 1(1) by (auto simp: numeral_eq_Suc length_Suc_conv)
    from 1(2) show ?case
      using g unfolding j
      apply simp
      apply ((erule fill_u8 fill_u32, simp, simp)+)
      apply (auto simp: ins_def has_code_sel intro!: exI [of _ "[_, _, _]"])
      done
  qed
qed

lemma insert_split_ok:
  assumes c: "has_code s0 (pre @ a) s" and f: "\<And>s'. has_code s0 (pre @ ins op (u32_bytes v) @ a) s' \<Longrightarrow> okw (f s') Q"
  shows "okw (do { (r, s) \<leftarrow> insert_code s (length pre) 5;
           if r \<noteq> 0 then re_parse_out_of_memory s
           else do {
             s \<leftarrow> patch_u8 s (length pre) (reop_code op);
             s \<leftarrow> patch_u32 s (length pre + 1) v;
             f s } }) Q"
proof (rule okw_insertI [OF c refl], goal_cases)
  case (1 j s2)
  obtain b j1 where j: "j = b @ j1" "length b = 1" "length j1 = 4" using 1(1) split_len [of j 1 4] by auto
  from 1(2) show ?case
    using f unfolding j
    apply (simp add: j)
    apply ((erule fill_u8 fill_u32, simp add: j, simp add: j)+)
    apply (auto simp: ins_def)
    done
qed

lemma insert_split_check_ok:
  assumes c: "has_code s0 (pre @ a) s"
    and f: "\<And>s'. has_code s0 (pre @ ins op (u32_bytes v) @ ins REOP_push_char_pos [] @ a) s' \<Longrightarrow> okw (f s') Q" and n: "n = 6" "p5 = length pre + 5"
  shows "okw (do { (r, s) \<leftarrow> insert_code s (length pre) n;
           if r \<noteq> 0 then re_parse_out_of_memory s
           else do {
             s \<leftarrow> patch_u8 s (length pre) (reop_code op);
             s \<leftarrow> patch_u32 s (length pre + 1) v;
             s \<leftarrow> patch_u8 s p5 (reop_code REOP_push_char_pos);
             f s } }) Q"
  unfolding n
proof (rule okw_insertI [OF c refl], goal_cases)
  case (1 j s2)
  obtain b j1 b2 where j: "j = b @ j1 @ b2" "length b = 1" "length j1 = 4" "length b2 = 1"
    using 1(1) split_len [of j 1 5] split_len [of _ 4 1] by fastforce
  from 1(2) show ?case
    using f unfolding j
    apply (simp add: j)
    apply ((erule fill_u8 fill_u32, simp add: j, simp add: j)+)
    apply (auto simp: ins_def)
    done
qed

lemma insert_counted_split_ok:
  assumes c: "has_code s0 (pre @ a) s"
    and f: "\<And>s'. has_code s0 (pre @ ins REOP_push_i32 (u32_bytes n) @ ins op (u32_bytes v) @ a) s' \<Longrightarrow> okw (f s') Q"
  shows "okw (do { (r, s) \<leftarrow> insert_code s (length pre) 10;
           if r \<noteq> 0 then re_parse_out_of_memory s
           else do {
             s \<leftarrow> patch_u8 s (length pre) (reop_code REOP_push_i32);
             s \<leftarrow> patch_u32 s (length pre + 1) n;
             s \<leftarrow> patch_u8 s (length pre + 5) (reop_code op);
             s \<leftarrow> patch_u32 s (length pre + 6) v;
             f s } }) Q"
proof (rule okw_insertI [OF c refl], goal_cases)
  case (1 j s2)
  obtain b j1 b2 j2 where j: "j = b @ j1 @ b2 @ j2" "length b = 1" "length j1 = 4" "length b2 = 1" "length j2 = 4"
    using 1(1) split_len [of j 1 9] split_len [of _ 4 5] split_len [of _ 1 4] by fastforce
  from 1(2) show ?case
    using f unfolding j
    apply (simp add: j)
    apply ((erule fill_u8 fill_u32, simp add: j, simp add: j)+)
    apply (auto simp: ins_def)
    done
qed

lemma fragment_atI:
  "has_code s0 c s' \<Longrightarrow> c = pre @ a \<Longrightarrow> code (capture_count s0) a \<Longrightarrow> fragment_at s0 pre (0, s')"
  by (auto simp: fragment_at_def)

text \<open>The four forms with \<open>quant_min = 0\<close>.\<close>

lemma rel_norm:
  "u32_bytes (of_nat n) = rel (int n)"
  "u32_bytes (of_nat n + numeral k) = rel (int n + numeral k)"
  by (simp_all add: rel_def)

lemma fragment_app:
  "code (capture_count s0) x \<Longrightarrow> has_code s0 (pre @ x @ a) b \<Longrightarrow> code (capture_count s0) a \<Longrightarrow>
   fragment_at s0 pre (0, b)"
  by (auto simp: fragment_at_def intro: code_app)

lemma emit_quant_min0_ok:
  assumes c: "has_code s0 (pre @ a) s" and a: "code (capture_count s0) a"
    and cc: "capture_count s0 \<le> 255" "lcc \<le> capture_count s0" "1 \<le> capture_count s0"
  shows "okw (emit_quant_min0 s (length pre) (length a) qmax greedy adv lcc) (fragment_at s0 pre)"
  unfolding emit_quant_min0_def
proof (rule okw_bindI [where P = "\<lambda>(r, st, s'). r = 0 \<and> (\<exists>x. code (capture_count s0) x \<and> st = length (pre @ x) \<and>
    has_code s0 ((pre @ x) @ a) s')"], goal_cases)
  case 1
  then show ?case
    using save_reset_ok [OF c cc(1), of lcc] cc(2) c
    by (auto simp: has_code_sel intro!: exI [of _ "[]"])
next
  case (2 z)
  then obtain x s1 where z: "z = (0, length (pre @ x), s1)" and x: "code (capture_count s0) x"
      and c1: "has_code s0 ((pre @ x) @ a) s1" by auto
  have ne: "(INT32_MAX = 0) = False" "(INT32_MAX = 1) = False" by simp_all
  consider "qmax = 0" | "qmax = 1" | "qmax = INT32_MAX" "adv" | "qmax = INT32_MAX" "\<not> adv"
    | "qmax \<noteq> 0" "qmax \<noteq> 1" "qmax \<noteq> INT32_MAX" by blast
  then show ?case
  proof cases
    case 1
    have "has_code s0 (pre @ x) (s1\<lparr>byte_code := (byte_code s1)\<lparr>dsize := length (pre @ x)\<rparr>\<rparr>)"
      by (rule truncate_ok [OF c1])
    then show ?thesis
      using 1 x by (simp add: z) (auto simp: fragment_at_def)
  next
    case 2
    show ?thesis
      unfolding z prod.case 2
      apply (simp only: simp_thms if_False if_True one_neq_zero not_False_eq_True)
      apply (rule insert_split_ok [OF c1])
      using code_quant(2) [OF a split_op_ok, of greedy]
      apply (auto simp: rel_norm intro: fragment_app [OF x])
      done
  next
    case 3
    show ?thesis
      unfolding z prod.case 3
      apply (simp only: simp_thms if_False if_True not_False_eq_True ne 3)
      apply (rule insert_split_check_ok [OF c1])
        apply (rule okw_bindI [OF re_emit_goto_ok], assumption)
      using code_quant(4) [OF a split_op_ok, of greedy]
        apply (auto simp: ac_simps minus_diff_commute rel_norm intro: fragment_app [OF x])
      done
  next
    case 4
    show ?thesis
      unfolding z prod.case 4
      apply (simp only: simp_thms if_False if_True not_False_eq_True ne 4 of_bool_eq add_0_right)
      apply (rule insert_split_ok [OF c1])
      apply (rule okw_bindI [OF re_emit_goto_ok], assumption)
      using code_quant(3) [OF a split_op_ok, of greedy]
      apply (auto simp: ac_simps minus_diff_commute rel_norm intro: fragment_app [OF x])
      done
  next
    case 5
    show ?thesis
      unfolding z prod.case
      apply (simp only: simp_thms if_False if_True not_False_eq_True 5)
      apply (rule insert_counted_split_ok [OF c1])
      apply (rule okw_bindI [OF re_emit_goto_ok], assumption)
      apply clarsimp
      apply (rule okw_bindI [OF re_emit_op_ok], assumption)
      using code_quant(7) [OF a _ split_op_ok, of "u32_bytes (of_nat qmax)" greedy]
      apply (auto simp: ac_simps minus_diff_commute rel_norm intro: fragment_app [OF x])
      done
  qed
qed

text \<open>With \<open>quant_min > 0\<close> the atom is repeated in place and its code copied for the rest.\<close>

lemma repeat_ok:
  assumes c: "has_code s0 (pre @ a) s" and a: "code (capture_count s0) a"
  shows "okw (do { (r, s) \<leftarrow> insert_code s (length pre) 5;
           if r \<noteq> 0 then Some (- 1 :: int, length pre, s)
           else do {
             s \<leftarrow> patch_u8 s (length pre) (reop_code REOP_push_i32);
             s \<leftarrow> patch_u32 s (length pre + 1) n;
             let start = length pre + 5;
             (_, s) \<leftarrow> re_emit_goto s REOP_loop start;
             s \<leftarrow> re_emit_op s REOP_drop;
             Some (0, start, s)
           } }) (\<lambda>(r, st, s'). r = 0 \<and> (\<exists>u v. st = length (pre @ u) \<and> code (capture_count s0) (u @ a @ v) \<and>
             has_code s0 ((pre @ u) @ a @ v) s'))"
proof (rule okw_insertI [OF c refl], goal_cases)
  case (1 j s2)
  obtain b j1 where j: "j = b @ j1" "length b = 1" "length j1 = 4" using 1(1) split_len [of j 1 4] by auto
  let ?u = "ins REOP_push_i32 (u32_bytes n)" and ?v = "ins REOP_loop (rel (- int (length a) - 5)) @ ins REOP_drop []"
  have g: "code (capture_count s0) (?u @ a @ ?v)" by (rule code_quant(6) [OF a]) simp
  have e: "has_code s0 (pre @ ?u @ a @ ?v) s' \<Longrightarrow> \<exists>u v. length pre + 5 = length (pre @ u) \<and>
      code (capture_count s0) (u @ a @ v) \<and> has_code s0 ((pre @ u) @ a @ v) s'" for s'
    using g by (intro exI [of _ ?u] exI [of _ ?v]) simp
  from 1(2) show ?case
    unfolding j
    apply (simp add: j)
    apply ((erule fill_u8 fill_u32, simp add: j, simp add: j)+)
    apply (simp only: Let_def)
    apply (rule okw_bindI [OF re_emit_goto_ok], assumption)
    apply clarsimp
    apply (rule okw_bindI [OF re_emit_op_ok], assumption)
    using e
    apply (auto simp: ac_simps minus_diff_commute ins_def)
    done
qed

lemma emit_quant_min1_ok:
  assumes c: "has_code s0 (pre @ a) s" and a: "code (capture_count s0) a"
  shows "okw (emit_quant_min1 s (length pre) (length a) qmin qmax greedy adv) (fragment_at s0 pre)"
  unfolding emit_quant_min1_def
proof (rule okw_bindI [where P = "\<lambda>(r, st, s'). r = 0 \<and> (\<exists>u v. st = length (pre @ u) \<and>
    code (capture_count s0) (u @ a @ v) \<and> has_code s0 ((pre @ u) @ a @ v) s')"], goal_cases)
  case 1
  then show ?case
    using repeat_ok [OF c a] c a by (auto intro!: exI [of _ "[]"])
next
  case (2 z)
  then obtain u v s1 where z: "z = (0, length (pre @ u), s1)" and x: "code (capture_count s0) (u @ a @ v)"
      and c1: "has_code s0 ((pre @ u) @ a @ v) s1" by auto
  have cp: "okw (copy_code s (length (pre @ u)) (length a) \<bind> f) Q"
    if "has_code s0 (pre @ (u @ a @ v) @ w) s"
      "\<And>s'. has_code s0 (pre @ (u @ a @ v) @ (w @ a)) s' \<Longrightarrow> okw (f s') Q" for s w f Q
  proof (rule okw_bindI)
    show "okw (copy_code s (length (pre @ u)) (length a)) (has_code s0 (pre @ (u @ a @ v) @ (w @ a)))"
      using copy_code_ok [of s0 "pre @ u" a "v @ w" s] that(1) by simp
  qed (rule that(2))
  have c2: "has_code s0 (pre @ (u @ a @ v)) s1" using c1 by simp
  have sz: "code_size s1 = length pre + length u + length a + length v" using has_code_size [OF c2] by simp
  note frag = fragment_app [OF x, unfolded append_assoc]
  consider "qmax = INT32_MAX" adv | "qmax = INT32_MAX" "\<not> adv" | "qmax \<noteq> INT32_MAX" "qmax > qmin"
    | "qmax \<noteq> INT32_MAX" "\<not> qmax > qmin" by blast
  then show ?case
  proof cases
    case 1
    show ?thesis
      unfolding z prod.case 1
      apply (simp only: simp_thms if_False if_True not_False_eq_True 1 Let_def)
      apply (rule okw_bindI [OF re_emit_op_u32_ok [OF c2]])
      apply clarsimp
      apply (rule okw_bindI [OF re_emit_op_ok], assumption)
      apply (rule cp [simplified], simp)
      apply (rule okw_bindI [OF re_emit_goto_ok], assumption)
      using code_quant(4) [OF a split_op_ok, of greedy]
      apply (auto simp: sz ac_simps minus_diff_commute rel_norm intro: frag)
      done
  next
    case 2
    show ?thesis
      unfolding z prod.case 2
      apply (simp only: simp_thms if_False if_True not_False_eq_True 2 Let_def of_bool_eq add_0_right Option.bind.bind_lunit)
      apply (rule okw_bindI [OF re_emit_op_u32_ok [OF c2]])
      apply clarsimp
      apply (rule cp [simplified], simp)
      apply (rule okw_bindI [OF re_emit_goto_ok], assumption)
      using code_quant(3) [OF a split_op_ok, of greedy]
      apply (auto simp: sz ac_simps minus_diff_commute rel_norm intro: frag)
      done
  next
    case 3
    show ?thesis
      unfolding z prod.case
      apply (simp only: simp_thms if_False if_True not_False_eq_True 3 Let_def)
      apply (rule okw_bindI [OF re_emit_op_u32_ok [OF c2]])
      apply clarsimp
      apply (rule okw_bindI [OF re_emit_op_u32_ok], assumption)
      apply clarsimp
      apply (rule cp [simplified], simp)
      apply (rule okw_bindI [OF re_emit_goto_ok], assumption)
      apply (clarsimp simp: has_code_size)
      apply (rule okw_bindI [OF re_emit_op_ok], assumption)
      using code_quant(7) [OF a _ split_op_ok, of "u32_bytes (of_nat (qmax - qmin))" greedy]
      apply (auto simp: sz ac_simps minus_diff_commute rel_norm intro: frag)
      done
  next
    case 4
    then show ?thesis using c2 x by (auto simp: z fragment_at_def)
  qed
qed

lemma emit_quantifier_ok:
  assumes c: "has_code s0 (pre @ a) s" and a: "code (capture_count s0) a"
    and cc: "capture_count s0 \<le> 255" "lcc \<le> capture_count s0" "1 \<le> capture_count s0"
  shows "okw (emit_quantifier s (length pre) qmin qmax greedy lcc) (fragment_at s0 pre)"
proof -
  obtain n where n: "frag (capture_count s0) n a" using a by (auto simp: code_def)
  have len: "code_size s - length pre = length a" using has_code_size [OF c] by simp
  have goto: "okw (re_emit_goto s (if greedy then REOP_split_goto_first else REOP_split_next_first) (length pre) \<bind>
      (\<lambda>(_, s). Some (0, s))) (fragment_at s0 pre)"
    apply (rule okw_bindI [OF re_emit_goto_ok [OF c]])
    using code_quant(5) [OF a, of "if greedy then REOP_split_goto_first else REOP_split_next_first"]
    apply (cases greedy; auto simp: is_split_def ac_simps minus_diff_commute fragment_at_def)
    done
  have rest: "okw (do {
         let len = code_size s - length pre;
         if qmin = 0 then emit_quant_min0 s (length pre) len qmax greedy adv lcc
         else if qmin = 1 \<and> qmax = INT32_MAX \<and> \<not> adv then do {
           (_, s) \<leftarrow> re_emit_goto s (if greedy then REOP_split_goto_first else REOP_split_next_first) (length pre);
           Some (0, s)
         }
         else emit_quant_min1 s (length pre) len qmin qmax greedy adv }) (fragment_at s0 pre)" for adv
    using goto emit_quant_min0_ok [OF c a cc] emit_quant_min1_ok [OF c a] by (cases greedy) (simp_all add: len Let_def)
  obtain k where k: "re_is_simple_quantifier a = Some k" "0 < k \<Longrightarrow> simple (nat k) a"
    using re_is_simple_quantifier_code [OF a] by blast
  obtain r where r: "re_check_advance a = Some r" using re_check_advance_code [OF a cc(1)] by blast
  note d = has_code_derror [OF c] and sl = code_slice_ok [OF c]
  have greedy_rest: "okw (do {
         adv \<leftarrow> (if greedy then do { x \<leftarrow> re_check_advance a; Some (x = 0) } else Some False);
         let len = code_size s - length pre;
         if qmin = 0 then emit_quant_min0 s (length pre) len qmax greedy adv lcc
         else if qmin = 1 \<and> qmax = INT32_MAX \<and> \<not> adv then do {
           (_, s) \<leftarrow> re_emit_goto s (if greedy then REOP_split_goto_first else REOP_split_next_first) (length pre);
           Some (0, s)
         }
         else emit_quant_min1 s (length pre) len qmin qmax greedy adv }) (fragment_at s0 pre)"
    using rest by (cases greedy) (simp_all only: r if_True if_False Option.bind.bind_lunit)
  show ?thesis
  proof (cases "greedy \<and> 0 < qmax \<and> 0 < k")
    case True
    have "emit_quantifier s (length pre) qmin qmax greedy lcc = emit_simple_greedy s (length pre) qmin qmax k"
      using True d by (simp add: emit_quantifier_def sl k(1))
    then show ?thesis
      using emit_simple_greedy_ok [OF c k(2), of qmin qmax] True by simp
  next
    case False
    then show ?thesis
      using greedy_rest d
      by (cases greedy) (auto simp: emit_quantifier_def sl k(1) cong: if_cong)
  qed
qed

text \<open>The reversal of terms for lookbehind moves one fragment in front of another.\<close>

lemma rotate_term_ok:
  assumes c: "has_code s0 (pre @ a @ t) s"
  shows "okw (rotate_term s (length pre) (length pre + length a)) (\<lambda>(r, s'). r = 0 \<and> has_code s0 (pre @ t @ a) s')"
proof -
  obtain b where b: "s = s0\<lparr>byte_code := b\<rparr>" "good b" "contents b = pre @ a @ t"
    using c by (auto simp: has_code_def)
  have sz: "dsize b = length pre + length a + length t" using buf_split [OF b(2,3)] by auto
  let ?n = "dsize b + length t"
  obtain r b1 where r: "dbuf_realloc b ?n = Some (r, b1)" "dbuf_post b (contents b) (r, b1)"
      "dsize b1 = dsize b" "r = 0 \<longrightarrow> ?n \<le> length (buf b1)"
    using okw_ex [OF dbuf_realloc_post [of b ?n]] b(2) by (auto simp: good_def)
  have live: "r = 0" "dbuf_live b1" using dbuf_realloc_live [OF _ r(1)] b(2) by (auto simp: good_def)
  then have g: "good b1" "contents b1 = pre @ a @ t" using r(2) b(3) by (auto simp: dbuf_post_def good_def)
  then obtain w where w: "buf b1 = pre @ a @ t @ w" using buf_split by blast
  have lw: "length t \<le> length w" using r(3,4) live sz w by simp
  let ?m = "pre @ t @ a @ t @ drop (length t) w"
  have m1: "mem_read (buf b1) (length pre) (length a + length t) = Some (a @ t)"
    by (simp add: mem_read_def w)
  have "\<exists>x. take (length pre + length t) (buf b1) = pre @ x \<and> length x = length t"
    by (intro exI [of _ "take (length t) (a @ t @ w)"]) (simp add: w)
  then obtain x where x: "take (length pre + length t) (buf b1) = pre @ x" "length x = length t" by blast
  have m2: "mem_write (buf b1) (length pre + length t) (a @ t) = Some (pre @ x @ a @ t @ drop (length t) w)"
    using lw x(1) by (simp add: mem_write_def w)
  have m3: "mem_read (pre @ x @ a @ t @ drop (length t) w) (length pre + length a + length t) (length t) = Some t"
    using x(2) by (simp add: mem_read_def)
  have m4: "mem_write (pre @ x @ a @ t @ drop (length t) w) (length pre) t = Some ?m"
    using x(2) by (simp add: mem_write_def)
  have "good (b1\<lparr>buf := ?m\<rparr>)" "contents (b1\<lparr>buf := ?m\<rparr>) = pre @ t @ a"
    using g(1) r(3) sz by (auto simp: good_def dbuf_wf_def dbuf_live_def contents_def)
  then show ?thesis
    using r(1) live(1) sz m1 m2 m3 m4 b(1)
    by (auto simp: rotate_term_def has_code_def Let_def ac_simps)
qed

end
