(* ===== verification/Re_Class_Safe.thy ===== *)
theory Re_Class_Safe
  imports Re_Lex_Safe Re_Emit_Safe
begin

text \<open>
  The state of the compiler between two terms, and the parts of the compiler that read the pattern
  without recursion: error messages, property escapes, class atoms, bracketed classes, the passes
  that count captures and the search for a group name. Each stays inside its blocks and either
  reports an error or advances.
\<close>

section \<open>The state\<close>

text \<open>The buffer for messages and names always ends with a zero.\<close>

definition u_ok :: "u8 list \<Rightarrow> bool" where
  "u_ok u \<longleftrightarrow> length u = TMP_BUF_SIZE \<and> u ! (TMP_BUF_SIZE - 1) = 0"

text \<open>What the compiler relies on in the functions that are driven by the Unicode tables: on
  success the range is canonical, and a name that is not found leaves the range alone.\<close>

definition lookup_ok :: "char_range \<Rightarrow> int \<times> char_range \<Rightarrow> bool" where
  "lookup_ok cr rc \<longleftrightarrow> (case rc of (r, cr') \<Rightarrow>
     r \<in> {0, - 1, - 2} \<and> (r = 0 \<longrightarrow> cr_canon cr' \<and> cr_realloc_func cr' = cr_realloc_func cr) \<and>
     (r = - 2 \<longrightarrow> cr' = cr))"

definition unicode_ok :: "unicode_db \<Rightarrow> bool" where
  "unicode_ok U \<longleftrightarrow> (\<forall>cr name ext. cr_canon cr \<and> never_fails (cr_realloc_func cr) \<longrightarrow>
     lookup_ok cr (unicode_script U cr name ext) \<and> lookup_ok cr (unicode_general_category U cr name) \<and>
     lookup_ok cr (unicode_prop U cr name))"

text \<open>The names of the groups so far, one zero-terminated name for each.\<close>

definition names_ok :: "dynbuf \<Rightarrow> nat \<Rightarrow> bool" where
  "names_ok g k \<longleftrightarrow> good g \<and> (\<exists>ns. contents g = concat (map (\<lambda>n. n @ [0]) ns) \<and>
     (\<forall>n \<in> set ns. 0 \<notin> set n) \<and> length ns = k)"

definition env_ok :: "re_state \<Rightarrow> bool" where
  "env_ok s \<longleftrightarrow> zpat (pat s) (buf_end s) \<and> u_ok (u_buf s) \<and> allocator (cr_mem s) \<and>
     never_fails (cr_mem s) \<and> unicode_ok (unicode s)"

definition state_ok :: "re_state \<Rightarrow> bool" where
  "state_ok s \<longleftrightarrow> env_ok s \<and> buf_ptr s \<le> buf_end s \<and> good (byte_code s) \<and>
     1 \<le> capture_count s \<and> capture_count s \<le> 255 \<and> total_capture_count s \<le> 255 \<and>
     names_ok (group_names s) (capture_count s - 1)"

section \<open>Messages\<close>

definition usame :: "re_state \<Rightarrow> re_state \<Rightarrow> bool" where
  "usame s s' \<longleftrightarrow> (\<exists>u. u_ok u \<and> s' = s\<lparr>u_buf := u\<rparr>)"

lemma usame_refl: "u_ok (u_buf s) \<Longrightarrow> usame s s"
  by (auto simp: usame_def intro!: exI [of _ "u_buf s"])

lemma usame_trans: "usame s s' \<Longrightarrow> usame s' s'' \<Longrightarrow> usame s s''"
  by (auto simp: usame_def)

lemma usame_u_ok: "usame s s' \<Longrightarrow> u_ok (u_buf s')"
  by (auto simp: usame_def)

lemma usame_sel:
  assumes "usame s s'"
  shows "buf_ptr s' = buf_ptr s" "buf_end s' = buf_end s" "pat s' = pat s" "is_utf16 s' = is_utf16 s"
    "ignore_case s' = ignore_case s" "capture_count s' = capture_count s" "byte_code s' = byte_code s"
    "cr_mem s' = cr_mem s" "unicode s' = unicode s" "group_names s' = group_names s"
    "total_capture_count s' = total_capture_count s" "dotall s' = dotall s"
  using assms by (auto simp: usame_def)

lemma usame_env: "usame s s' \<Longrightarrow> env_ok s \<Longrightarrow> env_ok s'"
  by (auto simp: usame_def env_ok_def)

lemma usame_state: "usame s s' \<Longrightarrow> state_ok s \<Longrightarrow> state_ok s'"
  by (auto simp: usame_def env_ok_def state_ok_def)

lemma env_okD:
  "env_ok s \<Longrightarrow> zpat (pat s) (buf_end s)" "env_ok s \<Longrightarrow> u_ok (u_buf s)" "env_ok s \<Longrightarrow> allocator (cr_mem s)"
  "env_ok s \<Longrightarrow> never_fails (cr_mem s)" "env_ok s \<Longrightarrow> unicode_ok (unicode s)"
  by (simp_all add: env_ok_def)

lemma u_ok_write:
  assumes "u_ok u" and "length d \<le> 127 \<or> length d = 128 \<and> d ! 127 = 0"
  shows "okw (mem_write u 0 d) u_ok"
  using assms by (auto simp: u_ok_def nth_append wp)

lemma re_parse_error_ok: "u_ok (u_buf s) \<Longrightarrow> okw (re_parse_error s msg) (\<lambda>(r, s'). r = - 1 \<and> usame s s')"
  using okw_ex [OF u_ok_write [of "u_buf s" "take 127 (str_bytes msg) @ [0]"]]
  by (fastforce simp: re_parse_error_def usame_def nth_append)

lemma re_parse_error_ex: "u_ok (u_buf s) \<Longrightarrow> \<exists>s'. re_parse_error s msg = Some (- 1, s') \<and> usame s s'"
  using okw_ex [OF re_parse_error_ok] by fastforce

lemma re_parse_out_of_memory_ok: "u_ok (u_buf s) \<Longrightarrow> okw (re_parse_out_of_memory s) (\<lambda>(r, s'). r = - 1 \<and> usame s s')"
  unfolding re_parse_out_of_memory_def by (rule re_parse_error_ok)

lemma okw_errorI:
  assumes "u_ok (u_buf s)" and "\<And>s'. usame s s' \<Longrightarrow> okw (f (- 1, s')) Q"
  shows "okw (re_parse_error s msg \<bind> f) Q"
  using okw_ex [OF re_parse_error_ok [OF assms(1), of msg]] assms(2) by auto

lemma okw_oomI:
  assumes "u_ok (u_buf s)" and "\<And>s'. usame s s' \<Longrightarrow> okw (f (- 1, s')) Q"
  shows "okw (re_parse_out_of_memory s \<bind> f) Q"
  unfolding re_parse_out_of_memory_def by (rule okw_errorI [OF assms(1)]) (rule assms(2))

lemma zrd:
  "env_ok s \<Longrightarrow> p \<le> buf_end s \<Longrightarrow> rd (pat s) p = Some (pat s ! p)"
  by (auto simp: env_ok_def intro: zpat_rd)

lemma znext: "env_ok s \<Longrightarrow> p \<le> buf_end s \<Longrightarrow> pat s ! p \<noteq> 0 \<Longrightarrow> Suc p \<le> buf_end s"
  by (auto simp: env_ok_def intro: zpat_next)

lemma re_parse_expect_ok:
  assumes e: "env_ok s" and p: "p \<le> buf_end s" and c: "of_char c \<noteq> (0 :: u8)"
  shows "okw (re_parse_expect s p c) (\<lambda>(r, q, s'). r \<noteq> 0 \<and> u_ok (u_buf s') \<or> r = 0 \<and> s' = s \<and> q = Suc p \<and> q \<le> buf_end s)"
proof (cases "pat s ! p = of_char c")
  case True
  then show ?thesis using znext [OF e p] c zrd [OF e p] by (simp add: re_parse_expect_def)
next
  case False
  then show ?thesis
    unfolding re_parse_expect_def zrd [OF e p]
    by (auto intro!: okw_errorI dest: usame_u_ok simp: env_okD(2) [OF e])
qed

section \<open>Property escapes\<close>

definition cr_good :: "re_state \<Rightarrow> char_range \<Rightarrow> bool" where
  "cr_good s cr \<longleftrightarrow> cr_canon cr \<and> cr_realloc_func cr = cr_mem s"

lemma cr_good_init: "env_ok s \<Longrightarrow> cr_good s (cr_init (cr_mem s))"
  by (simp add: cr_good_def cr_canon_def cr_wf_def cr_init_def cr_pts_def pts_canon_def env_ok_def)

lemma lookup_res:
  "lookup_ok cr rc \<Longrightarrow> cr_good s cr \<Longrightarrow> \<exists>r cr'. rc = (r, cr') \<and> (r = 0 \<or> r = - 1 \<or> r = - 2) \<and>
     (r = 0 \<longrightarrow> cr_good s cr') \<and> (r = - 2 \<longrightarrow> cr' = cr)"
  by (cases rc) (auto simp: lookup_ok_def cr_good_def)

lemma unicode_property_lookup_ok:
  assumes e: "env_ok s"
  shows "okw (unicode_property_lookup s name value) (\<lambda>(r, cr, s'). usame s s' \<and> (r = 0 \<longrightarrow> cr_good s cr))"
proof -
  let ?cr = "cr_init (cr_mem s)"
  note u = env_okD(2) [OF e]
  have c: "cr_good s ?cr" by (rule cr_good_init [OF e])
  have l: "lookup_ok ?cr (unicode_script (unicode s) ?cr n x)"
    "lookup_ok ?cr (unicode_general_category (unicode s) ?cr n)" "lookup_ok ?cr (unicode_prop (unicode s) ?cr n)" for n x
    using env_okD(4,5) [OF e] c by (auto simp: unicode_ok_def cr_good_def)
  obtain r1 c1 where 1: "unicode_script (unicode s) ?cr value
      (name = str_bytes ''Script_Extensions'' \<or> name = str_bytes ''scx'') = (r1, c1)" "r1 = 0 \<Longrightarrow> cr_good s c1"
    using lookup_res [OF l(1) c] by blast
  obtain r2 c2 where 2: "unicode_general_category (unicode s) ?cr value = (r2, c2)" "r2 = 0 \<Longrightarrow> cr_good s c2"
    using lookup_res [OF l(2) c] by blast
  obtain r3 c3 where 3: "unicode_general_category (unicode s) ?cr name = (r3, c3)" "r3 = 0 \<or> r3 = - 1 \<or> r3 = - 2"
      "r3 = 0 \<Longrightarrow> cr_good s c3" "r3 = - 2 \<Longrightarrow> c3 = ?cr"
    using lookup_res [OF l(2) c] by blast
  obtain r4 c4 where 4: "unicode_prop (unicode s) ?cr name = (r4, c4)" "r4 = 0 \<Longrightarrow> cr_good s c4"
    using lookup_res [OF l(3) c] by blast
  obtain s1 where s1: "usame s s1" "re_parse_error s ''unknown unicode script'' = Some (- 1, s1)"
    using okw_ex [OF re_parse_error_ok [OF u]] by fastforce
  obtain s2 where s2: "usame s s2" "re_parse_error s ''unknown unicode general category'' = Some (- 1, s2)"
    using okw_ex [OF re_parse_error_ok [OF u]] by fastforce
  obtain s3 where s3: "usame s s3" "re_parse_error s ''unknown unicode property name'' = Some (- 1, s3)"
    using okw_ex [OF re_parse_error_ok [OF u]] by fastforce
  obtain s4 where s4: "usame s s4" "re_parse_out_of_memory s = Some (- 1, s4)"
    using okw_ex [OF re_parse_out_of_memory_ok [OF u]] by fastforce
  define P where "P \<longleftrightarrow> name = str_bytes ''Script'' \<or> name = str_bytes ''sc'' \<or>
        name = str_bytes ''Script_Extensions'' \<or> name = str_bytes ''scx''"
  define G where "G \<longleftrightarrow> name = str_bytes ''General_Category'' \<or> name = str_bytes ''gc''"
  consider P | "\<not> P" G | "\<not> P" "\<not> G" "value = []" | "\<not> P" "\<not> G" "value \<noteq> []" by blast
  then show ?thesis
  proof cases
    case 1
    then show ?thesis
      unfolding unicode_property_lookup_def P_def [symmetric] G_def [symmetric] Let_def
      by (simp only: if_True if_False \<open>unicode_script (unicode s) ?cr value _ = _\<close> prod.case s1(2) s4(2))
        (use \<open>r1 = 0 \<Longrightarrow> _\<close> s1(1) s4(1) usame_refl [OF u] in auto)
  next
    case 2
    then show ?thesis
      unfolding unicode_property_lookup_def P_def [symmetric] G_def [symmetric] Let_def
      by (simp only: if_True if_False \<open>unicode_general_category (unicode s) ?cr value = _\<close> prod.case s2(2) s4(2))
        (use \<open>r2 = 0 \<Longrightarrow> _\<close> s2(1) s4(1) usame_refl [OF u] in auto)
  next
    case 3
    have g: "unicode_general_category (unicode s) ?cr name = (r3, c3)" by fact
    have p: "r3 = - 2 \<Longrightarrow> unicode_prop (unicode s) c3 name = (r4, c4)"
      using \<open>r3 = - 2 \<Longrightarrow> c3 = ?cr\<close> \<open>unicode_prop (unicode s) ?cr name = _\<close> by simp
    show ?thesis
      using \<open>r3 = 0 \<or> r3 = - 1 \<or> r3 = - 2\<close>
    proof (elim disjE)
      assume "r3 = - 2"
      then show ?thesis
        unfolding unicode_property_lookup_def P_def [symmetric] G_def [symmetric] Let_def
        by (simp only: 3 if_True if_False g p prod.case s3(2) s4(2))
          (use \<open>r4 = 0 \<Longrightarrow> _\<close> s3(1) s4(1) usame_refl [OF u] in auto)
    qed (unfold unicode_property_lookup_def P_def [symmetric] G_def [symmetric] Let_def,
        (simp only: 3 if_True if_False g prod.case s3(2) s4(2),
        use \<open>r3 = 0 \<Longrightarrow> _\<close> s3(1) s4(1) usame_refl [OF u] in auto)+)
  next
    case 4
    show ?thesis
      unfolding unicode_property_lookup_def P_def [symmetric] G_def [symmetric] Let_def
      by (simp only: 4 if_True if_False s3(2)) (use s3(1) in auto)
  qed
qed

text \<open>A function that reads the pattern from \<open>p\<close> on reports an error or ends behind it.\<close>

abbreviation error_or :: "re_state \<Rightarrow> re_state \<Rightarrow> int \<Rightarrow> bool \<Rightarrow> bool" where
  "error_or s s' r P \<equiv> usame s s' \<and> (r = 0 \<longrightarrow> P)"

lemma cr_invert_good:
  assumes "cr_good s cr" and "env_ok s"
  shows "okw (cr_invert cr) (\<lambda>(r, cr'). r = 0 \<and> cr_good s cr')"
  by (rule okw_mono [OF cr_invert_post]) (use assms in \<open>auto simp: cr_good_def cr_result_def cr_canon_def env_ok_def\<close>)

lemma parse_unicode_property_ok:
  assumes e: "env_ok s" and p: "p0 \<le> buf_end s"
  shows "okw (parse_unicode_property s p0 is_inv) (\<lambda>(r, q, cr, s'). error_or s s' r (p0 < q \<and> q \<le> buf_end s \<and> cr_good s cr))"
proof (cases "pat s ! p0 = 0x7b")
  case False
  then show ?thesis
    unfolding parse_unicode_property_def zrd [OF e p]
    by (auto intro!: okw_errorI simp: env_okD(2) [OF e])
next
  case True
  note z = env_okD(1) [OF e] and u = env_okD(2) [OF e]
  have n: "Suc p0 \<le> buf_end s" using znext [OF e p] True by simp
  show ?thesis
    unfolding parse_unicode_property_def zrd [OF e p] True Let_def Option.bind.bind_lunit
    apply (simp only: simp_thms if_False Suc_eq_plus1 [symmetric])
  proof (rule okw_bindI [OF prop_name_ok [OF z n]], goal_cases)
    case (1 nm)
    show ?case
    proof (cases nm)
      case (Inl a)
      then show ?thesis by (auto intro!: okw_errorI simp: u)
    next
      case (Inr b)
      obtain name q where nm: "nm = Inr (name, q)" and q: "Suc p0 \<le> q" "q \<le> buf_end s"
        using 1 Inr by (cases b) auto
      have v: "okw (if pat s ! q = 0x3d then prop_name (pat s) (Suc q) [] else Some (Inr ([], q)))
        (\<lambda>r. case r of Inl _ \<Rightarrow> True | Inr (nm, q') \<Rightarrow> q \<le> q' \<and> q' \<le> buf_end s)"
      proof (cases "pat s ! q = 0x3d")
        case True
        then have "Suc q \<le> buf_end s" using znext [OF e q(2)] by simp
        from okw_mono [OF prop_name_ok [OF z this, of "[]"]] show ?thesis
          using True by (simp split: sum.splits prod.splits)
      qed (use q in auto)
      show ?thesis
        unfolding nm sum.case prod.case zrd [OF e q(2)] Option.bind.bind_lunit
      proof (rule okw_bindI [OF v], goal_cases)
        case (1 vl)
        show ?case
        proof (cases vl)
          case (Inl a)
          then show ?thesis by (auto intro!: okw_errorI simp: u)
        next
          case (Inr b)
          obtain val t where vl: "vl = Inr (val, t)" and t: "q \<le> t" "t \<le> buf_end s"
            using 1 Inr by (cases b) auto
          show ?thesis
          proof (cases "pat s ! t = 0x7d")
            case False
            then show ?thesis
              unfolding vl sum.case prod.case zrd [OF e t(2)] Option.bind.bind_lunit
              by (auto intro!: okw_errorI simp: u)
          next
            case True
            have tn: "Suc t \<le> buf_end s" using znext [OF e t(2)] True by simp
            obtain r cr s1 where l: "unicode_property_lookup s name val = Some (r, cr, s1)"
                "usame s s1" "r = 0 \<Longrightarrow> cr_good s cr"
              using okw_ex [OF unicode_property_lookup_ok [OF e]] by fastforce
            have "\<exists>cr'. cr_invert cr = Some (0, cr') \<and> cr_good s cr'" if "r = 0"
              using okw_ex [OF cr_invert_good [OF l(3) e]] that by fastforce
            then show ?thesis
              unfolding vl sum.case prod.case zrd [OF e t(2)] Option.bind.bind_lunit True
              using l q t tn by auto
          qed
        qed
      qed
    qed
  qed
qed

section \<open>Class atoms\<close>

definition atom_ok :: "re_state \<Rightarrow> nat \<Rightarrow> int \<times> nat \<times> char_range option \<times> re_state \<Rightarrow> bool" where
  "atom_ok s p0 z \<longleftrightarrow> (case z of (r, q, cr, s') \<Rightarrow> usame s s' \<and> (r < 0 \<or> p0 < q \<and> q \<le> buf_end s \<and>
     (0 \<le> r \<and> r < 0x4000000 \<or> r = CLASS_RANGE_BASE \<and> (\<exists>c. cr = Some c \<and> cr_good s c))))"

lemma atom_ok_usame: "usame s s1 \<Longrightarrow> atom_ok s1 p z \<Longrightarrow> atom_ok s p z"
  by (auto simp: atom_ok_def cr_good_def usame_sel dest: usame_trans)

lemma class_normal_char_ok:
  assumes e: "env_ok s" and p: "p0 \<le> p" "p \<le> buf_end s" and c: "c = pat s ! p" "c = 0 \<Longrightarrow> p < buf_end s"
  shows "okw (class_normal_char s cr p0 p c) (atom_ok s p0)"
proof (cases "c \<ge> 128")
  case False
  have "Suc p \<le> buf_end s" using c znext [OF e p(2)] by (cases "c = 0") auto
  moreover have "uint c < 128" using False by (simp add: word_le_def)
  ultimately show ?thesis
    using False p usame_refl [OF env_okD(2) [OF e]] by (simp add: class_normal_char_def atom_ok_def)
next
  case True
  obtain x q where x: "unicode_from_utf8 (pat s) p 6 = Some (x, q)"
      "x = - 1 \<and> q = p \<or> 0 \<le> x \<and> x < 0x4000000 \<and> p < q \<and> q \<le> buf_end s"
    using okw_ex [OF unicode_from_utf8_ok [OF env_okD(1) [OF e] p(2)]] True c(1) by fastforce
  obtain s1 where s1: "re_parse_error s ''malformed unicode char'' = Some (- 1, s1)" "usame s s1"
    using okw_ex [OF re_parse_error_ok [OF env_okD(2) [OF e]]] by fastforce
  show ?thesis
    using True x p s1 usame_refl [OF env_okD(2) [OF e]]
    by (auto simp: class_normal_char_def atom_ok_def)
qed

lemma class_atom_escape_ok:
  assumes e: "env_ok s" and p: "p0 \<le> p" "p < buf_end s" and c: "c = pat s ! p"
  shows "okw (class_atom_escape s cr p0 p c) (atom_ok s p0)"
proof -
  obtain x q where x: "lre_parse_escape (pat s) p (if is_utf16 s then 2 else 0) = Some (x, q)"
      "(x = - 1 \<or> x = - 2) \<and> q = p \<or> 0 \<le> x \<and> x < 0x4000000 \<and> p < q \<and> q \<le> buf_end s"
    using okw_ex [OF lre_parse_escape_ok [OF env_okD(1) [OF e], of p]] p(2) by fastforce
  have n: "okw (class_normal_char s cr p0 p c) (atom_ok s p0)"
    using class_normal_char_ok [OF e] p c by simp
  obtain s1 where s1: "re_parse_error s ''invalid escape sequence in regular expression'' = Some (- 1, s1)" "usame s s1"
    using okw_ex [OF re_parse_error_ok [OF env_okD(2) [OF e]]] by fastforce
  show ?thesis
    using x p s1 n usame_refl [OF env_okD(2) [OF e]]
    by (auto simp: class_atom_escape_def atom_ok_def)
qed

lemma class_control_nz: "class_control_ok d i u \<Longrightarrow> d \<noteq> 0"
  by (auto simp: class_control_ok_def)

lemma get_class_atom_ok:
  assumes e: "env_ok s" and p: "p0 \<le> buf_end s"
  shows "okw (get_class_atom s cr p0 inclass) (atom_ok s p0)"
proof (cases "pat s ! p0 = 0x5c")
  case False
  obtain s1 where s1: "re_parse_error s ''unexpected end'' = Some (- 1, s1)" "usame s s1"
    using okw_ex [OF re_parse_error_ok [OF env_okD(2) [OF e]]] by fastforce
  show ?thesis
    using False p s1 class_normal_char_ok [OF e, of p0 p0]
    by (auto simp: get_class_atom_def zrd [OF e p] atom_ok_def)
next
  case True
  let ?p = "p0 + 1"
  obtain s1 where s1: "re_parse_error s ''unexpected end'' = Some (- 1, s1)" "usame s s1"
    using okw_ex [OF re_parse_error_ok [OF env_okD(2) [OF e]]] by fastforce
  show ?thesis
  proof (cases "?p \<ge> buf_end s")
    case end': True
    then show ?thesis using True s1 by (simp add: get_class_atom_def zrd [OF e p] atom_ok_def)
  next
    case False
    then have p1: "?p < buf_end s" "?p \<le> buf_end s" by auto
    note u = usame_refl [OF env_okD(2) [OF e]]
    show ?thesis
    proof (cases "class_escape (pat s ! ?p)")
      case (Some x)
      obtain c where c: "cr_init_char_range (cr_mem s) x = Some (0, c)" "cr_canon c" "cr_realloc_func c = cr_mem s"
        using cr_init_char_range_post [OF env_okD(3,4) [OF e], of x] by blast
      then show ?thesis
        using True p1 Some u
        by (simp add: get_class_atom_def zrd [OF e p] zrd [OF e p1(2), simplified] atom_ok_def cr_good_def)
    next
      case None
      consider "pat s ! ?p = 0x63" | "pat s ! ?p \<noteq> 0x63" "(pat s ! ?p = 0x70 \<or> pat s ! ?p = 0x50) \<and> is_utf16 s"
        | "pat s ! ?p \<noteq> 0x63" "\<not> ((pat s ! ?p = 0x70 \<or> pat s ! ?p = 0x50) \<and> is_utf16 s)" by blast
      then show ?thesis
      proof cases
        case 1
        then have n: "p0 + 2 \<le> buf_end s" using znext [OF e p1(2)] by simp
        let ?d = "pat s ! (p0 + 2)"
        have d: "uint (?d AND 0x1f) < 0x4000000"
          using unsigned_less [where 'a = int, of "?d AND 0x1f"] by simp
        have n2: "Suc (Suc (Suc p0)) \<le> buf_end s" if "class_control_ok ?d inclass u" for u
          using znext [OF e n] class_control_nz [OF that] by simp
        obtain s2 where s2: "re_parse_error s ''invalid escape sequence in regular expression'' = Some (- 1, s2)" "usame s s2"
          using okw_ex [OF re_parse_error_ok [OF env_okD(2) [OF e]]] by fastforce
        show ?thesis
          using True p1 None 1 u d n2 s2 n
          by (auto simp: get_class_atom_def zrd [OF e p] zrd [OF e p1(2), simplified] zrd [OF e n, simplified] atom_ok_def)
      next
        case 2
        have "?p + 1 \<le> buf_end s" using p1 by simp
        from okw_ex [OF parse_unicode_property_ok [OF e this, of "pat s ! ?p = 0x50"]]
        obtain r q c s2 where "parse_unicode_property s (?p + 1) (pat s ! ?p = 0x50) = Some (r, q, c, s2)" "usame s s2"
            "r = 0 \<Longrightarrow> ?p + 1 < q \<and> q \<le> buf_end s \<and> cr_good s c"
          by fastforce
        then show ?thesis
          using True p1 None 2
          by (auto simp: get_class_atom_def zrd [OF e p] zrd [OF e p1(2), simplified] atom_ok_def)
      next
        case 3
        have "get_class_atom s cr p0 inclass = class_atom_escape s cr p0 ?p (pat s ! ?p)"
          using True False None 3 by (auto simp: get_class_atom_def zrd [OF e p] zrd [OF e p1(2), simplified])
        then show ?thesis using class_atom_escape_ok [OF e _ p1(1) refl, of p0 cr] by simp
      qed
    qed
  qed
qed

section \<open>Emitting a class\<close>

lemma emit_range16_ok:
  "has_code s0 c s \<Longrightarrow> i \<le> cr_len cr \<Longrightarrow> even (cr_len cr - i) \<Longrightarrow> cr_len cr \<le> length (points cr) \<Longrightarrow>
   okw (emit_range16 s cr i) (\<lambda>s'. \<exists>x. length x = 2 * (cr_len cr - i) \<and> has_code s0 (c @ x) s')"
proof (induction s cr i arbitrary: c rule: emit_range16.induct)
  case (1 s cr i)
  show ?case
  proof (cases "i < cr_len cr")
    case False
    then show ?thesis using "1.prems" by (subst emit_range16.simps) simp
  next
    case True
    then have l: "i + 2 \<le> cr_len cr" "rd (points cr) i = Some (points cr ! i)" "rd (points cr) (i + 1) = Some (points cr ! (i + 1))"
      using "1.prems"(2-4) by (auto simp: rd_def) presburger+
    let ?A = "u16_bytes (ucast (points cr ! i))" and ?B = "u16_bytes (ucast (let high = points cr ! (i + 1) - 1 in if high = 0xfffffffe then 0xffff else high))"
    obtain s1 where s1: "emit s ?A = Some s1" "has_code s0 (c @ ?A) s1"
      using okw_ex [OF emit_ok [OF "1.prems"(1)]] by blast
    obtain s2 where s2: "emit s1 ?B = Some s2" "has_code s0 ((c @ ?A) @ ?B) s2"
      using okw_ex [OF emit_ok [OF s1(2)]] by blast
    have e0: "emit_range16 s cr i = emit_range16 s2 cr (i + 2)"
      using True l s1(1) s2(1) by (subst emit_range16.simps) (simp add: Let_def)
    have "okw (emit_range16 s2 cr (i + 2)) (\<lambda>s'. \<exists>x. length x = 2 * (cr_len cr - (i + 2)) \<and>
        has_code s0 (((c @ ?A) @ ?B) @ x) s')"
      using l "1.prems" True s1 s2 by (intro "1.IH") (auto simp: Let_def)
    then show ?thesis
      unfolding e0
    proof (rule okw_mono, elim exE conjE)
      fix s' x assume "length x = 2 * (cr_len cr - (i + 2))" "has_code s0 (((c @ ?A) @ ?B) @ x) s'"
      then show "\<exists>x. length x = 2 * (cr_len cr - i) \<and> has_code s0 (c @ x) s'"
        using l(1) by (intro exI [of _ "?A @ ?B @ x"]) simp
    qed
  qed
qed

lemma emit_range32_ok:
  "has_code s0 c s \<Longrightarrow> i \<le> cr_len cr \<Longrightarrow> even (cr_len cr - i) \<Longrightarrow> cr_len cr \<le> length (points cr) \<Longrightarrow>
   okw (emit_range32 s cr i) (\<lambda>s'. \<exists>x. length x = 4 * (cr_len cr - i) \<and> has_code s0 (c @ x) s')"
proof (induction s cr i arbitrary: c rule: emit_range32.induct)
  case (1 s cr i)
  show ?case
  proof (cases "i < cr_len cr")
    case False
    then show ?thesis using "1.prems" by (subst emit_range32.simps) simp
  next
    case True
    then have l: "i + 2 \<le> cr_len cr" "rd (points cr) i = Some (points cr ! i)" "rd (points cr) (i + 1) = Some (points cr ! (i + 1))"
      using "1.prems"(2-4) by (auto simp: rd_def) presburger+
    let ?A = "u32_bytes (points cr ! i)" and ?B = "u32_bytes (points cr ! (i + 1) - 1)"
    obtain s1 where s1: "emit s ?A = Some s1" "has_code s0 (c @ ?A) s1"
      using okw_ex [OF emit_ok [OF "1.prems"(1)]] by blast
    obtain s2 where s2: "emit s1 ?B = Some s2" "has_code s0 ((c @ ?A) @ ?B) s2"
      using okw_ex [OF emit_ok [OF s1(2)]] by blast
    have e0: "emit_range32 s cr i = emit_range32 s2 cr (i + 2)"
      using True l s1(1) s2(1) by (subst emit_range32.simps) (simp add: Let_def)
    have "okw (emit_range32 s2 cr (i + 2)) (\<lambda>s'. \<exists>x. length x = 4 * (cr_len cr - (i + 2)) \<and>
        has_code s0 (((c @ ?A) @ ?B) @ x) s')"
      using l "1.prems" True s1 s2 by (intro "1.IH") (auto simp: Let_def)
    then show ?thesis
      unfolding e0
    proof (rule okw_mono, elim exE conjE)
      fix s' x assume "length x = 4 * (cr_len cr - (i + 2))" "has_code s0 (((c @ ?A) @ ?B) @ x) s'"
      then show "\<exists>x. length x = 4 * (cr_len cr - i) \<and> has_code s0 (c @ x) s'"
        using l(1) by (intro exI [of _ "?A @ ?B @ x"]) simp
    qed
  qed
qed

lemma re_emit_range_ok:
  assumes c: "has_code s0 c s" and u: "u_ok (u_buf s)" and cr: "cr_canon cr"
  shows "okw (re_emit_range s cr) (\<lambda>(r, s'). r \<noteq> 0 \<and> u_ok (u_buf s') \<or>
    r = 0 \<and> (\<exists>i. char_ins i \<and> has_code s0 (c @ i) s'))"
proof -
  have ev: "even (cr_len cr)" "cr_len cr \<le> length (points cr)" using cr_canonD [OF cr] by auto
  let ?n = "cr_len cr div 2"
  consider "?n \<ge> 65535" | "?n = 0" | "0 < ?n" "?n < 65535" by linarith
  then show ?thesis
  proof cases
    case 1
    then show ?thesis
      using re_parse_error_ex [OF u, of "''too many ranges''"] by (auto simp: re_emit_range_def dest: usame_u_ok)
  next
    case 2
    have "char_ins (ins REOP_char32 (u32_bytes (- 1)))" by (rule char_ins.intros) simp
    then show ?thesis
      using 2 okw_ex [OF re_emit_op_u32_ok [OF c, of REOP_char32 "- 1"]]
      by (auto simp: re_emit_range_def)
  next
    case 3
    have rds: "rd (points cr) (cr_len cr - 1) = Some (points cr ! (cr_len cr - 1))"
      "rd (points cr) (cr_len cr - 2) = Some (points cr ! (cr_len cr - 2))"
      using 3 ev by (auto simp: rd_def)
    have r16: "\<exists>s1 s2 x. re_emit_op_u16 s REOP_range (of_nat ?n) = Some s1 \<and> emit_range16 s1 cr 0 = Some s2 \<and>
        length x = 4 * ?n \<and> has_code s0 (c @ ins REOP_range (u16_bytes (of_nat ?n) @ x)) s2"
    proof -
      obtain s1 where s1: "re_emit_op_u16 s REOP_range (of_nat ?n) = Some s1" "has_code s0 (c @ ins REOP_range (u16_bytes (of_nat ?n))) s1"
        using okw_ex [OF re_emit_op_u16_ok [OF c]] by blast
      then show ?thesis
        using okw_ex [OF emit_range16_ok [OF s1(2), of 0 cr]] ev by (fastforce simp: ins_def)
    qed
    have r32: "\<exists>s1 s2 x. re_emit_op_u16 s REOP_range32 (of_nat ?n) = Some s1 \<and> emit_range32 s1 cr 0 = Some s2 \<and>
        length x = 8 * ?n \<and> has_code s0 (c @ ins REOP_range32 (u16_bytes (of_nat ?n) @ x)) s2"
    proof -
      obtain s1 where s1: "re_emit_op_u16 s REOP_range32 (of_nat ?n) = Some s1" "has_code s0 (c @ ins REOP_range32 (u16_bytes (of_nat ?n))) s1"
        using okw_ex [OF re_emit_op_u16_ok [OF c]] by blast
      then show ?thesis
        using okw_ex [OF emit_range32_ok [OF s1(2), of 0 cr]] ev by (fastforce simp: ins_def)
    qed
    have ci: "length x = 4 * ?n \<Longrightarrow> char_ins (ins REOP_range (u16_bytes (of_nat ?n) @ x))"
      "length x = 8 * ?n \<Longrightarrow> char_ins (ins REOP_range32 (u16_bytes (of_nat ?n) @ x))" for x
      using 3 by (auto intro!: char_ins.intros)
    have R: "\<exists>s1 s2. re_emit_op_u16 s REOP_range (of_nat ?n) = Some s1 \<and> emit_range16 s1 cr 0 = Some s2 \<and>
        (\<exists>i. char_ins i \<and> has_code s0 (c @ i) s2)"
      "\<exists>s1 s2. re_emit_op_u16 s REOP_range32 (of_nat ?n) = Some s1 \<and> emit_range32 s1 cr 0 = Some s2 \<and>
        (\<exists>i. char_ins i \<and> has_code s0 (c @ i) s2)"
      using r16 r32 ci by meson+
    show ?thesis
      using 3 R by (auto simp: re_emit_range_def rds Let_def simp del: One_nat_def)
  qed
qed

section \<open>Bracketed classes\<close>

lemma pts_canon_range:
  "pts_canon ps \<Longrightarrow> (\<And>x. pts_in ps x \<Longrightarrow> lo \<le> x \<and> x < hi) \<Longrightarrow> p \<in> set ps \<Longrightarrow> lo \<le> p \<and> p \<le> hi"
proof (induction ps rule: induct_list012)
  case (3 a b r)
  have srt: "sorted_wrt (<) (a # b # r)" using "3.prems"(1) by (simp add: pts_canon_def)
  note mem = pts_in_Cons_gt [OF srt]
  have ab: "a < b" using srt by simp
  then have a: "lo \<le> a" "a < hi" using "3.prems"(2) [of a] mem [of a] by auto
  have b: "b \<le> hi"
  proof (rule ccontr)
    assume "\<not> b \<le> hi"
    then have "pts_in (a # b # r) hi" using a(2) mem [of hi] by auto
    then show False using "3.prems"(2) [of hi] by simp
  qed
  have r: "lo \<le> x \<and> x < hi" if "pts_in r x" for x
  proof -
    have "b < x"
      using that srt pts_in_all_gt [of r x] by (metis le_less_trans linorder_not_le sorted_wrt.simps(2))
    then show ?thesis using that "3.prems"(2) [of x] mem [of x] by blast
  qed
  have "pts_canon r" using "3.prems"(1) by (simp add: pts_canon_def)
  from "3.IH"(1) [OF this r] have "p \<in> set r \<Longrightarrow> lo \<le> p \<and> p \<le> hi" .
  moreover have "lo \<le> b" "a \<le> hi" using a ab by auto
  ultimately show ?case using "3.prems"(3) a(1) b by auto
next
  case 1
  then show ?case using "1"(3) by simp
next
  case (2 x)
  show ?case using "2"(1) by (simp add: pts_canon_def)
qed

lemma cr_canonicalize_good:
  assumes c: "cr_good s cr" and e: "env_ok s"
  shows "okw (cr_canonicalize cr) (\<lambda>(r, cr'). r = 0 \<and> cr_good s cr')"
proof -
  let ?a = "cr_init (cr_realloc_func cr)"
  have a: "cr_wf ?a" "cr_len ?a = 0" "cr_realloc_func ?a = cr_mem s"
    using c env_okD(3) [OF e] by (simp_all add: cr_init_def cr_wf_def cr_good_def)
  have cc: "cr_len cr \<le> length (points cr)" "sorted (take (cr_len cr) (points cr))" "even (cr_len cr)"
    using c cr_canonD by (auto simp: cr_good_def)
  let ?b = "[0x61, 0x7a + 1] :: u32 list"
  obtain a' where a': "cr_op ?a (points cr) (cr_len cr) ?b 2 CR_OP_INTER = Some (0, a')" "cr_canon a'"
      "\<And>x. cr_in a' x \<Longrightarrow> pts_in (take 2 ?b) x"
    using okw_ex [OF cr_op_post [OF a(1,2) cc, of 2 ?b CR_OP_INTER]] env_okD(4) [OF e] a(3)
    by (auto simp: cr_result_def cr_canon_def)
  have r: "0x61 \<le> p \<and> p \<le> 0x7b" if "p \<in> set (cr_pts a')" for p
  proof (rule pts_canon_range [OF _ _ that])
    show "pts_canon (cr_pts a')" using a'(2) by (simp add: cr_canon_def)
    show "0x61 \<le> x \<and> x < 0x7b" if "pts_in (cr_pts a') x" for x
      using a'(3) [of x] that pts_in_Cons_gt [of "0x61" "0x7b" "[]" x] by (simp add: cr_in_def)
  qed
  let ?f = "\<lambda>p. p + (0x41 - 0x61) :: u32"
  have mono: "?f p \<le> ?f q" if "p \<in> set (cr_pts a')" "q \<in> set (cr_pts a')" "p \<le> q" for p q
  proof -
    have "unat (?f x) = unat x - 32" if "x \<in> set (cr_pts a')" for x
    proof -
      have "(0x20 :: u32) \<le> x" using r [OF that] by (simp add: word_le_nat_alt)
      then show ?thesis using unat_sub [of "0x20" x] by simp
    qed
    then show ?thesis using that by (simp add: word_le_nat_alt)
  qed
  let ?pts = "map ?f (take (cr_len a') (points a')) @ drop (cr_len a') (points a')"
  have wf: "cr_len a' \<le> length (points a')" "sorted (cr_pts a')" "even (cr_len a')"
    using cr_canonD [OF a'(2)] by (auto simp: cr_pts_def)
  have t: "take (cr_len a') ?pts = map ?f (cr_pts a')" using wf(1) by (simp add: cr_pts_def)
  have "sorted (take (cr_len a') ?pts)"
    unfolding t sorted_map
    by (rule sorted_wrt_mono_rel [OF _ wf(2)]) (use mono in auto)
  moreover have "cr_len a' \<le> length ?pts" using wf(1) by simp
  ultimately have "okw (cr_union1 cr ?pts (cr_len a')) (\<lambda>(r, cr'). r = 0 \<and> cr_good s cr')"
    using okw_mono [OF cr_union1_post [of cr "cr_len a'" ?pts]] wf(3) c env_okD(4) [OF e]
    by (auto simp: cr_good_def cr_result_def cr_canon_def)
  then show ?thesis
    unfolding cr_canonicalize_def Let_def a'(1) by simp
qed

lemma small_word:
  assumes "0 \<le> c" and "c < 0x4000000"
  shows "(word_of_int c :: u32) \<noteq> 0xffffffff" and "uint (word_of_int c :: u32) = c"
proof -
  show u: "uint (word_of_int c :: u32) = c" using assms by (simp add: uint_word_of_int)
  show "(word_of_int c :: u32) \<noteq> 0xffffffff"
  proof
    assume "(word_of_int c :: u32) = 0xffffffff"
    then have "c = uint (0xffffffff :: u32)" using u by simp
    then show False using assms(2) by simp
  qed
qed

lemma class_add_atom_ok:
  assumes e: "env_ok s" and cr: "cr_good s cr"
    and a: "0 \<le> c1 \<and> c1 < 0x4000000 \<or> c1 = CLASS_RANGE_BASE \<and> (\<exists>c. cr1 = Some c \<and> cr_good s c)"
  shows "okw (class_add_atom cr cr1 c1) (\<lambda>(r, cr'). r = 0 \<and> cr_good s cr')"
proof -
  note nf = env_okD(4) [OF e]
  have res: "okw m (\<lambda>(r, cr'). r = 0 \<and> cr_good s cr')" if "okw m (cr_result cr S)" for m S
    by (rule okw_mono [OF that]) (use cr nf in \<open>auto simp: cr_result_def cr_good_def cr_canon_def\<close>)
  have "okw (cr_union1 cr (points c) (cr_len c)) (\<lambda>(r, cr'). r = 0 \<and> cr_good s cr')" if "cr_good s c" for c
    by (rule res [OF cr_union1_post]) (use cr that cr_canonD [of c] in \<open>auto simp: cr_good_def\<close>)
  moreover have "okw (cr_union_interval cr (word_of_int c1) (word_of_int c1)) (\<lambda>(r, cr'). r = 0 \<and> cr_good s cr')"
    if "0 \<le> c1" "c1 < 0x4000000"
    by (rule res [OF cr_union_interval_post]) (use cr small_word [OF that] in \<open>auto simp: cr_good_def\<close>)
  ultimately show ?thesis using a by (auto simp: class_add_atom_def)
qed

text \<open>The result of the loop: an error, or a canonical class and the position of the bracket.\<close>

definition class_ok :: "re_state \<Rightarrow> nat \<Rightarrow> int \<times> nat \<times> char_range \<times> re_state \<Rightarrow> bool" where
  "class_ok s p z \<longleftrightarrow> (case z of (r, q, cr, s') \<Rightarrow>
     error_or s s' r (p \<le> q \<and> q < buf_end s \<and> cr_good s cr))"

lemma class_ok_usame: "usame s s1 \<Longrightarrow> p \<le> p1 \<Longrightarrow> class_ok s1 p1 z \<Longrightarrow> class_ok s p z"
  by (auto simp: class_ok_def cr_good_def usame_sel dest: usame_trans)

lemma cr_good_usame: "usame s s1 \<Longrightarrow> cr_good s1 cr = cr_good s cr"
  by (simp add: cr_good_def usame_sel)

lemma char_class_loop_ok:
  "env_ok s \<Longrightarrow> p \<le> buf_end s \<Longrightarrow> buf_end s - p < fuel \<Longrightarrow> cr_good s cr \<Longrightarrow>
   okw (char_class_loop fuel s cr p) (class_ok s p)"
proof (induction fuel arbitrary: s cr p)
  case (Suc fuel)
  note e = Suc.prems(1) and p = Suc.prems(2) and cr = Suc.prems(4)
  let ?add = "\<lambda>s cr1 c1 q. do {
       (r, cr) \<leftarrow> class_add_atom cr cr1 c1;
       if r \<noteq> 0 then do { (r, s) \<leftarrow> re_parse_out_of_memory s; Some (- 1 :: int, p, cr, s) }
       else char_class_loop fuel s cr q }"
  have IH: "okw (char_class_loop fuel s1 cr' q) (class_ok s p)"
    if "usame s s1" "p < q" "q \<le> buf_end s" "cr_good s cr'" for s1 cr' q
  proof -
    have "okw (char_class_loop fuel s1 cr' q) (class_ok s1 q)"
      using that Suc.prems(3) by (intro Suc.IH usame_env [OF that(1) e]) (auto simp: usame_sel cr_good_usame)
    then show ?thesis
      by (rule okw_mono) (rule class_ok_usame [OF that(1) less_imp_le [OF that(2)]])
  qed
  have add: "okw (?add s1 cr1 c1 q) (class_ok s p)"
    if "usame s s1" "p < q" "q \<le> buf_end s" and c1: "0 \<le> c1 \<and> c1 < 0x4000000 \<or> c1 = CLASS_RANGE_BASE \<and> (\<exists>c. cr1 = Some c \<and> cr_good s c)"
    for s1 cr1 c1 q
    using okw_ex [OF class_add_atom_ok [OF e cr c1]] IH [OF that(1-3)] by fastforce
  have bad: "okw (do { (r, s) \<leftarrow> re_parse_error s1 msg; Some (- 1 :: int, q, cr, s) }) (class_ok s p)"
    if "usame s s1" for s1 msg q
    using re_parse_error_ex [OF usame_u_ok [OF that], of msg] that by (auto simp: class_ok_def dest: usame_trans)
  show ?case
  proof (cases "pat s ! p = 0x5d")
    case True
    then have "Suc p \<le> buf_end s" using znext [OF e p] by simp
    then show ?thesis
      using True cr usame_refl [OF env_okD(2) [OF e]]
      by (simp add: zrd [OF e p] class_ok_def Let_def)
  next
    case False
    obtain c1 q cr1 s1 where g: "get_class_atom s None p True = Some (c1, q, cr1, s1)" "atom_ok s p (c1, q, cr1, s1)"
      using okw_ex [OF get_class_atom_ok [OF e p, of None True]] by auto
    have us: "usame s s1" using g(2) by (simp add: atom_ok_def)
    note e1 = usame_env [OF us e] and sel = usame_sel [OF us]
    show ?thesis
    proof (cases "c1 < 0")
      case True
      then show ?thesis using False g us by (simp add: zrd [OF e p] class_ok_def)
    next
      case c1: False
      then have q: "p < q" "q \<le> buf_end s"
        and a: "0 \<le> c1 \<and> c1 < 0x4000000 \<or> c1 = CLASS_RANGE_BASE \<and> (\<exists>c. cr1 = Some c \<and> cr_good s c)"
        using g(2) by (auto simp: atom_ok_def)
      note A = add [OF us q a]
      show ?thesis
      proof (cases "pat s ! q = 0x2d \<and> pat s ! Suc q \<noteq> 0x5d")
        case no: False
        have "rd (pat s) (Suc q) = Some (pat s ! Suc q)" if "pat s ! q = 0x2d"
          using znext [OF e q(2)] that by (intro zrd [OF e]) simp
        then have "char_class_loop (Suc fuel) s cr p = ?add s1 cr1 c1 q"
          using False g(1) c1 no by (auto simp: zrd [OF e p] zrd [OF e q(2)] sel Let_def)
        then show ?thesis using A by simp
      next
        case rng: True
        then have n: "Suc q \<le> buf_end s" using znext [OF e q(2)] by simp
        show ?thesis
        proof (cases "c1 \<ge> CLASS_RANGE_BASE")
          case True
          then have "char_class_loop (Suc fuel) s cr p = (if is_utf16 s then
              do { (r, s) \<leftarrow> re_parse_error s1 ''invalid class range''; Some (- 1, p, cr, s) } else ?add s1 cr1 c1 q)"
            using False g(1) c1 rng by (simp add: zrd [OF e p] zrd [OF e q(2)] zrd [OF e n] sel Let_def)
          then show ?thesis using A bad [OF us] by simp
        next
          case lit: False
          have n1: "Suc q \<le> buf_end s1" using n sel by simp
          obtain c2 q2 cr2 s2 where h: "get_class_atom s1 cr1 (q + 1) True = Some (c2, q2, cr2, s2)"
              "atom_ok s1 (Suc q) (c2, q2, cr2, s2)"
            using okw_ex [OF get_class_atom_ok [OF e1 n1, of cr1 True]] by auto
          have us2: "usame s s2" "is_utf16 s2 = is_utf16 s"
            using h(2) us usame_trans by (auto simp: atom_ok_def usame_sel)
          have A2: "okw (?add s2 cr2 c1 q) (class_ok s p)"
            using add [OF us2(1) q, of c1 cr2] a lit by auto
          let ?bad = "do { (r, s) \<leftarrow> re_parse_error s2 ''invalid class range''; Some (- 1 :: int, p, cr, s) }"
          have e0: "char_class_loop (Suc fuel) s cr p =
              (if c2 < 0 then Some (- 1, q, cr, s2)
               else if c2 \<ge> CLASS_RANGE_BASE then (if is_utf16 s2 then ?bad else ?add s2 cr2 c1 q)
               else if c2 < c1 then ?bad
               else do {
                 (r, cr) \<leftarrow> cr_union_interval cr (word_of_int c1) (word_of_int c2);
                 if r \<noteq> 0 then do { (r, s) \<leftarrow> re_parse_out_of_memory s2; Some (- 1, p, cr, s) }
                 else char_class_loop fuel s2 cr q2
               })"
            using False g(1) c1 rng lit h(1)
            by (simp add: zrd [OF e p] zrd [OF e q(2)] zrd [OF e n, simplified] sel Let_def)
          have err: "class_ok s p (- 1, q, cr, s2)" using us2(1) by (simp add: class_ok_def)
          show ?thesis
          proof (cases "c2 < c1 \<or> c2 \<ge> CLASS_RANGE_BASE")
            case True
            then show ?thesis
              unfolding e0 using A2 bad [OF us2(1)] us2 err by auto
          next
            case ok: False
            then have c: "0 \<le> c1" "c1 \<le> c2" "c2 < 0x4000000" "Suc q < q2" "q2 \<le> buf_end s"
              using h(2) c1 a lit sel by (auto simp: atom_ok_def)
            have "word_of_int c1 \<le> (word_of_int c2 :: u32)"
              using small_word(2) [of c1] small_word(2) [of c2] c by (simp add: word_le_def)
            then obtain cr' where "cr_union_interval cr (word_of_int c1) (word_of_int c2) = Some (0, cr')" "cr_good s cr'"
              using okw_ex [OF cr_union_interval_post [of cr "word_of_int c1" "word_of_int c2"]] cr small_word(1) [of c2] c
                env_okD(4) [OF e] by (auto simp: cr_good_def cr_result_def cr_canon_def)
            then show ?thesis
              unfolding e0 using ok c IH [OF us2(1), of q2 cr'] q by auto
          qed
        qed
      qed
    qed
  qed
qed simp

text \<open>An operation that emits one piece of code, reports an error, or faults.\<close>

definition emits_code :: "re_state \<Rightarrow> re_state \<Rightarrow> u8 list \<Rightarrow> bool" where
  "emits_code s s' a \<longleftrightarrow> (\<exists>u. u_ok u \<and> has_code (s\<lparr>u_buf := u\<rparr>) (contents (byte_code s) @ a) s')"

lemma re_parse_char_class_ok:
  assumes e: "env_ok s" and p: "Suc p \<le> buf_end s" and c: "good (byte_code s)" and f: "buf_end s < fuel"
  shows "okw (re_parse_char_class fuel s p) (\<lambda>(r, q, s'). r \<noteq> 0 \<and> u_ok (u_buf s') \<or>
    r = 0 \<and> p < q \<and> q \<le> buf_end s \<and> (\<exists>i. char_ins i \<and> emits_code s s' i))"
proof -
  define q where "q = (if pat s ! Suc p = 0x5e then Suc (Suc p) else Suc p)"
  have q: "Suc p \<le> q" "q \<le> buf_end s" using znext [OF e p] p by (auto simp: q_def)
  have cr0: "cr_good s (cr_init (cr_mem s))" by (rule cr_good_init [OF e])
  have "buf_end s - q < fuel" using f by simp
  from okw_ex [OF char_class_loop_ok [OF e q(2) this cr0]]
  obtain r t cr s1 where l: "char_class_loop fuel s (cr_init (cr_mem s)) q = Some (r, t, cr, s1)"
      "usame s s1" "r = 0 \<Longrightarrow> q \<le> t \<and> t < buf_end s \<and> cr_good s cr"
    by (auto simp: class_ok_def)
  note sel = usame_sel [OF l(2)]
  let ?rest = "do {
       (r, cr) \<leftarrow> (if ignore_case s1 then cr_canonicalize cr else Some (0, cr));
       if r \<noteq> 0 then do { (r, s) \<leftarrow> re_parse_out_of_memory s1; Some (- 1, p, s) }
       else do {
         (r, cr) \<leftarrow> (if pat s ! Suc p = 0x5e then cr_invert cr else Some (0, cr));
         if r \<noteq> 0 then do { (r, s) \<leftarrow> re_parse_out_of_memory s1; Some (- 1, p, s) }
         else do {
           (r, s) \<leftarrow> re_emit_range s1 cr;
           if r \<noteq> 0 then Some (- 1, p, s) else Some (0, t + 1, s)
         } } }"
  have e0: "re_parse_char_class fuel s p = (if r \<noteq> 0 then Some (- 1, p, s1) else ?rest)"
    unfolding re_parse_char_class_def Let_def Suc_eq_plus1 [symmetric] zrd [OF e p] Option.bind.bind_lunit
      q_def [symmetric] l(1) prod.case by simp
  show ?thesis
  proof (cases "r = 0")
    case False
    then show ?thesis unfolding e0 using usame_u_ok [OF l(2)] by simp
  next
    case True
    then have t: "q \<le> t" "t < buf_end s" "cr_good s cr" using l(3) by auto
    have "\<exists>c. (if ignore_case s1 then cr_canonicalize cr else Some (0, cr)) = Some (0, c) \<and> cr_good s c"
      using okw_ex [OF cr_canonicalize_good [OF t(3) e]] t(3) by auto
    then obtain c1 where c1: "(if ignore_case s1 then cr_canonicalize cr else Some (0, cr)) = Some (0, c1)" "cr_good s c1" by blast
    have "\<exists>c. (if pat s ! Suc p = 0x5e then cr_invert c1 else Some (0, c1)) = Some (0, c) \<and> cr_good s c"
      using okw_ex [OF cr_invert_good [OF c1(2) e]] c1(2) by auto
    then obtain c2 where c2: "(if pat s ! Suc p = 0x5e then cr_invert c1 else Some (0, c1)) = Some (0, c2)" "cr_good s c2" by blast
    have h: "has_code s1 (contents (byte_code s1)) s1" by (rule has_code_refl) (simp add: sel c)
    obtain r2 s2 where r2: "re_emit_range s1 c2 = Some (r2, s2)" "r2 \<noteq> 0 \<and> u_ok (u_buf s2) \<or>
        r2 = 0 \<and> (\<exists>i. char_ins i \<and> has_code s1 (contents (byte_code s1) @ i) s2)"
      using okw_ex [OF re_emit_range_ok [OF h usame_u_ok [OF l(2)], of c2]] c2(2) by (auto simp: cr_good_def)
    have "re_parse_char_class fuel s p = (if r2 \<noteq> 0 then Some (- 1, p, s2) else Some (0, t + 1, s2))"
      unfolding e0 c1(1) Option.bind.bind_lunit prod.case c2(1) using True r2(1) by simp
    then show ?thesis
      using r2(2) t q l(2) by (fastforce simp: emits_code_def usame_def)
  qed
qed

section \<open>Captures and group names\<close>

lemma parse_captures_loop_ok:
  "env_ok s \<Longrightarrow> buf_end s - p < fuel \<Longrightarrow> i < 255 \<Longrightarrow>
   okw (parse_captures_loop fuel s cn p i h) (\<lambda>(r, h'). if cn = None then 0 \<le> r \<and> r \<le> 255 else - 1 \<le> r \<and> r \<le> 254)"
proof (induction fuel arbitrary: p i h)
  case (Suc fuel)
  note e = Suc.prems(1)
  let ?Q = "\<lambda>(r, h'). if cn = None then 0 \<le> r \<and> r \<le> 255 else - 1 \<le> r \<and> r \<le> (254 :: int)"
  show ?case
  proof (cases "buf_end s \<le> p")
    case True
    then show ?thesis using Suc.prems(3) by simp
  next
    case False
    then have p: "p \<le> buf_end s" by simp
    have IH: "okw (parse_captures_loop fuel s cn q j h') ?Q" if "p < q" "j < 255" for q j h'
      using that Suc.prems False by (intro Suc.IH) auto
    consider "pat s ! p = 0x28" | "pat s ! p = 0x5b" | "pat s ! p \<noteq> 0x28" "pat s ! p \<noteq> 0x5b" by blast
    then show ?thesis
    proof cases
      case 1
      then have p1: "Suc p \<le> buf_end s" using znext [OF e p] by simp
      show ?thesis
      proof (cases "pat s ! Suc p = 0x3f")
        case no: False
        then show ?thesis
          using 1 False IH Suc.prems(3) by (auto simp: zrd [OF e p] zrd [OF e p1] Let_def)
      next
        case True
        then have p2: "p + 2 \<le> buf_end s" using znext [OF e p1] by simp
        have p3: "p + 3 \<le> buf_end s" if "pat s ! (p + 2) = 0x3c" using znext [OF e p2] that by simp
        define named where "named \<longleftrightarrow> pat s ! (p + 2) = 0x3c \<and> pat s ! (p + 3) \<noteq> 0x3d \<and> pat s ! (p + 3) \<noteq> 0x21"
        have n: "(if pat s ! (p + 2) = 0x3c then do { c3 \<leftarrow> rd (pat s) (p + 3); Some (c3 \<noteq> 0x3d \<and> c3 \<noteq> 0x21) } else Some False)
            = Some named"
          using zrd [OF e p3] by (auto simp: named_def)
        let ?F = "case cn of
                None \<Rightarrow> Some (False, p)
              | Some cn \<Rightarrow> do {
                  (r, q, name) \<leftarrow> re_parse_group_name fuel (unicode s) (pat s) (p + 3) TMP_BUF_SIZE (is_utf16 s);
                  Some (r = 0 \<and> name = cn, q) }"
        have F: "\<exists>f q. ?F = Some (f, q) \<and> p \<le> q \<and> (cn = None \<longrightarrow> \<not> f)" if named
        proof (cases cn)
          case (Some nm)
          have "p + 3 \<le> buf_end s" using p3 \<open>named\<close> by (simp add: named_def)
          moreover from this have "buf_end s - (p + 3) < fuel" using Suc.prems(2) by linarith
          ultimately show ?thesis
            using okw_ex [OF re_parse_group_name_ok [OF env_okD(1) [OF e], of "p + 3" fuel 128 "unicode s" "is_utf16 s"]] Some
            by fastforce
        next
          case None
          then show ?thesis by (intro exI [of _ False]) simp
        qed
        have r1: "rd (pat s) (p + 1) = Some 0x3f" using zrd [OF e p1] True by simp
        note r2 = zrd [OF e p2]
        have e0: "parse_captures_loop (Suc fuel) s cn p i h = (if named then do {
             (found, p) \<leftarrow> ?F;
             if found then Some (int i, 1)
             else if i + 1 \<ge> CAPTURE_COUNT_MAX then Some (if cn = None then int (i + 1) else - 1, 1)
             else parse_captures_loop fuel s cn (p + 1) (i + 1) 1 }
           else parse_captures_loop fuel s cn (p + 1) i h)"
          unfolding parse_captures_loop.simps(2) Let_def zrd [OF e p] 1 r1 r2 n Option.bind.bind_lunit
          by (simp only: False if_False if_True simp_thms n Option.bind.bind_lunit)
        show ?thesis
        proof (cases named)
          case True
          then obtain f q where "?F = Some (f, q)" "p \<le> q" "cn = None \<longrightarrow> \<not> f" using F by blast
          then show ?thesis unfolding e0 using True IH Suc.prems(3) by auto
        next
          case False
          then show ?thesis unfolding e0 using IH Suc.prems(3) by simp
        qed
      qed
    next
      case 2
      then have "Suc p \<le> buf_end s" using znext [OF e p] by simp
      obtain q where "skip_class (pat s) (buf_end s) (p + 1) = Some q" "p + 1 \<le> q"
        using okw_ex [OF skip_class_ok [OF env_okD(1) [OF e]]] by blast
      then show ?thesis using 2 False IH Suc.prems(3) by (simp add: zrd [OF e p])
    next
      case 3
      then show ?thesis using False IH Suc.prems(3) by (simp add: zrd [OF e p])
    qed
  qed
qed simp

lemma re_parse_captures_ok:
  assumes "env_ok s" and "buf_end s < fuel"
  shows "okw (re_parse_captures fuel s cn) (\<lambda>(r, h). if cn = None then 0 \<le> r \<and> r \<le> 255 else - 1 \<le> r \<and> r \<le> 254)"
  unfolding re_parse_captures_def using assms by (intro parse_captures_loop_ok) auto

text \<open>Counting caches its result in the state and changes nothing else.\<close>

definition counted :: "re_state \<Rightarrow> re_state \<Rightarrow> bool" where
  "counted s s' \<longleftrightarrow> (\<exists>t h. t \<le> 255 \<and> s' = s\<lparr>total_capture_count := t, has_named_captures := h\<rparr>)"

lemma counted_refl: "total_capture_count s \<le> 255 \<Longrightarrow> counted s s"
  unfolding counted_def by (rule exI [of _ "total_capture_count s"], rule exI [of _ "has_named_captures s"]) simp

lemma re_count_captures_ok:
  assumes e: "env_ok s" and f: "buf_end s < fuel" and t: "total_capture_count s \<le> 255"
  shows "okw (re_count_captures fuel s) (\<lambda>(n, s'). n \<le> 255 \<and> counted s s')"
  using okw_ex [OF re_parse_captures_ok [OF e f, of None]] t counted_refl [OF t]
  by (auto simp: re_count_captures_def) (auto simp: counted_def)

lemma re_has_named_captures_ok:
  assumes e: "env_ok s" and f: "buf_end s < fuel" and t: "total_capture_count s \<le> 255"
  shows "okw (re_has_named_captures fuel s) (\<lambda>(_, s'). counted s s')"
  using okw_ex [OF re_count_captures_ok [OF assms]] counted_refl [OF t]
  by (auto simp: re_has_named_captures_def)

lemma find_group_name_loop_ok:
  "\<forall>n \<in> set ns. 0 \<notin> set n \<Longrightarrow> g = pre @ concat (map (\<lambda>n. n @ [0]) ns) \<Longrightarrow> p = length pre \<Longrightarrow>
   \<exists>r. find_group_name_loop g name p i = Some r \<and> - 1 \<le> r \<and> r < int (i + length ns)"
proof (induction ns arbitrary: pre p i)
  case Nil
  then show ?case by (subst find_group_name_loop.simps) simp
next
  case (Cons n ns)
  have d: "drop p g = n @ 0 # concat (map (\<lambda>n. n @ [0]) ns)" using Cons.prems by simp
  have l: "strlen (drop p g) = Some (length n)" unfolding d using Cons.prems(1) by (intro strlen_app) simp
  have "\<exists>r. find_group_name_loop g name (p + length n + 1) (i + 1) = Some r \<and> - 1 \<le> r \<and> r < int ((i + 1) + length ns)"
    using Cons.prems by (intro Cons.IH [of "pre @ n @ [0]"]) auto
  moreover have "p < length g" using Cons.prems by simp
  ultimately show ?case
    using l by (subst find_group_name_loop.simps) auto
qed

lemma find_group_name_ok:
  assumes "names_ok (group_names s) k"
  shows "\<exists>r. find_group_name s name = Some r \<and> - 1 \<le> r \<and> r \<le> int k"
proof -
  obtain ns where ns: "contents (group_names s) = concat (map (\<lambda>n. n @ [0]) ns)" "\<forall>n \<in> set ns. 0 \<notin> set n" "length ns = k"
    using assms by (auto simp: names_ok_def)
  show ?thesis
    using find_group_name_loop_ok [OF ns(2), of "contents (group_names s)" "[]" 0 name 1] ns(1,3)
    by (auto simp: find_group_name_def)
qed

lemma names_ok_add:
  assumes "names_ok g k" and "0 \<notin> set name"
  shows "okw (dbuf_put g (name @ [0])) (\<lambda>(_, g'). names_ok g' (Suc k))"
proof -
  obtain ns where ns: "good g" "contents g = concat (map (\<lambda>n. n @ [0]) ns)" "\<forall>n \<in> set ns. 0 \<notin> set n" "length ns = k"
    using assms(1) by (auto simp: names_ok_def)
  have "\<exists>ms. contents g @ name @ [0] = concat (map (\<lambda>n. n @ [0]) ms) \<and> (\<forall>n \<in> set ms. 0 \<notin> set n) \<and> length ms = Suc k"
    using ns assms(2) by (intro exI [of _ "ns @ [name]"]) auto
  then show ?thesis
    using okw_ex [OF dbuf_put_good [OF ns(1), of "name @ [0]"]] by (auto simp: names_ok_def)
qed

end
