(* ===== verification/Re_Exec.thy ===== *)
theory Re_Exec
  imports Re_Opcode
begin

text \<open>
  The backtracking interpreter of \<^verbatim>\<open>libregexp.c\<close>: \<open>lre_exec_backtrack\<close> and \<open>lre_exec\<close>.
  The input \<open>cbuf\<close> is the list of its code units; a \<open>cptr\<close> is an index into it (the C
  pointer difference divided by the unit size), so \<open>cbuf_end\<close> is its length. The stack
  and the saved stacks are lists with the top first. A jump below 0, a read outside the
  bytecode or the input, a push on a full stack, a pop of an empty one, a failed \<open>assert\<close>
  and the \<open>abort\<close> of an unknown opcode are \<open>None\<close>. The interpreter may run for ever, so
  it takes fuel; running out of it is a result of its own (\<open>OutOfFuel\<close>), not a fault.
\<close>

record re_ctx =
  bc :: "u8 list"
  cbuf :: "u16 list"
  cbuf_type :: nat
  cx_capture_count :: nat
  stack_size_max :: nat
  multi_line :: bool
  cx_ignore_case :: bool
  cx_is_utf16 :: bool
  state_alloc :: "nat \<Rightarrow> bool"
  cx_unicode :: unicode_db

abbreviation cbuf_end :: "re_ctx \<Rightarrow> nat" where
  "cbuf_end s \<equiv> length (cbuf s)"

section \<open>Reading characters\<close>

definition is_high_surrogate :: "u32 \<Rightarrow> bool" where
  "is_high_surrogate c \<longleftrightarrow> 0xd800 \<le> c \<and> c < 0xdc00"

definition is_low_surrogate :: "u32 \<Rightarrow> bool" where
  "is_low_surrogate c \<longleftrightarrow> 0xdc00 \<le> c \<and> c < 0xe000"

definition join_surrogates :: "u32 \<Rightarrow> u32 \<Rightarrow> u32" where
  "join_surrogates c c1 = (push_bit 10 (c AND 0x3ff) OR (c1 AND 0x3ff)) + 0x10000"

definition unit_at :: "re_ctx \<Rightarrow> nat \<Rightarrow> u32 option" where
  "unit_at s i = do { u \<leftarrow> rd (cbuf s) i; Some (ucast u) }"

text \<open>\<open>GET_CHAR\<close>; \<open>lim\<close> is its third argument.\<close>

definition get_char :: "re_ctx \<Rightarrow> nat \<Rightarrow> nat \<Rightarrow> (u32 \<times> nat) option" where
  "get_char s cptr lim = do {
     c \<leftarrow> unit_at s cptr;
     let cptr = cptr + 1;
     if is_high_surrogate c \<and> cbuf_type s = 2 \<and> cptr < lim then do {
       c1 \<leftarrow> unit_at s cptr;
       Some (if is_low_surrogate c1 then (join_surrogates c c1, cptr + 1) else (c, cptr))
     }
     else Some (c, cptr)
   }"

definition peek_char :: "re_ctx \<Rightarrow> nat \<Rightarrow> u32 option" where
  "peek_char s cptr = do {
     c \<leftarrow> unit_at s cptr;
     if is_high_surrogate c \<and> cbuf_type s = 2 \<and> cptr + 1 < cbuf_end s then do {
       c1 \<leftarrow> unit_at s (cptr + 1);
       Some (if is_low_surrogate c1 then join_surrogates c c1 else c)
     }
     else Some c
   }"

definition peek_prev_char :: "re_ctx \<Rightarrow> nat \<Rightarrow> u32 option" where
  "peek_prev_char s cptr =
     (if cptr = 0 then None
      else do {
        c \<leftarrow> unit_at s (cptr - 1);
        if is_low_surrogate c \<and> cbuf_type s = 2 \<and> 2 \<le> cptr then do {
          c1 \<leftarrow> unit_at s (cptr - 2);
          Some (if is_high_surrogate c1 then join_surrogates c1 c else c)
        }
        else Some c
      })"

definition get_prev_char :: "re_ctx \<Rightarrow> nat \<Rightarrow> nat \<Rightarrow> (u32 \<times> nat) option" where
  "get_prev_char s cptr start =
     (if cptr = 0 then None
      else do {
        let cptr = cptr - 1;
        c \<leftarrow> unit_at s cptr;
        if is_low_surrogate c \<and> cbuf_type s = 2 \<and> start < cptr then do {
          c1 \<leftarrow> unit_at s (cptr - 1);
          Some (if is_high_surrogate c1 then (join_surrogates c1 c, cptr - 1) else (c, cptr))
        }
        else Some (c, cptr)
      })"

text \<open>\<open>PREV_CHAR\<close>: the position alone.\<close>

definition prev_char :: "re_ctx \<Rightarrow> nat \<Rightarrow> nat option" where
  "prev_char s cptr =
     (if cptr = 0 then None
      else let cptr = cptr - 1
           in if cbuf_type s = 2 then do {
                c \<leftarrow> unit_at s cptr;
                if is_low_surrogate c \<and> 0 < cptr then do {
                  c \<leftarrow> unit_at s (cptr - 1);
                  Some (if is_high_surrogate c then cptr - 1 else cptr)
                }
                else Some cptr
              }
              else Some cptr)"

definition fold_char :: "re_ctx \<Rightarrow> u32 \<Rightarrow> u32" where
  "fold_char s c = (if cx_ignore_case s then lre_canonicalize (cx_unicode s) c (cx_is_utf16 s) else c)"

section \<open>The machine\<close>

datatype state_type = RE_EXEC_STATE_SPLIT | RE_EXEC_STATE_LOOKAHEAD
  | RE_EXEC_STATE_NEGATIVE_LOOKAHEAD | RE_EXEC_STATE_GREEDY_QUANT

record re_exec_state =
  st_type :: state_type
  st_count :: nat
  st_cptr :: nat
  st_pc :: nat
  st_capture :: "nat option list"
  st_stack :: "u64 list"

record re_vm =
  pc :: nat
  cptr :: nat
  capture :: "nat option list"
  stack :: "u64 list"
  states :: "re_exec_state list"
  state_stack_size :: nat

text \<open>\<open>push_state\<close>: \<open>False\<close> when the state stack cannot grow.\<close>

definition push_state :: "re_ctx \<Rightarrow> re_vm \<Rightarrow> nat \<Rightarrow> nat \<Rightarrow> state_type \<Rightarrow> nat \<Rightarrow> bool \<times> re_vm" where
  "push_state s v pc' cptr' ty count =
     (let st = \<lparr>st_type = ty, st_count = count, st_cptr = cptr', st_pc = pc',
                st_capture = capture v, st_stack = stack v\<rparr>
      in if length (states v) + 1 > state_stack_size v then
           let new_size = state_stack_size v * 3 div 2;
               new_size = (if new_size < 8 then 8 else new_size)
           in if state_alloc s new_size
              then (True, v\<lparr>states := st # states v, state_stack_size := new_size\<rparr>)
              else (False, v)
         else (True, v\<lparr>states := st # states v\<rparr>))"

text \<open>What one instruction leads to: the next iteration, the label \<open>no_match\<close>, the
  instruction \<open>match\<close>, \<open>return -1\<close>, or no fuel left.\<close>

datatype signal = Continue | NoMatch | MatchOp | Error | Timeout

definition jump :: "nat \<Rightarrow> u32 \<Rightarrow> nat option" where
  "jump p val = (let t = int p + sint val in if t < 0 then None else Some (nat t))"

fun prev_chars :: "re_ctx \<Rightarrow> nat \<Rightarrow> nat \<Rightarrow> nat option" where
  "prev_chars s 0 c = Some c"
| "prev_chars s (Suc n) c = do { c \<leftarrow> prev_char s c; prev_chars s n c }"

text \<open>The labels \<open>recurse\<close>, \<open>pop_state\<close> and \<open>pop_state1\<close>: the saved states are popped
  until one resumes the machine (\<open>Inr\<close>) or none is left (\<open>Inl\<close>: the result).\<close>

fun unwind :: "re_ctx \<Rightarrow> re_vm \<Rightarrow> bool \<Rightarrow> re_exec_state list \<Rightarrow> ((bool \<times> re_vm) + re_vm) option" where
  "unwind s v ret [] = Some (Inl (ret, v\<lparr>states := []\<rparr>))"
| "unwind s v ret (rs # rest) =
     (case st_type rs of
        RE_EXEC_STATE_SPLIT \<Rightarrow>
          if \<not> ret then Some (Inr (v\<lparr>capture := st_capture rs, pc := st_pc rs, cptr := st_cptr rs,
                                     stack := st_stack rs, states := rest\<rparr>))
          else unwind s v ret rest
      | RE_EXEC_STATE_GREEDY_QUANT \<Rightarrow>
          if \<not> ret then do {
            char_count \<leftarrow> get_u32 (bc s) (st_pc rs + 12);
            cp \<leftarrow> prev_chars s (unat char_count) (st_cptr rs);
            off \<leftarrow> get_u32 (bc s) (st_pc rs);
            pc' \<leftarrow> jump (st_pc rs + 16) off;
            let rs' = rs\<lparr>st_cptr := cp, st_count := st_count rs - 1\<rparr>;
            Some (Inr (v\<lparr>capture := st_capture rs, stack := st_stack rs, pc := pc', cptr := cp,
                         states := (if st_count rs' = 0 then rest else rs' # rest)\<rparr>))
          }
          else unwind s v ret rest
      | RE_EXEC_STATE_LOOKAHEAD \<Rightarrow>
          if ret then Some (Inr (v\<lparr>pc := st_pc rs, cptr := st_cptr rs, stack := st_stack rs,
                                   states := rest\<rparr>))
          else unwind s v False rest
      | RE_EXEC_STATE_NEGATIVE_LOOKAHEAD \<Rightarrow>
          if \<not> ret then Some (Inr (v\<lparr>capture := st_capture rs, pc := st_pc rs, cptr := st_cptr rs,
                                     stack := st_stack rs, states := rest\<rparr>))
          else unwind s v False rest)"

section \<open>Instructions\<close>

definition exec_char :: "re_ctx \<Rightarrow> re_vm \<Rightarrow> u32 \<Rightarrow> (signal \<times> re_vm) option" where
  "exec_char s v val =
     (if cptr v \<ge> cbuf_end s then Some (NoMatch, v)
      else do {
        (c, cp) \<leftarrow> get_char s (cptr v) (cbuf_end s);
        let v = v\<lparr>cptr := cp\<rparr>;
        Some (if val \<noteq> fold_char s c then NoMatch else Continue, v)
      })"

definition exec_split :: "re_ctx \<Rightarrow> re_vm \<Rightarrow> reop \<Rightarrow> (signal \<times> re_vm) option" where
  "exec_split s v op = do {
     val \<leftarrow> get_u32 (bc s) (pc v);
     let p = pc v + 4;
     t \<leftarrow> jump p val;
     let (pc1, pc2) = (if op = REOP_split_next_first then (t, p) else (p, t));
     let (ok, v) = push_state s (v\<lparr>pc := pc2\<rparr>) pc1 (cptr v) RE_EXEC_STATE_SPLIT 0;
     Some (if ok then Continue else Error, v)
   }"

definition exec_lookahead :: "re_ctx \<Rightarrow> re_vm \<Rightarrow> reop \<Rightarrow> (signal \<times> re_vm) option" where
  "exec_lookahead s v op = do {
     val \<leftarrow> get_u32 (bc s) (pc v);
     let p = pc v + 4;
     t \<leftarrow> jump p val;
     let (ok, v) = push_state s (v\<lparr>pc := p\<rparr>) t (cptr v)
           (if op = REOP_lookahead then RE_EXEC_STATE_LOOKAHEAD
            else RE_EXEC_STATE_NEGATIVE_LOOKAHEAD) 0;
     Some (if ok then Continue else Error, v)
   }"

definition exec_goto :: "re_ctx \<Rightarrow> re_vm \<Rightarrow> (signal \<times> re_vm) option" where
  "exec_goto s v = do {
     val \<leftarrow> get_u32 (bc s) (pc v);
     t \<leftarrow> jump (pc v + 4) val;
     Some (Continue, v\<lparr>pc := t\<rparr>)
   }"

definition exec_line_start :: "re_ctx \<Rightarrow> re_vm \<Rightarrow> (signal \<times> re_vm) option" where
  "exec_line_start s v =
     (if cptr v = 0 then Some (Continue, v)
      else if \<not> multi_line s then Some (NoMatch, v)
      else do {
        c \<leftarrow> peek_prev_char s (cptr v);
        Some (if is_line_terminator c then Continue else NoMatch, v)
      })"

definition exec_line_end :: "re_ctx \<Rightarrow> re_vm \<Rightarrow> (signal \<times> re_vm) option" where
  "exec_line_end s v =
     (if cptr v = cbuf_end s then Some (Continue, v)
      else if \<not> multi_line s then Some (NoMatch, v)
      else do {
        c \<leftarrow> peek_char s (cptr v);
        Some (if is_line_terminator c then Continue else NoMatch, v)
      })"

definition exec_dot :: "re_ctx \<Rightarrow> re_vm \<Rightarrow> reop \<Rightarrow> (signal \<times> re_vm) option" where
  "exec_dot s v op =
     (if cptr v = cbuf_end s then Some (NoMatch, v)
      else do {
        (c, cp) \<leftarrow> get_char s (cptr v) (cbuf_end s);
        let v = v\<lparr>cptr := cp\<rparr>;
        Some (if op = REOP_dot \<and> is_line_terminator c then NoMatch else Continue, v)
      })"

definition exec_save :: "re_ctx \<Rightarrow> re_vm \<Rightarrow> reop \<Rightarrow> (signal \<times> re_vm) option" where
  "exec_save s v op = do {
     val \<leftarrow> rd (bc s) (pc v);
     if unat val \<ge> cx_capture_count s then None
     else do {
       let i = 2 * unat val + (if op = REOP_save_end then 1 else 0);
       _ \<leftarrow> rd (capture v) i;
       Some (Continue, v\<lparr>pc := pc v + 1, capture := (capture v)[i := Some (cptr v)]\<rparr>)
     }
   }"

fun reset_captures :: "nat option list \<Rightarrow> nat \<Rightarrow> nat \<Rightarrow> nat option list" where
  "reset_captures cap val 0 = cap"
| "reset_captures cap val (Suc n) =
     reset_captures (cap[2 * val := None, 2 * val + 1 := None]) (val + 1) n"

definition exec_save_reset :: "re_ctx \<Rightarrow> re_vm \<Rightarrow> (signal \<times> re_vm) option" where
  "exec_save_reset s v = do {
     val \<leftarrow> rd (bc s) (pc v);
     val2 \<leftarrow> rd (bc s) (pc v + 1);
     if unat val2 \<ge> cx_capture_count s then None
     else if 2 * unat val2 + 1 \<ge> length (capture v) then None
     else Some (Continue, v\<lparr>pc := pc v + 2,
            capture := reset_captures (capture v) (unat val) (unat val2 + 1 - unat val)\<rparr>)
   }"

definition push_int :: "re_ctx \<Rightarrow> re_vm \<Rightarrow> u64 \<Rightarrow> (signal \<times> re_vm) option" where
  "push_int s v x =
     (if length (stack v) < stack_size_max s then Some (Continue, v\<lparr>stack := x # stack v\<rparr>) else None)"

definition exec_push_i32 :: "re_ctx \<Rightarrow> re_vm \<Rightarrow> (signal \<times> re_vm) option" where
  "exec_push_i32 s v = do {
     val \<leftarrow> get_u32 (bc s) (pc v);
     push_int s (v\<lparr>pc := pc v + 4\<rparr>) (ucast val)
   }"

definition exec_drop :: "re_vm \<Rightarrow> (signal \<times> re_vm) option" where
  "exec_drop v = (case stack v of [] \<Rightarrow> None | _ # st \<Rightarrow> Some (Continue, v\<lparr>stack := st\<rparr>))"

definition exec_loop :: "re_ctx \<Rightarrow> re_vm \<Rightarrow> (signal \<times> re_vm) option" where
  "exec_loop s v = do {
     val \<leftarrow> get_u32 (bc s) (pc v);
     let p = pc v + 4;
     (case stack v of
        [] \<Rightarrow> None
      | x # st \<Rightarrow> do {
          p \<leftarrow> (if x - 1 \<noteq> 0 then jump p val else Some p);
          Some (Continue, v\<lparr>pc := p, stack := (x - 1) # st\<rparr>)
        })
   }"

definition exec_bne_char_pos :: "re_ctx \<Rightarrow> re_vm \<Rightarrow> (signal \<times> re_vm) option" where
  "exec_bne_char_pos s v = do {
     val \<leftarrow> get_u32 (bc s) (pc v);
     let p = pc v + 4;
     (case stack v of
        [] \<Rightarrow> None
      | x # st \<Rightarrow> do {
          p \<leftarrow> (if x \<noteq> of_nat (cptr v) then jump p val else Some p);
          Some (Continue, v\<lparr>pc := p, stack := st\<rparr>)
        })
   }"

definition exec_word_boundary :: "re_ctx \<Rightarrow> re_vm \<Rightarrow> reop \<Rightarrow> (signal \<times> re_vm) option" where
  "exec_word_boundary s v op = do {
     v1 \<leftarrow> (if cptr v = 0 then Some False
            else do { c \<leftarrow> peek_prev_char s (cptr v); Some (is_word_char c) });
     v2 \<leftarrow> (if cptr v \<ge> cbuf_end s then Some False
            else do { c \<leftarrow> peek_char s (cptr v); Some (is_word_char c) });
     Some (if (v1 \<noteq> v2) \<noteq> (op = REOP_word_boundary) then NoMatch else Continue, v)
   }"

text \<open>The loops of the back references: \<open>Some (Some cptr)\<close> when all characters agree.\<close>

fun back_ref_loop :: "nat \<Rightarrow> re_ctx \<Rightarrow> nat \<Rightarrow> nat \<Rightarrow> nat \<Rightarrow> nat option option" where
  "back_ref_loop 0 s cptr1 cptr1_end cp = None"
| "back_ref_loop (Suc n) s cptr1 cptr1_end cp =
     (if cptr1 < cptr1_end then
        (if cp \<ge> cbuf_end s then Some None
         else do {
           (c1, cptr1) \<leftarrow> get_char s cptr1 cptr1_end;
           (c2, cp) \<leftarrow> get_char s cp (cbuf_end s);
           if fold_char s c1 \<noteq> fold_char s c2 then Some None
           else back_ref_loop n s cptr1 cptr1_end cp
         })
      else Some (Some cp))"

fun backward_ref_loop :: "nat \<Rightarrow> re_ctx \<Rightarrow> nat \<Rightarrow> nat \<Rightarrow> nat \<Rightarrow> nat option option" where
  "backward_ref_loop 0 s cptr1 cptr1_start cp = None"
| "backward_ref_loop (Suc n) s cptr1 cptr1_start cp =
     (if cptr1 > cptr1_start then
        (if cp = 0 then Some None
         else do {
           (c1, cptr1) \<leftarrow> get_prev_char s cptr1 cptr1_start;
           (c2, cp) \<leftarrow> get_prev_char s cp 0;
           if fold_char s c1 \<noteq> fold_char s c2 then Some None
           else backward_ref_loop n s cptr1 cptr1_start cp
         })
      else Some (Some cp))"

definition exec_back_reference :: "re_ctx \<Rightarrow> re_vm \<Rightarrow> reop \<Rightarrow> (signal \<times> re_vm) option" where
  "exec_back_reference s v op = do {
     val \<leftarrow> rd (bc s) (pc v);
     let v = v\<lparr>pc := pc v + 1\<rparr>;
     if unat val \<ge> cx_capture_count s then Some (NoMatch, v)
     else do {
       st \<leftarrow> rd (capture v) (2 * unat val);
       en \<leftarrow> rd (capture v) (2 * unat val + 1);
       (case (st, en) of
          (Some cptr1_start, Some cptr1_end) \<Rightarrow> do {
            r \<leftarrow> (if op = REOP_back_reference
                  then back_ref_loop (Suc (cbuf_end s)) s cptr1_start cptr1_end (cptr v)
                  else backward_ref_loop (Suc (cbuf_end s)) s cptr1_end cptr1_start (cptr v));
            Some (case r of None \<Rightarrow> (NoMatch, v) | Some cp \<Rightarrow> (Continue, v\<lparr>cptr := cp\<rparr>))
          }
        | _ \<Rightarrow> Some (Continue, v))
     }
   }"

text \<open>The binary search in the intervals of a class; \<open>get lo\<close>/\<open>get hi\<close> read the bounds.\<close>

fun range_search ::
  "nat \<Rightarrow> (u32 \<Rightarrow> u32 option) \<Rightarrow> (u32 \<Rightarrow> u32 option) \<Rightarrow> u32 \<Rightarrow> u32 \<Rightarrow> u32 \<Rightarrow> bool option" where
  "range_search 0 lo hi c idx_min idx_max = None"
| "range_search (Suc n) lo hi c idx_min idx_max =
     (if idx_min \<le> idx_max then do {
        let idx = (idx_min + idx_max) div 2;
        low \<leftarrow> lo idx;
        high \<leftarrow> hi idx;
        if c < low then range_search n lo hi c idx_min (idx - 1)
        else if c > high then range_search n lo hi c (idx + 1) idx_max
        else Some True
      }
      else Some False)"

text \<open>The bounds of interval \<open>i\<close>, for intervals of 16 and of 32 bits at \<open>p\<close>.\<close>

definition range16_lo :: "u8 list \<Rightarrow> nat \<Rightarrow> u32 \<Rightarrow> u32 option" where
  "range16_lo b p i = do { x \<leftarrow> get_u16 b (p + unat i * 4); Some (ucast x) }"

definition range16_hi :: "u8 list \<Rightarrow> nat \<Rightarrow> u32 \<Rightarrow> u32 option" where
  "range16_hi b p i = do { x \<leftarrow> get_u16 b (p + unat i * 4 + 2); Some (ucast x) }"

definition range32_lo :: "u8 list \<Rightarrow> nat \<Rightarrow> u32 \<Rightarrow> u32 option" where
  "range32_lo b p i = get_u32 b (p + unat i * 8)"

definition range32_hi :: "u8 list \<Rightarrow> nat \<Rightarrow> u32 \<Rightarrow> u32 option" where
  "range32_hi b p i = get_u32 b (p + unat i * 8 + 4)"

text \<open>The test of \<open>c\<close> against \<open>n\<close> intervals. With 16 bits (\<open>wide\<close>) 0xffff as the last bound
  means +infinity.\<close>

definition class_test ::
  "bool \<Rightarrow> u16 \<Rightarrow> (u32 \<Rightarrow> u32 option) \<Rightarrow> (u32 \<Rightarrow> u32 option) \<Rightarrow> u32 \<Rightarrow> bool option" where
  "class_test wide n lo hi c = do {
     low \<leftarrow> lo 0;
     if c < low then Some False
     else do {
       let idx_max = ucast n - (1 :: u32);
       high \<leftarrow> hi idx_max;
       if wide \<and> c \<ge> 0xffff \<and> high = 0xffff then Some True
       else if c > high then Some False
       else range_search (Suc (unat n)) lo hi c 0 idx_max
     }
   }"

definition exec_range :: "re_ctx \<Rightarrow> re_vm \<Rightarrow> (signal \<times> re_vm) option" where
  "exec_range s v = do {
     n \<leftarrow> get_u16 (bc s) (pc v);
     let p = pc v + 2;
     if cptr v \<ge> cbuf_end s then Some (NoMatch, v\<lparr>pc := p\<rparr>)
     else do {
       (c, cp) \<leftarrow> get_char s (cptr v) (cbuf_end s);
       found \<leftarrow> class_test True n (range16_lo (bc s) p) (range16_hi (bc s) p) (fold_char s c);
       Some (if found then (Continue, v\<lparr>pc := p + 4 * unat n, cptr := cp\<rparr>)
             else (NoMatch, v\<lparr>pc := p, cptr := cp\<rparr>))
     }
   }"

definition exec_range32 :: "re_ctx \<Rightarrow> re_vm \<Rightarrow> (signal \<times> re_vm) option" where
  "exec_range32 s v = do {
     n \<leftarrow> get_u16 (bc s) (pc v);
     let p = pc v + 2;
     if cptr v \<ge> cbuf_end s then Some (NoMatch, v\<lparr>pc := p\<rparr>)
     else do {
       (c, cp) \<leftarrow> get_char s (cptr v) (cbuf_end s);
       found \<leftarrow> class_test False n (range32_lo (bc s) p) (range32_hi (bc s) p) (fold_char s c);
       Some (if found then (Continue, v\<lparr>pc := p + 8 * unat n, cptr := cp\<rparr>)
             else (NoMatch, v\<lparr>pc := p, cptr := cp\<rparr>))
     }
   }"

definition exec_prev :: "re_ctx \<Rightarrow> re_vm \<Rightarrow> (signal \<times> re_vm) option" where
  "exec_prev s v =
     (if cptr v = 0 then Some (NoMatch, v)
      else do { cp \<leftarrow> prev_char s (cptr v); Some (Continue, v\<lparr>cptr := cp\<rparr>) })"

text \<open>The result of \<open>lre_exec_backtrack\<close>: -1, 0, a match (with \<open>cptr\<close> in the machine), or
  no result within the fuel.\<close>

datatype exec_res = ResError | ResNoMatch | ResMatch | OutOfFuel

text \<open>The loop of \<open>simple_greedy_quant\<close>: \<open>inner\<close> is the call with \<open>no_recurse\<close> from the
  body. It returns the number of rounds, or what ends the interpreter.\<close>

fun greedy_loop ::
  "nat \<Rightarrow> (re_vm \<Rightarrow> (exec_res \<times> re_vm) option) \<Rightarrow> re_vm \<Rightarrow> nat \<Rightarrow> nat \<Rightarrow> nat \<Rightarrow>
   ((signal + nat) \<times> re_vm) option" where
  "greedy_loop 0 inner v pc1 q quant_max = Some (Inl Timeout, v)"
| "greedy_loop (Suc n) inner v pc1 q quant_max = do {
     (r, w) \<leftarrow> inner (v\<lparr>pc := pc1\<rparr>);
     (case r of
        ResError \<Rightarrow> Some (Inl Error, w)
      | OutOfFuel \<Rightarrow> Some (Inl Timeout, w)
      | ResNoMatch \<Rightarrow> Some (Inr q, w\<lparr>cptr := cptr v, stack := stack v\<rparr>)
      | ResMatch \<Rightarrow>
          let v' = w\<lparr>stack := stack v\<rparr>
          in if q + 1 \<ge> quant_max \<and> quant_max \<noteq> INT32_MAX then Some (Inr (q + 1), v')
             else greedy_loop n inner v' pc1 (q + 1) quant_max)
   }"

definition exec_simple_greedy_quant ::
  "nat \<Rightarrow> (re_vm \<Rightarrow> (exec_res \<times> re_vm) option) \<Rightarrow> re_ctx \<Rightarrow> re_vm \<Rightarrow> (signal \<times> re_vm) option" where
  "exec_simple_greedy_quant fuel inner s v = do {
     next_pos \<leftarrow> get_u32 (bc s) (pc v);
     quant_min \<leftarrow> get_u32 (bc s) (pc v + 4);
     quant_max \<leftarrow> get_u32 (bc s) (pc v + 8);
     let pc1 = pc v + 16;
     pc2 \<leftarrow> jump pc1 next_pos;
     (r, v) \<leftarrow> greedy_loop fuel inner v pc1 0 (unat quant_max);
     (case r of
        Inl sg \<Rightarrow> Some (sg, v)
      | Inr q \<Rightarrow>
          let v = v\<lparr>pc := pc2\<rparr>
          in if q < unat quant_min then Some (NoMatch, v)
             else if q > unat quant_min then
               let (ok, v) = push_state s v (pc1 - 16) (cptr v) RE_EXEC_STATE_GREEDY_QUANT
                               (q - unat quant_min)
               in Some (if ok then Continue else Error, v)
             else Some (Continue, v))
   }"

text \<open>One iteration of the interpreter loop, after \<open>opcode = *pc++\<close>.\<close>

definition exec_op ::
  "nat \<Rightarrow> (re_vm \<Rightarrow> (exec_res \<times> re_vm) option) \<Rightarrow> re_ctx \<Rightarrow> reop \<Rightarrow> re_vm \<Rightarrow> (signal \<times> re_vm) option" where
  "exec_op fuel inner s op v =
     (case op of
        REOP_match \<Rightarrow> Some (MatchOp, v)
      | REOP_char32 \<Rightarrow> do { val \<leftarrow> get_u32 (bc s) (pc v); exec_char s (v\<lparr>pc := pc v + 4\<rparr>) val }
      | REOP_char \<Rightarrow> do { val \<leftarrow> get_u16 (bc s) (pc v); exec_char s (v\<lparr>pc := pc v + 2\<rparr>) (ucast val) }
      | REOP_split_goto_first \<Rightarrow> exec_split s v op
      | REOP_split_next_first \<Rightarrow> exec_split s v op
      | REOP_lookahead \<Rightarrow> exec_lookahead s v op
      | REOP_negative_lookahead \<Rightarrow> exec_lookahead s v op
      | REOP_goto \<Rightarrow> exec_goto s v
      | REOP_line_start \<Rightarrow> exec_line_start s v
      | REOP_line_end \<Rightarrow> exec_line_end s v
      | REOP_dot \<Rightarrow> exec_dot s v op
      | REOP_any \<Rightarrow> exec_dot s v op
      | REOP_save_start \<Rightarrow> exec_save s v op
      | REOP_save_end \<Rightarrow> exec_save s v op
      | REOP_save_reset \<Rightarrow> exec_save_reset s v
      | REOP_push_i32 \<Rightarrow> exec_push_i32 s v
      | REOP_drop \<Rightarrow> exec_drop v
      | REOP_loop \<Rightarrow> exec_loop s v
      | REOP_push_char_pos \<Rightarrow> push_int s v (of_nat (cptr v))
      | REOP_bne_char_pos \<Rightarrow> exec_bne_char_pos s v
      | REOP_word_boundary \<Rightarrow> exec_word_boundary s v op
      | REOP_not_word_boundary \<Rightarrow> exec_word_boundary s v op
      | REOP_back_reference \<Rightarrow> exec_back_reference s v op
      | REOP_backward_back_reference \<Rightarrow> exec_back_reference s v op
      | REOP_range \<Rightarrow> exec_range s v
      | REOP_range32 \<Rightarrow> exec_range32 s v
      | REOP_prev \<Rightarrow> exec_prev s v
      | REOP_simple_greedy_quant \<Rightarrow> exec_simple_greedy_quant fuel inner s v
      | REOP_invalid \<Rightarrow> None)"

text \<open>\<open>lre_exec_backtrack\<close>.\<close>

fun lre_exec_backtrack :: "nat \<Rightarrow> re_ctx \<Rightarrow> re_vm \<Rightarrow> bool \<Rightarrow> (exec_res \<times> re_vm) option" where
  "lre_exec_backtrack 0 s v no_recurse = Some (OutOfFuel, v)"
| "lre_exec_backtrack (Suc fuel) s v no_recurse = do {
     b \<leftarrow> rd (bc s) (pc v);
     op \<leftarrow> reop_of b;
     (sg, v) \<leftarrow> exec_op fuel (\<lambda>w. lre_exec_backtrack fuel s w True) s op (v\<lparr>pc := pc v + 1\<rparr>);
     (case sg of
        Continue \<Rightarrow> lre_exec_backtrack fuel s v no_recurse
      | Error \<Rightarrow> Some (ResError, v)
      | Timeout \<Rightarrow> Some (OutOfFuel, v)
      | _ \<Rightarrow>
          let ret = (sg = MatchOp)
          in if no_recurse then Some (if ret then ResMatch else ResNoMatch, v)
             else do {
               u \<leftarrow> unwind s v ret (states v);
               (case u of
                  Inl (r, v) \<Rightarrow> Some (if r then ResMatch else ResNoMatch, v)
                | Inr v \<Rightarrow> lre_exec_backtrack fuel s v no_recurse)
             })
   }"

declare back_ref_loop.simps [simp del] backward_ref_loop.simps [simp del] range_search.simps [simp del]
  greedy_loop.simps [simp del] lre_exec_backtrack.simps [simp del]

section \<open>The entry point\<close>

definition lre_get_capture_count :: "u8 list \<Rightarrow> nat option" where
  "lre_get_capture_count b = do { c \<leftarrow> rd b 1; Some (unat c) }"

definition lre_get_flags :: "u8 list \<Rightarrow> u8 option" where
  "lre_get_flags b = rd b 0"

text \<open>The offset of the group names in the bytecode, if there are any.\<close>

definition lre_get_groupnames :: "u8 list \<Rightarrow> nat option option" where
  "lre_get_groupnames b = do {
     f \<leftarrow> lre_get_flags b;
     if f AND LRE_FLAG_NAMED_GROUPS = 0 then Some None
     else do { n \<leftarrow> get_u32 b 3; Some (Some (7 + unat n)) }
   }"

definition re_ctx_init ::
  "u8 list \<Rightarrow> u16 list \<Rightarrow> nat \<Rightarrow> (nat \<Rightarrow> bool) \<Rightarrow> unicode_db \<Rightarrow> re_ctx option" where
  "re_ctx_init bc_buf input ctype alloc U = do {
     re_flags \<leftarrow> rd bc_buf 0;
     cc \<leftarrow> rd bc_buf 1;
     ss \<leftarrow> rd bc_buf 2;
     let utf16 = (re_flags AND LRE_FLAG_UTF16 \<noteq> 0);
     Some \<lparr>bc = bc_buf, cbuf = input, cbuf_type = (if ctype = 1 \<and> utf16 then 2 else ctype),
           cx_capture_count = unat cc, stack_size_max = unat ss,
           multi_line = (re_flags AND LRE_FLAG_MULTILINE \<noteq> 0),
           cx_ignore_case = (re_flags AND LRE_FLAG_IGNORECASE \<noteq> 0), cx_is_utf16 = utf16,
           state_alloc = alloc, cx_unicode = U\<rparr>
   }"

text \<open>\<open>lre_exec\<close>: the C result (\<open>None\<close> if the fuel does not suffice) and the captures. The caller's array has \<open>capture_count\<close>
  pairs; it is cleared first.\<close>

definition lre_exec ::
  "nat \<Rightarrow> u8 list \<Rightarrow> u16 list \<Rightarrow> nat \<Rightarrow> nat \<Rightarrow> (nat \<Rightarrow> bool) \<Rightarrow> unicode_db \<Rightarrow>
   (int option \<times> nat option list) option" where
  "lre_exec fuel bc_buf input cindex ctype alloc U = do {
     s \<leftarrow> re_ctx_init bc_buf input ctype alloc U;
     let v = \<lparr>pc = RE_HEADER_LEN, cptr = cindex, capture = replicate (cx_capture_count s * 2) None,
              stack = [], states = [], state_stack_size = 0\<rparr>;
     (r, v) \<leftarrow> lre_exec_backtrack fuel s v False;
     Some (case r of ResError \<Rightarrow> Some (- 1) | ResNoMatch \<Rightarrow> Some 0 | ResMatch \<Rightarrow> Some 1
           | OutOfFuel \<Rightarrow> None, capture v)
   }"

end
