(* ===== verification/Re_Typing.thy ===== *)
theory Re_Typing
  imports Re_Code Re_Exec
begin

text \<open>
  A typing of bytecode in the style of bytecode verifiers: a set \<open>T\<close> of pairs of a position
  and a stack depth such that at each of them stands a complete instruction whose successors
  are in \<open>T\<close> again. Every code fragment has such a typing, relative to the place it returns
  to (\<open>frag_typed\<close>).
\<close>

definition tgt :: "u8 list \<Rightarrow> nat \<Rightarrow> nat \<Rightarrow> nat \<Rightarrow> (nat \<times> nat) set \<Rightarrow> bool" where
  "tgt b p q d T \<longleftrightarrow> (\<exists>w t. get_u32 b (p + 1) = Some w \<and> jump q w = Some t \<and> (t, d) \<in> T)"

definition greedy_ok :: "u8 list \<Rightarrow> nat \<Rightarrow> bool" where
  "greedy_ok b p \<longleftrightarrow> (\<exists>k body rest. 0 < k \<and> k < 2 ^ 32 \<and> simple k body \<and>
     get_u32 b (p + 13) = Some (of_nat k) \<and> p + 17 \<le> length b \<and>
     drop (p + 17) b = body @ ins REOP_match [] @ rest)"

definition step_ok :: "nat \<Rightarrow> u8 list \<Rightarrow> nat \<Rightarrow> nat \<Rightarrow> (nat \<times> nat) set \<Rightarrow> bool" where
  "step_ok cc b p d T \<longleftrightarrow> p < length b \<and> (\<exists>op. reop_of (b ! p) = Some op \<and>
     (case op of
        REOP_match \<Rightarrow> True
      | REOP_char \<Rightarrow> p + 3 \<le> length b \<and> (p + 3, d) \<in> T
      | REOP_char32 \<Rightarrow> p + 5 \<le> length b \<and> (p + 5, d) \<in> T
      | REOP_split_goto_first \<Rightarrow> (p + 5, d) \<in> T \<and> tgt b p (p + 5) d T
      | REOP_split_next_first \<Rightarrow> (p + 5, d) \<in> T \<and> tgt b p (p + 5) d T
      | REOP_lookahead \<Rightarrow> (p + 5, d) \<in> T \<and> tgt b p (p + 5) d T
      | REOP_negative_lookahead \<Rightarrow> (p + 5, d) \<in> T \<and> tgt b p (p + 5) d T
      | REOP_goto \<Rightarrow> tgt b p (p + 5) d T
      | REOP_save_start \<Rightarrow> p + 2 \<le> length b \<and> unat (b ! (p + 1)) < cc \<and> (p + 2, d) \<in> T
      | REOP_save_end \<Rightarrow> p + 2 \<le> length b \<and> unat (b ! (p + 1)) < cc \<and> (p + 2, d) \<in> T
      | REOP_save_reset \<Rightarrow> p + 3 \<le> length b \<and> unat (b ! (p + 2)) < cc \<and> (p + 3, d) \<in> T
      | REOP_push_i32 \<Rightarrow> p + 5 \<le> length b \<and> (p + 5, Suc d) \<in> T
      | REOP_drop \<Rightarrow> 0 < d \<and> (p + 1, d - 1) \<in> T
      | REOP_loop \<Rightarrow> 0 < d \<and> (p + 5, d) \<in> T \<and> tgt b p (p + 5) d T
      | REOP_push_char_pos \<Rightarrow> (p + 1, Suc d) \<in> T
      | REOP_bne_char_pos \<Rightarrow> 0 < d \<and> (p + 5, d - 1) \<in> T \<and> tgt b p (p + 5) (d - 1) T
      | REOP_back_reference \<Rightarrow> p + 2 \<le> length b \<and> (p + 2, d) \<in> T
      | REOP_backward_back_reference \<Rightarrow> p + 2 \<le> length b \<and> (p + 2, d) \<in> T
      | REOP_range \<Rightarrow> (\<exists>w. get_u16 b (p + 1) = Some w \<and> w \<noteq> 0 \<and> p + 3 + 4 * unat w \<le> length b \<and>
          (p + 3 + 4 * unat w, d) \<in> T)
      | REOP_range32 \<Rightarrow> (\<exists>w. get_u16 b (p + 1) = Some w \<and> w \<noteq> 0 \<and> p + 3 + 8 * unat w \<le> length b \<and>
          (p + 3 + 8 * unat w, d) \<in> T)
      | REOP_simple_greedy_quant \<Rightarrow> greedy_ok b p \<and> tgt b p (p + 17) d T
      | REOP_invalid \<Rightarrow> False
      | _ \<Rightarrow> (p + 1, d) \<in> T))"

lemma tgt_mono: "tgt b p q d T \<Longrightarrow> T \<subseteq> T' \<Longrightarrow> tgt b p q d T'"
  by (auto simp: tgt_def)

lemma step_ok_mono: "step_ok cc b p d T \<Longrightarrow> T \<subseteq> T' \<Longrightarrow> step_ok cc b p d T'"
  unfolding step_ok_def
  by (elim conjE exE; rule conjI, assumption) (rule exI, rule conjI, assumption,
      auto split: reop.splits dest: tgt_mono)

text \<open>A code in its context: \<open>a\<close> stands at \<open>p\<close> in \<open>b\<close>.\<close>

definition stands :: "u8 list \<Rightarrow> nat \<Rightarrow> u8 list \<Rightarrow> bool" where
  "stands b p a \<longleftrightarrow> (\<exists>u w. b = u @ a @ w \<and> length u = p)"

lemma stands_append: "stands b p (a @ c) \<longleftrightarrow> stands b p a \<and> stands b (p + length a) c"
proof
  assume "stands b p (a @ c)"
  then obtain u w where "b = u @ a @ c @ w" "length u = p" by (auto simp: stands_def)
  moreover have "u @ a @ c @ w = (u @ a) @ c @ w" by simp
  ultimately show "stands b p a \<and> stands b (p + length a) c"
    unfolding stands_def by (metis append_assoc length_append)
next
  assume "stands b p a \<and> stands b (p + length a) c"
  then obtain u w u' w' where 1: "b = u @ a @ w" "length u = p" "b = u' @ c @ w'"
    "length u' = p + length a" unfolding stands_def by metis
  then have "u' = take (p + length a) b" by (metis append_eq_conv_conj)
  also have "\<dots> = u @ a" unfolding 1(1) using 1(2) by simp
  finally have "b = u @ (a @ c) @ w'" using 1(3) by simp
  then show "stands b p (a @ c)" using 1(2) unfolding stands_def by blast
qed

lemma stands_le: "stands b p a \<Longrightarrow> p + length a \<le> length b"
  by (auto simp: stands_def)

lemma stands_nth: "stands b p a \<Longrightarrow> i < length a \<Longrightarrow> b ! (p + i) = a ! i"
  by (auto simp: stands_def nth_append)

lemma stands_op: "stands b p (ins op x) \<Longrightarrow> p < length b \<and> reop_of (b ! p) = Some op"
  using stands_nth [of b p "ins op x" 0] stands_le [of b p "ins op x"] by (simp add: ins_def)

lemma stands_get_u32:
  assumes "stands b p (u32_bytes w)"
  shows "get_u32 b p = Some w"
proof -
  have "p + 4 \<le> length b" using stands_le [OF assms] by simp
  moreover have n: "b ! (p + i) = u32_bytes w ! i" if "i < 4" for i
    using stands_nth [OF assms, of i] that by simp
  ultimately show ?thesis
    using n [of 0] n [of 1] n [of 2] n [of 3] unfolding get_u32_def
    by (simp add: u32_bytes_def u32_of_bytes)
qed

lemma stands_u32:
  assumes "stands b p (ins op (u32_bytes w @ y))"
  shows "get_u32 b (p + 1) = Some w"
proof -
  have "stands b p ([reop_code op] @ u32_bytes w @ y)" using assms by (simp add: ins_def)
  then show ?thesis unfolding stands_append by (intro stands_get_u32) simp
qed

lemma stands_u16:
  assumes "stands b p (ins op (u16_bytes w @ y))"
  shows "get_u16 b (p + 1) = Some w"
proof -
  have "p + 3 \<le> length b" using stands_le [OF assms] by simp
  moreover have "b ! (p + Suc i) = u16_bytes w ! i" if "i < 2" for i
    using stands_nth [OF assms, of "Suc i"] that by (simp add: ins_def nth_append)
  from this [of 0] this [of 1]
  have "b ! (p + 1) = ucast w" "b ! (p + 2) = ucast (drop_bit 8 w)"
    by (simp_all add: u16_bytes_def eval_nat_numeral)
  ultimately show ?thesis by (simp add: get_u16_def add.commute u16_of_bytes)
qed

lemma jump_word:
  assumes "int q + r = int t" and "\<bar>r\<bar> < 2 ^ 31"
  shows "jump q (word_of_int r) = Some t"
proof -
  have "sint (word_of_int r :: u32) = r"
    using assms(2) by (simp add: signed_of_int signed_take_bit_int_eq_self)
  then show ?thesis using assms(1) by (simp add: jump_def Let_def)
qed

lemma tgt_rel:
  assumes "stands b p (ins op (rel r @ y))" and "length b < 2 ^ 31" and "int q + r = int t"
    and "q \<le> length b" and "t \<le> length b" and "(t, d) \<in> T"
  shows "tgt b p q d T"
proof -
  have "int (length b) < 2 ^ 31" using assms(2) by simp
  then have "\<bar>r\<bar> < 2 ^ 31" using assms(3-5) by linarith
  then show ?thesis
    using jump_word [OF assms(3)] stands_u32 [OF assms(1) [unfolded rel_def]] assms(6)
    by (auto simp: tgt_def)
qed

section \<open>Instructions in context\<close>

lemma step_jump:
  assumes "stands b p (ins op (rel r))" and "length b < 2 ^ 31" and "int (p + 5) + r = int t"
    and "t \<le> length b"
  shows "is_split op \<or> op \<in> {REOP_lookahead, REOP_negative_lookahead} \<Longrightarrow> (p + 5, d) \<in> T \<Longrightarrow>
      (t, d) \<in> T \<Longrightarrow> step_ok cc b p d T"
    and "op = REOP_goto \<Longrightarrow> (t, d) \<in> T \<Longrightarrow> step_ok cc b p d T"
    and "op = REOP_loop \<Longrightarrow> 0 < d \<Longrightarrow> (p + 5, d) \<in> T \<Longrightarrow> (t, d) \<in> T \<Longrightarrow> step_ok cc b p d T"
    and "op = REOP_bne_char_pos \<Longrightarrow> 0 < d \<Longrightarrow> (p + 5, d - 1) \<in> T \<Longrightarrow> (t, d - 1) \<in> T \<Longrightarrow>
      step_ok cc b p d T"
proof -
  have le: "p + 5 \<le> length b" using stands_le [OF assms(1)] by simp
  have t: "(t, e) \<in> T \<Longrightarrow> tgt b p (p + 5) e T" for e
    using assms(1) by (intro tgt_rel [OF _ assms(2,3) le assms(4), where op = op and y = "[]"]) auto
  note o = stands_op [OF assms(1)]
  show "is_split op \<or> op \<in> {REOP_lookahead, REOP_negative_lookahead} \<Longrightarrow> (p + 5, d) \<in> T \<Longrightarrow>
      (t, d) \<in> T \<Longrightarrow> step_ok cc b p d T"
    using o t [of d] by (auto simp: step_ok_def is_split_def)
  show "op = REOP_goto \<Longrightarrow> (t, d) \<in> T \<Longrightarrow> step_ok cc b p d T"
    using o t [of d] by (auto simp: step_ok_def)
  show "op = REOP_loop \<Longrightarrow> 0 < d \<Longrightarrow> (p + 5, d) \<in> T \<Longrightarrow> (t, d) \<in> T \<Longrightarrow> step_ok cc b p d T"
    using o t [of d] by (auto simp: step_ok_def)
  show "op = REOP_bne_char_pos \<Longrightarrow> 0 < d \<Longrightarrow> (p + 5, d - 1) \<in> T \<Longrightarrow> (t, d - 1) \<in> T \<Longrightarrow>
      step_ok cc b p d T"
    using o t [of "d - 1"] by (auto simp: step_ok_def)
qed

lemma step_plain:
  assumes "stands b p (ins op [])"
  shows "op \<in> {REOP_dot, REOP_any, REOP_line_start, REOP_line_end, REOP_word_boundary,
      REOP_not_word_boundary, REOP_prev} \<Longrightarrow> (p + 1, d) \<in> T \<Longrightarrow> step_ok cc b p d T"
    and "op = REOP_match \<Longrightarrow> step_ok cc b p d T"
    and "op = REOP_drop \<Longrightarrow> 0 < d \<Longrightarrow> (p + 1, d - 1) \<in> T \<Longrightarrow> step_ok cc b p d T"
    and "op = REOP_push_char_pos \<Longrightarrow> (p + 1, Suc d) \<in> T \<Longrightarrow> step_ok cc b p d T"
  using stands_op [OF assms] by (auto simp: step_ok_def)

lemma step_args:
  assumes "stands b p (ins op x)"
  shows "op = REOP_char \<Longrightarrow> length x = 2 \<Longrightarrow> (p + 3, d) \<in> T \<Longrightarrow> step_ok cc b p d T"
    and "op = REOP_char32 \<Longrightarrow> length x = 4 \<Longrightarrow> (p + 5, d) \<in> T \<Longrightarrow> step_ok cc b p d T"
    and "op = REOP_push_i32 \<Longrightarrow> length x = 4 \<Longrightarrow> (p + 5, Suc d) \<in> T \<Longrightarrow> step_ok cc b p d T"
    and "op \<in> {REOP_save_start, REOP_save_end} \<Longrightarrow> x = [i] \<Longrightarrow> unat i < cc \<Longrightarrow> (p + 2, d) \<in> T \<Longrightarrow>
      step_ok cc b p d T"
    and "op = REOP_save_reset \<Longrightarrow> x = [i, j] \<Longrightarrow> unat j < cc \<Longrightarrow> (p + 3, d) \<in> T \<Longrightarrow> step_ok cc b p d T"
    and "op \<in> {REOP_back_reference, REOP_backward_back_reference} \<Longrightarrow> x = [i] \<Longrightarrow> (p + 2, d) \<in> T \<Longrightarrow>
      step_ok cc b p d T"
  using stands_op [OF assms] stands_le [OF assms] stands_nth [OF assms, of 1] stands_nth [OF assms, of 2]
  by (auto simp: step_ok_def ins_def)

lemma step_range:
  assumes "stands b p (ins op (u16_bytes (of_nat n) @ x))" and "0 < n" and "n < 65536"
  shows "op = REOP_range \<Longrightarrow> length x = 4 * n \<Longrightarrow> (Suc (Suc (Suc (p + 4 * n))), d) \<in> T \<Longrightarrow> step_ok cc b p d T"
    and "op = REOP_range32 \<Longrightarrow> length x = 8 * n \<Longrightarrow> (Suc (Suc (Suc (p + 8 * n))), d) \<in> T \<Longrightarrow> step_ok cc b p d T"
proof -
  have u: "unat (of_nat n :: u16) = n" using assms(3) by (simp add: unat_of_nat take_bit_eq_mod)
  then have "(of_nat n :: u16) \<noteq> 0" using assms(2) by (metis less_irrefl unat_0)
  then show "op = REOP_range \<Longrightarrow> length x = 4 * n \<Longrightarrow> (Suc (Suc (Suc (p + 4 * n))), d) \<in> T \<Longrightarrow> step_ok cc b p d T"
    "op = REOP_range32 \<Longrightarrow> length x = 8 * n \<Longrightarrow> (Suc (Suc (Suc (p + 8 * n))), d) \<in> T \<Longrightarrow> step_ok cc b p d T"
    using stands_op [OF assms(1)] stands_le [OF assms(1)] stands_u16 [OF assms(1)] u
    by (auto simp: step_ok_def eval_nat_numeral)
qed

section \<open>Fragments\<close>

text \<open>The set \<open>T\<close> types what stands inside, relative to the set \<open>X\<close> that types what
  surrounds it; \<open>D\<close> bounds the depth.\<close>

definition seg :: "nat \<Rightarrow> u8 list \<Rightarrow> (nat \<times> nat) set \<Rightarrow> (nat \<times> nat) set \<Rightarrow> nat \<Rightarrow> bool" where
  "seg cc b T X D \<longleftrightarrow> (\<forall>(p, d) \<in> T. step_ok cc b p d (T \<union> X) \<and> d \<le> D)"

lemma seg_empty: "seg cc b {} X D"
  by (simp add: seg_def)

lemma seg_one: "step_ok cc b p d (insert (p, d) X) \<Longrightarrow> d \<le> D \<Longrightarrow> seg cc b {(p, d)} X D"
  by (auto simp: seg_def)

lemma seg_weaken: "seg cc b T X D \<Longrightarrow> T \<union> X \<subseteq> T \<union> X' \<Longrightarrow> D \<le> D' \<Longrightarrow> seg cc b T X' D'"
  by (fastforce simp: seg_def intro: step_ok_mono)

text \<open>Two sets that type each other's surroundings.\<close>

lemma seg_Un:
  "seg cc b T (T' \<union> X) D \<Longrightarrow> seg cc b T' (T \<union> X) D \<Longrightarrow> seg cc b (T \<union> T') X D"
  by (auto simp: seg_def ac_simps)

definition typed :: "nat \<Rightarrow> u8 list \<Rightarrow> nat \<Rightarrow> bool" where
  "typed cc a n \<longleftrightarrow> (\<forall>b p k X. stands b p a \<longrightarrow> length b < 2 ^ 31 \<longrightarrow> (p + length a, k) \<in> X \<longrightarrow>
     (\<exists>T. (p, k) \<in> T \<union> X \<and> seg cc b T X (k + n)))"

lemma typedD:
  "typed cc a n \<Longrightarrow> stands b p a \<Longrightarrow> length b < 2 ^ 31 \<Longrightarrow> (p + length a, k) \<in> X \<Longrightarrow>
   \<exists>T. (p, k) \<in> T \<union> X \<and> seg cc b T X (k + n)"
  by (simp add: typed_def)

lemma typed_app:
  assumes "typed cc a n" and "typed cc c m"
  shows "typed cc (a @ c) (max n m)"
  unfolding typed_def
proof (intro allI impI)
  fix b p and k :: nat and X
  assume s: "stands b p (a @ c)" and b: "length b < 2 ^ 31" and X: "(p + length (a @ c), k) \<in> X"
  obtain T where T: "(p + length a, k) \<in> T \<union> X" "seg cc b T X (k + m)"
    using typedD [OF assms(2), of b "p + length a" k X] s b X by (auto simp: stands_append add.assoc)
  obtain U where U: "(p, k) \<in> U \<union> (T \<union> X)" "seg cc b U (T \<union> X) (k + n)"
    using typedD [OF assms(1), of b p k "T \<union> X"] s b T by (auto simp: stands_append)
  have "seg cc b (U \<union> T) X (k + max n m)"
    using T(2) U(2) by (intro seg_Un) (auto elim: seg_weaken)
  then show "\<exists>T. (p, k) \<in> T \<union> X \<and> seg cc b T X (k + max n m)"
    using U(1) by (intro exI [of _ "U \<union> T"]) auto
qed

text \<open>A single instruction that goes on to the next one at the same depth.\<close>

lemma typed_ins:
  assumes "\<And>b p d T. stands b p i \<Longrightarrow> length b < 2 ^ 31 \<Longrightarrow> (p + length i, d) \<in> T \<Longrightarrow> step_ok cc b p d T"
  shows "typed cc i 0"
  unfolding typed_def
proof (intro allI impI)
  fix b p and k :: nat and X
  assume "stands b p i" "length b < 2 ^ 31" "(p + length i, k) \<in> X"
  then show "\<exists>T. (p, k) \<in> T \<union> X \<and> seg cc b T X (k + 0)"
    using assms by (intro exI [of _ "{(p, k)}"] conjI seg_one) auto
qed

lemma step_char:
  assumes "char_ins i" and st: "stands b p i" and n: "(p + length i, d) \<in> T"
  shows "step_ok cc b p d T"
  using assms(1)
proof cases
  case (1 op)
  show ?thesis by (rule step_plain(1) [of b p op]) (use st n 1 in auto)
next
  case (2 x)
  show ?thesis by (rule step_args(1) [of b p _ x]) (use st n 2 in \<open>auto simp: add.commute\<close>)
next
  case (3 x)
  show ?thesis by (rule step_args(2) [of b p _ x]) (use st n 3 in \<open>auto simp: add.commute\<close>)
next
  case (4 m x)
  show ?thesis by (rule step_range(1) [of b p _ m x]) (use st n 4 in auto)
next
  case (5 m x)
  show ?thesis by (rule step_range(2) [of b p _ m x]) (use st n 5 in auto)
qed

lemma step_assert:
  "assert_ins i \<Longrightarrow> stands b p i \<Longrightarrow> (p + length i, d) \<in> T \<Longrightarrow> step_ok cc b p d T"
  by (erule assert_ins.cases) (auto intro: step_plain(1))

lemma typed_char: "char_ins i \<Longrightarrow> typed cc i 0"
  by (intro typed_ins step_char)

lemma typed_assert: "assert_ins i \<Longrightarrow> typed cc i 0"
  by (intro typed_ins step_assert)

lemma typed_simple: "simple k a \<Longrightarrow> typed cc a 0"
proof (induction rule: simple.induct)
  case simple_Nil
  show ?case by (auto simp: typed_def intro: exI [of _ "{}"] seg_empty)
next
  case (simple_char i k a)
  then show ?case using typed_app [OF typed_char] by fastforce
next
  case (simple_assert i k a)
  then show ?case using typed_app [OF typed_assert] by fastforce
qed

text \<open>Code around a fragment: two instructions \<open>P\<close> whose surroundings contain the set of
  the fragment.\<close>

lemma typed_wrap:
  assumes ty: "typed cc a n" and st: "stands b q a" and b: "length b < 2 ^ 31"
    and exit: "(q + length a, j) \<in> P \<union> X" and j: "j \<le> k + N"  and N: "j + n \<le> k + N"
    and step: "\<And>p d T. (p, d) \<in> P \<Longrightarrow> (q, j) \<in> T \<Longrightarrow> P \<union> X \<subseteq> T \<Longrightarrow> step_ok cc b p d T \<and> d \<le> k + N"
  shows "\<exists>T. P \<subseteq> T \<and> seg cc b T X (k + N)"
proof -
  obtain T where T: "(q, j) \<in> T \<union> (P \<union> X)" "seg cc b T (P \<union> X) (j + n)"
    using typedD [OF ty st b exit] by blast
  have "(q, j) \<in> P \<union> (T \<union> X)" "P \<union> X \<subseteq> P \<union> (T \<union> X)" using T(1) by auto
  then have "seg cc b P (T \<union> X) (k + N)"
    unfolding seg_def using step [of _ _ "P \<union> (T \<union> X)"] by blast
  moreover have "seg cc b T (P \<union> X) (k + N)" using T(2) N by (auto elim: seg_weaken)
  ultimately have "seg cc b (P \<union> T) X (k + N)" by (intro seg_Un)
  then show ?thesis by blast
qed

lemma typed_opt:
  assumes "typed cc a n" and "is_split op"
  shows "typed cc (ins op (rel (int (length a))) @ a) n"
  unfolding typed_def
proof (intro allI impI)
  fix b p and k :: nat and X
  let ?i = "ins op (rel (int (length a)))"
  assume st: "stands b p (?i @ a)" and b: "length b < 2 ^ 31" and X: "(p + length (?i @ a), k) \<in> X"
  have s: "stands b p ?i" "stands b (p + 5) a" using st by (auto simp: stands_append)
  have le: "p + 5 + length a \<le> length b" using stands_le [OF st] by simp
  have X': "(p + 5 + length a, k) \<in> X" using X by (simp add: add.assoc)
  have "\<exists>T. {(p, k)} \<subseteq> T \<and> seg cc b T X (k + n)"
  proof (rule typed_wrap [OF assms(1) s(2) b])
    fix p' d T assume "(p', d) \<in> {(p, k)}" "(p + 5, k) \<in> T" "{(p, k)} \<union> X \<subseteq> T"
    then show "step_ok cc b p' d T \<and> d \<le> k + n"
      using X' assms(2) by (auto intro!: step_jump(1) [OF s(1) b _ le])
  qed (use X' in auto)
  then show "\<exists>T. (p, k) \<in> T \<union> X \<and> seg cc b T X (k + n)" by auto

qed

lemma typed_star:
  assumes "typed cc a n" and "is_split op"
  shows "typed cc (ins op (rel (int (length a) + 5)) @ a @ ins REOP_goto (rel (- int (length a) - 10))) n"
  unfolding typed_def
proof (intro allI impI)
  fix b p and k :: nat and X
  let ?i = "ins op (rel (int (length a) + 5))" and ?g = "ins REOP_goto (rel (- int (length a) - 10))"
  assume st: "stands b p (?i @ a @ ?g)" and b: "length b < 2 ^ 31"
    and X: "(p + length (?i @ a @ ?g), k) \<in> X"
  let ?q = "p + 5 + length a"
  have s: "stands b p ?i" "stands b (p + 5) a" "stands b ?q ?g" using st by (auto simp: stands_append add.assoc)
  have le: "?q + 5 \<le> length b" using stands_le [OF st] by simp
  have X': "(?q + 5, k) \<in> X" using X by (simp add: add.commute add.left_commute)
  have "\<exists>T. {(p, k), (?q, k)} \<subseteq> T \<and> seg cc b T X (k + n)"
  proof (rule typed_wrap [OF assms(1) s(2) b])
    fix p' d T
    assume p: "(p', d) \<in> {(p, k), (?q, k)}" and T: "(p + 5, k) \<in> T" "{(p, k), (?q, k)} \<union> X \<subseteq> T"
    have "step_ok cc b p k T"
      using X' T assms(2) by (intro step_jump(1) [OF s(1) b _ le]) auto
    moreover have "step_ok cc b ?q k T"
      using X' T le by (intro step_jump(2) [OF s(3) b, of p]) auto
    ultimately show "step_ok cc b p' d T \<and> d \<le> k + n" using p by auto
  qed auto
  then show "\<exists>T. (p, k) \<in> T \<union> X \<and> seg cc b T X (k + n)" by auto

qed

lemma typed_star_check:
  assumes "typed cc a n" and "is_split op"
  shows "typed cc (ins op (rel (int (length a) + 6)) @ ins REOP_push_char_pos [] @ a @
      ins REOP_bne_char_pos (rel (- int (length a) - 11))) (Suc n)"
  unfolding typed_def
proof (intro allI impI)
  fix b p and k :: nat and X
  let ?i = "ins op (rel (int (length a) + 6))" and ?h = "ins REOP_push_char_pos []"
    and ?g = "ins REOP_bne_char_pos (rel (- int (length a) - 11))"
  assume st: "stands b p (?i @ ?h @ a @ ?g)" and b: "length b < 2 ^ 31"
    and X: "(p + length (?i @ ?h @ a @ ?g), k) \<in> X"
  let ?q = "p + 6 + length a"
  have s: "stands b p ?i" "stands b (p + 5) ?h" "stands b (p + 6) a" "stands b ?q ?g"
    using st by (auto simp: stands_append ac_simps)
  have le: "?q + 5 \<le> length b" using stands_le [OF st] by simp
  have X': "(?q + 5, k) \<in> X" using X by (simp add: add.commute add.left_commute)
  let ?P = "{(p, k), (p + 5, k), (?q, Suc k)}"
  have "\<exists>T. ?P \<subseteq> T \<and> seg cc b T X (k + Suc n)"
  proof (rule typed_wrap [OF assms(1) s(3) b, where j = "Suc k"])
    fix p' d T
    assume p: "(p', d) \<in> ?P" and T: "(p + 6, Suc k) \<in> T" "?P \<union> X \<subseteq> T"
    have "step_ok cc b p k T"
      using X' T assms(2) by (intro step_jump(1) [OF s(1) b _ le]) auto
    moreover have "step_ok cc b (p + 5) k T"
      using T by (intro step_plain(4) [OF s(2)]) (auto simp: add.commute)
    moreover have "step_ok cc b ?q (Suc k) T"
      using X' T le by (intro step_jump(4) [OF s(4) b, of p]) auto
    ultimately show "step_ok cc b p' d T \<and> d \<le> k + Suc n" using p by auto
  qed auto
  then show "\<exists>T. (p, k) \<in> T \<union> X \<and> seg cc b T X (k + Suc n)" by auto

qed

lemma typed_times:
  assumes "typed cc a n" and "length x = 4"
  shows "typed cc (ins REOP_push_i32 x @ a @ ins REOP_loop (rel (- int (length a) - 5)) @
      ins REOP_drop []) (Suc n)"
  unfolding typed_def
proof (intro allI impI)
  fix b p and k :: nat and X
  let ?i = "ins REOP_push_i32 x" and ?g = "ins REOP_loop (rel (- int (length a) - 5))"
    and ?h = "ins REOP_drop []"
  assume st: "stands b p (?i @ a @ ?g @ ?h)" and b: "length b < 2 ^ 31"
    and X: "(p + length (?i @ a @ ?g @ ?h), k) \<in> X"
  let ?q = "p + 5 + length a"
  have s: "stands b p ?i" "stands b (p + 5) a" "stands b ?q ?g" "stands b (?q + 5) ?h"
    using st assms(2) by (auto simp: stands_append ac_simps)
  have le: "?q + 6 \<le> length b" using stands_le [OF st] assms(2) by simp
  have X': "(?q + 6, k) \<in> X" using X assms(2) by (simp add: add.commute add.left_commute)
  let ?P = "{(p, k), (?q, Suc k), (?q + 5, Suc k)}"
  have "\<exists>T. ?P \<subseteq> T \<and> seg cc b T X (k + Suc n)"
  proof (rule typed_wrap [OF assms(1) s(2) b, where j = "Suc k"])
    fix p' d T
    assume p: "(p', d) \<in> ?P" and T: "(p + 5, Suc k) \<in> T" "?P \<union> X \<subseteq> T"
    have "step_ok cc b p k T"
      using T assms(2) by (intro step_args(3) [OF s(1)]) auto
    moreover have "step_ok cc b ?q (Suc k) T"
      using T le by (intro step_jump(3) [OF s(3) b, of "p + 5"]) auto
    moreover have "step_ok cc b (?q + 5) (Suc k) T"
      using X' T by (intro step_plain(3) [OF s(4)]) auto
    ultimately show "step_ok cc b p' d T \<and> d \<le> k + Suc n" using p by auto
  qed auto
  then show "\<exists>T. (p, k) \<in> T \<union> X \<and> seg cc b T X (k + Suc n)" by auto

qed

lemma typed_upto:
  assumes "typed cc a n" and "length x = 4" and "is_split op"
  shows "typed cc (ins REOP_push_i32 x @ ins op (rel (int (length a) + 5)) @ a @
      ins REOP_loop (rel (- int (length a) - 10)) @ ins REOP_drop []) (Suc n)"
  unfolding typed_def
proof (intro allI impI)
  fix b p and k :: nat and X
  let ?i = "ins REOP_push_i32 x" and ?o = "ins op (rel (int (length a) + 5))"
    and ?g = "ins REOP_loop (rel (- int (length a) - 10))" and ?h = "ins REOP_drop []"
  assume st: "stands b p (?i @ ?o @ a @ ?g @ ?h)" and b: "length b < 2 ^ 31"
    and X: "(p + length (?i @ ?o @ a @ ?g @ ?h), k) \<in> X"
  let ?q = "p + 10 + length a"
  have s: "stands b p ?i" "stands b (p + 5) ?o" "stands b (p + 10) a" "stands b ?q ?g"
    "stands b (?q + 5) ?h"
    using st assms(2) by (auto simp: stands_append ac_simps)
  have le: "?q + 6 \<le> length b" using stands_le [OF st] assms(2) by simp
  have X': "(?q + 6, k) \<in> X" using X assms(2) by (simp add: add.commute add.left_commute)
  let ?P = "{(p, k), (p + 5, Suc k), (?q, Suc k), (?q + 5, Suc k)}"
  have "\<exists>T. ?P \<subseteq> T \<and> seg cc b T X (k + Suc n)"
  proof (rule typed_wrap [OF assms(1) s(3) b, where j = "Suc k"])
    fix p' d T
    assume p: "(p', d) \<in> ?P" and T: "(p + 10, Suc k) \<in> T" "?P \<union> X \<subseteq> T"
    have "step_ok cc b p k T"
      using T assms(2) by (intro step_args(3) [OF s(1)]) auto
    moreover have "step_ok cc b (p + 5) (Suc k) T"
      using T le assms(3) by (intro step_jump(1) [OF s(2) b, of "?q + 5"]) (auto simp: add.commute)
    moreover have "step_ok cc b ?q (Suc k) T"
      using T le by (intro step_jump(3) [OF s(4) b, of "p + 5"]) auto
    moreover have "step_ok cc b (?q + 5) (Suc k) T"
      using X' T by (intro step_plain(3) [OF s(5)]) auto
    ultimately show "step_ok cc b p' d T \<and> d \<le> k + Suc n" using p by auto
  qed auto
  then show "\<exists>T. (p, k) \<in> T \<union> X \<and> seg cc b T X (k + Suc n)" by auto

qed

lemma typed_plus:
  assumes "typed cc a n" and "is_split op"
  shows "typed cc (a @ ins op (rel (- int (length a) - 5))) n"
  unfolding typed_def
proof (intro allI impI)
  fix b p and k :: nat and X
  let ?g = "ins op (rel (- int (length a) - 5))"
  assume st: "stands b p (a @ ?g)" and b: "length b < 2 ^ 31" and X: "(p + length (a @ ?g), k) \<in> X"
  let ?q = "p + length a"
  have s: "stands b p a" "stands b ?q ?g" using st by (auto simp: stands_append)
  have le: "?q + 5 \<le> length b" using stands_le [OF st] by simp
  have X': "(?q + 5, k) \<in> X" using X by (simp add: add.assoc)
  obtain T where T: "(p, k) \<in> T \<union> ({(?q, k)} \<union> X)" "seg cc b T ({(?q, k)} \<union> X) (k + n)"
    using typedD [OF assms(1) s(1) b, of k "{(?q, k)} \<union> X"] by blast
  have "seg cc b {(?q, k)} (T \<union> X) (k + n)"
    using X' T(1) le assms(2) by (intro seg_one step_jump(1) [OF s(2) b, of p]) auto
  then have "seg cc b (T \<union> {(?q, k)}) X (k + n)" using T(2) by (intro seg_Un)
  then show "\<exists>T. (p, k) \<in> T \<union> X \<and> seg cc b T X (k + n)"
    using T(1) by (intro exI [of _ "T \<union> {(?q, k)}"]) auto

qed

lemma typed_look:
  assumes "typed cc a n" and "op \<in> {REOP_lookahead, REOP_negative_lookahead}"
  shows "typed cc (ins op (rel (int (length a) + 1)) @ a @ ins REOP_match []) n"
  unfolding typed_def
proof (intro allI impI)
  fix b p and k :: nat and X
  let ?i = "ins op (rel (int (length a) + 1))" and ?g = "ins REOP_match []"
  assume st: "stands b p (?i @ a @ ?g)" and b: "length b < 2 ^ 31"
    and X: "(p + length (?i @ a @ ?g), k) \<in> X"
  let ?q = "p + 5 + length a"
  have s: "stands b p ?i" "stands b (p + 5) a" "stands b ?q ?g" using st by (auto simp: stands_append add.assoc)
  have le: "?q + 1 \<le> length b" using stands_le [OF st] by simp
  have X': "(?q + 1, k) \<in> X" using X by (simp add: add.commute add.left_commute)
  have "\<exists>T. {(p, k), (?q, k)} \<subseteq> T \<and> seg cc b T X (k + n)"
  proof (rule typed_wrap [OF assms(1) s(2) b])
    fix p' d T
    assume p: "(p', d) \<in> {(p, k), (?q, k)}" and T: "(p + 5, k) \<in> T" "{(p, k), (?q, k)} \<union> X \<subseteq> T"
    have "step_ok cc b p k T"
      using X' T assms(2) by (intro step_jump(1) [OF s(1) b _ le]) auto
    moreover have "step_ok cc b ?q k T" by (rule step_plain(2) [OF s(3)]) simp
    ultimately show "step_ok cc b p' d T \<and> d \<le> k + n" using p by auto
  qed auto
  then show "\<exists>T. (p, k) \<in> T \<union> X \<and> seg cc b T X (k + n)" by auto

qed

lemma typed_alt:
  assumes "typed cc a n" and "typed cc c m" and "is_split op"
  shows "typed cc (ins op (rel (int (length a) + 5)) @ a @ ins REOP_goto (rel (int (length c))) @ c) (max n m)"
  unfolding typed_def
proof (intro allI impI)
  fix b p and k :: nat and X
  let ?i = "ins op (rel (int (length a) + 5))" and ?g = "ins REOP_goto (rel (int (length c)))"
  assume st: "stands b p (?i @ a @ ?g @ c)" and b: "length b < 2 ^ 31"
    and X: "(p + length (?i @ a @ ?g @ c), k) \<in> X"
  let ?q = "p + 5 + length a"
  have s: "stands b p ?i" "stands b (p + 5) a" "stands b ?q ?g" "stands b (?q + 5) c"
    using st by (auto simp: stands_append ac_simps)
  have le: "?q + 5 + length c \<le> length b" using stands_le [OF st] by simp
  have X': "(?q + 5 + length c, k) \<in> X" using X by (simp add: add.commute add.left_commute)
  obtain T where T: "(?q + 5, k) \<in> T \<union> X" "seg cc b T X (k + m)"
    using typedD [OF assms(2) s(4) b X'] by blast
  have "\<exists>U. {(p, k), (?q, k)} \<subseteq> U \<and> seg cc b U (T \<union> X) (k + max n m)"
  proof (rule typed_wrap [OF assms(1) s(2) b])
    fix p' d U
    assume p: "(p', d) \<in> {(p, k), (?q, k)}" and U: "(p + 5, k) \<in> U" "{(p, k), (?q, k)} \<union> (T \<union> X) \<subseteq> U"
    have m: "(?q + 5, k) \<in> U" "(?q + 5 + length c, k) \<in> U" using T(1) X' U(2) by blast+
    have "step_ok cc b p k U"
      by (rule step_jump(1) [OF s(1) b, of "?q + 5"]) (use le assms(3) m(1) U(1) in simp_all)
    moreover have "step_ok cc b ?q k U"
      by (rule step_jump(2) [OF s(3) b _ le]) (use m(2) in simp_all)
    ultimately show "step_ok cc b p' d U \<and> d \<le> k + max n m" using p by auto
  qed auto
  then obtain U where U: "{(p, k), (?q, k)} \<subseteq> U" "seg cc b U (T \<union> X) (k + max n m)" by blast
  have "seg cc b T (U \<union> X) (k + max n m)" by (rule seg_weaken [OF T(2)]) auto
  with U(2) have "seg cc b (U \<union> T) X (k + max n m)" by (rule seg_Un)
  then show "\<exists>T. (p, k) \<in> T \<union> X \<and> seg cc b T X (k + max n m)"
    using U(1) by (intro exI [of _ "U \<union> T"]) auto
qed

lemma typed_greedy:
  assumes si: "simple j a" and j: "0 < j" and x: "length x = 8"
  shows "typed cc (ins REOP_simple_greedy_quant (rel (int (length a) + 1) @ x @ rel (int j)) @ a @
      ins REOP_match []) 0"
  unfolding typed_def
proof (intro allI impI)
  fix b p and k :: nat and X
  let ?i = "ins REOP_simple_greedy_quant (rel (int (length a) + 1) @ x @ rel (int j))"
    and ?g = "ins REOP_match []"
  assume st: "stands b p (?i @ a @ ?g)" and b: "length b < 2 ^ 31"
    and X: "(p + length (?i @ a @ ?g), k) \<in> X"
  let ?q = "p + 17 + length a"
  have s: "stands b p ?i" "stands b (p + 17) a" "stands b ?q ?g"
    using st x by (auto simp: stands_append add.assoc)
  have le: "?q + 1 \<le> length b" using stands_le [OF st] x by simp
  have X': "(?q + 1, k) \<in> X" using X x by (simp add: add.commute add.left_commute)
  have jl: "j < 2 ^ 32"
    using simple_length [OF si] stands_le [OF s(2)] b by simp
  have "stands b p ([reop_code REOP_simple_greedy_quant] @ rel (int (length a) + 1) @ x @ rel (int j))"
    using s(1) by (simp add: ins_def)
  then have "stands b (p + 13) (rel (int j))"
    unfolding stands_append using x by (simp add: ac_simps)
  then have "get_u32 b (p + 13) = Some (of_nat j)"
    using stands_get_u32 [of b "p + 13" "word_of_int (int j)"] by (simp add: rel_def)
  moreover have "\<exists>w. drop (p + 17) b = a @ ins REOP_match [] @ w"
  proof -
    obtain u w where "b = u @ (?i @ a @ ?g) @ w" "length u = p" using st by (auto simp: stands_def)
    then have "drop (p + 17) b = a @ ?g @ w" using x by simp
    then show ?thesis by blast
  qed
  ultimately have g: "greedy_ok b p"
    using si j jl le unfolding greedy_ok_def by force
  obtain T where T: "(p + 17, k) \<in> T \<union> ({(?q, k)} \<union> X)" "seg cc b T ({(?q, k)} \<union> X) (k + 0)"
    using typedD [OF typed_simple [OF si] s(2) b, of k "{(?q, k)} \<union> X"] by blast
  have "tgt b p (p + 17) k (T \<union> {(p, k), (?q, k)} \<union> X)"
    by (rule tgt_rel [OF s(1) b, of _ "?q + 1"]) (use le X' in auto)
  then have 1: "step_ok cc b p k (T \<union> {(p, k), (?q, k)} \<union> X)"
    using g stands_op [OF s(1)] by (auto simp: step_ok_def)
  have 2: "step_ok cc b ?q k (T \<union> {(p, k), (?q, k)} \<union> X)" by (rule step_plain(2) [OF s(3)]) simp
  have "seg cc b T ({(p, k), (?q, k)} \<union> X) (k + 0)" by (rule seg_weaken [OF T(2)]) auto
  moreover have "seg cc b {(p, k), (?q, k)} (T \<union> X) (k + 0)"
    using 1 2 by (simp add: seg_def Un_assoc Un_left_commute Un_commute)
  ultimately have "seg cc b (T \<union> {(p, k), (?q, k)}) X (k + 0)" by (rule seg_Un)
  then show "\<exists>T. (p, k) \<in> T \<union> X \<and> seg cc b T X (k + 0)"
    by (intro exI [of _ "T \<union> {(p, k), (?q, k)}"]) auto
qed

lemma typed_save:
  assumes "op \<in> {REOP_save_start, REOP_save_end}" and "unat i < cc"
  shows "typed cc (ins op [i]) 0"
  by (rule typed_ins, rule step_args(4) [where x = "[i]" and i = i]) (use assms in auto)

lemma typed_save_reset:
  assumes "unat j < cc"
  shows "typed cc (ins REOP_save_reset [i, j]) 0"
  by (rule typed_ins, rule step_args(5) [where x = "[i, j]" and i = i and j = j])
    (use assms in \<open>auto simp: numeral_3_eq_3\<close>)

lemma typed_back_ref:
  assumes "op \<in> {REOP_back_reference, REOP_backward_back_reference}"
  shows "typed cc (ins op [i]) 0"
  by (rule typed_ins, rule step_args(6) [where x = "[i]" and i = i]) (use assms in auto)

lemma frag_typed: "frag cc n a \<Longrightarrow> typed cc a n"
proof (induction rule: frag.induct)
  case frag_Nil
  show ?case by (rule typed_simple [OF simple_Nil])
next
  case (frag_app n a m b)
  from frag_app.IH show ?case by (rule typed_app)
next
  case (frag_char i)
  then show ?case by (rule typed_char)
next
  case (frag_assert i)
  then show ?case by (rule typed_assert)
next
  case frag_prev
  show ?case by (rule typed_ins) (auto intro: step_plain(1))
next
  case (frag_save op i)
  then show ?case by (rule typed_save)
next
  case (frag_save_reset j i)
  then show ?case by (rule typed_save_reset)
next
  case (frag_back_ref op i)
  from frag_back_ref(1) show ?case by (rule typed_back_ref)
next
  case (frag_alt n a m b op)
  from frag_alt.IH frag_alt.hyps(3) show ?case by (rule typed_alt)
next
  case (frag_opt n a op)
  from frag_opt.IH frag_opt.hyps(2) show ?case by (rule typed_opt)
next
  case (frag_star n a op)
  from frag_star.IH frag_star.hyps(2) show ?case by (rule typed_star)
next
  case (frag_star_check n a op)
  from frag_star_check.IH frag_star_check.hyps(2) show ?case by (rule typed_star_check)
next
  case (frag_plus n a op)
  from frag_plus.IH frag_plus.hyps(2) show ?case by (rule typed_plus)
next
  case (frag_times n a x)
  from frag_times.IH frag_times.hyps(2) show ?case by (rule typed_times)
next
  case (frag_upto n a x op)
  from frag_upto.IH frag_upto.hyps(2,3) show ?case by (rule typed_upto)
next
  case (frag_look n a op)
  from frag_look.IH frag_look.hyps(2) show ?case by (rule typed_look)
next
  case (frag_greedy k a x)
  then show ?case by (rule typed_greedy)
qed

end
