(* ===== verification/Re_Exec_Safe.thy ===== *)
theory Re_Exec_Safe
  imports Re_Typing
begin

text \<open>
  Safety of the interpreter on typed bytecode: it never reads outside the bytecode or the
  input, never overflows or underflows its stack, never fails an assertion and never meets
  an unknown opcode. The invariant \<open>vm_ok\<close> says that the machine stands at a typed position
  with the right stack depth and that every saved state does.
\<close>

section \<open>Characters\<close>

lemma unit_at_Some: "i < cbuf_end s \<Longrightarrow> \<exists>u. unit_at s i = Some u"
  by (simp add: unit_at_def rd_def)

lemma okw_unit_at [wp]: "okw (unit_at s i) Q \<longleftrightarrow> i < cbuf_end s \<and> Q (ucast (cbuf s ! i))"
  by (simp add: unit_at_def rd_def okw_def)

lemma get_char_ok:
  "cp < lim \<Longrightarrow> lim \<le> cbuf_end s \<Longrightarrow> okw (get_char s cp lim) (\<lambda>(c, cp'). cp < cp' \<and> cp' \<le> lim)"
  by (auto simp: get_char_def wp)

lemma peek_char_ok: "cp < cbuf_end s \<Longrightarrow> okw (peek_char s cp) (\<lambda>_. True)"
  by (auto simp: peek_char_def wp)

lemma peek_prev_char_ok: "0 < cp \<Longrightarrow> cp \<le> cbuf_end s \<Longrightarrow> okw (peek_prev_char s cp) (\<lambda>_. True)"
  by (auto simp: peek_prev_char_def wp)

lemma get_prev_char_ok:
  "start < cp \<Longrightarrow> cp \<le> cbuf_end s \<Longrightarrow>
     okw (get_prev_char s cp start) (\<lambda>(c, cp'). start \<le> cp' \<and> cp' < cp)"
  by (auto simp: get_prev_char_def wp Let_def)

lemma prev_char_ok: "0 < cp \<Longrightarrow> cp \<le> cbuf_end s \<Longrightarrow> okw (prev_char s cp) (\<lambda>cp'. cp' < cp)"
  by (auto simp: prev_char_def wp Let_def)

lemma prev_chars_add:
  "prev_chars s (m + n) c = prev_chars s m c \<bind> prev_chars s n"
proof (induction m arbitrary: c)
  case (Suc m)
  then show ?case by (cases "prev_char s c") auto
qed simp

lemma prev_chars_le: "prev_chars s n c = Some c' \<Longrightarrow> c' \<le> c"
proof (induction n arbitrary: c)
  case (Suc n)
  then obtain c1 where 1: "prev_char s c = Some c1" "prev_chars s n c1 = Some c'"
    by (auto simp: bind_eq_Some_conv)
  moreover have "c1 \<le> c" using 1(1)
    by (auto simp: prev_char_def bind_eq_Some_conv Let_def split: if_splits)
  ultimately show ?case using Suc.IH by fastforce
qed simp

text \<open>\<open>k\<close> characters forward.\<close>

fun fwd :: "re_ctx \<Rightarrow> nat \<Rightarrow> nat \<Rightarrow> nat \<Rightarrow> bool" where
  "fwd s 0 c c' = (c = c')"
| "fwd s (Suc k) c c' = (\<exists>ch c1. c < cbuf_end s \<and> get_char s c (cbuf_end s) = Some (ch, c1) \<and> fwd s k c1 c')"

lemma fwd_add: "fwd s m c c1 \<Longrightarrow> fwd s n c1 c2 \<Longrightarrow> fwd s (m + n) c c2"
  by (induction m arbitrary: c) auto

lemma fwd_le: "fwd s k c c' \<Longrightarrow> c \<le> cbuf_end s \<Longrightarrow> c' \<le> cbuf_end s"
proof (induction k arbitrary: c)
  case (Suc k)
  then obtain ch c1 where 1: "c < cbuf_end s" "get_char s c (cbuf_end s) = Some (ch, c1)" "fwd s k c1 c'"
    by auto
  then show ?case using Suc.IH [OF 1(3)] get_char_ok [of c "cbuf_end s" s] by simp
qed simp

text \<open>Going back as many characters as one came forward stays inside the input. One lands
  where one started, or in front of a surrogate pair in whose middle one started.\<close>

lemma prev_next:
  assumes "c < cbuf_end s" and "get_char s c (cbuf_end s) = Some (ch, c1)"
  shows "\<exists>c0. prev_char s c1 = Some c0 \<and>
    (c0 = c \<or> c = Suc c0 \<and> cbuf_type s = 2 \<and> c < cbuf_end s \<and>
       is_high_surrogate (ucast (cbuf s ! c0)) \<and> is_low_surrogate (ucast (cbuf s ! c)))"
proof -
  let ?u = "\<lambda>i. ucast (cbuf s ! i) :: u32"
  have hl: "\<not> (is_high_surrogate x \<and> is_low_surrogate x)" for x
    by (auto simp: is_high_surrogate_def is_low_surrogate_def)
  consider "c1 = c + 1" | "c1 = c + 2" "c + 1 < cbuf_end s" "cbuf_type s = 2"
      "is_high_surrogate (?u c)" "is_low_surrogate (?u (c + 1))"
    using assms by (auto simp: get_char_def unit_at_def rd_def bind_eq_Some_conv split: if_splits)
  then show ?thesis
  proof cases
    case 1
    then show ?thesis
      using assms(1) by (auto simp: prev_char_def unit_at_def rd_def Let_def)
  next
    case 2
    then show ?thesis by (auto simp: prev_char_def unit_at_def rd_def Let_def)
  qed
qed

lemma back_fwd:
  assumes "fwd s k c c'" and "c \<le> cbuf_end s"
  shows "\<exists>c0. prev_chars s k c' = Some c0 \<and>
    (c0 = c \<or> c = Suc c0 \<and> cbuf_type s = 2 \<and> c < cbuf_end s \<and>
       is_high_surrogate (ucast (cbuf s ! c0)) \<and> is_low_surrogate (ucast (cbuf s ! c)))"
  using assms
proof (induction k arbitrary: c)
  case (Suc k)
  then obtain ch c1 where 1: "c < cbuf_end s" "get_char s c (cbuf_end s) = Some (ch, c1)" "fwd s k c1 c'"
    by auto
  have c1: "c1 \<le> cbuf_end s" using get_char_ok [OF 1(1), of s] 1(2) by simp
  obtain c0 where c0: "prev_chars s k c' = Some c0" "c0 = c1 \<or> c1 = Suc c0 \<and> cbuf_type s = 2 \<and>
      c1 < cbuf_end s \<and> is_high_surrogate (ucast (cbuf s ! c0)) \<and> is_low_surrogate (ucast (cbuf s ! c1))"
    using Suc.IH [OF 1(3) c1] by blast
  have "c0 = c1"
  proof (rule ccontr)
    assume "c0 \<noteq> c1"
    then have m: "c1 = Suc c0" "cbuf_type s = 2" "c1 < cbuf_end s"
      "is_high_surrogate (ucast (cbuf s ! c0))" "is_low_surrogate (ucast (cbuf s ! c1))"
      using c0(2) by auto
    have hl: "\<not> (is_high_surrogate x \<and> is_low_surrogate x)" for x
      by (auto simp: is_high_surrogate_def is_low_surrogate_def)
    show False
      using 1(1,2) m hl [of "ucast (cbuf s ! c0)"]
      by (auto simp: get_char_def unit_at_def rd_def bind_eq_Some_conv split: if_splits)
  qed
  moreover have "prev_chars s (Suc k) c' = prev_chars s (k + 1) c'" by simp
  ultimately show ?case
    using c0(1) prev_next [OF 1(1,2)] prev_chars_add [of s k 1 c'] by auto
qed simp

section \<open>Loops over characters\<close>

lemma back_ref_loop_ok:
  assumes "c1e \<le> cbuf_end s" and "cp \<le> cbuf_end s" and "c1e - c1 < n"
  shows "okw (back_ref_loop n s c1 c1e cp) (\<lambda>r. case r of None \<Rightarrow> True | Some cp' \<Rightarrow> cp' \<le> cbuf_end s)"
  using assms
proof (induction n arbitrary: c1 cp)
  case (Suc n)
  show ?case
  proof (cases "c1 < c1e \<and> cp < cbuf_end s")
    case True
    then obtain a c1' b cp' where 1: "get_char s c1 c1e = Some (a, c1')" "c1 < c1'"
      and 2: "get_char s cp (cbuf_end s) = Some (b, cp')" "cp' \<le> cbuf_end s"
      using get_char_ok [of c1 c1e s] get_char_ok [of cp "cbuf_end s" s] Suc.prems(1)
      by (auto dest!: okw_ex)
    have "c1e - c1' < n" using 1(2) True Suc.prems(3) by linarith
    then show ?thesis
      using True 1 2 Suc.IH [OF Suc.prems(1) 2(2), of c1'] by (simp add: back_ref_loop.simps)
  qed (use Suc.prems in \<open>auto simp: back_ref_loop.simps\<close>)
qed simp

lemma backward_ref_loop_ok:
  assumes "c1 \<le> cbuf_end s" and "cp \<le> cbuf_end s" and "c1 - st < n"
  shows "okw (backward_ref_loop n s c1 st cp) (\<lambda>r. case r of None \<Rightarrow> True | Some cp' \<Rightarrow> cp' \<le> cbuf_end s)"
  using assms
proof (induction n arbitrary: c1 cp)
  case (Suc n)
  show ?case
  proof (cases "st < c1 \<and> 0 < cp")
    case True
    then obtain a c1' b cp' where 1: "get_prev_char s c1 st = Some (a, c1')" "c1' < c1"
      and 2: "get_prev_char s cp 0 = Some (b, cp')" "cp' < cp"
      using get_prev_char_ok [of st c1 s] get_prev_char_ok [of 0 cp s] Suc.prems(1,2)
      by (auto dest!: okw_ex)
    have "c1' - st < n" using 1(2) True Suc.prems(3) by linarith
    then show ?thesis
      using True 1 2 Suc.IH [of c1' cp'] Suc.prems by (simp add: backward_ref_loop.simps)
  qed (use Suc.prems in \<open>auto simp: backward_ref_loop.simps\<close>)
qed simp

section \<open>The binary search\<close>

lemma u32_mid:
  assumes "unat (a :: u32) \<le> unat b" and "unat b < 2 ^ 31"
  shows "unat ((a + b) div 2) = (unat a + unat b) div 2"
proof -
  have "unat (a + b) = unat a + unat b"
    using assms by (intro unat_add_lem [THEN iffD1]) simp
  then show ?thesis by (simp add: unat_div)
qed

lemma range_search_total:
  assumes "\<And>i. unat i \<le> N \<Longrightarrow> lo i \<noteq> None \<and> hi i \<noteq> None" and "N < 2 ^ 31"
    and "lo 0 = Some l0" and "\<not> c < l0"
    and "unat imax \<le> N" and "unat imax + 1 - unat imin < n"
  shows "\<exists>r. range_search n lo hi c imin imax = Some r"
  using assms(5,6)
proof (induction n arbitrary: imin imax)
  case (Suc n)
  show ?case
  proof (cases "imin \<le> imax")
    case False
    then show ?thesis by (auto simp: range_search.simps)
  next
    case True
    let ?m = "(imin + imax) div 2"
    have le: "unat imin \<le> unat imax" using True by (simp add: word_le_nat_alt)
    have m: "unat ?m = (unat imin + unat imax) div 2"
      using le Suc.prems(1) assms(2) by (intro u32_mid) auto
    then have b: "unat imin \<le> unat ?m" "unat ?m \<le> unat imax" using le by auto
    then obtain l h where lh: "lo ?m = Some l" "hi ?m = Some h"
      using assms(1) [of ?m] Suc.prems(1) by auto
    show ?thesis
    proof (cases "c < l")
      case True
      then have "?m \<noteq> 0" using lh(1) assms(3,4) by auto
      then have d: "unat (?m - 1) = unat ?m - 1" by (rule unat_minus_one)
      moreover have "0 < unat ?m" using \<open>?m \<noteq> 0\<close> by (simp add: unat_gt_0)
      ultimately have "unat (?m - 1) + 1 - unat imin < n" using Suc.prems(2) b by linarith
      then show ?thesis
        using Suc.IH [of "?m - 1" imin] True \<open>imin \<le> imax\<close> lh d b Suc.prems(1)
        by (simp add: Let_def range_search.simps)
    next
      case False
      have "unat ?m + unat (1 :: u32) < 2 ^ LENGTH(32)" using b Suc.prems(1) assms(2) by simp
      then have "unat (?m + 1) = unat ?m + 1" by (simp only: unat_add_lem) simp
      then have "unat imax + 1 - unat (?m + 1) < n" using Suc.prems(2) b le by linarith
      then show ?thesis
        using Suc.IH [of imax "?m + 1"] False True lh Suc.prems(1)
        by (auto simp: Let_def range_search.simps)
    qed
  qed
qed simp

section \<open>The invariant\<close>

definition prog_ok :: "re_ctx \<Rightarrow> (nat \<times> nat) set \<Rightarrow> bool" where
  "prog_ok s T \<longleftrightarrow>
     (\<forall>(p, d) \<in> T. step_ok (cx_capture_count s) (bc s) p d T \<and> d \<le> stack_size_max s)"

definition caps_ok :: "re_ctx \<Rightarrow> nat option list \<Rightarrow> bool" where
  "caps_ok s cap \<longleftrightarrow> length cap = 2 * cx_capture_count s \<and>
     (\<forall>x \<in> set cap. case x of None \<Rightarrow> True | Some c \<Rightarrow> c \<le> cbuf_end s)"

definition st_ok :: "re_ctx \<Rightarrow> (nat \<times> nat) set \<Rightarrow> re_exec_state \<Rightarrow> bool" where
  "st_ok s T rs \<longleftrightarrow> caps_ok s (st_capture rs) \<and> st_cptr rs \<le> cbuf_end s \<and>
     (if st_type rs = RE_EXEC_STATE_GREEDY_QUANT then
        0 < st_count rs \<and>
        (\<exists>k. k < 2 ^ 32 \<and> get_u32 (bc s) (st_pc rs + 12) = Some (of_nat k) \<and>
           prev_chars s (k * st_count rs) (st_cptr rs) \<noteq> None) \<and>
        (\<exists>w t. get_u32 (bc s) (st_pc rs) = Some w \<and> jump (st_pc rs + 16) w = Some t \<and>
           (t, length (st_stack rs)) \<in> T)
      else (st_pc rs, length (st_stack rs)) \<in> T)"

definition vm_ok0 :: "re_ctx \<Rightarrow> (nat \<times> nat) set \<Rightarrow> re_vm \<Rightarrow> bool" where
  "vm_ok0 s T v \<longleftrightarrow> cptr v \<le> cbuf_end s \<and> caps_ok s (capture v) \<and> list_all (st_ok s T) (states v)"

definition vm_ok :: "re_ctx \<Rightarrow> (nat \<times> nat) set \<Rightarrow> re_vm \<Rightarrow> bool" where
  "vm_ok s T v \<longleftrightarrow> vm_ok0 s T v \<and> (pc v, length (stack v)) \<in> T"

lemma vm_ok0_pc [simp]: "vm_ok0 s T (v\<lparr>pc := p\<rparr>) = vm_ok0 s T v"
  "vm_ok0 s T (v\<lparr>stack := st\<rparr>) = vm_ok0 s T v"
  by (simp_all add: vm_ok0_def)

lemma vm_ok0_cptr [simp]:
  "vm_ok0 s T v \<Longrightarrow> vm_ok0 s T (v\<lparr>cptr := c\<rparr>) \<longleftrightarrow> c \<le> cbuf_end s"
  by (auto simp: vm_ok0_def)

lemma caps_ok_update: "caps_ok s cap \<Longrightarrow> c \<le> cbuf_end s \<Longrightarrow> caps_ok s (cap[i := Some c])"
  by (auto simp: caps_ok_def dest!: set_update_subset_insert [THEN subsetD])

lemma caps_ok_reset: "caps_ok s cap \<Longrightarrow> caps_ok s (cap[i := None])"
  by (auto simp: caps_ok_def dest!: set_update_subset_insert [THEN subsetD])

lemma caps_ok_reset_captures: "caps_ok s cap \<Longrightarrow> caps_ok s (reset_captures cap v n)"
  by (induction cap v n rule: reset_captures.induct) (auto intro: caps_ok_reset)

text \<open>What one instruction must establish.\<close>

fun sig_ok :: "re_ctx \<Rightarrow> (nat \<times> nat) set \<Rightarrow> signal \<times> re_vm \<Rightarrow> bool" where
  "sig_ok s T (Continue, v) = vm_ok s T v"
| "sig_ok s T (NoMatch, v) = vm_ok0 s T v"
| "sig_ok s T (MatchOp, v) = vm_ok0 s T v"
| "sig_ok s T (_, v) = True"

section \<open>Saving and restoring states\<close>

lemma push_state_ok:
  assumes "vm_ok0 s T v" and "st_ok s T \<lparr>st_type = ty, st_count = n, st_cptr = cp, st_pc = p,
      st_capture = capture v, st_stack = stack v\<rparr>"
    and "push_state s v p cp ty n = (ok, v')"
  shows "vm_ok0 s T v' \<and> pc v' = pc v \<and> stack v' = stack v"
  using assms by (auto simp: push_state_def vm_ok0_def Let_def split: if_splits)

lemma unwind_ok:
  assumes "list_all (st_ok s T) sts" and "vm_ok0 s T v"
  shows "okw (unwind s v ret sts) (\<lambda>u. case u of Inl (r, v') \<Rightarrow> vm_ok0 s T v' | Inr v' \<Rightarrow> vm_ok s T v')"
  using assms(1)
proof (induction sts arbitrary: ret)
  case Nil
  then show ?case using assms(2) by (simp add: vm_ok0_def)
next
  case (Cons rs rest)
  have rs: "st_ok s T rs" and rest: "list_all (st_ok s T) rest" using Cons.prems by auto
  show ?case
  proof (cases "st_type rs = RE_EXEC_STATE_GREEDY_QUANT \<and> \<not> ret")
    case False
    then show ?thesis
      using rs rest assms(2) Cons.IH [OF rest]
      by (cases "st_type rs") (auto simp: vm_ok_def vm_ok0_def st_ok_def)
  next
    case True
    then obtain k w t where k: "k < 2 ^ 32" "get_u32 (bc s) (st_pc rs + 12) = Some (of_nat k)"
        "prev_chars s (k * st_count rs) (st_cptr rs) \<noteq> None" "0 < st_count rs"
      and w: "get_u32 (bc s) (st_pc rs) = Some w" "jump (st_pc rs + 16) w = Some t"
        "(t, length (st_stack rs)) \<in> T"
      and cp: "caps_ok s (st_capture rs)" "st_cptr rs \<le> cbuf_end s"
      using rs by (auto simp: st_ok_def)
    have u: "unat (of_nat k :: u32) = k" using k(1) by (simp add: unat_of_nat take_bit_eq_mod)
    have "k * st_count rs = k + k * (st_count rs - 1)"
      using k(4) by (cases "st_count rs") auto
    then obtain c where c: "prev_chars s k (st_cptr rs) = Some c"
      "prev_chars s (k * (st_count rs - 1)) c \<noteq> None"
      using k(3) prev_chars_add [of s k "k * (st_count rs - 1)" "st_cptr rs"]
      by (cases "prev_chars s k (st_cptr rs)") auto
    have "c \<le> cbuf_end s" using prev_chars_le [OF c(1)] cp(2) by simp
    then show ?thesis
      using True k(1,2) u w c cp rest by (auto simp: Let_def vm_ok_def vm_ok0_def st_ok_def)
  qed
qed

section \<open>Instructions\<close>

lemma step_okD:
  assumes "prog_ok s T" and "(p, d) \<in> T"
  shows "\<exists>op. p < length (bc s) \<and> reop_of (bc s ! p) = Some op \<and>
    step_ok (cx_capture_count s) (bc s) p d T \<and> d \<le> stack_size_max s"
  using assms by (fastforce simp: prog_ok_def step_ok_def)

text \<open>The machine after fetching the opcode at \<open>p\<close>.\<close>

definition fetched :: "re_ctx \<Rightarrow> (nat \<times> nat) set \<Rightarrow> reop \<Rightarrow> nat \<Rightarrow> re_vm \<Rightarrow> bool" where
  "fetched s T op p v \<longleftrightarrow> vm_ok0 s T v \<and> pc v = p + 1 \<and> reop_of (bc s ! p) = Some op \<and>
     step_ok (cx_capture_count s) (bc s) p (length (stack v)) T"

lemma get_u32_bound: "get_u32 b i = Some w \<Longrightarrow> i + 4 \<le> length b"
  by (simp add: get_u32_def split: if_splits)

lemma tgtE:
  assumes "tgt b p q d T"
  obtains w t where "get_u32 b (Suc p) = Some w" "jump q w = Some t" "(t, d) \<in> T"
  using assms by (auto simp: tgt_def)

lemma exec_char_ok:
  assumes "vm_ok0 s T v" and "(pc v, length (stack v)) \<in> T"
  shows "okw (exec_char s v val) (sig_ok s T)"
  using assms get_char_ok [of "cptr v" "cbuf_end s" s]
  by (auto simp: exec_char_def okw_bind not_le vm_ok_def elim!: okw_mono)

lemma exec_dot_ok:
  assumes "vm_ok0 s T v" and "(pc v, length (stack v)) \<in> T"
  shows "okw (exec_dot s v op) (sig_ok s T)"
  using assms get_char_ok [of "cptr v" "cbuf_end s" s]
  by (auto simp: exec_dot_def okw_bind vm_ok_def vm_ok0_def elim!: okw_mono)

lemma exec_split_ok:
  assumes "fetched s T op p v" and "op = REOP_split_goto_first \<or> op = REOP_split_next_first"
  shows "okw (exec_split s v op) (sig_ok s T)"
proof -
  have f: "vm_ok0 s T v" "pc v = Suc p" "(5 + p, length (stack v)) \<in> T"
    "tgt (bc s) p (5 + p) (length (stack v)) T"
    using assms by (auto simp: fetched_def step_ok_def add.commute)
  obtain w t where w: "get_u32 (bc s) (Suc p) = Some w" "jump (5 + p) w = Some t"
    "(t, length (stack v)) \<in> T" using f(4) by (rule tgtE)
  have "sig_ok s T (if ok then Continue else Error, v')"
    if "push_state s (v\<lparr>pc := pc2\<rparr>) pc1 (cptr v) RE_EXEC_STATE_SPLIT 0 = (ok, v')"
      and "(pc1, length (stack v)) \<in> T" "(pc2, length (stack v)) \<in> T" for ok v' pc1 pc2
    using push_state_ok [OF _ _ that(1), of T] that(2,3) f(1)
    by (auto simp: st_ok_def vm_ok_def vm_ok0_def)
  then show ?thesis
    using w f by (auto simp: exec_split_def Let_def split: prod.splits)
qed

lemma exec_lookahead_ok:
  assumes "fetched s T op p v" and "op = REOP_lookahead \<or> op = REOP_negative_lookahead"
  shows "okw (exec_lookahead s v op) (sig_ok s T)"
proof -
  have f: "vm_ok0 s T v" "pc v = Suc p" "(5 + p, length (stack v)) \<in> T"
    "tgt (bc s) p (5 + p) (length (stack v)) T"
    using assms by (auto simp: fetched_def step_ok_def add.commute)
  obtain w t where w: "get_u32 (bc s) (Suc p) = Some w" "jump (5 + p) w = Some t"
    "(t, length (stack v)) \<in> T" using f(4) by (rule tgtE)
  have "sig_ok s T (if ok then Continue else Error, v')"
    if "push_state s (v\<lparr>pc := 5 + p\<rparr>) t (cptr v) ty 0 = (ok, v')"
      and "ty \<noteq> RE_EXEC_STATE_GREEDY_QUANT" for ok v' ty
    using push_state_ok [OF _ _ that(1), of T] that(2) f w
    by (auto simp: st_ok_def vm_ok_def vm_ok0_def)
  then show ?thesis
    using w f by (auto simp: exec_lookahead_def Let_def split: prod.splits)
qed

lemma exec_goto_ok:
  assumes "fetched s T REOP_goto p v"
  shows "okw (exec_goto s v) (sig_ok s T)"
proof -
  have f: "vm_ok0 s T v" "pc v = Suc p" "tgt (bc s) p (5 + p) (length (stack v)) T"
    using assms by (auto simp: fetched_def step_ok_def add.commute)
  obtain w t where "get_u32 (bc s) (Suc p) = Some w" "jump (5 + p) w = Some t"
    "(t, length (stack v)) \<in> T" using f(3) by (rule tgtE)
  then show ?thesis using f by (simp add: exec_goto_def vm_ok_def)
qed

lemma exec_line_start_ok:
  assumes "vm_ok0 s T v" and "(pc v, length (stack v)) \<in> T"
  shows "okw (exec_line_start s v) (sig_ok s T)"
  using assms peek_prev_char_ok [of "cptr v" s]
  by (auto simp: exec_line_start_def okw_bind vm_ok_def vm_ok0_def elim!: okw_mono)

lemma exec_line_end_ok:
  assumes "vm_ok0 s T v" and "(pc v, length (stack v)) \<in> T"
  shows "okw (exec_line_end s v) (sig_ok s T)"
  using assms peek_char_ok [of "cptr v" s]
  by (auto simp: exec_line_end_def okw_bind vm_ok_def vm_ok0_def elim!: okw_mono)

lemma exec_word_boundary_ok:
  assumes "vm_ok0 s T v" and "(pc v, length (stack v)) \<in> T"
  shows "okw (exec_word_boundary s v op) (sig_ok s T)"
proof -
  have le: "cptr v \<le> cbuf_end s" using assms(1) by (simp add: vm_ok0_def)
  obtain v1 where v1: "(if cptr v = 0 then Some False
      else do { c \<leftarrow> peek_prev_char s (cptr v); Some (is_word_char c) }) = Some v1"
    using peek_prev_char_ok [of "cptr v" s] le by (cases "cptr v = 0") (auto dest!: okw_ex)
  obtain v2 where v2: "(if cptr v \<ge> cbuf_end s then Some False
      else do { c \<leftarrow> peek_char s (cptr v); Some (is_word_char c) }) = Some v2"
    using peek_char_ok [of "cptr v" s] by (cases "cptr v \<ge> cbuf_end s") (auto dest!: okw_ex)
  show ?thesis
    unfolding exec_word_boundary_def v1 v2 using assms by (auto simp: vm_ok_def)
qed

lemma exec_prev_ok:
  assumes "vm_ok0 s T v" and "(pc v, length (stack v)) \<in> T"
  shows "okw (exec_prev s v) (sig_ok s T)"
  using assms prev_char_ok [of "cptr v" s]
  by (auto simp: exec_prev_def okw_bind vm_ok_def vm_ok0_def elim!: okw_mono)

lemma exec_save_ok:
  assumes "fetched s T op p v" and "op = REOP_save_start \<or> op = REOP_save_end"
  shows "okw (exec_save s v op) (sig_ok s T)"
proof -
  have f: "vm_ok0 s T v" "pc v = Suc p" "Suc p < length (bc s)" "unat (bc s ! Suc p) < cx_capture_count s"
    "(Suc (Suc p), length (stack v)) \<in> T"
    using assms by (auto simp: fetched_def step_ok_def)
  have "2 * unat (bc s ! Suc p) + (if op = REOP_save_end then 1 else 0) < length (capture v)"
    using f(1,4) by (auto simp: vm_ok0_def caps_ok_def)
  then show ?thesis
    using f by (auto simp: exec_save_def Let_def wp vm_ok_def vm_ok0_def intro: caps_ok_update)
qed

lemma exec_save_reset_ok:
  assumes "fetched s T REOP_save_reset p v"
  shows "okw (exec_save_reset s v) (sig_ok s T)"
proof -
  have f: "vm_ok0 s T v" "pc v = Suc p" "Suc (Suc p) < length (bc s)"
    "unat (bc s ! Suc (Suc p)) < cx_capture_count s" "(Suc (Suc (Suc p)), length (stack v)) \<in> T"
    using assms by (auto simp: fetched_def step_ok_def numeral_3_eq_3)
  have "\<not> 2 * unat (bc s ! Suc (Suc p)) + 1 \<ge> length (capture v)"
    using f(1,4) by (auto simp: vm_ok0_def caps_ok_def)
  then show ?thesis
    using f by (auto simp: exec_save_reset_def wp vm_ok_def vm_ok0_def intro: caps_ok_reset_captures)
qed

lemma push_int_ok:
  assumes "prog_ok s T" and "vm_ok0 s T v" and "(pc v, Suc (length (stack v))) \<in> T"
  shows "okw (push_int s v x) (sig_ok s T)"
proof -
  have "Suc (length (stack v)) \<le> stack_size_max s" using step_okD [OF assms(1,3)] by auto
  then show ?thesis using assms by (auto simp: push_int_def vm_ok_def)
qed

lemma exec_push_i32_ok:
  assumes "prog_ok s T" and "fetched s T REOP_push_i32 p v"
  shows "okw (exec_push_i32 s v) (sig_ok s T)"
proof -
  have f: "vm_ok0 s T v" "pc v = Suc p" "p + 5 \<le> length (bc s)" "(5 + p, Suc (length (stack v))) \<in> T"
    using assms(2) by (auto simp: fetched_def step_ok_def add.commute)
  then show ?thesis
    using push_int_ok [OF assms(1), of "v\<lparr>pc := 5 + p\<rparr>"] by (simp add: exec_push_i32_def wp)
qed

lemma exec_drop_ok:
  assumes "fetched s T REOP_drop p v"
  shows "okw (exec_drop v) (sig_ok s T)"
  using assms by (cases "stack v") (auto simp: exec_drop_def fetched_def step_ok_def vm_ok_def)

lemma exec_loop_ok:
  assumes "fetched s T REOP_loop p v"
  shows "okw (exec_loop s v) (sig_ok s T)"
proof -
  have f: "vm_ok0 s T v" "pc v = Suc p" "0 < length (stack v)" "(5 + p, length (stack v)) \<in> T"
      "tgt (bc s) p (5 + p) (length (stack v)) T"
    using assms by (auto simp: fetched_def step_ok_def add.commute)
  obtain w t where "get_u32 (bc s) (Suc p) = Some w" "jump (5 + p) w = Some t"
    "(t, length (stack v)) \<in> T" using f(5) by (rule tgtE)
  then show ?thesis
    using f by (cases "stack v") (auto simp: exec_loop_def Let_def vm_ok_def)
qed

lemma exec_bne_ok:
  assumes "fetched s T REOP_bne_char_pos p v"
  shows "okw (exec_bne_char_pos s v) (sig_ok s T)"
proof -
  have f: "vm_ok0 s T v" "pc v = Suc p" "0 < length (stack v)" "(5 + p, length (stack v) - 1) \<in> T"
      "tgt (bc s) p (5 + p) (length (stack v) - 1) T"
    using assms by (auto simp: fetched_def step_ok_def add.commute)
  obtain w t where "get_u32 (bc s) (Suc p) = Some w" "jump (5 + p) w = Some t"
    "(t, length (stack v) - 1) \<in> T" using f(5) by (rule tgtE)
  then show ?thesis
    using f by (cases "stack v") (auto simp: exec_bne_char_pos_def Let_def vm_ok_def)
qed

lemma caps_ok_nth: "caps_ok s cap \<Longrightarrow> i < length cap \<Longrightarrow> cap ! i = Some c \<Longrightarrow> c \<le> cbuf_end s"
  unfolding caps_ok_def by (metis (mono_tags) nth_mem option.simps(5))

lemma exec_back_reference_ok:
  assumes "fetched s T op p v" and "op = REOP_back_reference \<or> op = REOP_backward_back_reference"
  shows "okw (exec_back_reference s v op) (sig_ok s T)"
proof -
  have f: "vm_ok0 s T v" "pc v = Suc p" "Suc p < length (bc s)" "(Suc (Suc p), length (stack v)) \<in> T"
    using assms by (auto simp: fetched_def step_ok_def)
  let ?n = "unat (bc s ! Suc p)"
  have cap: "caps_ok s (capture v)" and cp: "cptr v \<le> cbuf_end s" using f(1) by (auto simp: vm_ok0_def)
  show ?thesis
  proof (cases "?n \<ge> cx_capture_count s")
    case True
    then show ?thesis using f by (auto simp: exec_back_reference_def wp)
  next
    case False
    then have l: "2 * ?n < length (capture v)" "2 * ?n + 1 < length (capture v)"
      using cap by (auto simp: caps_ok_def)
    show ?thesis
    proof (cases "capture v ! (2 * ?n) = None \<or> capture v ! (2 * ?n + 1) = None")
      case True
      then show ?thesis
        using False f l
        by (auto simp: exec_back_reference_def rd_Some Let_def vm_ok_def split: option.splits)
    next
      case ne: False
      then obtain a b where ab: "capture v ! (2 * ?n) = Some a" "capture v ! (2 * ?n + 1) = Some b" by auto
      have le: "a \<le> cbuf_end s" "b \<le> cbuf_end s"
        using caps_ok_nth [OF cap l(1) ab(1)] caps_ok_nth [OF cap l(2) ab(2)] by auto
      have 1: "okw (back_ref_loop (Suc (cbuf_end s)) s a b (cptr v))
          (\<lambda>r. case r of None \<Rightarrow> True | Some cp' \<Rightarrow> cp' \<le> cbuf_end s)"
        using le cp by (intro back_ref_loop_ok) auto
      have 2: "okw (backward_ref_loop (Suc (cbuf_end s)) s b a (cptr v))
          (\<lambda>r. case r of None \<Rightarrow> True | Some cp' \<Rightarrow> cp' \<le> cbuf_end s)"
        using le cp by (intro backward_ref_loop_ok) auto
      have "okw (if op = REOP_back_reference then back_ref_loop (Suc (cbuf_end s)) s a b (cptr v)
            else backward_ref_loop (Suc (cbuf_end s)) s b a (cptr v))
          (\<lambda>r. case r of None \<Rightarrow> True | Some cp' \<Rightarrow> cp' \<le> cbuf_end s)"
        using 1 2 by simp
      then obtain r where r: "(if op = REOP_back_reference then back_ref_loop (Suc (cbuf_end s)) s a b (cptr v)
            else backward_ref_loop (Suc (cbuf_end s)) s b a (cptr v)) = Some r"
          "case r of None \<Rightarrow> True | Some cp' \<Rightarrow> cp' \<le> cbuf_end s" by (auto dest!: okw_ex)
      have "exec_back_reference s v op =
          Some (case r of None \<Rightarrow> (NoMatch, v\<lparr>pc := Suc (Suc p)\<rparr>)
            | Some cp \<Rightarrow> (Continue, v\<lparr>pc := Suc (Suc p), cptr := cp\<rparr>))"
        using False f(2,3) l ab r(1)
        by (simp add: exec_back_reference_def rd_def Let_def cong: if_cong)
      then show ?thesis using r(2) f by (auto simp: vm_ok_def split: option.splits)
    qed
  qed
qed

lemma range_bounds:
  assumes "get_u16 b q = Some w" and "w \<noteq> 0"
  shows "unat (ucast w - (1 :: u32)) = unat w - 1" and "unat w < 65536" and "0 < unat w"
proof -
  show 1: "unat w < 65536" using unsigned_less [of w] by simp
  have u: "unat (ucast w :: u32) = unat w" using 1 by (simp add: unsigned_ucast_eq take_bit_nat_eq_self)
  show 2: "0 < unat w" using assms(2) by (simp add: unat_gt_0)
  then have "(ucast w :: u32) \<noteq> 0" using u by (metis less_irrefl unat_0)
  then show "unat (ucast w - (1 :: u32)) = unat w - 1" using u by (simp add: unat_minus_one)
qed

text \<open>Both kinds of classes read their bounds through two functions that are defined below
  the number of intervals.\<close>

lemma class_test_total:
  assumes lohi: "\<And>i. unat i < unat w \<Longrightarrow> lo i \<noteq> None \<and> hi i \<noteq> None"
    and w: "get_u16 b q = Some w" "w \<noteq> 0"
  shows "\<exists>r. class_test wide w lo hi c = Some r"
proof -
  note rb = range_bounds [OF w]
  obtain l where l: "lo 0 = Some l" using lohi [of 0] rb(3) by force
  obtain h where h: "hi (ucast w - 1) = Some h" using lohi [of "ucast w - 1"] rb by force
  have "\<exists>r. range_search (Suc (unat w)) lo hi c 0 (ucast w - 1) = Some r" if "\<not> c < l"
    by (rule range_search_total [where N = "unat w - 1" and lo = lo and hi = hi])
      (use that lohi l rb in \<open>auto simp: less_Suc_eq_le\<close>)
  then show ?thesis using l h by (auto simp: class_test_def Let_def)
qed

lemma exec_range_ok:
  assumes "fetched s T REOP_range p v"
  shows "okw (exec_range s v) (sig_ok s T)"
proof -
  obtain w where f: "vm_ok0 s T v" "pc v = Suc p"
      and w: "get_u16 (bc s) (Suc p) = Some w" "w \<noteq> 0" "p + 3 + 4 * unat w \<le> length (bc s)"
        "(p + 3 + 4 * unat w, length (stack v)) \<in> T"
    using assms by (auto simp: fetched_def step_ok_def)
  have ps: "Suc p + 2 = p + 3" by simp
  have "range16_lo (bc s) (p + 3) i \<noteq> None \<and> range16_hi (bc s) (p + 3) i \<noteq> None"
    if "unat i < unat w" for i
    using that w(3) by (auto simp: range16_lo_def range16_hi_def get_u16_def)
  then have ct: "\<exists>r. class_test True w (range16_lo (bc s) (p + 3)) (range16_hi (bc s) (p + 3)) c = Some r" for c
    by (rule class_test_total [OF _ w(1,2)])
  show ?thesis
  proof (cases "cptr v \<ge> cbuf_end s")
    case True
    then show ?thesis using f w by (simp add: exec_range_def)
  next
    case False
    then obtain c cp where g: "get_char s (cptr v) (cbuf_end s) = Some (c, cp)" "cp \<le> cbuf_end s"
      using get_char_ok [of "cptr v" "cbuf_end s" s] by (auto dest!: okw_ex)
    obtain r where "class_test True w (range16_lo (bc s) (p + 3)) (range16_hi (bc s) (p + 3))
        (fold_char s c) = Some r" using ct by blast
    then have "exec_range s v = Some (if r then (Continue, v\<lparr>pc := p + 3 + 4 * unat w, cptr := cp\<rparr>)
        else (NoMatch, v\<lparr>pc := p + 3, cptr := cp\<rparr>))"
      using False f(2) g(1) w(1) unfolding exec_range_def by (simp only: ps bind.bind_lunit Let_def) simp
    then show ?thesis using f g w(4) by (auto simp: vm_ok_def)
  qed
qed

lemma exec_range32_ok:
  assumes "fetched s T REOP_range32 p v"
  shows "okw (exec_range32 s v) (sig_ok s T)"
proof -
  obtain w where f: "vm_ok0 s T v" "pc v = Suc p"
      and w: "get_u16 (bc s) (Suc p) = Some w" "w \<noteq> 0" "p + 3 + 8 * unat w \<le> length (bc s)"
        "(p + 3 + 8 * unat w, length (stack v)) \<in> T"
    using assms by (auto simp: fetched_def step_ok_def)
  have ps: "Suc p + 2 = p + 3" by simp
  have "range32_lo (bc s) (p + 3) i \<noteq> None \<and> range32_hi (bc s) (p + 3) i \<noteq> None"
    if "unat i < unat w" for i
    using that w(3) by (auto simp: range32_lo_def range32_hi_def get_u32_def)
  then have ct: "\<exists>r. class_test False w (range32_lo (bc s) (p + 3)) (range32_hi (bc s) (p + 3)) c = Some r" for c
    by (rule class_test_total [OF _ w(1,2)])
  show ?thesis
  proof (cases "cptr v \<ge> cbuf_end s")
    case True
    then show ?thesis using f w by (simp add: exec_range32_def)
  next
    case False
    then obtain c cp where g: "get_char s (cptr v) (cbuf_end s) = Some (c, cp)" "cp \<le> cbuf_end s"
      using get_char_ok [of "cptr v" "cbuf_end s" s] by (auto dest!: okw_ex)
    obtain r where "class_test False w (range32_lo (bc s) (p + 3)) (range32_hi (bc s) (p + 3))
        (fold_char s c) = Some r" using ct by blast
    then have "exec_range32 s v = Some (if r then (Continue, v\<lparr>pc := p + 3 + 8 * unat w, cptr := cp\<rparr>)
        else (NoMatch, v\<lparr>pc := p + 3, cptr := cp\<rparr>))"
      using False f(2) g(1) w(1) unfolding exec_range32_def by (simp only: ps bind.bind_lunit Let_def) simp
    then show ?thesis using f g w(4) by (auto simp: vm_ok_def)
  qed
qed

end
