(* ===== verification/Re_Exec_Run.thy ===== *)
theory Re_Exec_Run
  imports Re_Exec_Safe
begin

text \<open>
  The interpreter as a whole on typed bytecode. The body of a \<open>simple_greedy_quant\<close> runs in a
  call of its own, which consumes a fixed number of characters and changes nothing but the place in
  the input (\<open>run_simple\<close>); from this and the lemmas on the single instructions follows that the
  interpreter never faults (\<open>lre_exec_backtrack_ok\<close>), and with the typing of code fragments that it
  never faults on compiled code.
\<close>

section \<open>Instructions of a simple body\<close>

definition frame :: "re_vm \<Rightarrow> re_vm \<Rightarrow> bool" where
  "frame v v' \<longleftrightarrow> capture v' = capture v \<and> stack v' = stack v \<and> states v' = states v"

lemma frame_refl [simp]: "frame v v"
  by (simp add: frame_def)

lemma frame_trans [trans]: "frame u v \<Longrightarrow> frame v w \<Longrightarrow> frame u w"
  by (simp add: frame_def)

lemma frame_upd [simp]: "frame (v\<lparr>pc := p\<rparr>) w = frame v w" "frame v (w\<lparr>pc := p\<rparr>) = frame v w"
  "frame (v\<lparr>cptr := c\<rparr>) w = frame v w" "frame v (w\<lparr>cptr := c\<rparr>) = frame v w"
  by (simp_all add: frame_def)

text \<open>The outcome of an instruction that consumes \<open>n\<close> characters and ends at \<open>q\<close>, or does not match.\<close>

definition moves :: "re_ctx \<Rightarrow> nat \<Rightarrow> nat \<Rightarrow> re_vm \<Rightarrow> signal \<times> re_vm \<Rightarrow> bool" where
  "moves s n q v = (\<lambda>(sg, v'). frame v v' \<and>
     (sg = NoMatch \<or> sg = Continue \<and> pc v' = q \<and> fwd s n (cptr v) (cptr v')))"

lemma moves_NoMatch: "frame v v' \<Longrightarrow> moves s n q v (NoMatch, v')"
  by (simp add: moves_def)

lemma moves_1:
  "frame v v' \<Longrightarrow> pc v' = q \<Longrightarrow> cptr v < cbuf_end s \<Longrightarrow> get_char s (cptr v) (cbuf_end s) = Some (c, cptr v')
    \<Longrightarrow> moves s (Suc 0) q v (Continue, v')"
  by (auto simp: moves_def)

lemma moves_0: "frame v v' \<Longrightarrow> pc v' = q \<Longrightarrow> cptr v' = cptr v \<Longrightarrow> moves s 0 q v (Continue, v')"
  by (simp add: moves_def)

lemma exec_char_moves:
  "exec_char s v val = Some r \<Longrightarrow> cptr v \<le> cbuf_end s \<Longrightarrow> moves s (Suc 0) (pc v) v r"
  by (auto simp: exec_char_def bind_eq_Some_conv Let_def split: if_splits intro: moves_NoMatch moves_1)

lemma exec_dot_moves:
  "exec_dot s v op = Some r \<Longrightarrow> cptr v \<le> cbuf_end s \<Longrightarrow> moves s (Suc 0) (pc v) v r"
  by (auto simp: exec_dot_def bind_eq_Some_conv Let_def split: if_splits intro: moves_NoMatch moves_1)

lemma exec_range_moves:
  "exec_range s v = Some r \<Longrightarrow> get_u16 (bc s) (pc v) = Some w \<Longrightarrow> moves s (Suc 0) (pc v + 2 + 4 * unat w) v r"
  by (auto simp: exec_range_def bind_eq_Some_conv Let_def split: if_splits intro: moves_NoMatch moves_1)

lemma exec_range32_moves:
  "exec_range32 s v = Some r \<Longrightarrow> get_u16 (bc s) (pc v) = Some w \<Longrightarrow> moves s (Suc 0) (pc v + 2 + 8 * unat w) v r"
  by (auto simp: exec_range32_def bind_eq_Some_conv Let_def split: if_splits intro: moves_NoMatch moves_1)

lemma exec_assert_moves:
  "exec_line_start s v = Some r \<Longrightarrow> moves s 0 (pc v) v r"
  "exec_line_end s v = Some r \<Longrightarrow> moves s 0 (pc v) v r"
  "exec_word_boundary s v op = Some r \<Longrightarrow> moves s 0 (pc v) v r"
  by (auto simp: exec_line_start_def exec_line_end_def exec_word_boundary_def bind_eq_Some_conv
      split: if_splits intro: moves_NoMatch moves_0)

lemma st_ok_mono: "st_ok s T rs \<Longrightarrow> T \<subseteq> T' \<Longrightarrow> st_ok s T' rs"
  by (fastforce simp: st_ok_def split: if_splits)

lemma vm_ok0_mono: "vm_ok0 s T v \<Longrightarrow> T \<subseteq> T' \<Longrightarrow> vm_ok0 s T' v"
  by (auto simp: vm_ok0_def list_all_iff intro: st_ok_mono)

text \<open>An instruction that only has to reach \<open>q\<close>.\<close>

definition reaches :: "re_ctx \<Rightarrow> nat \<Rightarrow> nat \<Rightarrow> (nat \<times> nat) set \<Rightarrow> re_vm \<Rightarrow> bool" where
  "reaches s p q T v \<longleftrightarrow> vm_ok0 s T v \<and> pc v = Suc p \<and>
     step_ok (cx_capture_count s) (bc s) p (length (stack v)) (insert (q, length (stack v)) T)"

lemma reaches_fetched:
  "reaches s p q T v \<Longrightarrow> reop_of (bc s ! p) = Some op \<Longrightarrow> fetched s (insert (q, length (stack v)) T) op p v"
  by (auto simp: reaches_def fetched_def elim: vm_ok0_mono)

lemma okw_moves:
  assumes "okw m (sig_ok s T)" and "\<And>r. m = Some r \<Longrightarrow> moves s n q v r"
  shows "okw m (\<lambda>r. moves s n q v r \<and> cptr (snd r) \<le> cbuf_end s)"
proof -
  obtain sg v' where m: "m = Some (sg, v')" "sig_ok s T (sg, v')" using okw_ex [OF assms(1)] by auto
  moreover have "moves s n q v (sg, v')" using assms(2) m(1) by simp
  ultimately show ?thesis by (auto simp: moves_def vm_ok_def vm_ok0_def)
qed

lemma exec_op_ok_basic:
  assumes f: "fetched s T op p v" and "op \<notin> {REOP_simple_greedy_quant, REOP_push_i32, REOP_push_char_pos}"
  shows "okw (exec_op fuel inner s op v) (sig_ok s T)"
proof -
  have v: "vm_ok0 s T v" "pc v = Suc p" and st: "step_ok (cx_capture_count s) (bc s) p (length (stack v)) T"
    and op: "reop_of (bc s ! p) = Some op" using f by (auto simp: fetched_def)
  show ?thesis
  proof (cases op)
    case REOP_char
    then show ?thesis
      using st op v exec_char_ok [of s T "v\<lparr>pc := p + 3\<rparr>"] by (auto simp: exec_op_def step_ok_def wp eval_nat_numeral)
  next
    case REOP_char32
    then show ?thesis
      using st op v exec_char_ok [of s T "v\<lparr>pc := p + 5\<rparr>"] by (auto simp: exec_op_def step_ok_def wp eval_nat_numeral)
  next
    case REOP_dot
    then show ?thesis using st op v by (auto simp: exec_op_def step_ok_def intro: exec_dot_ok)
  next
    case REOP_any
    then show ?thesis using st op v by (auto simp: exec_op_def step_ok_def intro: exec_dot_ok)
  next
    case REOP_line_start
    then show ?thesis using st op v by (auto simp: exec_op_def step_ok_def intro: exec_line_start_ok)
  next
    case REOP_line_end
    then show ?thesis using st op v by (auto simp: exec_op_def step_ok_def intro: exec_line_end_ok)
  next
    case REOP_word_boundary
    then show ?thesis using st op v by (auto simp: exec_op_def step_ok_def intro: exec_word_boundary_ok)
  next
    case REOP_not_word_boundary
    then show ?thesis using st op v by (auto simp: exec_op_def step_ok_def intro: exec_word_boundary_ok)
  next
    case REOP_prev
    then show ?thesis using st op v by (auto simp: exec_op_def step_ok_def intro: exec_prev_ok)
  qed (use assms st v op in \<open>simp_all add: exec_op_def exec_split_ok exec_lookahead_ok exec_goto_ok exec_save_ok
      exec_save_reset_ok exec_drop_ok exec_loop_ok exec_bne_ok exec_back_reference_ok exec_range_ok exec_range32_ok
      step_ok_def\<close>)
qed

lemma char_ins_moves:
  assumes "char_ins i" and st: "stands (bc s) p i" and r: "reaches s p (p + length i) T v"
  shows "\<exists>op. reop_of (bc s ! p) = Some op \<and> okw (exec_op fuel inner s op v)
    (\<lambda>r. moves s (Suc 0) (p + length i) v r \<and> cptr (snd r) \<le> cbuf_end s)"
proof -
  have v: "pc v = Suc p" "cptr v \<le> cbuf_end s" using r by (auto simp: reaches_def vm_ok0_def)
  have "\<exists>op y. i = ins op y \<and> op \<notin> {REOP_simple_greedy_quant, REOP_push_i32, REOP_push_char_pos} \<and>
      (\<forall>r. exec_op fuel inner s op v = Some r \<longrightarrow> moves s (Suc 0) (p + length i) v r)"
    using assms(1)
  proof cases
    case (4 m x)
    have u: "unat (of_nat m :: u16) = m" using 4(3) by (simp add: unat_of_nat take_bit_eq_mod)
    show ?thesis
      using 4 u v exec_range_moves [of s v _ "of_nat m"] stands_u16 [OF st [unfolded 4(1)]]
      by (auto simp: exec_op_def)
  next
    case (5 m x)
    have u: "unat (of_nat m :: u16) = m" using 5(3) by (simp add: unat_of_nat take_bit_eq_mod)
    show ?thesis
      using 5 u v exec_range32_moves [of s v _ "of_nat m"] stands_u16 [OF st [unfolded 5(1)]]
      by (auto simp: exec_op_def)
  next
    case (1 op)
    then show ?thesis using v exec_dot_moves [of s v] by (auto simp: exec_op_def)
  next
    case (2 x)
    have "moves s (Suc 0) (p + length i) v r" if "exec_op fuel inner s REOP_char v = Some r" for r
      using that 2 v exec_char_moves [of s "v\<lparr>pc := pc v + 2\<rparr>"]
      by (auto simp: exec_op_def bind_eq_Some_conv moves_def eval_nat_numeral)
    then show ?thesis using 2(1) by blast
  next
    case (3 x)
    have "moves s (Suc 0) (p + length i) v r" if "exec_op fuel inner s REOP_char32 v = Some r" for r
      using that 3 v exec_char_moves [of s "v\<lparr>pc := pc v + 4\<rparr>"]
      by (auto simp: exec_op_def bind_eq_Some_conv moves_def eval_nat_numeral)
    then show ?thesis using 3(1) by blast
  qed
  then obtain op y where op: "i = ins op y" "op \<notin> {REOP_simple_greedy_quant, REOP_push_i32, REOP_push_char_pos}"
    and mv: "\<And>r. exec_op fuel inner s op v = Some r \<Longrightarrow> moves s (Suc 0) (p + length i) v r" by blast
  have o: "reop_of (bc s ! p) = Some op" using stands_op [OF st [unfolded op(1)]] by simp
  show ?thesis
    using o okw_moves [OF exec_op_ok_basic [OF reaches_fetched [OF r o] op(2)] mv] by blast
qed

lemma assert_ins_moves:
  assumes "assert_ins i" and st: "stands (bc s) p i" and r: "reaches s p (p + length i) T v"
  shows "\<exists>op. reop_of (bc s ! p) = Some op \<and> okw (exec_op fuel inner s op v)
    (\<lambda>r. moves s 0 (p + length i) v r \<and> cptr (snd r) \<le> cbuf_end s)"
  using assms(1)
proof cases
  case (1 op)
  have v: "pc v = Suc p" using r by (auto simp: reaches_def)
  have o: "reop_of (bc s ! p) = Some op" using stands_op [OF st [unfolded 1(1)]] by simp
  have mv: "moves s 0 (p + length i) v r" if "exec_op fuel inner s op v = Some r" for r
    using that 1 v by (auto simp: exec_op_def dest!: exec_assert_moves)
  show ?thesis
    using o okw_moves [OF exec_op_ok_basic [OF reaches_fetched [OF r o]] mv] 1 by blast
qed

text \<open>The first step of such a call, followed by a call that moves by \<open>k\<close> characters.\<close>

lemma run_step:
  assumes fuel: "fuel = Suc n" and v: "vm_ok0 s T v" "pc v = p" and p: "p < length (bc s)"
    and op: "reop_of (bc s ! p) = Some op"
    and ex: "exec_op n (\<lambda>w. lre_exec_backtrack n s w True) s op (v\<lparr>pc := Suc p\<rparr>) = Some (sg, v')"
    and mv: "moves s j q (v\<lparr>pc := Suc p\<rparr>) (sg, v')" and le: "cptr v' \<le> cbuf_end s"
    and rest: "\<And>v'. vm_ok0 s T v' \<Longrightarrow> pc v' = q \<Longrightarrow> okw (lre_exec_backtrack n s v' True)
      (\<lambda>(r, v''). vm_ok0 s T v'' \<and> frame v' v'' \<and> r \<noteq> ResError \<and> (r = ResMatch \<longrightarrow> fwd s k (cptr v') (cptr v'')))"
    and m: "m = j + k"
  shows "okw (lre_exec_backtrack fuel s v True) (\<lambda>(r, v'). vm_ok0 s T v' \<and> frame v v' \<and> r \<noteq> ResError \<and>
    (r = ResMatch \<longrightarrow> fwd s m (cptr v) (cptr v')))"
proof -
  have fr: "frame v v'" using mv by (simp add: moves_def)
  then have same: "capture v' = capture v" "states v' = states v" by (simp_all add: frame_def)
  have v': "vm_ok0 s T v'" using v(1) same le by (simp add: vm_ok0_def)
  have run: "lre_exec_backtrack fuel s v True = (case sg of Continue \<Rightarrow> lre_exec_backtrack n s v' True
      | _ \<Rightarrow> Some (ResNoMatch, v'))"
    using mv fuel v(2) p op ex by (auto simp: lre_exec_backtrack.simps rd_Some moves_def Let_def)
  show ?thesis
  proof (cases "sg = Continue")
    case True
    then have "fwd s j (cptr v) (cptr v')" "pc v' = q" using mv by (auto simp: moves_def)
    then show ?thesis
      using True rest [OF v'] fr fwd_add [of s j "cptr v" "cptr v'" k]
      by (auto simp: run m elim!: okw_mono intro: frame_trans)
  next
    case False
    then have "sg = NoMatch" using mv by (simp add: moves_def)
    then show ?thesis using v' fr by (simp add: run)
  qed
qed

text \<open>The call for a body of \<open>k\<close> characters.\<close>

lemma run_simple:
  assumes "simple k a" and "stands (bc s) p (a @ ins REOP_match [])" and "vm_ok0 s T v" "pc v = p"
  shows "okw (lre_exec_backtrack fuel s v True) (\<lambda>(r, v'). vm_ok0 s T v' \<and> frame v v' \<and> r \<noteq> ResError \<and>
    (r = ResMatch \<longrightarrow> fwd s k (cptr v) (cptr v')))"
  using assms
proof (induction k a arbitrary: p v fuel rule: simple.induct)
  case simple_Nil
  show ?case
  proof (cases fuel)
    case (Suc n)
    have "pc v < length (bc s)" "reop_of (bc s ! pc v) = Some REOP_match"
      using stands_op [of "bc s" p REOP_match "[]"] simple_Nil by auto
    then show ?thesis using Suc simple_Nil by (simp add: lre_exec_backtrack.simps rd_Some exec_op_def Let_def)
  qed (use simple_Nil in \<open>simp add: lre_exec_backtrack.simps\<close>)
next
  case (simple_char i k a)
  have st: "stands (bc s) p i" "stands (bc s) (p + length i) (a @ ins REOP_match [])"
    using simple_char.prems(1) by (simp_all add: stands_append)
  show ?case
  proof (cases fuel)
    case (Suc n)
    let ?w = "v\<lparr>pc := Suc p\<rparr>" and ?i = "\<lambda>w. lre_exec_backtrack n s w True"
    have "reaches s p (p + length i) T ?w"
      using simple_char.prems step_char [OF simple_char.hyps(1) st(1)] by (simp add: reaches_def)
    from char_ins_moves [OF simple_char.hyps(1) st(1) this, of n ?i]
    obtain op sg v' where o: "reop_of (bc s ! p) = Some op" "exec_op n ?i s op ?w = Some (sg, v')"
        "moves s (Suc 0) (p + length i) ?w (sg, v')" "cptr v' \<le> cbuf_end s"
      by (auto dest!: okw_ex)
    show ?thesis
    proof (rule run_step [OF Suc simple_char.prems(2,3) _ o])
      show "p < length (bc s)" using stands_le [OF st(1)] char_ins_length [OF simple_char.hyps(1)] by linarith
      fix v' :: re_vm assume "vm_ok0 s T v'" "pc v' = p + length i"
      then show "okw (lre_exec_backtrack n s v' True) (\<lambda>(r, v''). vm_ok0 s T v'' \<and> frame v' v'' \<and> r \<noteq> ResError \<and>
          (r = ResMatch \<longrightarrow> fwd s k (cptr v') (cptr v'')))"
        using simple_char.IH [OF st(2)] by blast
    qed simp
  qed (use simple_char in \<open>simp add: lre_exec_backtrack.simps\<close>)
next
  case (simple_assert i k a)
  have st: "stands (bc s) p i" "stands (bc s) (p + length i) (a @ ins REOP_match [])"
    using simple_assert.prems(1) by (simp_all add: stands_append)
  show ?case
  proof (cases fuel)
    case (Suc n)
    let ?w = "v\<lparr>pc := Suc p\<rparr>" and ?i = "\<lambda>w. lre_exec_backtrack n s w True"
    have "reaches s p (p + length i) T ?w"
      using simple_assert.prems step_assert [OF simple_assert.hyps(1) st(1)] by (simp add: reaches_def)
    from assert_ins_moves [OF simple_assert.hyps(1) st(1) this, of n ?i]
    obtain op sg v' where o: "reop_of (bc s ! p) = Some op" "exec_op n ?i s op ?w = Some (sg, v')"
        "moves s 0 (p + length i) ?w (sg, v')" "cptr v' \<le> cbuf_end s"
      by (auto dest!: okw_ex)
    show ?thesis
    proof (rule run_step [OF Suc simple_assert.prems(2,3) _ o])
      show "p < length (bc s)" using stands_le [OF st(1)] simple_assert.hyps(1) by (auto elim: assert_ins.cases)
      fix v' :: re_vm assume "vm_ok0 s T v'" "pc v' = p + length i"
      then show "okw (lre_exec_backtrack n s v' True) (\<lambda>(r, v''). vm_ok0 s T v'' \<and> frame v' v'' \<and> r \<noteq> ResError \<and>
          (r = ResMatch \<longrightarrow> fwd s k (cptr v') (cptr v'')))"
        using simple_assert.IH [OF st(2)] by blast
    qed simp
  qed (use simple_assert in \<open>simp add: lre_exec_backtrack.simps\<close>)
qed

section \<open>The greedy loop\<close>

lemma greedy_loop_ok:
  assumes "simple k a" and "stands (bc s) p (a @ ins REOP_match [])"
    and "vm_ok0 s T v" and "fwd s (q * k) c (cptr v)"
  shows "okw (greedy_loop n (\<lambda>w. lre_exec_backtrack fuel s w True) v p q qmax) (\<lambda>(r, v').
    case r of Inl sg \<Rightarrow> sg = Timeout
    | Inr q' \<Rightarrow> vm_ok0 s T v' \<and> frame v v' \<and> fwd s (q' * k) c (cptr v'))"
  using assms(3,4)
proof (induction n arbitrary: v q)
  case 0
  then show ?case by (simp add: greedy_loop.simps)
next
  case (Suc n)
  obtain r w where run: "lre_exec_backtrack fuel s (v\<lparr>pc := p\<rparr>) True = Some (r, w)"
    and w: "vm_ok0 s T w" "frame v w" "r \<noteq> ResError" "r = ResMatch \<Longrightarrow> fwd s k (cptr v) (cptr w)"
    using run_simple [OF assms(1,2), of T "v\<lparr>pc := p\<rparr>" fuel] Suc.prems(1) by (auto dest!: okw_ex)
  have st: "stack w = stack v" using w(2) by (simp add: frame_def)
  show ?case
  proof (cases r)
    case ResMatch
    let ?w = "w\<lparr>stack := stack v\<rparr>"
    have f: "fwd s (Suc q * k) c (cptr w)"
      using fwd_add [OF Suc.prems(2) w(4) [OF ResMatch]] by (simp add: add.commute)
    have fr: "frame v ?w" using w(2) by (simp add: frame_def)
    have "okw (greedy_loop n (\<lambda>w. lre_exec_backtrack fuel s w True) ?w p (Suc q) qmax) (\<lambda>(r, v').
      case r of Inl sg \<Rightarrow> sg = Timeout
      | Inr q' \<Rightarrow> vm_ok0 s T v' \<and> frame ?w v' \<and> fwd s (q' * k) c (cptr v'))"
      using Suc.IH [of ?w "Suc q"] w(1) f by simp
    then have "okw (greedy_loop n (\<lambda>w. lre_exec_backtrack fuel s w True) ?w p (Suc q) qmax) (\<lambda>(r, v').
      case r of Inl sg \<Rightarrow> sg = Timeout
      | Inr q' \<Rightarrow> vm_ok0 s T v' \<and> frame v v' \<and> fwd s (q' * k) c (cptr v'))"
      by (rule okw_mono) (use fr in \<open>auto split: sum.splits intro: frame_trans\<close>)
    then show ?thesis
      using run ResMatch w(1) f fr by (simp add: greedy_loop.simps Let_def)
  next
    case ResNoMatch
    have "vm_ok0 s T (w\<lparr>cptr := cptr v, stack := stack v\<rparr>)" using w(1) Suc.prems(1) by (simp add: vm_ok0_def)
    moreover have "frame v (w\<lparr>cptr := cptr v, stack := stack v\<rparr>)" using w(2) by (simp add: frame_def)
    ultimately show ?thesis using run ResNoMatch Suc.prems(2) by (simp add: greedy_loop.simps)
  qed (use run w(3) in \<open>simp_all add: greedy_loop.simps\<close>)
qed

lemma exec_simple_greedy_quant_ok:
  assumes "fetched s T REOP_simple_greedy_quant p v"
  shows "okw (exec_simple_greedy_quant n (\<lambda>w. lre_exec_backtrack fuel s w True) s v) (sig_ok s T)"
proof -
  have f: "vm_ok0 s T v" "pc v = Suc p" "greedy_ok (bc s) p" "tgt (bc s) p (17 + p) (length (stack v)) T"
    using assms by (auto simp: fetched_def step_ok_def add.commute)
  obtain k body rest where g: "0 < k" "k < 2 ^ 32" "simple k body" "get_u32 (bc s) (p + 13) = Some (of_nat k)"
      "p + 17 \<le> length (bc s)" "drop (p + 17) (bc s) = body @ ins REOP_match [] @ rest"
    using f(3) by (auto simp: greedy_ok_def)
  obtain w t where w: "get_u32 (bc s) (Suc p) = Some w" "jump (17 + p) w = Some t" "(t, length (stack v)) \<in> T"
    using f(4) by (rule tgtE)
  obtain mn mx where mm: "get_u32 (bc s) (p + 5) = Some mn" "get_u32 (bc s) (p + 9) = Some mx"
    using g(5) by (auto simp: get_u32_def)
  have "bc s = take (p + 17) (bc s) @ (body @ ins REOP_match []) @ rest"
    using g(6) by (metis append.assoc append_take_drop_id)
  then have st: "stands (bc s) (p + 17) (body @ ins REOP_match [])"
    unfolding stands_def using g(5) by (metis length_take min_absorb2)
  obtain r v' where l: "greedy_loop n (\<lambda>w. lre_exec_backtrack fuel s w True) v (p + 17) 0 (unat mx) = Some (r, v')"
      "case r of Inl sg \<Rightarrow> sg = Timeout
       | Inr q' \<Rightarrow> vm_ok0 s T v' \<and> frame v v' \<and> fwd s (q' * k) (cptr v) (cptr v')"
    using greedy_loop_ok [OF g(3) st f(1), of 0 "cptr v" n fuel "unat mx"] by (auto dest!: okw_ex)
  show ?thesis
  proof (cases r)
    case (Inl sg)
    then show ?thesis using l w mm f(2) by (simp add: exec_simple_greedy_quant_def add.commute Let_def)
  next
    case (Inr q)
    then have v': "vm_ok0 s T v'" "stack v' = stack v" and fw: "fwd s (q * k) (cptr v) (cptr v')"
      using l(2) by (auto simp: frame_def)
    have "cptr v \<le> cbuf_end s" using f(1) by (simp add: vm_ok0_def)
    then have bk: "prev_chars s (q * k) (cptr v') \<noteq> None" using back_fwd [OF fw] by blast
    have st_ok: "st_ok s T \<lparr>st_type = RE_EXEC_STATE_GREEDY_QUANT, st_count = q - unat mn, st_cptr = cptr v',
        st_pc = Suc p, st_capture = capture v', st_stack = stack v'\<rparr>" if "q > unat mn"
    proof -
      have "q * k = k * (q - unat mn) + k * unat mn"
        using that by (metis add_mult_distrib2 le_add_diff_inverse2 less_imp_le mult.commute)
      then have "prev_chars s (k * (q - unat mn)) (cptr v') \<noteq> None"
        using bk prev_chars_add [of s "k * (q - unat mn)" "k * unat mn" "cptr v'"] by (auto simp: bind_eq_Some_conv)
      then show ?thesis
        using that g(2,4) w v' by (auto simp: st_ok_def vm_ok0_def add.commute)
    qed
    have push: "sig_ok s T (if ok then Continue else Error, v'')"
      if "q > unat mn" "push_state s (v'\<lparr>pc := t\<rparr>) (Suc p) (cptr v') RE_EXEC_STATE_GREEDY_QUANT (q - unat mn) = (ok, v'')"
      for ok v''
      using push_state_ok [OF _ _ that(2), of T] st_ok [OF that(1)] v' w(3) by (auto simp: vm_ok_def)
    have "exec_simple_greedy_quant n (\<lambda>w. lre_exec_backtrack fuel s w True) s v =
        (if q < unat mn then Some (NoMatch, v'\<lparr>pc := t\<rparr>)
         else if q > unat mn then
           let (ok, v) = push_state s (v'\<lparr>pc := t\<rparr>) (Suc p) (cptr v') RE_EXEC_STATE_GREEDY_QUANT (q - unat mn)
           in Some (if ok then Continue else Error, v)
         else Some (Continue, v'\<lparr>pc := t\<rparr>))"
      using l Inr w mm f(2) by (simp add: exec_simple_greedy_quant_def add.commute Let_def)
    then show ?thesis
      using push v' w(3) by (auto simp: Let_def vm_ok_def split: prod.splits)
  qed
qed

section \<open>The interpreter\<close>

lemma exec_op_ok:
  assumes p: "prog_ok s T" and f: "fetched s T op p v"
  shows "okw (exec_op n (\<lambda>w. lre_exec_backtrack fuel s w True) s op v) (sig_ok s T)"
proof (cases "op \<in> {REOP_simple_greedy_quant, REOP_push_i32, REOP_push_char_pos}")
  case True
  then consider "op = REOP_simple_greedy_quant" | "op = REOP_push_i32" | "op = REOP_push_char_pos" by blast
  then show ?thesis
  proof cases
    case 1
    then show ?thesis using exec_simple_greedy_quant_ok f by (simp add: exec_op_def)
  next
    case 2
    then show ?thesis using exec_push_i32_ok [OF p] f by (simp add: exec_op_def)
  next
    case 3
    then have "vm_ok0 s T v" "(pc v, Suc (length (stack v))) \<in> T" using f by (auto simp: fetched_def step_ok_def)
    then show ?thesis using push_int_ok [OF p] 3 by (simp add: exec_op_def)
  qed
next
  case False
  then show ?thesis by (rule exec_op_ok_basic [OF f])
qed

theorem lre_exec_backtrack_ok:
  assumes p: "prog_ok s T" and "vm_ok s T v"
  shows "okw (lre_exec_backtrack fuel s v no_recurse) (\<lambda>(r, v'). r \<in> {ResNoMatch, ResMatch} \<longrightarrow> vm_ok0 s T v')"
  using assms(2)
proof (induction fuel arbitrary: v)
  case (Suc fuel)
  have v: "vm_ok0 s T v" "(pc v, length (stack v)) \<in> T" using Suc.prems by (auto simp: vm_ok_def)
  obtain op where op: "pc v < length (bc s)" "reop_of (bc s ! pc v) = Some op"
      "step_ok (cx_capture_count s) (bc s) (pc v) (length (stack v)) T"
    using step_okD [OF p v(2)] by blast
  let ?e = "exec_op fuel (\<lambda>w. lre_exec_backtrack fuel s w True) s op (v\<lparr>pc := pc v + 1\<rparr>)"
  have "fetched s T op (pc v) (v\<lparr>pc := pc v + 1\<rparr>)" using v(1) op by (simp add: fetched_def)
  then obtain sg v' where e: "?e = Some (sg, v')" "sig_ok s T (sg, v')"
    using okw_ex [OF exec_op_ok [OF p]] by (metis surj_pair)
  show ?case
  proof (cases "sg = NoMatch \<or> sg = MatchOp")
    case True
    then have v': "vm_ok0 s T v'" using e(2) by auto
    then have "list_all (st_ok s T) (states v')" by (simp add: vm_ok0_def)
    then obtain u where u: "unwind s v' (sg = MatchOp) (states v') = Some u"
        "case u of Inl (r, v'') \<Rightarrow> vm_ok0 s T v'' | Inr v'' \<Rightarrow> vm_ok s T v''"
      using okw_ex [OF unwind_ok [OF _ v']] by blast
    then show ?thesis
      using True op e(1) v' Suc.IH
      by (cases u) (auto simp: lre_exec_backtrack.simps rd_Some Let_def)
  next
    case False
    then show ?thesis
      using op e Suc.IH by (cases sg) (auto simp: lre_exec_backtrack.simps rd_Some)
  qed
qed (simp add: lre_exec_backtrack.simps)

section \<open>Compiled bytecode\<close>

text \<open>The contract between \<open>lre_compile\<close> and \<open>lre_exec\<close>: a header of seven bytes with the flags, the
  number of captures, the stack size and the length, a code fragment that respects them, the final
  \<open>match\<close>, and possibly group names.\<close>

definition compiled :: "u8 list \<Rightarrow> bool" where
  "compiled b \<longleftrightarrow> length b < 2 ^ 31 \<and> (\<exists>hdr n a names. b = hdr @ a @ ins REOP_match [] @ names \<and> length hdr = 7 \<and>
     frag (unat (hdr ! 1)) n a \<and> n \<le> unat (hdr ! 2))"

lemma compiled_typing:
  assumes "compiled b" and "bc s = b" "cx_capture_count s = unat (b ! 1)" "stack_size_max s = unat (b ! 2)"
  shows "\<exists>T. prog_ok s T \<and> (7, 0) \<in> T"
proof -
  obtain hdr n a names where b: "b = hdr @ a @ ins REOP_match [] @ names" "length hdr = 7"
      "frag (unat (hdr ! 1)) n a" "n \<le> unat (hdr ! 2)" "length b < 2 ^ 31"
    using assms(1) by (auto simp: compiled_def)
  let ?cc = "unat (b ! 1)" and ?q = "7 + length a"
  have hd: "b ! 1 = hdr ! 1" "b ! 2 = hdr ! 2" using b(1,2) by (simp_all add: nth_append)
  have "stands b 7 (a @ ins REOP_match [])"
    unfolding stands_def using b(1,2) by (metis append.assoc)
  then have st: "stands b 7 a" "stands b ?q (ins REOP_match [])" by (simp_all add: stands_append)
  obtain T where T: "(7, 0) \<in> T \<union> {(?q, 0)}" "seg ?cc b T {(?q, 0)} (0 + n)"
    using typedD [OF frag_typed [OF b(3)] st(1) b(5), of 0 "{(?q, 0)}"] hd by auto
  have "step_ok ?cc b ?q 0 (T \<union> {(?q, 0)})" by (rule step_plain(2) [OF st(2)]) simp
  then have "prog_ok s (T \<union> {(?q, 0)})"
    using T(2) assms b(4) hd by (auto simp: prog_ok_def seg_def)
  then show ?thesis using T(1) by blast
qed

lemma lre_exec_compiled:
  assumes "compiled b" and "cindex \<le> length input"
  shows "\<exists>r caps. lre_exec fuel b input cindex ctype alloc U = Some (r, caps) \<and>
    (r = Some 0 \<or> r = Some 1 \<longrightarrow> length caps = 2 * unat (b ! 1) \<and> (\<forall>c. Some c \<in> set caps \<longrightarrow> c \<le> length input))"
proof -
  have len: "7 < length b" using assms(1) by (auto simp: compiled_def)
  then have "rd b 0 = Some (b ! 0)" "rd b 1 = Some (b ! 1)" "rd b 2 = Some (b ! 2)" by (auto simp: rd_def)
  then obtain s where s: "re_ctx_init b input ctype alloc U = Some s" "bc s = b" "cbuf s = input"
      "cx_capture_count s = unat (b ! 1)" "stack_size_max s = unat (b ! 2)"
    by (auto simp: re_ctx_init_def Let_def)
  obtain T where T: "prog_ok s T" "(7, 0) \<in> T" using compiled_typing [OF assms(1) s(2,4,5)] by blast
  let ?v = "\<lparr>pc = RE_HEADER_LEN, cptr = cindex, capture = replicate (cx_capture_count s * 2) None,
              stack = [], states = [], state_stack_size = 0\<rparr>"
  have "vm_ok s T ?v"
    using T(2) assms(2) s(3) by (auto simp: vm_ok_def vm_ok0_def caps_ok_def)
  from okw_ex [OF lre_exec_backtrack_ok [OF T(1) this, of fuel False]]
  obtain r v where r: "lre_exec_backtrack fuel s ?v False = Some (r, v)" "r \<in> {ResNoMatch, ResMatch} \<longrightarrow> vm_ok0 s T v"
    by auto
  then have "lre_exec fuel b input cindex ctype alloc U =
      Some (case r of ResError \<Rightarrow> Some (- 1) | ResNoMatch \<Rightarrow> Some 0 | ResMatch \<Rightarrow> Some 1 | OutOfFuel \<Rightarrow> None, capture v)"
    using s(1) by (simp add: lre_exec_def)
  then show ?thesis
    using r(2) s by (cases r) (auto simp: vm_ok0_def caps_ok_def)
qed


text \<open>The bytecode of \<open>/a/y\<close>: save the start, match an \<open>a\<close>, save the end.\<close>

definition bytecode_a :: "u8 list" where
  "bytecode_a = [0x20, 1, 0, 8, 0, 0, 0] @
     (ins REOP_save_start [0] @ ins REOP_char [0x61, 0] @ ins REOP_save_end [0]) @
     ins REOP_match [] @ []"

definition ascii_unicode :: unicode_db where
  "ascii_unicode = \<lparr>lre_case_conv = (\<lambda>c _. [c]), lre_is_id_start = (\<lambda>_. False),
     lre_is_id_continue = (\<lambda>_. False), unicode_script = (\<lambda>cr _ _. (- 2, cr)),
     unicode_general_category = (\<lambda>cr _. (- 2, cr)), unicode_prop = (\<lambda>cr _. (- 2, cr))\<rparr>"

lemma compiled_bytecode_a: "compiled bytecode_a"
proof -
  have "frag 1 0 (ins REOP_char [0x61, 0])" by (intro frag_char char_ins.intros) simp
  moreover have "frag 1 0 (ins REOP_save_start [0])" "frag 1 0 (ins REOP_save_end [0])"
    by (intro frag_save; simp)+
  ultimately have "frag 1 0 (ins REOP_save_start [0] @ ins REOP_char [0x61, 0] @ ins REOP_save_end [0])"
    using frag_app [of 1 0 _ 0] by force
  then show ?thesis
    unfolding compiled_def bytecode_a_def
    by (intro conjI exI [of _ "[0x20, 1, 0, 8, 0, 0, 0]"] exI [of _ 0] exI) (auto simp: ins_def)
qed


text \<open>What the interpreter reports there.\<close>

lemma lre_exec_bytecode_a:
  "lre_exec 100 bytecode_a [0x61, 0x62] 0 0 (\<lambda>_. True) ascii_unicode = Some (Some 1, [Some 0, Some 1])"
  by code_simp

end
