(* ===== verification/Re_Compile_Safe.thy ===== *)
theory Re_Compile_Safe
  imports Re_Class_Safe Re_Exec_Run
begin

text \<open>
  The recursive part of the compiler. With an allocator that does not refuse, every term,
  alternative and disjunction either reports an error or appends a code fragment and moves forward in
  the pattern, so the recursion and the loops end within their fuel; and \<open>lre_compile\<close> returns either
  an error message or bytecode that fulfils the contract \<open>compiled\<close> of the interpreter.
\<close>

section \<open>Extending the state\<close>

definition ext :: "re_state \<Rightarrow> re_state \<Rightarrow> bool" where
  "ext s s' \<longleftrightarrow> state_ok s' \<and> pat s' = pat s \<and> buf_end s' = buf_end s \<and>
     capture_count s \<le> capture_count s' \<and>
     (\<exists>a. contents (byte_code s') = contents (byte_code s) @ a \<and> code (capture_count s') a)"

lemma state_okD:
  assumes s: "state_ok s"
  shows "env_ok s" "buf_ptr s \<le> buf_end s" "good (byte_code s)" "1 \<le> capture_count s" "capture_count s \<le> 255"
    "total_capture_count s \<le> 255" "names_ok (group_names s) (capture_count s - 1)" "u_ok (u_buf s)"
    "has_code s (contents (byte_code s)) s" "buf_end s < lfuel s"
proof -
  show e: "env_ok s" and g: "good (byte_code s)"
    and "buf_ptr s \<le> buf_end s" "1 \<le> capture_count s" "capture_count s \<le> 255"
    "total_capture_count s \<le> 255" "names_ok (group_names s) (capture_count s - 1)"
    using s unfolding state_ok_def by blast+
  show "u_ok (u_buf s)" by (rule env_okD(2) [OF e])
  show "has_code s (contents (byte_code s)) s" by (rule has_code_refl [OF g])
  show "buf_end s < lfuel s" using zpat_len [OF env_okD(1) [OF e]] unfolding lfuel_def by linarith
qed

lemma extD:
  assumes "ext s s'"
  shows "state_ok s'" "pat s' = pat s" "buf_end s' = buf_end s" "capture_count s \<le> capture_count s'"
  using assms by (auto simp: ext_def)

lemma ext_refl: "state_ok s \<Longrightarrow> ext s s"
  by (auto simp: ext_def)

lemma ext_trans:
  assumes "ext s s'" and "ext s' s''"
  shows "ext s s''"
proof -
  obtain a b where "contents (byte_code s') = contents (byte_code s) @ a" "code (capture_count s') a"
      "contents (byte_code s'') = contents (byte_code s') @ b" "code (capture_count s'') b"
    using assms unfolding ext_def by blast
  then have "contents (byte_code s'') = contents (byte_code s) @ (a @ b)" "code (capture_count s'') (a @ b)"
    using code_app code_mono extD(4) [OF assms(2)] by auto
  then show ?thesis using assms unfolding ext_def by (metis le_trans)
qed

lemma ext_usame: "usame s s' \<Longrightarrow> state_ok s \<Longrightarrow> ext s s'"
  using usame_state [of s s'] by (auto simp: ext_def usame_sel)

lemma ext_counted: "counted s s' \<Longrightarrow> state_ok s \<Longrightarrow> ext s s'"
  by (auto simp: counted_def ext_def state_ok_def env_ok_def)

lemma ext_buf_ptr: "ext s s' \<Longrightarrow> p \<le> buf_end s \<Longrightarrow> ext s (s'\<lparr>buf_ptr := p\<rparr>)"
  by (auto simp: ext_def state_ok_def env_ok_def)

lemma ext_code:
  assumes "state_ok s" and "has_code s (contents (byte_code s) @ a) s'" and "code (capture_count s) a"
  shows "ext s s'"
  using assms has_code_sel [OF assms(2)] has_code_contents [OF assms(2)]
  by (auto simp: ext_def state_ok_def env_ok_def)

lemma emits_code_ext:
  assumes "state_ok s" and "emits_code s s' a" and "code (capture_count s) a"
  shows "ext s s'"
proof -
  obtain u where u: "u_ok u" "has_code (s\<lparr>u_buf := u\<rparr>) (contents (byte_code s) @ a) s'"
    using assms(2) by (auto simp: emits_code_def)
  then have "usame s (s\<lparr>u_buf := u\<rparr>)" by (auto simp: usame_def)
  from ext_trans [OF ext_usame [OF this assms(1)] ext_code [OF usame_state [OF this assms(1)]]] u(2) assms(3)
  show ?thesis by simp
qed

text \<open>What \<open>re_parse_disjunction\<close> does on patterns with fewer than \<open>n\<close> bytes left.\<close>

definition advances :: "re_state \<Rightarrow> int \<times> re_state \<Rightarrow> bool" where
  "advances s z \<longleftrightarrow> (case z of (r, s') \<Rightarrow>
     r \<noteq> 0 \<and> u_ok (u_buf s') \<or> r = 0 \<and> ext s s' \<and> buf_ptr s \<le> buf_ptr s')"

definition dj_ok :: "nat \<Rightarrow> disj_fun \<Rightarrow> bool" where
  "dj_ok n dj \<longleftrightarrow> (\<forall>s back. state_ok s \<longrightarrow> buf_end s - buf_ptr s < n \<longrightarrow> okw (dj s back) (advances s))"

text \<open>What the \<open>switch\<close> of \<open>re_parse_term\<close> leaves behind for an atom at \<open>p0\<close>.\<close>

definition atom_post :: "re_state \<Rightarrow> nat \<Rightarrow> atom_res \<Rightarrow> bool" where
  "atom_post s p0 z \<longleftrightarrow> (case z of (r, p, st, lcc, s') \<Rightarrow> r \<noteq> 0 \<and> u_ok (u_buf s') \<or>
     r = 0 \<and> ext s s' \<and> p0 < p \<and> p \<le> buf_end s \<and>
       (st = - 1 \<or> st = int (length (contents (byte_code s)))) \<and> lcc \<le> capture_count s')"

lemma atom_error_ok: "state_ok s \<Longrightarrow> okw (atom_error s msg) (atom_post s p)"
  using re_parse_error_ex [of s msg] state_okD(8) [of s]
  by (auto simp: atom_error_def atom_post_def dest: usame_u_ok)

lemma atom_post_usame:
  assumes "usame s s1" and "state_ok s" and "atom_post s1 p z"
  shows "atom_post s p z"
  using assms ext_trans [OF ext_usame [OF assms(1,2)]]
  by (auto simp: atom_post_def usame_sel)

lemma atom_post_counted:
  assumes "counted s s1" and "state_ok s" and "atom_post s1 p z"
  shows "atom_post s p z"
  using assms ext_trans [OF ext_counted [OF assms(1,2)]]
  by (auto simp: atom_post_def counted_def)

definition prevs :: "bool \<Rightarrow> u8 list" where
  "prevs back = (if back then ins REOP_prev [] else [])"

lemma code_prevs: "code cc (prevs back)"
  by (simp add: prevs_def code_base(3))

lemma emit_prev_if_ok: "has_code s0 c s \<Longrightarrow> okw (emit_prev_if back s) (has_code s0 (c @ prevs back))"
  using re_emit_op_ok [of s0 c s REOP_prev] by (simp add: emit_prev_if_def prevs_def)

lemma term_normal_char_ok:
  assumes s: "state_ok s" and p: "p0 < p" "p \<le> buf_end s"
    and c: "0 \<le> c \<and> c < 0x4000000 \<or> c = CLASS_RANGE_BASE \<and> (\<exists>x. cr = Some x \<and> cr_good s x)"
  shows "okw (term_normal_char s back p c cr) (atom_post s p0)"
proof -
  let ?c = "contents (byte_code s)"
  obtain s1 where s1: "emit_prev_if back s = Some s1" "has_code s (?c @ prevs back) s1"
    using okw_ex [OF emit_prev_if_ok [OF state_okD(9) [OF s]]] by blast
  let ?m = "if c \<ge> CLASS_RANGE_BASE then do { cr \<leftarrow> cr; re_emit_range s1 cr }
               else let c = (if ignore_case s1
                             then lre_canonicalize (unicode s1) (word_of_int c) (is_utf16 s1)
                             else word_of_int c)
                    in if c \<le> 0xffff then do { s \<leftarrow> re_emit_op_u16 s1 REOP_char (ucast c); Some (0, s) }
                       else do { (_, s) \<leftarrow> re_emit_op_u32 s1 REOP_char32 c; Some (0, s) }"
  have u1: "u_ok (u_buf s1)" using state_okD(8) [OF s] by (simp add: has_code_sel [OF s1(2)])
  define P where "P = (\<lambda>(r :: int, s'). r \<noteq> 0 \<and> u_ok (u_buf s') \<or>
    r = 0 \<and> (\<exists>i. char_ins i \<and> has_code s ((?c @ prevs back) @ i) s'))"
  have m: "okw ?m P"
  proof (cases "c \<ge> CLASS_RANGE_BASE")
    case True
    then show ?thesis using c re_emit_range_ok [OF s1(2) u1] by (auto simp: cr_good_def P_def)
  next
    case False
    have a: "okw (re_emit_op_u16 s1 REOP_char x \<bind> (\<lambda>s. Some (0 :: int, s))) P" for x
      using okw_ex [OF re_emit_op_u16_ok [OF s1(2), of REOP_char x]] char_ins.intros(2) [of "u16_bytes x"]
      by (auto simp: P_def)
    have b: "okw (re_emit_op_u32 s1 REOP_char32 x \<bind> (\<lambda>(_, s). Some (0 :: int, s))) P" for x
      using okw_ex [OF re_emit_op_u32_ok [OF s1(2), of REOP_char32 x]] char_ins.intros(3) [of "u32_bytes x"]
      by (auto simp: P_def)
    show ?thesis using False a b by (simp add: Let_def)
  qed
  then obtain r s2 where r: "?m = Some (r, s2)" "P (r, s2)"
    by (auto dest!: okw_ex)
  have e0: "term_normal_char s back p c cr = (if r \<noteq> 0 then Some (- 1, p, - 1, 0, s2)
     else do { s' \<leftarrow> emit_prev_if back s2; Some (0, p, int (code_size s), capture_count s, s') })"
    unfolding term_normal_char_def Let_def [of "code_size s"] Let_def [of "capture_count s"]
      s1(1) Option.bind.bind_lunit r(1) by simp
  show ?thesis
  proof (cases "r = 0")
    case False
    then show ?thesis unfolding e0 using r(2) by (simp add: P_def atom_post_def)
  next
    case True
    then obtain i where i: "char_ins i" "has_code s ((?c @ prevs back) @ i) s2" using r(2) by (auto simp: P_def)
    obtain s3 where s3: "emit_prev_if back s2 = Some s3" "has_code s (((?c @ prevs back) @ i) @ prevs back) s3"
      using okw_ex [OF emit_prev_if_ok [OF i(2)]] by blast
    have "code (capture_count s) (prevs back @ i @ prevs back)"
      using i(1) by (intro code_app code_prevs code_base(1))
    then have "ext s s3" using s3(2) by (intro ext_code [OF s]) auto
    moreover have "code_size s = length ?c" using state_okD(3) [OF s] by (simp add: good_def)
    ultimately show ?thesis
      unfolding e0 using True s3(1) p extD(4) by (auto simp: atom_post_def)
  qed
qed

section \<open>Atoms without recursion\<close>

lemma term_class_atom_ok:
  assumes s: "state_ok s" and p: "p0 \<le> p" "p \<le> buf_end s"
  shows "okw (term_class_atom s back p) (atom_post s p0)"
proof -
  obtain c q cr s1 where g: "get_class_atom s None p False = Some (c, q, cr, s1)" "atom_ok s p (c, q, cr, s1)"
    using okw_ex [OF get_class_atom_ok [OF state_okD(1) [OF s] p(2)]] by (metis surj_pair)
  have us: "usame s s1" using g(2) by (simp add: atom_ok_def)
  show ?thesis
  proof (cases "c < 0")
    case True
    then show ?thesis using g usame_u_ok [OF us] by (simp add: term_class_atom_def atom_post_def)
  next
    case False
    then have "okw (term_normal_char s1 back q c cr) (atom_post s1 p0)"
      using g(2) p usame_sel [OF us]
      by (intro term_normal_char_ok usame_state [OF us s]) (auto simp: atom_ok_def cr_good_def)
    then have "okw (term_normal_char s1 back q c cr) (atom_post s p0)"
      by (rule okw_mono) (rule atom_post_usame [OF us s])
    then show ?thesis using False g(1) by (simp add: term_class_atom_def)
  qed
qed

lemma like_repetition_ok:
  assumes e: "env_ok s" and p: "Suc p \<le> buf_end s"
  shows "\<exists>r. like_repetition (pat s) p = Some r"
proof -
  note z = env_okD(1) [OF e]
  obtain x p1 where 1: "parse_digits (pat s) (p + 1) True = Some (x, p1)" "p1 \<le> buf_end s"
    using okw_ex [OF parse_digits_ok [OF z, of "p + 1" True]] p by auto
  obtain y p2 where 2: "(if pat s ! p1 = 0x2c then do {
              d \<leftarrow> rd (pat s) (p1 + 1);
              if is_digit d then do { (_, q) \<leftarrow> parse_digits (pat s) (p1 + 1) True; Some q }
              else Some (p1 + 1)
            } else Some p1) = Some p2" "p2 \<le> buf_end s" "y = p2"
  proof (cases "pat s ! p1 = 0x2c")
    case True
    then have n: "p1 + 1 \<le> buf_end s" using znext [OF e 1(2)] by simp
    obtain v q where "parse_digits (pat s) (p1 + 1) True = Some (v, q)" "q \<le> buf_end s"
      using okw_ex [OF parse_digits_ok [OF z n, of True]] by auto
    then show ?thesis using True n zrd [OF e n] that by (cases "is_digit (pat s ! (p1 + 1))") auto
  qed (use 1 that in auto)
  show ?thesis
    unfolding like_repetition_def 1(1) Option.bind.bind_lunit prod.case zrd [OF e 1(2)] 2(1) zrd [OF e 2(2)] by simp
qed

lemma term_open_brace_ok:
  assumes s: "state_ok s" and p: "Suc p \<le> buf_end s"
  shows "okw (term_open_brace s back p) (atom_post s p)"
proof -
  note e = state_okD(1) [OF s]
  obtain r where r: "like_repetition (pat s) p = Some r" using like_repetition_ok [OF e p] by blast
  show ?thesis
    using atom_error_ok [OF s] term_class_atom_ok [OF s le_refl, of p "back"] p zrd [OF e p] r
    by (simp add: term_open_brace_def)
qed

lemma code_sz: "state_ok s \<Longrightarrow> code_size s = length (contents (byte_code s))"
  by (simp add: state_ok_def good_def)

lemma term_back_reference_ok:
  assumes s: "state_ok s" and p: "p0 < p" "p \<le> buf_end s" and c: "0 \<le> c" "c < 255"
  shows "okw (term_back_reference s back p c) (atom_post s p0)"
proof -
  let ?op = "if back then REOP_backward_back_reference else REOP_back_reference"
  have "uint (word_of_int c :: u8) = c" using c by (simp add: uint_word_of_int)
  then have "unat (word_of_int c :: u8) < 255" using c by (simp add: unat_eq_nat_uint nat_less_iff)
  then have "code (capture_count s) (ins ?op [word_of_int c])" by (intro code_base(6)) auto
  then show ?thesis
    using okw_ex [OF re_emit_op_u8_ok [OF state_okD(9) [OF s], of ?op "word_of_int c"]] p code_sz [OF s] ext_code [OF s] extD(4)
    by (auto simp: term_back_reference_def atom_post_def)
qed

lemma term_k_fail_ok:
  assumes s: "state_ok s" and p: "p \<le> buf_end s"
  shows "okw (term_k_fail s back p msg) (atom_post s p)"
proof (cases "is_utf16 s")
  case True
  then show ?thesis using atom_error_ok [OF s] by (simp add: term_k_fail_def)
next
  case False
  obtain b s1 where c: "re_has_named_captures (lfuel s) s = Some (b, s1)" "counted s s1"
    using okw_ex [OF re_has_named_captures_ok [OF state_okD(1,10,6) [OF s]]] by auto
  note s1 = extD(1) [OF ext_counted [OF c(2) s]]
  have "okw (atom_error s1 msg) (atom_post s p)"
    by (rule okw_mono [OF atom_error_ok [OF s1]]) (rule atom_post_counted [OF c(2) s])
  moreover have "okw (term_class_atom s1 back p) (atom_post s p)"
    by (rule okw_mono [OF term_class_atom_ok [OF s1 le_refl]])
      (use p c(2) in \<open>auto simp: counted_def intro: atom_post_counted [OF c(2) s]\<close>)
  ultimately show ?thesis using False c(1) by (cases b) (simp_all add: term_k_fail_def)
qed

lemma name_write:
  assumes u: "u_ok u" and n: "length name < 128"
  shows "\<exists>u'. mem_write u 0 (if r = (0 :: int) then name @ [0] else name) = Some u' \<and> u_ok u'"
proof -
  have "length d \<le> 127 \<or> length d = 128 \<and> d ! 127 = 0" if "d = (if r = 0 then name @ [0] else name)" for d :: "u8 list"
    using that n by (auto simp: nth_append)
  from okw_ex [OF u_ok_write [OF u this [OF refl]]] show ?thesis .
qed

lemma term_named_reference_ok:
  assumes s: "state_ok s" and p: "p + 2 \<le> buf_end s"
  shows "okw (term_named_reference s back p) (atom_post s p)"
proof -
  note e = state_okD(1) [OF s]
  have pb: "p \<le> buf_end s" using p by simp
  show ?thesis
  proof (cases "pat s ! (p + 2) = 0x3c")
    case False
    then show ?thesis
      using term_k_fail_ok [OF s pb] by (simp add: term_named_reference_def zrd [OF e p, simplified])
  next
    case True
    then have p3: "p + 3 \<le> buf_end s" using znext [OF e p] by simp
    then have "buf_end s - (p + 3) < lfuel s" using state_okD(10) [OF s] by linarith
    then obtain r q name where g: "re_parse_group_name (lfuel s) (unicode s) (pat s) (p + 3) TMP_BUF_SIZE (is_utf16 s) = Some (r, q, name)"
        "length name < 128" "r = 0 \<and> p + 3 < q \<and> q \<le> buf_end s \<or> r = - 1 \<and> q = p + 3"
      using okw_ex [OF re_parse_group_name_ok [OF env_okD(1) [OF e] p3, of "lfuel s" 128 "unicode s" "is_utf16 s"]] by auto
    obtain u where u: "mem_write (u_buf s) 0 (if r = 0 then name @ [0] else name) = Some u" "u_ok u"
      using name_write [OF state_okD(8) [OF s] g(2)] by blast
    let ?s = "s\<lparr>u_buf := u\<rparr>"
    have us: "usame s ?s" using u(2) by (auto simp: usame_def)
    note s1 = usame_state [OF us s]
    have lf: "lfuel ?s = lfuel s" by (simp add: lfuel_def)
    have kf: "okw (term_k_fail ?s back p msg) (atom_post s p)" for msg
      by (rule okw_mono [OF term_k_fail_ok [OF s1]]) (use pb in \<open>auto intro: atom_post_usame [OF us s]\<close>)
    have br: "okw (term_back_reference ?s back q c) (atom_post s p)" if "r = 0" "0 \<le> c" "c < 255" for c
      by (rule okw_mono [OF term_back_reference_ok [OF s1, of p q c "back"]])
        (use that g(3) in \<open>auto intro: atom_post_usame [OF us s]\<close>)
    obtain c where c: "find_group_name ?s name = Some c" "- 1 \<le> c" "c < 255"
      using find_group_name_ok [OF state_okD(7) [OF s1], of name] state_okD(5) [OF s1] by fastforce
    obtain d h where d: "re_parse_captures (lfuel ?s) ?s (Some name) = Some (d, h)" "- 1 \<le> d" "d < 255"
      using okw_ex [OF re_parse_captures_ok [OF state_okD(1,10) [OF s1], of "Some name"]] by fastforce
    have e0: "term_named_reference s back p =
       (if r \<noteq> 0 then term_k_fail ?s back p ''invalid group name''
        else if c \<ge> 0 then term_back_reference ?s back q c
        else if d < 0 then term_k_fail ?s back p ''group name not defined''
        else term_back_reference ?s back q d)"
      unfolding term_named_reference_def Let_def zrd [OF e p] True Option.bind.bind_lunit g(1) u(1) prod.case c(1) d(1)
      by simp
    show ?thesis unfolding e0 using kf br c(3) d(3) by auto
  qed
qed

lemma more_octal_ok:
  assumes e: "env_ok s" and p: "p \<le> buf_end s" and c: "0 \<le> c"
  shows "\<exists>c' q m. more_octal (pat s) c p = Some (c', q, m) \<and> p \<le> q \<and> q \<le> buf_end s \<and> 0 \<le> c' \<and> c' \<le> c * 8 + 7"
proof (cases "0x30 \<le> pat s ! p \<and> pat s ! p \<le> 0x37")
  case True
  then have "pat s ! p \<noteq> 0" by auto
  then have "Suc p \<le> buf_end s" by (rule znext [OF e p])
  moreover have "0x30 \<le> uint (pat s ! p)" "uint (pat s ! p) \<le> 0x37" using True by (simp_all add: word_le_def)
  ultimately show ?thesis using True c by (auto simp: more_octal_def zrd [OF e p])
qed (use c p in \<open>auto simp: more_octal_def zrd [OF e p]\<close>)

lemma term_escape_zero_ok:
  assumes s: "state_ok s" and p: "p + 2 \<le> buf_end s"
  shows "okw (term_escape_zero s back p) (atom_post s p)"
proof (cases "is_utf16 s")
  case True
  then show ?thesis
    using atom_error_ok [OF s] term_normal_char_ok [OF s _ p, of p 0 None "back"]
    by (simp add: term_escape_zero_def zrd [OF state_okD(1) [OF s] p, simplified] Let_def)
next
  case False
  obtain c q m where 1: "more_octal (pat s) 0 (p + 2) = Some (c, q, m)" "p + 2 \<le> q" "q \<le> buf_end s" "0 \<le> c" "c \<le> 7"
    using more_octal_ok [OF state_okD(1) [OF s] p, of 0] by auto
  have "\<exists>c' q' m'. (if m then more_octal (pat s) c q else Some (c, q, False)) = Some (c', q', m') \<and>
      q \<le> q' \<and> q' \<le> buf_end s \<and> 0 \<le> c' \<and> c' \<le> 63"
    using more_octal_ok [OF state_okD(1) [OF s] 1(3,4)] 1 by fastforce
  then obtain c' q' m' where 2: "(if m then more_octal (pat s) c q else Some (c, q, False)) = Some (c', q', m')"
      "q \<le> q'" "q' \<le> buf_end s" "0 \<le> c'" "c' \<le> 63" by blast
  have "term_escape_zero s back p = term_normal_char s back q' c' None"
    unfolding term_escape_zero_def Let_def using False 1(1) 2(1) by simp
  then show ?thesis using term_normal_char_ok [OF s, of p q' c' None "back"] 1 2 by simp
qed

lemma legacy_octal_ok:
  assumes e: "env_ok s" and p: "p \<le> buf_end s" and d: "0x30 \<le> pat s ! p" "pat s ! p \<le> 0x39"
  shows "\<exists>c q. legacy_octal (pat s) p = Some (c, q) \<and> p \<le> q \<and> q \<le> buf_end s \<and> 0 \<le> c \<and> c < 0x4000000"
proof -
  have "pat s ! p \<noteq> 0" using d by auto
  then have n: "Suc p \<le> buf_end s" by (rule znext [OF e p])
  have u: "0x30 \<le> uint (pat s ! p)" "uint (pat s ! p) \<le> 0x39" using d by (simp_all add: word_le_def)
  show ?thesis
  proof (cases "pat s ! p \<le> 0x37")
    case False
    then show ?thesis using n u by (simp add: legacy_octal_def zrd [OF e p])
  next
    case True
    define c q where "c = (if pat s ! p \<le> 0x33 then uint (pat s ! p) - 0x30 else 0)"
      and "q = (if pat s ! p \<le> 0x33 then p + 1 else p)"
    then have cq: "0 \<le> c" "c \<le> 9" "p \<le> q" "q \<le> buf_end s" using u n p by auto
    obtain c1 q1 m where 1: "more_octal (pat s) c q = Some (c1, q1, m)" "q \<le> q1" "q1 \<le> buf_end s" "0 \<le> c1" "c1 \<le> 79"
      using more_octal_ok [OF e cq(4,1)] cq(2) by fastforce
    have "\<exists>c' q' m'. (if m then more_octal (pat s) c1 q1 else Some (c1, q1, False)) = Some (c', q', m') \<and>
        q1 \<le> q' \<and> q' \<le> buf_end s \<and> 0 \<le> c' \<and> c' \<le> 639"
      using more_octal_ok [OF e 1(3,4)] 1 by fastforce
    then obtain c' q' m' where 2: "(if m then more_octal (pat s) c1 q1 else Some (c1, q1, False)) = Some (c', q', m')"
        "q1 \<le> q'" "q' \<le> buf_end s" "0 \<le> c'" "c' \<le> 639" by blast
    have "(if pat s ! p \<le> 0x33 then (uint (pat s ! p) - 0x30, p + 1) else (0, p)) = (c, q)" by (simp add: c_def q_def)
    then have "legacy_octal (pat s) p = Some (c', q')"
      unfolding legacy_octal_def using True 1(1) 2(1) by (simp add: zrd [OF e p])
    then show ?thesis using 1 2 cq by simp
  qed
qed

lemma term_decimal_escape_ok:
  assumes s: "state_ok s" and p: "p + 1 \<le> buf_end s" and d: "0x30 \<le> pat s ! (p + 1)" "pat s ! (p + 1) \<le> 0x39"
  shows "okw (term_decimal_escape s back p) (atom_post s p)"
proof -
  note e = state_okD(1) [OF s]
  obtain c q where 1: "parse_digits (pat s) (p + 1) False = Some (c, q)" "- 1 \<le> c" "p + 1 \<le> q" "q \<le> buf_end s"
    using okw_ex [OF parse_digits_ok [OF env_okD(1) [OF e] p, of False]] by auto
  let ?m = "if c < 0 then Some (True, s)
                  else if c \<ge> int (capture_count s) then do {
                    (n, s) \<leftarrow> re_count_captures (lfuel s) s;
                    Some (c \<ge> n, s)
                  }
                  else Some (False, s)"
  obtain bad s1 where m: "?m = Some (bad, s1)" "counted s s1" "\<not> bad \<Longrightarrow> 0 \<le> c \<and> c < 255"
  proof -
    have "\<exists>n s1. re_count_captures (lfuel s) s = Some (n, s1) \<and> n \<le> 255 \<and> counted s s1"
      using okw_ex [OF re_count_captures_ok [OF state_okD(1,10,6) [OF s]]] by auto
    then obtain n s1 where n: "re_count_captures (lfuel s) s = Some (n, s1)" "n \<le> 255" "counted s s1" by blast
    show thesis
      using that n counted_refl [OF state_okD(6) [OF s]] state_okD(5) [OF s]
      by (cases "c < 0"; cases "c \<ge> int (capture_count s)"; cases "c \<ge> n") auto
  qed
  note s1 = extD(1) [OF ext_counted [OF m(2) s]]
  have sel: "pat s1 = pat s" "buf_end s1 = buf_end s" using m(2) by (auto simp: counted_def)
  obtain c2 q2 where l: "legacy_octal (pat s) (p + 1) = Some (c2, q2)" "p + 1 \<le> q2" "q2 \<le> buf_end s" "0 \<le> c2" "c2 < 0x4000000"
    using legacy_octal_ok [OF e p d] by blast
  have e0: "term_decimal_escape s back p =
    (if \<not> bad then term_back_reference s1 back q c
     else if is_utf16 s1 then atom_error s1 ''back reference out of range in regular expression''
     else term_normal_char s1 back q2 c2 None)"
    unfolding term_decimal_escape_def Let_def 1(1) Option.bind.bind_lunit prod.case m(1) sel l(1) by simp
  have "okw (term_decimal_escape s back p) (atom_post s1 p)"
    unfolding e0
    using term_back_reference_ok [OF s1, of p q c "back"] atom_error_ok [OF s1] term_normal_char_ok [OF s1, of p q2 c2 None "back"]
      1 m(3) l sel by auto
  then show ?thesis by (rule okw_mono) (rule atom_post_counted [OF m(2) s])
qed

lemma term_escape_ok:
  assumes s: "state_ok s" and p: "p \<le> buf_end s" and c: "pat s ! p = 0x5c"
  shows "okw (term_escape s back p) (atom_post s p)"
proof -
  note e = state_okD(1) [OF s]
  have n: "p + 1 \<le> buf_end s" using znext [OF e p] c by simp
  let ?c1 = "pat s ! (p + 1)"
  have n2: "p + 2 \<le> buf_end s" if "?c1 \<noteq> 0" using znext [OF e n that] by simp
  let ?op = "if ?c1 \<noteq> 0x62 then REOP_not_word_boundary else REOP_word_boundary"
  have "code (capture_count s) (ins ?op [])" by (intro code_base(2) assert_ins.intros) auto
  then have wb: "okw (re_emit_op s ?op \<bind> (\<lambda>s. Some (0, p + 2, - 1, 0, s))) (atom_post s p)" if "?c1 \<noteq> 0"
    using okw_ex [OF re_emit_op_ok [OF state_okD(9) [OF s], of ?op]] ext_code [OF s] n2 [OF that]
    by (auto simp: atom_post_def)
  show ?thesis
    unfolding term_escape_def zrd [OF e n] Option.bind.bind_lunit
    using wb n2 term_named_reference_ok [OF s] term_escape_zero_ok [OF s] term_decimal_escape_ok [OF s n]
      term_class_atom_ok [OF s le_refl p]
    by (auto simp: word_le_nat_alt)
qed

section \<open>Groups\<close>

lemma djD:
  assumes "dj_ok n dj" and "state_ok s" and "p \<le> buf_end s" and "buf_end s - p < n"
  shows "\<exists>r s'. dj (s\<lparr>buf_ptr := p\<rparr>) back = Some (r, s') \<and> (r \<noteq> 0 \<and> u_ok (u_buf s') \<or> r = 0 \<and> ext s s' \<and> p \<le> buf_ptr s')"
proof -
  have e: "ext s (s\<lparr>buf_ptr := p\<rparr>)" by (rule ext_buf_ptr [OF ext_refl [OF assms(2)] assms(3)])
  then have "okw (dj (s\<lparr>buf_ptr := p\<rparr>) back) (advances (s\<lparr>buf_ptr := p\<rparr>))"
    using assms(1,4) extD(1) [OF e] by (simp add: dj_ok_def)
  then show ?thesis
    using ext_trans [OF e] by (auto dest!: okw_ex simp: advances_def)
qed

lemma atom_post_err: "u_ok (u_buf s') \<Longrightarrow> atom_post s p (- 1, q, st, lcc, s')"
  by (simp add: atom_post_def)

text \<open>The two steps of every group: the inner disjunction and the closing bracket.\<close>

lemma djI:
  assumes "dj_ok n dj" and "state_ok s" and "p \<le> buf_end s" "buf_end s - p < n"
    and "\<And>s'. ext s s' \<Longrightarrow> p \<le> buf_ptr s' \<Longrightarrow> okw (f s') (atom_post s0 p0)"
  shows "okw (do { (r, s) \<leftarrow> dj (s\<lparr>buf_ptr := p\<rparr>) back; if r \<noteq> 0 then Some (- 1, q, - 1, 0, s) else f s })
    (atom_post s0 p0)"
  using djD [OF assms(1-4), of "back"] assms(5) atom_post_err by fastforce

lemma expectI:
  assumes "env_ok s" and "p \<le> buf_end s"
    and "Suc p \<le> buf_end s \<Longrightarrow> okw (f (Suc p) s) (atom_post s0 p0)"
  shows "okw (do { (r, p, s) \<leftarrow> re_parse_expect s p (CHR 0x29); if r \<noteq> 0 then Some (- 1, p, - 1, 0, s) else f p s })
    (atom_post s0 p0)"
proof -
  have "(of_char (CHR 0x29) :: u8) \<noteq> 0" by simp
  from okw_ex [OF re_parse_expect_ok [OF assms(1,2) this]] show ?thesis
    using assms(3) atom_post_err by fastforce
qed

lemma state_ok_has_code: "state_ok s \<Longrightarrow> has_code s c s' \<Longrightarrow> state_ok s'"
  using has_code_contents [of s c s'] by (auto simp: state_ok_def env_ok_def has_code_sel)

lemma ext_wrap:
  assumes s: "state_ok s" "has_code s c1 s1" and x: "ext s1 s2"
    and h: "has_code s2 (contents (byte_code s) @ a) s3" "code (capture_count s2) a"
  shows "ext s s3"
  using state_ok_has_code [OF extD(1) [OF x] h(1)] extD [OF x] h(2) has_code_contents [OF h(1)]
  by (auto simp: ext_def has_code_sel [OF s(2)] has_code_sel [OF h(1)])

lemma ext_split:
  assumes "ext s1 s2"
  shows "\<exists>a. contents (byte_code s2) = contents (byte_code s1) @ a \<and> code (capture_count s2) a"
  using assms by (auto simp: ext_def)

lemma term_lookahead_ok:
  assumes dj: "dj_ok n dj" and s: "state_ok s" and p: "p0 < p" "p \<le> buf_end s" "buf_end s - p < n"
  shows "okw (term_lookahead dj s p is_neg is_back) (atom_post s p0)"
proof -
  let ?c = "contents (byte_code s)" and ?op = "if is_neg then REOP_negative_lookahead else REOP_lookahead"
  obtain s1 where s1: "re_emit_op_u32 s ?op 0 = Some (Suc (length ?c), s1)" "has_code s (?c @ ins ?op (u32_bytes 0)) s1"
    using okw_ex [OF re_emit_op_u32_ok [OF state_okD(9) [OF s], of ?op 0]] by auto
  note k1 = state_ok_has_code [OF s s1(2)] and sel1 = has_code_sel [OF s1(2)]
  show ?thesis
    unfolding term_lookahead_def Let_def s1(1) Option.bind.bind_lunit prod.case
  proof (rule djI [OF dj k1], goal_cases)
    case (3 s2)
    note e2 = extD [OF 3(1)]
    obtain a where a: "contents (byte_code s2) = (?c @ ins ?op (u32_bytes 0)) @ a" "code (capture_count s2) a"
      using ext_split [OF 3(1)] has_code_contents [OF s1(2)] by auto
    show ?case
    proof (rule expectI [OF state_okD(1,2) [OF e2(1)]], goal_cases)
      case 1
      obtain s3 where s3: "re_emit_op s2 REOP_match = Some s3" "has_code s2 (((?c @ ins ?op (u32_bytes 0)) @ a) @ ins REOP_match []) s3"
        using okw_ex [OF re_emit_op_ok [OF state_okD(9) [OF e2(1)]]] a(1) by auto
      have s3': "has_code s2 ((?c @ [reop_code ?op]) @ u32_bytes 0 @ (a @ ins REOP_match [])) s3"
        using s3(2) by (simp add: ins_def)
      have sz: "(of_nat (code_size s3) - of_nat (Suc (length ?c) + 4) :: u32) = of_nat (length a + 1)"
        using has_code_size [OF s3(2)] by simp
      obtain s4 where s4: "patch_u32 s3 (Suc (length ?c)) (of_nat (length a + 1)) = Some s4"
          "has_code s2 ((?c @ [reop_code ?op]) @ u32_bytes (of_nat (length a + 1)) @ (a @ ins REOP_match [])) s4"
        using okw_ex [OF patch_u32_ok [OF s3', of "of_nat (length a + 1)"]] by auto
      have r: "u32_bytes (of_nat (length a + 1)) = rel (int (length a) + 1)" by (simp add: rel_def add.commute)
      have h4: "has_code s2 (?c @ (ins ?op (rel (int (length a) + 1)) @ a @ ins REOP_match [])) s4"
        using s4(2) unfolding r by (simp add: ins_def)
      have "ext s s4"
        by (rule ext_wrap [OF s s1(2) 3(1) h4]) (rule code_quant(8) [OF a(2)], simp)
      then show ?case
        unfolding s3(1) Option.bind.bind_lunit if_not_P [OF has_code_derror [OF s3(2)]] sz s4(1)
        using 3(2) p 1 e2 sel1 extD(4) [OF \<open>ext s s4\<close>] state_okD(4) [OF s] code_sz [OF s]
        by (simp add: atom_post_def)
    qed
  qed (use p sel1 in auto)
qed

text \<open>A capturing group. Its name has been appended to the names already.\<close>

lemma term_capture_ok:
  assumes dj: "dj_ok n dj" and s0: "state_ok s0" and p: "p0 < p" "p \<le> buf_end s0" "buf_end s0 - p < n"
    and s: "s = s0\<lparr>group_names := g, has_named_captures := h\<rparr>" and g: "names_ok g (capture_count s0)"
  shows "okw (term_capture dj s back p) (atom_post s0 p0)"
proof (cases "capture_count s \<ge> CAPTURE_COUNT_MAX")
  case True
  obtain s1 where "re_parse_error s ''too many captures'' = Some (- 1, s1)" "usame s s1"
    using re_parse_error_ex [of s "''too many captures''"] state_okD(8) [OF s0] s by auto
  then show ?thesis
    using True by (simp add: term_capture_def atom_error_def atom_post_err usame_u_ok)
next
  case False
  let ?i = "capture_count s" and ?c = "contents (byte_code s0)"
  let ?s = "s\<lparr>capture_count := ?i + 1\<rparr>"
  have k: "state_ok ?s" using s0 g False s by (simp add: state_ok_def env_ok_def)
  have x0: "ext s0 ?s" using k s by (simp add: ext_def)
  have idx: "unat (of_nat ?i :: u8) = ?i" using False by (simp add: unat_of_nat)
  let ?op1 = "if back then REOP_save_end else REOP_save_start" and ?op2 = "if back then REOP_save_start else REOP_save_end"
  have op: "code cc (ins ?op1 [of_nat ?i])" "code cc (ins ?op2 [of_nat ?i])" if "?i < cc" for cc
    using that idx by (intro code_base(4); auto)+
  obtain s1 where s1: "re_emit_op_u8 ?s ?op1 (of_nat ?i) = Some s1" "has_code ?s (contents (byte_code ?s) @ ins ?op1 [of_nat ?i]) s1"
    using okw_ex [OF re_emit_op_u8_ok [OF state_okD(9) [OF k]]] by blast
  have x1: "ext s0 s1" by (rule ext_trans [OF x0 ext_code [OF k s1(2) op(1)]]) simp
  note e1 = extD [OF x1]
  show ?thesis
    unfolding term_capture_def Let_def if_not_P [OF False] s1(1) Option.bind.bind_lunit
  proof (rule djI [OF dj e1(1)], goal_cases)
    case (3 s2)
    note e2 = extD [OF 3(1)]
    have "?i < capture_count s1" using has_code_sel(8) [OF s1(2)] by simp
    then have i2: "?i < capture_count s2" using e2(4) by simp
    obtain s3 where s3: "re_emit_op_u8 s2 ?op2 (of_nat ?i) = Some s3" "has_code s2 (contents (byte_code s2) @ ins ?op2 [of_nat ?i]) s3"
      using okw_ex [OF re_emit_op_u8_ok [OF state_okD(9) [OF e2(1)]]] by blast
    have x3: "ext s0 s3" by (rule ext_trans [OF x1 ext_trans [OF 3(1) ext_code [OF e2(1) s3(2) op(2) [OF i2]]]])
    note e3 = extD [OF x3]
    have b: "buf_ptr s2 \<le> buf_end s3" using state_okD(2) [OF e2(1)] has_code_sel [OF s3(2)] by simp
    show ?case
      unfolding s3(1) Option.bind.bind_lunit
    proof (rule expectI [OF state_okD(1) [OF e3(1)] b], goal_cases)
      case 1
      then show ?case
        using 3(2) p e3 x3 s code_sz [OF s0] by (simp add: atom_post_def)
    qed
  qed (use p e1 in auto)
qed

lemma term_named_group_ok:
  assumes dj: "dj_ok n dj" and s: "state_ok s" and p: "p0 < p" "p \<le> buf_end s" "buf_end s - p \<le> n"
  shows "okw (term_named_group dj s back p) (atom_post s p0)"
proof -
  note e = state_okD(1) [OF s]
  have "buf_end s - p < lfuel s" using state_okD(10) [OF s] by linarith
  then obtain r q name where gn: "re_parse_group_name (lfuel s) (unicode s) (pat s) p TMP_BUF_SIZE (is_utf16 s) = Some (r, q, name)"
      "length name < 128" "0 \<notin> set name" "r = 0 \<and> p < q \<and> q \<le> buf_end s \<or> r = - 1 \<and> q = p"
    using okw_ex [OF re_parse_group_name_ok [OF env_okD(1) [OF e] p(2), of "lfuel s" 128 "unicode s" "is_utf16 s"]] by auto
  obtain u where u: "mem_write (u_buf s) 0 (if r = 0 then name @ [0] else name) = Some u" "u_ok u"
    using name_write [OF state_okD(8) [OF s] gn(2)] by blast
  let ?s = "s\<lparr>u_buf := u\<rparr>"
  have us: "usame s ?s" using u(2) by (auto simp: usame_def)
  note s1 = usame_state [OF us s]
  have er: "okw (atom_error ?s msg) (atom_post s p0)" for msg
    by (rule okw_mono [OF atom_error_ok [OF s1]]) (rule atom_post_usame [OF us s])
  obtain i where i: "find_group_name ?s name = Some i"
    using find_group_name_ok [OF state_okD(7) [OF s1], of name] by blast
  have cc: "Suc (capture_count s - 1) = capture_count s" using state_okD(4) [OF s] by simp
  obtain x g where g: "dbuf_put (group_names ?s) (name @ [0]) = Some (x, g)" "names_ok g (capture_count s)"
    using okw_ex [OF names_ok_add [OF state_okD(7) [OF s] gn(3)]] cc by auto
  have tc: "okw (term_capture dj (?s\<lparr>group_names := g, has_named_captures := 1\<rparr>) back q) (atom_post s p0)" if "r = 0"
    by (rule okw_mono [OF term_capture_ok [OF dj s1, of p0 q _ 1 g]])
      (use that gn(4) p g(2) in \<open>auto intro: atom_post_usame [OF us s]\<close>)
  have e0: "term_named_group dj s back p =
    (if r \<noteq> 0 then atom_error ?s ''invalid group name''
     else if i > 0 then atom_error ?s ''duplicate group name''
     else term_capture dj (?s\<lparr>group_names := g, has_named_captures := 1\<rparr>) back q)"
    unfolding term_named_group_def gn(1) Let_def Option.bind.bind_lunit prod.case u(1) i g(1) by simp
  show ?thesis unfolding e0 using er tc by auto
qed

lemma term_group_ok:
  assumes dj: "dj_ok n dj" and s: "state_ok s" and p: "p \<le> buf_end s" "buf_end s - p \<le> n" and c: "pat s ! p = 0x28"
  shows "okw (term_group dj s back p) (atom_post s p)"
proof -
  note e = state_okD(1) [OF s]
  have p1: "p + 1 \<le> buf_end s" using znext [OF e p(1)] c by simp
  show ?thesis
  proof (cases "pat s ! (p + 1) = 0x3f")
    case False
    have cc: "Suc (capture_count s - 1) = capture_count s" using state_okD(4) [OF s] by simp
    obtain x g where g: "dbuf_put (group_names s) ([] @ [0]) = Some (x, g)" "names_ok g (capture_count s)"
      using okw_ex [OF names_ok_add [OF state_okD(7) [OF s], of "[]"]] cc by auto
    have "okw (term_capture dj (s\<lparr>group_names := g\<rparr>) back (p + 1)) (atom_post s p)"
      by (rule term_capture_ok [OF dj s _ p1 _ _ g(2), of p _ "has_named_captures s"]) (use p p1 in auto)
    then show ?thesis using False g(1) by (simp add: term_group_def zrd [OF e p1, simplified])
  next
    case True
    have p2: "p + 2 \<le> buf_end s" using znext [OF e p1] True by simp
    let ?c2 = "pat s ! (p + 2)"
    have n3: "p + 3 \<le> buf_end s" if "?c2 \<noteq> 0" using znext [OF e p2 that] by simp
    have colon: "okw (do {
         (r, s') \<leftarrow> dj (s\<lparr>buf_ptr := p + 3\<rparr>) back;
         if r \<noteq> 0 then Some (- 1, p, - 1, 0, s')
         else do {
           (r, q, s') \<leftarrow> re_parse_expect s' (buf_ptr s') (CHR 0x29);
           if r \<noteq> 0 then Some (- 1, q, - 1, 0, s')
           else Some (0, q, int (code_size s), capture_count s, s')
         } }) (atom_post s p)" if "?c2 = 0x3a"
    proof (rule djI [OF dj s], goal_cases)
      case (3 s2)
      note e2 = extD [OF 3(1)]
      show ?case
      proof (rule expectI [OF state_okD(1,2) [OF e2(1)]], goal_cases)
        case 1
        then show ?case using 3 e2 code_sz [OF s] by (simp add: atom_post_def)
      qed
    qed (use that n3 p p1 in auto)
    have look: "okw (term_lookahead dj s (p + 3) b False) (atom_post s p)" if "?c2 \<noteq> 0" for b
      by (rule term_lookahead_ok [OF dj s]) (use n3 that p in auto)
    have lt: "okw (do {
         c3 \<leftarrow> rd (pat s) (p + 3);
         if c3 = 0x3d \<or> c3 = 0x21 then term_lookahead dj s (p + 4) (c3 = 0x21) True
         else term_named_group dj s back (p + 3)
       }) (atom_post s p)" if "?c2 = 0x3c"
    proof -
      have p3: "p + 3 \<le> buf_end s" using n3 that by simp
      have "okw (term_lookahead dj s (p + 4) b True) (atom_post s p)" if "pat s ! (p + 3) \<noteq> 0" for b
        by (rule term_lookahead_ok [OF dj s]) (use znext [OF e p3 that] p in auto)
      moreover have "okw (term_named_group dj s back (p + 3)) (atom_post s p)"
        by (rule term_named_group_ok [OF dj s]) (use p3 p in auto)
      ultimately show ?thesis by (simp add: zrd [OF e p3])
    qed
    show ?thesis
      unfolding term_group_def zrd [OF e p1] zrd [OF e p2] True Option.bind.bind_lunit Let_def
      using colon look lt atom_error_ok [OF s] by auto
  qed
qed

text \<open>The \<open>switch\<close> of \<open>re_parse_term\<close>.\<close>

lemma re_parse_atom_ok:
  assumes dj: "dj_ok n dj" and s: "state_ok s" and n: "buf_end s - buf_ptr s \<le> n"
    and p: "buf_ptr s < buf_end s"
  shows "okw (re_parse_atom dj s back) (atom_post s (buf_ptr s))"
proof -
  note e = state_okD(1) [OF s] and pb = state_okD(2) [OF s]
  let ?p = "buf_ptr s" and ?cs = "contents (byte_code s)"
  have p1: "Suc ?p \<le> buf_end s" using p by simp
  have as: "okw (re_emit_op s op \<bind> (\<lambda>s. Some (0, ?p + 1, - 1, 0, s))) (atom_post s ?p)"
    if "op \<in> {REOP_line_start, REOP_line_end}" for op
  proof -
    have "code (capture_count s) (ins op [])" using that by (intro code_base(2) assert_ins.intros) auto
    then show ?thesis
      using okw_ex [OF re_emit_op_ok [OF state_okD(9) [OF s], of op]] ext_code [OF s] p1 by (auto simp: atom_post_def)
  qed
  have dot: "okw (do {
       s' \<leftarrow> emit_prev_if back s;
       s' \<leftarrow> re_emit_op s' (if dotall s' then REOP_any else REOP_dot);
       s' \<leftarrow> emit_prev_if back s';
       Some (0, ?p + 1, int (code_size s), capture_count s, s') }) (atom_post s ?p)"
  proof -
    obtain s1 where s1: "emit_prev_if back s = Some s1" "has_code s (?cs @ prevs back) s1"
      using okw_ex [OF emit_prev_if_ok [OF state_okD(9) [OF s]]] by blast
    define op where "op = (if dotall s1 then REOP_any else REOP_dot)"
    obtain s2 where s2: "re_emit_op s1 op = Some s2" "has_code s ((?cs @ prevs back) @ ins op []) s2"
      using okw_ex [OF re_emit_op_ok [OF s1(2)]] by blast
    obtain s3 where s3: "emit_prev_if back s2 = Some s3" "has_code s (((?cs @ prevs back) @ ins op []) @ prevs back) s3"
      using okw_ex [OF emit_prev_if_ok [OF s2(2)]] by blast
    have "char_ins (ins op [])" by (intro char_ins.intros) (simp add: op_def)
    then have "code (capture_count s) (prevs back @ ins op [] @ prevs back)"
      by (intro code_app code_prevs code_base(1))
    then have "ext s s3" using s3(2) by (intro ext_code [OF s]) auto
    then show ?thesis
      unfolding s1(1) Option.bind.bind_lunit op_def [symmetric] s2(1) s3(1)
      using p1 code_sz [OF s] extD(4) by (simp add: atom_post_def)
  qed
  have cls: "okw (do {
       s1 \<leftarrow> emit_prev_if back s;
       (r, p, s2) \<leftarrow> re_parse_char_class (lfuel s1) s1 ?p;
       if r \<noteq> 0 then Some (- 1, p, - 1, 0, s2)
       else do {
         s3 \<leftarrow> emit_prev_if back s2;
         Some (0, p, int (code_size s), capture_count s, s3)
       } }) (atom_post s ?p)"
  proof -
    obtain s1 where s1: "emit_prev_if back s = Some s1" "has_code s (?cs @ prevs back) s1"
      using okw_ex [OF emit_prev_if_ok [OF state_okD(9) [OF s]]] by blast
    note k1 = state_ok_has_code [OF s s1(2)] and sel1 = has_code_sel [OF s1(2)]
    obtain r q s2 where l: "re_parse_char_class (lfuel s1) s1 ?p = Some (r, q, s2)"
        "r \<noteq> 0 \<and> u_ok (u_buf s2) \<or> r = 0 \<and> ?p < q \<and> q \<le> buf_end s1 \<and> (\<exists>i. char_ins i \<and> emits_code s1 s2 i)"
      using okw_ex [OF re_parse_char_class_ok [OF state_okD(1) [OF k1] _ state_okD(3,10) [OF k1], of ?p]] p1 sel1 by auto
    show ?thesis
    proof (cases "r = 0")
      case False
      then show ?thesis unfolding s1(1) Option.bind.bind_lunit l(1) using l(2) by (simp add: atom_post_err)
    next
      case True
      then obtain i u where i: "char_ins i" "u_ok u" "has_code (s1\<lparr>u_buf := u\<rparr>) (contents (byte_code s1) @ i) s2"
        and q: "?p < q" "q \<le> buf_end s"
        using l(2) sel1 by (auto simp: emits_code_def)
      have "has_code (s\<lparr>u_buf := u\<rparr>) ((?cs @ prevs back) @ i) s2"
        using i(3) s1(2) by (auto simp: has_code_def)
      from okw_ex [OF emit_prev_if_ok [OF this, of "back"]]
      obtain s3 where s3: "emit_prev_if back s2 = Some s3" "has_code (s\<lparr>u_buf := u\<rparr>) (?cs @ (prevs back @ i @ prevs back)) s3"
        by auto
      have "code (capture_count s) (prevs back @ i @ prevs back)"
        using i(1) by (intro code_app code_prevs code_base(1))
      then have "ext s s3" using s3(2) i(2) by (intro emits_code_ext [OF s]) (auto simp: emits_code_def)
      then show ?thesis
        unfolding s1(1) Option.bind.bind_lunit l(1)
        using True q s3(1) code_sz [OF s] extD(4) by (simp add: atom_post_def)
    qed
  qed
  have br: "okw (term_open_brace s back ?p) (atom_post s ?p)" by (rule term_open_brace_ok [OF s p1])
  have g: "okw (term_group dj s back ?p) (atom_post s ?p)" if "pat s ! ?p = 0x28"
    by (rule term_group_ok [OF dj s pb n that])
  have es: "okw (term_escape s back ?p) (atom_post s ?p)" if "pat s ! ?p = 0x5c"
    by (rule term_escape_ok [OF s pb that])
  have ca: "okw (term_class_atom s back ?p) (atom_post s ?p)" by (rule term_class_atom_ok [OF s le_refl pb])
  show ?thesis
    unfolding re_parse_atom_def Let_def zrd [OF e pb] Option.bind.bind_lunit
    using as dot cls br g es ca atom_error_ok [OF s] by auto
qed

section \<open>Terms\<close>

definition quant_ok :: "re_state \<Rightarrow> nat \<Rightarrow> quant \<Rightarrow> bool" where
  "quant_ok s p q \<longleftrightarrow> (case q of NoQuant \<Rightarrow> True | QuantError s' \<Rightarrow> u_ok (u_buf s')
     | Quant qmin qmax p' s' \<Rightarrow> s' = s \<and> p < p' \<and> p' \<le> buf_end s)"

lemma brace_quantifier_ok:
  assumes e: "env_ok s" and p: "p \<le> buf_end s" and c: "pat s ! p = 0x7b"
  shows "okw (brace_quantifier s p) (quant_ok s p)"
proof -
  note z = env_okD(1) [OF e]
  have n: "p + 1 \<le> buf_end s" using znext [OF e p] c by simp
  obtain s1 where bad: "re_parse_error s ''invalid repetition count'' = Some (- 1, s1)" "usame s s1"
    using re_parse_error_ex [OF env_okD(2) [OF e]] by blast
  have bq: "quant_ok s p (QuantError s1)" using usame_u_ok [OF bad(2)] by (simp add: quant_ok_def)
  show ?thesis
  proof (cases "is_digit (pat s ! (p + 1))")
    case False
    then show ?thesis
      using bad(1) bq by (auto simp: brace_quantifier_def zrd [OF e n, simplified] quant_ok_def)
  next
    case True
    obtain m q where 1: "parse_digits (pat s) (p + 1) True = Some (m, q)" "p + 1 \<le> q" "q \<le> buf_end s"
      using okw_ex [OF parse_digits_ok [OF z n, of True]] by auto
    let ?R = "if pat s ! q = 0x2c then do {
              d \<leftarrow> rd (pat s) (q + 1);
              if is_digit d then do {
                (quant_max, p) \<leftarrow> parse_digits (pat s) (q + 1) True;
                Some (if quant_max < m then None else Some (nat quant_max, p))
              }
              else Some (Some (INT32_MAX, q + 1))
            }
            else Some (Some (nat m, q))"
    have R: "okw ?R (\<lambda>r. case r of None \<Rightarrow> True | Some (x, t) \<Rightarrow> q \<le> t \<and> t \<le> buf_end s)"
    proof (cases "pat s ! q = 0x2c")
      case True
      then have qn: "q + 1 \<le> buf_end s" using znext [OF e 1(3)] by simp
      obtain x t where "parse_digits (pat s) (q + 1) True = Some (x, t)" "q + 1 \<le> t" "t \<le> buf_end s"
        using okw_ex [OF parse_digits_ok [OF z qn, of True]] by auto
      then show ?thesis using True qn zrd [OF e qn] by simp
    qed (use 1 in simp)
    then obtain r where r: "?R = Some r" "case r of None \<Rightarrow> True | Some (x, t) \<Rightarrow> q \<le> t \<and> t \<le> buf_end s"
      by (auto dest!: okw_ex)
    have brace: "(of_char (CHR 0x7d) :: u8) \<noteq> 0" by simp
    have e0: "brace_quantifier s p = (case r of
          None \<Rightarrow> Some (QuantError s1)
        | Some (quant_max, t) \<Rightarrow> do {
            x \<leftarrow> rd (pat s) t;
            if x \<noteq> 0x7d \<and> \<not> is_utf16 s then Some NoQuant
            else do {
              (r, t, s) \<leftarrow> re_parse_expect s t (CHR 0x7d);
              if r \<noteq> 0 then Some (QuantError s) else Some (Quant (nat m) quant_max t s)
            }
          })"
      unfolding brace_quantifier_def Let_def zrd [OF e n] Option.bind.bind_lunit bad(1) 1(1) prod.case zrd [OF e 1(3)] r(1)
      using True by simp
    show ?thesis
    proof (cases r)
      case None
      then show ?thesis unfolding e0 using bq by simp
    next
      case (Some z)
      obtain x t where z: "r = Some (x, t)" and t: "q \<le> t" "t \<le> buf_end s" using r(2) Some by (cases z) auto
      obtain r2 t2 s2 where x: "re_parse_expect s t (CHR 0x7d) = Some (r2, t2, s2)"
          "r2 \<noteq> 0 \<and> u_ok (u_buf s2) \<or> r2 = 0 \<and> s2 = s \<and> t2 = Suc t \<and> t2 \<le> buf_end s"
        using okw_ex [OF re_parse_expect_ok [OF e t(2) brace]] by auto
      show ?thesis
        unfolding e0 z option.case prod.case zrd [OF e t(2)] Option.bind.bind_lunit x(1)
        using x(2) t 1(2) by (auto simp: quant_ok_def)
    qed
  qed
qed

lemma parse_quantifier_ok:
  assumes e: "env_ok s" and p: "p \<le> buf_end s"
  shows "okw (parse_quantifier s p) (quant_ok s p)"
  using brace_quantifier_ok [OF e p] znext [OF e p]
  by (auto simp: parse_quantifier_def zrd [OF e p] quant_ok_def)

definition progresses :: "re_state \<Rightarrow> int \<times> re_state \<Rightarrow> bool" where
  "progresses s z \<longleftrightarrow> (case z of (r, s') \<Rightarrow>
     r \<noteq> 0 \<and> u_ok (u_buf s') \<or> r = 0 \<and> ext s s' \<and> buf_ptr s < buf_ptr s')"

lemma re_parse_term_ok:
  assumes dj: "dj_ok n dj" and s: "state_ok s" and n: "buf_end s - buf_ptr s \<le> n" and p: "buf_ptr s < buf_end s"
  shows "okw (re_parse_term dj s back) (progresses s)"
proof -
  let ?cs = "contents (byte_code s)"
  obtain r q st lcc s1 where a: "re_parse_atom dj s back = Some (r, q, st, lcc, s1)" "atom_post s (buf_ptr s) (r, q, st, lcc, s1)"
    using okw_ex [OF re_parse_atom_ok [OF assms, of "back"]] by (metis surj_pair)
  show ?thesis
  proof (cases "r = 0")
    case False
    then show ?thesis using a by (simp add: re_parse_term_def progresses_def atom_post_def)
  next
    case True
    then have x: "ext s s1" "buf_ptr s < q" "q \<le> buf_end s" "st = - 1 \<or> st = int (length ?cs)" "lcc \<le> capture_count s1"
      using a(2) by (auto simp: atom_post_def)
    note e1 = extD [OF x(1)]
    note env1 = state_okD(1) [OF e1(1)]
    have set: "progresses s (0, s1\<lparr>buf_ptr := q\<rparr>)"
      using ext_buf_ptr [OF x(1,3)] x(2) by (simp add: progresses_def)
    show ?thesis
    proof (cases "st = - 1")
      case st: True
      then show ?thesis using True a(1) set by (simp add: re_parse_term_def)
    next
      case st: False
      then have st: "st = int (length ?cs)" using x(4) by blast
      have q1: "q \<le> buf_end s1" using x(3) e1(3) by simp
      obtain qt where qt: "parse_quantifier s1 q = Some qt" "quant_ok s1 q qt"
        using okw_ex [OF parse_quantifier_ok [OF env1 q1]] by blast
      have r0: "\<not> r \<noteq> 0" and st0: "0 \<le> st" using True st by simp_all
      have e0: "re_parse_term dj s back = (case qt of
          NoQuant \<Rightarrow> Some (0, s1\<lparr>buf_ptr := q\<rparr>)
        | QuantError s \<Rightarrow> Some (- 1, s)
        | Quant quant_min quant_max p s \<Rightarrow> do {
            c \<leftarrow> rd (pat s) p;
            let greedy = (c \<noteq> 0x3f);
            let p = (if greedy then p else p + 1);
            (r, s) \<leftarrow> emit_quantifier s (nat st) quant_min quant_max greedy lcc;
            if r \<noteq> 0 then Some (- 1, s) else Some (0, s\<lparr>buf_ptr := p\<rparr>)
          })"
        unfolding re_parse_term_def a(1) Option.bind.bind_lunit prod.case if_not_P [OF r0] if_P [OF st0] qt(1) by (rule refl)
      show ?thesis
      proof (cases qt)
        case NoQuant
        then show ?thesis unfolding e0 using set by simp
      next
        case (QuantError s2)
        then show ?thesis unfolding e0 using qt(2) by (simp add: quant_ok_def progresses_def)
      next
        case (Quant qmin qmax t s2)
        then have t: "s2 = s1" "q < t" "t \<le> buf_end s1" using qt(2) by (auto simp: quant_ok_def)
        define greedy where "greedy \<longleftrightarrow> pat s1 ! t \<noteq> 0x3f"
        define t' where "t' = (if greedy then t else t + 1)"
        have t': "t \<le> t'" "t' \<le> buf_end s" using t znext [OF env1 t(3)] e1(3) by (auto simp: t'_def greedy_def)
        obtain b where b: "contents (byte_code s1) = ?cs @ b" "code (capture_count s1) b"
          using ext_split [OF x(1)] by blast
        have h: "has_code s1 (?cs @ b) s1" using state_okD(9) [OF e1(1)] b(1) by simp
        obtain s3 b' where s3: "emit_quantifier s1 (length ?cs) qmin qmax greedy lcc = Some (0, s3)"
            "code (capture_count s1) b'" "has_code s1 (?cs @ b') s3"
          using okw_ex [OF emit_quantifier_ok [OF h b(2) state_okD(5) [OF e1(1)] x(5) state_okD(4) [OF e1(1)], of qmin qmax greedy]]
          by (auto simp: fragment_at_def)
        have "ext s s3"
          using state_ok_has_code [OF e1(1) s3(3)] has_code_contents [OF s3(3)] s3(2) e1 has_code_sel [OF s3(3)]
          by (auto simp: ext_def)
        from ext_buf_ptr [OF this t'(2)] show ?thesis
          unfolding e0 Quant quant.case t(1) zrd [OF env1 t(3)] Option.bind.bind_lunit Let_def
            greedy_def [symmetric] t'_def [symmetric] st nat_int s3(1) prod.case
          using t t' x(2) by (simp add: progresses_def)
      qed
    qed
  qed
qed

section \<open>Alternatives and disjunctions\<close>

lemma alternative_loop_ok:
  assumes dj: "dj_ok n dj" and cs: "c0 = contents (byte_code s0)" "state_ok s0"
  shows "state_ok s \<Longrightarrow> ext s0 s \<Longrightarrow> buf_end s - buf_ptr s \<le> n \<Longrightarrow> buf_end s - buf_ptr s < fuel \<Longrightarrow>
    okw (alternative_loop fuel dj s back (length c0)) (\<lambda>(r, s'). r \<noteq> 0 \<and> u_ok (u_buf s') \<or>
      r = 0 \<and> ext s0 s' \<and> buf_ptr s \<le> buf_ptr s')"
proof (induction fuel arbitrary: s)
  case (Suc fuel)
  note s = Suc.prems(1) and x = Suc.prems(2)
  note e = state_okD(1) [OF s] and pb = state_okD(2) [OF s]
  show ?case
  proof (cases "buf_ptr s \<ge> buf_end s \<or> pat s ! buf_ptr s = 0x7c \<or> pat s ! buf_ptr s = 0x29")
    case True
    then show ?thesis using x by (auto simp: zrd [OF e pb])
  next
    case False
    then have lt: "buf_ptr s < buf_end s" by simp
    obtain r s1 where t: "re_parse_term dj s back = Some (r, s1)" "progresses s (r, s1)"
      using okw_ex [OF re_parse_term_ok [OF dj s Suc.prems(3) lt, of "back"]] by (metis surj_pair)
    show ?thesis
    proof (cases "r = 0")
      case r: False
      then show ?thesis using False lt t by (simp add: zrd [OF e pb] progresses_def)
    next
      case True
      then have y: "ext s s1" "buf_ptr s < buf_ptr s1" using t(2) by (auto simp: progresses_def)
      note e1 = extD [OF y(1)]
      have IH: "okw (alternative_loop fuel dj s2 back (length c0)) (\<lambda>(r, s'). r \<noteq> 0 \<and> u_ok (u_buf s') \<or>
          r = 0 \<and> ext s0 s' \<and> buf_ptr s \<le> buf_ptr s')"
        if "ext s0 s2" "buf_ptr s2 = buf_ptr s1" "buf_end s2 = buf_end s" for s2
      proof -
        have b: "buf_end s2 - buf_ptr s2 \<le> n" "buf_end s2 - buf_ptr s2 < fuel"
          using that Suc.prems(3,4) y(2) lt by auto
        show ?thesis
          by (rule okw_mono [OF Suc.IH [OF extD(1) [OF that(1)] that(1) b]]) (use that(2) y(2) in auto)
      qed
      have x1: "ext s0 s1" by (rule ext_trans [OF x y(1)])
      show ?thesis
      proof (cases "back")
        case False
        then show ?thesis
          using IH [OF x1 refl e1(3)] t(1) lt True \<open>\<not> (_ \<or> _)\<close> by (simp add: zrd [OF e pb])
      next
        case bk: True
        obtain a where a: "contents (byte_code s) = c0 @ a" "code (capture_count s) a"
          using ext_split [OF x] cs(1) by blast
        obtain b where b: "contents (byte_code s1) = contents (byte_code s) @ b" "code (capture_count s1) b"
          using ext_split [OF y(1)] by blast
        have h: "has_code s1 (c0 @ a @ b) s1" using state_okD(9) [OF e1(1)] a(1) b(1) by simp
        have sz: "code_size s = length c0 + length a" using code_sz [OF s] a(1) by simp
        obtain s2 where s2: "rotate_term s1 (length c0) (length c0 + length a) = Some (0, s2)" "has_code s1 (c0 @ b @ a) s2"
          using okw_ex [OF rotate_term_ok [OF h]] by auto
        note sel = has_code_sel [OF s2(2)] and ct = has_code_contents [OF s2(2)]
        have "code (capture_count s1) (b @ a)" using a(2) b(2) e1(4) by (intro code_app) (auto intro: code_mono)
        then have "ext s0 s2"
          using state_ok_has_code [OF e1(1) s2(2)] ct sel extD [OF x1] cs(1) by (auto simp: ext_def)
        from IH [OF this] show ?thesis
          using bk t(1) lt True sel e1(3) s2(1) sz \<open>\<not> (_ \<or> _)\<close> by (simp add: zrd [OF e pb] Let_def)
      qed
    qed
  qed
qed simp

lemma re_parse_alternative_ok:
  assumes "dj_ok n dj" and s: "state_ok s" and "buf_end s - buf_ptr s \<le> n"
  shows "okw (re_parse_alternative dj s back) (advances s)"
proof -
  have f: "buf_end s - buf_ptr s < lfuel s" using state_okD(10) [OF s] by linarith
  show ?thesis
    unfolding re_parse_alternative_def code_sz [OF s]
    by (rule okw_mono [OF alternative_loop_ok [OF assms(1) refl s s ext_refl [OF s] assms(3) f]])
      (auto simp: advances_def)
qed

text \<open>One more alternative: a \<open>split\<close> in front of the code so far, a \<open>goto\<close> behind it.\<close>

lemma one_alternative_ok:
  assumes dj: "dj_ok n dj" and s0: "state_ok s0" and x: "ext s0 s"
    and b: "buf_end s - buf_ptr s \<le> n"
    and f: "\<And>s'. ext s0 s' \<Longrightarrow> buf_ptr s \<le> buf_ptr s' \<Longrightarrow> okw (f s') Q"
    and er: "\<And>r s'. r \<noteq> 0 \<Longrightarrow> u_ok (u_buf s') \<Longrightarrow> Q (r, s')"
  shows "okw (do {
       (r, s1) \<leftarrow> insert_code s (length (contents (byte_code s0))) 5;
       if r \<noteq> 0 then re_parse_out_of_memory s1
       else do {
         s1 \<leftarrow> patch_u8 s1 (length (contents (byte_code s0))) (reop_code REOP_split_next_first);
         s1 \<leftarrow> patch_u32 s1 (length (contents (byte_code s0)) + 1) (of_nat (code_size s - length (contents (byte_code s0)) + 5));
         (pos, s1) \<leftarrow> re_emit_op_u32 s1 REOP_goto 0;
         (r, s1) \<leftarrow> re_parse_alternative dj s1 back;
         if r \<noteq> 0 then Some (- 1, s1)
         else do {
           s1 \<leftarrow> patch_u32 s1 pos (of_nat (code_size s1) - of_nat (pos + 4));
           f s1
         } } }) Q"
proof -
  let ?c = "contents (byte_code s0)"
  note s = extD(1) [OF x]
  obtain a where a: "contents (byte_code s) = ?c @ a" "code (capture_count s) a" using ext_split [OF x] by blast
  have h: "has_code s (?c @ a) s" using state_okD(9) [OF s] a(1) by simp
  have sz: "code_size s - length ?c + 5 = length a + 5" using code_sz [OF s] a(1) by simp
  show ?thesis
    unfolding sz
  proof (rule insert_split_ok [OF h], goal_cases)
    case (1 s1)
    let ?sp = "ins REOP_split_next_first (rel (int (length a) + 5))"
    have r5: "u32_bytes (of_nat (length a + 5)) = rel (int (length a) + 5)" by (simp add: rel_norm)
    from 1 have h1: "has_code s (?c @ ?sp @ a) s1" unfolding r5 .
    obtain s2 where s2: "re_emit_op_u32 s1 REOP_goto 0 = Some (Suc (length (?c @ ?sp @ a)), s2)"
        "has_code s ((?c @ ?sp @ a) @ ins REOP_goto (u32_bytes 0)) s2"
      using okw_ex [OF re_emit_op_u32_ok [OF h1, of REOP_goto 0]] by auto
    note k2 = state_ok_has_code [OF s s2(2)] and sel2 = has_code_sel [OF s2(2)]
    have "buf_end s2 - buf_ptr s2 \<le> n" using b sel2 by simp
    from okw_ex [OF re_parse_alternative_ok [OF dj k2 this, of "back"]]
    obtain r s3 where s3: "re_parse_alternative dj s2 back = Some (r, s3)"
        "r \<noteq> 0 \<and> u_ok (u_buf s3) \<or> r = 0 \<and> ext s2 s3 \<and> buf_ptr s2 \<le> buf_ptr s3"
      by (auto simp: advances_def)
    show ?case
    proof (cases "r = 0")
      case False
      then show ?thesis unfolding s2(1) Option.bind.bind_lunit prod.case s3(1) using s3(2) er by simp
    next
      case True
      then have y: "ext s2 s3" "buf_ptr s \<le> buf_ptr s3" using s3(2) sel2 by auto
      note e3 = extD [OF y(1)]
      obtain d where d: "contents (byte_code s3) = ((?c @ ?sp @ a) @ ins REOP_goto (u32_bytes 0)) @ d" "code (capture_count s3) d"
        using ext_split [OF y(1)] has_code_contents [OF s2(2)] by auto
      have h3: "has_code s3 ((?c @ ?sp @ a @ [reop_code REOP_goto]) @ u32_bytes 0 @ d) s3"
        using state_okD(9) [OF e3(1)] d(1) by (simp add: ins_def)
      have v: "of_nat (code_size s3) - of_nat (Suc (length (?c @ ?sp @ a)) + 4) = (of_nat (length d) :: u32)"
        using has_code_size [OF h3] by simp
      have pos: "Suc (length (?c @ ?sp @ a)) = length (?c @ ?sp @ a @ [reop_code REOP_goto])" by simp
      obtain s4 where s4: "patch_u32 s3 (Suc (length (?c @ ?sp @ a))) (of_nat (length d)) = Some s4"
          "has_code s3 ((?c @ ?sp @ a @ [reop_code REOP_goto]) @ u32_bytes (of_nat (length d)) @ d) s4"
        unfolding pos using okw_ex [OF patch_u32_ok [OF h3, of "of_nat (length d)"]] by auto
      have h4: "has_code s3 (?c @ (?sp @ a @ ins REOP_goto (rel (int (length d))) @ d)) s4"
        using s4(2) by (simp add: ins_def rel_norm)
      have cc: "capture_count s \<le> capture_count s3" using e3(4) sel2 by simp
      have "code (capture_count s3) (?sp @ a @ ins REOP_goto (rel (int (length d))) @ d)"
        by (rule code_quant(1) [OF code_mono [OF a(2) cc] d(2)]) (simp add: is_split_def)
      then have "ext s0 s4"
        using state_ok_has_code [OF e3(1) h4] has_code_contents [OF h4] has_code_sel [OF h4] e3 sel2 extD [OF x]
        by (auto simp: ext_def)
      then show ?thesis
        unfolding s2(1) Option.bind.bind_lunit prod.case s3(1) v s4(1)
        using True f y(2) has_code_sel(1) [OF h4] by simp
    qed
  qed
qed

lemma disjunction_loop_ok:
  assumes dj: "dj_ok n dj" and s0: "state_ok s0"
  shows "ext s0 s \<Longrightarrow> buf_end s - buf_ptr s \<le> n \<Longrightarrow> buf_end s - buf_ptr s < fuel \<Longrightarrow>
    okw (disjunction_loop fuel dj s back (length (contents (byte_code s0)))) (\<lambda>(r, s'). r \<noteq> 0 \<and> u_ok (u_buf s') \<or>
      r = 0 \<and> ext s0 s' \<and> buf_ptr s \<le> buf_ptr s')"
proof (induction fuel arbitrary: s)
  case (Suc fuel)
  note x = Suc.prems(1) and s = extD(1) [OF Suc.prems(1)]
  note e = state_okD(1) [OF s] and pb = state_okD(2) [OF s]
  show ?case
  proof (cases "pat s ! buf_ptr s = 0x7c")
    case False
    then show ?thesis using x by (simp add: zrd [OF e pb])
  next
    case True
    then have n: "Suc (buf_ptr s) \<le> buf_end s" using znext [OF e pb] by simp
    let ?s = "s\<lparr>buf_ptr := buf_ptr s + 1\<rparr>"
    have x1: "ext s0 ?s" using ext_buf_ptr [OF x, of "buf_ptr s + 1"] n extD(3) [OF x] by simp
    have b: "buf_end ?s - buf_ptr ?s \<le> n" using Suc.prems(2) by simp
    have ne: "\<not> pat s ! buf_ptr s \<noteq> 0x7c" using True by simp
    show ?thesis
      unfolding disjunction_loop.simps(2) zrd [OF e pb] Option.bind.bind_lunit if_not_P [OF ne] Let_def
        has_code_size [OF state_okD(9) [OF extD(1) [OF x1]]]
    proof (rule one_alternative_ok [OF dj s0 x1 b, unfolded has_code_size [OF state_okD(9) [OF extD(1) [OF x1]]]], goal_cases)
      case (1 s')
      have "buf_end s' - buf_ptr s' \<le> n" "buf_end s' - buf_ptr s' < fuel"
        using 1(2) Suc.prems(2,3) n extD(3) [OF 1(1)] extD(3) [OF x] by auto
      from Suc.IH [OF 1(1) this] show ?case
        by (rule okw_mono) (use 1(2) in auto)
    qed auto
  qed
qed simp

lemma re_parse_disjunction_ok:
  "dj_ok fuel (re_parse_disjunction fuel depth)"
proof (induction fuel arbitrary: depth)
  case 0
  then show ?case by (simp add: dj_ok_def)
next
  case (Suc fuel)
  have "okw (re_parse_disjunction (Suc fuel) depth s back) (advances s)"
    if s: "state_ok s" and b: "buf_end s - buf_ptr s < Suc fuel" for s "back"
  proof (cases "stack_overflow s depth")
    case True
    then show ?thesis
      using re_parse_error_ex [OF state_okD(8) [OF s], of "''stack overflow''"] by (auto simp: advances_def usame_u_ok)
  next
    case False
    let ?dj = "re_parse_disjunction fuel (Suc depth)"
    have b': "buf_end s - buf_ptr s \<le> fuel" using b by simp
    obtain r s1 where 1: "re_parse_alternative ?dj s back = Some (r, s1)"
        "r \<noteq> 0 \<and> u_ok (u_buf s1) \<or> r = 0 \<and> ext s s1 \<and> buf_ptr s \<le> buf_ptr s1"
      using okw_ex [OF re_parse_alternative_ok [OF Suc.IH s b', of "Suc depth" "back"]] by (auto simp: advances_def)
    show ?thesis
    proof (cases "r = 0")
      case False
      then show ?thesis using \<open>\<not> stack_overflow s depth\<close> 1 by (simp add: advances_def Let_def)
    next
      case True
      then have x: "ext s s1" "buf_ptr s \<le> buf_ptr s1" using 1(2) by auto
      have b1: "buf_end s1 - buf_ptr s1 \<le> fuel" "buf_end s1 - buf_ptr s1 < lfuel s1"
        using b' x(2) extD(3) [OF x(1)] state_okD(10) [OF extD(1) [OF x(1)]] by auto
      have d: "okw (disjunction_loop (lfuel s1) ?dj s1 back (length (contents (byte_code s)))) (advances s)"
        by (rule okw_mono [OF disjunction_loop_ok [OF Suc.IH s x(1) b1]]) (use x(2) in \<open>auto simp: advances_def\<close>)
      show ?thesis using \<open>\<not> stack_overflow s depth\<close> 1(1) True d by (simp add: Let_def code_sz [OF s])
    qed
  qed
  then show ?case by (simp add: dj_ok_def)
qed

section \<open>The whole compiler\<close>

text \<open>What \<open>lre_compile\<close> needs: a pattern that is zero-terminated, allocators that do not refuse, and
  the Unicode functions behind their contract.\<close>

definition compile_env :: "re_env \<Rightarrow> u8 list \<Rightarrow> nat \<Rightarrow> bool" where
  "compile_env E b n \<longleftrightarrow> zpat b n \<and> allocator (env_ra E) \<and> never_fails (env_ra E) \<and>
     allocator (env_cr_ra E) \<and> never_fails (env_cr_ra E) \<and> unicode_ok (env_unicode E)"

lemma u_ok_cstr: "u_ok u \<Longrightarrow> \<exists>w. cstr u w"
proof -
  assume "u_ok u"
  then have "0 \<in> set u" unfolding u_ok_def by (metis diff_less nth_mem zero_less_numeral zero_less_one)
  then show ?thesis using split_list_first [of 0 u] by (auto simp: cstr_def)
qed

lemma init_good: "compile_env E b n \<Longrightarrow> good (dbuf_init2 0 (Some (env_ra E)))"
  unfolding good_def using dbuf_wf_init2 [of "Some (env_ra E)" 0]
  by (auto simp: compile_env_def dbuf_live_def dbuf_init2_def)

lemma re_init_state_ok:
  assumes "compile_env E b n"
  shows "state_ok (re_init_state E b n flags)"
proof -
  have "names_ok (dbuf_init2 0 (Some (env_ra E))) 0"
    using init_good [OF assms] by (auto simp: names_ok_def)
  then show ?thesis
    using assms init_good [OF assms]
    by (auto simp: state_ok_def env_ok_def u_ok_def re_init_state_def compile_env_def)
qed

lemma re_emit_prologue_ok:
  assumes "has_code s0 [] s" and "1 \<le> capture_count s"
  shows "okw (re_emit_prologue s) (\<lambda>s'. \<exists>a. has_code s0 ([re_flags s, 0, 0, 0, 0, 0, 0] @ a) s' \<and> code 1 a)"
proof -
  let ?h = "[re_flags s, 0, 0, 0, 0, 0, 0]"
  have z: "u32_bytes 0 = [0, 0, 0, 0]" by (simp add: u32_bytes_def)
  obtain s1 where 1: "emit s [re_flags s] = Some s1" "has_code s0 [re_flags s] s1"
    using okw_ex [OF emit_ok [OF assms(1), of "[re_flags s]"]] by auto
  obtain s2 where 2: "emit s1 [0] = Some s2" "has_code s0 [re_flags s, 0] s2"
    using okw_ex [OF emit_ok [OF 1(2), of "[0]"]] by auto
  obtain s3 where 3: "emit s2 [0] = Some s3" "has_code s0 [re_flags s, 0, 0] s3"
    using okw_ex [OF emit_ok [OF 2(2), of "[0]"]] by auto
  obtain s4 where 4: "emit s3 (u32_bytes 0) = Some s4" "has_code s0 ?h s4"
    using okw_ex [OF emit_ok [OF 3(2), of "u32_bytes 0"]] by (auto simp: z)
  have save: "code 1 (ins REOP_save_start [0])" by (rule code_base(4)) auto
  show ?thesis
  proof (cases "re_flags s4 AND LRE_FLAG_STICKY = 0")
    case False
    show ?thesis
      unfolding re_emit_prologue_def 1(1) 2(1) 3(1) 4(1) Option.bind.bind_lunit if_not_P [OF False]
      by (rule okw_mono [OF re_emit_op_u8_ok [OF 4(2)]]) (use save in auto)
  next
    case True
    obtain p5 s5 where 5: "re_emit_op_u32 s4 REOP_split_goto_first (1 + 5) = Some (p5, s5)"
        "has_code s0 (?h @ ins REOP_split_goto_first (rel 6)) s5"
      using okw_ex [OF re_emit_op_u32_ok [OF 4(2), of REOP_split_goto_first "1 + 5"]] by (auto simp: rel_def)
    obtain s6 where 6: "re_emit_op s5 REOP_any = Some s6"
        "has_code s0 (?h @ ins REOP_split_goto_first (rel 6) @ ins REOP_any []) s6"
      using okw_ex [OF re_emit_op_ok [OF 5(2), of REOP_any]] by auto
    obtain p7 s7 where 7: "re_emit_op_u32 s6 REOP_goto (- (5 + 1 + 5)) = Some (p7, s7)"
        "has_code s0 (?h @ ins REOP_split_goto_first (rel 6) @ ins REOP_any [] @ ins REOP_goto (rel (- 11))) s7"
      using okw_ex [OF re_emit_op_u32_ok [OF 6(2), of REOP_goto "- (5 + 1 + 5)"]] by (auto simp: rel_def)
    have "code 1 (ins REOP_any [])" by (intro code_base char_ins.intros) simp
    from code_quant(3) [OF this, of REOP_split_goto_first]
    have "code 1 (ins REOP_split_goto_first (rel 6) @ ins REOP_any [] @ ins REOP_goto (rel (- 11)))"
      by (simp add: is_split_def)
    from code_app [OF this save] show ?thesis
      unfolding re_emit_prologue_def 1(1) 2(1) 3(1) 4(1) Option.bind.bind_lunit if_P [OF True] 5(1) 6(1) 7(1)
        prod.case
      by (intro okw_mono [OF re_emit_op_u8_ok [OF 7(2)]]) auto
  qed
qed

text \<open>The shape of the bytecode \<open>lre_compile\<close> returns for \<open>flags\<close>: the header with the number of
  captures, the stack size and the length of the code, the code with its final \<open>match\<close>, and, if some
  group has a name, one zero-terminated name for each group.\<close>

definition program :: "u8 \<Rightarrow> u8 list \<Rightarrow> u8 list \<Rightarrow> u8 list list \<Rightarrow> bool" where
  "program flags b a ns \<longleftrightarrow> (\<exists>f cc ss n. let names = concat (map (\<lambda>n. n @ [0]) ns) in
     b = ([f, cc, ss] @ u32_bytes (of_nat (length a + 1))) @ a @ ins REOP_match [] @ names \<and>
     frag (unat cc) n a \<and> n \<le> unat ss \<and> 1 \<le> unat cc \<and> (\<forall>n \<in> set ns. 0 \<notin> set n) \<and>
     f = (if ns = [] then flags else flags OR LRE_FLAG_NAMED_GROUPS) \<and> (ns = [] \<or> length ns = unat cc - 1))"

lemma programE:
  assumes "program flags b a ns"
  obtains f cc ss n names where "names = concat (map (\<lambda>n. n @ [0]) ns)"
    "b = ([f, cc, ss] @ u32_bytes (of_nat (length a + 1))) @ a @ ins REOP_match [] @ names"
    "frag (unat cc) n a" "n \<le> unat ss" "1 \<le> unat cc" "\<forall>n \<in> set ns. 0 \<notin> set n"
    "f = (if ns = [] then flags else flags OR LRE_FLAG_NAMED_GROUPS)" "ns = [] \<or> length ns = unat cc - 1"
  using assms that unfolding program_def Let_def by metis

lemma program_compiled:
  assumes "program flags b a ns" and "length b < 2 ^ 31"
  shows "compiled b"
  using assms(1)
proof (rule programE)
  fix f cc ss n names
  assume 1: "b = ([f, cc, ss] @ u32_bytes (of_nat (length a + 1))) @ a @ ins REOP_match [] @ names"
    "frag (unat cc) n a" "n \<le> unat ss"
  let ?h = "[f, cc, ss] @ u32_bytes (of_nat (length a + 1))"
  have "?h ! 1 = cc" "?h ! 2 = ss" "length ?h = 7" by simp_all
  then show ?thesis unfolding compiled_def using 1 assms(2) by metis
qed

lemma names_size:
  assumes "names_ok g k"
  shows "\<exists>ns. contents g = concat (map (\<lambda>n. n @ [0]) ns) \<and> (\<forall>n \<in> set ns. 0 \<notin> set n) \<and> length ns = k \<and> k \<le> dsize g"
proof -
  obtain ns where ns: "contents g = concat (map (\<lambda>n. n @ [0]) ns)" "\<forall>n \<in> set ns. 0 \<notin> set n" "length ns = k" "good g"
    using assms by (auto simp: names_ok_def)
  have "length ns \<le> length (concat (map (\<lambda>n. n @ [0 :: u8]) ns))" by (induction ns) auto
  then have "k \<le> dsize g" using ns by (metis good_def length_contents)
  then show ?thesis using ns by blast
qed

text \<open>The end of the compilation: an error, or a program.\<close>

definition finished :: "u8 \<Rightarrow> re_state + u8 list \<Rightarrow> bool" where
  "finished flags fin \<longleftrightarrow> (case fin of Inl s \<Rightarrow> u_ok (u_buf s) | Inr b \<Rightarrow> \<exists>a ns. program flags b a ns)"

lemma unat_small: "n \<le> 255 \<Longrightarrow> unat (of_nat n :: u8) = n" "0 \<le> r \<Longrightarrow> r \<le> 255 \<Longrightarrow> unat (word_of_int r :: u8) = nat r"
proof -
  show *: "unat (of_nat n :: u8) = n" if "n \<le> 255" for n using that by (simp add: unat_of_nat)
  show "unat (word_of_int r :: u8) = nat r" if "0 \<le> r" "r \<le> 255" using *[of "nat r"] that by simp
qed

lemma re_finish_ok:
  assumes s: "state_ok s" and c: "contents (byte_code s) = [flags, 0, 0, 0, 0, 0, 0] @ a" "code (capture_count s) a"
  shows "okw (re_finish s) (finished flags)"
proof -
  let ?h = "[flags, 0, 0, 0, 0, 0, 0]"
  note e = state_okD(1) [OF s] and u = state_okD(8) [OF s]
  have h0: "has_code s (?h @ a) s" using has_code_refl [of s] state_okD(3) [OF s] c(1) by simp
  obtain s1 where 1: "re_emit_op_u8 s REOP_save_end 0 = Some s1" "has_code s (?h @ a @ ins REOP_save_end [0]) s1"
    using okw_ex [OF re_emit_op_u8_ok [OF h0, of REOP_save_end 0]] by auto
  let ?a = "a @ ins REOP_save_end [0]"
  obtain s2 where 2: "re_emit_op s1 REOP_match = Some s2" "has_code s (?h @ ?a @ ins REOP_match []) s2"
    using okw_ex [OF re_emit_op_ok [OF 1(2), of REOP_match]] by auto
  have "code (capture_count s) (ins REOP_save_end [0])"
    using state_okD(4) [OF s] by (intro code_base(4)) auto
  then obtain n where n: "frag (capture_count s) n ?a"
    using code_app [OF c(2)] by (auto simp: code_def)
  from compute_stack_size_code [OF this, of ?h]
  obtain r where r: "compute_stack_size (?h @ ?a @ ins REOP_match []) = Some r" "r = - 1 \<or> int n \<le> r \<and> r \<le> 255"
    by auto
  have u2: "u_ok (u_buf s2)" and rd: "rd (pat s2) (buf_ptr s2) = Some (pat s ! buf_ptr s)"
    and d2: "\<not> derror (byte_code s2)" and cont2: "contents (byte_code s2) = ?h @ ?a @ ins REOP_match []"
    using has_code_sel [OF 2(2)] u zrd [OF e state_okD(2) [OF s]] has_code_derror [OF 2(2)] has_code_contents [OF 2(2)]
    by simp_all
  consider (extra) "pat s ! buf_ptr s \<noteq> 0" | (deep) "pat s ! buf_ptr s = 0" "r < 0" | (fine) "pat s ! buf_ptr s = 0" "\<not> r < 0" by blast
  then show ?thesis
  proof cases
    case extra
    then show ?thesis
      using re_parse_error_ex [OF u2, of "''extraneous characters at the end''"]
      by (auto simp: re_finish_def 1(1) 2(1) rd finished_def dest: usame_u_ok)
  next
    case deep
    then show ?thesis
      using re_parse_error_ex [OF u2, of "''too many imbricated quantifiers''"]
      by (auto simp: re_finish_def 1(1) 2(1) rd d2 cont2 [simplified] r(1) [simplified] finished_def dest: usame_u_ok)
  next
    case fine
    let ?cc = "of_nat (capture_count s) :: u8" and ?ss = "word_of_int r :: u8"
      and ?len = "of_nat (length ?a + 1) :: u32" and ?m = "?a @ ins REOP_match []"
    have cc: "capture_count s2 = capture_count s" "group_names s2 = group_names s" using has_code_sel [OF 2(2)] by auto
    have sz: "code_size s2 - RE_HEADER_LEN = length ?a + 1" using has_code_size [OF 2(2)] by simp
    have ss: "n \<le> unat ?ss" "r \<le> 255" using r(2) fine(2) by (auto simp: unat_small)
    obtain s3 where 3: "patch_u8 s2 1 ?cc = Some s3" "has_code s ([flags, ?cc] @ [0, 0, 0, 0, 0] @ ?m) s3"
      using okw_ex [OF patch_u8_ok [of s "[flags]" 0 "[0, 0, 0, 0, 0] @ ?m" s2 ?cc]] 2(2) by auto
    obtain s4 where 4: "patch_u8 s3 2 ?ss = Some s4" "has_code s ([flags, ?cc, ?ss] @ [0, 0, 0, 0] @ ?m) s4"
      using okw_ex [OF patch_u8_ok [of s "[flags, ?cc]" 0 "[0, 0, 0, 0] @ ?m" s3 ?ss]] 3(2)
      by (auto simp: numeral_2_eq_2)
    have sz4: "code_size s4 - RE_HEADER_LEN = length ?a + 1" using has_code_size [OF 4(2)] by simp
    obtain s5 where 5: "patch_u32 s4 3 ?len = Some s5" "has_code s ([flags, ?cc, ?ss] @ u32_bytes ?len @ ?m) s5"
      using okw_ex [OF patch_u32_ok [OF 4(2), of ?len]] by (auto simp: numeral_3_eq_3)
    have prefix: "re_finish s = do {
        s \<leftarrow> (if dsize (group_names s5) > capture_count s5 - 1 then do {
                s \<leftarrow> emit s5 (contents (group_names s5));
                f \<leftarrow> rd (buf (byte_code s)) 0;
                patch_u8 s 0 (f OR LRE_FLAG_NAMED_GROUPS)
              } else Some s5);
        Some (Inr (contents (byte_code s))) }"
      unfolding re_finish_def 1(1) 2(1) Option.bind.bind_lunit rd cont2 r(1) cc(1) 3(1) 4(1) sz4 5(1)
      by (simp add: fine d2)
    have cc5: "capture_count s5 = capture_count s" "group_names s5 = group_names s" using has_code_sel [OF 5(2)] by auto
    have fr: "frag (unat ?cc) n ?a" "1 \<le> unat ?cc" "unat ?cc = capture_count s"
      using n state_okD(4,5) [OF s] by (simp_all add: unat_small)
    obtain ns where ns: "contents (group_names s) = concat (map (\<lambda>n. n @ [0]) ns)" "\<forall>n \<in> set ns. 0 \<notin> set n"
        "length ns = capture_count s - 1" "capture_count s - 1 \<le> dsize (group_names s)"
      using names_size [OF state_okD(7) [OF s]] by auto
    show ?thesis
    proof (cases "dsize (group_names s) > capture_count s - 1")
      case False
      have "program flags (contents (byte_code s5)) ?a []"
        unfolding program_def Let_def using fr ss has_code_contents [OF 5(2)] by auto
      then show ?thesis using False unfolding prefix by (auto simp: cc5 finished_def)
    next
      case True
      let ?names = "concat (map (\<lambda>n. n @ [0]) ns)"
      obtain s6 where 6: "emit s5 ?names = Some s6" "has_code s (([flags, ?cc, ?ss] @ u32_bytes ?len @ ?m) @ ?names) s6"
        using okw_ex [OF emit_ok [OF 5(2)]] by auto
      have "0 < length (contents (byte_code s6))" "contents (byte_code s6) ! 0 = flags"
        using has_code_contents [OF 6(2)] by auto
      then have f: "rd (buf (byte_code s6)) 0 = Some flags"
        by (auto simp: rd_def contents_def)
      obtain s7 where 7: "patch_u8 s6 0 (flags OR LRE_FLAG_NAMED_GROUPS) = Some s7"
          "has_code s ([flags OR LRE_FLAG_NAMED_GROUPS, ?cc, ?ss] @ u32_bytes ?len @ ?m @ ?names) s7"
        using okw_ex [OF patch_u8_ok [of s "[]" flags _ s6 "flags OR LRE_FLAG_NAMED_GROUPS"]] 6(2) by auto
      have "ns \<noteq> []" using True ns(1) length_contents [of "group_names s"] state_okD(7) [OF s]
        by (auto simp: names_ok_def good_def)
      then have "program flags (contents (byte_code s7)) ?a ns"
        unfolding program_def Let_def using fr ss ns has_code_contents [OF 7(2)] by auto
      then show ?thesis unfolding prefix using True by (auto simp: cc5 ns(1) 6(1) f 7(1) finished_def)
    qed
  qed
qed

lemma re_parse_pattern_ok:
  assumes "compile_env E b n"
  shows "okw (do { s \<leftarrow> re_emit_prologue (re_init_state E b n flags); re_parse_disjunction (lfuel s) 0 s False })
    (\<lambda>(r, s'). r \<noteq> 0 \<and> u_ok (u_buf s') \<or>
      r = 0 \<and> state_ok s' \<and> (\<exists>a. contents (byte_code s') = [flags, 0, 0, 0, 0, 0, 0] @ a \<and> code (capture_count s') a))"
proof -
  let ?s = "re_init_state E b n flags" and ?h = "[flags, 0, 0, 0, 0, 0, 0]"
  note s = re_init_state_ok [OF assms]
  have "byte_code ?s = dbuf_init2 0 (Some (env_ra E))" and f: "re_flags ?s = flags" by (simp_all add: re_init_state_def)
  then have h: "has_code ?s [] ?s" using has_code_refl [of ?s] state_okD(3) [of ?s, OF s] by (metis contents_init2)
  obtain s1 a where 1: "re_emit_prologue ?s = Some s1" "has_code ?s (?h @ a) s1" "code 1 a"
    using okw_ex [OF re_emit_prologue_ok [OF h state_okD(4) [OF s]]] f by auto
  have s1: "state_ok s1" using s has_code_sel [OF 1(2)] has_code_contents [OF 1(2)] by (auto simp: state_ok_def env_ok_def)
  have "okw (re_parse_disjunction (lfuel s1) 0 s1 False) (advances s1)"
    using re_parse_disjunction_ok [of "lfuel s1" 0] s1 state_okD(10) [OF s1] by (auto simp: dj_ok_def)
  then obtain r s2 where 2: "re_parse_disjunction (lfuel s1) 0 s1 False = Some (r, s2)"
      "r \<noteq> 0 \<and> u_ok (u_buf s2) \<or> r = 0 \<and> ext s1 s2"
    using okw_ex by (fastforce simp: advances_def)
  have "\<exists>a. contents (byte_code s2) = ?h @ a \<and> code (capture_count s2) a" if x: "ext s1 s2"
  proof -
    obtain c where c: "contents (byte_code s2) = contents (byte_code s1) @ c" "code (capture_count s2) c"
      using x by (auto simp: ext_def)
    moreover have "code (capture_count s2) a"
      using code_mono [OF 1(3)] state_okD(4) [OF extD(1) [OF x]] by simp
    ultimately show ?thesis using has_code_contents [OF 1(2)] code_app by auto
  qed
  then show ?thesis using 1(1) 2 extD(1) by auto
qed

lemma lre_compile_result:
  assumes E: "compile_env E b n" and m: "0 < sz" "sz \<le> int (length msg)"
  shows "\<exists>msg' c. lre_compile E msg sz b n flags = Some (msg', c) \<and> length msg' = length msg \<and>
    (\<exists>w. cstr msg' w) \<and> (\<forall>p. c = Some p \<longrightarrow> msg' ! 0 = 0 \<and> (\<exists>a ns. program flags p a ns))"
proof -
  have fail: "\<exists>msg'. pstrcpy msg sz (u_buf s) = Some msg' \<and> length msg' = length msg \<and> (\<exists>w. cstr msg' w)"
    if u: "u_ok (u_buf s)" for s
  proof -
    obtain w where w: "cstr (u_buf s) w" using u_ok_cstr [OF u] by blast
    have "cstr (take (nat (sz - 1)) w @ 0 # r) (take (nat (sz - 1)) w)" for r
      using w cstr_truncate by (auto simp: cstr_def)
    then show ?thesis using pstrcpy_spec [OF w m] m by (auto intro!: exI)
  qed
  obtain s1 r s2 where 1: "re_emit_prologue (re_init_state E b n flags) = Some s1"
      "re_parse_disjunction (lfuel s1) 0 s1 False = Some (r, s2)"
    and r: "r \<noteq> 0 \<and> u_ok (u_buf s2) \<or> r = 0 \<and> state_ok s2 \<and>
      (\<exists>a. contents (byte_code s2) = [flags, 0, 0, 0, 0, 0, 0] @ a \<and> code (capture_count s2) a)"
    using okw_ex [OF re_parse_pattern_ok [OF E, of flags]] by (auto split: bind_splits)
  have "okw (if r \<noteq> 0 then Some (Inl s2) else re_finish s2) (finished flags)"
  proof (cases "r = 0")
    case True
    then show ?thesis using r re_finish_ok by auto
  qed (use r in \<open>simp add: finished_def\<close>)
  then obtain fin where fin: "(if r \<noteq> 0 then Some (Inl s2) else re_finish s2) = Some fin" "finished flags fin"
    using okw_ex by blast
  show ?thesis
  proof (cases fin)
    case (Inl s)
    then show ?thesis using fail [of s] fin(2)
      unfolding lre_compile_def Let_def 1 Option.bind.bind_lunit prod.case fin(1) by (auto simp: finished_def)
  next
    case (Inr p)
    have "0 < length msg" using m by linarith
    then have "mem_write msg 0 [0] = Some (0 # drop 1 msg)" "length (0 # drop 1 msg) = length msg"
      "cstr (0 # drop 1 msg) []"
      by (cases msg; auto simp: mem_write_def cstr_def)+
    then show ?thesis using Inr fin(2)
      unfolding lre_compile_def Let_def 1 Option.bind.bind_lunit prod.case fin(1) by (auto simp: finished_def)
  qed
qed

section \<open>Properties\<close>


definition heap_env :: re_env where
  "heap_env = \<lparr>env_ra = heap_realloc, env_cr_ra = heap_realloc, env_stack_overflow = (\<lambda>d. d > 100),
     env_unicode = ascii_unicode\<rparr>"

lemma heap_compile_env: "zpat b n \<Longrightarrow> compile_env heap_env b n"
  by (auto simp: compile_env_def heap_env_def heap.allocator_axioms never_fails_def heap_realloc_def
      unicode_ok_def lookup_ok_def ascii_unicode_def)



text \<open>The compiled pattern \<open>/a/\<close>.\<close>

definition compiled_a :: "u8 list" where
  "compiled_a = [0, 1, 0, 19, 0, 0, 0, 8, 6, 0, 0, 0, 4, 7, 245, 255, 255, 255, 11, 0, 1, 97, 0, 12, 0, 10]"

lemma lre_compile_a: "lre_compile heap_env [1, 1, 1, 1] 4 [0x61, 0] 1 0 = Some ([0, 1, 1, 1], Some compiled_a)"
  by code_simp


text \<open>C6: On the bytecode of a program compiled without the flag for named groups, the accessors
  return what the compiler has put into the header: the flags, the number of captures, and the place
  of the group names, where the bytecode goes on with one zero-terminated name for each group after
  group 0; without names there is no such place.\<close>

theorem program_accessors:
  assumes "program flags b a ns" and "flags AND LRE_FLAG_NAMED_GROUPS = 0" and "length b < 2 ^ 31"
  shows "lre_get_flags b = Some (if ns = [] then flags else flags OR LRE_FLAG_NAMED_GROUPS) \<and>
    (\<exists>cc. lre_get_capture_count b = Some cc \<and> 1 \<le> cc \<and> (ns = [] \<or> length ns = cc - 1)) \<and>
    lre_get_groupnames b = Some (if ns = [] then None else Some (8 + length a)) \<and>
    drop (8 + length a) b = concat (map (\<lambda>n. n @ [0]) ns)"
  using assms(1)
proof (rule programE)
  fix f cc ss n names
  assume 1: "names = concat (map (\<lambda>n. n @ [0]) ns)"
    "b = ([f, cc, ss] @ u32_bytes (of_nat (length a + 1))) @ a @ ins REOP_match [] @ names"
    "1 \<le> unat cc" "f = (if ns = [] then flags else flags OR LRE_FLAG_NAMED_GROUPS)" "ns = [] \<or> length ns = unat cc - 1"
  have g: "get_u32 b 3 = Some (of_nat (length a + 1))"
  proof -
    have "get_u32 ([f, cc, ss] @ u32_bytes v @ r) 3 = Some v" for v r
      using u32_of_bytes [of v] by (simp add: get_u32_def u32_bytes_def)
    then show ?thesis unfolding 1(2) append_assoc by blast
  qed
  have u: "unat (of_nat (length a + 1) :: u32) = length a + 1"
  proof -
    have "length a + 1 < 2 ^ 32" using assms(3) 1(2) by simp
    then show ?thesis unfolding unat_of_nat by simp
  qed
  have f: "lre_get_flags b = Some f" "lre_get_capture_count b = Some (unat cc)"
    unfolding 1(2) by (simp_all add: lre_get_flags_def lre_get_capture_count_def rd_def)
  have n: "(flags OR LRE_FLAG_NAMED_GROUPS) AND LRE_FLAG_NAMED_GROUPS \<noteq> 0"
    using assms(2) by (simp add: LRE_FLAG_NAMED_GROUPS_def bit.conj_disj_distrib2)
  have "lre_get_groupnames b = Some (if ns = [] then None else Some (8 + length a))"
    unfolding lre_get_groupnames_def f(1) g Option.bind.bind_lunit u using n assms(2) 1(4) by auto
  moreover have "drop (8 + length a) b = names"
    using 1(2) append_eq_conv_conj [of "([f, cc, ss] @ u32_bytes (of_nat (length a + 1))) @ a @ ins REOP_match []" names b]
    by simp
  ultimately show ?thesis using f 1 by auto
qed

text \<open>The code of \<open>/(?<n>a)/y\<close>, and its bytecode.\<close>

definition named_code :: "u8 list" where
  "named_code = ins REOP_save_start [0] @ ins REOP_save_start [1] @ ins REOP_char [0x61, 0] @
     ins REOP_save_end [1] @ ins REOP_save_end [0]"

definition named_bytecode :: "u8 list" where
  "named_bytecode = ([0xa0, 2, 0] @ u32_bytes (of_nat (length named_code + 1))) @ named_code @
     ins REOP_match [] @ [0x6e, 0]"

lemma named_program: "program 0x20 named_bytecode named_code [[0x6e]]"
proof -
  have "frag 2 0 (ins REOP_char [0x61, 0])" by (intro frag_char char_ins.intros) simp
  moreover have "frag 2 0 (ins REOP_save_start [i])" "frag 2 0 (ins REOP_save_end [i])" if "unat i < 2" for i
    using that by (intro frag_save; simp)+
  ultimately have "frag 2 0 named_code" unfolding named_code_def
    by (metis (no_types, lifting) frag_app max.idem unat_0 unat_1 one_less_numeral_iff semiring_norm(76) zero_less_numeral)
  then show ?thesis
    unfolding program_def named_bytecode_def Let_def
    by - (rule exI [of _ "0xa0"], rule exI [of _ "2"], rule exI [of _ "0"], rule exI [of _ "0"],
        simp add: LRE_FLAG_NAMED_GROUPS_def)
qed

theorem program_accessors_witness:
  "lre_get_flags named_bytecode = Some 0xa0 \<and>
    (\<exists>cc. lre_get_capture_count named_bytecode = Some cc \<and> 1 \<le> cc \<and> length [[0x6e :: u8]] = cc - 1) \<and>
    lre_get_groupnames named_bytecode = Some (Some 19) \<and> drop 19 named_bytecode = [0x6e, 0]"
  using program_accessors [OF named_program]
  by (simp add: LRE_FLAG_NAMED_GROUPS_def named_bytecode_def named_code_def)


lemma heap_state_ok: "zpat b n \<Longrightarrow> state_ok (re_init_state heap_env b n flags)"
  by (rule re_init_state_ok [OF heap_compile_env])



definition state_with :: "u8 list \<Rightarrow> re_state" where
  "state_with c = (re_init_state heap_env [0] 0 0)\<lparr>byte_code :=
     \<lparr>buf = c, dsize = length c, derror = False, realloc_func = Some heap_realloc\<rparr>\<rparr>"




end
