(* ===== verification/Rqsort.thy ===== *)
theory Rqsort
  imports Prelude
begin

text \<open>
  The sorting routine \<open>rqsort\<close> of \<^verbatim>\<open>cutils.c\<close>: a quicksort with a three-way partition and
  an explicit stack of at most 50 pending segments, insertion sort for segments of at most six
  elements and heap sort for segments that have been split too often.

  An array of \<open>nmemb\<close> elements of \<open>size\<close> bytes is the list of its elements: the pointer
  \<open>base + k * size\<close> is the index \<open>k\<close>, so a byte pointer and the element counter the code keeps
  beside it (\<open>pi\<close> and \<open>i\<close>, \<open>plt\<close> and \<open>lt\<close>, \<open>pgt\<close> and \<open>gt\<close>) are one variable. The exchange
  functions, which work on the bytes of the elements, are in theory \<open>Exchange\<close>.
  The comparison function has a state of its own (the \<open>opaque\<close> argument, through which a
  JavaScript callback records an exception) and is not assumed to be consistent.
  Reading an element outside the array and pushing a 51st segment are faults.
\<close>

type_synonym ('a, 's) cmp_f = "'a \<Rightarrow> 'a \<Rightarrow> 's \<Rightarrow> int \<times> 's"

definition cmp_at :: "('a, 's) cmp_f \<Rightarrow> 'a list \<Rightarrow> nat \<Rightarrow> nat \<Rightarrow> 's \<Rightarrow> (int \<times> 's) option" where
  "cmp_at cmp xs i j s = do { a \<leftarrow> rd xs i; b \<leftarrow> rd xs j; Some (cmp a b s) }"

definition swap :: "'a list \<Rightarrow> nat \<Rightarrow> nat \<Rightarrow> 'a list option" where
  "swap xs i j = do { a \<leftarrow> rd xs i; b \<leftarrow> rd xs j; Some (xs[i := b, j := a]) }"

primrec swap_block :: "'a list \<Rightarrow> nat \<Rightarrow> nat \<Rightarrow> nat \<Rightarrow> 'a list option" where
  "swap_block xs a b 0 = Some xs"
| "swap_block xs a b (Suc n) = do { xs \<leftarrow> swap xs a b; swap_block xs (a + 1) (b + 1) n }"

section \<open>Heap sort\<close>

definition larger_child ::
  "('a, 's) cmp_f \<Rightarrow> 'a list \<Rightarrow> nat \<Rightarrow> nat \<Rightarrow> nat \<Rightarrow> 's \<Rightarrow> (nat \<times> 's) option" where
  "larger_child cmp xs lo c n s =
     (if c < n - 1 then do {
        (k, s) \<leftarrow> cmp_at cmp xs (lo + c) (lo + c + 1) s;
        Some (if k \<le> 0 then c + 1 else c, s) }
      else Some (c, s))"

lemma larger_child_ge: "larger_child cmp xs lo c n s = Some (c', s') \<Longrightarrow> c \<le> c'"
  by (auto simp: larger_child_def split: if_splits Option.bind_splits)

function sift_down ::
  "('a, 's) cmp_f \<Rightarrow> 'a list \<Rightarrow> nat \<Rightarrow> nat \<Rightarrow> nat \<Rightarrow> 's \<Rightarrow> ('a list \<times> 's) option" where
  "sift_down cmp xs lo r n s =
     (if r * 2 + 1 < n then do {
        (c, s) \<leftarrow> larger_child cmp xs lo (r * 2 + 1) n s;
        (k, s) \<leftarrow> cmp_at cmp xs (lo + r) (lo + c) s;
        if k > 0 then Some (xs, s)
        else do { xs \<leftarrow> swap xs (lo + r) (lo + c); sift_down cmp xs lo c n s } }
      else Some (xs, s))"
  by pat_completeness auto
termination
  by (relation "measure (\<lambda>(cmp, xs, lo, r, n, s). n - r)") (auto dest: larger_child_ge)

primrec heapify ::
  "('a, 's) cmp_f \<Rightarrow> 'a list \<Rightarrow> nat \<Rightarrow> nat \<Rightarrow> nat \<Rightarrow> 's \<Rightarrow> ('a list \<times> 's) option" where
  "heapify cmp xs lo 0 n s = Some (xs, s)"
| "heapify cmp xs lo (Suc i) n s = do {
     (xs, s) \<leftarrow> sift_down cmp xs lo i n s;
     heapify cmp xs lo i n s }"

primrec extract_all ::
  "('a, 's) cmp_f \<Rightarrow> 'a list \<Rightarrow> nat \<Rightarrow> nat \<Rightarrow> 's \<Rightarrow> ('a list \<times> 's) option" where
  "extract_all cmp xs lo 0 s = Some (xs, s)"
| "extract_all cmp xs lo (Suc i) s = do {
     xs \<leftarrow> swap xs lo (lo + Suc i);
     (xs, s) \<leftarrow> sift_down cmp xs lo 0 (Suc i) s;
     extract_all cmp xs lo i s }"

definition heapsortx ::
  "('a, 's) cmp_f \<Rightarrow> 'a list \<Rightarrow> nat \<Rightarrow> nat \<Rightarrow> 's \<Rightarrow> ('a list \<times> 's) option" where
  "heapsortx cmp xs lo nmemb s =
     (if nmemb > 1 then do {
        (xs, s) \<leftarrow> heapify cmp xs lo (nmemb div 2) nmemb s;
        extract_all cmp xs lo (nmemb - 1) s }
      else Some (xs, s))"

section \<open>Partition\<close>

definition med3 ::
  "('a, 's) cmp_f \<Rightarrow> 'a list \<Rightarrow> nat \<Rightarrow> nat \<Rightarrow> nat \<Rightarrow> 's \<Rightarrow> (nat \<times> 's) option" where
  "med3 cmp xs a b c s = do {
     (k, s) \<leftarrow> cmp_at cmp xs a b s;
     if k < 0 then do {
       (k, s) \<leftarrow> cmp_at cmp xs b c s;
       if k < 0 then Some (b, s)
       else do { (k, s) \<leftarrow> cmp_at cmp xs a c s; Some (if k < 0 then c else a, s) } }
     else do {
       (k, s) \<leftarrow> cmp_at cmp xs b c s;
       if k > 0 then Some (b, s)
       else do { (k, s) \<leftarrow> cmp_at cmp xs a c s; Some (if k < 0 then a else c, s) } } }"

function left_scan ::
  "('a, 's) cmp_f \<Rightarrow> nat \<Rightarrow> 'a list \<Rightarrow> nat \<Rightarrow> nat \<Rightarrow> nat \<Rightarrow> 's \<Rightarrow> ('a list \<times> nat \<times> nat \<times> 's) option" where
  "left_scan cmp ptr xs pi pj plt s =
     (if pi < pj then do {
        (c, s) \<leftarrow> cmp_at cmp xs ptr pi s;
        if c > 0 then left_scan cmp ptr xs (pi + 1) pj plt s
        else if c = 0 then do {
          xs \<leftarrow> swap xs plt pi;
          left_scan cmp ptr xs (pi + 1) pj (plt + 1) s }
        else Some (xs, pi, plt, s) }
      else Some (xs, pi, plt, s))"
  by pat_completeness auto
termination
  by (relation "measure (\<lambda>(cmp, ptr, xs, pi, pj, plt, s). pj - pi)") auto

function right_scan ::
  "('a, 's) cmp_f \<Rightarrow> nat \<Rightarrow> 'a list \<Rightarrow> nat \<Rightarrow> nat \<Rightarrow> nat \<Rightarrow> 's \<Rightarrow> ('a list \<times> nat \<times> nat \<times> 's) option" where
  "right_scan cmp ptr xs pi pj pgt s =
     (let pj = pj - 1 in
      if pi < pj then do {
        (c, s) \<leftarrow> cmp_at cmp xs ptr pj s;
        if c < 0 then right_scan cmp ptr xs pi pj pgt s
        else if c = 0 then do {
          xs \<leftarrow> swap xs (pgt - 1) pj;
          right_scan cmp ptr xs pi pj (pgt - 1) s }
        else Some (xs, pj, pgt, s) }
      else Some (xs, pj, pgt, s))"
  by pat_completeness auto
termination
  by (relation "measure (\<lambda>(cmp, ptr, xs, pi, pj, pgt, s). pj)") auto

primrec partition_loop ::
  "nat \<Rightarrow> ('a, 's) cmp_f \<Rightarrow> nat \<Rightarrow> 'a list \<Rightarrow> nat \<Rightarrow> nat \<Rightarrow> nat \<Rightarrow> nat \<Rightarrow> 's
    \<Rightarrow> ('a list \<times> nat \<times> nat \<times> nat \<times> 's) option" where
  "partition_loop 0 cmp ptr xs pi pj plt pgt s = None"
| "partition_loop (Suc fuel) cmp ptr xs pi pj plt pgt s = do {
     (xs, pi, plt, s) \<leftarrow> left_scan cmp ptr xs pi pj plt s;
     (xs, pj, pgt, s) \<leftarrow> right_scan cmp ptr xs pi pj pgt s;
     if pi \<ge> pj then Some (xs, pi, plt, pgt, s)
     else do {
       xs \<leftarrow> swap xs pi pj;
       partition_loop fuel cmp ptr xs (pi + 1) pj plt pgt s } }"

text \<open>One round of the splitting loop: the pivot goes to the start, the segment is partitioned and
  the elements equal to the pivot are moved to its middle. The result gives the new array, the
  lengths \<open>lt\<close> and \<open>gt\<close> that end the first and the second part, and the start of the third.\<close>

definition rq_partition ::
  "('a, 's) cmp_f \<Rightarrow> 'a list \<Rightarrow> nat \<Rightarrow> nat \<Rightarrow> 's \<Rightarrow> ('a list \<times> nat \<times> nat \<times> nat \<times> 's) option" where
  "rq_partition cmp xs ptr nmemb s = do {
     let m4 = nmemb div 4;
     (m, s) \<leftarrow> med3 cmp xs (ptr + m4) (ptr + 2 * m4) (ptr + 3 * m4) s;
     xs \<leftarrow> swap xs ptr m;
     let hi = ptr + nmemb;
     (xs, pi, plt, pgt, s) \<leftarrow> partition_loop (Suc nmemb) cmp ptr xs (ptr + 1) hi (ptr + 1) hi s;
     let span = min (plt - ptr) (pi - plt);
     xs \<leftarrow> swap_block xs ptr (pi - span) span;
     let span2 = pgt - pi;
     let span = min (hi - pgt) span2;
     xs \<leftarrow> swap_block xs pi (hi - span) span;
     Some (xs, pi - plt, nmemb - (pgt - pi), hi - span2, s) }"

section \<open>The main loops\<close>

text \<open>A pending segment: its base, its count and its depth.\<close>

type_synonym segment = "nat \<times> nat \<times> nat"

definition push_segment :: "segment list \<Rightarrow> segment \<Rightarrow> segment list option" where
  "push_segment st e = (if length st < 50 then Some (e # st) else None)"

function rq_split ::
  "('a, 's) cmp_f \<Rightarrow> 'a list \<Rightarrow> nat \<Rightarrow> nat \<Rightarrow> nat \<Rightarrow> segment list \<Rightarrow> 's
    \<Rightarrow> ('a list \<times> nat \<times> nat \<times> segment list \<times> 's) option" where
  "rq_split cmp xs ptr nmemb depth st s =
     (if nmemb > 6 then
        (if depth + 1 > 50 then do {
           (xs, s) \<leftarrow> heapsortx cmp xs ptr nmemb s;
           Some (xs, ptr, 0, st, s) }
         else do {
           (xs, lt, gt, pgt, s) \<leftarrow> rq_partition cmp xs ptr nmemb s;
           if lt > nmemb - gt then do {
             st \<leftarrow> push_segment st (ptr, lt, depth + 1);
             rq_split cmp xs pgt (nmemb - gt) (depth + 1) st s }
           else do {
             st \<leftarrow> push_segment st (pgt, nmemb - gt, depth + 1);
             rq_split cmp xs ptr lt (depth + 1) st s } })
      else Some (xs, ptr, nmemb, st, s))"
  by pat_completeness auto
termination
  by (relation "measure (\<lambda>(cmp, xs, ptr, nmemb, depth, st, s). 51 - depth)") auto

function insert_down ::
  "('a, 's) cmp_f \<Rightarrow> 'a list \<Rightarrow> nat \<Rightarrow> nat \<Rightarrow> 's \<Rightarrow> ('a list \<times> 's) option" where
  "insert_down cmp xs ptr pj s =
     (if pj > ptr then do {
        (c, s) \<leftarrow> cmp_at cmp xs (pj - 1) pj s;
        if c > 0 then do { xs \<leftarrow> swap xs pj (pj - 1); insert_down cmp xs ptr (pj - 1) s }
        else Some (xs, s) }
      else Some (xs, s))"
  by pat_completeness auto
termination
  by (relation "measure (\<lambda>(cmp, xs, ptr, pj, s). pj)") auto

function insertion_sort ::
  "('a, 's) cmp_f \<Rightarrow> 'a list \<Rightarrow> nat \<Rightarrow> nat \<Rightarrow> nat \<Rightarrow> 's \<Rightarrow> ('a list \<times> 's) option" where
  "insertion_sort cmp xs ptr pi hi s =
     (if pi < hi then do {
        (xs, s) \<leftarrow> insert_down cmp xs ptr pi s;
        insertion_sort cmp xs ptr (pi + 1) hi s }
      else Some (xs, s))"
  by pat_completeness auto
termination
  by (relation "measure (\<lambda>(cmp, xs, ptr, pi, hi, s). hi - pi)") auto

fun rqsort_loop ::
  "nat \<Rightarrow> ('a, 's) cmp_f \<Rightarrow> 'a list \<Rightarrow> segment list \<Rightarrow> 's \<Rightarrow> ('a list \<times> 's) option" where
  "rqsort_loop fuel cmp xs [] s = Some (xs, s)"
| "rqsort_loop 0 cmp xs (e # st) s = None"
| "rqsort_loop (Suc fuel) cmp xs ((ptr, nmemb, depth) # st) s = do {
     (xs, ptr, nmemb, st, s) \<leftarrow> rq_split cmp xs ptr nmemb depth st s;
     (xs, s) \<leftarrow> insertion_sort cmp xs ptr (ptr + 1) (ptr + nmemb) s;
     rqsort_loop fuel cmp xs st s }"

text \<open>Each round of the outer loop removes the segment it pops and pushes segments with fewer
  elements in total, so \<open>2 * nmemb + 1\<close> rounds are always enough (\<open>rqsort_total\<close>).\<close>

definition rqsort :: "('a, 's) cmp_f \<Rightarrow> 'a list \<Rightarrow> 's \<Rightarrow> ('a list \<times> 's) option" where
  "rqsort cmp xs s =
     (if length xs < 2 then Some (xs, s)
      else rqsort_loop (2 * length xs + 1) cmp xs [(0, length xs, 0)] s)"

declare sift_down.simps [simp del] left_scan.simps [simp del] right_scan.simps [simp del]
  rq_split.simps [simp del] insert_down.simps [simp del] insertion_sort.simps [simp del]
  partition_loop.simps [simp del]

end
