(* ===== verification/Rqsort_Safe.thy ===== *)
theory Rqsort_Safe
  imports Rqsort "HOL-Library.Multiset"
begin

text \<open>
  What \<open>rqsort\<close> guarantees for every comparison function, consistent or not: it returns, it stays
  inside the array and inside its stack of 50 segments, and it only rearranges the elements.
  Every step is a rearrangement inside the segment it works on (\<open>perm_on\<close>).
\<close>

section \<open>Rearranging a segment\<close>

definition perm_on :: "nat \<Rightarrow> nat \<Rightarrow> 'a list \<Rightarrow> 'a list \<Rightarrow> bool" where
  "perm_on lo hi xs ys \<longleftrightarrow> mset ys = mset xs \<and> take lo ys = take lo xs \<and> drop hi ys = drop hi xs"

lemma perm_on_refl [simp]: "perm_on lo hi xs xs"
  by (simp add: perm_on_def)

lemma perm_on_trans [trans]: "perm_on lo hi xs ys \<Longrightarrow> perm_on lo hi ys zs \<Longrightarrow> perm_on lo hi xs zs"
  by (simp add: perm_on_def)

lemma perm_on_length: "perm_on lo hi xs ys \<Longrightarrow> length ys = length xs"
  by (auto simp: perm_on_def dest: mset_eq_length)

lemma perm_on_mono:
  assumes "perm_on lo hi xs ys" and "lo' \<le> lo" and "hi \<le> hi'"
  shows "perm_on lo' hi' xs ys"
proof -
  have "take lo' (take lo ys) = take lo' (take lo xs)"
       "drop (hi' - hi) (drop hi ys) = drop (hi' - hi) (drop hi xs)"
    using assms(1) by (simp_all add: perm_on_def)
  then show ?thesis using assms by (simp add: perm_on_def min_absorb1)
qed

lemma perm_on_below: "perm_on lo hi xs ys \<Longrightarrow> k < lo \<Longrightarrow> ys ! k = xs ! k"
  unfolding perm_on_def by (metis nth_take)

lemma perm_on_above:
  assumes "perm_on lo hi xs ys" and "hi \<le> k" "k < length xs"
  shows "ys ! k = xs ! k"
proof -
  have "drop hi ys ! (k - hi) = drop hi xs ! (k - hi)" using assms(1) by (simp add: perm_on_def)
  then show ?thesis using assms perm_on_length [OF assms(1)] by simp
qed

lemma perm_on_slice:
  assumes "perm_on lo hi xs ys" and "lo \<le> hi"
  shows "mset (take (hi - lo) (drop lo ys)) = mset (take (hi - lo) (drop lo xs))"
proof -
  have split: "zs = take lo zs @ take (hi - lo) (drop lo zs) @ drop hi zs" for zs :: "'a list"
    using assms(2) by (metis append_assoc append_take_drop_id le_add_diff_inverse take_add)
  have "mset ys = mset (take lo ys) + mset (take (hi - lo) (drop lo ys)) + mset (drop hi ys)"
       "mset xs = mset (take lo xs) + mset (take (hi - lo) (drop lo xs)) + mset (drop hi xs)"
    using arg_cong [OF split [of ys], of mset] arg_cong [OF split [of xs], of mset] by simp_all
  then show ?thesis
    using assms(1) unfolding perm_on_def by (metis add_left_imp_eq add_right_imp_eq)
qed

lemma perm_on_mem:
  assumes "perm_on lo hi xs ys" and "lo \<le> k" "k < hi" "hi \<le> length xs"
  shows "\<exists>k'. lo \<le> k' \<and> k' < hi \<and> ys ! k = xs ! k'"
proof -
  have "take (hi - lo) (drop lo ys) ! (k - lo) \<in> set (take (hi - lo) (drop lo ys))"
    using assms perm_on_length [OF assms(1)] by (intro nth_mem) auto
  also have "set (take (hi - lo) (drop lo ys)) = set (take (hi - lo) (drop lo xs))"
    using perm_on_slice [OF assms(1)] assms by (metis le_trans less_imp_le mset_eq_setD)
  finally have "ys ! k \<in> set (take (hi - lo) (drop lo xs))"
    using assms perm_on_length [OF assms(1)] by simp
  then obtain j where "j < hi - lo" "ys ! k = take (hi - lo) (drop lo xs) ! j"
    by (auto simp: in_set_conv_nth)
  then show ?thesis using assms by (intro exI [of _ "lo + j"]) auto
qed

lemma perm_on_swap:
  assumes "lo \<le> i" "i < hi" "lo \<le> j" "j < hi" "hi \<le> length xs"
  shows "perm_on lo hi xs (xs[i := xs ! j, j := xs ! i])"
proof -
  have "i < length xs" "j < length xs" using assms by simp_all
  then have "mset (xs[i := xs ! j, j := xs ! i]) = mset xs" using mset_swap [of j xs i] by simp
  then show ?thesis using assms by (simp add: perm_on_def)
qed

lemma okw_swap [wp]:
  "okw (swap xs i j) Q \<longleftrightarrow> i < length xs \<and> j < length xs \<and> Q (xs[i := xs ! j, j := xs ! i])"
  by (auto simp: swap_def wp)

lemma okw_cmp_at [wp]:
  "okw (cmp_at cmp xs i j s) Q \<longleftrightarrow> i < length xs \<and> j < length xs \<and> Q (cmp (xs ! i) (xs ! j) s)"
  by (auto simp: cmp_at_def wp)

lemma swap_Some:
  "i < length xs \<Longrightarrow> j < length xs \<Longrightarrow> swap xs i j = Some (xs[i := xs ! j, j := xs ! i])"
  by (simp add: swap_def rd_Some)

lemma cmp_at_Some:
  "i < length xs \<Longrightarrow> j < length xs \<Longrightarrow> cmp_at cmp xs i j s = Some (cmp (xs ! i) (xs ! j) s)"
  by (simp add: cmp_at_def rd_Some)

section \<open>Every loop stays inside its segment\<close>

lemma swap_block_perm:
  assumes "lo \<le> a" "a + n \<le> hi" "lo \<le> b" "b + n \<le> hi" "hi \<le> length xs"
  shows "okw (swap_block xs a b n) (perm_on lo hi xs)"
  using assms
proof (induction n arbitrary: xs a b)
  case (Suc n)
  let ?ys = "xs[a := xs ! b, b := xs ! a]"
  have p: "perm_on lo hi xs ?ys" using Suc.prems by (intro perm_on_swap) auto
  then have "okw (swap_block ?ys (a + 1) (b + 1) n) (perm_on lo hi ?ys)"
    using Suc.prems by (intro Suc.IH) auto
  with p show ?case using Suc.prems by (auto simp: wp intro: perm_on_trans elim!: okw_mono)
qed simp

lemma larger_child_ok:
  assumes "c < n" and "lo + n \<le> length xs"
  shows "okw (larger_child cmp xs lo c n s) (\<lambda>(c', s). c \<le> c' \<and> c' \<le> c + 1 \<and> c' < n)"
  using assms by (auto simp: larger_child_def wp split: prod.splits)

lemma sift_down_perm:
  assumes "lo + n \<le> length xs"
  shows "okw (sift_down cmp xs lo r n s) (\<lambda>(ys, s). perm_on lo (lo + n) xs ys)"
  using assms
proof (induction cmp xs lo r n s rule: sift_down.induct)
  case (1 cmp xs lo r n s)
  show ?case
  proof (cases "r * 2 + 1 < n")
    case True
    obtain c t where lc: "larger_child cmp xs lo (r * 2 + 1) n s = Some (c, t)"
      and c: "r * 2 + 1 \<le> c" "c < n"
      using larger_child_ok [OF True 1(2), of cmp s] by (auto dest!: okw_ex)
    obtain k u where cm: "cmp_at cmp xs (lo + r) (lo + c) t = Some (k, u)"
      using c 1(2) by (cases "cmp (xs ! (lo + r)) (xs ! (lo + c)) t") (auto simp: cmp_at_Some)
    let ?ys = "xs[lo + r := xs ! (lo + c), lo + c := xs ! (lo + r)]"
    have sw: "swap xs (lo + r) (lo + c) = Some ?ys" using c 1(2) by (intro swap_Some) auto
    have p: "perm_on lo (lo + n) xs ?ys" using c 1(2) by (intro perm_on_swap) auto
    have "okw (sift_down cmp ?ys lo c n u) (\<lambda>(zs, s). perm_on lo (lo + n) ?ys zs)" if "\<not> k > 0"
      by (rule 1(1) [OF True lc _ cm _ that sw]) (use 1(2) in auto)
    then show ?thesis
      using True lc cm sw p perm_on_trans [OF p]
      by (subst sift_down.simps) (auto elim!: okw_mono)
  next
    case False
    then show ?thesis by (subst sift_down.simps) simp
  qed
qed

lemma heapify_perm:
  assumes "lo + n \<le> length xs"
  shows "okw (heapify cmp xs lo i n s) (\<lambda>(ys, s). perm_on lo (lo + n) xs ys)"
  using assms
proof (induction i arbitrary: xs s)
  case (Suc i)
  have "okw (heapify cmp ys lo i n t) (\<lambda>(zs, s). perm_on lo (lo + n) xs zs)"
    if "perm_on lo (lo + n) xs ys" for ys t
    using Suc.IH [of ys t] Suc.prems that
    by (auto simp: perm_on_length elim!: okw_mono intro: perm_on_trans)
  then show ?case
    using sift_down_perm [OF Suc.prems, of cmp i s] by (auto simp: wp elim!: okw_mono)
qed simp

lemma extract_all_perm:
  assumes "lo + i < length xs"
  shows "okw (extract_all cmp xs lo i s) (\<lambda>(ys, s). perm_on lo (lo + Suc i) xs ys)"
  using assms
proof (induction i arbitrary: xs s)
  case (Suc i)
  let ?xs = "xs[lo := xs ! (lo + Suc i), lo + Suc i := xs ! lo]"
  have p: "perm_on lo (lo + Suc (Suc i)) xs ?xs" using Suc.prems by (intro perm_on_swap) auto
  have "okw (extract_all cmp ys lo i t) (\<lambda>(zs, s). perm_on lo (lo + Suc (Suc i)) xs zs)"
    if "perm_on lo (lo + Suc i) ?xs ys" for ys t
  proof -
    have "perm_on lo (lo + Suc (Suc i)) xs ys"
      using perm_on_trans [OF p perm_on_mono [OF that]] by simp
    then have "perm_on lo (lo + Suc (Suc i)) xs zs" if "perm_on lo (lo + Suc i) ys zs" for zs
      using perm_on_trans [OF _ perm_on_mono [OF that]] by simp
    then show ?thesis
      using Suc.IH [of ys t] Suc.prems perm_on_length [OF that] by (auto elim!: okw_mono)
  qed
  then show ?case
    using sift_down_perm [of lo "Suc i" ?xs cmp 0 s] Suc.prems by (auto simp: wp elim!: okw_mono)
qed simp

lemma heapsortx_perm:
  assumes "lo + n \<le> length xs"
  shows "okw (heapsortx cmp xs lo n s) (\<lambda>(ys, s). perm_on lo (lo + n) xs ys)"
proof (cases "n > 1")
  case True
  then have n: "lo + (n - 1) < length xs" "Suc (n - 1) = n" using assms by simp_all
  have "okw (extract_all cmp ys lo (n - 1) t) (\<lambda>(zs, s). perm_on lo (lo + n) xs zs)"
    if "perm_on lo (lo + n) xs ys" for ys t
    using extract_all_perm [of lo "n - 1" ys cmp t, unfolded n(2)] n(1) perm_on_length [OF that]
      perm_on_trans [OF that]
    by (auto elim!: okw_mono)
  then show ?thesis
    using True heapify_perm [OF assms, of cmp "n div 2" s]
    by (auto simp: heapsortx_def wp elim!: okw_mono)
qed (simp add: heapsortx_def)

lemma insert_down_perm:
  assumes "pj < hi" and "hi \<le> length xs"
  shows "okw (insert_down cmp xs ptr pj s) (\<lambda>(ys, s). perm_on ptr hi xs ys)"
  using assms
proof (induction cmp xs ptr pj s rule: insert_down.induct)
  case (1 cmp xs ptr pj s)
  show ?case
  proof (cases "pj > ptr")
    case True
    obtain c t where cm: "cmp_at cmp xs (pj - 1) pj s = Some (c, t)"
      using 1(2,3) by (cases "cmp (xs ! (pj - 1)) (xs ! pj) s") (auto simp: cmp_at_Some)
    let ?ys = "xs[pj := xs ! (pj - 1), pj - 1 := xs ! pj]"
    have sw: "swap xs pj (pj - 1) = Some ?ys" using 1(2,3) by (intro swap_Some) auto
    have p: "perm_on ptr hi xs ?ys" using True 1(2,3) by (intro perm_on_swap) auto
    have "okw (insert_down cmp ?ys ptr (pj - 1) t) (\<lambda>(zs, s). perm_on ptr hi ?ys zs)" if "c > 0"
      by (rule 1(1) [OF True cm _ that sw]) (use 1(2,3) in auto)
    then show ?thesis
      using True cm sw perm_on_trans [OF p]
      by (subst insert_down.simps) (auto elim!: okw_mono)
  next
    case False
    then show ?thesis by (subst insert_down.simps) simp
  qed
qed

lemma med3_in:
  assumes "a < length xs" "b < length xs" "c < length xs"
  shows "okw (med3 cmp xs a b c s) (\<lambda>(m, s). m \<in> {a, b, c})"
  using assms by (auto simp: med3_def wp split: prod.splits)

end
