(* ===== verification/Rqsort_Spec.thy ===== *)
theory Rqsort_Spec
  imports Rqsort_Safe
begin

text \<open>
  Correctness of \<open>rqsort\<close>. The interface \<open>comparison\<close> is what the routine may rely on: the sign of
  the comparison function implies an order \<open>le\<close>, whatever the state it carries. With the order that
  relates everything the laws hold of every function, so the same lemmas give both the sortedness
  for consistent comparisons and, for arbitrary ones, the absence of faults and the preservation of
  the elements.
\<close>

locale comparison =
  fixes cmp :: "('a, 's) cmp_f" and le :: "'a \<Rightarrow> 'a \<Rightarrow> bool"
  assumes nonpos: "fst (cmp x y s) \<le> 0 \<Longrightarrow> le x y"
    and nonneg: "0 \<le> fst (cmp x y s) \<Longrightarrow> le y x"
    and le_refl: "le x x"
    and le_trans: "le x y \<Longrightarrow> le y z \<Longrightarrow> le x z"
begin

definition heap_except :: "'a list \<Rightarrow> nat \<Rightarrow> nat \<Rightarrow> nat \<Rightarrow> nat \<Rightarrow> bool" where
  "heap_except xs lo k r n \<longleftrightarrow>
     (\<forall>j. 0 < j \<and> j < n \<and> k \<le> (j - 1) div 2 \<and> (j - 1) div 2 \<noteq> r
        \<longrightarrow> le (xs ! (lo + j)) (xs ! (lo + (j - 1) div 2))) \<and>
     (\<forall>j. 0 < j \<and> j < n \<and> (j - 1) div 2 = r \<and> 0 < r \<and> k \<le> (r - 1) div 2
        \<longrightarrow> le (xs ! (lo + j)) (xs ! (lo + (r - 1) div 2)))"

definition heap_from :: "'a list \<Rightarrow> nat \<Rightarrow> nat \<Rightarrow> nat \<Rightarrow> bool" where
  "heap_from xs lo k n \<longleftrightarrow>
     (\<forall>j. 0 < j \<and> j < n \<and> k \<le> (j - 1) div 2 \<longrightarrow> le (xs ! (lo + j)) (xs ! (lo + (j - 1) div 2)))"

lemma heap_fromD:
  "heap_from xs lo k n \<Longrightarrow> 0 < j \<Longrightarrow> j < n \<Longrightarrow> k \<le> (j - 1) div 2
    \<Longrightarrow> le (xs ! (lo + j)) (xs ! (lo + (j - 1) div 2))"
  by (simp add: heap_from_def)

lemma heap_exceptD:
  assumes "heap_except xs lo k r n" and "0 < j" "j < n"
  shows "k \<le> (j - 1) div 2 \<Longrightarrow> (j - 1) div 2 \<noteq> r \<Longrightarrow> le (xs ! (lo + j)) (xs ! (lo + (j - 1) div 2))"
    and "(j - 1) div 2 = r \<Longrightarrow> 0 < r \<Longrightarrow> k \<le> (r - 1) div 2 \<Longrightarrow> le (xs ! (lo + j)) (xs ! (lo + (r - 1) div 2))"
  using assms unfolding heap_except_def by simp_all

lemma heap_root:
  assumes "heap_from xs lo 0 n" and "j < n"
  shows "le (xs ! (lo + j)) (xs ! lo)"
  using assms(2)
proof (induction j rule: less_induct)
  case (less j)
  show ?case
  proof (cases "j = 0")
    case False
    then have "(j - 1) div 2 < j" by auto
    then show ?thesis
      using less heap_fromD [OF assms(1), of j] False by (auto intro: le_trans)
  qed (simp add: le_refl)
qed

lemma larger_child_max:
  assumes "larger_child cmp xs lo (r * 2 + 1) n s = Some (c, t)" and "r * 2 + 1 < n" "lo + n \<le> length xs"
  shows "(c = r * 2 + 1 \<or> c = r * 2 + 2) \<and> c < n \<and>
    (\<forall>j. 0 < j \<and> j < n \<and> (j - 1) div 2 = r \<longrightarrow> le (xs ! (lo + j)) (xs ! (lo + c)))"
proof -
  have child: "j = r * 2 + 1 \<or> j = r * 2 + 2" if "0 < j" "(j - 1) div 2 = r" for j
    using that by presburger
  have "(c = r * 2 + 1 \<or> c = r * 2 + 2) \<and> c < n \<and> le (xs ! (lo + (r * 2 + 1))) (xs ! (lo + c))
    \<and> (r * 2 + 2 < n \<longrightarrow> le (xs ! (lo + (r * 2 + 2))) (xs ! (lo + c)))"
  proof (cases "r * 2 + 1 < n - 1")
    case True
    then have n: "r * 2 + 2 < n" by linarith
    obtain k u where k: "cmp (xs ! (lo + (r * 2 + 1))) (xs ! (lo + (r * 2 + 2))) s = (k, u)"
      by fastforce
    then have c: "c = (if k \<le> 0 then r * 2 + 2 else r * 2 + 1)"
      using assms True by (auto simp: larger_child_def cmp_at_Some)
    have "k \<le> 0 \<Longrightarrow> le (xs ! (lo + (r * 2 + 1))) (xs ! (lo + (r * 2 + 2)))"
      "0 \<le> k \<Longrightarrow> le (xs ! (lo + (r * 2 + 2))) (xs ! (lo + (r * 2 + 1)))"
      using nonpos [of "xs ! (lo + (r * 2 + 1))" "xs ! (lo + (r * 2 + 2))" s]
        nonneg [of "xs ! (lo + (r * 2 + 1))" "xs ! (lo + (r * 2 + 2))" s] k
      by simp_all
    then show ?thesis using n le_refl by (simp add: c)
  next
    case False
    then show ?thesis using assms le_refl by (auto simp: larger_child_def)
  qed
  then show ?thesis using child by metis
qed

lemma sift_down_step:
  assumes h: "heap_except xs lo k r n" and k: "k \<le> r" and len: "lo + n \<le> length xs"
    and c: "c = r * 2 + 1 \<or> c = r * 2 + 2" "c < n"
    and mx: "\<And>j. 0 < j \<Longrightarrow> j < n \<Longrightarrow> (j - 1) div 2 = r \<Longrightarrow> le (xs ! (lo + j)) (xs ! (lo + c))"
    and rc: "le (xs ! (lo + r)) (xs ! (lo + c))"
  shows "heap_except (xs[lo + r := xs ! (lo + c), lo + c := xs ! (lo + r)]) lo k c n"
    (is "heap_except ?ys _ _ _ _")
proof -
  define ys where "ys = ?ys"
  have nth: "ys ! (lo + j) = (if j = c then xs ! (lo + r) else if j = r then xs ! (lo + c) else xs ! (lo + j))"
    if "j < n" for j using that c len by (auto simp: ys_def nth_list_update)
  have pc: "(c - 1) div 2 = r" "r < c" using c(1) by auto
  have 1: "le (ys ! (lo + j)) (ys ! (lo + (j - 1) div 2))"
    if j: "0 < j" "j < n" "k \<le> (j - 1) div 2" "(j - 1) div 2 \<noteq> c" for j
  proof -
    have pn: "(j - 1) div 2 < n" "(j - 1) div 2 < j" using j by auto
    consider "j = c" | "j = r" | "j \<noteq> c" "j \<noteq> r" "(j - 1) div 2 = r" | "j \<noteq> c" "j \<noteq> r" "(j - 1) div 2 \<noteq> r"
      by blast
    then show ?thesis
    proof cases
      case 1
      then show ?thesis using rc pc nth [of c] nth [of r] c(2) by simp
    next
      case 2
      have "le (xs ! (lo + c)) (xs ! (lo + (r - 1) div 2))"
        using heap_exceptD(2) [OF h _ c(2) pc(1)] j 2 pc by simp
      then show ?thesis using 2 pc nth [OF j(2)] nth [OF pn(1)] pn(2) by simp
    next
      case 3
      then show ?thesis using mx [OF j(1,2)] nth [OF j(2)] nth [OF pn(1)] pc(2) by simp
    next
      case 4
      have "le (xs ! (lo + j)) (xs ! (lo + (j - 1) div 2))"
        by (rule heap_exceptD(1) [OF h j(1,2,3) 4(3)])
      then show ?thesis using 4 j(4) nth [OF j(2)] nth [OF pn(1)] by simp
    qed
  qed
  have 2: "le (ys ! (lo + j)) (ys ! (lo + (c - 1) div 2))"
    if j: "0 < j" "j < n" "(j - 1) div 2 = c" for j
  proof -
    have "c < j" "j \<noteq> r" "c \<noteq> r" using j pc by auto
    moreover have "le (xs ! (lo + j)) (xs ! (lo + c))"
      using heap_exceptD(1) [OF h j(1,2)] j(3) k pc by simp
    ultimately show ?thesis using nth [OF j(2)] nth [of r] c(2) pc by simp
  qed
  show ?thesis using 1 2 unfolding heap_except_def ys_def [symmetric] by blast
qed

lemma sift_down_heap:
  assumes "heap_except xs lo k r n" and "k \<le> r" and "lo + n \<le> length xs"
  shows "okw (sift_down cmp xs lo r n s) (\<lambda>(ys, s). heap_from ys lo k n)"
  using assms
proof (induction cmp\<equiv>cmp xs lo r n s rule: sift_down.induct)
  case (1 xs lo r n s)
  have fin: "heap_from xs lo k n"
    if "\<And>j. 0 < j \<Longrightarrow> j < n \<Longrightarrow> (j - 1) div 2 = r \<Longrightarrow> le (xs ! (lo + j)) (xs ! (lo + r))"
    using 1(2) that unfolding heap_from_def heap_except_def by blast
  show ?case
  proof (cases "r * 2 + 1 < n")
    case True
    obtain c t where lc: "larger_child cmp xs lo (r * 2 + 1) n s = Some (c, t)"
      using larger_child_ok [OF True 1(4), of cmp s] by (auto dest!: okw_ex)
    note m = larger_child_max [OF lc True 1(4)]
    obtain q u where q: "cmp (xs ! (lo + r)) (xs ! (lo + c)) t = (q, u)" by fastforce
    then have cm: "cmp_at cmp xs (lo + r) (lo + c) t = Some (q, u)"
      using m 1(4) by (auto simp: cmp_at_Some)
    let ?ys = "xs[lo + r := xs ! (lo + c), lo + c := xs ! (lo + r)]"
    have sw: "swap xs (lo + r) (lo + c) = Some ?ys" using m 1(4) by (intro swap_Some) auto
    have stop: "heap_from xs lo k n" if "q > 0"
      using fin m nonneg [of "xs ! (lo + r)" "xs ! (lo + c)" t] q that
      by (metis fst_conv le_trans less_imp_le)
    have "heap_except ?ys lo k c n" if "\<not> q > 0"
      using sift_down_step [OF 1(2,3,4)] m nonpos [of "xs ! (lo + r)" "xs ! (lo + c)" t] q that
      by (simp add: not_less)
    then have "okw (sift_down cmp ?ys lo c n u) (\<lambda>(ys, s). heap_from ys lo k n)" if "\<not> q > 0"
      by (intro 1(1) [OF True lc _ cm _ that sw]) (use that 1(3,4) m in auto)
    then show ?thesis
      using True lc cm sw stop by (subst sift_down.simps) auto
  next
    case False
    then have "heap_from xs lo k n" by (intro fin) (auto simp: not_less)
    with False show ?thesis by (subst sift_down.simps) simp
  qed
qed

lemma heapify_heap:
  assumes "heap_from xs lo i n" and "lo + n \<le> length xs"
  shows "okw (heapify cmp xs lo i n s) (\<lambda>(ys, s). heap_from ys lo 0 n)"
  using assms
proof (induction i arbitrary: xs s)
  case (Suc i)
  have "heap_except xs lo i i n"
    using Suc.prems(1) unfolding heap_except_def heap_from_def
    by (auto simp: le_less Suc_le_eq)
  then have "okw (sift_down cmp xs lo i n s) (\<lambda>(ys, s). heap_from ys lo i n \<and> perm_on lo (lo + n) xs ys)"
    using okw_conj [OF sift_down_heap sift_down_perm [OF Suc.prems(2)]] Suc.prems
    by (auto simp: case_prod_unfold)
  then show ?case
    using Suc.IH Suc.prems by (auto simp: wp perm_on_length elim!: okw_mono)
qed simp

lemma heap_from_half: "heap_from xs lo (n div 2) n"
  by (auto simp: heap_from_def)

text \<open>The part behind \<open>i\<close> is sorted and bounds the heap in front.\<close>

definition tail_sorted :: "'a list \<Rightarrow> nat \<Rightarrow> nat \<Rightarrow> nat \<Rightarrow> bool" where
  "tail_sorted xs lo i n \<longleftrightarrow>
     (\<forall>a b. a < b \<and> b < n \<and> i < b \<longrightarrow> le (xs ! (lo + a)) (xs ! (lo + b)))"

lemma tail_sorted_perm:
  assumes "tail_sorted xs lo i n" and "perm_on lo (lo + Suc i) xs ys" and "lo + n \<le> length xs" "i < n"
  shows "tail_sorted ys lo i n"
  unfolding tail_sorted_def
proof (intro allI impI)
  fix a b assume ab: "a < b \<and> b < n \<and> i < b"
  then have b: "ys ! (lo + b) = xs ! (lo + b)"
    using perm_on_above [OF assms(2)] assms(3) by simp
  obtain a' where a': "a' < b" "ys ! (lo + a) = xs ! (lo + a')"
  proof (cases "a \<le> i")
    case True
    then obtain k where "lo \<le> k" "k < lo + Suc i" "ys ! (lo + a) = xs ! k"
      using perm_on_mem [OF assms(2), of "lo + a"] assms by auto
    then show ?thesis using ab that [of "k - lo"] by auto
  next
    case False
    then show ?thesis using that [of a] ab perm_on_above [OF assms(2), of "lo + a"] assms(3) by simp
  qed
  then show "le (ys ! (lo + a)) (ys ! (lo + b))"
    using assms(1) ab b by (simp add: tail_sorted_def)
qed

lemma extract_all_sorted:
  assumes "heap_from xs lo 0 (Suc i)" "tail_sorted xs lo i n" "lo + n \<le> length xs" "i < n"
  shows "okw (extract_all cmp xs lo i s) (\<lambda>(ys, s). tail_sorted ys lo 0 n)"
  using assms
proof (induction i arbitrary: xs s)
  case (Suc i)
  let ?xs = "xs[lo := xs ! (lo + Suc i), lo + Suc i := xs ! lo]"
  have p: "perm_on lo (lo + Suc (Suc i)) xs ?xs" using Suc.prems by (intro perm_on_swap) auto
  have t1: "tail_sorted ?xs lo (Suc i) n" using tail_sorted_perm [OF Suc.prems(2) p] Suc.prems by simp
  have nth: "?xs ! (lo + j) = (if j = Suc i then xs ! lo else if j = 0 then xs ! (lo + Suc i) else xs ! (lo + j))"
    if "j < n" for j using that Suc.prems by (auto simp: nth_list_update)
  have "le (?xs ! (lo + a)) (?xs ! (lo + Suc i))" if "a < Suc i" for a
    using heap_root [OF Suc.prems(1), of a] heap_root [OF Suc.prems(1), of "Suc i"] that Suc.prems nth [of a] nth [of "Suc i"]
    by simp
  then have t: "tail_sorted ?xs lo i n"
    using t1 unfolding tail_sorted_def by (metis Suc_lessI)
  have "heap_except ?xs lo 0 0 (Suc i)"
    unfolding heap_except_def
  proof (intro conjI allI impI)
    fix j assume j: "0 < j \<and> j < Suc i \<and> 0 \<le> (j - 1) div 2 \<and> (j - 1) div 2 \<noteq> 0"
    then have pj: "(j - 1) div 2 < Suc i" by auto
    have "le (xs ! (lo + j)) (xs ! (lo + (j - 1) div 2))"
      using heap_fromD [OF Suc.prems(1), of j] j by simp
    then show "le (?xs ! (lo + j)) (?xs ! (lo + (j - 1) div 2))"
      using nth [of j] nth [of "(j - 1) div 2"] j pj Suc.prems(4) by simp
  qed simp
  then have "okw (sift_down cmp ?xs lo 0 (Suc i) s)
      (\<lambda>(ys, s). heap_from ys lo 0 (Suc i) \<and> perm_on lo (lo + Suc i) ?xs ys)"
    using okw_conj [OF sift_down_heap sift_down_perm [of lo "Suc i" ?xs cmp 0 s]] Suc.prems
    by (auto simp: case_prod_unfold)
  moreover have "okw (extract_all cmp ys lo i u) (\<lambda>(ys, s). tail_sorted ys lo 0 n)"
    if "heap_from ys lo 0 (Suc i)" "perm_on lo (lo + Suc i) ?xs ys" for ys u
    using Suc.IH [of ys u] that tail_sorted_perm [OF t that(2)] Suc.prems perm_on_length [OF that(2)]
    by simp
  ultimately show ?case using Suc.prems by (auto simp: wp elim!: okw_mono)
qed simp

lemma heapsortx_sorted:
  assumes "lo + n \<le> length xs"
  shows "okw (heapsortx cmp xs lo n s) (\<lambda>(ys, s). tail_sorted ys lo 0 n)"
proof (cases "n > 1")
  case True
  have "okw (heapify cmp xs lo (n div 2) n s) (\<lambda>(ys, s). heap_from ys lo 0 n \<and> perm_on lo (lo + n) xs ys)"
    using okw_conj [OF heapify_heap [OF heap_from_half assms] heapify_perm [OF assms]]
    by (auto simp: case_prod_unfold)
  moreover have "okw (extract_all cmp ys lo (n - 1) t) (\<lambda>(ys, s). tail_sorted ys lo 0 n)"
    if "heap_from ys lo 0 n" "perm_on lo (lo + n) xs ys" for ys t
    by (rule extract_all_sorted)
      (use that True assms perm_on_length [OF that(2)] in \<open>auto simp: tail_sorted_def\<close>)
  ultimately show ?thesis using True by (auto simp: heapsortx_def wp elim!: okw_mono)
qed (auto simp: heapsortx_def tail_sorted_def)

end

end
