(* ===== verification/Rqsort_Quick.thy ===== *)
theory Rqsort_Quick
  imports Rqsort_Spec
begin

text \<open>
  Correctness of the remaining parts of \<open>rqsort\<close>: insertion sort, the three-way partition and the
  main loop with its stack of pending segments. The array is at any time ordered apart from pairs
  of positions that lie in the same pending segment (\<open>ordered_but\<close>).
\<close>

definition seg_disjoint :: "segment \<Rightarrow> segment \<Rightarrow> bool" where
  "seg_disjoint = (\<lambda>(p, n, d) (q, m, e). p + n \<le> q \<or> q + m \<le> p)"

definition in_seg :: "segment \<Rightarrow> nat \<Rightarrow> bool" where
  "in_seg = (\<lambda>(p, n, d) i. p \<le> i \<and> i < p + n)"

text \<open>The depths bound the number of segments below, and the cost bounds the rounds to come.\<close>

fun stack_ok :: "nat \<Rightarrow> segment list \<Rightarrow> bool" where
  "stack_ok len [] = True"
| "stack_ok len ((p, n, d) # st) = (length st \<le> d \<and> p + n \<le> len \<and> stack_ok len st)"

fun stack_cost :: "segment list \<Rightarrow> nat" where
  "stack_cost [] = 0"
| "stack_cost ((p, n, d) # st) = 2 * n + 1 + stack_cost st"

lemma swap_block_nth:
  assumes "a + n \<le> b" and "b + n \<le> length xs"
  shows "okw (swap_block xs a b n) (\<lambda>ys. length ys = length xs \<and>
    (\<forall>k<n. ys ! (a + k) = xs ! (b + k) \<and> ys ! (b + k) = xs ! (a + k)) \<and>
    (\<forall>k. \<not> (a \<le> k \<and> k < a + n) \<and> \<not> (b \<le> k \<and> k < b + n) \<longrightarrow> ys ! k = xs ! k))"
  using assms
proof (induction n arbitrary: xs a b)
  case (Suc n)
  define xs' where "xs' = xs[a := xs ! b, b := xs ! a]"
  have x: "xs' ! a = xs ! b" "xs' ! b = xs ! a" "length xs' = length xs"
    using Suc.prems by (auto simp: xs'_def nth_list_update)
  have x': "xs' ! k = xs ! k" if "k \<noteq> a" "k \<noteq> b" for k
    using that by (simp add: xs'_def)
  obtain ys where ys: "swap_block xs' (Suc a) (Suc b) n = Some ys" "length ys = length xs'"
    "\<And>k. k < n \<Longrightarrow> ys ! (Suc a + k) = xs' ! (Suc b + k)"
    "\<And>k. k < n \<Longrightarrow> ys ! (Suc b + k) = xs' ! (Suc a + k)"
    "\<And>k. \<not> (Suc a \<le> k \<and> k < Suc a + n) \<Longrightarrow> \<not> (Suc b \<le> k \<and> k < Suc b + n) \<Longrightarrow> ys ! k = xs' ! k"
    using Suc.IH [of "Suc a" "Suc b" xs'] Suc.prems x(3) by (auto dest!: okw_ex)
  have "ys ! (a + k) = xs ! (b + k) \<and> ys ! (b + k) = xs ! (a + k)" if "k < Suc n" for k
  proof (cases k)
    case 0
    have "ys ! a = xs' ! a" "ys ! b = xs' ! b" using Suc.prems(1) by (intro ys(5); linarith)+
    then show ?thesis using x 0 by simp
  next
    case (Suc j)
    then show ?thesis
      using ys(3,4) [of j] that Suc.prems(1) x' [of "Suc b + j"] x' [of "Suc a + j"] by simp
  qed
  moreover have "ys ! k = xs ! k"
    if "\<not> (a \<le> k \<and> k < a + Suc n)" "\<not> (b \<le> k \<and> k < b + Suc n)" for k
    using that ys(5) [of k] x' [of k] by auto
  ultimately have "okw (swap_block xs' (Suc a) (Suc b) n) (\<lambda>ys. length ys = length xs \<and>
    (\<forall>k<Suc n. ys ! (a + k) = xs ! (b + k) \<and> ys ! (b + k) = xs ! (a + k)) \<and>
    (\<forall>k. \<not> (a \<le> k \<and> k < a + Suc n) \<and> \<not> (b \<le> k \<and> k < b + Suc n) \<longrightarrow> ys ! k = xs ! k))"
    using ys(1,2) x(3) by simp
  then show ?case using Suc.prems by (simp add: wp xs'_def)
qed simp

context comparison
begin

definition ordered_but :: "segment list \<Rightarrow> 'a list \<Rightarrow> bool" where
  "ordered_but segs xs \<longleftrightarrow>
     (\<forall>i j. i < j \<and> j < length xs \<longrightarrow>
        le (xs ! i) (xs ! j) \<or> (\<exists>g\<in>set segs. in_seg g i \<and> in_seg g j))"

lemma ordered_but_refine:
  assumes ord: "ordered_but ((p, n, d) # st) xs"
    and disj: "\<And>g. g \<in> set st \<Longrightarrow> seg_disjoint (p, n, d) g"
    and pm: "perm_on p (p + n) xs ys" and len: "p + n \<le> length xs"
    and new: "\<And>i j. p \<le> i \<Longrightarrow> i < j \<Longrightarrow> j < p + n
      \<Longrightarrow> le (ys ! i) (ys ! j) \<or> (\<exists>g\<in>set gs. in_seg g i \<and> in_seg g j)"
  shows "ordered_but (gs @ st) ys"
  unfolding ordered_but_def
proof (intro allI impI)
  fix i j assume ij: "i < j \<and> j < length ys"
  have l: "length ys = length xs" using pm by (rule perm_on_length)
  let ?in = "\<lambda>k. p \<le> k \<and> k < p + n"
  have src: "\<exists>k'. ys ! k = xs ! k' \<and> ?in k'" if "?in k" for k
    using perm_on_mem [OF pm, of k] that len by auto
  have out: "ys ! k = xs ! k" if "\<not> ?in k" "k < length xs" for k
    using that perm_on_below [OF pm, of k] perm_on_above [OF pm, of k] by linarith
  have old: "le (xs ! a) (xs ! b) \<or> (\<exists>g\<in>set st. in_seg g a \<and> in_seg g b)"
    if "a < b" "b < length xs" "\<not> (?in a \<and> ?in b)" for a b
    using ord that by (auto simp: ordered_but_def in_seg_def)
  have apart: "\<not> in_seg g k" if "g \<in> set st" "?in k" for g k
    using disj [OF that(1)] that(2) by (auto simp: seg_disjoint_def in_seg_def split: prod.splits)
  consider "?in i" "?in j" | "?in i" "\<not> ?in j" | "\<not> ?in i" "?in j" | "\<not> ?in i" "\<not> ?in j" by blast
  then show "le (ys ! i) (ys ! j) \<or> (\<exists>g\<in>set (gs @ st). in_seg g i \<and> in_seg g j)"
  proof cases
    case 1
    then show ?thesis using new [of i j] ij by auto
  next
    case 2
    then obtain i' where i': "ys ! i = xs ! i'" "?in i'" using src by blast
    then have "i' < j" using 2 ij by linarith
    then show ?thesis using old [of i' j] apart [OF _ i'(2)] out [of j] i' 2 ij l by auto
  next
    case 3
    then obtain j' where j': "ys ! j = xs ! j'" "?in j'" using src by blast
    then have "i < j'" "j' < length xs" using 3 ij len by linarith+
    then show ?thesis using old [of i j'] apart [OF _ j'(2)] out [of i] j' 3 by auto
  next
    case 4
    then show ?thesis using old [of i j] out ij l by auto
  qed
qed

subsection \<open>Insertion sort\<close>

definition sorted_but :: "'a list \<Rightarrow> nat \<Rightarrow> nat \<Rightarrow> nat \<Rightarrow> bool" where
  "sorted_but xs lo q hi \<longleftrightarrow>
     (\<forall>a b. lo \<le> a \<and> a < b \<and> b < hi \<and> b \<noteq> q \<longrightarrow> le (xs ! a) (xs ! b))"

lemma insert_down_sorted:
  assumes "sorted_but xs ptr pj hi" and "ptr \<le> pj" "pj < hi" "hi \<le> length xs"
  shows "okw (insert_down cmp xs ptr pj s) (\<lambda>(ys, s). sorted_but ys ptr hi hi)"
  using assms
proof (induction cmp\<equiv>cmp xs ptr pj s rule: insert_down.induct)
  case (1 xs ptr pj s)
  show ?case
  proof (cases "pj > ptr")
    case True
    obtain c t where c: "cmp (xs ! (pj - 1)) (xs ! pj) s = (c, t)" by fastforce
    then have cm: "cmp_at cmp xs (pj - 1) pj s = Some (c, t)"
      using 1(4,5) by (simp add: cmp_at_Some)
    define ys where "ys = xs[pj := xs ! (pj - 1), pj - 1 := xs ! pj]"
    have sw: "swap xs pj (pj - 1) = Some ys"
      unfolding ys_def using 1(4,5) by (intro swap_Some) auto
    have nth: "ys ! k = (if k = pj then xs ! (pj - 1) else if k = pj - 1 then xs ! pj else xs ! k)"
      if "k < hi" for k using that True 1(4,5) by (auto simp: ys_def nth_list_update)
    have "sorted_but xs ptr hi hi" if "\<not> c > 0"
    proof -
      have "le (xs ! (pj - 1)) (xs ! pj)"
        using nonpos [of "xs ! (pj - 1)" "xs ! pj" s] c that by simp
      with True have "le (xs ! a) (xs ! pj)" if "ptr \<le> a" "a < pj" for a
      proof (cases "a = pj - 1")
        case False
        then have "a < pj - 1" "pj - 1 < hi" "pj - 1 \<noteq> pj" using that 1(4) by auto
        then have "le (xs ! a) (xs ! (pj - 1))" using 1(2) that by (simp add: sorted_but_def)
        then show ?thesis using \<open>le (xs ! (pj - 1)) (xs ! pj)\<close> by (rule le_trans)
      qed simp
      then show ?thesis using 1(2) unfolding sorted_but_def by metis
    qed
    moreover have "okw (insert_down cmp ys ptr (pj - 1) t) (\<lambda>(ys, s). sorted_but ys ptr hi hi)" if "c > 0"
    proof (rule 1(1) [OF True cm _ that sw])
      have "le (xs ! pj) (xs ! (pj - 1))"
        using nonneg [of "xs ! (pj - 1)" "xs ! pj" s] c that by simp
      moreover have "le (xs ! a) (xs ! b)" if "ptr \<le> a" "a < b" "b < hi" "b \<noteq> pj" for a b
        using 1(2) that by (simp add: sorted_but_def)
      ultimately show "sorted_but ys ptr (pj - 1) hi"
        using True unfolding sorted_but_def by (auto simp: nth)
    qed (use True 1(4,5) in \<open>auto simp: ys_def\<close>)
    ultimately show ?thesis using True cm sw by (subst insert_down.simps) auto
  next
    case False
    then have "sorted_but xs ptr hi hi" using 1(2,3) by (auto simp: sorted_but_def)
    with False show ?thesis by (subst insert_down.simps) simp
  qed
qed

lemma insertion_sort_ok:
  assumes "sorted_but xs ptr pi pi" and "ptr < pi" "hi \<le> length xs"
  shows "okw (insertion_sort cmp xs ptr pi hi s) (\<lambda>(ys, s). sorted_but ys ptr hi hi \<and> perm_on ptr hi xs ys)"
  using assms
proof (induction cmp\<equiv>cmp xs ptr pi hi s rule: insertion_sort.induct)
  case (1 xs ptr pi hi s)
  show ?case
  proof (cases "pi < hi")
    case True
    have "sorted_but xs ptr pi (Suc pi)" using 1(2) by (auto simp: sorted_but_def less_Suc_eq)
    then have "okw (insert_down cmp xs ptr pi s) (\<lambda>(ys, s). sorted_but ys ptr (Suc pi) (Suc pi) \<and> perm_on ptr hi xs ys)"
      using okw_conj [OF insert_down_sorted insert_down_perm [OF True 1(4)]] 1(3,4) True
      by (auto simp: case_prod_unfold)
    then obtain ys t where i: "insert_down cmp xs ptr pi s = Some (ys, t)"
      and ys: "sorted_but ys ptr (Suc pi) (Suc pi)" "perm_on ptr hi xs ys"
      by (auto dest!: okw_ex)
    have "okw (insertion_sort cmp ys ptr (pi + 1) hi t) (\<lambda>(zs, s). sorted_but zs ptr hi hi \<and> perm_on ptr hi ys zs)"
      using 1(3,4) ys by (intro 1(1) [OF True i refl]) (auto simp: perm_on_length)
    then show ?thesis
      using True i perm_on_trans [OF ys(2)] by (subst insertion_sort.simps) (auto elim!: okw_mono)
  next
    case False
    then show ?thesis using 1(2) by (subst insertion_sort.simps) (auto simp: sorted_but_def)
  qed
qed

end

end
