(* ===== verification/Exchange.thy ===== *)
theory Exchange
  imports Rqsort_Quick
begin

text \<open>
  The exchange functions of \<^verbatim>\<open>cutils.c\<close>: \<open>rqsort\<close> picks one for the width of the elements and
  the alignment of the array. An access of the selected width at an address that is not a multiple
  of it is a fault. The result of the theory is that the selected function does to the bytes what
  \<open>swap\<close> and \<open>swap_block\<close> of theory \<open>Rqsort\<close> do to the list of elements.
\<close>

datatype exchange_f =
    exchange_bytes | exchange_one_byte | exchange_int16s | exchange_one_int16
  | exchange_int32s | exchange_one_int32 | exchange_int64s | exchange_one_int64
  | exchange_int128s | exchange_one_int128

definition load :: "nat \<Rightarrow> u8 list \<Rightarrow> nat \<Rightarrow> nat \<Rightarrow> u8 list option" where
  "load base mem a w = (if (base + a) mod w = 0 then mem_read mem a w else None)"

definition store :: "nat \<Rightarrow> u8 list \<Rightarrow> nat \<Rightarrow> nat \<Rightarrow> u8 list \<Rightarrow> u8 list option" where
  "store base mem a w d = (if (base + a) mod w = 0 then mem_write mem a d else None)"

primrec exchange_units :: "nat \<Rightarrow> nat \<Rightarrow> nat \<Rightarrow> u8 list \<Rightarrow> nat \<Rightarrow> nat \<Rightarrow> u8 list option" where
  "exchange_units base w 0 mem a b = Some mem"
| "exchange_units base w (Suc n) mem a b = do {
     t \<leftarrow> load base mem a w;
     x \<leftarrow> load base mem b w;
     mem \<leftarrow> store base mem a w x;
     mem \<leftarrow> store base mem b w t;
     exchange_units base w n mem (a + w) (b + w) }"

primrec exchange_pairs :: "nat \<Rightarrow> nat \<Rightarrow> u8 list \<Rightarrow> nat \<Rightarrow> nat \<Rightarrow> u8 list option" where
  "exchange_pairs base 0 mem a b = Some mem"
| "exchange_pairs base (Suc n) mem a b = do {
     t \<leftarrow> load base mem a 8;
     u \<leftarrow> load base mem (a + 8) 8;
     x \<leftarrow> load base mem b 8;
     mem \<leftarrow> store base mem a 8 x;
     y \<leftarrow> load base mem (b + 8) 8;
     mem \<leftarrow> store base mem (a + 8) 8 y;
     mem \<leftarrow> store base mem b 8 t;
     mem \<leftarrow> store base mem (b + 8) 8 u;
     exchange_pairs base n mem (a + 16) (b + 16) }"

fun exchange :: "exchange_f \<Rightarrow> nat \<Rightarrow> u8 list \<Rightarrow> nat \<Rightarrow> nat \<Rightarrow> nat \<Rightarrow> u8 list option" where
  "exchange exchange_bytes base mem a b sz = exchange_units base 1 sz mem a b"
| "exchange exchange_one_byte base mem a b sz = exchange_units base 1 1 mem a b"
| "exchange exchange_int16s base mem a b sz = exchange_units base 2 (sz div 2) mem a b"
| "exchange exchange_one_int16 base mem a b sz = exchange_units base 2 1 mem a b"
| "exchange exchange_int32s base mem a b sz = exchange_units base 4 (sz div 4) mem a b"
| "exchange exchange_one_int32 base mem a b sz = exchange_units base 4 1 mem a b"
| "exchange exchange_int64s base mem a b sz = exchange_units base 8 (sz div 8) mem a b"
| "exchange exchange_one_int64 base mem a b sz = exchange_units base 8 1 mem a b"
| "exchange exchange_int128s base mem a b sz = exchange_pairs base (sz div (8 * 2)) mem a b"
| "exchange exchange_one_int128 base mem a b sz = exchange_pairs base 1 mem a b"

definition exchange_func :: "nat \<Rightarrow> nat \<Rightarrow> exchange_f" where
  "exchange_func base sz =
     (let k = (base OR sz) AND 15 in
      if k = 0 then (if sz = 8 * 2 then exchange_one_int128 else exchange_int128s)
      else if k = 8 then (if sz = 8 then exchange_one_int64 else exchange_int64s)
      else if k = 4 \<or> k = 12 then (if sz = 4 then exchange_one_int32 else exchange_int32s)
      else if k = 2 \<or> k = 6 \<or> k = 10 \<or> k = 14
        then (if sz = 2 then exchange_one_int16 else exchange_int16s)
      else if sz = 1 then exchange_one_byte else exchange_bytes)"

section \<open>Swapped ranges\<close>

definition swapped :: "nat \<Rightarrow> nat \<Rightarrow> nat \<Rightarrow> 'a list \<Rightarrow> 'a list \<Rightarrow> bool" where
  "swapped n a b xs ys \<longleftrightarrow> length ys = length xs \<and>
     (\<forall>k<n. ys ! (a + k) = xs ! (b + k) \<and> ys ! (b + k) = xs ! (a + k)) \<and>
     (\<forall>k<length xs. \<not> (a \<le> k \<and> k < a + n) \<and> \<not> (b \<le> k \<and> k < b + n) \<longrightarrow> ys ! k = xs ! k)"

definition apart :: "nat \<Rightarrow> nat \<Rightarrow> nat \<Rightarrow> bool" where
  "apart n a b \<longleftrightarrow> a = b \<or> a + n \<le> b \<or> b + n \<le> a"

lemma swapped_0: "swapped 0 a b xs xs"
  by (simp add: swapped_def)

lemma swapped_append:
  assumes 1: "swapped m a b xs ys" and 2: "swapped n (a + m) (b + m) ys zs" and ap: "apart (m + n) a b"
    and l: "a + (m + n) \<le> length xs" "b + (m + n) \<le> length xs"
  shows "swapped (m + n) a b xs zs"
proof -
  have ly: "length ys = length xs" using 1 by (simp add: swapped_def)
  have y: "\<And>k. k < m \<Longrightarrow> ys ! (a + k) = xs ! (b + k)" "\<And>k. k < m \<Longrightarrow> ys ! (b + k) = xs ! (a + k)"
    "\<And>k. k < length xs \<Longrightarrow> \<not> (a \<le> k \<and> k < a + m) \<Longrightarrow> \<not> (b \<le> k \<and> k < b + m) \<Longrightarrow> ys ! k = xs ! k"
    using 1 unfolding swapped_def by blast+
  have z: "\<And>k. k < n \<Longrightarrow> zs ! (a + m + k) = ys ! (b + m + k)"
    "\<And>k. k < n \<Longrightarrow> zs ! (b + m + k) = ys ! (a + m + k)"
    "\<And>k. k < length xs \<Longrightarrow> \<not> (a + m \<le> k \<and> k < a + m + n) \<Longrightarrow> \<not> (b + m \<le> k \<and> k < b + m + n) \<Longrightarrow> zs ! k = ys ! k"
    using 2 unfolding swapped_def ly by blast+
  have "zs ! (a + k) = xs ! (b + k) \<and> zs ! (b + k) = xs ! (a + k)" if "k < m + n" for k
  proof (cases "k < m")
    case True
    have "zs ! (a + k) = ys ! (a + k)" "zs ! (b + k) = ys ! (b + k)"
      using True ap l by (intro z(3); auto simp: apart_def)+
    then show ?thesis using y(1,2) [OF True] by simp
  next
    case False
    then obtain j where j: "k = m + j" "j < n" using \<open>k < m + n\<close> by (metis le_iff_add nat_add_left_cancel_less not_less)
    have "ys ! (a + m + j) = xs ! (a + m + j)" "ys ! (b + m + j) = xs ! (b + m + j)"
      using j ap l by (intro y(3); auto simp: apart_def)+
    then show ?thesis using z(1,2) [OF j(2)] j(1) by (simp add: ac_simps)
  qed
  moreover have "zs ! k = xs ! k"
    if "k < length xs" "\<not> (a \<le> k \<and> k < a + (m + n))" "\<not> (b \<le> k \<and> k < b + (m + n))" for k
  proof -
    have "zs ! k = ys ! k" using that by (intro z(3)) auto
    also have "ys ! k = xs ! k" using that by (intro y(3)) auto
    finally show ?thesis .
  qed
  moreover have "length zs = length xs" using 1 2 by (simp add: swapped_def)
  ultimately show ?thesis by (simp add: swapped_def)
qed

lemma swappedD:
  assumes "swapped n a b xs ys"
  shows "length ys = length xs" and "k < n \<Longrightarrow> ys ! (a + k) = xs ! (b + k)"
    and "k < n \<Longrightarrow> ys ! (b + k) = xs ! (a + k)"
    and "k < length xs \<Longrightarrow> \<not> (a \<le> k \<and> k < a + n) \<Longrightarrow> \<not> (b \<le> k \<and> k < b + n) \<Longrightarrow> ys ! k = xs ! k"
  using assms by (simp_all add: swapped_def)

lemma swapped_unique: "swapped n a b xs ys \<Longrightarrow> swapped n a b xs zs \<Longrightarrow> ys = zs"
proof (rule nth_equalityI)
  assume s: "swapped n a b xs ys" "swapped n a b xs zs"
  then show "length ys = length zs" by (simp add: swapped_def)
  fix k assume "k < length ys"
  then have kl: "k < length xs" using s by (simp add: swapped_def)
  consider j where "j < n" "k = a + j" | j where "j < n" "k = b + j"
    | "\<not> (a \<le> k \<and> k < a + n)" "\<not> (b \<le> k \<and> k < b + n)"
    by (metis le_iff_add nat_add_left_cancel_less)
  then show "ys ! k = zs ! k"
    using swappedD [OF s(1)] swappedD [OF s(2)] kl by cases simp_all
qed

lemma mem_write_nth:
  "mem_write m a d = Some m' \<Longrightarrow> m' ! k = (if a \<le> k \<and> k < a + length d then d ! (k - a) else m ! k)"
  by (auto simp: mem_write_def nth_append split: if_splits)

lemma swapped_write:
  assumes ap: "apart w a b" and "a + w \<le> length mem" "b + w \<le> length mem"
    and 1: "mem_write mem a (take w (drop b mem)) = Some m1"
    and 2: "mem_write m1 b (take w (drop a mem)) = Some m2"
  shows "swapped w a b mem m2"
proof -
  have m1: "m1 ! k = (if a \<le> k \<and> k < a + w then mem ! (b + (k - a)) else mem ! k)" for k
    using mem_write_nth [OF 1, of k] assms(2,3) by (auto simp: nth_append)
  have m2: "m2 ! k = (if b \<le> k \<and> k < b + w then mem ! (a + (k - b)) else m1 ! k)" for k
    using mem_write_nth [OF 2, of k] assms(2,3) by (auto simp: nth_append)
  have "length m2 = length mem" using mem_write_length [OF 1] mem_write_length [OF 2] by simp
  then show ?thesis using ap by (auto simp: swapped_def m1 m2 apart_def)
qed

lemma apart_tail: "apart (w + n) a b \<Longrightarrow> apart n (a + w) (b + w)"
  by (auto simp: apart_def)

lemma apart_le: "apart n a b \<Longrightarrow> m \<le> n \<Longrightarrow> apart m a b"
  by (auto simp: apart_def)

lemma exchange_units_swapped:
  assumes "apart (n * w) a b" "a + n * w \<le> length mem" "b + n * w \<le> length mem"
    and "w dvd base + a" "w dvd base + b" "0 < w"
  shows "okw (exchange_units base w n mem a b) (swapped (n * w) a b mem)"
  using assms
proof (induction n arbitrary: mem a b)
  case (Suc n)
  have aw: "a + w \<le> length mem" "b + w \<le> length mem" using Suc.prems(2,3) by auto
  have ap: "apart w a b" using apart_le [OF Suc.prems(1), of w] by simp
  obtain m1 m2 where m: "mem_write mem a (take w (drop b mem)) = Some m1"
      "mem_write m1 b (take w (drop a mem)) = Some m2"
    using aw by (auto simp: mem_write_def)
  have sw: "swapped w a b mem m2" by (rule swapped_write [OF ap aw m])
  have "okw (exchange_units base w n m2 (a + w) (b + w)) (swapped (n * w) (a + w) (b + w) m2)"
  proof (rule Suc.IH)
    show "w dvd base + (a + w)" "w dvd base + (b + w)"
      using Suc.prems(4,5) by (metis add.assoc dvd_add dvd_refl)+
  qed (use Suc.prems sw apart_tail [of w "n * w"] in \<open>auto simp: swapped_def ac_simps\<close>)
  then have "okw (exchange_units base w n m2 (a + w) (b + w)) (swapped (w + n * w) a b mem)"
    by (rule okw_mono) (use swapped_append [OF sw] Suc.prems(1-3) in auto)
  then show ?case
    using Suc.prems(4,5) aw m by (simp add: load_def store_def mem_read_def mod_eq_0_iff_dvd)
qed (simp add: swapped_0)

lemma pair_swapped:
  assumes ap: "apart 16 a b" and l: "a + 16 \<le> length mem" "b + 16 \<le> length mem"
    and 1: "mem_write mem a (take 8 (drop b mem)) = Some m1"
    and 2: "mem_write m1 (a + 8) (take 8 (drop (b + 8) m1)) = Some m2"
    and 3: "mem_write m2 b (take 8 (drop a mem)) = Some m3"
    and 4: "mem_write m3 (b + 8) (take 8 (drop (a + 8) mem)) = Some m4"
  shows "swapped 16 a b mem m4"
proof -
  have len: "length m1 = length mem" "length m2 = length mem" "length m3 = length mem" "length m4 = length mem"
    using 1 2 3 4 by (auto dest!: mem_write_length)
  have m1: "m1 ! k = (if a \<le> k \<and> k < a + 8 then mem ! (b + (k - a)) else mem ! k)" for k
    using mem_write_nth [OF 1, of k] l by (auto simp: nth_append)
  have m2: "m2 ! k = (if a + 8 \<le> k \<and> k < a + 16 then m1 ! (b + 8 + (k - (a + 8))) else m1 ! k)" for k
    using mem_write_nth [OF 2, of k] l len by (auto simp: nth_append)
  have m3: "m3 ! k = (if b \<le> k \<and> k < b + 8 then mem ! (a + (k - b)) else m2 ! k)" for k
    using mem_write_nth [OF 3, of k] l len by (auto simp: nth_append)
  have m4: "m4 ! k = (if b + 8 \<le> k \<and> k < b + 16 then mem ! (a + 8 + (k - (b + 8))) else m3 ! k)" for k
    using mem_write_nth [OF 4, of k] l len by (auto simp: nth_append)
  have m2': "m2 ! k = (if a \<le> k \<and> k < a + 16 then mem ! (b + (k - a)) else mem ! k)" for k
    using ap by (auto simp: m2 m1 apart_def)
  have "m4 ! k = (if b \<le> k \<and> k < b + 16 then mem ! (a + (k - b)) else m2 ! k)" for k
    by (auto simp: m4 m3)
  then show ?thesis using ap len by (auto simp: swapped_def m2' apart_def)
qed

lemma exchange_pairs_swapped:
  assumes "apart (n * 16) a b" "a + n * 16 \<le> length mem" "b + n * 16 \<le> length mem"
    and "8 dvd base + a" "8 dvd base + b"
  shows "okw (exchange_pairs base n mem a b) (swapped (n * 16) a b mem)"
  using assms
proof (induction n arbitrary: mem a b)
  case (Suc n)
  have aw: "a + 16 \<le> length mem" "b + 16 \<le> length mem" using Suc.prems(2,3) by auto
  have ap: "apart 16 a b" using apart_le [OF Suc.prems(1), of 16] by simp
  have wr: "\<exists>m'. mem_write m c (take 8 (drop d m'')) = Some m' \<and> length m' = length mem"
    if "length m = length mem" "c + 8 \<le> length mem" for m m'' :: "u8 list" and c d
    using that by (auto simp: mem_write_def)
  obtain m1 where m1: "mem_write mem a (take 8 (drop b mem)) = Some m1" "length m1 = length mem"
    using wr [of mem a b mem] aw by auto
  obtain m2 where m2: "mem_write m1 (a + 8) (take 8 (drop (b + 8) m1)) = Some m2" "length m2 = length mem"
    using wr [of m1 "a + 8" "b + 8" m1] m1 aw by auto
  obtain m3 where m3: "mem_write m2 b (take 8 (drop a mem)) = Some m3" "length m3 = length mem"
    using wr [of m2 b a mem] m2 aw by auto
  obtain m4 where m4: "mem_write m3 (b + 8) (take 8 (drop (a + 8) mem)) = Some m4"
    using wr [of m3 "b + 8" "a + 8" mem] m3 aw by auto
  have sw: "swapped 16 a b mem m4" by (rule pair_swapped [OF ap aw m1(1) m2(1) m3(1) m4])
  have al: "8 dvd base + (a + 8)" "8 dvd base + (b + 8)" "8 dvd base + (a + 16)" "8 dvd base + (b + 16)"
    using Suc.prems(4,5) by presburger+
  have "okw (exchange_pairs base n m4 (a + 16) (b + 16)) (swapped (n * 16) (a + 16) (b + 16) m4)"
    using Suc.prems sw al apart_tail [of 16 "n * 16"] by (intro Suc.IH) (auto simp: swapped_def ac_simps)
  then have "okw (exchange_pairs base n m4 (a + 16) (b + 16)) (swapped (16 + n * 16) a b mem)"
    by (rule okw_mono) (use swapped_append [OF sw] Suc.prems(1-3) in auto)
  then show ?case
    using Suc.prems(4,5) al aw m1 m2 m3 m4
    by (simp add: load_def store_def mem_read_def mod_eq_0_iff_dvd add.assoc)
qed (simp add: swapped_0)

section \<open>The selected function swaps\<close>

lemma low_bits:
  assumes "(x OR y) AND 15 = (c :: nat)" and "take_bit k c = 0" and "k \<le> 4"
  shows "2 ^ k dvd x" "2 ^ k dvd y"
proof -
  have "take_bit 4 (x OR y) = c" using assms(1) by (simp add: take_bit_eq_mask mask_eq_exp_minus_1)
  then have "take_bit k (x OR y) = take_bit k c"
    using assms(3) by (metis min_absorb1 take_bit_take_bit)
  then have "take_bit k x OR take_bit k y = 0" using assms(2) by (simp add: take_bit_or)
  then have "take_bit k x = 0 \<and> take_bit k y = 0" by (simp only: or_eq_0_iff)
  then have "take_bit k x = 0" "take_bit k y = 0" by simp_all
  then show "2 ^ k dvd x" "2 ^ k dvd y" by (simp_all add: take_bit_eq_0_iff)
qed

lemma exchange_many:
  assumes "apart m a b" "a + m \<le> length mem" "b + m \<le> length mem"
    and sz: "w dvd base" "w dvd a" "w dvd b" "w dvd m" "0 < w" and n: "n = m div w"
  shows "okw (exchange_units base w n mem a b) (swapped m a b mem)"
proof -
  have "m = n * w" using sz n by simp
  then show ?thesis using exchange_units_swapped [of n w a b mem base] assms by simp
qed

theorem exchange_func_swaps:
  assumes f: "f = exchange_func base sz \<and> m = sz \<or> f = exchange_func base (sz OR 128) \<and> sz dvd m"
    and al: "sz dvd a" "sz dvd b" and ap: "apart m a b" "a + m \<le> length mem" "b + m \<le> length mem"
  shows "okw (exchange f base mem a b m) (swapped m a b mem)"
proof -
  define s where "s = (if f = exchange_func base sz \<and> m = sz then sz else sz OR 128)"
  define k where "k = (base OR s) AND 15"
  have fs: "f = exchange_func base s" using f by (auto simp: s_def)
  have szm: "sz dvd m" using f by auto
  have dv: "2 ^ j dvd sz" if "2 ^ j dvd s" "j \<le> 4" for j
  proof (cases "s = sz")
    case False
    then have "s = sz OR 128" by (auto simp: s_def split: if_splits)
    moreover have "take_bit j (128 :: nat) = 0"
      using that(2) by (auto simp: take_bit_eq_0_iff intro: dvd_trans [OF le_imp_power_dvd [of j 7 2]])
    ultimately show ?thesis using that(1) by (simp flip: take_bit_eq_0_iff add: take_bit_or)
  qed (use that in simp)
  have d: "2 ^ j dvd base \<and> 2 ^ j dvd a \<and> 2 ^ j dvd b \<and> 2 ^ j dvd m" if "take_bit j k = 0" "j \<le> 4" for j
    using low_bits [OF k_def [symmetric] that] dv [OF _ that(2)] al szm by (meson dvd_trans)
  have one: "s = m" if "s < 128"
  proof (rule ccontr)
    assume "s \<noteq> m"
    then have "s = sz OR 128" using f by (auto simp: s_def split: if_splits)
    moreover have "drop_bit 7 s = 0" using that by (simp add: drop_bit_eq_div)
    ultimately have "drop_bit 7 sz OR drop_bit 7 128 = (0 :: nat)" by (simp only: drop_bit_or)
    then have "drop_bit 7 128 = (0 :: nat)" by (simp only: or_eq_0_iff)
    then show False by (simp add: drop_bit_eq_div)
  qed
  have goal: "okw (exchange_units base w n mem a b) (swapped m a b mem)"
    if "take_bit j k = 0" "j \<le> 4" "w = 2 ^ j" "n = m div w" for w n j
    using exchange_many [of m a b mem w base n] d [OF that(1,2)] that ap by simp
  have fk: "f = (if k = 0 then (if s = 16 then exchange_one_int128 else exchange_int128s)
      else if k = 8 then (if s = 8 then exchange_one_int64 else exchange_int64s)
      else if k = 4 \<or> k = 12 then (if s = 4 then exchange_one_int32 else exchange_int32s)
      else if k = 2 \<or> k = 6 \<or> k = 10 \<or> k = 14 then (if s = 2 then exchange_one_int16 else exchange_int16s)
      else if s = 1 then exchange_one_byte else exchange_bytes)"
    by (simp add: fs exchange_func_def k_def Let_def)
  consider "k = 0" | "k = 8" | "k = 4 \<or> k = 12" | "k = 2 \<or> k = 6 \<or> k = 10 \<or> k = 14"
    | "k \<noteq> 0" "k \<noteq> 8" "\<not> (k = 4 \<or> k = 12)" "\<not> (k = 2 \<or> k = 6 \<or> k = 10 \<or> k = 14)" by blast
  then show ?thesis
  proof cases
    case 1
    have "f = (if s = 16 then exchange_one_int128 else exchange_int128s)"
      using fk 1 by simp
    then have ex: "exchange f base mem a b m = exchange_pairs base (m div 16) mem a b"
      using one by auto
    have dv: "16 dvd base" "16 dvd a" "16 dvd b" "16 dvd m" using d [of 4] 1 by auto
    then have "m div 16 * 16 = m" "8 dvd base + a" "8 dvd base + b" by presburger+
    then show ?thesis unfolding ex using exchange_pairs_swapped [of "m div 16" a b mem base] ap by simp
  next
    case 2
    have "f = (if s = 8 then exchange_one_int64 else exchange_int64s)"
      using fk 2 by simp
    then have ex: "exchange f base mem a b m = exchange_units base 8 (m div 8) mem a b" using one by auto
    show ?thesis unfolding ex using 2 by (intro goal [of 3]) (simp_all add: take_bit_eq_mod)
  next
    case 3
    then have "f = (if s = 4 then exchange_one_int32 else exchange_int32s)"
      using fk by force
    then have ex: "exchange f base mem a b m = exchange_units base 4 (m div 4) mem a b" using one by auto
    show ?thesis unfolding ex using 3 by (intro goal [of 2]) (auto simp: take_bit_eq_mod)
  next
    case 4
    then have "f = (if s = 2 then exchange_one_int16 else exchange_int16s)"
      using fk by force
    then have ex: "exchange f base mem a b m = exchange_units base 2 (m div 2) mem a b" using one by auto
    show ?thesis unfolding ex using 4 by (intro goal [of 1]) (auto simp: take_bit_eq_mod)
  next
    case 5
    then have "f = (if s = 1 then exchange_one_byte else exchange_bytes)"
      using fk by simp
    then have ex: "exchange f base mem a b m = exchange_units base 1 (m div 1) mem a b" using one by auto
    show ?thesis unfolding ex by (intro goal [of 0]) simp_all
  qed
qed

section \<open>Arrays of elements\<close>

text \<open>The bytes of an array of elements of equal width.\<close>

lemma concat_nth:
  "\<forall>x\<in>set xs. length x = sz \<Longrightarrow> i < length xs \<Longrightarrow> r < sz \<Longrightarrow> concat xs ! (i * sz + r) = xs ! i ! r"
proof (induction xs arbitrary: i)
  case (Cons x xs)
  then show ?case by (cases i) (auto simp: nth_append)
qed simp

lemma length_concat_uniform: "\<forall>x\<in>set xs. length x = sz \<Longrightarrow> length (concat xs) = length xs * sz"
  by (induction xs) auto

lemma swapped_concat:
  assumes sw: "swapped n a b xs ys" and "0 < sz" and u: "\<forall>x\<in>set xs. length x = sz" "\<forall>x\<in>set ys. length x = sz"
    and l: "a + n \<le> length xs" "b + n \<le> length xs"
  shows "swapped (n * sz) (a * sz) (b * sz) (concat xs) (concat ys)"
proof -
  have len: "length ys = length xs" using sw by (simp add: swapped_def)
  have at: "concat ys ! (c * sz + k) = concat xs ! (d * sz + k)"
    if "k < n * sz" "c + n \<le> length xs" "d + n \<le> length xs" "\<And>j. j < n \<Longrightarrow> ys ! (c + j) = xs ! (d + j)" for c d k
  proof -
    define j r where "j = k div sz" and "r = k mod sz"
    have k: "k = j * sz + r" "r < sz" "j < n"
      using that(1) \<open>0 < sz\<close> by (simp_all add: j_def r_def less_mult_imp_div_less)
    have "concat ys ! ((c + j) * sz + r) = concat xs ! ((d + j) * sz + r)"
      using concat_nth [OF u(2), of "c + j" r] concat_nth [OF u(1), of "d + j" r] that(2-4) k len by simp
    then show ?thesis by (simp add: k(1) algebra_simps)
  qed
  have out: "concat ys ! k = concat xs ! k"
    if "\<not> (a * sz \<le> k \<and> k < a * sz + n * sz)" "\<not> (b * sz \<le> k \<and> k < b * sz + n * sz)" "k < length (concat xs)" for k
  proof -
    define j r where "j = k div sz" and "r = k mod sz"
    have k: "k = j * sz + r" "r < sz" "j < length xs"
      using that(3) \<open>0 < sz\<close> by (simp_all add: j_def r_def length_concat_uniform [OF u(1)] less_mult_imp_div_less)
    have nin: "\<not> (c \<le> j \<and> j < c + n)" if "\<not> (c * sz \<le> k \<and> k < c * sz + n * sz)" for c
    proof
      assume "c \<le> j \<and> j < c + n"
      then have "c * sz \<le> j * sz" "Suc j * sz \<le> (c + n) * sz" 
        using mult_le_mono1 [of c j sz] mult_le_mono1 [of "Suc j" "c + n" sz]
        by (blast, metis Suc_leI)
      then have "c * sz \<le> k" "k < c * sz + n * sz"
        using k(1,2) unfolding add_mult_distrib mult_Suc by linarith+
      then show False using that by simp
    qed
    have "ys ! j = xs ! j" using swappedD(4) [OF sw k(3) nin [OF that(1)] nin [OF that(2)]] .
    then show ?thesis
      using concat_nth [OF u(1) k(3,2)] concat_nth [OF u(2), of j r] k len by simp
  qed
  show ?thesis
    using at [of _ a b] at [of _ b a] out sw l len
    by (auto simp: swapped_def length_concat_uniform [OF u(1)] length_concat_uniform [OF u(2)])
qed

lemma swap_uniform:
  assumes "swap xs i j = Some ys" and "\<forall>x\<in>set xs. length x = sz"
  shows "swapped 1 i j xs ys" "\<forall>x\<in>set ys. length x = sz"
  using assms
  by (auto simp: swap_def rd_def swapped_def nth_list_update split: if_splits dest!: set_update_subset_insert [THEN subsetD])

text \<open>C27: A block of the array is the concatenation of its elements, and the exchange of two elements by
  the function selected for the array refines the exchange in the list of elements: it moves
  exactly the bytes of the two elements, with aligned accesses only, whatever the base address and
  the width.\<close>

theorem exchange_refines_swap:
  assumes "\<forall>x\<in>set xs. length x = sz" and "0 < sz" and ij: "i < length xs" "j < length xs"
  shows "exchange (exchange_func base sz) base (concat xs) (i * sz) (j * sz) sz =
    map_option concat (swap xs i j)"
proof -
  let ?ys = "xs[i := xs ! j, j := xs ! i]"
  have sw: "swap xs i j = Some ?ys" using ij by (rule swap_Some)
  have c: "swapped (1 * sz) (i * sz) (j * sz) (concat xs) (concat ?ys)"
    using assms swap_uniform [OF sw assms(1)] by (intro swapped_concat) auto
  have "apart sz (i * sz) (j * sz)"
    unfolding apart_def using mult_le_mono1 [of "Suc i" j sz] mult_le_mono1 [of "Suc j" i sz]
    by (cases i j rule: linorder_cases) auto
  then have "okw (exchange (exchange_func base sz) base (concat xs) (i * sz) (j * sz) sz)
      (swapped sz (i * sz) (j * sz) (concat xs))"
    using ij mult_le_mono1 [of "Suc i" "length xs" sz] mult_le_mono1 [of "Suc j" "length xs" sz]
    by (intro exchange_func_swaps) (auto simp: length_concat_uniform [OF assms(1)])
  then show ?thesis using c sw by (auto dest!: okw_ex dest: swapped_unique)
qed

theorem exchange_refines_swap_witness:
  "exchange (exchange_func 1000 2) 1000 (concat [[1, 2], [3, 4], [5, 6]]) (0 * 2) (2 * 2) 2 =
     map_option concat (swap [[1, 2], [3, 4], [5, 6]] 0 2) \<and>
   exchange (exchange_func 1000 2) 1000 [1, 2, 3, 4, 5, 6] 0 4 2 = Some [5, 6, 3, 4, 1, 2]"
proof
  show e: "exchange (exchange_func 1000 2) 1000 (concat [[1, 2], [3, 4], [5, 6]]) (0 * 2) (2 * 2) 2 =
     map_option concat (swap [[1, 2], [3, 4], [5, 6]] 0 2)"
    by (rule exchange_refines_swap) simp_all
  then show "exchange (exchange_func 1000 2) 1000 [1, 2, 3, 4, 5, 6] 0 4 2 = Some [5, 6, 3, 4, 1, 2]"
    by (simp add: swap_def rd_def)
qed

text \<open>C28: The exchange of runs of \<open>n\<close> elements, through the function selected for \<open>size | 128\<close>,
  refines \<open>swap_block\<close>.\<close>

theorem exchange_refines_swap_block:
  assumes "\<forall>x\<in>set xs. length x = sz" and "0 < sz" and "a + n \<le> b" "b + n \<le> length xs"
  shows "exchange (exchange_func base (sz OR 128)) base (concat xs) (a * sz) (b * sz) (n * sz) =
    map_option concat (swap_block xs a b n)"
proof -
  obtain ys where ys: "swap_block xs a b n = Some ys" "mset ys = mset xs" "swapped n a b xs ys"
    using okw_ex [OF okw_conj [OF swap_block_nth [OF assms(3,4)] swap_block_perm [of 0 a n "length xs" b xs]]] assms(3,4)
    by (auto simp: swapped_def perm_on_def)
  have c: "swapped (n * sz) (a * sz) (b * sz) (concat xs) (concat ys)"
    using assms ys(3) mset_eq_setD [OF ys(2)] by (intro swapped_concat) auto
  have le: "a * sz + n * sz \<le> b * sz" "b * sz + n * sz \<le> length xs * sz"
    using mult_le_mono1 [OF assms(3), of sz] mult_le_mono1 [OF assms(4), of sz]
    by (simp_all add: add_mult_distrib)
  then have "okw (exchange (exchange_func base (sz OR 128)) base (concat xs) (a * sz) (b * sz) (n * sz))
      (swapped (n * sz) (a * sz) (b * sz) (concat xs))"
    by (intro exchange_func_swaps [where sz = sz]) (auto simp: length_concat_uniform [OF assms(1)] apart_def)
  then show ?thesis using c ys(1) by (auto dest!: okw_ex dest: swapped_unique)
qed

theorem exchange_refines_swap_block_witness:
  "exchange (exchange_func 1000 (2 OR 128)) 1000 (concat [[1, 2], [3, 4], [5, 6], [7, 8]]) (0 * 2) (2 * 2) (2 * 2) =
     map_option concat (swap_block [[1, 2], [3, 4], [5, 6], [7, 8]] 0 2 2)"
  by (rule exchange_refines_swap_block) simp_all

end
