(* ===== verification/Rqsort_Main.thy ===== *)
theory Rqsort_Main
  imports Rqsort_Quick
begin

text \<open>
  The partition of \<open>rqsort\<close>, its main loop, and the result: for every comparison that follows an
  order the array is sorted, and for every comparison at all the routine returns a rearrangement
  of the array without leaving it and without overflowing its stack.
\<close>

text \<open>Swapping the smaller number of elements at the ends exchanges two adjacent blocks.\<close>

lemma swap_blocks_adjacent:
  assumes ab: "a \<le> b" "b \<le> c" "c \<le> length xs" and span: "span = min (b - a) (c - b)"
    and P: "\<And>k. a \<le> k \<Longrightarrow> k < b \<Longrightarrow> P (xs ! k)" and Q: "\<And>k. b \<le> k \<Longrightarrow> k < c \<Longrightarrow> Q (xs ! k)"
  shows "okw (swap_block xs a (c - span) span) (\<lambda>ys. perm_on a c xs ys \<and>
    (\<forall>k. a \<le> k \<and> k < a + (c - b) \<longrightarrow> Q (ys ! k)) \<and> (\<forall>k. a + (c - b) \<le> k \<and> k < c \<longrightarrow> P (ys ! k)))"
proof -
  have sp: "span \<le> b - a" "span \<le> c - b" "span = b - a \<or> span = c - b" using span by auto
  then have le: "a + span \<le> c - span" "c - span + span \<le> length xs" using ab by auto
  obtain ys where y: "swap_block xs a (c - span) span = Some ys"
    "\<And>k. k < span \<Longrightarrow> ys ! (a + k) = xs ! (c - span + k)"
    "\<And>k. k < span \<Longrightarrow> ys ! (c - span + k) = xs ! (a + k)"
    "\<And>k. \<not> (a \<le> k \<and> k < a + span) \<Longrightarrow> \<not> (c - span \<le> k \<and> k < c - span + span) \<Longrightarrow> ys ! k = xs ! k"
    using swap_block_nth [OF le] by (auto dest!: okw_ex)
  have "perm_on a c xs ys"
    using swap_block_perm [of a a span c "c - span" xs] ab le sp y(1) by auto
  moreover have "Q (ys ! k)" if k: "a \<le> k" "k < a + (c - b)" for k
  proof (cases "k < a + span")
    case True
    then show ?thesis using y(2) [of "k - a"] k(1) ab sp by (auto intro!: Q)
  next
    case False
    then have "b \<le> k" "k < c" "k < c - span" using k ab sp by linarith+
    then show ?thesis using y(4) [of k] False Q by simp
  qed
  moreover have "P (ys ! k)" if k: "a + (c - b) \<le> k" "k < c" for k
  proof (cases "c - span \<le> k")
    case True
    then show ?thesis using y(3) [of "k - (c - span)"] k(2) ab sp by (auto intro!: P)
  next
    case False
    then have "a \<le> k" "k < b" "a + span \<le> k" using k ab sp by linarith+
    then show ?thesis using y(4) [of k] False P by simp
  qed
  ultimately show ?thesis using y(1) by simp
qed

context comparison
begin

subsection \<open>Partition\<close>

definition eqv :: "'a \<Rightarrow> 'a \<Rightarrow> bool" where
  "eqv x y \<longleftrightarrow> le x y \<and> le y x"

definition part_inv :: "'a list \<Rightarrow> 'a \<Rightarrow> nat \<Rightarrow> nat \<Rightarrow> nat \<Rightarrow> nat \<Rightarrow> nat \<Rightarrow> nat \<Rightarrow> bool" where
  "part_inv xs p ptr plt pi pj pgt hi \<longleftrightarrow>
     ptr < plt \<and> plt \<le> pi \<and> pi \<le> pj \<and> pj \<le> pgt \<and> pgt \<le> hi \<and> hi \<le> length xs \<and> xs ! ptr = p \<and>
     (\<forall>k. ptr < k \<and> k < plt \<longrightarrow> eqv (xs ! k) p) \<and> (\<forall>k. plt \<le> k \<and> k < pi \<longrightarrow> le (xs ! k) p) \<and>
     (\<forall>k. pj \<le> k \<and> k < pgt \<longrightarrow> le p (xs ! k)) \<and> (\<forall>k. pgt \<le> k \<and> k < hi \<longrightarrow> eqv (xs ! k) p)"

lemma swap_nth:
  "i < length xs \<Longrightarrow> j < length xs \<Longrightarrow>
    xs[i := xs ! j, j := xs ! i] ! k = (if k = j then xs ! i else if k = i then xs ! j else xs ! k)"
  by (simp add: nth_list_update)

lemma part_inv_left:
  assumes "part_inv xs p ptr plt pi pj pgt hi" and "pi < pj" and "eqv (xs ! pi) p"
  shows "part_inv (xs[plt := xs ! pi, pi := xs ! plt]) p ptr (plt + 1) (pi + 1) pj pgt hi"
  using assms unfolding part_inv_def by (auto simp: swap_nth less_Suc_eq Suc_le_eq)

lemma left_scan_ok:
  assumes "part_inv xs p ptr plt pi pj pgt hi"
  shows "okw (left_scan cmp ptr xs pi pj plt s) (\<lambda>(ys, pi', plt', s).
    part_inv ys p ptr plt' pi' pj pgt hi \<and> pi \<le> pi' \<and> (pi' = pj \<or> le p (ys ! pi')) \<and> perm_on ptr hi xs ys)"
  using assms
proof (induction cmp\<equiv>cmp ptr xs pi pj plt s rule: left_scan.induct)
  case (1 ptr xs pi pj plt s)
  note inv = 1(3)
  show ?case
  proof (cases "pi < pj")
    case True
    have l: "ptr < length xs" "pi < length xs" "plt < length xs" "xs ! ptr = p"
      using inv True by (auto simp: part_inv_def)
    obtain c t where c: "cmp p (xs ! pi) s = (c, t)" by fastforce
    then have cm: "cmp_at cmp xs ptr pi s = Some (c, t)" using l by (simp add: cmp_at_Some)
    let ?ys = "xs[plt := xs ! pi, pi := xs ! plt]"
    have sw: "swap xs plt pi = Some ?ys" using l by (intro swap_Some)
    have pos: "0 \<le> c \<Longrightarrow> le (xs ! pi) p" and neg: "c \<le> 0 \<Longrightarrow> le p (xs ! pi)"
      using nonneg [of p "xs ! pi" s] nonpos [of p "xs ! pi" s] c by simp_all
    have gt: "okw (left_scan cmp ptr xs (pi + 1) pj plt t) (\<lambda>(ys, pi', plt', s).
        part_inv ys p ptr plt' pi' pj pgt hi \<and> pi + 1 \<le> pi' \<and> (pi' = pj \<or> le p (ys ! pi')) \<and> perm_on ptr hi xs ys)"
      if "c > 0"
      using inv True pos that
      by (intro 1(1) [OF True cm refl that]) (auto simp: part_inv_def less_Suc_eq)
    have i2: "part_inv ?ys p ptr (plt + 1) (pi + 1) pj pgt hi" if "c = 0"
      using part_inv_left [OF inv True] pos neg that by (simp add: eqv_def)
    have pm: "perm_on ptr hi xs ?ys"
      using inv True by (intro perm_on_swap) (auto simp: part_inv_def)
    have eq: "okw (left_scan cmp ptr ?ys (pi + 1) pj (plt + 1) t) (\<lambda>(zs, pi', plt', s).
        part_inv zs p ptr plt' pi' pj pgt hi \<and> pi + 1 \<le> pi' \<and> (pi' = pj \<or> le p (zs ! pi')) \<and> perm_on ptr hi ?ys zs)"
      if "c = 0"
      by (rule 1(2) [OF True cm refl _ that sw i2 [OF that]]) (use that in simp)
    show ?thesis
      using True cm sw inv neg perm_on_trans [OF pm] gt eq
      by (subst left_scan.simps) (auto elim!: okw_mono)
  next
    case False
    then show ?thesis using inv by (subst left_scan.simps) (auto simp: part_inv_def)
  qed
qed

text \<open>The right scan starts below \<open>pj\<close>; it may end one step below \<open>pi\<close>.\<close>

lemma right_scan_ok:
  assumes "part_inv xs p ptr plt pi pj pgt hi" and "pi = pj \<or> le p (xs ! pi)"
  shows "okw (right_scan cmp ptr xs pi pj pgt s) (\<lambda>(ys, pj', pgt', s). perm_on ptr hi xs ys \<and> pj' \<le> pj \<and>
    (if pj' \<le> pi then part_inv ys p ptr plt pi pi pgt' hi
     else part_inv ys p ptr plt pi (pj' + 1) pgt' hi \<and> le (ys ! pj') p \<and> le p (ys ! pi) \<and> pj' < pgt'))"
  using assms
proof (induction cmp\<equiv>cmp ptr xs pi pj pgt s rule: right_scan.induct)
  case (1 ptr xs pi pj pgt s)
  note inv = 1(3)
  show ?case
  proof (cases "pi < pj - 1")
    case True
    let ?j = "pj - 1"
    have l: "ptr < length xs" "?j < length xs" "pgt - 1 < length xs" "xs ! ptr = p" "?j + 1 = pj"
      using inv True by (auto simp: part_inv_def)
    obtain c t where c: "cmp p (xs ! ?j) s = (c, t)" by fastforce
    then have cm: "cmp_at cmp xs ptr ?j s = Some (c, t)" using l by (simp add: cmp_at_Some)
    define ys where "ys = xs[pgt - 1 := xs ! ?j, ?j := xs ! (pgt - 1)]"
    have sw: "swap xs (pgt - 1) ?j = Some ys" unfolding ys_def using l by (intro swap_Some)
    have nth: "ys ! k = (if k = ?j then xs ! (pgt - 1) else if k = pgt - 1 then xs ! ?j else xs ! k)" for k
      unfolding ys_def using l by (intro swap_nth)
    have pos: "0 \<le> c \<Longrightarrow> le (xs ! ?j) p" and neg: "c \<le> 0 \<Longrightarrow> le p (xs ! ?j)"
      using nonneg [of p "xs ! ?j" s] nonpos [of p "xs ! ?j" s] c by simp_all
    have low: "le p (xs ! pi)" using 1(4) True by auto
    let ?Q = "\<lambda>xs (ys, pj', pgt', s). perm_on ptr hi xs ys \<and> pj' \<le> pj - 1 \<and>
      (if pj' \<le> pi then part_inv ys p ptr plt pi pi pgt' hi
       else part_inv ys p ptr plt pi (pj' + 1) pgt' hi \<and> le (ys ! pj') p \<and> le p (ys ! pi) \<and> pj' < pgt')"
    have lt: "okw (right_scan cmp ptr xs pi ?j pgt t) (?Q xs)" if "c < 0"
    proof (rule 1(1) [OF refl True cm refl that])
      have "le p (xs ! k)" if "?j \<le> k" "k < pgt" for k
        using that neg \<open>c < 0\<close> inv by (cases "k = ?j") (auto simp: part_inv_def)
      then show "part_inv xs p ptr plt pi ?j pgt hi"
        using inv True by (auto simp: part_inv_def)
    qed (use low in simp)
    have ord: "plt \<le> pi" "pj \<le> pgt" "pgt \<le> hi" "hi \<le> length xs" "ptr < plt" using inv by (auto simp: part_inv_def)
    have old: "ptr < k \<Longrightarrow> k < plt \<Longrightarrow> eqv (xs ! k) p" "plt \<le> k \<Longrightarrow> k < pi \<Longrightarrow> le (xs ! k) p"
      "pj \<le> k \<Longrightarrow> k < pgt \<Longrightarrow> le p (xs ! k)" "pgt \<le> k \<Longrightarrow> k < hi \<Longrightarrow> eqv (xs ! k) p" for k
      using inv by (auto simp: part_inv_def)
    have i2: "part_inv ys p ptr plt pi ?j (pgt - 1) hi" if z: "c = 0"
    proof -
      have e: "eqv (xs ! ?j) p" using pos neg z by (simp add: eqv_def)
      have "le p (ys ! k)" if "?j \<le> k" "k < pgt - 1" for k
        using that old(3) [of "pgt - 1"] old(3) [of k] neg z True by (auto simp: nth)
      moreover have "eqv (ys ! k) p" if "pgt - 1 \<le> k" "k < hi" for k
        using that e old(4) [of k] ord l(5) by (auto simp: nth)
      moreover have "ys ! k = xs ! k" if "k < pi" for k using that True ord by (auto simp: nth)
      ultimately show ?thesis
        using ord True l(4) old(1,2) by (auto simp: part_inv_def ys_def)
    qed
    have pm: "perm_on ptr hi xs ys"
      unfolding ys_def using ord True by (intro perm_on_swap) auto
    have "ys ! pi = xs ! pi" using True ord by (auto simp: nth)
    then have eq: "okw (right_scan cmp ptr ys pi ?j (pgt - 1) t) (?Q ys)" if "c = 0"
      using low by (intro 1(2) [OF refl True cm refl _ that sw i2 [OF that]]) (simp_all add: that)
    have gt: "part_inv xs p ptr plt pi (?j + 1) pgt hi \<and> le (xs ! ?j) p \<and> le p (xs ! pi) \<and> ?j < pgt" if "c > 0"
      using inv that pos low l(5) ord True by simp
    show ?thesis
      using True cm sw lt eq gt perm_on_trans [OF pm]
      by (subst right_scan.simps) (auto simp: Let_def elim!: okw_mono)
  next
    case False
    have "part_inv xs p ptr plt pi pi pgt hi"
    proof (cases "pi = pj")
      case False
      then have j: "pj = pi + 1" using \<open>\<not> pi < pj - 1\<close> inv by (auto simp: part_inv_def)
      have "le p (xs ! k)" if "pi \<le> k" "k < pgt" for k
        using that 1(4) inv j by (cases "k = pi") (auto simp: part_inv_def)
      then show ?thesis using inv j by (simp add: part_inv_def)
    qed (use inv in simp)
    then show ?thesis using False by (subst right_scan.simps) (auto simp: Let_def)
  qed
qed

lemma partition_loop_ok:
  assumes "part_inv xs p ptr plt pi pj pgt hi" and "pj - pi < fuel"
  shows "okw (partition_loop fuel cmp ptr xs pi pj plt pgt s) (\<lambda>(ys, pi', plt', pgt', s).
    part_inv ys p ptr plt' pi' pi' pgt' hi \<and> perm_on ptr hi xs ys)"
  using assms
proof (induction fuel arbitrary: xs plt pi pj pgt s)
  case (Suc fuel)
  obtain ys pi1 plt1 t where l: "left_scan cmp ptr xs pi pj plt s = Some (ys, pi1, plt1, t)"
    and i1: "part_inv ys p ptr plt1 pi1 pj pgt hi" "pi \<le> pi1" "pi1 = pj \<or> le p (ys ! pi1)" "perm_on ptr hi xs ys"
    using left_scan_ok [OF Suc.prems(1), of s] by (auto dest!: okw_ex)
  obtain zs pj2 pgt2 u where r: "right_scan cmp ptr ys pi1 pj pgt t = Some (zs, pj2, pgt2, u)"
    and i2: "perm_on ptr hi ys zs" "pj2 \<le> pj"
      "if pj2 \<le> pi1 then part_inv zs p ptr plt1 pi1 pi1 pgt2 hi
       else part_inv zs p ptr plt1 pi1 (pj2 + 1) pgt2 hi \<and> le (zs ! pj2) p \<and> le p (zs ! pi1) \<and> pj2 < pgt2"
    using right_scan_ok [OF i1(1,3), of t] by (auto dest!: okw_ex)
  have p2: "perm_on ptr hi xs zs" using i1(4) i2(1) by (rule perm_on_trans)
  show ?case
  proof (cases "pj2 \<le> pi1")
    case True
    then show ?thesis using l r i2 p2 by (simp add: partition_loop.simps)
  next
    case False
    then have i3: "part_inv zs p ptr plt1 pi1 (pj2 + 1) pgt2 hi" "le (zs ! pj2) p" "le p (zs ! pi1)" "pj2 < pgt2"
      using i2(3) by simp_all
    let ?ws = "zs[pi1 := zs ! pj2, pj2 := zs ! pi1]"
    have len: "pi1 < length zs" "pj2 < length zs" using i3(1,4) False by (auto simp: part_inv_def)
    then have sw: "swap zs pi1 pj2 = Some ?ws" by (intro swap_Some)
    have pm: "perm_on ptr hi zs ?ws"
      using i3(1,4) False by (intro perm_on_swap) (auto simp: part_inv_def)
    have inv: "part_inv ?ws p ptr plt1 (pi1 + 1) pj2 pgt2 hi"
      using i3 False len unfolding part_inv_def by (auto simp: swap_nth less_Suc_eq)
    have "okw (partition_loop fuel cmp ptr ?ws (pi1 + 1) pj2 plt1 pgt2 u) (\<lambda>(ys, pi', plt', pgt', s).
        part_inv ys p ptr plt' pi' pi' pgt' hi \<and> perm_on ptr hi ?ws ys)"
      using Suc.prems(2) i1(2) i2(2) False by (intro Suc.IH [OF inv]) auto
    then show ?thesis
      using l r sw False perm_on_trans [OF perm_on_trans [OF p2 pm]]
      by (auto simp: partition_loop.simps elim!: okw_mono)
  qed
qed simp

lemma rq_partition_ok:
  assumes n: "6 < n" and len: "ptr + n \<le> length xs"
  shows "okw (rq_partition cmp xs ptr n s) (\<lambda>(ys, lt, gt, pgt, s).
    perm_on ptr (ptr + n) xs ys \<and> lt < gt \<and> gt \<le> n \<and> pgt = ptr + gt \<and>
    (\<exists>p. (\<forall>k. ptr \<le> k \<and> k < ptr + lt \<longrightarrow> le (ys ! k) p) \<and>
         (\<forall>k. ptr + lt \<le> k \<and> k < ptr + gt \<longrightarrow> eqv (ys ! k) p) \<and>
         (\<forall>k. ptr + gt \<le> k \<and> k < ptr + n \<longrightarrow> le p (ys ! k))))"
proof -
  let ?m4 = "n div 4" and ?hi = "ptr + n"
  have m4: "ptr + 3 * ?m4 < ?hi" using n by linarith
  obtain m t where m: "med3 cmp xs (ptr + ?m4) (ptr + 2 * ?m4) (ptr + 3 * ?m4) s = Some (m, t)"
      "ptr \<le> m" "m < ?hi"
    using med3_in [of "ptr + ?m4" xs "ptr + 2 * ?m4" "ptr + 3 * ?m4" cmp s] m4 len
    by (auto dest!: okw_ex)
  define ys where "ys = xs[ptr := xs ! m, m := xs ! ptr]"
  have sw: "swap xs ptr m = Some ys" unfolding ys_def using m n len by (intro swap_Some) auto
  have p1: "perm_on ptr ?hi xs ys" unfolding ys_def using m n len by (intro perm_on_swap) auto
  have ly: "?hi \<le> length ys" using perm_on_length [OF p1] len by simp
  define p where "p = ys ! ptr"
  have "part_inv ys p ptr (ptr + 1) (ptr + 1) ?hi ?hi ?hi" "?hi - (ptr + 1) < Suc n"
    using n ly by (auto simp: part_inv_def p_def)
  then obtain zs pi plt pgt u where
      pl: "partition_loop (Suc n) cmp ptr ys (ptr + 1) ?hi (ptr + 1) ?hi t = Some (zs, pi, plt, pgt, u)"
      and inv: "part_inv zs p ptr plt pi pi pgt ?hi" and p2: "perm_on ptr ?hi ys zs"
    using okw_ex [OF partition_loop_ok [of ys p ptr "ptr + 1" "ptr + 1" ?hi ?hi ?hi "Suc n" t]]
    by auto
  have b: "ptr < plt" "plt \<le> pi" "pi \<le> pgt" "pgt \<le> ?hi" "?hi \<le> length zs" using inv by (auto simp: part_inv_def)
  have eq1: "eqv (zs ! k) p" if "ptr \<le> k" "k < plt" for k
    using inv that le_refl by (cases "k = ptr") (auto simp: part_inv_def eqv_def)
  have rest: "plt \<le> k \<Longrightarrow> k < pi \<Longrightarrow> le (zs ! k) p" "pi \<le> k \<Longrightarrow> k < pgt \<Longrightarrow> le p (zs ! k)"
    "pgt \<le> k \<Longrightarrow> k < ?hi \<Longrightarrow> eqv (zs ! k) p" for k
    using inv by (auto simp: part_inv_def)
  define sp where "sp = min (plt - ptr) (pi - plt)"
  define lt where "lt = pi - plt"
  obtain ws where ws: "swap_block zs ptr (pi - sp) sp = Some ws" "perm_on ptr pi zs ws"
      "\<And>k. ptr \<le> k \<Longrightarrow> k < ptr + lt \<Longrightarrow> le (ws ! k) p"
      "\<And>k. ptr + lt \<le> k \<Longrightarrow> k < pi \<Longrightarrow> eqv (ws ! k) p"
    using swap_blocks_adjacent [of ptr plt pi zs sp "\<lambda>x. eqv x p" "\<lambda>x. le x p"] b eq1 rest(1)
    by (auto simp: sp_def lt_def dest!: okw_ex)
  have up: "ws ! k = zs ! k" if "pi \<le> k" "k < ?hi" for k
    using perm_on_above [OF ws(2)] that b by simp
  define sp2 where "sp2 = min (?hi - pgt) (pgt - pi)"
  define gt where "gt = n - (pgt - pi)"
  have lw: "?hi \<le> length ws" using perm_on_length [OF ws(2)] b by simp
  have sp2: "sp2 = min (pgt - pi) (?hi - pgt)" by (simp add: sp2_def min.commute)
  obtain vs where vs: "swap_block ws pi (?hi - sp2) sp2 = Some vs" "perm_on pi ?hi ws vs"
      "\<And>k. pi \<le> k \<Longrightarrow> k < pi + (?hi - pgt) \<Longrightarrow> eqv (vs ! k) p"
      "\<And>k. pi + (?hi - pgt) \<le> k \<Longrightarrow> k < ?hi \<Longrightarrow> le p (vs ! k)"
    using swap_blocks_adjacent [of pi pgt ?hi ws sp2 "\<lambda>x. le p x" "\<lambda>x. eqv x p"] b lw rest(2,3) sp2
    by (auto simp: up dest!: okw_ex)
  have down: "vs ! k = ws ! k" if "k < pi" for k using perm_on_below [OF vs(2) that] .
  have eqs: "pi + (?hi - pgt) = ptr + gt" "?hi - (pgt - pi) = ptr + gt" "lt < gt" "gt \<le> n" "ptr + lt \<le> pi"
    using b n by (auto simp: gt_def lt_def)
  have "rq_partition cmp xs ptr n s = Some (vs, pi - plt, gt, ptr + gt, u)"
    using m(1) sw pl ws(1) vs(1)
    by (simp add: rq_partition_def Let_def eqs(2) flip: sp_def sp2_def gt_def)
  then have "rq_partition cmp xs ptr n s = Some (vs, lt, gt, ptr + gt, u)" by (simp add: lt_def)
  moreover have "perm_on ptr ?hi xs vs"
    using perm_on_trans [OF perm_on_trans [OF perm_on_trans [OF p1 p2] perm_on_mono [OF ws(2)]]
        perm_on_mono [OF vs(2)]] b by simp
  moreover have "le (vs ! k) p" if "ptr \<le> k" "k < ptr + lt" for k
    using ws(3) [OF that] down [of k] that eqs(5) by simp
  moreover have "eqv (vs ! k) p" if "ptr + lt \<le> k" "k < ptr + gt" for k
    using ws(4) [of k] vs(3) [of k] down [of k] that eqs(1) by (cases "k < pi") auto
  moreover have "le p (vs ! k)" if "ptr + gt \<le> k" "k < ?hi" for k
    using vs(4) [of k] that eqs(1) by simp
  ultimately show ?thesis using eqs(3,4) by auto
qed

subsection \<open>The main loop\<close>

definition pending :: "'a list \<Rightarrow> segment list \<Rightarrow> bool" where
  "pending xs st \<longleftrightarrow> ordered_but st xs \<and> stack_ok (length xs) st \<and> sorted_wrt seg_disjoint st"

lemma seg_disjoint_sub:
  "seg_disjoint (p, n, d) g \<Longrightarrow> p \<le> q \<Longrightarrow> q + m \<le> p + n \<Longrightarrow> seg_disjoint (q, m, e) g"
  by (auto simp: seg_disjoint_def split: prod.splits)

lemma pending_done:
  assumes "pending xs ((p, n, d) # st)" and pm: "perm_on p (p + n) xs ys"
    and "\<And>i j. p \<le> i \<Longrightarrow> i < j \<Longrightarrow> j < p + n \<Longrightarrow> le (ys ! i) (ys ! j)"
  shows "pending ys st"
  using assms ordered_but_refine [of p n d st xs ys "[]"] perm_on_length [OF pm]
  by (auto simp: pending_def)

lemma pending_split:
  assumes pend: "pending xs ((p, n, d) # st)" and pm: "perm_on p (p + n) xs ys"
    and b: "lt < gt" "gt \<le> n"
    and v: "\<And>k. p \<le> k \<Longrightarrow> k < p + lt \<Longrightarrow> le (ys ! k) v"
      "\<And>k. p + lt \<le> k \<Longrightarrow> k < p + gt \<Longrightarrow> eqv (ys ! k) v"
      "\<And>k. p + gt \<le> k \<Longrightarrow> k < p + n \<Longrightarrow> le v (ys ! k)"
    and gs: "gs = [(p, lt, e), (p + gt, n - gt, e)] \<or> gs = [(p + gt, n - gt, e), (p, lt, e)]"
    and e: "Suc (length st) \<le> e"
  shows "pending ys (gs @ st)"
proof -
  have pre: "ordered_but ((p, n, d) # st) xs" "\<And>g. g \<in> set st \<Longrightarrow> seg_disjoint (p, n, d) g"
    "sorted_wrt seg_disjoint st" "p + n \<le> length xs" "stack_ok (length xs) st"
    using pend by (auto simp: pending_def)
  have up: "le v (ys ! k)" if "p + lt \<le> k" "k < p + n" for k
    using v(2) [of k] v(3) [of k] that by (cases "k < p + gt") (auto simp: eqv_def)
  have down: "le (ys ! k) v" if "p \<le> k" "k < p + gt" for k
    using v(1) [of k] v(2) [of k] that by (cases "k < p + lt") (auto simp: eqv_def)
  have "ordered_but (gs @ st) ys"
  proof (rule ordered_but_refine [OF pre(1,2) pm pre(4)])
    fix i j assume ij: "p \<le> i" "i < j" "j < p + n"
    consider "j < p + lt" | "p + gt \<le> i" | "i < p + gt" "p + lt \<le> j" by linarith
    then show "le (ys ! i) (ys ! j) \<or> (\<exists>g\<in>set gs. in_seg g i \<and> in_seg g j)"
    proof cases
      case 3
      then show ?thesis using le_trans [OF down [of i] up [of j]] ij by simp
    qed (use gs ij in \<open>auto simp: in_seg_def\<close>)
  qed
  moreover have "seg_disjoint (p, lt, e) g" "seg_disjoint (p + gt, n - gt, e) g" if "g \<in> set st" for g
    using seg_disjoint_sub [OF pre(2) [OF that]] b by auto
  moreover have "seg_disjoint (p, lt, e) (p + gt, n - gt, e)" "seg_disjoint (p + gt, n - gt, e) (p, lt, e)"
    using b by (simp_all add: seg_disjoint_def)
  then have "sorted_wrt seg_disjoint (gs @ st)"
    using gs pre(3) calculation(2,3) by auto
  moreover have "stack_ok (length ys) (gs @ st)"
    using gs pre(4,5) b e perm_on_length [OF pm] by auto
  ultimately show ?thesis by (simp add: pending_def)
qed

lemma tail_sortedD:
  assumes "tail_sorted ys lo 0 n" and "lo \<le> i" "i < j" "j < lo + n"
  shows "le (ys ! i) (ys ! j)"
proof -
  obtain a b where "i = lo + a" "j = lo + b" using assms by (metis le_iff_add less_imp_le order_trans)
  then show ?thesis using assms by (simp add: tail_sorted_def)
qed

lemma push_segment_ok: "length st \<le> d \<Longrightarrow> \<not> d + 1 > 50 \<Longrightarrow> push_segment st e = Some (e # st)"
  by (simp add: push_segment_def)

lemma rq_split_ok:
  assumes "pending xs ((ptr, n, depth) # st)" and "length st \<le> depth"
  shows "okw (rq_split cmp xs ptr n depth st s) (\<lambda>(ys, p', n', st', s). mset ys = mset xs \<and>
    stack_cost st' + 2 * n' \<le> stack_cost st + 2 * n \<and> (\<exists>d. pending ys ((p', n', d) # st')))"
  using assms
proof (induction cmp\<equiv>cmp xs ptr n depth st s rule: rq_split.induct)
  case (1 xs ptr n depth st s)
  note pend = 1(3)
  have len: "ptr + n \<le> length xs" using pend by (simp add: pending_def)
  consider "\<not> n > 6" | "n > 6" "depth + 1 > 50" | "n > 6" "\<not> depth + 1 > 50" by blast
  then show ?case
  proof cases
    case 1
    then show ?thesis using pend by (subst rq_split.simps) auto
  next
    case 2
    obtain ys t where h: "heapsortx cmp xs ptr n s = Some (ys, t)" "perm_on ptr (ptr + n) xs ys" "tail_sorted ys ptr 0 n"
      using okw_conj [OF heapsortx_perm [OF len, where cmp = cmp and s = s] heapsortx_sorted [OF len]]
      by (auto dest!: okw_ex)
    have "le (ys ! i) (ys ! j)" if "ptr \<le> i" "i < j" "j < ptr + n" for i j
      using tail_sortedD [OF h(3) that] .
    then have "pending ys st" by (rule pending_done [OF pend h(2)])
    then have "pending ys ((ptr, 0, depth) # st)"
      using pend perm_on_length [OF h(2)] seg_disjoint_sub [of ptr n depth _ ptr 0 depth]
      by (auto simp: pending_def ordered_but_def)
    then show ?thesis
      using 2 h by (subst rq_split.simps) (auto simp: perm_on_def)
  next
    case 3
    obtain ys lt gt pgt t where part: "rq_partition cmp xs ptr n s = Some (ys, lt, gt, pgt, t)"
      using okw_ex [OF rq_partition_ok [OF 3(1) len, of s]] by auto
    then obtain v where h: "rq_partition cmp xs ptr n s = Some (ys, lt, gt, pgt, t)"
        "perm_on ptr (ptr + n) xs ys" "lt < gt" "gt \<le> n" "pgt = ptr + gt"
        "\<And>k. ptr \<le> k \<Longrightarrow> k < ptr + lt \<Longrightarrow> le (ys ! k) v"
        "\<And>k. ptr + lt \<le> k \<Longrightarrow> k < ptr + gt \<Longrightarrow> eqv (ys ! k) v"
        "\<And>k. ptr + gt \<le> k \<Longrightarrow> k < ptr + n \<Longrightarrow> le v (ys ! k)"
      using okw_eqD [OF rq_partition_ok [OF 3(1) len, of s] part] by auto
    have ms: "mset ys = mset xs" using h(2) by (simp add: perm_on_def)
    note split = pending_split [OF pend h(2,3,4,6,7,8), where e = "depth + 1"]
    note push = push_segment_ok [OF 1(4) 3(2)]
    show ?thesis
    proof (cases "lt > n - gt")
      case True
      have "pending ys ((pgt, n - gt, depth + 1) # (ptr, lt, depth + 1) # st)"
        using split [of "[(ptr + gt, n - gt, depth + 1), (ptr, lt, depth + 1)]"] 1(4) h(5) by simp
      then have "okw (rq_split cmp ys pgt (n - gt) (depth + 1) ((ptr, lt, depth + 1) # st) t)
          (\<lambda>(zs, p', n', st', s). mset zs = mset ys \<and>
            stack_cost st' + 2 * n' \<le> stack_cost ((ptr, lt, depth + 1) # st) + 2 * (n - gt) \<and>
            (\<exists>d. pending zs ((p', n', d) # st')))"
        using 1(4) by (intro 1(1) [OF 3 h(1) refl refl refl refl True push]) auto
      then show ?thesis
        using 3 h(1,3,4) True push ms by (subst rq_split.simps) (auto elim!: okw_mono)
    next
      case False
      have "pending ys ((ptr, lt, depth + 1) # (pgt, n - gt, depth + 1) # st)"
        using split [of "[(ptr, lt, depth + 1), (ptr + gt, n - gt, depth + 1)]"] 1(4) h(5) by simp
      then have "okw (rq_split cmp ys ptr lt (depth + 1) ((pgt, n - gt, depth + 1) # st) t)
          (\<lambda>(zs, p', n', st', s). mset zs = mset ys \<and>
            stack_cost st' + 2 * n' \<le> stack_cost ((pgt, n - gt, depth + 1) # st) + 2 * lt \<and>
            (\<exists>d. pending zs ((p', n', d) # st')))"
        using 1(4) by (intro 1(2) [OF 3 h(1) refl refl refl refl False push]) auto
      then show ?thesis
        using 3 h(1,3,4) False push ms by (subst rq_split.simps) (auto elim!: okw_mono)
    qed
  qed
qed

lemma rqsort_loop_ok:
  assumes "pending xs st" and "stack_cost st \<le> fuel"
  shows "okw (rqsort_loop fuel cmp xs st s) (\<lambda>(ys, s). mset ys = mset xs \<and> ordered_but [] ys)"
  using assms
proof (induction fuel arbitrary: xs st s)
  case 0
  then show ?case by (cases st) (auto simp: pending_def)
next
  case (Suc fuel)
  show ?case
  proof (cases st)
    case Nil
    then show ?thesis using Suc.prems by (simp add: pending_def)
  next
    case (Cons e st1)
    obtain ptr n d where e: "e = (ptr, n, d)" by (cases e)
    note pend = Suc.prems(1) [unfolded Cons e]
    have "length st1 \<le> d" using pend by (simp add: pending_def)
    then obtain ys p' n' st' t d' where sp: "rq_split cmp xs ptr n d st1 s = Some (ys, p', n', st', t)"
        "mset ys = mset xs" "stack_cost st' + 2 * n' \<le> stack_cost st1 + 2 * n" "pending ys ((p', n', d') # st')"
      using okw_ex [OF rq_split_ok [OF pend, of s]] by auto
    have len: "p' + n' \<le> length ys" using sp(4) by (simp add: pending_def)
    have "sorted_but ys p' (p' + 1) (p' + 1)" by (auto simp: sorted_but_def)
    then obtain zs u where ins: "insertion_sort cmp ys p' (p' + 1) (p' + n') t = Some (zs, u)"
        "sorted_but zs p' (p' + n') (p' + n')" "perm_on p' (p' + n') ys zs"
      using okw_ex [OF insertion_sort_ok [of ys p' "p' + 1" "p' + n'" t]] len by auto
    have "pending zs st'"
      by (rule pending_done [OF sp(4) ins(3)]) (use ins(2) in \<open>auto simp: sorted_but_def\<close>)
    then have "okw (rqsort_loop fuel cmp zs st' u) (\<lambda>(vs, s). mset vs = mset zs \<and> ordered_but [] vs)"
      using sp(3) Suc.prems(2) Cons e by (intro Suc.IH) auto
    then show ?thesis
      using sp ins Cons e by (auto simp: perm_on_def elim!: okw_mono)
  qed
qed

theorem rqsort_ok:
  "okw (rqsort cmp xs s) (\<lambda>(ys, s). mset ys = mset xs \<and> sorted_wrt le ys)"
proof (cases "length xs < 2")
  case True
  then have "sorted_wrt le xs" by (cases xs; cases "tl xs") auto
  then show ?thesis using True by (simp add: rqsort_def)
next
  case False
  have "pending xs [(0, length xs, 0)]"
    by (auto simp: pending_def ordered_but_def in_seg_def)
  then have "okw (rqsort_loop (2 * length xs + 1) cmp xs [(0, length xs, 0)] s)
      (\<lambda>(ys, s). mset ys = mset xs \<and> ordered_but [] ys)"
    by (intro rqsort_loop_ok) auto
  then show ?thesis
    using False by (auto simp: rqsort_def ordered_but_def sorted_wrt_iff_nth_less elim!: okw_mono)
qed

end

end
