(* ===== verification/Typed_Array_Sort.thy ===== *)
theory Typed_Array_Sort
  imports Rqsort_Main
begin

text \<open>
  \<open>TypedArray.prototype.sort\<close> of \<^verbatim>\<open>quickjs.c\<close>: the comparison functions \<open>js_TA_cmp_*\<close> of the
  element types, the comparison through a JavaScript function with its exception flag and its
  tie-break on the positions, and \<open>js_typed_array_sort\<close>, all running on \<open>rqsort\<close>.

  An element is the list of its bytes (little endian). The JavaScript function is a parameter: it
  may change the array and the rest of the world (\<open>'w\<close>), fail, or return a value; \<open>to_float64\<close>
  stands for \<open>JS_ToFloat64Free\<close> (the sign of the number, or failure) and \<open>valid\<close> for
  \<open>validate_typed_array\<close>. The two allocations are flags.
\<close>

section \<open>Elements\<close>

primrec le_val :: "u8 list \<Rightarrow> nat" where
  "le_val [] = 0"
| "le_val (b # bs) = unat b + 256 * le_val bs"

definition word_at :: "u8 list \<Rightarrow> 'n::len word" where
  "word_at e = of_nat (le_val e)"

text \<open>An IEEE number as far as its order matters: a NaN, or the sign and the magnitude bits, which
  grow with the absolute value. The conversion from \<open>float\<close> to \<open>double\<close> keeps sign and order.\<close>

datatype ieee = NaN | Num (signbit: bool) (magnitude: nat)

definition ieee_of :: "nat \<Rightarrow> nat \<Rightarrow> nat \<Rightarrow> ieee" where
  "ieee_of expbits fracbits v =
     (let m = v mod 2 ^ (expbits + fracbits) in
      if m > (2 ^ expbits - 1) * 2 ^ fracbits then NaN
      else Num (v div 2 ^ (expbits + fracbits) mod 2 = 1) m)"

definition float_at :: "u8 list \<Rightarrow> ieee" where
  "float_at e = ieee_of 8 23 (le_val e)"

definition double_at :: "u8 list \<Rightarrow> ieee" where
  "double_at e = ieee_of 11 52 (le_val e)"

definition ieee_val :: "ieee \<Rightarrow> int" where
  "ieee_val x = (if signbit x then - int (magnitude x) else int (magnitude x))"

definition js_cmp_doubles :: "ieee \<Rightarrow> ieee \<Rightarrow> int" where
  "js_cmp_doubles x y =
     (if x = NaN then (if y = NaN then 0 else 1)
      else if y = NaN then - 1
      else if ieee_val x < ieee_val y then - 1
      else if ieee_val x > ieee_val y then 1
      else if ieee_val x \<noteq> 0 then 0
      else if signbit x then (if signbit y then 0 else - 1)
      else (if signbit y then 1 else 0))"

section \<open>Comparison functions\<close>

type_synonym elt = "u8 list"

definition js_TA_cmp_int8 :: "elt \<Rightarrow> elt \<Rightarrow> int" where
  "js_TA_cmp_int8 a b = sint (word_at a :: 8 word) - sint (word_at b :: 8 word)"

definition js_TA_cmp_uint8 :: "elt \<Rightarrow> elt \<Rightarrow> int" where
  "js_TA_cmp_uint8 a b = uint (word_at a :: 8 word) - uint (word_at b :: 8 word)"

definition js_TA_cmp_int16 :: "elt \<Rightarrow> elt \<Rightarrow> int" where
  "js_TA_cmp_int16 a b = sint (word_at a :: 16 word) - sint (word_at b :: 16 word)"

definition js_TA_cmp_uint16 :: "elt \<Rightarrow> elt \<Rightarrow> int" where
  "js_TA_cmp_uint16 a b = uint (word_at a :: 16 word) - uint (word_at b :: 16 word)"

definition js_TA_cmp_int32 :: "elt \<Rightarrow> elt \<Rightarrow> int" where
  "js_TA_cmp_int32 a b = (let x = sint (word_at a :: 32 word); y = sint (word_at b :: 32 word) in
     of_bool (y < x) - of_bool (y > x))"

definition js_TA_cmp_uint32 :: "elt \<Rightarrow> elt \<Rightarrow> int" where
  "js_TA_cmp_uint32 a b = (let x = word_at a :: 32 word; y = word_at b :: 32 word in
     of_bool (y < x) - of_bool (y > x))"

definition js_TA_cmp_int64 :: "elt \<Rightarrow> elt \<Rightarrow> int" where
  "js_TA_cmp_int64 a b = (let x = sint (word_at a :: 64 word); y = sint (word_at b :: 64 word) in
     of_bool (y < x) - of_bool (y > x))"

definition js_TA_cmp_uint64 :: "elt \<Rightarrow> elt \<Rightarrow> int" where
  "js_TA_cmp_uint64 a b = (let x = word_at a :: 64 word; y = word_at b :: 64 word in
     of_bool (y < x) - of_bool (y > x))"

definition js_TA_cmp_float32 :: "elt \<Rightarrow> elt \<Rightarrow> int" where
  "js_TA_cmp_float32 a b = js_cmp_doubles (float_at a) (float_at b)"

definition js_TA_cmp_float64 :: "elt \<Rightarrow> elt \<Rightarrow> int" where
  "js_TA_cmp_float64 a b = js_cmp_doubles (double_at a) (double_at b)"

datatype ta_class =
    JS_CLASS_UINT8C_ARRAY | JS_CLASS_INT8_ARRAY | JS_CLASS_UINT8_ARRAY | JS_CLASS_INT16_ARRAY
  | JS_CLASS_UINT16_ARRAY | JS_CLASS_INT32_ARRAY | JS_CLASS_UINT32_ARRAY | JS_CLASS_BIG_INT64_ARRAY
  | JS_CLASS_BIG_UINT64_ARRAY | JS_CLASS_FLOAT32_ARRAY | JS_CLASS_FLOAT64_ARRAY

fun ta_cmpfun :: "ta_class \<Rightarrow> elt \<Rightarrow> elt \<Rightarrow> int" where
  "ta_cmpfun JS_CLASS_INT8_ARRAY = js_TA_cmp_int8"
| "ta_cmpfun JS_CLASS_UINT8C_ARRAY = js_TA_cmp_uint8"
| "ta_cmpfun JS_CLASS_UINT8_ARRAY = js_TA_cmp_uint8"
| "ta_cmpfun JS_CLASS_INT16_ARRAY = js_TA_cmp_int16"
| "ta_cmpfun JS_CLASS_UINT16_ARRAY = js_TA_cmp_uint16"
| "ta_cmpfun JS_CLASS_INT32_ARRAY = js_TA_cmp_int32"
| "ta_cmpfun JS_CLASS_UINT32_ARRAY = js_TA_cmp_uint32"
| "ta_cmpfun JS_CLASS_BIG_INT64_ARRAY = js_TA_cmp_int64"
| "ta_cmpfun JS_CLASS_BIG_UINT64_ARRAY = js_TA_cmp_uint64"
| "ta_cmpfun JS_CLASS_FLOAT32_ARRAY = js_TA_cmp_float32"
| "ta_cmpfun JS_CLASS_FLOAT64_ARRAY = js_TA_cmp_float64"

section \<open>The values handed to the JavaScript function\<close>

datatype js_num = JsInt int | JsFloat ieee | JsBigInt int

fun ta_getfun :: "ta_class \<Rightarrow> elt \<Rightarrow> js_num" where
  "ta_getfun JS_CLASS_INT8_ARRAY a = JsInt (sint (word_at a :: 8 word))"
| "ta_getfun JS_CLASS_UINT8C_ARRAY a = JsInt (uint (word_at a :: 8 word))"
| "ta_getfun JS_CLASS_UINT8_ARRAY a = JsInt (uint (word_at a :: 8 word))"
| "ta_getfun JS_CLASS_INT16_ARRAY a = JsInt (sint (word_at a :: 16 word))"
| "ta_getfun JS_CLASS_UINT16_ARRAY a = JsInt (uint (word_at a :: 16 word))"
| "ta_getfun JS_CLASS_INT32_ARRAY a = JsInt (sint (word_at a :: 32 word))"
| "ta_getfun JS_CLASS_UINT32_ARRAY a = JsInt (uint (word_at a :: 32 word))"
| "ta_getfun JS_CLASS_BIG_INT64_ARRAY a = JsBigInt (sint (word_at a :: 64 word))"
| "ta_getfun JS_CLASS_BIG_UINT64_ARRAY a = JsBigInt (uint (word_at a :: 64 word))"
| "ta_getfun JS_CLASS_FLOAT32_ARRAY a = JsFloat (float_at a)"
| "ta_getfun JS_CLASS_FLOAT64_ARRAY a = JsFloat (double_at a)"

datatype 'r call_result = CallException | CallInt int | CallOther 'r

type_synonym 'w ta_heap = "elt list \<times> 'w"
type_synonym ('r, 'w) js_callback = "js_num \<Rightarrow> js_num \<Rightarrow> 'w ta_heap \<Rightarrow> 'r call_result \<times> 'w ta_heap"
type_synonym ('r, 'w) js_to_float64 = "'r \<Rightarrow> 'w ta_heap \<Rightarrow> int option \<times> 'w ta_heap"

text \<open>\<open>struct TA_sort_context\<close>, with the memory of the array and the rest of the world. A read of the
  array outside its memory sets \<open>ta_fault\<close>.\<close>

record 'w ta_sort_context =
  ta_exception :: bool
  ta_mem :: "elt list"
  ta_world :: 'w
  ta_fault :: bool

definition ta_cmp_done ::
  "('w \<Rightarrow> bool) \<Rightarrow> nat \<Rightarrow> nat \<Rightarrow> int \<Rightarrow> 'w ta_sort_context \<Rightarrow> int \<times> 'w ta_sort_context" where
  "ta_cmp_done valid a_idx b_idx cmp st =
     (if cmp = 0 then of_bool (a_idx > b_idx) - of_bool (a_idx < b_idx) else cmp,
      if valid (ta_world st) then st else st\<lparr>ta_exception := True\<rparr>)"

definition js_TA_cmp_generic ::
  "(elt \<Rightarrow> js_num) \<Rightarrow> ('r, 'w) js_callback \<Rightarrow> ('r, 'w) js_to_float64 \<Rightarrow> ('w \<Rightarrow> bool)
    \<Rightarrow> (nat, 'w ta_sort_context) cmp_f" where
  "js_TA_cmp_generic getfun call to_float64 valid a_idx b_idx st =
     (if ta_exception st then (0, st)
      else case (rd (ta_mem st) a_idx, rd (ta_mem st) b_idx) of
        (Some x, Some y) \<Rightarrow>
          (case call (getfun x) (getfun y) (ta_mem st, ta_world st) of
             (CallException, m, w) \<Rightarrow> (0, st\<lparr>ta_exception := True, ta_mem := m, ta_world := w\<rparr>)
           | (CallInt v, m, w) \<Rightarrow>
               ta_cmp_done valid a_idx b_idx (of_bool (v > 0) - of_bool (v < 0)) (st\<lparr>ta_mem := m, ta_world := w\<rparr>)
           | (CallOther r, m, w) \<Rightarrow>
               (case to_float64 r (m, w) of
                  (None, m, w) \<Rightarrow> (0, st\<lparr>ta_exception := True, ta_mem := m, ta_world := w\<rparr>)
                | (Some v, m, w) \<Rightarrow>
                    ta_cmp_done valid a_idx b_idx (of_bool (v > 0) - of_bool (v < 0))
                      (st\<lparr>ta_mem := m, ta_world := w\<rparr>)))
      | _ \<Rightarrow> (0, st\<lparr>ta_fault := True\<rparr>))"

fun copy_back :: "elt list \<Rightarrow> nat list \<Rightarrow> nat \<Rightarrow> elt list \<Rightarrow> elt list option" where
  "copy_back array_tmp [] i arr = Some arr"
| "copy_back array_tmp (j # idx) i arr = do {
     x \<leftarrow> rd array_tmp j;
     if i < length arr then copy_back array_tmp idx (i + 1) (arr[i := x]) else None }"

datatype sort_result = SortException | SortDone

text \<open>The array of class \<open>cls\<close> has the memory \<open>mem\<close>; \<open>cmp\<close> is the optional argument.\<close>

definition js_typed_array_sort ::
  "ta_class \<Rightarrow> ('f \<Rightarrow> bool) \<Rightarrow> ('f \<Rightarrow> ('r, 'w) js_callback) \<Rightarrow> ('r, 'w) js_to_float64 \<Rightarrow> ('w \<Rightarrow> bool)
    \<Rightarrow> bool \<Rightarrow> bool \<Rightarrow> 'f option \<Rightarrow> 'w ta_heap \<Rightarrow> (sort_result \<times> 'w ta_heap) option" where
  "js_typed_array_sort cls is_function call to_float64 valid malloc_idx malloc_tmp cmp h =
     (let (mem, w) = h; len = length mem in
      if \<not> valid w then Some (SortException, h)
      else if (case cmp of None \<Rightarrow> False | Some f \<Rightarrow> \<not> is_function f) then Some (SortException, h)
      else if len > 1 then
        (case cmp of
           Some f \<Rightarrow>
             if \<not> malloc_idx then Some (SortException, h)
             else do {
               (idx, st) \<leftarrow> rqsort (js_TA_cmp_generic (ta_getfun cls) (call f) to_float64 valid) [0..<len]
                 \<lparr>ta_exception = False, ta_mem = mem, ta_world = w, ta_fault = False\<rparr>;
               if ta_fault st then None
               else if ta_exception st \<or> \<not> malloc_tmp then Some (SortException, ta_mem st, ta_world st)
               else do {
                 m \<leftarrow> copy_back (ta_mem st) idx 0 (ta_mem st);
                 Some (SortDone, m, ta_world st) } }
         | None \<Rightarrow> do {
             (m, u) \<leftarrow> rqsort (\<lambda>a b u. (ta_cmpfun cls a b, u)) mem ();
             Some (SortDone, m, w) })
      else Some (SortDone, h))"

end
