(* ===== verification/Rqsort_State.thy ===== *)
theory Rqsort_State
  imports Rqsort_Main
begin

text \<open>
  The state of the comparison function. \<open>rqsort\<close> only touches it by calling the function on elements
  of the array, so an invariant that the calls keep holds at the end, and two functions that agree
  as long as the invariant holds give the same run (\<open>rqsort_same\<close>). The order laws of the interface
  \<open>comparison\<close> are then only needed under the invariant (\<open>rqsort_inv_ok\<close>).
\<close>

text \<open>Equal computations whose result, if any, satisfies a predicate.\<close>

definition same :: "'a option \<Rightarrow> 'a option \<Rightarrow> ('a \<Rightarrow> bool) \<Rightarrow> bool" where
  "same m m' Q \<longleftrightarrow> m = m' \<and> (\<forall>x. m = Some x \<longrightarrow> Q x)"

lemma same_Some: "Q x \<Longrightarrow> same (Some x) (Some x) Q"
  by (simp add: same_def)

lemma same_None: "same None None Q"
  by (simp add: same_def)

lemma same_bind:
  assumes "same m m' Q" and "\<And>x. m = Some x \<Longrightarrow> Q x \<Longrightarrow> same (f x) (f' x) R"
  shows "same (m \<bind> f) (m' \<bind> f') R"
  using assms by (cases m) (auto simp: same_def)

lemma same_if: "(b \<Longrightarrow> same m m' Q) \<Longrightarrow> (\<not> b \<Longrightarrow> same n n' Q) \<Longrightarrow> same (if b then m else n) (if b then m' else n') Q"
  by simp

lemma same_split: "(\<And>a b. x = (a, b) \<Longrightarrow> same (f a b) (f' a b) Q) \<Longrightarrow> same (case x of (a, b) \<Rightarrow> f a b) (case x of (a, b) \<Rightarrow> f' a b) Q"
  by (cases x) simp

lemma same_swap: "set xs \<subseteq> A \<Longrightarrow> same (swap xs i j) (swap xs i j) (\<lambda>ys. set ys \<subseteq> A)"
  by (auto simp: same_def swap_def rd_def split: if_splits dest!: set_update_subset_insert [THEN subsetD])

lemma same_swap_block: "set xs \<subseteq> A \<Longrightarrow> same (swap_block xs a b n) (swap_block xs a b n) (\<lambda>ys. set ys \<subseteq> A)"
proof (induction n arbitrary: xs a b)
  case (Suc n)
  then show ?case using same_bind [OF same_swap [OF Suc.prems] Suc.IH] by simp
qed (simp add: same_Some)

locale agreeing =
  fixes cmp cmp' :: "('a, 's) cmp_f" and inv :: "'s \<Rightarrow> bool" and A :: "'a set"
  assumes agree: "inv s \<Longrightarrow> x \<in> A \<Longrightarrow> y \<in> A \<Longrightarrow> cmp x y s = cmp' x y s"
    and keeps: "inv s \<Longrightarrow> x \<in> A \<Longrightarrow> y \<in> A \<Longrightarrow> inv (snd (cmp x y s))"
begin

definition good :: "'a list \<times> 's \<Rightarrow> bool" where
  "good r \<longleftrightarrow> set (fst r) \<subseteq> A \<and> inv (snd r)"

lemma same_cmp_at:
  "set xs \<subseteq> A \<Longrightarrow> inv s \<Longrightarrow> same (cmp_at cmp xs i j s) (cmp_at cmp' xs i j s) (\<lambda>r. inv (snd r))"
  using agree [of s "xs ! i" "xs ! j"] keeps [of s "xs ! i" "xs ! j"]
  by (auto simp: same_def cmp_at_def rd_def subset_iff split: if_splits)

lemma same_larger_child:
  "set xs \<subseteq> A \<Longrightarrow> inv s \<Longrightarrow> same (larger_child cmp xs lo c n s) (larger_child cmp' xs lo c n s) (\<lambda>r. inv (snd r))"
  unfolding larger_child_def
  by (auto intro!: same_Some same_bind [OF same_cmp_at])

lemma same_med3:
  "set xs \<subseteq> A \<Longrightarrow> inv s \<Longrightarrow> same (med3 cmp xs a b c s) (med3 cmp' xs a b c s) (\<lambda>r. inv (snd r))"
  unfolding med3_def
  by (auto intro!: same_Some same_bind [OF same_cmp_at])

lemma same_sift_down:
  "set xs \<subseteq> A \<Longrightarrow> inv s \<Longrightarrow> same (sift_down cmp xs lo r n s) (sift_down cmp' xs lo r n s) good"
proof (induction cmp\<equiv>cmp xs lo r n s rule: sift_down.induct)
  case (1 xs lo r n s)
  show ?case
    unfolding sift_down.simps [of cmp xs lo r n s] sift_down.simps [of cmp' xs lo r n s]
    using 1(2,3)
    by (auto intro!: same_Some same_bind [OF same_larger_child] same_bind [OF same_cmp_at]
        same_bind [OF same_swap [where A = A]] 1(1) [simplified] simp: good_def)
qed

lemma same_heapify:
  "set xs \<subseteq> A \<Longrightarrow> inv s \<Longrightarrow> same (heapify cmp xs lo i n s) (heapify cmp' xs lo i n s) good"
  by (induction i arbitrary: xs s)
    (auto intro!: same_Some same_bind [OF same_sift_down] simp: good_def)

lemma same_extract_all:
  "set xs \<subseteq> A \<Longrightarrow> inv s \<Longrightarrow> same (extract_all cmp xs lo i s) (extract_all cmp' xs lo i s) good"
  by (induction i arbitrary: xs s)
    (auto intro!: same_Some same_bind [OF same_swap [where A = A]] same_bind [OF same_sift_down] simp: good_def)

lemma same_heapsortx:
  "set xs \<subseteq> A \<Longrightarrow> inv s \<Longrightarrow> same (heapsortx cmp xs lo n s) (heapsortx cmp' xs lo n s) good"
  unfolding heapsortx_def
  by (auto intro!: same_Some same_bind [OF same_heapify] same_extract_all simp: good_def)

lemma same_insert_down:
  "set xs \<subseteq> A \<Longrightarrow> inv s \<Longrightarrow> same (insert_down cmp xs ptr pj s) (insert_down cmp' xs ptr pj s) good"
proof (induction cmp\<equiv>cmp xs ptr pj s rule: insert_down.induct)
  case (1 xs ptr pj s)
  show ?case
    unfolding insert_down.simps [of cmp xs ptr pj s] insert_down.simps [of cmp' xs ptr pj s]
    using 1(2,3)
    by (auto intro!: same_Some same_bind [OF same_cmp_at] same_bind [OF same_swap [where A = A]] 1(1) [simplified]
        simp: good_def)
qed

lemma same_insertion_sort:
  "set xs \<subseteq> A \<Longrightarrow> inv s \<Longrightarrow> same (insertion_sort cmp xs ptr pi hi s) (insertion_sort cmp' xs ptr pi hi s) good"
proof (induction cmp\<equiv>cmp xs ptr pi hi s rule: insertion_sort.induct)
  case (1 xs ptr pi hi s)
  show ?case
    unfolding insertion_sort.simps [of cmp xs ptr pi hi s] insertion_sort.simps [of cmp' xs ptr pi hi s]
    using 1(2,3)
    by (auto intro!: same_Some same_bind [OF same_insert_down] 1(1) [simplified] simp: good_def)
qed

definition good3 :: "'a list \<times> 'b \<times> 'c \<times> 's \<Rightarrow> bool" where
  "good3 = (\<lambda>(xs, _, _, s). set xs \<subseteq> A \<and> inv s)"

definition good4 :: "'a list \<times> 'b \<times> 'c \<times> 'd \<times> 's \<Rightarrow> bool" where
  "good4 = (\<lambda>(xs, _, _, _, s). set xs \<subseteq> A \<and> inv s)"

lemma good_simps:
  "good3 (xs, a, b, s) \<longleftrightarrow> set xs \<subseteq> A \<and> inv s"
  "good4 (ys, c, d, e, t) \<longleftrightarrow> set ys \<subseteq> A \<and> inv t"
  by (simp_all add: good3_def good4_def)

lemma same_left_scan:
  "set xs \<subseteq> A \<Longrightarrow> inv s \<Longrightarrow> same (left_scan cmp ptr xs pi pj plt s) (left_scan cmp' ptr xs pi pj plt s) good3"
proof (induction cmp\<equiv>cmp ptr xs pi pj plt s rule: left_scan.induct)
  case (1 ptr xs pi pj plt s)
  show ?case
    unfolding left_scan.simps [of cmp ptr xs pi pj plt s] left_scan.simps [of cmp' ptr xs pi pj plt s]
    using 1(3,4)
    by (auto intro!: same_Some same_bind [OF same_cmp_at] same_bind [OF same_swap [where A = A]] 1(1,2) [simplified]
        simp: good_simps)
qed

lemma same_right_scan:
  "set xs \<subseteq> A \<Longrightarrow> inv s \<Longrightarrow> same (right_scan cmp ptr xs pi pj pgt s) (right_scan cmp' ptr xs pi pj pgt s) good3"
proof (induction cmp\<equiv>cmp ptr xs pi pj pgt s rule: right_scan.induct)
  case (1 ptr xs pi pj pgt s)
  show ?case
    unfolding right_scan.simps [of cmp ptr xs pi pj pgt s] right_scan.simps [of cmp' ptr xs pi pj pgt s]
    using 1(3,4)
    by (auto intro!: same_Some same_bind [OF same_cmp_at] same_bind [OF same_swap [where A = A]] 1(1,2) [simplified]
        simp: good_simps Let_def)
qed

lemma same_partition_loop:
  "set xs \<subseteq> A \<Longrightarrow> inv s \<Longrightarrow>
    same (partition_loop fuel cmp ptr xs pi pj plt pgt s) (partition_loop fuel cmp' ptr xs pi pj plt pgt s) good4"
  by (induction fuel arbitrary: xs pi pj plt pgt s)
    (auto intro!: same_Some same_None same_bind [OF same_left_scan] same_bind [OF same_right_scan]
      same_bind [OF same_swap [where A = A]] simp: good_simps partition_loop.simps)

lemma same_rq_partition:
  "set xs \<subseteq> A \<Longrightarrow> inv s \<Longrightarrow> same (rq_partition cmp xs ptr n s) (rq_partition cmp' xs ptr n s) good4"
  unfolding rq_partition_def Let_def
  by (auto intro!: same_Some same_bind [OF same_med3] same_bind [OF same_partition_loop]
      same_bind [OF same_swap [where A = A]] same_bind [OF same_swap_block [where A = A]] simp: good_simps)

lemma same_push: "same (push_segment st e) (push_segment st e) (\<lambda>_. True)"
  by (simp add: same_def)

lemma same_rq_split:
  "set xs \<subseteq> A \<Longrightarrow> inv s \<Longrightarrow> same (rq_split cmp xs ptr n d st s) (rq_split cmp' xs ptr n d st s) good4"
proof (induction cmp\<equiv>cmp xs ptr n d st s rule: rq_split.induct)
  case (1 xs ptr n d st s)
  show ?case
    unfolding rq_split.simps [of cmp xs ptr n d st s] rq_split.simps [of cmp' xs ptr n d st s]
    using 1(3,4)
    by (auto intro!: same_Some same_bind [OF same_heapsortx] same_bind [OF same_rq_partition]
        same_bind [OF same_push] 1(1,2) [simplified] simp: good_def good_simps)
qed

lemma same_rqsort_loop:
  "set xs \<subseteq> A \<Longrightarrow> inv s \<Longrightarrow> same (rqsort_loop fuel cmp xs st s) (rqsort_loop fuel cmp' xs st s) good"
  by (induction fuel cmp\<equiv>cmp xs st s rule: rqsort_loop.induct)
    (auto intro!: same_Some same_None same_bind [OF same_rq_split] same_bind [OF same_insertion_sort]
      simp: good_def good_simps)

lemma rqsort_same:
  "set xs \<subseteq> A \<Longrightarrow> inv s \<Longrightarrow> same (rqsort cmp xs s) (rqsort cmp' xs s) good"
  unfolding rqsort_def by (intro same_if same_Some same_rqsort_loop) (auto simp: good_def)

lemma rqsort_keeps:
  assumes "set xs \<subseteq> A" and "inv s"
  shows "rqsort cmp xs s = rqsort cmp' xs s" and "rqsort cmp xs s = Some (ys, t) \<Longrightarrow> inv t"
  using rqsort_same [OF assms] by (auto simp: same_def good_def)

end

theorem rqsort_inv_ok:
  fixes cmp :: "('a, 's) cmp_f" and I :: "'s \<Rightarrow> bool"
  assumes laws: "\<And>x y s. I s \<Longrightarrow> x \<in> set xs \<Longrightarrow> y \<in> set xs \<Longrightarrow>
      I (snd (cmp x y s)) \<and> (fst (cmp x y s) \<le> 0 \<longrightarrow> le x y) \<and> (0 \<le> fst (cmp x y s) \<longrightarrow> le y x)"
    and le: "\<And>x y. le x y \<or> le y x" "\<And>x y z. le x y \<Longrightarrow> le y z \<Longrightarrow> le x z"
    and s: "I s"
  shows "okw (rqsort cmp xs s) (\<lambda>(ys, t). mset ys = mset xs \<and> sorted_wrt le ys \<and> I t)"
proof -
  define cmp' :: "('a, 's) cmp_f" where
    "cmp' = (\<lambda>x y s. if I s \<and> x \<in> set xs \<and> y \<in> set xs then cmp x y s
        else (if \<not> le y x then - 1 else if \<not> le x y then 1 else 0, s))"
  have "agreeing cmp cmp' I (set xs)"
    by unfold_locales (use laws in \<open>auto simp: cmp'_def\<close>)
  note same = agreeing.rqsort_keeps [OF this, of xs s, OF _ s, simplified]
  have "comparison cmp' le"
  proof
    fix x y z s
    show "fst (cmp' x y s) \<le> 0 \<Longrightarrow> le x y" "0 \<le> fst (cmp' x y s) \<Longrightarrow> le y x"
      using laws [of s x y] le(1) [of x y] by (auto simp: cmp'_def split: if_splits)
  qed (use le in blast)+
  from comparison.rqsort_ok [OF this, of xs s]
  show ?thesis using same by (auto dest!: okw_ex)
qed

end
