(* ===== verification/Typed_Array_Spec.thy ===== *)
theory Typed_Array_Spec
  imports Typed_Array_Sort Rqsort_State
begin

text \<open>
  The results about \<open>rqsort\<close> and \<open>TypedArray.prototype.sort\<close>: the interpretations of the sorting
  interfaces on the comparison functions of the engine, and what the caller of the sort gets.
\<close>

section \<open>The order of each element type\<close>

fun ieee_le :: "ieee \<Rightarrow> ieee \<Rightarrow> bool" where
  "ieee_le x NaN = True"
| "ieee_le NaN (Num s m) = False"
| "ieee_le (Num s m) (Num s' m') =
     ((if s then - int m - 1 else int m) \<le> (if s' then - int m' - 1 else int m'))"

fun ta_le :: "ta_class \<Rightarrow> elt \<Rightarrow> elt \<Rightarrow> bool" where
  "ta_le JS_CLASS_INT8_ARRAY a b = (sint (word_at a :: 8 word) \<le> sint (word_at b :: 8 word))"
| "ta_le JS_CLASS_UINT8C_ARRAY a b = ((word_at a :: 8 word) \<le> word_at b)"
| "ta_le JS_CLASS_UINT8_ARRAY a b = ((word_at a :: 8 word) \<le> word_at b)"
| "ta_le JS_CLASS_INT16_ARRAY a b = (sint (word_at a :: 16 word) \<le> sint (word_at b :: 16 word))"
| "ta_le JS_CLASS_UINT16_ARRAY a b = ((word_at a :: 16 word) \<le> word_at b)"
| "ta_le JS_CLASS_INT32_ARRAY a b = (sint (word_at a :: 32 word) \<le> sint (word_at b :: 32 word))"
| "ta_le JS_CLASS_UINT32_ARRAY a b = ((word_at a :: 32 word) \<le> word_at b)"
| "ta_le JS_CLASS_BIG_INT64_ARRAY a b = (sint (word_at a :: 64 word) \<le> sint (word_at b :: 64 word))"
| "ta_le JS_CLASS_BIG_UINT64_ARRAY a b = ((word_at a :: 64 word) \<le> word_at b)"
| "ta_le JS_CLASS_FLOAT32_ARRAY a b = ieee_le (float_at a) (float_at b)"
| "ta_le JS_CLASS_FLOAT64_ARRAY a b = ieee_le (double_at a) (double_at b)"

lemma js_cmp_doubles_le: "js_cmp_doubles x y \<le> 0 \<longleftrightarrow> ieee_le x y"
  by (cases x; cases y) (auto simp: js_cmp_doubles_def ieee_val_def)

lemma js_cmp_doubles_ge: "0 \<le> js_cmp_doubles x y \<longleftrightarrow> ieee_le y x"
  by (cases x; cases y) (auto simp: js_cmp_doubles_def ieee_val_def)

lemma ieee_le_refl: "ieee_le x x"
  by (cases x) auto

lemma ieee_le_trans: "ieee_le x y \<Longrightarrow> ieee_le y z \<Longrightarrow> ieee_le x z"
  by (cases x; cases y; cases z) (auto split: if_splits)

lemmas js_TA_cmp_defs =
  js_TA_cmp_int8_def js_TA_cmp_uint8_def js_TA_cmp_int16_def js_TA_cmp_uint16_def js_TA_cmp_int32_def
  js_TA_cmp_uint32_def js_TA_cmp_int64_def js_TA_cmp_uint64_def js_TA_cmp_float32_def js_TA_cmp_float64_def

lemma of_bool_diff: "(of_bool p - of_bool q :: int) \<le> 0 \<longleftrightarrow> (p \<longrightarrow> q)" "0 \<le> (of_bool p - of_bool q :: int) \<longleftrightarrow> (q \<longrightarrow> p)"
  by (simp_all add: of_bool_def)

lemma ta_cmpfun_le: "ta_cmpfun cls a b \<le> 0 \<longleftrightarrow> ta_le cls a b"
  by (cases cls) (auto simp: js_TA_cmp_defs js_cmp_doubles_le word_le_def word_less_def of_bool_diff Let_def)

lemma ta_cmpfun_ge: "0 \<le> ta_cmpfun cls a b \<longleftrightarrow> ta_le cls b a"
  by (cases cls) (auto simp: js_TA_cmp_defs js_cmp_doubles_ge word_le_def word_less_def of_bool_diff Let_def)

lemma ta_le_refl: "ta_le cls a a"
  by (cases cls) (auto simp: ieee_le_refl)

lemma ta_le_trans: "ta_le cls a b \<Longrightarrow> ta_le cls b c \<Longrightarrow> ta_le cls a c"
  by (cases cls) (auto intro: ieee_le_trans order_trans)

interpretation ta: comparison "\<lambda>a b u. (ta_cmpfun cls a b, u)" "ta_le cls" for cls
  by unfold_locales (auto simp: ta_cmpfun_le ta_cmpfun_ge intro: ta_le_refl ta_le_trans)

interpretation any_order: comparison cmp "\<lambda>_ _. True" for cmp :: "('a, 's) cmp_f"
  by unfold_locales auto

text \<open>Once an exception is recorded, the comparison through a callback is the constant 0.\<close>

interpretation after_exception: agreeing
    "js_TA_cmp_generic getfun call to_float64 valid" "\<lambda>_ _ st. (0, st)"
    "\<lambda>s. s = st \<and> ta_exception st" UNIV
  for getfun call to_float64 valid st
  by unfold_locales (auto simp: js_TA_cmp_generic_def)

section \<open>Results\<close>

text \<open>C22: Whatever the comparison function answers and does to its own state, \<open>rqsort\<close> returns, never
  reads or writes outside the array, never needs more than its 50 stack entries, and leaves a
  rearrangement of the array.\<close>

theorem rqsort_total: "\<exists>ys t. rqsort cmp xs s = Some (ys, t) \<and> mset ys = mset xs"
  using okw_ex [OF any_order.rqsort_ok, of cmp xs s] by auto

text \<open>C23: Without a comparison argument, \<open>TypedArray.prototype.sort\<close> sorts the elements of a valid
  array in the order of their type: signed, unsigned, or for floating point numbers the numeric
  order with \<open>-0\<close> before \<open>+0\<close> and the NaNs at the end.\<close>

theorem typed_array_sort_numeric:
  assumes "valid w"
  shows "\<exists>ys. js_typed_array_sort cls is_function call to_float64 valid m1 m2 None (mem, w) = Some (SortDone, ys, w)
    \<and> mset ys = mset mem \<and> sorted_wrt (ta_le cls) ys"
proof (cases "length mem > 1")
  case True
  then show ?thesis
    using okw_ex [OF ta.rqsort_ok, of cls mem "()"] assms
    by (auto simp: js_typed_array_sort_def Let_def)
next
  case False
  then have "sorted_wrt (ta_le cls) mem" by (cases mem; cases "tl mem") auto
  then show ?thesis using False assms by (auto simp: js_typed_array_sort_def Let_def)
qed

theorem typed_array_sort_numeric_witness:
  "\<exists>ys. js_typed_array_sort JS_CLASS_INT8_ARRAY (\<lambda>f :: unit. True)
       (\<lambda>f x y h. (CallException :: unit call_result, h)) (\<lambda>r h. (None, h)) (\<lambda>w :: nat. True) True True
       None ([[200], [3], [127]], 0) = Some (SortDone, ys, 0)
    \<and> mset ys = mset [[200], [3], [127]] \<and> sorted_wrt (ta_le JS_CLASS_INT8_ARRAY) ys"
  by (rule typed_array_sort_numeric) simp



lemma copy_back_eq:
  "(\<forall>j\<in>set idx. j < length tmp) \<Longrightarrow> i + length idx \<le> length arr \<Longrightarrow>
    copy_back tmp idx i arr = Some (take i arr @ map (\<lambda>j. tmp ! j) idx @ drop (i + length idx) arr)"
proof (induction idx arbitrary: i arr)
  case (Cons j idx)
  then have "copy_back tmp idx (i + 1) (arr[i := tmp ! j]) =
      Some (take (i + 1) (arr[i := tmp ! j]) @ map (\<lambda>j. tmp ! j) idx @ drop (i + 1 + length idx) (arr[i := tmp ! j]))"
    by (intro Cons.IH) auto
  moreover have "take (i + 1) (arr[i := tmp ! j]) = take i arr @ [tmp ! j]"
    using Cons.prems(2) by (simp add: take_Suc_conv_app_nth)
  ultimately show ?case using Cons.prems by (simp add: rd_Some)
qed simp

lemma copy_back_all:
  assumes "mset idx = mset [0..<n]" and "length tmp = n"
  shows "copy_back tmp idx 0 tmp = Some (map (\<lambda>j. tmp ! j) idx)"
    and "mset (map (\<lambda>j. tmp ! j) idx) = mset tmp"
proof -
  have idx: "set idx = {0..<n}" "length idx = n"
    using mset_eq_setD [OF assms(1)] mset_eq_length [OF assms(1)] by auto
  then show "copy_back tmp idx 0 tmp = Some (map (\<lambda>j. tmp ! j) idx)"
    using copy_back_eq [of idx tmp 0 tmp] assms(2) by auto
  have "mset (map (\<lambda>j. tmp ! j) idx) = mset (map (\<lambda>j. tmp ! j) [0..<n])"
    using assms(1) by (metis mset_map)
  also have "map (\<lambda>j. tmp ! j) [0..<n] = tmp" using assms(2) map_nth [of tmp] by simp
  finally show "mset (map (\<lambda>j. tmp ! j) idx) = mset tmp" .
qed



text \<open>C24: With a callback that compares keys and has no side effects, \<open>TypedArray.prototype.sort\<close> is the
  stable sort by these keys: the tie-break on the positions makes the unstable \<open>rqsort\<close> stable.\<close>

theorem typed_array_sort_stable:
  fixes key :: "elt \<Rightarrow> 'k::linorder"
  assumes call: "\<And>a b h. \<exists>v. call f (ta_getfun cls a) (ta_getfun cls b) h = (CallInt v, h) \<and>
      (v < 0 \<longleftrightarrow> key a < key b) \<and> (v > 0 \<longleftrightarrow> key b < key a)"
    and ok: "valid w" "is_function f"
  shows "js_typed_array_sort cls is_function call to_float64 valid True True (Some f) (mem, w) =
    Some (SortDone, sort_key key mem, w)"
proof (cases "length mem > 1")
  case False
  then have "sort_key key mem = mem" by (cases mem; cases "tl mem") auto
  then show ?thesis using False ok by (simp add: js_typed_array_sort_def)
next
  case True
  let ?n = "length mem"
  let ?st = "\<lparr>ta_exception = False, ta_mem = mem, ta_world = w, ta_fault = False\<rparr>"
  let ?cmp = "js_TA_cmp_generic (ta_getfun cls) (call f) to_float64 valid"
  let ?k = "\<lambda>i. key (mem ! i)"
  let ?le = "\<lambda>i j. ?k i < ?k j \<or> ?k i = ?k j \<and> i \<le> j"
  have cmp: "snd (?cmp i j ?st) = ?st" "fst (?cmp i j ?st) \<le> 0 \<longleftrightarrow> ?le i j" "0 \<le> fst (?cmp i j ?st) \<longleftrightarrow> ?le j i"
    if ij: "i < ?n" "j < ?n" for i j
  proof -
    obtain v where "call f (ta_getfun cls (mem ! i)) (ta_getfun cls (mem ! j)) (mem, w) = (CallInt v, mem, w)"
      and v: "v < 0 \<longleftrightarrow> ?k i < ?k j" "v > 0 \<longleftrightarrow> ?k j < ?k i" using call [of "mem ! i" "mem ! j" "(mem, w)"] by auto
    then have "?cmp i j ?st = ta_cmp_done valid i j (of_bool (v > 0) - of_bool (v < 0)) ?st"
      using ij by (simp add: js_TA_cmp_generic_def rd_Some)
    then show "snd (?cmp i j ?st) = ?st" "fst (?cmp i j ?st) \<le> 0 \<longleftrightarrow> ?le i j" "0 \<le> fst (?cmp i j ?st) \<longleftrightarrow> ?le j i"
      using v ok(1) by (auto simp: ta_cmp_done_def of_bool_def)
  qed
  obtain idx where r: "rqsort ?cmp [0..<?n] ?st = Some (idx, ?st)" "mset idx = mset [0..<?n]" "sorted_wrt ?le idx"
    using okw_ex [OF rqsort_inv_ok [where I = "\<lambda>s. s = ?st" and le = ?le and cmp = ?cmp and xs = "[0..<?n]" and s = ?st]] cmp
    by fastforce
  have idx: "set idx = {0..<?n}" "distinct idx"
    using mset_eq_setD [OF r(2)] mset_eq_imp_distinct_iff [OF r(2)] by auto
  let ?ys = "map (\<lambda>j. mem ! j) idx"
  have "sort_key key mem = ?ys"
  proof (rule properties_for_sort_key)
    show "mset ?ys = mset mem" using copy_back_all(2) [OF r(2)] by simp
    have "sorted_wrt (\<lambda>i j. ?k i \<le> ?k j) idx" by (rule sorted_wrt_mono_rel [OF _ r(3)]) auto
    then show "sorted (map key ?ys)" by (simp add: sorted_wrt_map comp_def)
    fix c assume "c \<in> set ?ys"
    let ?P = "\<lambda>i. key c = ?k i"
    have "sorted (filter ?P idx)"
      by (rule sorted_wrt_mono_rel [OF _ sorted_wrt_filter [OF r(3)]]) auto
    then have "filter ?P idx = filter ?P [0..<?n]"
      using idx by (intro sorted_distinct_set_unique) (auto intro: sorted_wrt_filter)
    then have "map (\<lambda>j. mem ! j) (filter ?P idx) = map (\<lambda>j. mem ! j) (filter ?P [0..<?n])" by simp
    then have "filter (\<lambda>x. key c = key x) ?ys = filter (\<lambda>x. key c = key x) (map (\<lambda>j. mem ! j) [0..<?n])"
      by (simp add: filter_map comp_def)
    then show "filter (\<lambda>x. key c = key x) ?ys = filter (\<lambda>x. key c = key x) mem" by (simp add: map_nth)
  qed
  then show ?thesis
    using True ok r copy_back_all(1) [OF r(2)] by (simp add: js_typed_array_sort_def)
qed

theorem typed_array_sort_stable_witness:
  "js_typed_array_sort JS_CLASS_UINT8_ARRAY (\<lambda>f. True)
      (\<lambda>(f :: unit) x y h. (case (x, y) of (JsInt a, JsInt b) \<Rightarrow> (CallInt (a div 16 - b div 16) :: unit call_result, h)))
      (\<lambda>r h. (None, h)) (\<lambda>w :: nat. True) True True (Some ()) ([[0x25], [0x12], [0x21], [0x11]], 0) =
    Some (SortDone, sort_key (\<lambda>e. uint (word_at e :: 8 word) div 16) [[0x25], [0x12], [0x21], [0x11]], 0) \<and>
   sort_key (\<lambda>e. uint (word_at e :: 8 word) div 16) [[0x25], [0x12], [0x21], [0x11]] =
     [[0x12], [0x11], [0x25], [0x21]]"
proof
  show "js_typed_array_sort JS_CLASS_UINT8_ARRAY (\<lambda>f. True)
      (\<lambda>(f :: unit) x y h. (case (x, y) of (JsInt a, JsInt b) \<Rightarrow> (CallInt (a div 16 - b div 16) :: unit call_result, h)))
      (\<lambda>r h. (None, h)) (\<lambda>w :: nat. True) True True (Some ()) ([[0x25], [0x12], [0x21], [0x11]], 0) =
    Some (SortDone, sort_key (\<lambda>e. uint (word_at e :: 8 word) div 16) [[0x25], [0x12], [0x21], [0x11]], 0)"
    by (rule typed_array_sort_stable) auto
  show "sort_key (\<lambda>e. uint (word_at e :: 8 word) div 16) [[0x25], [0x12], [0x21], [0x11]] =
     [[0x12], [0x11], [0x25], [0x21]]"
    by (simp add: word_at_def)
qed

end
