(* ===== verification/Shape.thy ===== *)
theory Shape
  imports Prelude
begin

text \<open>
  Objects and their shapes (\<^verbatim>\<open>quickjs.c\<close>). A shape lists the names and flags of the properties of an
  object, with a hash table of chains through \<open>hash_next\<close>; objects with the same layout share one
  shape, found through the runtime's table of shapes. Pointers are naturals, \<open>0\<close> is NULL, and reading
  a pointer without an object is \<open>None\<close>. A bucket of the runtime's table is the list of its shapes in
  chain order. An allocation succeeds or fails as \<open>malloc_ok\<close> says for its number; fresh memory holds
  \<open>junk\<close>. The memory of the values of properties is not modelled: a released value is logged in
  \<open>released\<close>, references to atoms and to prototypes are counted.
\<close>

section \<open>Shapes\<close>

type_synonym ptr = nat

record shape_prop =
  hash_next :: nat
  prflags :: nat
  atom :: u32

record shape =
  sh_ref_count :: int
  is_hashed :: bool
  has_small_array_index :: bool
  sh_hash :: u32
  prop_hash :: "nat list"
  prop_hash_mask :: u32
  prop_size :: nat
  prop_count :: nat
  deleted_prop_count :: nat
  proto :: ptr
  sh_prop :: "shape_prop list"

abbreviation (input) "JS_ATOM_NULL \<equiv> 0 :: u32"
abbreviation (input) "JS_ATOM_TAG_INT \<equiv> 0x80000000 :: u32"
abbreviation (input) "JS_PROP_CONFIGURABLE \<equiv> 1 :: nat"
abbreviation (input) "JS_PROP_INITIAL_SIZE \<equiv> 2 :: nat"
abbreviation (input) "JS_PROP_INITIAL_HASH_SIZE \<equiv> 4 :: nat"

definition shape_hash :: "u32 \<Rightarrow> u32 \<Rightarrow> u32" where
  "shape_hash h val = (h + val) * 0x9e370001"

definition get_shape_hash :: "u32 \<Rightarrow> nat \<Rightarrow> nat" where
  "get_shape_hash h hash_bits = unat (drop_bit (32 - hash_bits) h)"

text \<open>Pointers of the target have 32 bits.\<close>

definition shape_initial_hash :: "ptr \<Rightarrow> u32" where
  "shape_initial_hash p = shape_hash 1 (of_nat p)"

text \<open>The bit fields of an entry: 26 bits for the chain, 6 for the flags.\<close>

definition hash_slot :: "u32 \<Rightarrow> u32 \<Rightarrow> nat" where
  "hash_slot a msk = unat (a AND msk)"

partial_function (option) find_loop :: "shape_prop list \<Rightarrow> u32 \<Rightarrow> nat \<Rightarrow> nat option option" where
  "find_loop prop a h =
     (if h = 0 then Some None
      else do {
        pr \<leftarrow> rd prop (h - 1);
        if atom pr = a then Some (Some (h - 1)) else find_loop prop a (hash_next pr)
      })"

definition find_shape_property :: "shape \<Rightarrow> u32 \<Rightarrow> nat option option" where
  "find_shape_property sh a = do {
     h \<leftarrow> rd (prop_hash sh) (hash_slot a (prop_hash_mask sh));
     find_loop (sh_prop sh) a h
   }"

text \<open>Entry \<open>i\<close> becomes the head of its chain.\<close>

definition hash_link ::
  "u32 \<Rightarrow> nat \<Rightarrow> shape_prop list \<times> nat list \<Rightarrow> (shape_prop list \<times> nat list) option" where
  "hash_link msk i = (\<lambda>(prop, tab). do {
     pr \<leftarrow> rd prop i;
     let h = hash_slot (atom pr) msk;
     n \<leftarrow> rd tab h;
     Some (prop[i := pr\<lparr>hash_next := n mod 2 ^ 26\<rparr>], tab[h := i + 1])
   })"

function rehash_loop ::
  "u32 \<Rightarrow> nat \<Rightarrow> nat \<Rightarrow> shape_prop list \<times> nat list \<Rightarrow> (shape_prop list \<times> nat list) option" where
  "rehash_loop msk count i st =
     (if i < count then do {
        pr \<leftarrow> rd (fst st) i;
        st \<leftarrow> (if atom pr \<noteq> JS_ATOM_NULL then hash_link msk i st else Some st);
        rehash_loop msk count (i + 1) st
      } else Some st)"
  by pat_completeness auto
termination by (relation "measure (\<lambda>(msk, count, i, st). count - i)") auto

declare rehash_loop.simps [simp del] find_loop.simps [code]

section \<open>The runtime\<close>

datatype 'v slot = JS_UNDEFINED | JS_VALUE 'v

record 'v obj =
  oshape :: ptr
  oprop :: "'v slot list"

record 'v rt =
  shapes :: "ptr \<Rightarrow> shape option"
  objs :: "ptr \<Rightarrow> 'v obj option"
  shape_hash_bits :: nat
  shape_hash_tab :: "ptr list list"
  shape_hash_count :: nat
  gc_obj_list :: "ptr list"
  atom_refs :: "u32 \<Rightarrow> int"
  proto_refs :: "ptr \<Rightarrow> int"
  released :: "('v slot \<times> nat) list"
  malloc_ok :: "nat \<Rightarrow> bool"
  malloc_clock :: nat
  next_ptr :: ptr
  atom_end :: int
  junk_prop :: shape_prop
  junk_slot :: "'v slot"

definition js_malloc :: "'v rt \<Rightarrow> ptr \<times> 'v rt" where
  "js_malloc rt =
     (if malloc_ok rt (malloc_clock rt)
      then (next_ptr rt, rt\<lparr>malloc_clock := malloc_clock rt + 1, next_ptr := next_ptr rt + 1\<rparr>)
      else (0, rt\<lparr>malloc_clock := malloc_clock rt + 1\<rparr>))"

text \<open>The block \<open>p->prop\<close> reallocated to \<open>n\<close> entries; \<open>False\<close> if refused.\<close>

definition realloc_prop :: "'v rt \<Rightarrow> ptr \<Rightarrow> nat \<Rightarrow> (bool \<times> 'v rt) option" where
  "realloc_prop rt p n = do {
     ob \<leftarrow> objs rt p;
     let rt' = rt\<lparr>malloc_clock := malloc_clock rt + 1\<rparr>;
     if malloc_ok rt (malloc_clock rt)
     then Some (True, rt'\<lparr>objs := (objs rt)(p \<mapsto> ob\<lparr>oprop := take n (oprop ob) @
            replicate (n - length (oprop ob)) (junk_slot rt)\<rparr>)\<rparr>)
     else Some (False, rt')
   }"

definition set_shape :: "'v rt \<Rightarrow> ptr \<Rightarrow> shape \<Rightarrow> 'v rt" where
  "set_shape rt s sh = rt\<lparr>shapes := (shapes rt)(s \<mapsto> sh)\<rparr>"

definition set_obj_shape :: "'v rt \<Rightarrow> ptr \<Rightarrow> ptr \<Rightarrow> 'v rt option" where
  "set_obj_shape rt p s = do {
     ob \<leftarrow> objs rt p;
     Some (rt\<lparr>objs := (objs rt)(p \<mapsto> ob\<lparr>oshape := s\<rparr>)\<rparr>)
   }"

text \<open>The predefined atoms lie below \<open>JS_ATOM_END\<close>, which depends on the configuration.\<close>

definition atom_is_const :: "'v rt \<Rightarrow> u32 \<Rightarrow> bool" where
  "atom_is_const rt a \<longleftrightarrow> sint a < atom_end rt"

definition js_dup_atom :: "'v rt \<Rightarrow> u32 \<Rightarrow> 'v rt" where
  "js_dup_atom rt a = (if atom_is_const rt a then rt else rt\<lparr>atom_refs := (atom_refs rt)(a := atom_refs rt a + 1)\<rparr>)"

definition js_free_atom :: "'v rt \<Rightarrow> u32 \<Rightarrow> 'v rt" where
  "js_free_atom rt a = (if atom_is_const rt a then rt else rt\<lparr>atom_refs := (atom_refs rt)(a := atom_refs rt a - 1)\<rparr>)"

definition dup_proto :: "'v rt \<Rightarrow> ptr \<Rightarrow> 'v rt" where
  "dup_proto rt p = (if p = 0 then rt else rt\<lparr>proto_refs := (proto_refs rt)(p := proto_refs rt p + 1)\<rparr>)"

definition free_proto :: "'v rt \<Rightarrow> ptr \<Rightarrow> 'v rt" where
  "free_proto rt p = (if p = 0 then rt else rt\<lparr>proto_refs := (proto_refs rt)(p := proto_refs rt p - 1)\<rparr>)"

section \<open>The table of shapes\<close>

definition js_shape_hash_link :: "'v rt \<Rightarrow> ptr \<Rightarrow> 'v rt option" where
  "js_shape_hash_link rt s = do {
     sh \<leftarrow> shapes rt s;
     let h = get_shape_hash (sh_hash sh) (shape_hash_bits rt);
     bucket \<leftarrow> rd (shape_hash_tab rt) h;
     Some (rt\<lparr>shape_hash_tab := (shape_hash_tab rt)[h := s # bucket],
              shape_hash_count := shape_hash_count rt + 1\<rparr>)
   }"

text \<open>A shape that is not in its bucket would be searched behind the end of the chain.\<close>

definition js_shape_hash_unlink :: "'v rt \<Rightarrow> ptr \<Rightarrow> 'v rt option" where
  "js_shape_hash_unlink rt s = do {
     sh \<leftarrow> shapes rt s;
     let h = get_shape_hash (sh_hash sh) (shape_hash_bits rt);
     bucket \<leftarrow> rd (shape_hash_tab rt) h;
     if s \<in> set bucket
     then Some (rt\<lparr>shape_hash_tab := (shape_hash_tab rt)[h := remove1 s bucket],
                   shape_hash_count := shape_hash_count rt - 1\<rparr>)
     else None
   }"

fun rehash_shapes :: "(ptr \<Rightarrow> shape option) \<Rightarrow> nat \<Rightarrow> ptr list \<Rightarrow> ptr list list \<Rightarrow> ptr list list option" where
  "rehash_shapes S bits [] tab = Some tab"
| "rehash_shapes S bits (s # ss) tab = do {
     sh \<leftarrow> S s;
     let h = get_shape_hash (sh_hash sh) bits;
     bucket \<leftarrow> rd tab h;
     rehash_shapes S bits ss (tab[h := s # bucket])
   }"

definition resize_shape_hash :: "'v rt \<Rightarrow> nat \<Rightarrow> (int \<times> 'v rt) option" where
  "resize_shape_hash rt new_bits =
     (case js_malloc rt of (q, rt) \<Rightarrow>
        if q = 0 then Some (- 1, rt)
        else do {
          tab \<leftarrow> rehash_shapes (shapes rt) new_bits (concat (shape_hash_tab rt)) (replicate (2 ^ new_bits) []);
          Some (0, rt\<lparr>shape_hash_bits := new_bits, shape_hash_tab := tab\<rparr>)
        })"

fun find_proto_loop :: "(ptr \<Rightarrow> shape option) \<Rightarrow> u32 \<Rightarrow> ptr \<Rightarrow> ptr list \<Rightarrow> ptr option" where
  "find_proto_loop S h pr [] = Some 0"
| "find_proto_loop S h pr (s # ss) = do {
     sh1 \<leftarrow> S s;
     if sh_hash sh1 = h \<and> proto sh1 = pr \<and> prop_count sh1 = 0 then Some s
     else find_proto_loop S h pr ss
   }"

definition find_hashed_shape_proto :: "'v rt \<Rightarrow> ptr \<Rightarrow> ptr option" where
  "find_hashed_shape_proto rt pr = do {
     let h = shape_initial_hash pr;
     bucket \<leftarrow> rd (shape_hash_tab rt) (get_shape_hash h (shape_hash_bits rt));
     find_proto_loop (shapes rt) h pr bucket
   }"

function same_props :: "shape_prop list \<Rightarrow> shape_prop list \<Rightarrow> nat \<Rightarrow> nat \<Rightarrow> bool option" where
  "same_props p1 p n i =
     (if i < n then do {
        x1 \<leftarrow> rd p1 i;
        x \<leftarrow> rd p i;
        if atom x1 \<noteq> atom x \<or> prflags x1 \<noteq> prflags x then Some False else same_props p1 p n (i + 1)
      } else Some True)"
  by pat_completeness auto
termination by (relation "measure (\<lambda>(p1, p, n, i). n - i)") auto

declare same_props.simps [simp del]

fun find_prop_shape_loop ::
  "(ptr \<Rightarrow> shape option) \<Rightarrow> u32 \<Rightarrow> shape \<Rightarrow> u32 \<Rightarrow> nat \<Rightarrow> ptr list \<Rightarrow> ptr option" where
  "find_prop_shape_loop S h sh a flags [] = Some 0"
| "find_prop_shape_loop S h sh a flags (s # ss) = do {
     sh1 \<leftarrow> S s;
     if sh_hash sh1 = h \<and> proto sh1 = proto sh \<and> prop_count sh1 = prop_count sh + 1 then do {
       eq \<leftarrow> same_props (sh_prop sh1) (sh_prop sh) (prop_count sh) 0;
       if eq then do {
         x \<leftarrow> rd (sh_prop sh1) (prop_count sh);
         if atom x \<noteq> a \<or> prflags x \<noteq> flags then find_prop_shape_loop S h sh a flags ss else Some s
       }
       else find_prop_shape_loop S h sh a flags ss
     }
     else find_prop_shape_loop S h sh a flags ss
   }"

definition find_hashed_shape_prop :: "'v rt \<Rightarrow> shape \<Rightarrow> u32 \<Rightarrow> nat \<Rightarrow> ptr option" where
  "find_hashed_shape_prop rt sh a flags = do {
     let h = shape_hash (shape_hash (sh_hash sh) a) (of_nat flags);
     bucket \<leftarrow> rd (shape_hash_tab rt) (get_shape_hash h (shape_hash_bits rt));
     find_prop_shape_loop (shapes rt) h sh a flags bucket
   }"

section \<open>Creation and release\<close>

definition js_new_shape2 :: "'v rt \<Rightarrow> ptr \<Rightarrow> nat \<Rightarrow> nat \<Rightarrow> (ptr \<times> 'v rt) option" where
  "js_new_shape2 rt pr hash_size psize = do {
     (_, rt) \<leftarrow> (if 2 * (shape_hash_count rt + 1) > length (shape_hash_tab rt)
                 then resize_shape_hash rt (shape_hash_bits rt + 1) else Some (0, rt));
     (case js_malloc rt of (s, rt) \<Rightarrow>
        if s = 0 then Some (0, rt)
        else do {
          let rt = dup_proto (rt\<lparr>gc_obj_list := gc_obj_list rt @ [s]\<rparr>) pr;
          let rt = set_shape rt s
            \<lparr>sh_ref_count = 1, is_hashed = True, has_small_array_index = False,
             sh_hash = shape_initial_hash pr, prop_hash = replicate hash_size 0,
             prop_hash_mask = of_nat hash_size - 1, prop_size = psize, prop_count = 0,
             deleted_prop_count = 0, proto = pr, sh_prop = replicate psize (junk_prop rt)\<rparr>;
          rt \<leftarrow> js_shape_hash_link rt s;
          Some (s, rt)
        })
   }"

definition js_new_shape :: "'v rt \<Rightarrow> ptr \<Rightarrow> (ptr \<times> 'v rt) option" where
  "js_new_shape rt pr = js_new_shape2 rt pr JS_PROP_INITIAL_HASH_SIZE JS_PROP_INITIAL_SIZE"

definition js_clone_shape :: "'v rt \<Rightarrow> ptr \<Rightarrow> (ptr \<times> 'v rt) option" where
  "js_clone_shape rt s1 = do {
     sh1 \<leftarrow> shapes rt s1;
     (case js_malloc rt of (s, rt) \<Rightarrow>
        if s = 0 then Some (0, rt)
        else do {
          let rt = rt\<lparr>gc_obj_list := gc_obj_list rt @ [s]\<rparr>;
          let rt = dup_proto (set_shape rt s (sh1\<lparr>sh_ref_count := 1, is_hashed := False\<rparr>)) (proto sh1);
          ats \<leftarrow> mem_read (sh_prop sh1) 0 (prop_count sh1);
          Some (s, fold (\<lambda>x rt. js_dup_atom rt (atom x)) ats rt)
        })
   }"

definition js_dup_shape :: "'v rt \<Rightarrow> ptr \<Rightarrow> 'v rt option" where
  "js_dup_shape rt s = do {
     sh \<leftarrow> shapes rt s;
     Some (set_shape rt s (sh\<lparr>sh_ref_count := sh_ref_count sh + 1\<rparr>))
   }"

definition js_free_shape0 :: "'v rt \<Rightarrow> ptr \<Rightarrow> 'v rt option" where
  "js_free_shape0 rt s = do {
     sh \<leftarrow> shapes rt s;
     rt \<leftarrow> (if is_hashed sh then js_shape_hash_unlink rt s else Some rt);
     let rt = free_proto rt (proto sh);
     ats \<leftarrow> mem_read (sh_prop sh) 0 (prop_count sh);
     let rt = fold (\<lambda>x rt. js_free_atom rt (atom x)) ats rt;
     Some (rt\<lparr>gc_obj_list := remove1 s (gc_obj_list rt), shapes := (shapes rt)(s := None)\<rparr>)
   }"

definition js_free_shape :: "'v rt \<Rightarrow> ptr \<Rightarrow> 'v rt option" where
  "js_free_shape rt s = do {
     sh \<leftarrow> shapes rt s;
     let sh = sh\<lparr>sh_ref_count := sh_ref_count sh - 1\<rparr>;
     let rt = set_shape rt s sh;
     if sh_ref_count sh \<le> 0 then js_free_shape0 rt s else Some rt
   }"

section \<open>Growing and compacting\<close>

text \<open>Doubling the size of a hash table; starting from \<open>0\<close> the loop would not end.\<close>

function grow_hash :: "nat \<Rightarrow> nat \<Rightarrow> nat option" where
  "grow_hash n size' = (if n < size' then (if n = 0 then None else grow_hash (2 * n) size') else Some n)"
  by pat_completeness auto
termination by (relation "measure (\<lambda>(n, m). m - n)") auto

function shrink_hash :: "nat \<Rightarrow> nat \<Rightarrow> nat option" where
  "shrink_hash n size' = (if size' \<le> n div 2 then (if n = 0 then None else shrink_hash (n div 2) size') else Some n)"
  by pat_completeness auto
termination by (relation "measure fst") auto

declare grow_hash.simps [simp del] shrink_hash.simps [simp del]

definition hash_size :: "shape \<Rightarrow> nat" where
  "hash_size sh = unat (prop_hash_mask sh) + 1"

definition resize_properties :: "'v rt \<Rightarrow> ptr \<Rightarrow> nat \<Rightarrow> (int \<times> 'v rt) option" where
  "resize_properties rt p count = do {
     ob \<leftarrow> objs rt p;
     let s = oshape ob;
     sh \<leftarrow> shapes rt s;
     let new_size = max count (prop_size sh * 3 div 2);
     (ok, rt) \<leftarrow> realloc_prop rt p new_size;
     if \<not> ok then Some (- 1, rt)
     else do {
       new_hash_size \<leftarrow> grow_hash (hash_size sh) new_size;
       if new_hash_size \<noteq> hash_size sh then
         (case js_malloc rt of (s', rt) \<Rightarrow>
            if s' = 0 then Some (- 1, rt)
            else do {
              let rt = rt\<lparr>gc_obj_list := remove1 s (gc_obj_list rt) @ [s']\<rparr>;
              ps \<leftarrow> mem_read (sh_prop sh) 0 (prop_count sh);
              let msk = of_nat new_hash_size - 1;
              let block = ps @ replicate (new_size - prop_count sh) (junk_prop rt);
              (block, tab) \<leftarrow> rehash_loop msk (prop_count sh) 0 (block, replicate new_hash_size 0);
              let rt = rt\<lparr>shapes := (shapes rt)(s := None)\<rparr>;
              let rt = set_shape rt s' (sh\<lparr>prop_hash_mask := msk, prop_hash := tab, sh_prop := block,
                prop_size := new_size\<rparr>);
              rt \<leftarrow> set_obj_shape rt p s';
              Some (0, rt)
            })
       else do {
         let rt = rt\<lparr>gc_obj_list := remove1 s (gc_obj_list rt)\<rparr>;
         (case js_malloc rt of (s', rt) \<Rightarrow>
            if s' = 0 then Some (- 1, rt\<lparr>gc_obj_list := gc_obj_list rt @ [s]\<rparr>)
            else do {
              let block = take new_size (sh_prop sh) @ replicate (new_size - length (sh_prop sh)) (junk_prop rt);
              let rt = rt\<lparr>shapes := (shapes rt)(s := None), gc_obj_list := gc_obj_list rt @ [s']\<rparr>;
              let rt = set_shape rt s' (sh\<lparr>sh_prop := block, prop_size := new_size\<rparr>);
              rt \<leftarrow> set_obj_shape rt p s';
              Some (0, rt)
            })
       }
     }
   }"

text \<open>The loop of \<open>compact_properties\<close>: from entry \<open>i\<close> of the old block to entry \<open>j\<close> of the new one.\<close>

function compact_loop ::
  "u32 \<Rightarrow> shape_prop list \<Rightarrow> nat \<Rightarrow> nat \<Rightarrow> nat \<Rightarrow> shape_prop list \<times> nat list \<times> 'v slot list \<Rightarrow>
   (nat \<times> shape_prop list \<times> nat list \<times> 'v slot list) option" where
  "compact_loop msk old count i j st =
     (if i < count then do {
        pr \<leftarrow> rd old i;
        if atom pr \<noteq> JS_ATOM_NULL then
          (case st of (prop, tab, vals) \<Rightarrow> do {
             let h = hash_slot (atom pr) msk;
             n \<leftarrow> rd tab h;
             _ \<leftarrow> rd prop j;
             let prop = prop[j := \<lparr>hash_next = n mod 2 ^ 26, prflags = prflags pr, atom = atom pr\<rparr>];
             let tab = tab[h := j + 1];
             v \<leftarrow> rd vals i;
             _ \<leftarrow> rd vals j;
             compact_loop msk old count (i + 1) (j + 1) (prop, tab, vals[j := v])
           })
        else compact_loop msk old count (i + 1) j st
      } else Some (j, st))"
  by pat_completeness auto
termination by (relation "measure (\<lambda>(msk, old, count, i, j, st). count - i)") auto

declare compact_loop.simps [simp del]

definition compact_properties :: "'v rt \<Rightarrow> ptr \<Rightarrow> (int \<times> 'v rt) option" where
  "compact_properties rt p = do {
     ob \<leftarrow> objs rt p;
     let s = oshape ob;
     sh \<leftarrow> shapes rt s;
     let new_size = max JS_PROP_INITIAL_SIZE (prop_count sh - deleted_prop_count sh);
     if is_hashed sh \<or> prop_size sh < new_size then None
     else do {
       new_hash_size \<leftarrow> shrink_hash (hash_size sh) new_size;
       let msk = of_nat new_hash_size - 1;
       (case js_malloc rt of (s', rt) \<Rightarrow>
          if s' = 0 then Some (- 1, rt)
          else do {
            let rt = rt\<lparr>gc_obj_list := remove1 s (gc_obj_list rt) @ [s']\<rparr>;
            (j, prop, tab, vals) \<leftarrow> compact_loop msk (sh_prop sh) (prop_count sh) 0 0
               (replicate new_size (junk_prop rt), replicate new_hash_size 0, oprop ob);
            if j \<noteq> prop_count sh - deleted_prop_count sh then None
            else do {
              let rt = set_shape rt s' (sh\<lparr>prop_hash_mask := msk, prop_hash := tab, sh_prop := prop,
                prop_size := new_size, deleted_prop_count := 0, prop_count := j\<rparr>);
              let rt = rt\<lparr>objs := (objs rt)(p \<mapsto> ob\<lparr>oshape := s', oprop := vals\<rparr>), shapes := (shapes rt)(s := None)\<rparr>;
              (_, rt) \<leftarrow> realloc_prop rt p new_size;
              Some (0, rt)
            }
          })
     }
   }"

section \<open>Adding a property\<close>

definition add_shape_property :: "'v rt \<Rightarrow> ptr \<Rightarrow> u32 \<Rightarrow> nat \<Rightarrow> (int \<times> 'v rt) option" where
  "add_shape_property rt p a flags = do {
     ob \<leftarrow> objs rt p;
     let s = oshape ob;
     sh \<leftarrow> shapes rt s;
     rt \<leftarrow> (if is_hashed sh then js_shape_hash_unlink rt s else Some rt);
     let new_shape_hash = shape_hash (shape_hash (sh_hash sh) a) (of_nat flags);
     (r, rt) \<leftarrow> (if prop_count sh \<ge> prop_size sh then resize_properties rt p (prop_count sh + 1) else Some (0, rt));
     if r \<noteq> 0 then do {
       rt \<leftarrow> (if is_hashed sh then js_shape_hash_link rt s else Some rt);
       Some (- 1, rt)
     }
     else do {
       ob \<leftarrow> objs rt p;
       let s = oshape ob;
       sh \<leftarrow> shapes rt s;
       rt \<leftarrow> (if is_hashed sh then js_shape_hash_link (set_shape rt s (sh\<lparr>sh_hash := new_shape_hash\<rparr>)) s
             else Some rt);
       sh \<leftarrow> shapes rt s;
       let i = prop_count sh;
       pr \<leftarrow> rd (sh_prop sh) i;
       let rt = js_dup_atom rt a;
       let pr = pr\<lparr>atom := a, prflags := flags mod 64\<rparr>;
       (prop, tab) \<leftarrow> hash_link (prop_hash_mask sh) i ((sh_prop sh)[i := pr], prop_hash sh);
       Some (0, set_shape rt s (sh\<lparr>prop_count := i + 1, sh_prop := prop, prop_hash := tab,
         has_small_array_index := has_small_array_index sh \<or> a AND JS_ATOM_TAG_INT \<noteq> 0\<rparr>))
     }
   }"

text \<open>The C result is the address of the new slot: here its index, or \<open>None\<close> for NULL. The end of
  \<open>add_property\<close>, on a shape that is not shared, and its two ways to get there.\<close>

definition add_unshared :: "'v rt \<Rightarrow> ptr \<Rightarrow> u32 \<Rightarrow> nat \<Rightarrow> (nat option \<times> 'v rt) option" where
  "add_unshared rt p a flags = do {
     ob \<leftarrow> objs rt p;
     sh \<leftarrow> shapes rt (oshape ob);
     if sh_ref_count sh \<noteq> 1 then None
     else do {
       (r, rt) \<leftarrow> add_shape_property rt p a flags;
       if r \<noteq> 0 then Some (None, rt)
       else do {
         ob \<leftarrow> objs rt p;
         sh \<leftarrow> shapes rt (oshape ob);
         Some (Some (prop_count sh - 1), rt)
       }
     }
   }"

text \<open>A matching shape \<open>s1\<close> was found.\<close>

definition add_by_sharing :: "'v rt \<Rightarrow> ptr \<Rightarrow> ptr \<Rightarrow> (nat option \<times> 'v rt) option" where
  "add_by_sharing rt p s1 = do {
     ob \<leftarrow> objs rt p;
     let s = oshape ob;
     sh \<leftarrow> shapes rt s;
     sh1 \<leftarrow> shapes rt s1;
     (ok, rt) \<leftarrow> (if prop_size sh1 \<noteq> prop_size sh then realloc_prop rt p (prop_size sh1) else Some (True, rt));
     if \<not> ok then Some (None, rt)
     else do {
       rt \<leftarrow> js_dup_shape rt s1;
       rt \<leftarrow> set_obj_shape rt p s1;
       rt \<leftarrow> js_free_shape rt s;
       Some (Some (prop_count sh1 - 1), rt)
     }
   }"

text \<open>The shape is shared: the object gets a hashed clone.\<close>

definition clone_hashed :: "'v rt \<Rightarrow> ptr \<Rightarrow> (bool \<times> 'v rt) option" where
  "clone_hashed rt p = do {
     ob \<leftarrow> objs rt p;
     let s = oshape ob;
     (s1, rt) \<leftarrow> js_clone_shape rt s;
     if s1 = 0 then Some (False, rt)
     else do {
       sh1 \<leftarrow> shapes rt s1;
       rt \<leftarrow> js_shape_hash_link (set_shape rt s1 (sh1\<lparr>is_hashed := True\<rparr>)) s1;
       rt \<leftarrow> js_free_shape rt s;
       rt \<leftarrow> set_obj_shape rt p s1;
       Some (True, rt)
     }
   }"

definition add_property :: "'v rt \<Rightarrow> ptr \<Rightarrow> u32 \<Rightarrow> nat \<Rightarrow> (nat option \<times> 'v rt) option" where
  "add_property rt p a flags = do {
     ob \<leftarrow> objs rt p;
     sh \<leftarrow> shapes rt (oshape ob);
     if is_hashed sh then do {
       s1 \<leftarrow> find_hashed_shape_prop rt sh a flags;
       if s1 \<noteq> 0 then add_by_sharing rt p s1
       else if sh_ref_count sh \<noteq> 1 then do {
         (ok, rt) \<leftarrow> clone_hashed rt p;
         if ok then add_unshared rt p a flags else Some (None, rt)
       }
       else add_unshared rt p a flags
     }
     else add_unshared rt p a flags
   }"

section \<open>Changing and deleting properties\<close>

definition js_shape_prepare_update :: "'v rt \<Rightarrow> ptr \<Rightarrow> (int \<times> 'v rt) option" where
  "js_shape_prepare_update rt p = do {
     ob \<leftarrow> objs rt p;
     let s = oshape ob;
     sh \<leftarrow> shapes rt s;
     if is_hashed sh then
       (if sh_ref_count sh \<noteq> 1 then do {
          (s1, rt) \<leftarrow> js_clone_shape rt s;
          if s1 = 0 then Some (- 1, rt)
          else do {
            rt \<leftarrow> js_free_shape rt s;
            rt \<leftarrow> set_obj_shape rt p s1;
            Some (0, rt)
          }
        }
        else do {
          rt \<leftarrow> js_shape_hash_unlink rt s;
          Some (0, set_shape rt s (sh\<lparr>is_hashed := False\<rparr>))
        })
     else Some (0, rt)
   }"

definition js_update_property_flags :: "'v rt \<Rightarrow> ptr \<Rightarrow> nat \<Rightarrow> nat \<Rightarrow> (int \<times> 'v rt) option" where
  "js_update_property_flags rt p i flags = do {
     ob \<leftarrow> objs rt p;
     sh \<leftarrow> shapes rt (oshape ob);
     pr \<leftarrow> rd (sh_prop sh) i;
     if flags \<noteq> prflags pr then do {
       (r, rt) \<leftarrow> js_shape_prepare_update rt p;
       if r \<noteq> 0 then Some (- 1, rt)
       else do {
         ob \<leftarrow> objs rt p;
         sh \<leftarrow> shapes rt (oshape ob);
         pr \<leftarrow> rd (sh_prop sh) i;
         Some (0, set_shape rt (oshape ob) (sh\<lparr>sh_prop := (sh_prop sh)[i := pr\<lparr>prflags := flags mod 64\<rparr>]\<rparr>))
       }
     }
     else Some (0, rt)
   }"

text \<open>The search of \<open>delete_property\<close>: the entry and, if it is not the first, its predecessor in the chain.\<close>

partial_function (option) find_prev_loop ::
  "shape_prop list \<Rightarrow> u32 \<Rightarrow> nat option \<Rightarrow> nat \<Rightarrow> (nat option \<times> nat) option option" where
  "find_prev_loop prop a lpr h =
     (if h = 0 then Some None
      else do {
        pr \<leftarrow> rd prop (h - 1);
        if atom pr = a then Some (Some (lpr, h - 1)) else find_prev_loop prop a (Some (h - 1)) (hash_next pr)
      })"

declare find_prev_loop.simps [code]

text \<open>Taking entry \<open>i\<close> out of its chain and clearing it.\<close>

definition unlink_prop :: "shape \<Rightarrow> u32 \<Rightarrow> nat option \<Rightarrow> nat \<Rightarrow> shape option" where
  "unlink_prop sh a lpr i = do {
     pr \<leftarrow> rd (sh_prop sh) i;
     sh \<leftarrow> (case lpr of
         Some l \<Rightarrow> do {
           x \<leftarrow> rd (sh_prop sh) l;
           Some (sh\<lparr>sh_prop := (sh_prop sh)[l := x\<lparr>hash_next := hash_next pr\<rparr>]\<rparr>)
         }
       | None \<Rightarrow> do {
           let h = hash_slot a (prop_hash_mask sh);
           _ \<leftarrow> rd (prop_hash sh) h;
           Some (sh\<lparr>prop_hash := (prop_hash sh)[h := hash_next pr]\<rparr>)
         });
     Some (sh\<lparr>deleted_prop_count := deleted_prop_count sh + 1,
       sh_prop := (sh_prop sh)[i := pr\<lparr>prflags := 0, atom := JS_ATOM_NULL\<rparr>]\<rparr>)
   }"

text \<open>\<open>delete_property\<close> on an object that is not exotic: 1 for TRUE, 0 for FALSE.\<close>

definition delete_property :: "'v rt \<Rightarrow> ptr \<Rightarrow> u32 \<Rightarrow> (int \<times> 'v rt) option" where
  "delete_property rt p a = do {
     ob \<leftarrow> objs rt p;
     sh \<leftarrow> shapes rt (oshape ob);
     h \<leftarrow> rd (prop_hash sh) (hash_slot a (prop_hash_mask sh));
     found \<leftarrow> find_prev_loop (sh_prop sh) a None h;
     (case found of
        None \<Rightarrow> Some (1, rt)
      | Some (lpr, i) \<Rightarrow> do {
          pr \<leftarrow> rd (sh_prop sh) i;
          if prflags pr AND JS_PROP_CONFIGURABLE = 0 then Some (0, rt)
          else do {
            (r, rt) \<leftarrow> js_shape_prepare_update rt p;
            if r \<noteq> 0 then Some (- 1, rt)
            else do {
              ob \<leftarrow> objs rt p;
              let s = oshape ob;
              sh \<leftarrow> shapes rt s;
              sh' \<leftarrow> unlink_prop sh a lpr i;
              v \<leftarrow> rd (oprop ob) i;
              let rt = js_free_atom (rt\<lparr>released := released rt @ [(v, prflags pr)]\<rparr>) a;
              let rt = set_shape rt s sh';
              let rt = rt\<lparr>objs := (objs rt)(p \<mapsto> ob\<lparr>oprop := (oprop ob)[i := JS_UNDEFINED]\<rparr>)\<rparr>;
              rt \<leftarrow> (if deleted_prop_count sh' \<ge> 8 \<and> deleted_prop_count sh' \<ge> prop_count sh' div 2
                    then do { (_, rt) \<leftarrow> compact_properties rt p; Some rt } else Some rt);
              Some (1, rt)
            }
          }
        })
   }"

section \<open>Objects\<close>

text \<open>The address of the new object, or \<open>0\<close> for an exception; the class is \<open>JS_CLASS_OBJECT\<close>.\<close>

definition js_new_object_from_shape :: "'v rt \<Rightarrow> ptr \<Rightarrow> (ptr \<times> 'v rt) option" where
  "js_new_object_from_shape rt s =
     (case js_malloc rt of (p, rt) \<Rightarrow>
        if p = 0 then do { rt \<leftarrow> js_free_shape rt s; Some (0, rt) }
        else do {
          sh \<leftarrow> shapes rt s;
          (case js_malloc rt of (q, rt) \<Rightarrow>
             if q = 0 then do { rt \<leftarrow> js_free_shape rt s; Some (0, rt) }
             else Some (p, rt\<lparr>objs := (objs rt)(p \<mapsto> \<lparr>oshape = s, oprop = replicate (prop_size sh) (junk_slot rt)\<rparr>),
                              gc_obj_list := gc_obj_list rt @ [p]\<rparr>))
        })"

definition js_new_object_proto :: "'v rt \<Rightarrow> ptr \<Rightarrow> (ptr \<times> 'v rt) option" where
  "js_new_object_proto rt pr = do {
     s \<leftarrow> find_hashed_shape_proto rt pr;
     if s \<noteq> 0 then do {
       rt \<leftarrow> js_dup_shape rt s;
       js_new_object_from_shape rt s
     }
     else do {
       (s, rt) \<leftarrow> js_new_shape rt pr;
       if s = 0 then Some (0, rt) else js_new_object_from_shape rt s
     }
   }"

definition find_own_property :: "'v rt \<Rightarrow> ptr \<Rightarrow> u32 \<Rightarrow> (nat \<times> nat \<times> 'v slot) option option" where
  "find_own_property rt p a = do {
     ob \<leftarrow> objs rt p;
     sh \<leftarrow> shapes rt (oshape ob);
     r \<leftarrow> find_shape_property sh a;
     (case r of None \<Rightarrow> Some None
      | Some i \<Rightarrow> do {
          pr \<leftarrow> rd (sh_prop sh) i;
          v \<leftarrow> rd (oprop ob) i;
          Some (Some (i, prflags pr, v))
        })
   }"

definition init_rt :: "(nat \<Rightarrow> bool) \<Rightarrow> 'v rt" where
  "init_rt ok = \<lparr>shapes = (\<lambda>_. None), objs = (\<lambda>_. None), shape_hash_bits = 4, shape_hash_tab = replicate 16 [],
     shape_hash_count = 0, gc_obj_list = [], atom_refs = (\<lambda>_. 0), proto_refs = (\<lambda>_. 0), released = [],
     malloc_ok = ok, malloc_clock = 0, next_ptr = 1, atom_end = 229,
     junk_prop = \<lparr>hash_next = 0, prflags = 0, atom = 0\<rparr>, junk_slot = JS_UNDEFINED\<rparr>"

end
