(* ===== verification/Shape_Spec.thy ===== *)
theory Shape_Spec
  imports Shape
begin

text \<open>
  What the hash table of a shape means: the chains hold exactly the live entries, the latest first,
  and lookup, rehashing, compaction and deletion act on the list of live entries.
\<close>

section \<open>Chains\<close>

fun is_chain :: "shape_prop list \<Rightarrow> nat \<Rightarrow> nat list \<Rightarrow> bool" where
  "is_chain pl h [] \<longleftrightarrow> h = 0"
| "is_chain pl h (i # ks) \<longleftrightarrow> h = Suc i \<and> i < length pl \<and> is_chain pl (hash_next (pl ! i)) ks"

definition live :: "shape_prop list \<Rightarrow> nat \<Rightarrow> nat list" where
  "live pl n = filter (\<lambda>i. atom (pl ! i) \<noteq> 0) [0..<n]"

definition chain_of :: "shape_prop list \<Rightarrow> nat \<Rightarrow> u32 \<Rightarrow> nat \<Rightarrow> nat list" where
  "chain_of pl n msk h = rev (filter (\<lambda>i. hash_slot (atom (pl ! i)) msk = h) (live pl n))"

definition chained :: "shape_prop list \<Rightarrow> nat \<Rightarrow> u32 \<Rightarrow> nat list \<Rightarrow> bool" where
  "chained pl n msk tab \<longleftrightarrow> length tab = unat msk + 1 \<and> n \<le> length pl \<and>
     (\<forall>h < length tab. is_chain pl (tab ! h) (chain_of pl n msk h))"

lemma set_live [simp]: "set (live pl n) = {i. i < n \<and> atom (pl ! i) \<noteq> 0}"
  by (auto simp: live_def)

lemma live_Suc: "live pl (Suc n) = live pl n @ (if atom (pl ! n) \<noteq> 0 then [n] else [])"
  by (simp add: live_def)

lemma distinct_live [simp]: "distinct (live pl n)"
  by (simp add: live_def)

lemma set_chain_of [simp]:
  "set (chain_of pl n msk h) = {i. i < n \<and> atom (pl ! i) \<noteq> 0 \<and> hash_slot (atom (pl ! i)) msk = h}"
  by (auto simp: chain_of_def)

lemma distinct_chain_of [simp]: "distinct (chain_of pl n msk h)"
  by (simp add: chain_of_def)

lemma live_cong: "(\<And>i. i < n \<Longrightarrow> atom (p ! i) = atom (q ! i)) \<Longrightarrow> live p n = live q n"
  unfolding live_def by (rule filter_cong) auto

lemma chain_of_cong: "(\<And>i. i < n \<Longrightarrow> atom (p ! i) = atom (q ! i)) \<Longrightarrow> chain_of p n msk h = chain_of q n msk h"
  using live_cong [of n p q] unfolding chain_of_def by (auto intro!: filter_cong)

lemma chain_of_Suc:
  "chain_of pl (Suc n) msk h =
    (if atom (pl ! n) \<noteq> 0 \<and> hash_slot (atom (pl ! n)) msk = h then n # chain_of pl n msk h
     else chain_of pl n msk h)"
  by (simp add: chain_of_def live_Suc)

lemma hash_slot_less: "hash_slot a msk < unat msk + 1"
  by (simp add: hash_slot_def less_Suc_eq_le word_and_le1 unat_arith_simps(1)[symmetric])

lemma is_chain_cong:
  "is_chain p h ks \<Longrightarrow> length p \<le> length q \<Longrightarrow> (\<And>i. i \<in> set ks \<Longrightarrow> hash_next (p ! i) = hash_next (q ! i)) \<Longrightarrow>
   is_chain q h ks"
  by (induction ks arbitrary: h) auto

lemma is_chain_le: "is_chain p h ks \<Longrightarrow> (\<forall>i \<in> set ks. i < n) \<Longrightarrow> h \<le> n"
  by (cases ks) auto

lemma is_chain_head: "is_chain p h ks \<Longrightarrow> h = (case ks of [] \<Rightarrow> 0 | i # _ \<Rightarrow> Suc i)"
  by (cases ks) auto

lemma find_loop_chain:
  "is_chain pl h ks \<Longrightarrow> find_loop pl a h = Some (find (\<lambda>i. atom (pl ! i) = a) ks)"
  by (induction ks arbitrary: h) (auto simp: find_loop.simps rd_Some)

section \<open>Linking\<close>

text \<open>Entries and values in order: what the shape and the slots of an object stand for.\<close>

definition ents :: "shape_prop list \<Rightarrow> nat \<Rightarrow> 'v list \<Rightarrow> (u32 \<times> nat \<times> 'v) list" where
  "ents pl n vals = map (\<lambda>i. (atom (pl ! i), prflags (pl ! i), vals ! i)) (live pl n)"

lemma ents_cong:
  "(\<And>i. i < n \<Longrightarrow> atom (p ! i) = atom (q ! i)) \<Longrightarrow>
   (\<And>i. i < n \<Longrightarrow> atom (q ! i) \<noteq> 0 \<Longrightarrow> prflags (p ! i) = prflags (q ! i) \<and> v ! i = w ! i) \<Longrightarrow>
   ents p n v = ents q n w"
  using live_cong [of n p q] by (simp add: ents_def)

definition same_names :: "shape_prop list \<Rightarrow> shape_prop list \<Rightarrow> bool" where
  "same_names p q \<longleftrightarrow> length p = length q \<and> (\<forall>i. atom (p ! i) = atom (q ! i) \<and> prflags (p ! i) = prflags (q ! i))"

lemma hash_link_ok:
  assumes "chained pl n msk tab" and "n < length pl" and "n < 2 ^ 26" and "atom (pl ! n) \<noteq> 0"
  shows "\<exists>pl' tab'. hash_link msk n (pl, tab) = Some (pl', tab') \<and> chained pl' (Suc n) msk tab' \<and>
    same_names pl' pl"
proof -
  define h where "h = hash_slot (atom (pl ! n)) msk"
  define pl' where "pl' = pl[n := (pl ! n)\<lparr>hash_next := tab ! h\<rparr>]"
  have h: "h < length tab" using assms(1) hash_slot_less by (simp add: chained_def h_def)
  have old: "is_chain pl (tab ! k) (chain_of pl n msk k)" if "k < length tab" for k
    using assms(1) that by (simp add: chained_def)
  have same: "atom (pl' ! i) = atom (pl ! i) \<and> prflags (pl' ! i) = prflags (pl ! i)" for i
    using assms(2) by (cases "i = n") (auto simp: pl'_def)
  have len: "length pl' = length pl" by (simp add: pl'_def)
  have c: "is_chain pl' (tab ! k) (chain_of pl n msk k)" if "k < length tab" for k
    by (rule is_chain_cong [OF old [OF that]]) (auto simp: pl'_def)
  have "tab ! h \<le> n" by (rule is_chain_le [OF old [OF h]]) simp
  then have m: "tab ! h mod 2 ^ 26 = tab ! h" using assms(3) by (intro mod_less) linarith
  have e: "chain_of pl' (Suc n) msk k = chain_of pl (Suc n) msk k" for k
    by (rule chain_of_cong) (use same in auto)
  have "is_chain pl' (tab[h := n + 1] ! k) (chain_of pl' (Suc n) msk k)" if k: "k < length tab" for k
  proof (cases "k = h")
    case True
    have "hash_next (pl' ! n) = tab ! h" using assms(2) by (simp add: pl'_def)
    then show ?thesis unfolding e True using c [OF h] assms(2,4) h len
      by (simp add: chain_of_Suc h_def [symmetric])
  next
    case False
    then show ?thesis unfolding e using c [OF k] by (simp add: chain_of_Suc h_def [symmetric])
  qed
  then have "chained pl' (Suc n) msk (tab[h := n + 1])" using assms(1,2) len by (simp add: chained_def)
  moreover have "hash_link msk n (pl, tab) = Some (pl', tab[h := n + 1])"
    using h assms(2) by (simp only: hash_link_def rd_Some prod.case Option.bind.bind_lunit Let_def h_def [symmetric] m pl'_def)
  ultimately show ?thesis using same len by (auto simp: same_names_def)
qed

lemma chained_skip: "chained pl n msk tab \<Longrightarrow> n < length pl \<Longrightarrow> atom (pl ! n) = 0 \<Longrightarrow> chained pl (Suc n) msk tab"
  by (simp add: chained_def chain_of_Suc)

lemma rehash_loop_ok:
  assumes "chained pl i msk tab" and "i \<le> n" and "n \<le> length pl" and "n < 2 ^ 26"
  shows "\<exists>pl' tab'. rehash_loop msk n i (pl, tab) = Some (pl', tab') \<and> chained pl' n msk tab' \<and>
    same_names pl' pl"
  using assms
proof (induction "n - i" arbitrary: i pl tab)
  case 0
  then show ?case by (simp add: rehash_loop.simps same_names_def)
next
  case (Suc d)
  then have i: "i < n" "i < length pl" "i < 2 ^ 26" and d: "d = n - Suc i" by linarith+
  show ?case
  proof (cases "atom (pl ! i) = 0")
    case True
    then show ?thesis
      using Suc(1) [OF d chained_skip [OF Suc.prems(1) i(2) True]] Suc.prems i
      by (simp add: rehash_loop.simps [of _ _ i] rd_Some)
  next
    case False
    obtain p t where 1: "hash_link msk i (pl, tab) = Some (p, t)" "chained p (Suc i) msk t" "same_names p pl"
      using hash_link_ok [OF Suc.prems(1) i(2,3) False] by blast
    have l: "length p = length pl" using 1(3) by (simp add: same_names_def)
    then obtain p' t' where "rehash_loop msk n (Suc i) (p, t) = Some (p', t')" "chained p' n msk t'" "same_names p' p"
      using Suc(1) [OF d 1(2)] Suc.prems i by auto
    moreover have "same_names p' pl" using \<open>same_names p' p\<close> 1(3) by (auto simp: same_names_def)
    ultimately show ?thesis using i 1(1) False by (simp add: rehash_loop.simps [of _ _ i] rd_Some)
  qed
qed

lemma chained_empty: "length tab = unat msk + 1 \<Longrightarrow> (\<forall>h \<in> set tab. h = 0) \<Longrightarrow> chained pl 0 msk tab"
  by (auto simp: chained_def chain_of_def live_def)

section \<open>Lookup\<close>

definition unique_names :: "shape_prop list \<Rightarrow> nat \<Rightarrow> bool" where
  "unique_names pl n \<longleftrightarrow> inj_on (\<lambda>i. atom (pl ! i)) (set (live pl n))"

lemma unique_namesD:
  "unique_names pl n \<Longrightarrow> i < n \<Longrightarrow> j < n \<Longrightarrow> atom (pl ! i) = atom (pl ! j) \<Longrightarrow> atom (pl ! j) \<noteq> 0 \<Longrightarrow> i = j"
  by (auto simp: unique_names_def dest: inj_onD)

lemma find_loop_ok:
  assumes "chained pl n msk tab"
  shows "\<exists>r. do { h \<leftarrow> rd tab (hash_slot a msk); find_loop pl a h } = Some r \<and>
    (case r of None \<Rightarrow> \<forall>i < n. atom (pl ! i) \<noteq> 0 \<longrightarrow> atom (pl ! i) \<noteq> a
     | Some i \<Rightarrow> i < n \<and> atom (pl ! i) = a \<and> a \<noteq> 0)"
proof -
  let ?h = "hash_slot a msk" and ?ks = "chain_of pl n msk (hash_slot a msk)"
  have h: "?h < length tab" using assms hash_slot_less by (simp add: chained_def)
  then have "is_chain pl (tab ! ?h) ?ks" using assms by (simp add: chained_def)
  then have "do { h \<leftarrow> rd tab ?h; find_loop pl a h } = Some (find (\<lambda>i. atom (pl ! i) = a) ?ks)"
    using h by (simp add: rd_Some find_loop_chain)
  then show ?thesis
    by (auto simp: find_None_iff find_Some_iff split: option.splits dest!: nth_mem [where xs = "?ks"])
qed

lemma map_of_ents:
  assumes "unique_names pl n"
  shows "i < n \<Longrightarrow> atom (pl ! i) = a \<Longrightarrow> a \<noteq> 0 \<Longrightarrow> map_of (ents pl n v) a = Some (prflags (pl ! i), v ! i)"
    and "\<forall>i < n. atom (pl ! i) \<noteq> 0 \<longrightarrow> atom (pl ! i) \<noteq> a \<Longrightarrow> map_of (ents pl n v) a = None"
proof -
  assume i: "i < n" "atom (pl ! i) = a" "a \<noteq> 0"
  have "distinct (map fst (ents pl n v))"
    using assms by (simp add: ents_def comp_def distinct_map unique_names_def)
  moreover have "(a, prflags (pl ! i), v ! i) \<in> set (ents pl n v)"
    using i by (auto simp: ents_def intro!: image_eqI)
  ultimately show "map_of (ents pl n v) a = Some (prflags (pl ! i), v ! i)" by (rule map_of_is_SomeI)
next
  assume "\<forall>i < n. atom (pl ! i) \<noteq> 0 \<longrightarrow> atom (pl ! i) \<noteq> a"
  then show "map_of (ents pl n v) a = None" by (auto simp: map_of_eq_None_iff ents_def)
qed

section \<open>Removal\<close>

lemma find_prev_loop_chain:
  assumes "is_chain pl h (us @ i # vs)" and "atom (pl ! i) = a" and "\<forall>u \<in> set us. atom (pl ! u) \<noteq> a"
  shows "find_prev_loop pl a l h = Some (Some (if us = [] then l else Some (last us), i))"
  using assms
  by (induction us arbitrary: h l) (auto simp: find_prev_loop.simps rd_Some)

lemma find_prev_loop_none:
  assumes "is_chain pl h ks" and "\<forall>u \<in> set ks. atom (pl ! u) \<noteq> a"
  shows "find_prev_loop pl a l h = Some None"
  using assms by (induction ks arbitrary: h l) (auto simp: find_prev_loop.simps rd_Some)

lemma is_chain_split:
  "is_chain pl h (us @ i # vs) \<Longrightarrow> i < length pl \<and> is_chain pl (hash_next (pl ! i)) vs"
  by (induction us arbitrary: h) auto

lemma is_chain_skip:
  assumes "is_chain pl h (us @ i # vs)" and "us \<noteq> []" and "distinct (us @ i # vs)"
  shows "is_chain (pl[last us := (pl ! last us)\<lparr>hash_next := hash_next (pl ! i)\<rparr>]) h (us @ vs)"
  using assms
proof (induction us arbitrary: h)
  case (Cons u us)
  let ?q = "pl[last (u # us) := (pl ! last (u # us))\<lparr>hash_next := hash_next (pl ! i)\<rparr>]"
  have u: "h = Suc u" "u < length pl" "is_chain pl (hash_next (pl ! u)) (us @ i # vs)" using Cons.prems(1) by auto
  show ?case
  proof (cases "us = []")
    case True
    have "is_chain ?q (hash_next (pl ! i)) vs"
    proof (rule is_chain_cong)
      show "is_chain pl (hash_next (pl ! i)) vs" using is_chain_split [OF u(3)] by simp
      show "hash_next (pl ! j) = hash_next (?q ! j)" if "j \<in> set vs" for j
        using that Cons.prems(3) True by (cases "u = j") auto
    qed simp
    then show ?thesis using u True by simp
  next
    case False
    then have "last us \<noteq> u" using Cons.prems(3) by auto
    then show ?thesis using Cons.IH [OF u(3) False] Cons.prems(3) u False by simp
  qed
qed simp

definition cleared :: "shape_prop list \<Rightarrow> nat \<Rightarrow> shape_prop list" where
  "cleared pl i = pl[i := (pl ! i)\<lparr>prflags := 0, atom := 0\<rparr>]"

lemma live_cleared: "i < length pl \<Longrightarrow> live (cleared pl i) n = filter (\<lambda>j. j \<noteq> i) (live pl n)"
  unfolding live_def cleared_def filter_filter by (rule filter_cong) (auto simp: nth_list_update)

lemma ents_cleared:
  assumes "i < length pl" and "i < n" and "unique_names pl n" and "atom (pl ! i) = a" and "a \<noteq> 0"
  shows "ents (cleared pl i) n (v[i := x]) = filter (\<lambda>(b, _). b \<noteq> a) (ents pl n v)"
proof -
  have "filter (\<lambda>(b, _). b \<noteq> a) (ents pl n v) =
      map (\<lambda>j. (atom (pl ! j), prflags (pl ! j), v ! j)) (filter (\<lambda>j. j \<noteq> i) (live pl n))"
    unfolding ents_def filter_map
    by (intro arg_cong2 [where f = map] filter_cong) (use assms unique_namesD [OF assms(3)] in auto)
  then show ?thesis
    unfolding ents_def live_cleared [OF assms(1)] by (auto simp: cleared_def)
qed

lemma chained_remove:
  assumes c: "chained pl n msk tab" and i: "i < n" "atom (pl ! i) = a" "a \<noteq> 0"
    and ks: "chain_of pl n msk (hash_slot a msk) = us @ i # vs"
  shows "chained (cleared (if us = [] then pl else pl[last us := (pl ! last us)\<lparr>hash_next := hash_next (pl ! i)\<rparr>]) i)
    n msk (if us = [] then tab[hash_slot a msk := hash_next (pl ! i)] else tab)"
    (is "chained (cleared ?pl i) n msk ?tab")
proof -
  let ?h = "hash_slot a msk"
  have il: "i < length pl" using c i by (simp add: chained_def)
  have d: "distinct (us @ i # vs)" using distinct_chain_of [of pl n msk ?h] ks by simp
  have lu: "us \<noteq> [] \<Longrightarrow> last us \<noteq> i \<and> last us \<in> set (chain_of pl n msk ?h)"
    using d ks last_in_set by (metis Un_iff distinct_append list.set_intros(1) not_distinct_conv_prefix set_append disjoint_iff)
  have "us \<noteq> [] \<Longrightarrow> last us < length pl" using lu c by (auto simp: chained_def)
  then have at: "atom (?pl ! j) = atom (pl ! j)" for j by (cases "j = last us") auto
  have old: "is_chain pl (tab ! k) (chain_of pl n msk k)" if "k < length tab" for k
    using c that by (simp add: chained_def)
  have h: "?h < length tab" using c hash_slot_less by (simp add: chained_def)
  have ch: "chain_of (cleared ?pl i) n msk k = filter (\<lambda>j. j \<noteq> i) (chain_of pl n msk k)" for k
  proof -
    have "live (cleared ?pl i) n = filter (\<lambda>j. j \<noteq> i) (live pl n)"
      using live_cleared [of i ?pl n] il live_cong [of n ?pl pl] at by auto
    moreover have "j \<noteq> i \<Longrightarrow> atom (cleared ?pl i ! j) = atom (pl ! j)" for j using at by (auto simp: cleared_def)
    ultimately show ?thesis unfolding chain_of_def rev_filter [symmetric] filter_filter
      by (auto intro!: filter_cong)
  qed
  have nx: "hash_next (cleared ?pl i ! j) = hash_next (?pl ! j)" for j
    using il by (cases "j = i") (auto simp: cleared_def)
  have len: "length (cleared ?pl i) = length pl" "length ?pl = length pl" by (auto simp: cleared_def)
  have K: "is_chain (cleared ?pl i) (?tab ! k) (chain_of (cleared ?pl i) n msk k)" if k: "k < length tab" for k
  proof (cases "k = ?h")
    case True
    have "filter (\<lambda>j. j \<noteq> i) us = us" "filter (\<lambda>j. j \<noteq> i) vs = vs" using d by (auto intro!: filter_True)
    then have "filter (\<lambda>j. j \<noteq> i) (us @ i # vs) = us @ vs" by simp
    then have e: "chain_of (cleared ?pl i) n msk k = us @ vs" unfolding ch True ks .
    have "is_chain ?pl (?tab ! k) (us @ vs)"
    proof (cases "us = []")
      case u: True
      then show ?thesis using is_chain_split [of pl "tab ! ?h" us i vs] old [OF h] h unfolding ks True by simp
    next
      case False
      then show ?thesis using is_chain_skip [OF old [OF h, unfolded ks] False d] True by simp
    qed
    then show ?thesis unfolding e by (rule is_chain_cong) (auto simp: nx len)
  next
    case False
    have "i \<notin> set (chain_of pl n msk k)" using i False by auto
    then have e: "chain_of (cleared ?pl i) n msk k = chain_of pl n msk k"
      unfolding ch by (auto intro!: filter_True)
    have "us \<noteq> [] \<Longrightarrow> last us \<notin> set (chain_of pl n msk k)" using lu False by auto
    then have "is_chain ?pl (tab ! k) (chain_of pl n msk k)"
    proof (intro is_chain_cong [OF old [OF k]])
      fix j
      assume "j \<in> set (chain_of pl n msk k)"
      then have "us \<noteq> [] \<Longrightarrow> last us \<noteq> j" using \<open>us \<noteq> [] \<Longrightarrow> last us \<notin> _\<close> by blast
      then show "hash_next (pl ! j) = hash_next (?pl ! j)" by auto
    qed simp
    then have "is_chain (cleared ?pl i) (tab ! k) (chain_of pl n msk k)"
      by (rule is_chain_cong) (auto simp: nx len)
    then show ?thesis unfolding e using False by (cases "us = []") auto
  qed
  have "length ?tab = length tab" by simp
  then show ?thesis unfolding chained_def len using c K by (auto simp only: chained_def)
qed

section \<open>Compaction\<close>

lemma ents_Suc:
  "ents pl (Suc n) v = ents pl n v @ (if atom (pl ! n) \<noteq> 0 then [(atom (pl ! n), prflags (pl ! n), v ! n)] else [])"
  by (simp add: ents_def live_Suc)

text \<open>After \<open>i\<close> old entries, \<open>j\<close> entries of the new block hold the live ones among them; the values from
  \<open>i\<close> on are still in place.\<close>

definition compacted ::
  "shape_prop list \<Rightarrow> 'v list \<Rightarrow> u32 \<Rightarrow> nat \<Rightarrow> nat \<Rightarrow> shape_prop list \<times> nat list \<times> 'v list \<Rightarrow> bool" where
  "compacted old vals0 msk i j st \<longleftrightarrow> (case st of (pl, tab, vals) \<Rightarrow>
     j = length (live old i) \<and> chained pl j msk tab \<and> (\<forall>k < j. atom (pl ! k) \<noteq> 0) \<and>
     ents pl j vals = ents old i vals0 \<and> (\<forall>k \<ge> i. vals ! k = vals0 ! k) \<and> length vals = length vals0)"

lemma live_length_le: "length (live pl n) \<le> n"
  using length_filter_le [of _ "[0..<n]"] by (simp add: live_def)

lemma live_length_mono: "m \<le> n \<Longrightarrow> length (live pl m) \<le> length (live pl n)"
proof (induction rule: dec_induct)
  case (step n)
  then show ?case by (simp add: live_Suc)
qed simp

lemma ents_ext: "(\<And>i. i < n \<Longrightarrow> p ! i = q ! i) \<Longrightarrow> (\<And>i. i < n \<Longrightarrow> v ! i = w ! i) \<Longrightarrow> ents p n v = ents q n w"
  by (rule ents_cong) auto

lemma hash_next_update: "x\<lparr>hash_next := v\<rparr> = \<lparr>hash_next = v, prflags = prflags x, atom = atom x\<rparr>"
  by (cases x) simp

lemma compact_step:
  assumes c: "compacted old vals0 msk i j (pl, tab, vals)" and i: "i < n" "n \<le> length old" "n \<le> length vals0"
    and fit: "length (live old n) \<le> length pl" and n: "n < 2 ^ 26" and a: "atom (old ! i) \<noteq> 0"
  shows "\<exists>pl' tab'. compacted old vals0 msk (Suc i) (Suc j) (pl', tab', vals[j := vals ! i]) \<and> length pl' = length pl \<and>
    compact_loop msk old n i j (pl, tab, vals) = compact_loop msk old n (Suc i) (Suc j) (pl', tab', vals[j := vals ! i])"
proof -
  let ?x = "old ! i"
  let ?h = "hash_slot (atom ?x) msk"
  have j: "j = length (live old i)" "chained pl j msk tab" and at: "\<forall>k < j. atom (pl ! k) \<noteq> 0"
    and e: "ents pl j vals = ents old i vals0" and v: "\<forall>k \<ge> i. vals ! k = vals0 ! k" "length vals = length vals0"
    using c by (auto simp: compacted_def)
  have "length (live old (Suc i)) \<le> length (live old n)" using i by (intro live_length_mono) simp
  then have jl: "j < length pl" using fit j(1) a by (simp add: live_Suc)
  have ji: "j \<le> i" using live_length_le [of old i] j(1) by simp
  define pl0 where "pl0 = pl[j := ?x]"
  have same0: "k < j \<Longrightarrow> pl0 ! k = pl ! k" for k by (simp add: pl0_def)
  have x0: "pl0 ! j = ?x" using jl by (simp add: pl0_def)
  have "chain_of pl0 j msk k = chain_of pl j msk k" for k by (rule chain_of_cong) (simp add: same0)
  moreover have "is_chain pl0 (tab ! k) (chain_of pl j msk k)" if "k < length tab" for k
  proof (rule is_chain_cong)
    show "is_chain pl (tab ! k) (chain_of pl j msk k)" using j(2) that by (simp add: chained_def)
    show "hash_next (pl ! l) = hash_next (pl0 ! l)" if "l \<in> set (chain_of pl j msk k)" for l
      using that same0 [of l] by simp
  qed (simp add: pl0_def)
  ultimately have c0: "chained pl0 j msk tab"
    using j(2) unfolding chained_def pl0_def by simp
  have "j < length pl0" "j < 2 ^ 26" using jl ji i n by (auto simp: pl0_def)
  then obtain pl' tab' where 1: "hash_link msk j (pl0, tab) = Some (pl', tab')" "chained pl' (Suc j) msk tab'"
      "same_names pl' pl0"
    using hash_link_ok [OF c0] a x0 by auto
  have h: "?h < length tab" using j(2) hash_slot_less by (simp add: chained_def)
  have pl': "pl' = pl[j := \<lparr>hash_next = tab ! ?h mod 2 ^ 26, prflags = prflags ?x, atom = atom ?x\<rparr>]"
    and tab': "tab' = tab[?h := j + 1]"
    using 1(1) h jl by (auto simp: hash_link_def rd_Some pl0_def Let_def hash_next_update [where x = "old ! i"])
  let ?vals = "vals[j := vals ! i]"
  have vj: "?vals ! j = vals0 ! i" using v ji i by simp
  have "ents pl' j ?vals = ents pl j vals" by (rule ents_ext) (auto simp: pl')
  then have "ents pl' (Suc j) ?vals = ents old (Suc i) vals0"
    using a jl vj by (simp add: ents_Suc e) (simp add: pl')
  moreover have "\<forall>k < Suc j. atom (pl' ! k) \<noteq> 0" using at a jl by (auto simp: pl' less_Suc_eq)
  moreover have "\<forall>k \<ge> Suc i. ?vals ! k = vals0 ! k" using v(1) ji by auto
  ultimately have "compacted old vals0 msk (Suc i) (Suc j) (pl', tab', ?vals)"
    using 1(2) j(1) a v(2) by (auto simp: compacted_def live_Suc)
  moreover have "compact_loop msk old n i j (pl, tab, vals) = compact_loop msk old n (Suc i) (Suc j) (pl', tab', ?vals)"
    using i a h jl ji v(2)
    by (subst compact_loop.simps) (simp add: rd_Some Let_def pl' tab')
  ultimately show ?thesis by (intro exI [of _ pl'] exI [of _ tab']) (simp add: pl')
qed

lemma compact_loop_ok:
  assumes "compacted old vals0 msk i j (pl, tab, vals)" and "i \<le> n" "n \<le> length old" "n \<le> length vals0"
    and "length (live old n) \<le> length pl" and "n < 2 ^ 26"
  shows "\<exists>j' st. compact_loop msk old n i j (pl, tab, vals) = Some (j', st) \<and> compacted old vals0 msk n j' st \<and>
    length (fst st) = length pl"
  using assms
proof (induction "n - i" arbitrary: i j pl tab vals)
  case 0
  then show ?case by (simp add: compact_loop.simps)
next
  case (Suc d)
  then have i: "i < n" and d: "d = n - Suc i" by linarith+
  show ?case
  proof (cases "atom (old ! i) = 0")
    case True
    have "compact_loop msk old n i j (pl, tab, vals) = compact_loop msk old n (Suc i) j (pl, tab, vals)"
      using i True Suc.prems by (subst compact_loop.simps) (simp add: rd_Some)
    moreover have "compacted old vals0 msk (Suc i) j (pl, tab, vals)"
      using Suc.prems(1) True by (auto simp: compacted_def live_Suc ents_Suc)
    ultimately show ?thesis using Suc(1) [OF d] Suc.prems i by auto
  next
    case False
    obtain pl' tab' where 1: "compacted old vals0 msk (Suc i) (Suc j) (pl', tab', vals[j := vals ! i])" "length pl' = length pl"
      "compact_loop msk old n i j (pl, tab, vals) = compact_loop msk old n (Suc i) (Suc j) (pl', tab', vals[j := vals ! i])"
      using compact_step [OF Suc.prems(1) i Suc.prems(3-6) False] by blast
    then show ?thesis using Suc(1) [OF d 1(1)] Suc.prems i by auto
  qed
qed

end
