(* ===== verification/Shape_Inv.thy ===== *)
theory Shape_Inv
  imports Shape_Spec
begin

text \<open>
  The invariant of the runtime's shapes and objects: every shape is well formed and counts its users,
  a shape outside the runtime's table has one user only, the table holds each hashed shape once, in
  the bucket of its hash.
\<close>

section \<open>The invariant\<close>

definition shape_wf :: "shape \<Rightarrow> bool" where
  "shape_wf sh \<longleftrightarrow> chained (sh_prop sh) (prop_count sh) (prop_hash_mask sh) (prop_hash sh) \<and>
     length (sh_prop sh) = prop_size sh \<and> unique_names (sh_prop sh) (prop_count sh) \<and>
     prop_count sh < 2 ^ 26 \<and> prop_size sh < 2 ^ 27 \<and>
     prop_count sh = deleted_prop_count sh + length (live (sh_prop sh) (prop_count sh))"

definition hkey :: "(ptr \<Rightarrow> shape option) \<Rightarrow> ptr \<Rightarrow> u32 option" where
  "hkey S s = (case S s of None \<Rightarrow> None | Some sh \<Rightarrow> if is_hashed sh then Some (sh_hash sh) else None)"

text \<open>\<open>U\<close> is the set of hashed shapes that are unlinked for the moment.\<close>

definition linked :: "(ptr \<Rightarrow> shape option) \<Rightarrow> ptr set \<Rightarrow> ptr \<Rightarrow> u32 option" where
  "linked S U s = (if s \<in> U then None else hkey S s)"

definition table_ok :: "(ptr \<Rightarrow> shape option) \<Rightarrow> nat \<Rightarrow> ptr list list \<Rightarrow> ptr set \<Rightarrow> bool" where
  "table_ok S bits tab U \<longleftrightarrow> bits \<le> 32 \<and> length tab = 2 ^ bits \<and> (\<forall>h < length tab. distinct (tab ! h) \<and>
     set (tab ! h) = {s. \<exists>k. linked S U s = Some k \<and> get_shape_hash k bits = h})"

definition users :: "(ptr \<Rightarrow> 'v obj option) \<Rightarrow> ptr \<Rightarrow> ptr set" where
  "users B s = {p. \<exists>ob. B p = Some ob \<and> oshape ob = s}"

text \<open>\<open>ext s\<close> counts the references to \<open>s\<close> that are not from objects.\<close>

definition shape_ok :: "ptr \<Rightarrow> (ptr \<Rightarrow> 'v obj option) \<Rightarrow> (ptr \<Rightarrow> int) \<Rightarrow> ptr \<Rightarrow> shape \<Rightarrow> bool" where
  "shape_ok N B ext s sh \<longleftrightarrow> shape_wf sh \<and> 0 < s \<and> s < N \<and>
     sh_ref_count sh = int (card (users B s)) + ext s \<and> 1 \<le> sh_ref_count sh \<and>
     (\<not> is_hashed sh \<longrightarrow> sh_ref_count sh = 1)"

definition obj_ok :: "ptr \<Rightarrow> (ptr \<Rightarrow> shape option) \<Rightarrow> ptr \<Rightarrow> 'v obj \<Rightarrow> bool" where
  "obj_ok N S p ob \<longleftrightarrow> 0 < p \<and> p < N \<and>
     (\<exists>sh. S (oshape ob) = Some sh \<and> prop_size sh \<le> length (oprop ob))"

definition rt_inv :: "(ptr \<Rightarrow> int) \<Rightarrow> ptr set \<Rightarrow> 'v rt \<Rightarrow> bool" where
  "rt_inv ext U rt \<longleftrightarrow> 0 < next_ptr rt \<and> finite (dom (objs rt)) \<and>
     (\<forall>s. shapes rt s = None \<longrightarrow> ext s = 0) \<and>
     (\<forall>s sh. shapes rt s = Some sh \<longrightarrow> shape_ok (next_ptr rt) (objs rt) ext s sh) \<and>
     (\<forall>p ob. objs rt p = Some ob \<longrightarrow> obj_ok (next_ptr rt) (shapes rt) p ob) \<and>
     table_ok (shapes rt) (shape_hash_bits rt) (shape_hash_tab rt) U"

lemma shape_ok_users: "shape_ok N B ext s sh \<Longrightarrow> users B' s = users B s \<Longrightarrow> ext' s = ext s \<Longrightarrow> shape_ok N B' ext' s sh"
  unfolding shape_ok_def by metis

lemma rt_inv_shape: "rt_inv ext U rt \<Longrightarrow> shapes rt s = Some sh \<Longrightarrow> shape_ok (next_ptr rt) (objs rt) ext s sh"
  by (simp add: rt_inv_def)

lemma rt_inv_object: "rt_inv ext U rt \<Longrightarrow> objs rt p = Some ob \<Longrightarrow> obj_ok (next_ptr rt) (shapes rt) p ob"
  by (simp add: rt_inv_def)

lemma shape_ok_mono: "shape_ok N B ext s sh \<Longrightarrow> N \<le> N' \<Longrightarrow> shape_ok N' B ext s sh"
  by (auto simp: shape_ok_def)

lemma obj_ok_mono: "obj_ok N S p ob \<Longrightarrow> N \<le> N' \<Longrightarrow> obj_ok N' S p ob"
  by (auto simp: obj_ok_def)

text \<open>What an object stands for: names, flags and values in the order of insertion.\<close>

definition obj_entries :: "'v rt \<Rightarrow> ptr \<Rightarrow> (u32 \<times> nat \<times> 'v slot) list" where
  "obj_entries rt p = (case objs rt p of None \<Rightarrow> [] | Some ob \<Rightarrow>
     (case shapes rt (oshape ob) of None \<Rightarrow> [] | Some sh \<Rightarrow> ents (sh_prop sh) (prop_count sh) (oprop ob)))"

definition others_same :: "ptr \<Rightarrow> 'v rt \<Rightarrow> 'v rt \<Rightarrow> bool" where
  "others_same p rt rt' \<longleftrightarrow> (\<forall>q. q \<noteq> p \<longrightarrow> objs rt' q = objs rt q \<and> obj_entries rt' q = obj_entries rt q)"

lemma others_same_refl: "others_same p rt rt"
  by (simp add: others_same_def)

lemma others_same_trans: "others_same p rt rt1 \<Longrightarrow> others_same p rt1 rt2 \<Longrightarrow> others_same p rt rt2"
  by (simp add: others_same_def)

lemma rt_invD:
  assumes "rt_inv ext U rt" and "shapes rt s = Some sh"
  shows "shape_wf sh" "0 < s" "s < next_ptr rt" "sh_ref_count sh = int (card (users (objs rt) s)) + ext s"
    "1 \<le> sh_ref_count sh" "\<not> is_hashed sh \<Longrightarrow> sh_ref_count sh = 1"
  using assms unfolding rt_inv_def shape_ok_def by blast+

lemma rt_inv_obj:
  assumes "rt_inv ext U rt" and "objs rt p = Some ob"
  obtains sh where "shapes rt (oshape ob) = Some sh" "prop_size sh \<le> length (oprop ob)"
  using assms unfolding rt_inv_def obj_ok_def by blast

lemma rt_inv_table: "rt_inv ext U rt \<Longrightarrow> table_ok (shapes rt) (shape_hash_bits rt) (shape_hash_tab rt) U"
  by (simp add: rt_inv_def)

lemma rt_inv_finite: "rt_inv ext U rt \<Longrightarrow> finite (users (objs rt) s)"
  by (rule finite_subset [of _ "dom (objs rt)"]) (auto simp: rt_inv_def users_def)

lemma only_user:
  assumes i: "rt_inv ext U rt" and "shapes rt s = Some sh" "sh_ref_count sh = 1" "0 \<le> ext s"
    and p: "objs rt p = Some ob" "oshape ob = s"
  shows "users (objs rt) s = {p}" "ext s = 0"
proof -
  have "p \<in> users (objs rt) s" using p by (auto simp: users_def)
  moreover have "int (card (users (objs rt) s)) + ext s = 1" using rt_invD(4) [OF i assms(2)] assms(3) by simp
  moreover have "0 < card (users (objs rt) s)" using rt_inv_finite [OF i] calculation(1) card_gt_0_iff by blast
  ultimately have "card (users (objs rt) s) = 1" "ext s = 0" using assms(4) by linarith+
  then show "users (objs rt) s = {p}" "ext s = 0" using \<open>p \<in> _\<close> by (auto simp: card_1_singleton_iff)
qed

section \<open>The table of shapes\<close>

lemma get_shape_hash_less:
  assumes "bits \<le> 32"
  shows "get_shape_hash k bits < 2 ^ bits"
proof -
  have "unat (drop_bit (32 - bits) k) = unat k div 2 ^ (32 - bits)"
    unfolding unat_drop_bit_eq by (rule drop_bit_eq_div)
  moreover have "2 ^ bits * 2 ^ (32 - bits) = (2 :: nat) ^ 32"
    using assms by (metis le_add_diff_inverse power_add)
  moreover have "unat k < 2 ^ 32" using unsigned_less [of k, where ?'a = nat] by simp
  ultimately show ?thesis unfolding get_shape_hash_def by (metis less_mult_imp_div_less)
qed

lemma table_ok_cong: "table_ok S bits tab U \<Longrightarrow> linked S' U' = linked S U \<Longrightarrow> table_ok S' bits tab U'"
  by (simp add: table_ok_def)

lemma table_link:
  assumes t: "table_ok S bits tab U" and s: "linked S U s = None" and k: "linked S' U' = (linked S U)(s \<mapsto> k)"
  shows "get_shape_hash k bits < length tab"
    and "table_ok S' bits (tab[get_shape_hash k bits := s # tab ! get_shape_hash k bits]) U'"
proof -
  let ?h = "get_shape_hash k bits"
  show h: "?h < length tab" using t get_shape_hash_less by (auto simp: table_ok_def)
  then show "table_ok S' bits (tab[?h := s # tab ! ?h]) U'"
    using t s unfolding table_ok_def k
    by (auto simp: nth_list_update)
qed

lemma table_unlink:
  assumes t: "table_ok S bits tab U" and s: "linked S U s = Some k" and k: "linked S' U' = (linked S U)(s := None)"
  shows "get_shape_hash k bits < length tab" "s \<in> set (tab ! get_shape_hash k bits)"
    and "table_ok S' bits (tab[get_shape_hash k bits := remove1 s (tab ! get_shape_hash k bits)]) U'"
proof -
  let ?h = "get_shape_hash k bits"
  show h: "?h < length tab" using t get_shape_hash_less by (auto simp: table_ok_def)
  then show "s \<in> set (tab ! ?h)" using t s by (auto simp: table_ok_def)
  show "table_ok S' bits (tab[?h := remove1 s (tab ! ?h)]) U'"
    using t s h unfolding table_ok_def k
    by (auto simp: nth_list_update)
qed

section \<open>The basic steps\<close>

lemma rt_inv_core:
  assumes "rt_inv ext U rt" and "shapes rt' = shapes rt" "objs rt' = objs rt" "next_ptr rt \<le> next_ptr rt'"
    "shape_hash_bits rt' = shape_hash_bits rt" "shape_hash_tab rt' = shape_hash_tab rt"
  shows "rt_inv ext U rt'"
  using assms obj_ok_mono [OF _ assms(4)] shape_ok_mono [OF _ assms(4)] unfolding rt_inv_def
  by (metis order_less_le_trans)

text \<open>\<open>rt'\<close> has the same shapes, objects and table.\<close>

definition same_core :: "'v rt \<Rightarrow> 'v rt \<Rightarrow> bool" where
  "same_core rt rt' \<longleftrightarrow> shapes rt' = shapes rt \<and> objs rt' = objs rt \<and> next_ptr rt \<le> next_ptr rt' \<and>
     shape_hash_bits rt' = shape_hash_bits rt \<and> shape_hash_tab rt' = shape_hash_tab rt"

lemma same_core_refl: "same_core rt rt"
  by (simp add: same_core_def)

lemma same_core_trans: "same_core rt rt1 \<Longrightarrow> same_core rt1 rt2 \<Longrightarrow> same_core rt rt2"
  by (auto simp: same_core_def)

lemma same_core_inv: "rt_inv ext U rt \<Longrightarrow> same_core rt rt' \<Longrightarrow> rt_inv ext U rt'"
  by (rule rt_inv_core) (auto simp: same_core_def)

lemma same_core_others: "same_core rt rt' \<Longrightarrow> others_same p rt rt'"
  by (auto simp: same_core_def others_same_def obj_entries_def split: option.splits)

lemma same_core_entries: "same_core rt rt' \<Longrightarrow> obj_entries rt' p = obj_entries rt p"
  by (auto simp: same_core_def obj_entries_def split: option.splits)

lemma js_malloc_core:
  assumes "js_malloc rt = (s, rt')" and "rt_inv ext U rt"
  shows "same_core rt rt'" and "s = 0 \<or> 0 < s \<and> s < next_ptr rt' \<and> next_ptr rt \<le> s"
  using assms by (auto simp: js_malloc_def same_core_def rt_inv_def split: if_splits)

lemma rt_inv_fresh: "rt_inv ext U rt \<Longrightarrow> next_ptr rt \<le> s \<Longrightarrow> shapes rt s = None \<and> objs rt s = None \<and> ext s = 0"
  unfolding rt_inv_def shape_ok_def obj_ok_def by (metis not_le option.exhaust)

lemma fold_atoms_core:
  "same_core rt (fold (\<lambda>x rt. js_dup_atom rt (atom x)) xs rt)"
  "same_core rt (fold (\<lambda>x rt. js_free_atom rt (atom x)) xs rt)"
proof -
  have 1: "same_core rt (js_dup_atom rt a)" "same_core rt (js_free_atom rt a)" for rt :: "'a rt" and a
    by (auto simp: js_dup_atom_def js_free_atom_def same_core_def)
  show "same_core rt (fold (\<lambda>x rt. js_dup_atom rt (atom x)) xs rt)"
    by (induction xs arbitrary: rt) (auto intro: same_core_refl same_core_trans [OF 1(1)])
  show "same_core rt (fold (\<lambda>x rt. js_free_atom rt (atom x)) xs rt)"
    by (induction xs arbitrary: rt) (auto intro: same_core_refl same_core_trans [OF 1(2)])
qed

lemma rt_inv_set_table:
  "rt_inv ext U rt \<Longrightarrow> table_ok (shapes rt) (shape_hash_bits rt) tab U' \<Longrightarrow>
   rt_inv ext U' (rt\<lparr>shape_hash_tab := tab, shape_hash_count := c\<rparr>)"
  unfolding rt_inv_def by simp

lemma js_shape_hash_link_ok:
  assumes i: "rt_inv ext U rt" and s: "shapes rt s = Some sh" "is_hashed sh" "s \<in> U"
  shows "okw (js_shape_hash_link rt s) (\<lambda>rt'. rt_inv ext (U - {s}) rt' \<and> shapes rt' = shapes rt \<and> objs rt' = objs rt \<and> next_ptr rt' = next_ptr rt)"
proof -
  let ?k = "sh_hash sh" and ?tab = "shape_hash_tab rt" and ?bits = "shape_hash_bits rt"
  have "linked (shapes rt) (U - {s}) = (linked (shapes rt) U)(s \<mapsto> ?k)"
    using s by (auto simp: linked_def hkey_def fun_eq_iff)
  from table_link [OF rt_inv_table [OF i] _ this] s(3)
  have 1: "get_shape_hash ?k ?bits < length ?tab"
    "table_ok (shapes rt) ?bits (?tab[get_shape_hash ?k ?bits := s # ?tab ! get_shape_hash ?k ?bits]) (U - {s})"
    by (auto simp: linked_def)
  show ?thesis
    using rt_inv_set_table [OF i 1(2)] s(1) 1(1) by (simp add: js_shape_hash_link_def rd_Some Let_def)
qed

lemma js_shape_hash_unlink_ok:
  assumes i: "rt_inv ext U rt" and s: "shapes rt s = Some sh" "is_hashed sh" "s \<notin> U"
  shows "okw (js_shape_hash_unlink rt s) (\<lambda>rt'. rt_inv ext (insert s U) rt' \<and> shapes rt' = shapes rt \<and> objs rt' = objs rt \<and> next_ptr rt' = next_ptr rt)"
proof -
  let ?k = "sh_hash sh" and ?tab = "shape_hash_tab rt" and ?bits = "shape_hash_bits rt"
  have k: "linked (shapes rt) (insert s U) = (linked (shapes rt) U)(s := None)" "linked (shapes rt) U s = Some ?k"
    using s by (auto simp: linked_def hkey_def fun_eq_iff)
  note 1 = table_unlink [OF rt_inv_table [OF i] k(2,1)]
  show ?thesis
    using rt_inv_set_table [OF i 1(3)] s(1) 1(1,2) by (simp add: js_shape_hash_unlink_def rd_Some Let_def)
qed

text \<open>The values of an object may change as long as there is room for all of them.\<close>

lemma rt_inv_set_values:
  assumes i: "rt_inv ext U rt" and p: "objs rt p = Some ob" "shapes rt (oshape ob) = Some sh"
    and n: "prop_size sh \<le> length vals"
    and r: "shapes rt' = shapes rt" "objs rt' = (objs rt)(p \<mapsto> ob\<lparr>oprop := vals\<rparr>)" "next_ptr rt' = next_ptr rt"
      "shape_hash_tab rt' = shape_hash_tab rt" "shape_hash_bits rt' = shape_hash_bits rt"
  shows "rt_inv ext U rt'" "others_same p rt rt'" "obj_entries rt' p = ents (sh_prop sh) (prop_count sh) vals"
proof -
  have us: "users (objs rt') = users (objs rt)" unfolding r using p(1) by (auto simp: users_def fun_eq_iff)
  have fin: "finite (dom (objs rt'))" using i unfolding r by (simp add: rt_inv_def)
  have "obj_ok (next_ptr rt) (shapes rt) q b" if "objs rt' q = Some b" for q b
    using i p n that unfolding r rt_inv_def by (auto simp: obj_ok_def split: if_splits)
  moreover have "shape_ok (next_ptr rt) (objs rt') ext s x" if "shapes rt s = Some x" for s x
    using rt_inv_shape [OF i that] by (rule shape_ok_users) (simp_all add: us)
  ultimately show "rt_inv ext U rt'"
    using i fin unfolding rt_inv_def r(1,3,4,5) by blast
  show "others_same p rt rt'" by (auto simp: others_same_def obj_entries_def r split: option.splits)
  show "obj_entries rt' p = ents (sh_prop sh) (prop_count sh) vals" using p by (simp add: obj_entries_def r)
qed

lemma realloc_prop_ok:
  assumes i: "rt_inv ext U rt" and p: "objs rt p = Some ob" "shapes rt (oshape ob) = Some sh"
    and n: "prop_size sh \<le> n"
  shows "okw (realloc_prop rt p n) (\<lambda>(ok, rt'). rt_inv ext U rt' \<and> others_same p rt rt' \<and> obj_entries rt' p = obj_entries rt p \<and>
    shapes rt' = shapes rt \<and> next_ptr rt' = next_ptr rt \<and>
    (\<exists>vals. objs rt' = (objs rt)(p \<mapsto> ob\<lparr>oprop := vals\<rparr>) \<and> prop_size sh \<le> length vals \<and> (ok \<longrightarrow> length vals = n)))"
proof -
  let ?v = "take n (oprop ob) @ replicate (n - length (oprop ob)) (junk_slot rt)"
  let ?rt = "rt\<lparr>malloc_clock := malloc_clock rt + 1\<rparr>"
  let ?rt' = "?rt\<lparr>objs := (objs rt)(p \<mapsto> ob\<lparr>oprop := ?v\<rparr>)\<rparr>"
  have sz: "prop_size sh \<le> length (oprop ob)" using rt_inv_obj [OF i p(1)] p(2) by auto
  have cnt: "prop_count sh \<le> prop_size sh" using rt_invD(1) [OF i p(2)] by (auto simp: shape_wf_def chained_def)
  have e: "ents (sh_prop sh) (prop_count sh) ?v = obj_entries rt p"
    using p cnt sz n by (auto simp: obj_entries_def nth_append intro!: ents_ext)
  have v: "length ?v = n" by simp
  have s: "rt_inv ext U ?rt'" "others_same p rt ?rt'" "obj_entries ?rt' p = obj_entries rt p"
    using rt_inv_set_values [OF i p, of ?v ?rt'] n e v by simp_all
  have c: "same_core rt ?rt" by (simp add: same_core_def)
  note c = same_core_inv [OF i c] same_core_others [OF c, of p] same_core_entries [OF c, of p]
  show ?thesis
  proof (cases "malloc_ok rt (malloc_clock rt)")
    case True
    have "\<exists>vals. objs ?rt' = (objs rt)(p \<mapsto> ob\<lparr>oprop := vals\<rparr>) \<and> prop_size sh \<le> length vals \<and> length vals = n"
      by (intro exI [of _ ?v]) (use n v in simp)
    then show ?thesis using True s p(1) by (simp add: realloc_prop_def Let_def)
  next
    case False
    have "\<exists>vals. objs rt = (objs rt)(p \<mapsto> ob\<lparr>oprop := vals\<rparr>) \<and> prop_size sh \<le> length vals"
      by (intro exI [of _ "oprop ob"]) (use p sz in \<open>simp add: fun_eq_iff\<close>)
    then show ?thesis using False c p(1) by (simp add: realloc_prop_def Let_def)
  qed
qed

section \<open>Creating, sharing and releasing shapes\<close>

lemma rt_inv_users: "rt_inv ext U rt \<Longrightarrow> shapes rt s = None \<Longrightarrow> users (objs rt) s = {}"
  unfolding users_def using rt_inv_obj by fastforce

lemma linked_upd:
  "is_hashed sh \<Longrightarrow> s \<in> U \<or> linked S U s = Some (sh_hash sh) \<Longrightarrow> linked (S(s \<mapsto> sh)) U = linked S U"
  "\<not> is_hashed sh \<Longrightarrow> linked S U s = None \<Longrightarrow> linked (S(s \<mapsto> sh)) U = linked S U"
  "is_hashed sh \<Longrightarrow> linked S U s = None \<Longrightarrow> linked (S(s \<mapsto> sh)) (insert s U) = linked S U"
  by (auto simp: linked_def hkey_def fun_eq_iff)

text \<open>One shape is exchanged; \<open>d\<close> references come or go.\<close>

lemma rt_inv_upd_shape:
  assumes i: "rt_inv ext U rt" and s: "shapes rt s = Some sh"
    and sh': "shape_wf sh'" "prop_size sh' \<le> prop_size sh" "sh_ref_count sh' = sh_ref_count sh + d" "1 \<le> sh_ref_count sh'"
      "\<not> is_hashed sh' \<longrightarrow> sh_ref_count sh' = 1"
    and l: "linked ((shapes rt)(s \<mapsto> sh')) U' = linked (shapes rt) U"
    and r: "shapes rt' = (shapes rt)(s \<mapsto> sh')" "objs rt' = objs rt" "next_ptr rt' = next_ptr rt"
      "shape_hash_tab rt' = shape_hash_tab rt" "shape_hash_bits rt' = shape_hash_bits rt"
  shows "rt_inv (ext(s := ext s + d)) U' rt'"
proof -
  have "shape_ok (next_ptr rt) (objs rt) (ext(s := ext s + d)) t x" if "shapes rt' t = Some x" for t x
  proof (cases "t = s")
    case True
    then show ?thesis using rt_inv_shape [OF i s] sh' that unfolding shape_ok_def r by auto
  next
    case False
    then show ?thesis using rt_inv_shape [OF i, of t x] that by (auto simp: r intro: shape_ok_users)
  qed
  moreover have "obj_ok (next_ptr rt) (shapes rt') p ob" if "objs rt p = Some ob" for p ob
    using rt_inv_object [OF i that] s sh'(2) unfolding obj_ok_def r by auto
  moreover have "table_ok (shapes rt') (shape_hash_bits rt) (shape_hash_tab rt) U'"
    using table_ok_cong [OF rt_inv_table [OF i]] l r(1) by simp
  ultimately show ?thesis
    using i s unfolding rt_inv_def r(2-5) by (auto simp: r(1))
qed

lemma upd_shape_others:
  assumes "shapes rt' = (shapes rt)(s \<mapsto> sh')" "objs rt' = objs rt" "shapes rt s = Some sh"
    and "sh_prop sh' = sh_prop sh" "prop_count sh' = prop_count sh"
  shows "obj_entries rt' q = obj_entries rt q" "others_same p rt rt'"
proof -
  show *: "obj_entries rt' q = obj_entries rt q" for q
    using assms by (auto simp: obj_entries_def split: option.splits)
  show "others_same p rt rt'" using assms(2) * by (simp add: others_same_def)
qed

text \<open>A new shape, referenced by its creator.\<close>

lemma rt_inv_new_shape:
  assumes i: "rt_inv ext U rt" and s: "shapes rt s = None" "0 < s" "s < next_ptr rt"
    and sh: "shape_wf sh" "sh_ref_count sh = 1"
    and r: "shapes rt' = (shapes rt)(s \<mapsto> sh)" "objs rt' = objs rt" "next_ptr rt' = next_ptr rt"
      "shape_hash_tab rt' = shape_hash_tab rt" "shape_hash_bits rt' = shape_hash_bits rt"
  shows "rt_inv (ext(s := 1)) (if is_hashed sh then insert s U else U) rt'" "obj_entries rt' q = obj_entries rt q"
proof -
  let ?U = "if is_hashed sh then insert s U else U"
  have "shape_ok (next_ptr rt) (objs rt) (ext(s := 1)) t x" if "shapes rt' t = Some x" for t x
  proof (cases "t = s")
    case True
    then show ?thesis using that sh s rt_inv_users [OF i s(1)] by (simp add: r shape_ok_def)
  next
    case False
    then show ?thesis using rt_inv_shape [OF i, of t x] that by (auto simp: r intro: shape_ok_users)
  qed
  moreover have "obj_ok (next_ptr rt) (shapes rt') p ob" if "objs rt p = Some ob" for p ob
    using rt_inv_object [OF i that] s(1) unfolding obj_ok_def r by auto
  moreover have "linked (shapes rt) U s = None" using s(1) by (simp add: linked_def hkey_def)
  then have "linked (shapes rt') ?U = linked (shapes rt) U" using linked_upd(2,3) by (auto simp: r)
  then have "table_ok (shapes rt') (shape_hash_bits rt) (shape_hash_tab rt) ?U"
    by (rule table_ok_cong [OF rt_inv_table [OF i]])
  ultimately show "rt_inv (ext(s := 1)) ?U rt'"
    using i unfolding rt_inv_def r(2-5) by (auto simp: r(1))
  have "oshape ob \<noteq> s" if "objs rt p = Some ob" for p ob
    using rt_inv_object [OF i that] s(1) by (auto simp: obj_ok_def)
  then show "obj_entries rt' q = obj_entries rt q" by (auto simp: obj_entries_def r split: option.splits)
qed

text \<open>The last reference goes.\<close>

lemma rt_inv_drop_shape:
  assumes i: "rt_inv ext U rt" and s: "shapes rt s = Some sh" "users (objs rt) s = {}"
    and l: "linked ((shapes rt)(s := None)) U' = linked (shapes rt) U"
    and r: "shapes rt' = (shapes rt)(s := None)" "objs rt' = objs rt" "next_ptr rt' = next_ptr rt"
      "shape_hash_tab rt' = shape_hash_tab rt" "shape_hash_bits rt' = shape_hash_bits rt"
  shows "rt_inv (ext(s := 0)) U' rt'" "obj_entries rt' q = obj_entries rt q"
proof -
  have ne: "oshape ob \<noteq> s" if "objs rt p = Some ob" for p ob using s(2) that by (auto simp: users_def)
  have "shape_ok (next_ptr rt) (objs rt) (ext(s := 0)) t x" if "shapes rt' t = Some x" for t x
    using rt_inv_shape [OF i, of t x] that by (auto simp: r intro: shape_ok_users split: if_splits)
  moreover have "obj_ok (next_ptr rt) (shapes rt') p ob" if "objs rt p = Some ob" for p ob
    using rt_inv_object [OF i that] ne [OF that] unfolding obj_ok_def r by auto
  moreover have "table_ok (shapes rt') (shape_hash_bits rt) (shape_hash_tab rt) U'"
    using table_ok_cong [OF rt_inv_table [OF i]] l r(1) by simp
  ultimately show "rt_inv (ext(s := 0)) U' rt'"
    using i unfolding rt_inv_def r(2-5) by (auto simp: r(1))
  show "obj_entries rt' q = obj_entries rt q" using ne by (auto simp: obj_entries_def r split: option.splits)
qed

lemma rt_inv_move:
  assumes i: "rt_inv ext U rt" and p: "objs rt p = Some ob" "oshape ob = s" "s \<noteq> s'"
    and s': "shapes rt s' = Some sh'" "prop_size sh' \<le> length vals"
    and r: "shapes rt' = shapes rt" "objs rt' = (objs rt)(p \<mapsto> ob\<lparr>oshape := s', oprop := vals\<rparr>)" "next_ptr rt' = next_ptr rt"
      "shape_hash_tab rt' = shape_hash_tab rt" "shape_hash_bits rt' = shape_hash_bits rt"
  shows "rt_inv (ext(s := ext s + 1, s' := ext s' - 1)) U rt'" "others_same p rt rt'"
    "obj_entries rt' p = ents (sh_prop sh') (prop_count sh') vals"
proof -
  let ?ext = "ext(s := ext s + 1, s' := ext s' - 1)"
  have u: "users (objs rt') s' = insert p (users (objs rt) s')" "users (objs rt') s = users (objs rt) s - {p}"
    "t \<noteq> s \<Longrightarrow> t \<noteq> s' \<Longrightarrow> users (objs rt') t = users (objs rt) t" for t
    using p by (auto simp: users_def r)
  have fin: "finite (users (objs rt) t)" for t by (rule rt_inv_finite [OF i])
  have m: "p \<notin> users (objs rt) s'" "p \<in> users (objs rt) s" using p by (auto simp: users_def)
  have c: "int (card (users (objs rt') s')) = int (card (users (objs rt) s')) + 1"
    "int (card (users (objs rt') s)) = int (card (users (objs rt) s)) - 1"
    using u fin m card_gt_0_iff [of "users (objs rt) s"] by (auto simp: of_nat_diff Suc_le_eq)
  have "shape_ok (next_ptr rt') (objs rt') ?ext t x" if t: "shapes rt t = Some x" for t x
  proof -
    have "int (card (users (objs rt') t)) + ?ext t = int (card (users (objs rt) t)) + ext t"
      using c u(3) [of t] p(3) by auto
    then show ?thesis using rt_inv_shape [OF i t] unfolding shape_ok_def r(3) by metis
  qed
  moreover have "obj_ok (next_ptr rt') (shapes rt) q b" if "objs rt' q = Some b" for q b
    using rt_inv_object [OF i, of q b] rt_inv_object [OF i p(1)] that s'
    by (auto simp: obj_ok_def r split: if_splits)
  moreover obtain sh where "shapes rt s = Some sh" using rt_inv_obj [OF i p(1)] p(2) by auto
  moreover have "finite (dom (objs rt'))" using i by (simp add: r rt_inv_def)
  ultimately show "rt_inv ?ext U rt'"
    using i s'(1) unfolding rt_inv_def r(1,4,5) by (auto simp: r(3))
  show "others_same p rt rt'" by (auto simp: others_same_def obj_entries_def r split: option.splits)
  show "obj_entries rt' p = ents (sh_prop sh') (prop_count sh') vals" using s'(1) by (simp add: obj_entries_def r)
qed

lemma rt_inv_set_obj_shape:
  assumes i: "rt_inv ext U rt" and p: "objs rt p = Some ob" "oshape ob = s" "s \<noteq> s'"
    and s': "shapes rt s' = Some sh'" "prop_size sh' \<le> length (oprop ob)"
  shows "okw (set_obj_shape rt p s') (\<lambda>rt'. rt_inv (ext(s := ext s + 1, s' := ext s' - 1)) U rt' \<and> others_same p rt rt' \<and>
    obj_entries rt' p = ents (sh_prop sh') (prop_count sh') (oprop ob) \<and> shapes rt' = shapes rt \<and>
    objs rt' = (objs rt)(p \<mapsto> ob\<lparr>oshape := s'\<rparr>) \<and> next_ptr rt' = next_ptr rt)"
  using rt_inv_move [OF i p s', of "rt\<lparr>objs := (objs rt)(p \<mapsto> ob\<lparr>oshape := s'\<rparr>)\<rparr>"] p(1)
  by (simp add: set_obj_shape_def)

lemma js_dup_shape_ok:
  assumes i: "rt_inv ext U rt" and s: "shapes rt s = Some sh" "is_hashed sh"
  shows "okw (js_dup_shape rt s) (\<lambda>rt'. rt_inv (ext(s := ext s + 1)) U rt' \<and> others_same p rt rt' \<and>
    obj_entries rt' p = obj_entries rt p \<and> objs rt' = objs rt \<and> next_ptr rt' = next_ptr rt \<and>
    shapes rt' = (shapes rt)(s \<mapsto> sh\<lparr>sh_ref_count := sh_ref_count sh + 1\<rparr>))"
proof -
  let ?sh = "sh\<lparr>sh_ref_count := sh_ref_count sh + 1\<rparr>" and ?rt = "set_shape rt s (sh\<lparr>sh_ref_count := sh_ref_count sh + 1\<rparr>)"
  have "linked ((shapes rt)(s \<mapsto> ?sh)) U = linked (shapes rt) U"
    using s by (auto simp: linked_def hkey_def fun_eq_iff)
  from rt_inv_upd_shape [OF i s(1) _ _ _ _ _ this, of 1 ?rt] rt_invD [OF i s(1)] s(2)
  have "rt_inv (ext(s := ext s + 1)) U ?rt" by (simp add: set_shape_def shape_wf_def)
  then show ?thesis
    using s(1) upd_shape_others [of ?rt rt s ?sh sh] by (simp add: js_dup_shape_def set_shape_def)
qed

lemma free_proto_core: "same_core rt (free_proto rt p)" "same_core rt (dup_proto rt p)"
  by (auto simp: free_proto_def dup_proto_def same_core_def)

lemma js_free_shape0_ok:
  assumes i: "rt_inv ext U rt" and s: "shapes rt s = Some sh" "users (objs rt) s = {}" "s \<notin> U"
    and r: "shapes rt' = (shapes rt)(s \<mapsto> sh\<lparr>sh_ref_count := 0\<rparr>)" "objs rt' = objs rt" "next_ptr rt' = next_ptr rt"
      "shape_hash_tab rt' = shape_hash_tab rt" "shape_hash_bits rt' = shape_hash_bits rt"
  shows "okw (js_free_shape0 rt' s) (\<lambda>rt2. rt_inv (ext(s := 0)) U rt2 \<and> objs rt2 = objs rt \<and>
    (\<forall>q. obj_entries rt2 q = obj_entries rt q) \<and> next_ptr rt \<le> next_ptr rt2 \<and> shapes rt2 = (shapes rt)(s := None))"
proof -
  let ?sh = "sh\<lparr>sh_ref_count := 0\<rparr>" and ?k = "sh_hash sh" and ?bits = "shape_hash_bits rt" and ?tab = "shape_hash_tab rt"
  have "shape_wf sh" by (rule rt_invD(1) [OF i s(1)])
  then have m: "mem_read (sh_prop sh) 0 (prop_count sh) = Some (take (prop_count sh) (sh_prop sh))"
    by (simp add: shape_wf_def chained_def mem_read_def)
  obtain tab a where a: "(if is_hashed sh then js_shape_hash_unlink rt' s else Some rt') = Some a"
    "same_core (rt'\<lparr>shape_hash_tab := tab\<rparr>) a" and tab: "table_ok ((shapes rt)(s := None)) ?bits tab U"
  proof (cases "is_hashed sh")
    case True
    have k: "linked (shapes rt) U s = Some ?k" "linked ((shapes rt)(s := None)) U = (linked (shapes rt) U)(s := None)"
      using s True by (auto simp: linked_def hkey_def fun_eq_iff)
    note t = table_unlink [OF rt_inv_table [OF i] k]
    let ?t = "?tab[get_shape_hash ?k ?bits := remove1 s (?tab ! get_shape_hash ?k ?bits)]"
    have "js_shape_hash_unlink rt' s = Some (rt'\<lparr>shape_hash_tab := ?t, shape_hash_count := shape_hash_count rt' - 1\<rparr>)"
      using r t(1,2) by (simp add: js_shape_hash_unlink_def rd_Some Let_def)
    with t(3) show ?thesis using that [of _ ?t] True by (simp add: same_core_def)
  next
    case False
    have "linked ((shapes rt)(s := None)) U = linked (shapes rt) U"
      using s(1) False by (auto simp: linked_def hkey_def fun_eq_iff)
    then have "table_ok ((shapes rt)(s := None)) ?bits ?tab U" by (rule table_ok_cong [OF rt_inv_table [OF i]])
    then show ?thesis using that [of rt' ?tab] False r by (simp add: same_core_def)
  qed
  define b where "b = fold (\<lambda>x rt. js_free_atom rt (atom x)) (take (prop_count sh) (sh_prop sh)) (free_proto a (proto sh))"
  define rt2 where "rt2 = b\<lparr>gc_obj_list := remove1 s (gc_obj_list b), shapes := (shapes b)(s := None)\<rparr>"
  have ab: "same_core (rt'\<lparr>shape_hash_tab := tab\<rparr>) b"
    unfolding b_def by (rule same_core_trans [OF a(2) same_core_trans [OF free_proto_core(1) fold_atoms_core(2)]])
  have "js_free_shape0 rt' s = Some rt2"
    unfolding js_free_shape0_def using r(1) a(1) m by (simp add: b_def rt2_def Let_def)
  have S: "shapes rt2 = (shapes rt)(s := None)" "objs rt2 = objs rt" "next_ptr rt \<le> next_ptr rt2"
    "shape_hash_tab rt2 = tab" "shape_hash_bits rt2 = ?bits"
    using ab r by (auto simp: same_core_def rt2_def)
  have ne: "oshape ob \<noteq> s" if "objs rt p = Some ob" for p ob using s(2) that by (auto simp: users_def)
  have "shape_ok (next_ptr rt2) (objs rt) (ext(s := 0)) t x" if "shapes rt2 t = Some x" for t x
  proof -
    have t: "t \<noteq> s" "shapes rt t = Some x" using that by (auto simp: S(1) split: if_splits)
    show ?thesis by (rule shape_ok_users [OF shape_ok_mono [OF rt_inv_shape [OF i t(2)] S(3)]]) (use t(1) in auto)
  qed
  moreover have "obj_ok (next_ptr rt2) (shapes rt2) p ob" if "objs rt p = Some ob" for p ob
    using rt_inv_object [OF i that] ne [OF that] S(3) unfolding obj_ok_def S(1) by auto
  moreover have "0 < next_ptr rt2" "finite (dom (objs rt))" "\<forall>t. shapes rt t = None \<longrightarrow> ext t = 0"
    using i S(3) by (auto simp: rt_inv_def)
  ultimately have "rt_inv (ext(s := 0)) U rt2"
    using tab unfolding rt_inv_def S(2,4,5) by (auto simp: S(1))
  moreover have "obj_entries rt2 q = obj_entries rt q" for q
    using ne by (auto simp: obj_entries_def S split: option.splits)
  ultimately show ?thesis using S \<open>js_free_shape0 rt' s = Some rt2\<close> by simp
qed

lemma js_free_shape_ok:
  assumes i: "rt_inv ext U rt" and s: "shapes rt s = Some sh" "s \<notin> U" "sh_ref_count sh = 1 \<longrightarrow> users (objs rt) s = {}"
  shows "okw (js_free_shape rt s) (\<lambda>rt'. rt_inv (ext(s := ext s - 1)) U rt' \<and> others_same p rt rt' \<and>
    obj_entries rt' p = obj_entries rt p \<and> objs rt' = objs rt \<and> next_ptr rt \<le> next_ptr rt' \<and>
    (\<forall>t. t \<noteq> s \<longrightarrow> shapes rt' t = shapes rt t))"
proof (cases "sh_ref_count sh = 1")
  case True
  have e: "ext s = 1" using rt_invD(4) [OF i s(1)] True s(3) by simp
  let ?rt = "set_shape rt s (sh\<lparr>sh_ref_count := 0\<rparr>)"
  have "okw (js_free_shape0 ?rt s) (\<lambda>rt2. rt_inv (ext(s := 0)) U rt2 \<and> objs rt2 = objs rt \<and>
    (\<forall>q. obj_entries rt2 q = obj_entries rt q) \<and> next_ptr rt \<le> next_ptr rt2 \<and> shapes rt2 = (shapes rt)(s := None))"
    by (rule js_free_shape0_ok [OF i s(1)]) (use s(2,3) True in \<open>simp_all add: set_shape_def\<close>)
  then show ?thesis
    using s(1) True e by (auto simp: js_free_shape_def others_same_def elim!: okw_mono)
next
  case False
  let ?sh = "sh\<lparr>sh_ref_count := sh_ref_count sh - 1\<rparr>"
  let ?rt = "set_shape rt s ?sh"
  have "linked ((shapes rt)(s \<mapsto> ?sh)) U = linked (shapes rt) U"
    using s by (auto simp: linked_def hkey_def fun_eq_iff)
  from rt_inv_upd_shape [OF i s(1) _ _ _ _ _ this, of "- 1" ?rt] rt_invD [OF i s(1)] False
  have "rt_inv (ext(s := ext s - 1)) U ?rt" by (auto simp: set_shape_def shape_wf_def)
  moreover have "\<not> sh_ref_count ?sh \<le> 0" using rt_invD(5) [OF i s(1)] False by simp
  ultimately show ?thesis
    using s(1) upd_shape_others [of ?rt rt s ?sh sh] by (simp add: js_free_shape_def Let_def) (simp add: set_shape_def)
qed

lemma js_clone_shape_ok:
  assumes i: "rt_inv ext U rt" and s: "shapes rt s1 = Some sh1"
  shows "okw (js_clone_shape rt s1) (\<lambda>(s, rt'). others_same p rt rt' \<and> obj_entries rt' p = obj_entries rt p \<and>
    objs rt' = objs rt \<and> (s = 0 \<and> rt_inv ext U rt' \<and> shapes rt' = shapes rt \<or>
      s \<noteq> 0 \<and> shapes rt s = None \<and> rt_inv (ext(s := 1)) U rt' \<and>
      shapes rt' = (shapes rt)(s \<mapsto> sh1\<lparr>sh_ref_count := 1, is_hashed := False\<rparr>)))"
proof -
  obtain s rt1 where m: "js_malloc rt = (s, rt1)" by fastforce
  note c = js_malloc_core [OF m i] and i1 = same_core_inv [OF i js_malloc_core(1) [OF m i]]
  show ?thesis
  proof (cases "s = 0")
    case True
    then show ?thesis
      using m s i1 same_core_others [OF c(1), of p] same_core_entries [OF c(1), of p] c(1)
      by (simp add: js_clone_shape_def same_core_def)
  next
    case False
    let ?sh = "sh1\<lparr>sh_ref_count := 1, is_hashed := False\<rparr>" and ?n = "prop_count sh1"
    let ?rt2 = "set_shape (rt1\<lparr>gc_obj_list := gc_obj_list rt1 @ [s]\<rparr>) s ?sh"
    let ?rt3 = "fold (\<lambda>x rt. js_dup_atom rt (atom x)) (take ?n (sh_prop sh1)) (dup_proto ?rt2 (proto sh1))"
    have wf: "shape_wf sh1" by (rule rt_invD(1) [OF i s])
    then have rd: "mem_read (sh_prop sh1) 0 ?n = Some (take ?n (sh_prop sh1))"
      by (simp add: shape_wf_def chained_def mem_read_def)
    have f: "shapes rt s = None" "0 < s" "s < next_ptr rt1" using c(2) False rt_inv_fresh [OF i] by auto
    have "shape_wf ?sh" using wf by (simp add: shape_wf_def)
    then have 2: "rt_inv (ext(s := 1)) U ?rt2" "obj_entries ?rt2 q = obj_entries rt1 q" for q
      using rt_inv_new_shape(1) [OF i1, of s ?sh ?rt2] rt_inv_new_shape(2) [OF i1, of s ?sh ?rt2 q] f c(1) by (simp_all add: same_core_def set_shape_def)
    have c3: "same_core ?rt2 ?rt3"
      by (rule same_core_trans [OF free_proto_core(2) fold_atoms_core(1)])
    have "js_clone_shape rt s1 = Some (s, ?rt3)"
      using s m False rd by (simp add: js_clone_shape_def Let_def)
    moreover have "obj_entries ?rt3 q = obj_entries rt q" for q
      using same_core_entries [OF c3] 2(2) same_core_entries [OF c(1)] by simp
    moreover have "objs ?rt3 = objs rt" "shapes ?rt3 = (shapes rt)(s \<mapsto> ?sh)"
      using c3 c(1) by (simp_all add: same_core_def set_shape_def)
    ultimately show ?thesis
      using same_core_inv [OF 2(1) c3] False f(1) by (simp add: others_same_def)
  qed
qed

end
