(* ===== verification/Shape_Ops.thy ===== *)
theory Shape_Ops
  imports Shape_Inv
begin

text \<open>
  The operations on the properties of an object keep the invariant, change the entries of this object
  as they should, and those of no other object, also when the objects share a shape.
\<close>

section \<open>Replacing the shape of its only user\<close>

lemma rt_inv_replace:
  assumes i: "rt_inv ext U rt" and p: "objs rt p = Some ob" "oshape ob = s"
    and s: "shapes rt s = Some sh" "users (objs rt) s = {p}" "ext s = 0"
    and s': "s' = s \<or> shapes rt s' = None \<and> 0 < s'" "s' < next_ptr rt'"
    and sh': "shape_wf sh'" "sh_ref_count sh' = 1" "prop_size sh' \<le> length vals"
    and r: "shapes rt' = (shapes rt)(s := None, s' \<mapsto> sh')" "objs rt' = (objs rt)(p \<mapsto> ob\<lparr>oshape := s', oprop := vals\<rparr>)"
      "next_ptr rt \<le> next_ptr rt'" "shape_hash_tab rt' = shape_hash_tab rt" "shape_hash_bits rt' = shape_hash_bits rt"
    and l: "linked (shapes rt') U' = linked (shapes rt) U"
  shows "rt_inv ext U' rt'" "others_same p rt rt'" "obj_entries rt' p = ents (sh_prop sh') (prop_count sh') vals"
    "users (objs rt') s' = {p}"
proof -
  have us': "s' \<noteq> s \<Longrightarrow> users (objs rt) s' = {}" using s'(1) rt_inv_users [OF i] by auto
  then show u: "users (objs rt') s' = {p}" using s(2) by (auto simp: users_def r split: if_splits)
  have ut: "users (objs rt') t = users (objs rt) t" if "t \<noteq> s" "t \<noteq> s'" for t
    using that p by (auto simp: users_def r split: if_splits)
  have ne: "oshape b \<noteq> s" "oshape b \<noteq> s'" if "objs rt q = Some b" "q \<noteq> p" for q b
    using s(2) us' that by (auto simp: users_def)
  have es': "ext s' = 0" using s'(1) s(3) i by (auto simp: rt_inv_def)
  have "0 < s'" using s'(1) rt_invD(2) [OF i s(1)] by auto
  then have "shape_ok (next_ptr rt') (objs rt') ext s' sh'"
    using sh' s'(2) u es' by (simp add: shape_ok_def)
  moreover have "shape_ok (next_ptr rt') (objs rt') ext t x" if "shapes rt t = Some x" "t \<noteq> s" "t \<noteq> s'" for t x
    by (rule shape_ok_users [OF shape_ok_mono [OF rt_inv_shape [OF i that(1)] r(3)]]) (use ut that in auto)
  ultimately have "shape_ok (next_ptr rt') (objs rt') ext t x" if "shapes rt' t = Some x" for t x
    using that by (auto simp: r(1) split: if_splits)
  moreover have "obj_ok (next_ptr rt') (shapes rt') q b" if "objs rt' q = Some b" for q b
  proof (cases "q = p")
    case True
    then show ?thesis
      using that rt_inv_object [OF i p(1)] r(3) sh'(3) by (auto simp: r(1,2) obj_ok_def)
  next
    case False
    then have "objs rt q = Some b" using that by (simp add: r(2))
    then show ?thesis using rt_inv_object [OF i, of q b] ne [of q b] False r(3) by (auto simp: r(1) obj_ok_def)
  qed
  moreover have "table_ok (shapes rt') (shape_hash_bits rt') (shape_hash_tab rt') U'"
    unfolding r(4,5) by (rule table_ok_cong [OF rt_inv_table [OF i] l])
  moreover have "finite (dom (objs rt'))" "0 < next_ptr rt'" using i r(3) by (auto simp: r(2) rt_inv_def)
  moreover have "ext t = 0" if "shapes rt' t = None" for t
    using that s(3) i by (auto simp: r(1) rt_inv_def split: if_splits)
  ultimately show "rt_inv ext U' rt'" unfolding rt_inv_def by blast
  show "others_same p rt rt'"
    using ne by (auto simp: others_same_def obj_entries_def r split: option.splits)
  show "obj_entries rt' p = ents (sh_prop sh') (prop_count sh') vals" by (simp add: obj_entries_def r)
qed

section \<open>Sizes of hash tables\<close>

lemma grow_hash_ok:
  "0 < n \<Longrightarrow> \<exists>m. grow_hash n k = Some m \<and> n \<le> m \<and> k \<le> m \<and> (m = n \<or> m < 2 * k)"
proof (induction n k rule: grow_hash.induct)
  case (1 n k)
  then show ?case by (subst grow_hash.simps) (fastforce simp: grow_hash.simps [of n k])
qed

lemma shrink_hash_ok:
  "0 < k \<Longrightarrow> 0 < n \<Longrightarrow> \<exists>m. shrink_hash n k = Some m \<and> 0 < m \<and> m \<le> n"
proof (induction n k rule: shrink_hash.induct)
  case (1 n k)
  show ?case
  proof (cases "k \<le> n div 2")
    case True
    then obtain m where "shrink_hash (n div 2) k = Some m" "0 < m" "m \<le> n div 2" using 1 by fastforce
    then show ?thesis using True 1(3) by (subst shrink_hash.simps) auto
  next
    case False
    then show ?thesis using 1(3) by (simp add: shrink_hash.simps)
  qed
qed

lemma hash_mask: "0 < m \<Longrightarrow> m \<le> 2 ^ 32 \<Longrightarrow> unat (of_nat m - 1 :: u32) + 1 = m"
proof -
  assume m: "0 < m" "m \<le> 2 ^ 32"
  then have "(of_nat m - 1 :: u32) = of_nat (m - 1)" by (simp add: of_nat_diff)
  moreover have "unat (of_nat (m - 1) :: u32) = (m - 1) mod 2 ^ 32" by (simp add: unat_of_nat)
  ultimately show ?thesis using m by simp
qed

lemma hash_size_le: "0 < hash_size sh" "hash_size sh \<le> 2 ^ 32"
  using unsigned_less [of "prop_hash_mask sh", where ?'a = nat] by (auto simp: hash_size_def)

section \<open>Resizing\<close>

text \<open>\<open>p\<close> is the only user of its shape \<open>s\<close>; a hashed shape is unlinked.\<close>

definition own :: "(ptr \<Rightarrow> int) \<Rightarrow> 'v rt \<Rightarrow> ptr \<Rightarrow> 'v obj \<Rightarrow> shape \<Rightarrow> bool" where
  "own ext rt p ob sh \<longleftrightarrow> objs rt p = Some ob \<and> shapes rt (oshape ob) = Some sh \<and>
     users (objs rt) (oshape ob) = {p} \<and> ext (oshape ob) = 0 \<and> sh_ref_count sh = 1"

definition unlinked :: "ptr \<Rightarrow> shape \<Rightarrow> ptr set" where
  "unlinked s sh = (if is_hashed sh then {s} else {})"

lemma linked_unlinked:
  assumes "S s = Some sh" and "S' = S(s := None, s' \<mapsto> sh')" "s' = s \<or> S s' = None" "is_hashed sh' = is_hashed sh"
  shows "linked S' (unlinked s' sh') = linked S (unlinked s sh)"
  using assms by (auto simp: linked_def unlinked_def hkey_def fun_eq_iff)

definition resized :: "(ptr \<Rightarrow> int) \<Rightarrow> nat \<Rightarrow> 'v rt \<Rightarrow> ptr \<Rightarrow> 'v obj \<Rightarrow> shape \<Rightarrow> int \<times> 'v rt \<Rightarrow> bool" where
  "resized ext n rt p ob sh z \<longleftrightarrow> (case z of (r, rt') \<Rightarrow> \<exists>ob' sh'. own ext rt' p ob' sh' \<and>
     others_same p rt rt' \<and> obj_entries rt' p = obj_entries rt p \<and> rt_inv ext (unlinked (oshape ob') sh') rt' \<and>
     (if r = 0 then n \<le> prop_size sh' \<and> prop_count sh' = prop_count sh \<and> is_hashed sh' = is_hashed sh \<and>
        sh_hash sh' = sh_hash sh \<and> deleted_prop_count sh' = deleted_prop_count sh
      else sh' = sh \<and> oshape ob' = oshape ob))"

lemma live_app: "n \<le> length p \<Longrightarrow> live (take n p @ q) n = live p n"
  by (rule live_cong) (simp add: nth_append)

lemma unique_names_cong: "live p n = live q n \<Longrightarrow> (\<And>i. i < n \<Longrightarrow> atom (p ! i) = atom (q ! i)) \<Longrightarrow> unique_names p n = unique_names q n"
  unfolding unique_names_def by (auto intro!: inj_on_cong)

text \<open>A longer block with the same entries.\<close>

lemma shape_wf_block:
  assumes wf: "shape_wf sh" and c: "chained q (prop_count sh) msk tab" and l: "length q = k" "k < 2 ^ 27"
    and e: "\<And>i. i < prop_count sh \<Longrightarrow> atom (q ! i) = atom (sh_prop sh ! i)"
  shows "shape_wf (sh\<lparr>prop_hash_mask := msk, prop_hash := tab, sh_prop := q, prop_size := k\<rparr>)"
proof -
  have "live q (prop_count sh) = live (sh_prop sh) (prop_count sh)" by (rule live_cong) (rule e)
  then show ?thesis
    using wf c l unique_names_cong [of q "prop_count sh" "sh_prop sh"] e by (simp add: shape_wf_def)
qed

lemma rehash_block:
  assumes wf: "shape_wf sh" and n: "prop_count sh \<le> k" and m: "0 < m" "m \<le> 2 ^ 32"
  shows "\<exists>q tab. rehash_loop (of_nat m - 1) (prop_count sh) 0
      (take (prop_count sh) (sh_prop sh) @ replicate (k - prop_count sh) x, replicate m 0) = Some (q, tab) \<and>
    chained q (prop_count sh) (of_nat m - 1) tab \<and> length q = k \<and>
    (\<forall>i < prop_count sh. atom (q ! i) = atom (sh_prop sh ! i) \<and> prflags (q ! i) = prflags (sh_prop sh ! i))"
proof -
  let ?n = "prop_count sh" and ?b = "take (prop_count sh) (sh_prop sh) @ replicate (k - prop_count sh) x"
  have l: "?n \<le> length (sh_prop sh)" "?n < 2 ^ 26" using wf by (auto simp: shape_wf_def chained_def)
  have lb: "length ?b = k" using l(1) n by simp
  have "chained ?b 0 (of_nat m - 1) (replicate m 0)" by (rule chained_empty) (use hash_mask [OF m] in auto)
  from rehash_loop_ok [OF this _ _ l(2)] lb n
  obtain q tab where 1: "rehash_loop (of_nat m - 1) ?n 0 (?b, replicate m 0) = Some (q, tab)"
    "chained q ?n (of_nat m - 1) tab" "same_names q ?b" by auto
  have "length q = k" using 1(3) lb by (simp add: same_names_def)
  moreover have "atom (q ! i) = atom (sh_prop sh ! i) \<and> prflags (q ! i) = prflags (sh_prop sh ! i)" if "i < ?n" for i
  proof -
    have "?b ! i = sh_prop sh ! i" using l(1) that by (simp add: nth_append)
    then show ?thesis using 1(3) by (simp add: same_names_def)
  qed
  ultimately show ?thesis using 1 by blast
qed

lemma chained_block:
  assumes "chained pl n msk tab" and "\<And>k. k < n \<Longrightarrow> q ! k = pl ! k" and "n \<le> length pl" "length pl \<le> length q"
  shows "chained q n msk tab"
proof -
  have "chain_of q n msk h = chain_of pl n msk h" for h by (rule chain_of_cong) (simp add: assms(2))
  moreover have "is_chain q (tab ! h) (chain_of pl n msk h)" if "h < length tab" for h
    by (rule is_chain_cong [where p = pl]) (use assms that in \<open>auto simp: chained_def\<close>)
  ultimately show ?thesis using assms by (simp add: chained_def)
qed

lemma resize_properties_ok:
  assumes i: "rt_inv ext (unlinked (oshape ob) sh) rt" and o: "own ext rt p ob sh"
    and n: "prop_size sh < count" "count \<le> 2 ^ 26"
  shows "okw (resize_properties rt p count) (resized ext count rt p ob sh)"
proof -
  let ?s = "oshape ob" and ?n = "max count (prop_size sh * 3 div 2)"
  have p: "objs rt p = Some ob" and s: "shapes rt ?s = Some sh" "users (objs rt) ?s = {p}" "ext ?s = 0" "sh_ref_count sh = 1"
    using o by (auto simp: own_def)
  have wf: "shape_wf sh" by (rule rt_invD(1) [OF i s(1)])
  have n': "prop_size sh \<le> ?n" "count \<le> ?n" "?n < 2 ^ 27" using n by auto
  have cnt: "prop_count sh \<le> prop_size sh" "length (sh_prop sh) = prop_size sh" using wf by (auto simp: shape_wf_def chained_def)
  obtain ok rt1 vals where 1: "realloc_prop rt p ?n = Some (ok, rt1)" "rt_inv ext (unlinked ?s sh) rt1"
      "others_same p rt rt1" "obj_entries rt1 p = obj_entries rt p" "shapes rt1 = shapes rt"
      "objs rt1 = (objs rt)(p \<mapsto> ob\<lparr>oprop := vals\<rparr>)" "prop_size sh \<le> length vals" "ok \<Longrightarrow> length vals = ?n"
    using okw_ex [OF realloc_prop_ok [OF i p s(1) n'(1)]] by auto
  have us: "users (objs rt1) = users (objs rt)" using p 1(6) by (auto simp: users_def fun_eq_iff)
  let ?ob = "ob\<lparr>oprop := vals\<rparr>"
  have p1: "objs rt1 p = Some ?ob" "shapes rt1 ?s = Some sh" "users (objs rt1) ?s = {p}"
    using 1(5,6) s us by auto
  have own1: "own ext rt1 p ?ob sh" using p1 s by (simp add: own_def)
  have fail: "resized ext count rt p ob sh (- 1, rt2)" if c: "same_core rt1 rt2" for rt2
  proof -
    have "own ext rt2 p ?ob sh" using own1 c by (simp add: own_def same_core_def)
    then show ?thesis
      using same_core_inv [OF 1(2) c] others_same_trans [OF 1(3) same_core_others [OF c]] same_core_entries [OF c] 1(4)
      unfolding resized_def by (auto intro!: exI [of _ ?ob])
  qed
  have fin: "resized ext count rt p ob sh (0, rt2)"
    if ok: "ok" and sh': "shape_wf sh'" "sh' = sh\<lparr>prop_hash_mask := msk, prop_hash := tab, sh_prop := q, prop_size := ?n\<rparr>"
      and e: "\<And>i. i < prop_count sh \<Longrightarrow> atom (q ! i) = atom (sh_prop sh ! i) \<and> prflags (q ! i) = prflags (sh_prop sh ! i)"
      and s': "shapes rt1 s' = None" "0 < s'" "s' < next_ptr rt2"
      and r: "shapes rt2 = (shapes rt1)(?s := None, s' \<mapsto> sh')" "objs rt2 = (objs rt1)(p \<mapsto> ?ob\<lparr>oshape := s'\<rparr>)"
        "next_ptr rt1 \<le> next_ptr rt2" "shape_hash_tab rt2 = shape_hash_tab rt1" "shape_hash_bits rt2 = shape_hash_bits rt1"
    for sh' msk tab q s' rt2
  proof -
    have l: "linked (shapes rt2) (unlinked s' sh') = linked (shapes rt1) (unlinked ?s sh)"
      by (rule linked_unlinked [OF p1(2) r(1)]) (use s'(1) sh'(2) in auto)
    have r2: "objs rt2 = (objs rt1)(p \<mapsto> ?ob\<lparr>oshape := s', oprop := vals\<rparr>)" using r(2) by (cases ob) simp
    have a: "oshape ?ob = ?s" "s' = ?s \<or> shapes rt1 s' = None \<and> 0 < s'" "sh_ref_count sh' = 1" "prop_size sh' \<le> length vals"
      using sh'(2) s(4) s' 1(8) [OF ok] by simp_all
    note R = rt_inv_replace [OF 1(2) p1(1) a(1) p1(2,3) s(3) a(2) s'(3) sh'(1) a(3,4) r(1) r2 r(3-5) l]
    have "obj_entries rt p = ents (sh_prop sh) (prop_count sh) vals"
      using 1(4) p1 by (simp add: obj_entries_def)
    moreover have "ents q (prop_count sh) vals = ents (sh_prop sh) (prop_count sh) vals"
      by (rule ents_cong) (use e in auto)
    ultimately have en: "obj_entries rt2 p = obj_entries rt p" using R(3) sh'(2) by simp
    have "ext s' = 0" using s'(1) i 1(5) by (simp add: rt_inv_def)
    then have "own ext rt2 p (?ob\<lparr>oshape := s'\<rparr>) sh'" using R(4) sh'(2) s(4) r by (simp add: own_def)
    then show ?thesis
      using R en others_same_trans [OF 1(3) R(2)] sh'(2) n'(2) unfolding resized_def
      by (auto intro!: exI [of _ "?ob\<lparr>oshape := s'\<rparr>"] exI [of _ sh'])
  qed
  have cn: "prop_count sh \<le> ?n" using cnt n' by linarith
  obtain m where m: "grow_hash (hash_size sh) ?n = Some m" "hash_size sh \<le> m" "m = hash_size sh \<or> m < 2 * ?n"
    using grow_hash_ok [OF hash_size_le(1)] by blast
  have m32: "0 < m" "m \<le> 2 ^ 32" using m hash_size_le [of sh] n'(3) by auto
  show ?thesis
  proof (cases ok)
    case False
    then show ?thesis using p s(1) 1(1) fail [OF same_core_refl] by (simp add: resize_properties_def Let_def)
  next
    case True
    let ?g1 = "rt1\<lparr>gc_obj_list := remove1 ?s (gc_obj_list rt1)\<rparr>"
    show ?thesis
    proof (cases "m = hash_size sh")
      case mh: True
      obtain s' rt2 where j: "js_malloc ?g1 = (s', rt2)" by fastforce
      have g: "rt_inv ext (unlinked ?s sh) ?g1" "same_core rt1 ?g1"
        using same_core_inv [OF 1(2)] by (auto simp: same_core_def)
      note c = js_malloc_core [OF j g(1)]
      show ?thesis
      proof (cases "s' = 0")
        case s0: True
        have "same_core rt1 (rt2\<lparr>gc_obj_list := gc_obj_list rt2 @ [?s]\<rparr>)"
          using same_core_trans [OF g(2) c(1)] by (simp add: same_core_def)
        from fail [OF this] show ?thesis
          using p s(1) 1(1) True m(1) mh j s0 by (simp add: resize_properties_def Let_def)
      next
        case s0: False
        let ?q = "take ?n (sh_prop sh) @ replicate (?n - length (sh_prop sh)) (junk_prop rt2)"
        let ?sh = "sh\<lparr>prop_hash_mask := prop_hash_mask sh, prop_hash := prop_hash sh, sh_prop := ?q, prop_size := ?n\<rparr>"
        let ?rt2 = "rt2\<lparr>shapes := (shapes rt2)(?s := None), gc_obj_list := gc_obj_list rt2 @ [s']\<rparr>"
        have e: "?q ! k = sh_prop sh ! k" if "k < prop_count sh" for k
          using that cnt n' by (simp add: nth_append)
        have "live ?q (prop_count sh) = live (sh_prop sh) (prop_count sh)" by (rule live_cong) (use e in simp)
        have "chained (sh_prop sh) (prop_count sh) (prop_hash_mask sh) (prop_hash sh)" using wf by (simp add: shape_wf_def)
        then have "chained ?q (prop_count sh) (prop_hash_mask sh) (prop_hash sh)"
          using chained_block [OF _ e] cnt n' by simp
        then have wf': "shape_wf ?sh" by (rule shape_wf_block [OF wf]) (use e n' cnt in auto)
        have f: "shapes rt1 s' = None" "0 < s'" "s' < next_ptr rt2"
          using c s0 rt_inv_fresh [OF g(1)] by auto
        obtain rt3 where rt3: "set_obj_shape (set_shape ?rt2 s' ?sh) p s' = Some rt3"
          "rt3 = (set_shape ?rt2 s' ?sh)\<lparr>objs := (objs rt1)(p \<mapsto> ?ob\<lparr>oshape := s'\<rparr>)\<rparr>"
          using p1(1) c(1) by (simp add: set_obj_shape_def set_shape_def same_core_def)
        have "resized ext count rt p ob sh (0, rt3)"
          by (rule fin [OF True wf' refl _ f(1,2)]) (use e f(3) c(1) in \<open>auto simp: rt3(2) set_shape_def same_core_def\<close>)
        then show ?thesis
          using p s(1) 1(1) True m(1) mh j s0 rt3(1) by (simp add: resize_properties_def Let_def)
      qed
    next
      case mh: False
      obtain s' rt2 where j: "js_malloc rt1 = (s', rt2)" by fastforce
      note c = js_malloc_core [OF j 1(2)]
      show ?thesis
      proof (cases "s' = 0")
        case s0: True
        from fail [OF c(1)] show ?thesis
          using p s(1) 1(1) True m(1) mh j s0 by (simp add: resize_properties_def Let_def)
      next
        case s0: False
        let ?msk = "of_nat m - 1 :: u32"
        obtain q tab where q: "rehash_loop ?msk (prop_count sh) 0
            (take (prop_count sh) (sh_prop sh) @ replicate (?n - prop_count sh) (junk_prop rt2), replicate m 0) = Some (q, tab)"
          "chained q (prop_count sh) ?msk tab" "length q = ?n"
          "\<And>i. i < prop_count sh \<Longrightarrow> atom (q ! i) = atom (sh_prop sh ! i) \<and> prflags (q ! i) = prflags (sh_prop sh ! i)"
          using rehash_block [OF wf cn m32, of "junk_prop rt2"] by blast
        let ?sh = "sh\<lparr>prop_hash_mask := ?msk, prop_hash := tab, sh_prop := q, prop_size := ?n\<rparr>"
        have wf': "shape_wf ?sh" by (rule shape_wf_block [OF wf q(2,3) n'(3)]) (use q(4) in auto)
        let ?rt2 = "rt2\<lparr>gc_obj_list := remove1 ?s (gc_obj_list rt2) @ [s'], shapes := (shapes rt2)(?s := None)\<rparr>"
        have f: "shapes rt1 s' = None" "0 < s'" "s' < next_ptr rt2"
          using c s0 rt_inv_fresh [OF 1(2)] by auto
        obtain rt3 where rt3: "set_obj_shape (set_shape ?rt2 s' ?sh) p s' = Some rt3"
          "rt3 = (set_shape ?rt2 s' ?sh)\<lparr>objs := (objs rt1)(p \<mapsto> ?ob\<lparr>oshape := s'\<rparr>)\<rparr>"
          using p1(1) c(1) by (simp add: set_obj_shape_def set_shape_def same_core_def)
        have "resized ext count rt p ob sh (0, rt3)"
          by (rule fin [OF True wf' refl q(4) f(1,2)]) (use f(3) c(1) in \<open>auto simp: rt3(2) set_shape_def same_core_def\<close>)
        moreover have "mem_read (sh_prop sh) 0 (prop_count sh) = Some (take (prop_count sh) (sh_prop sh))"
          using cnt by (simp add: mem_read_def)
        ultimately show ?thesis
          using p s(1) 1(1) True m(1) mh j s0 rt3(1) q(1) by (simp add: resize_properties_def Let_def)
      qed
    qed
  qed
qed

section \<open>Adding\<close>

lemma ents_names: "a \<notin> fst ` set (ents pl n v) \<longleftrightarrow> (\<forall>i < n. atom (pl ! i) \<noteq> 0 \<longrightarrow> atom (pl ! i) \<noteq> a)"
  by (auto simp: ents_def image_image)

lemma append_prop:
  assumes wf: "shape_wf sh" and n: "prop_count sh < prop_size sh" "prop_count sh + 1 < 2 ^ 26" and a: "a \<noteq> 0"
    and new: "\<forall>i < prop_count sh. atom (sh_prop sh ! i) \<noteq> 0 \<longrightarrow> atom (sh_prop sh ! i) \<noteq> a"
    and pr: "atom pr = a" "prflags pr = f"
  shows "\<exists>q tab. hash_link (prop_hash_mask sh) (prop_count sh) ((sh_prop sh)[prop_count sh := pr], prop_hash sh) = Some (q, tab) \<and>
    shape_wf (sh\<lparr>prop_count := prop_count sh + 1, sh_prop := q, prop_hash := tab, has_small_array_index := b\<rparr>) \<and>
    (\<forall>vals. ents q (prop_count sh + 1) vals = ents (sh_prop sh) (prop_count sh) vals @ [(a, f, vals ! prop_count sh)])"
proof -
  let ?n = "prop_count sh" and ?p = "(sh_prop sh)[prop_count sh := pr]"
  have l: "length (sh_prop sh) = prop_size sh" "chained (sh_prop sh) ?n (prop_hash_mask sh) (prop_hash sh)"
    "unique_names (sh_prop sh) ?n" "?n = deleted_prop_count sh + length (live (sh_prop sh) ?n)" "prop_size sh < 2 ^ 27"
    using wf by (auto simp: shape_wf_def)
  have c: "chained ?p ?n (prop_hash_mask sh) (prop_hash sh)"
    by (rule chained_block [OF l(2)]) (use l n in auto)
  have pn: "?p ! ?n = pr" using l(1) n(1) by simp
  obtain q tab where 1: "hash_link (prop_hash_mask sh) ?n (?p, prop_hash sh) = Some (q, tab)"
      "chained q (Suc ?n) (prop_hash_mask sh) tab" "same_names q ?p"
    using hash_link_ok [OF c] l(1) n a pr pn by auto
  have q: "atom (q ! i) = atom (sh_prop sh ! i)" "prflags (q ! i) = prflags (sh_prop sh ! i)" if "i < ?n" for i
    using 1(3) that by (auto simp: same_names_def)
  have qn: "atom (q ! ?n) = a" "prflags (q ! ?n) = f" using 1(3) pn pr by (auto simp: same_names_def)
  have lv: "live q ?n = live (sh_prop sh) ?n" by (rule live_cong) (rule q)
  have "unique_names q (Suc ?n)"
    using unique_names_cong [OF lv] q l(3) new qn
    by (auto simp: unique_names_def live_Suc lv inj_on_def)
  moreover have "length q = prop_size sh" using 1(3) l(1) by (simp add: same_names_def)
  ultimately have "shape_wf (sh\<lparr>prop_count := ?n + 1, sh_prop := q, prop_hash := tab, has_small_array_index := b\<rparr>)"
    using 1(2) l n(2) a qn by (simp add: shape_wf_def live_Suc lv)
  moreover have "ents q (?n + 1) vals = ents (sh_prop sh) ?n vals @ [(a, f, vals ! ?n)]" for vals
    using a qn ents_cong [of ?n q "sh_prop sh" vals vals] q by (simp add: ents_Suc)
  ultimately show ?thesis using 1(1) by blast
qed

lemma own_wf: "rt_inv ext U rt \<Longrightarrow> own ext rt p ob sh \<Longrightarrow> shape_wf sh"
  using rt_invD(1) by (auto simp: own_def)

lemma own_entries: "own ext rt p ob sh \<Longrightarrow> obj_entries rt p = ents (sh_prop sh) (prop_count sh) (oprop ob)"
  by (simp add: own_def obj_entries_def)

lemma own_core: "own ext rt p ob sh \<Longrightarrow> shapes rt' = shapes rt \<Longrightarrow> objs rt' = objs rt \<Longrightarrow> own ext rt' p ob sh"
  by (simp add: own_def)

lemma core_same: "shapes rt' = shapes rt \<Longrightarrow> objs rt' = objs rt \<Longrightarrow> others_same p rt rt' \<and> obj_entries rt' q = obj_entries rt q"
  by (auto simp: others_same_def obj_entries_def split: option.splits)

text \<open>What adding \<open>(a, flags)\<close> to \<open>p\<close> does.\<close>

definition added :: "(ptr \<Rightarrow> int) \<Rightarrow> 'v rt \<Rightarrow> ptr \<Rightarrow> u32 \<Rightarrow> nat \<Rightarrow> nat option \<times> 'v rt \<Rightarrow> bool" where
  "added ext rt p a flags z \<longleftrightarrow> (case z of (r, rt') \<Rightarrow> rt_inv ext {} rt' \<and> others_same p rt rt' \<and>
     (case r of None \<Rightarrow> obj_entries rt' p = obj_entries rt p
      | Some k \<Rightarrow> \<exists>ob sh. objs rt' p = Some ob \<and> shapes rt' (oshape ob) = Some sh \<and> prop_count sh = k + 1 \<and>
          k < length (oprop ob) \<and> obj_entries rt' p = obj_entries rt p @ [(a, flags, oprop ob ! k)]))"

lemma finish_add:
  assumes i: "rt_inv ext {} rt" and o: "own ext rt p ob sh" and n: "prop_count sh < prop_size sh" "prop_count sh + 1 < 2 ^ 26"
    and a: "a \<noteq> 0" "a \<notin> fst ` set (obj_entries rt p)" "flags < 64"
  shows "okw (do {
       pr \<leftarrow> rd (sh_prop sh) (prop_count sh);
       let rt = js_dup_atom rt a;
       let pr = pr\<lparr>atom := a, prflags := flags mod 64\<rparr>;
       (pl, tab) \<leftarrow> hash_link (prop_hash_mask sh) (prop_count sh) ((sh_prop sh)[prop_count sh := pr], prop_hash sh);
       Some (0 :: int, set_shape rt (oshape ob) (sh\<lparr>prop_count := prop_count sh + 1, sh_prop := pl, prop_hash := tab,
         has_small_array_index := has_small_array_index sh \<or> a AND JS_ATOM_TAG_INT \<noteq> 0\<rparr>))
     }) (\<lambda>(r, rt'). r = 0 \<and> added ext rt p a flags (Some (prop_count sh), rt'))"
proof -
  let ?n = "prop_count sh" and ?s = "oshape ob" and ?b = "has_small_array_index sh \<or> a AND JS_ATOM_TAG_INT \<noteq> 0"
  let ?rt = "js_dup_atom rt a" and ?pr = "(sh_prop sh ! prop_count sh)\<lparr>atom := a, prflags := flags mod 64\<rparr>"
  note wf = own_wf [OF i o]
  have l: "length (sh_prop sh) = prop_size sh" using wf by (simp add: shape_wf_def)
  have new: "\<forall>i < ?n. atom (sh_prop sh ! i) \<noteq> 0 \<longrightarrow> atom (sh_prop sh ! i) \<noteq> a"
    using a(2) unfolding own_entries [OF o] ents_names .
  obtain q tab where 1: "hash_link (prop_hash_mask sh) ?n ((sh_prop sh)[?n := ?pr], prop_hash sh) = Some (q, tab)"
      "shape_wf (sh\<lparr>prop_count := ?n + 1, sh_prop := q, prop_hash := tab, has_small_array_index := ?b\<rparr>)"
      "ents q (?n + 1) (oprop ob) = ents (sh_prop sh) ?n (oprop ob) @ [(a, flags, oprop ob ! ?n)]"
    using append_prop [OF wf n a(1) new, of ?pr flags ?b] a(3) by auto
  let ?sh = "sh\<lparr>prop_count := ?n + 1, sh_prop := q, prop_hash := tab, has_small_array_index := ?b\<rparr>"
  let ?rt' = "set_shape ?rt ?s ?sh"
  have c: "same_core rt ?rt" by (auto simp: js_dup_atom_def same_core_def)
  have o': "own ext ?rt p ob sh" using own_core [OF o] c by (simp add: same_core_def)
  have s: "shapes ?rt ?s = Some sh" "objs ?rt p = Some ob" "users (objs ?rt) ?s = {p}" using o' by (auto simp: own_def)
  have sz: "prop_size sh \<le> length (oprop ob)" using rt_inv_object [OF same_core_inv [OF i c] s(2)] s(1) by (auto simp: obj_ok_def)
  have "linked ((shapes ?rt)(?s \<mapsto> ?sh)) {} = linked (shapes ?rt) {}"
    using s(1) by (auto simp: linked_def hkey_def fun_eq_iff)
  from rt_inv_upd_shape [OF same_core_inv [OF i c] s(1) 1(2) _ _ _ _ this, of 0 ?rt']
  have "rt_inv ext {} ?rt'" using o by (simp only: add_0_right fun_upd_triv) (simp add: set_shape_def own_def)
  moreover have "oshape b \<noteq> ?s" if "objs ?rt q = Some b" "q \<noteq> p" for q b using s(3) that by (auto simp: users_def)
  then have "others_same p ?rt ?rt'"
    by (auto simp: others_same_def obj_entries_def set_shape_def split: option.splits)
  then have "others_same p rt ?rt'" by (rule others_same_trans [OF same_core_others [OF c]])
  moreover have "obj_entries ?rt' p = obj_entries rt p @ [(a, flags, oprop ob ! ?n)]"
    using s own_entries [OF o] 1(3) by (simp add: obj_entries_def set_shape_def)
  ultimately have "added ext rt p a flags (Some ?n, ?rt')"
    using s sz n(1) by (simp add: added_def set_shape_def)
  then show ?thesis using l n(1) 1(1) by (simp add: rd_Some Let_def)
qed

lemma link_own:
  assumes i: "rt_inv ext (unlinked (oshape ob) sh) rt" and o: "own ext rt p ob sh"
  shows "okw (if is_hashed sh then js_shape_hash_link (set_shape rt (oshape ob) (sh\<lparr>sh_hash := h\<rparr>)) (oshape ob) else Some rt)
    (\<lambda>rt'. rt_inv ext {} rt' \<and> others_same p rt rt' \<and> obj_entries rt' p = obj_entries rt p \<and>
      own ext rt' p ob (if is_hashed sh then sh\<lparr>sh_hash := h\<rparr> else sh))"
proof (cases "is_hashed sh")
  case False
  then show ?thesis using i o by (simp add: unlinked_def others_same_refl)
next
  case True
  let ?s = "oshape ob" and ?sh = "sh\<lparr>sh_hash := h\<rparr>"
  let ?rt = "set_shape rt ?s ?sh"
  have s: "shapes rt ?s = Some sh" using o by (simp add: own_def)
  have "shape_wf ?sh" using own_wf [OF i o] by (simp add: shape_wf_def)
  moreover have "linked ((shapes rt)(?s \<mapsto> ?sh)) {?s} = linked (shapes rt) (unlinked ?s sh)"
    using True s by (auto simp: linked_def unlinked_def hkey_def fun_eq_iff)
  moreover have "sh_ref_count sh = 1" using o by (simp add: own_def)
  ultimately have "rt_inv (ext(?s := ext ?s + 0)) {?s} ?rt"
    by (intro rt_inv_upd_shape [OF i s, of ?sh]) (simp_all add: set_shape_def)
  then have "rt_inv ext {?s} ?rt" by (simp only: add_0_right fun_upd_triv)
  moreover have "own ext ?rt p ob ?sh" using o by (simp add: own_def set_shape_def)
  moreover have "others_same p rt ?rt" "obj_entries ?rt p = obj_entries rt p"
    using upd_shape_others [of ?rt rt ?s ?sh sh] s by (simp_all add: set_shape_def)
  moreover obtain rt' where "js_shape_hash_link ?rt ?s = Some rt'" "rt_inv ext {} rt'" "shapes rt' = shapes ?rt" "objs rt' = objs ?rt"
    using okw_ex [OF js_shape_hash_link_ok [OF calculation(1), of ?s ?sh]] True by (auto simp: set_shape_def)
  ultimately show ?thesis
    using True own_core [of ext ?rt p ob ?sh rt'] core_same [of rt' ?rt p p] others_same_trans [of p rt ?rt rt'] by auto
qed

lemma add_shape_property_ok:
  assumes i: "rt_inv ext {} rt" and o: "own ext rt p ob sh" and n: "prop_count sh + 1 < 2 ^ 26"
    and a: "a \<noteq> 0" "a \<notin> fst ` set (obj_entries rt p)" "flags < 64"
  shows "okw (add_shape_property rt p a flags) (\<lambda>(r, rt').
    r = 0 \<and> added ext rt p a flags (Some (prop_count sh), rt') \<or> r \<noteq> 0 \<and> added ext rt p a flags (None, rt'))"
proof -
  let ?s = "oshape ob" and ?n = "prop_count sh" and ?h = "shape_hash (shape_hash (sh_hash sh) a) (of_nat flags)"
  have s: "shapes rt ?s = Some sh" and p: "objs rt p = Some ob" using o by (auto simp: own_def)
  note wf = own_wf [OF i o]
  have cnt: "?n \<le> prop_size sh" using wf by (auto simp: shape_wf_def chained_def)
  obtain rt1 where 1: "(if is_hashed sh then js_shape_hash_unlink rt ?s else Some rt) = Some rt1"
    "rt_inv ext (unlinked ?s sh) rt1" "shapes rt1 = shapes rt" "objs rt1 = objs rt"
    using okw_ex [OF js_shape_hash_unlink_ok [OF i s]] i by (cases "is_hashed sh") (auto simp: unlinked_def)
  have o1: "own ext rt1 p ob sh" by (rule own_core [OF o 1(3,4)])
  note same1 = core_same [OF 1(3,4), of p p]
  have "okw (if ?n \<ge> prop_size sh then resize_properties rt1 p (?n + 1) else Some (0, rt1)) (resized ext (?n + 1) rt1 p ob sh)"
  proof (cases "?n \<ge> prop_size sh")
    case True
    then show ?thesis using resize_properties_ok [OF 1(2) o1, of "?n + 1"] n cnt by simp
  next
    case False
    then show ?thesis using o1 1(2) others_same_refl [of p rt1]
      by (auto simp: resized_def intro!: exI [of _ ob] exI [of _ sh])
  qed
  then obtain z where z: "(if ?n \<ge> prop_size sh then resize_properties rt1 p (?n + 1) else Some (0, rt1)) = Some z"
    "resized ext (?n + 1) rt1 p ob sh z" using okw_ex by blast
  obtain r rt2 where "z = (r, rt2)" by fastforce
  with z obtain ob2 sh2 where 2: "(if ?n \<ge> prop_size sh then resize_properties rt1 p (?n + 1) else Some (0, rt1)) = Some (r, rt2)"
    "own ext rt2 p ob2 sh2" "others_same p rt1 rt2" "obj_entries rt2 p = obj_entries rt1 p"
    "rt_inv ext (unlinked (oshape ob2) sh2) rt2"
    "if r = 0 then ?n + 1 \<le> prop_size sh2 \<and> prop_count sh2 = ?n \<and> is_hashed sh2 = is_hashed sh \<and>
        sh_hash sh2 = sh_hash sh \<and> deleted_prop_count sh2 = deleted_prop_count sh
      else sh2 = sh \<and> oshape ob2 = ?s"
    unfolding resized_def by blast
  have same2: "others_same p rt rt2" "obj_entries rt2 p = obj_entries rt p"
    using others_same_trans [OF conjunct1 [OF same1] 2(3)] 2(4) same1 by simp_all
  show ?thesis
  proof (cases "r = 0")
    case False
    then have e: "sh2 = sh" "oshape ob2 = ?s" using 2(6) by auto
    have s2: "shapes rt2 ?s = Some sh" using 2(2) e by (simp add: own_def)
    have h: "set_shape rt2 ?s (sh\<lparr>sh_hash := sh_hash sh\<rparr>) = rt2" using s2 by (auto simp: set_shape_def fun_upd_idem)
    obtain rt3 where 3: "(if is_hashed sh then js_shape_hash_link rt2 ?s else Some rt2) = Some rt3"
      "rt_inv ext {} rt3" "others_same p rt2 rt3" "obj_entries rt3 p = obj_entries rt2 p"
      using okw_ex [OF link_own [OF 2(5,2), of "sh_hash sh", unfolded e h]] by blast
    have "added ext rt p a flags (None, rt3)"
      using 3 same2 others_same_trans [OF same2(1) 3(3)] by (simp add: added_def)
    then show ?thesis
      unfolding add_shape_property_def p s Option.bind.bind_lunit Let_def 1(1) 2(1) prod.case if_P [OF False] 3(1) by simp
  next
    case True
    let ?sh3 = "if is_hashed sh2 then sh2\<lparr>sh_hash := ?h\<rparr> else sh2"
    obtain rt3 where 3: "(if is_hashed sh2 then js_shape_hash_link (set_shape rt2 (oshape ob2) (sh2\<lparr>sh_hash := ?h\<rparr>)) (oshape ob2)
          else Some rt2) = Some rt3"
      "rt_inv ext {} rt3" "others_same p rt2 rt3" "obj_entries rt3 p = obj_entries rt2 p" "own ext rt3 p ob2 ?sh3"
      using okw_ex [OF link_own [OF 2(5,2), of ?h]] by auto
    have same3: "others_same p rt rt3" "obj_entries rt3 p = obj_entries rt p"
      using others_same_trans [OF same2(1) 3(3)] 3(4) same2 by simp_all
    have f: "prop_count ?sh3 = ?n" "?n < prop_size ?sh3" "sh_prop ?sh3 = sh_prop sh2" using 2(6) True by auto
    have "a \<notin> fst ` set (obj_entries rt3 p)" using a(2) same3(2) by simp
    from okw_ex [OF finish_add [OF 3(2,5) _ _ a(1) this a(3)]] f n
    obtain rt4 where 4: "added ext rt3 p a flags (Some ?n, rt4)" and run: "do {
       pr \<leftarrow> rd (sh_prop ?sh3) (prop_count ?sh3);
       let rt = js_dup_atom rt3 a;
       let pr = pr\<lparr>atom := a, prflags := flags mod 64\<rparr>;
       (pl, tab) \<leftarrow> hash_link (prop_hash_mask ?sh3) (prop_count ?sh3) ((sh_prop ?sh3)[prop_count ?sh3 := pr], prop_hash ?sh3);
       Some (0 :: int, set_shape rt (oshape ob2) (?sh3\<lparr>prop_count := prop_count ?sh3 + 1, sh_prop := pl, prop_hash := tab,
         has_small_array_index := has_small_array_index ?sh3 \<or> a AND JS_ATOM_TAG_INT \<noteq> 0\<rparr>))
     } = Some (0, rt4)" by auto
    have "added ext rt p a flags (Some ?n, rt4)"
      using 4 same3 others_same_trans [OF same3(1)] by (simp add: added_def)
    moreover have "objs rt2 p = Some ob2" "shapes rt2 (oshape ob2) = Some sh2" "shapes rt3 (oshape ob2) = Some ?sh3"
      using 2(2) 3(5) by (auto simp: own_def)
    ultimately show ?thesis
      unfolding add_shape_property_def p s Option.bind.bind_lunit Let_def 1(1) 2(1) prod.case
      using True 3(1) run by (simp add: Let_def)
  qed
qed

end
