(* ===== verification/Shape_Prop.thy ===== *)
theory Shape_Prop
  imports Shape_Ops
begin

text \<open>
  Adding, deleting and changing properties of objects that may share their shape, and the creation of
  objects: the invariant, the entries of the object, and the isolation of all other objects.
\<close>

section \<open>Finding a shape to share\<close>

lemma same_props_ok:
  assumes "n \<le> length p1" "n \<le> length q" "i \<le> n"
  shows "same_props p1 q n i = Some (\<forall>k \<in> {i..<n}. atom (p1 ! k) = atom (q ! k) \<and> prflags (p1 ! k) = prflags (q ! k))"
  using assms
proof (induction "n - i" arbitrary: i)
  case 0
  then show ?case by (simp add: same_props.simps)
next
  case (Suc d)
  then have i: "i < n" and d: "d = n - Suc i" by linarith+
  have "{i..<n} = insert i {Suc i..<n}" using i by auto
  then show ?case
    using Suc(1) [OF d] Suc.prems i by (subst same_props.simps) (auto simp: rd_Some)
qed

text \<open>What a hit of \<open>find_hashed_shape_prop\<close> means.\<close>

definition extends_shape :: "shape \<Rightarrow> u32 \<Rightarrow> nat \<Rightarrow> shape \<Rightarrow> bool" where
  "extends_shape sh a flags sh1 \<longleftrightarrow> prop_count sh1 = prop_count sh + 1 \<and> proto sh1 = proto sh \<and>
     (\<forall>k < prop_count sh. atom (sh_prop sh1 ! k) = atom (sh_prop sh ! k) \<and> prflags (sh_prop sh1 ! k) = prflags (sh_prop sh ! k)) \<and>
     atom (sh_prop sh1 ! prop_count sh) = a \<and> prflags (sh_prop sh1 ! prop_count sh) = flags"

lemma find_prop_shape_loop_ok:
  assumes "\<forall>s \<in> set ss. \<exists>x. S s = Some x \<and> shape_wf x" and "shape_wf sh"
  shows "okw (find_prop_shape_loop S h sh a flags ss)
    (\<lambda>s. s = 0 \<or> s \<in> set ss \<and> (\<exists>x. S s = Some x \<and> extends_shape sh a flags x))"
  using assms(1)
proof (induction ss)
  case (Cons s ss)
  then obtain x where x: "S s = Some x" "shape_wf x" by auto
  have IH: "okw (find_prop_shape_loop S h sh a flags ss)
    (\<lambda>t. t = 0 \<or> t \<in> set (s # ss) \<and> (\<exists>x. S t = Some x \<and> extends_shape sh a flags x))"
    using Cons by (auto elim!: okw_mono)
  let ?n = "prop_count sh"
  show ?case
  proof (cases "sh_hash x = h \<and> proto x = proto sh \<and> prop_count x = ?n + 1")
    case False
    then show ?thesis using IH x by auto
  next
    case True
    have l: "?n + 1 \<le> length (sh_prop x)" "?n \<le> length (sh_prop sh)"
      using x(2) assms(2) True by (auto simp: shape_wf_def chained_def)
    have sp: "same_props (sh_prop x) (sh_prop sh) ?n 0 = Some (\<forall>k \<in> {0..<?n}. atom (sh_prop x ! k) = atom (sh_prop sh ! k) \<and>
        prflags (sh_prop x ! k) = prflags (sh_prop sh ! k))"
      using l by (intro same_props_ok) auto
    have "rd (sh_prop x) ?n = Some (sh_prop x ! ?n)" using l(1) by (simp add: rd_Some)
    then show ?thesis
      using IH x True sp by (auto simp: extends_shape_def)
  qed
qed simp

lemma find_hashed_shape_prop_ok:
  assumes i: "rt_inv ext {} rt" and wf: "shape_wf sh"
  shows "okw (find_hashed_shape_prop rt sh a flags)
    (\<lambda>s. s = 0 \<or> (\<exists>x. shapes rt s = Some x \<and> is_hashed x \<and> extends_shape sh a flags x))"
proof -
  let ?h = "shape_hash (shape_hash (sh_hash sh) a) (of_nat flags)"
  let ?k = "get_shape_hash ?h (shape_hash_bits rt)"
  have t: "shape_hash_bits rt \<le> 32" "length (shape_hash_tab rt) = 2 ^ shape_hash_bits rt"
    "\<And>h. h < length (shape_hash_tab rt) \<Longrightarrow> set (shape_hash_tab rt ! h) =
       {s. \<exists>k. linked (shapes rt) {} s = Some k \<and> get_shape_hash k (shape_hash_bits rt) = h}"
    using rt_inv_table [OF i] by (auto simp: table_ok_def)
  have k: "?k < length (shape_hash_tab rt)" using get_shape_hash_less [OF t(1)] t(2) by simp
  have b: "\<exists>x. shapes rt s = Some x \<and> is_hashed x \<and> shape_wf x" if "s \<in> set (shape_hash_tab rt ! ?k)" for s
    using that t(3) [OF k] rt_invD(1) [OF i] by (auto simp: linked_def hkey_def split: option.splits if_splits)
  have "okw (find_prop_shape_loop (shapes rt) ?h sh a flags (shape_hash_tab rt ! ?k))
    (\<lambda>s. s = 0 \<or> s \<in> set (shape_hash_tab rt ! ?k) \<and> (\<exists>x. shapes rt s = Some x \<and> extends_shape sh a flags x))"
    by (rule find_prop_shape_loop_ok) (use b wf in auto)
  then show ?thesis
    using k b by (fastforce simp: find_hashed_shape_prop_def Let_def rd_Some elim!: okw_mono)
qed

section \<open>Adding a property\<close>

lemma extends_ents:
  assumes "extends_shape sh a flags sh1" and "a \<noteq> 0"
  shows "ents (sh_prop sh1) (prop_count sh1) vals = ents (sh_prop sh) (prop_count sh) vals @ [(a, flags, vals ! prop_count sh)]"
proof -
  have "ents (sh_prop sh1) (prop_count sh) vals = ents (sh_prop sh) (prop_count sh) vals"
    by (rule ents_cong) (use assms(1) in \<open>auto simp: extends_shape_def\<close>)
  then show ?thesis using assms by (simp add: extends_shape_def ents_Suc)
qed

lemma add_unshared_ok:
  assumes i: "rt_inv ext {} rt" and o: "own ext rt p ob sh" and n: "prop_count sh + 1 < 2 ^ 26"
    and a: "a \<noteq> 0" "a \<notin> fst ` set (obj_entries rt p)" "flags < 64"
  shows "okw (add_unshared rt p a flags) (added ext rt p a flags)"
proof -
  have s: "objs rt p = Some ob" "shapes rt (oshape ob) = Some sh" "sh_ref_count sh = 1" using o by (auto simp: own_def)
  obtain r rt' where 1: "add_shape_property rt p a flags = Some (r, rt')"
    "r = 0 \<and> added ext rt p a flags (Some (prop_count sh), rt') \<or> r \<noteq> 0 \<and> added ext rt p a flags (None, rt')"
    using okw_ex [OF add_shape_property_ok [OF i o n a]] by auto
  show ?thesis
  proof (cases "r = 0")
    case True
    then obtain ob' sh' where "objs rt' p = Some ob'" "shapes rt' (oshape ob') = Some sh'" "prop_count sh' = prop_count sh + 1"
      using 1(2) by (auto simp: added_def)
    then show ?thesis using True 1 s by (simp add: add_unshared_def)
  next
    case False
    then show ?thesis using 1 s by (simp add: add_unshared_def)
  qed
qed

lemma added_trans:
  assumes "added ext rt1 p a flags z" and "others_same p rt rt1" "obj_entries rt1 p = obj_entries rt p"
  shows "added ext rt p a flags z"
  using assms others_same_trans [OF assms(2)] by (auto simp: added_def split: prod.splits option.splits)

lemma add_by_sharing_ok:
  assumes i: "rt_inv ext {} rt" and e: "\<forall>s. 0 \<le> ext s" and p: "objs rt p = Some ob" "shapes rt (oshape ob) = Some sh"
    and s1: "shapes rt s1 = Some sh1" "is_hashed sh1" "extends_shape sh a flags sh1" and a: "a \<noteq> 0"
  shows "okw (add_by_sharing rt p s1) (added ext rt p a flags)"
proof -
  let ?s = "oshape ob" and ?n = "prop_count sh"
  have ne: "?s \<noteq> s1" using p(2) s1(1,3) by (auto simp: extends_shape_def)
  note wf = rt_invD(1) [OF i p(2)] and wf1 = rt_invD(1) [OF i s1(1)]
  have n: "?n < prop_size sh1" "?n + 1 = prop_count sh1" "?n \<le> prop_size sh" "prop_size sh \<le> length (oprop ob)"
    using wf wf1 s1(3) rt_inv_object [OF i p(1)] p(2) by (auto simp: shape_wf_def chained_def extends_shape_def obj_ok_def)
  show ?thesis
  proof (cases "prop_size sh1 \<noteq> prop_size sh \<and> \<not> malloc_ok rt (malloc_clock rt)")
    case True
    let ?rt = "rt\<lparr>malloc_clock := malloc_clock rt + 1\<rparr>"
    have c: "same_core rt ?rt" by (simp add: same_core_def)
    have "added ext rt p a flags (None, ?rt)"
      using same_core_inv [OF i c] same_core_others [OF c] same_core_entries [OF c] by (simp add: added_def)
    then show ?thesis using True p s1(1) by (simp add: add_by_sharing_def realloc_prop_def Let_def)
  next
    case False
    obtain rt1 vals where 1: "(if prop_size sh1 \<noteq> prop_size sh then realloc_prop rt p (prop_size sh1) else Some (True, rt)) = Some (True, rt1)"
      "shapes rt1 = shapes rt" "objs rt1 = (objs rt)(p \<mapsto> ob\<lparr>oprop := vals\<rparr>)" "next_ptr rt1 = next_ptr rt"
      "shape_hash_tab rt1 = shape_hash_tab rt" "shape_hash_bits rt1 = shape_hash_bits rt"
      "prop_size sh1 \<le> length vals" "\<forall>k < ?n. vals ! k = oprop ob ! k"
    proof (cases "prop_size sh1 = prop_size sh")
      case True
      have "objs rt = (objs rt)(p \<mapsto> ob\<lparr>oprop := oprop ob\<rparr>)" using p(1) by (auto simp: fun_eq_iff)
      then show ?thesis using that [of rt "oprop ob"] True n by auto
    next
      case ne: False
      let ?v = "take (prop_size sh1) (oprop ob) @ replicate (prop_size sh1 - length (oprop ob)) (junk_slot rt)"
      have "?v ! k = oprop ob ! k" if "k < ?n" for k using that n by (simp add: nth_append)
      then show ?thesis
        using that [of "rt\<lparr>malloc_clock := malloc_clock rt + 1, objs := (objs rt)(p \<mapsto> ob\<lparr>oprop := ?v\<rparr>)\<rparr>" ?v] ne False p(1)
        by (simp add: realloc_prop_def Let_def)
    qed
    obtain rt2 where 2: "js_dup_shape rt s1 = Some rt2" "rt_inv (ext(s1 := ext s1 + 1)) {} rt2" "others_same p rt rt2"
      "objs rt2 = objs rt" "next_ptr rt2 = next_ptr rt" "shapes rt2 = (shapes rt)(s1 \<mapsto> sh1\<lparr>sh_ref_count := sh_ref_count sh1 + 1\<rparr>)"
      using okw_ex [OF js_dup_shape_ok [OF i s1(1,2), of p]] by auto
    let ?sh1 = "sh1\<lparr>sh_ref_count := sh_ref_count sh1 + 1\<rparr>"
    have "rt2 = set_shape rt s1 ?sh1" using 2(1) s1(1) by (simp add: js_dup_shape_def)
    then have tab: "shape_hash_tab rt2 = shape_hash_tab rt" "shape_hash_bits rt2 = shape_hash_bits rt"
      by (simp_all add: set_shape_def)
    let ?rt3 = "(set_shape rt1 s1 ?sh1)\<lparr>objs := (objs rt)(p \<mapsto> ob\<lparr>oshape := s1, oprop := vals\<rparr>)\<rparr>"
    have run: "js_dup_shape rt1 s1 = Some (set_shape rt1 s1 ?sh1)" "set_obj_shape (set_shape rt1 s1 ?sh1) p s1 = Some ?rt3"
      using 1(2,3) s1(1) by (cases ob; simp add: js_dup_shape_def set_obj_shape_def set_shape_def)+
    have p2: "objs rt2 p = Some ob" "shapes rt2 s1 = Some ?sh1" using 2(4,6) p by auto
    have r3: "shapes ?rt3 = shapes rt2" "objs ?rt3 = (objs rt2)(p \<mapsto> ob\<lparr>oshape := s1, oprop := vals\<rparr>)"
      "next_ptr ?rt3 = next_ptr rt2" "shape_hash_tab ?rt3 = shape_hash_tab rt2" "shape_hash_bits ?rt3 = shape_hash_bits rt2"
      using 1 2 tab by (simp_all add: set_shape_def)
    have sz: "prop_size ?sh1 \<le> length vals" using 1(7) by simp
    note 3 = rt_inv_move [OF 2(2) p2(1) refl ne p2(2) sz r3]
    let ?ext = "ext(?s := ext ?s + 1)"
    have "(ext(s1 := ext s1 + 1))(?s := (ext(s1 := ext s1 + 1)) ?s + 1, s1 := (ext(s1 := ext s1 + 1)) s1 - 1) = ?ext"
      using ne by (auto simp: fun_eq_iff)
    then have i3: "rt_inv ?ext {} ?rt3" using 3(1) by simp
    have s3: "shapes ?rt3 ?s = Some sh" using r3(1) 2(6) p(2) ne by simp
    have "users (objs ?rt3) ?s = {}" if "sh_ref_count sh = 1"
    proof -
      have "users (objs rt) ?s = {p}" using only_user(1) [OF i p(2) that _ p(1) refl] e by simp
      then show ?thesis using r3(2) 2(4) ne by (auto simp: users_def split: if_splits)
    qed
    then obtain rt4 where 4: "js_free_shape ?rt3 ?s = Some rt4" "rt_inv (?ext(?s := ?ext ?s - 1)) {} rt4" "others_same p ?rt3 rt4"
      "obj_entries rt4 p = obj_entries ?rt3 p" "objs rt4 = objs ?rt3" "\<forall>t. t \<noteq> ?s \<longrightarrow> shapes rt4 t = shapes ?rt3 t"
      using okw_ex [OF js_free_shape_ok [OF i3 s3 _ , of p]] by auto
    have i4: "rt_inv ext {} rt4" using 4(2) by (simp add: fun_upd_idem)
    have "obj_entries rt p = ents (sh_prop sh) ?n (oprop ob)" using p by (simp add: obj_entries_def)
    moreover have "ents (sh_prop sh) ?n (oprop ob) = ents (sh_prop sh) ?n vals" by (rule ents_ext) (use 1(8) in auto)
    ultimately have "obj_entries rt4 p = obj_entries rt p @ [(a, flags, vals ! ?n)]"
      using 4(4) 3(3) extends_ents [OF s1(3) a, of vals] by simp
    moreover have "objs rt4 p = Some (ob\<lparr>oshape := s1, oprop := vals\<rparr>)" "shapes rt4 s1 = Some ?sh1"
      using 4(5,6) r3(1) 2(6) ne by simp_all
    moreover have "others_same p rt rt4" by (rule others_same_trans [OF 2(3) others_same_trans [OF 3(2) 4(3)]])
    ultimately have "added ext rt p a flags (Some ?n, rt4)"
      using i4 n 1(7) by (simp add: added_def)
    moreover have "prop_count sh1 - 1 = ?n" using n by simp
    ultimately show ?thesis
      unfolding add_by_sharing_def p Option.bind.bind_lunit Let_def s1(1) 1(1) prod.case run 4(1) by simp
  qed
qed

lemma clone_hashed_ok:
  assumes i: "rt_inv ext {} rt" and p: "objs rt p = Some ob" "shapes rt (oshape ob) = Some sh"
    and h: "is_hashed sh" "sh_ref_count sh \<noteq> 1"
  shows "okw (clone_hashed rt p) (\<lambda>(ok, rt'). rt_inv ext {} rt' \<and> others_same p rt rt' \<and> obj_entries rt' p = obj_entries rt p \<and>
    (ok \<longrightarrow> (\<exists>ob'. objs rt' p = Some ob' \<and> shapes rt' (oshape ob') = Some (sh\<lparr>sh_ref_count := 1\<rparr>))))"
proof -
  let ?s = "oshape ob" and ?sh0 = "sh\<lparr>sh_ref_count := 1, is_hashed := False\<rparr>" and ?sh1 = "sh\<lparr>sh_ref_count := 1\<rparr>"
  obtain s1 rt1 where 1: "js_clone_shape rt ?s = Some (s1, rt1)" "others_same p rt rt1" "obj_entries rt1 p = obj_entries rt p"
    "objs rt1 = objs rt" "s1 = 0 \<and> rt_inv ext {} rt1 \<and> shapes rt1 = shapes rt \<or>
      s1 \<noteq> 0 \<and> shapes rt s1 = None \<and> rt_inv (ext(s1 := 1)) {} rt1 \<and> shapes rt1 = (shapes rt)(s1 \<mapsto> ?sh0)"
    using okw_ex [OF js_clone_shape_ok [OF i p(2), of p]] by auto
  show ?thesis
  proof (cases "s1 = 0")
    case True
    then show ?thesis using 1 p by (simp add: clone_hashed_def)
  next
    case False
    then have c: "shapes rt s1 = None" "rt_inv (ext(s1 := 1)) {} rt1" "shapes rt1 = (shapes rt)(s1 \<mapsto> ?sh0)" using 1(5) by auto
    have ne: "s1 \<noteq> ?s" using c(1) p(2) by auto
    have s1: "shapes rt1 s1 = Some ?sh0" using c(3) by simp
    let ?rt2 = "set_shape rt1 s1 ?sh1"
    have wf: "shape_wf ?sh1" using rt_invD(1) [OF i p(2)] by (simp add: shape_wf_def)
    have l: "linked ((shapes rt1)(s1 \<mapsto> ?sh1)) {s1} = linked (shapes rt1) {}"
      using s1 by (auto simp: linked_def hkey_def fun_eq_iff)
    have "rt_inv ((ext(s1 := 1))(s1 := (ext(s1 := 1)) s1 + 0)) {s1} ?rt2"
      by (rule rt_inv_upd_shape [OF c(2) s1 wf _ _ _ _ l]) (simp_all add: set_shape_def)
    then have i2: "rt_inv (ext(s1 := 1)) {s1} ?rt2" by (simp only: add_0_right fun_upd_triv)
    have u2: "obj_entries ?rt2 p = obj_entries rt1 p" "others_same p rt1 ?rt2"
      using upd_shape_others [of ?rt2 rt1 s1 ?sh1 ?sh0] s1 by (simp_all add: set_shape_def)
    obtain rt3 where 3: "js_shape_hash_link ?rt2 s1 = Some rt3" "rt_inv (ext(s1 := 1)) {} rt3" "shapes rt3 = shapes ?rt2" "objs rt3 = objs ?rt2"
      using okw_ex [OF js_shape_hash_link_ok [OF i2, of s1 ?sh1]] h(1) by (auto simp: set_shape_def)
    note u3 = core_same [OF 3(3,4), of p p]
    have s3: "shapes rt3 ?s = Some sh" "shapes rt3 s1 = Some ?sh1" "objs rt3 p = Some ob"
      using 3(3,4) c(3) p 1(4) ne by (auto simp: set_shape_def)
    obtain rt4 where 4: "js_free_shape rt3 ?s = Some rt4" "rt_inv ((ext(s1 := 1))(?s := (ext(s1 := 1)) ?s - 1)) {} rt4" "others_same p rt3 rt4"
      "obj_entries rt4 p = obj_entries rt3 p" "objs rt4 = objs rt3" "\<forall>t. t \<noteq> ?s \<longrightarrow> shapes rt4 t = shapes rt3 t"
      using okw_ex [OF js_free_shape_ok [OF 3(2) s3(1), of p]] h(2) by auto
    have s4: "objs rt4 p = Some ob" "shapes rt4 s1 = Some ?sh1" using 4(5,6) s3 ne by auto
    have sz: "prop_size ?sh1 \<le> length (oprop ob)" using rt_inv_object [OF i p(1)] p(2) by (auto simp: obj_ok_def)
    obtain rt5 where 5: "set_obj_shape rt4 p s1 = Some rt5"
      "rt_inv (((ext(s1 := 1))(?s := (ext(s1 := 1)) ?s - 1))(?s := ((ext(s1 := 1))(?s := (ext(s1 := 1)) ?s - 1)) ?s + 1,
        s1 := ((ext(s1 := 1))(?s := (ext(s1 := 1)) ?s - 1)) s1 - 1)) {} rt5"
      "others_same p rt4 rt5" "obj_entries rt5 p = ents (sh_prop ?sh1) (prop_count ?sh1) (oprop ob)" "shapes rt5 = shapes rt4"
      "objs rt5 = (objs rt4)(p \<mapsto> ob\<lparr>oshape := s1\<rparr>)"
      using okw_ex [OF rt_inv_set_obj_shape [OF 4(2) s4(1) refl _ s4(2) sz]] ne by auto
    have "ext s1 = 0" using i c(1) by (simp add: rt_inv_def)
    then have "((ext(s1 := 1))(?s := (ext(s1 := 1)) ?s - 1))(?s := ((ext(s1 := 1))(?s := (ext(s1 := 1)) ?s - 1)) ?s + 1,
        s1 := ((ext(s1 := 1))(?s := (ext(s1 := 1)) ?s - 1)) s1 - 1) = ext"
      using ne by (auto simp: fun_eq_iff)
    then have i5: "rt_inv ext {} rt5" using 5(2) by simp
    have "others_same p rt rt5"
      using others_same_trans [OF 1(2) others_same_trans [OF u2(2) others_same_trans [OF conjunct1 [OF u3] others_same_trans [OF 4(3) 5(3)]]]] .
    moreover have "obj_entries rt5 p = obj_entries rt p" using 5(4) p by (simp add: obj_entries_def)
    moreover have "sh\<lparr>sh_ref_count := 1, is_hashed := True\<rparr> = ?sh1" using h(1) by (cases sh) simp
    ultimately show ?thesis
      using i5 5(5,6) s4(2) p False 1(1) s1 3(1) 4(1) 5(1) by (simp add: clone_hashed_def Let_def)
  qed
qed

lemma add_property_ok:
  assumes i: "rt_inv ext {} rt" and e: "\<forall>s. 0 \<le> ext s" and p: "objs rt p = Some ob" "shapes rt (oshape ob) = Some sh"
    and n: "prop_count sh + 1 < 2 ^ 26" and a: "a \<noteq> 0" "a \<notin> fst ` set (obj_entries rt p)" "flags < 64"
  shows "okw (add_property rt p a flags) (added ext rt p a flags)"
proof -
  note wf = rt_invD(1) [OF i p(2)]
  have own: "own ext rt p ob sh" if "sh_ref_count sh = 1"
    using only_user [OF i p(2) that _ p(1) refl] e p that by (simp add: own_def)
  have un: "okw (add_unshared rt p a flags) (added ext rt p a flags)" if "sh_ref_count sh = 1"
    by (rule add_unshared_ok [OF i own [OF that] n a])
  obtain s1 where s1: "find_hashed_shape_prop rt sh a flags = Some s1"
    "s1 = 0 \<or> (\<exists>x. shapes rt s1 = Some x \<and> is_hashed x \<and> extends_shape sh a flags x)"
    using okw_ex [OF find_hashed_shape_prop_ok [OF i wf]] by blast
  consider "\<not> is_hashed sh" | "is_hashed sh" "s1 \<noteq> 0" | "is_hashed sh" "s1 = 0" "sh_ref_count sh = 1"
    | "is_hashed sh" "s1 = 0" "sh_ref_count sh \<noteq> 1" by blast
  then show ?thesis
  proof cases
    case 1
    then show ?thesis using un rt_invD(6) [OF i p(2)] p by (simp add: add_property_def)
  next
    case 2
    then obtain x where "shapes rt s1 = Some x" "is_hashed x" "extends_shape sh a flags x" using s1(2) by blast
    from add_by_sharing_ok [OF i e p this a(1)] show ?thesis using 2 p s1(1) by (simp add: add_property_def)
  next
    case 3
    then show ?thesis using un p s1(1) by (simp add: add_property_def)
  next
    case 4
    obtain ok rt1 where 1: "clone_hashed rt p = Some (ok, rt1)" "rt_inv ext {} rt1" "others_same p rt rt1" "obj_entries rt1 p = obj_entries rt p"
      "ok \<longrightarrow> (\<exists>ob'. objs rt1 p = Some ob' \<and> shapes rt1 (oshape ob') = Some (sh\<lparr>sh_ref_count := 1\<rparr>))"
      using okw_ex [OF clone_hashed_ok [OF i p 4(1,3)]] by auto
    show ?thesis
    proof (cases ok)
      case False
      have "added ext rt p a flags (None, rt1)" using 1 by (simp add: added_def)
      then show ?thesis using 4 p s1(1) 1(1) False by (simp add: add_property_def)
    next
      case True
      then obtain ob' where b: "objs rt1 p = Some ob'" "shapes rt1 (oshape ob') = Some (sh\<lparr>sh_ref_count := 1\<rparr>)" using 1(5) by blast
      have "own ext rt1 p ob' (sh\<lparr>sh_ref_count := 1\<rparr>)"
        using only_user [OF 1(2) b(2) _ _ b(1) refl] e b by (simp add: own_def)
      from add_unshared_ok [OF 1(2) this] n a 1(4)
      have "okw (add_unshared rt1 p a flags) (added ext rt1 p a flags)" by simp
      then have "okw (add_unshared rt1 p a flags) (added ext rt p a flags)"
        by (rule okw_mono) (rule added_trans [OF _ 1(3,4)])
      then show ?thesis using 4 p s1(1) 1(1) True by (simp add: add_property_def)
    qed
  qed
qed

end
