(* ===== verification/Shape_Delete.thy ===== *)
theory Shape_Delete
  imports Shape_Prop
begin

text \<open>
  Deleting properties, with the compaction of the shape after many deletions, and changing the flags
  of a property.
\<close>

section \<open>A shape of its own\<close>

text \<open>The object got a shape of its own with the same content.\<close>

definition prepared :: "(ptr \<Rightarrow> int) \<Rightarrow> 'v rt \<Rightarrow> ptr \<Rightarrow> 'v obj \<Rightarrow> shape \<Rightarrow> int \<times> 'v rt \<Rightarrow> bool" where
  "prepared ext rt p ob sh z \<longleftrightarrow> (case z of (r, rt') \<Rightarrow> rt_inv ext {} rt' \<and> others_same p rt rt' \<and>
     obj_entries rt' p = obj_entries rt p \<and> r \<in> {0, - 1} \<and> objs rt' p \<noteq> None \<and>
     (r = 0 \<longrightarrow> (\<exists>s. own ext rt' p (ob\<lparr>oshape := s\<rparr>) (sh\<lparr>sh_ref_count := 1, is_hashed := False\<rparr>))))"

lemma js_shape_prepare_update_ok:
  assumes i: "rt_inv ext {} rt" and e: "\<forall>s. 0 \<le> ext s" and p: "objs rt p = Some ob" "shapes rt (oshape ob) = Some sh"
  shows "okw (js_shape_prepare_update rt p) (prepared ext rt p ob sh)"
proof -
  let ?s = "oshape ob" and ?sh0 = "sh\<lparr>sh_ref_count := 1, is_hashed := False\<rparr>"
  have own: "own ext rt p ob sh" if "sh_ref_count sh = 1"
    using only_user [OF i p(2) that _ p(1) refl] e p that by (simp add: own_def)
  consider "\<not> is_hashed sh" | "is_hashed sh" "sh_ref_count sh = 1" | "is_hashed sh" "sh_ref_count sh \<noteq> 1" by blast
  then show ?thesis
  proof cases
    case 1
    have r: "sh_ref_count sh = 1" by (rule rt_invD(6) [OF i p(2) 1])
    have "?sh0 = sh" "ob\<lparr>oshape := ?s\<rparr> = ob" using 1 r by (cases sh; simp) (cases ob; simp)
    then have "prepared ext rt p ob sh (0, rt)"
      using i own [OF r] others_same_refl [of p rt] p(1) unfolding prepared_def by (auto intro: exI [of _ ?s])
    then show ?thesis using 1 p by (simp add: js_shape_prepare_update_def)
  next
    case 2
    obtain rt1 where 3: "js_shape_hash_unlink rt ?s = Some rt1" "rt_inv ext {?s} rt1" "shapes rt1 = shapes rt" "objs rt1 = objs rt"
      using okw_ex [OF js_shape_hash_unlink_ok [OF i p(2) 2(1)]] by auto
    let ?shu = "sh\<lparr>is_hashed := False\<rparr>" and ?rt = "set_shape rt1 ?s (sh\<lparr>is_hashed := False\<rparr>)"
    have s1: "shapes rt1 ?s = Some sh" using 3(3) p(2) by simp
    have wf: "shape_wf ?shu" using rt_invD(1) [OF i p(2)] by (simp add: shape_wf_def)
    have l: "linked ((shapes rt1)(?s \<mapsto> ?shu)) {} = linked (shapes rt1) {?s}"
      by (auto simp: linked_def hkey_def fun_eq_iff)
    have "rt_inv (ext(?s := ext ?s + 0)) {} ?rt"
      by (rule rt_inv_upd_shape [OF 3(2) s1 wf _ _ _ _ l]) (simp_all add: set_shape_def 2)
    then have "rt_inv ext {} ?rt" by (simp only: add_0_right fun_upd_triv)
    moreover have "obj_entries ?rt p = obj_entries rt1 p" "others_same p rt1 ?rt"
      using upd_shape_others [of ?rt rt1 ?s ?shu sh] s1 by (simp_all add: set_shape_def)
    moreover have "?sh0 = ?shu" "ob\<lparr>oshape := ?s\<rparr> = ob" using 2 by (cases sh; simp) (cases ob; simp)
    moreover have "own ext ?rt p ob ?shu" using own [OF 2(2)] 3(3,4) by (simp add: own_def set_shape_def)
    ultimately have "prepared ext rt p ob sh (0, ?rt)"
      using core_same [OF 3(3,4), of p p] others_same_trans [of p rt rt1 ?rt] p(1) 3(4) unfolding prepared_def
      by (auto simp: set_shape_def intro!: exI [of _ ?s])
    then show ?thesis using 2 p 3(1) by (simp add: js_shape_prepare_update_def Let_def)
  next
    case 3
    obtain s1 rt1 where 1: "js_clone_shape rt ?s = Some (s1, rt1)" "others_same p rt rt1" "obj_entries rt1 p = obj_entries rt p"
      "objs rt1 = objs rt" "s1 = 0 \<and> rt_inv ext {} rt1 \<and> shapes rt1 = shapes rt \<or>
        s1 \<noteq> 0 \<and> shapes rt s1 = None \<and> rt_inv (ext(s1 := 1)) {} rt1 \<and> shapes rt1 = (shapes rt)(s1 \<mapsto> ?sh0)"
      using okw_ex [OF js_clone_shape_ok [OF i p(2), of p]] by auto
    show ?thesis
    proof (cases "s1 = 0")
      case True
      then show ?thesis using 1 3 p by (simp add: js_shape_prepare_update_def prepared_def)
    next
      case False
      then have c: "shapes rt s1 = None" "rt_inv (ext(s1 := 1)) {} rt1" "shapes rt1 = (shapes rt)(s1 \<mapsto> ?sh0)" using 1(5) by auto
      have ne: "s1 \<noteq> ?s" using c(1) p(2) by auto
      have s: "shapes rt1 ?s = Some sh" using c(3) p(2) ne by simp
      obtain rt4 where 4: "js_free_shape rt1 ?s = Some rt4" "rt_inv ((ext(s1 := 1))(?s := (ext(s1 := 1)) ?s - 1)) {} rt4" "others_same p rt1 rt4"
        "obj_entries rt4 p = obj_entries rt1 p" "objs rt4 = objs rt1" "\<forall>t. t \<noteq> ?s \<longrightarrow> shapes rt4 t = shapes rt1 t"
        using okw_ex [OF js_free_shape_ok [OF c(2) s, of p]] 3(2) by auto
      have s4: "objs rt4 p = Some ob" "shapes rt4 s1 = Some ?sh0" using 4(5,6) p 1(4) c(3) ne by auto
      have sz: "prop_size ?sh0 \<le> length (oprop ob)" using rt_inv_object [OF i p(1)] p(2) by (auto simp: obj_ok_def)
      let ?e = "(ext(s1 := 1))(?s := (ext(s1 := 1)) ?s - 1)"
      obtain rt5 where 5: "set_obj_shape rt4 p s1 = Some rt5" "rt_inv (?e(?s := ?e ?s + 1, s1 := ?e s1 - 1)) {} rt5"
        "others_same p rt4 rt5" "obj_entries rt5 p = ents (sh_prop ?sh0) (prop_count ?sh0) (oprop ob)" "shapes rt5 = shapes rt4"
        "objs rt5 = (objs rt4)(p \<mapsto> ob\<lparr>oshape := s1\<rparr>)"
        using okw_ex [OF rt_inv_set_obj_shape [OF 4(2) s4(1) refl _ s4(2) sz]] ne by auto
      have "ext s1 = 0" using i c(1) by (simp add: rt_inv_def)
      then have "?e(?s := ?e ?s + 1, s1 := ?e s1 - 1) = ext" using ne by (auto simp: fun_eq_iff)
      then have i5: "rt_inv ext {} rt5" using 5(2) by simp
      have b5: "objs rt5 p = Some (ob\<lparr>oshape := s1\<rparr>)" "shapes rt5 s1 = Some ?sh0" using 5(5,6) s4(2) by auto
      have "own ext rt5 p (ob\<lparr>oshape := s1\<rparr>) ?sh0"
        using only_user [OF i5 b5(2) _ _ b5(1)] e b5 by (simp add: own_def)
      moreover have "others_same p rt rt5"
        by (rule others_same_trans [OF 1(2) others_same_trans [OF 4(3) 5(3)]])
      moreover have "obj_entries rt5 p = obj_entries rt p" using 5(4) p by (simp add: obj_entries_def)
      ultimately have "prepared ext rt p ob sh (0, rt5)" using i5 b5(1) by (auto simp: prepared_def)
      then show ?thesis using 3 p False 1(1) 4(1) 5(1) by (simp add: js_shape_prepare_update_def Let_def)
    qed
  qed
qed

section \<open>Taking an entry out\<close>

lemma find_prev_ok:
  assumes c: "chained pl n msk tab" and u: "unique_names pl n" and a: "a \<noteq> 0"
  shows "(\<forall>i < n. atom (pl ! i) \<noteq> a) \<and> find_prev_loop pl a None (tab ! hash_slot a msk) = Some None \<or>
    (\<exists>us i vs. i < n \<and> atom (pl ! i) = a \<and> chain_of pl n msk (hash_slot a msk) = us @ i # vs \<and>
      find_prev_loop pl a None (tab ! hash_slot a msk) = Some (Some (if us = [] then None else Some (last us), i)))"
proof -
  let ?h = "hash_slot a msk" and ?ks = "chain_of pl n msk (hash_slot a msk)"
  have ch: "is_chain pl (tab ! ?h) ?ks" using c hash_slot_less [of a msk] by (simp add: chained_def)
  show ?thesis
  proof (cases "\<exists>i < n. atom (pl ! i) = a")
    case False
    then have "\<forall>u \<in> set ?ks. atom (pl ! u) \<noteq> a" by auto
    then show ?thesis using find_prev_loop_none [OF ch] False by auto
  next
    case True
    then obtain i where i: "i < n" "atom (pl ! i) = a" by blast
    then have "i \<in> set ?ks" using a by simp
    then obtain us vs where ks: "?ks = us @ i # vs" "i \<notin> set us" by (meson split_list_first)
    have "\<forall>v \<in> set us. atom (pl ! v) \<noteq> a"
    proof
      fix v
      assume v: "v \<in> set us"
      then have "v \<in> set ?ks" using ks(1) by simp
      then show "atom (pl ! v) \<noteq> a" using unique_namesD [OF u, of v i] i a v ks(2) by auto
    qed
    then show ?thesis using find_prev_loop_chain [OF ch [unfolded ks(1)] i(2)] i ks(1) by auto
  qed
qed

lemma length_filter_neq: "distinct xs \<Longrightarrow> x \<in> set xs \<Longrightarrow> length (filter (\<lambda>y. y \<noteq> x) xs) + 1 = length xs"
proof (induction xs)
  case (Cons z xs)
  have "z = x \<Longrightarrow> filter (\<lambda>y. y \<noteq> x) xs = xs" using Cons.prems(1) by (auto intro: filter_True)
  then show ?case using Cons by (cases "z = x") auto
qed simp

lemma unlink_prop_ok:
  assumes wf: "shape_wf sh" and i: "i < prop_count sh" "atom (sh_prop sh ! i) = a" "a \<noteq> 0"
    and ks: "chain_of (sh_prop sh) (prop_count sh) (prop_hash_mask sh) (hash_slot a (prop_hash_mask sh)) = us @ i # vs"
  shows "\<exists>sh'. unlink_prop sh a (if us = [] then None else Some (last us)) i = Some sh' \<and> shape_wf sh' \<and>
    sh_ref_count sh' = sh_ref_count sh \<and> is_hashed sh' = is_hashed sh \<and> prop_count sh' = prop_count sh \<and> prop_size sh' = prop_size sh \<and>
    (\<forall>vals x. ents (sh_prop sh') (prop_count sh') (vals[i := x]) = filter (\<lambda>(b, _). b \<noteq> a) (ents (sh_prop sh) (prop_count sh) (vals :: 'v list)))"
proof -
  let ?n = "prop_count sh" and ?msk = "prop_hash_mask sh" and ?p = "sh_prop sh" and ?h = "hash_slot a (prop_hash_mask sh)"
  let ?pl = "if us = [] then ?p else ?p[last us := (?p ! last us)\<lparr>hash_next := hash_next (?p ! i)\<rparr>]"
  let ?tab = "if us = [] then (prop_hash sh)[?h := hash_next (?p ! i)] else prop_hash sh"
  have w: "chained ?p ?n ?msk (prop_hash sh)" "length ?p = prop_size sh" "unique_names ?p ?n" "?n = deleted_prop_count sh + length (live ?p ?n)"
    using wf by (auto simp: shape_wf_def)
  have il: "i < length ?p" "?n \<le> length ?p" using w(1) i(1) by (auto simp: chained_def)
  have d: "distinct (us @ i # vs)" using distinct_chain_of [of ?p ?n ?msk ?h] ks by simp
  have lu: "last us \<noteq> i" "last us < length ?p" if "us \<noteq> []"
  proof -
    have "last us \<in> set us" using that by simp
    then have "last us \<in> set (chain_of ?p ?n ?msk ?h)" unfolding ks by simp
    then show "last us < length ?p" using il(2) by auto
    show "last us \<noteq> i" using d \<open>last us \<in> set us\<close> by auto
  qed
  have pi: "?pl ! i = ?p ! i" using lu(1) by (cases "us = []") auto
  let ?sh = "sh\<lparr>deleted_prop_count := deleted_prop_count sh + 1, sh_prop := cleared ?pl i, prop_hash := ?tab\<rparr>"
  have "?h < length (prop_hash sh)" using w(1) hash_slot_less [of a ?msk] by (simp add: chained_def)
  then have run: "unlink_prop sh a (if us = [] then None else Some (last us)) i = Some ?sh"
    using il(1) lu pi by (cases "us = []") (simp_all add: unlink_prop_def rd_Some Let_def cleared_def)
  have len: "length ?pl = length ?p" by simp
  have at: "atom (?pl ! k) = atom (?p ! k)" "prflags (?pl ! k) = prflags (?p ! k)" for k
    using lu(2) by (cases "k = last us"; cases "us = []"; simp)+
  have lv: "live ?pl ?n = live ?p ?n" by (rule live_cong) (rule at)
  have lc: "live (cleared ?pl i) ?n = filter (\<lambda>j. j \<noteq> i) (live ?p ?n)"
    using live_cleared [of i ?pl ?n] il(1) len lv by simp
  have "length (filter (\<lambda>j. j \<noteq> i) (live ?p ?n)) + 1 = length (live ?p ?n)"
    by (rule length_filter_neq) (use i in simp_all)
  then have del: "?n = deleted_prop_count sh + 1 + length (live (cleared ?pl i) ?n)" using w(4) lc by simp
  have ca: "atom (cleared ?pl i ! k) = atom (?p ! k)" if "k \<noteq> i" for k using at(1) that by (simp add: cleared_def)
  have un: "unique_names (cleared ?pl i) ?n"
    unfolding unique_names_def lc
    by (rule inj_onI) (use ca unique_namesD [OF w(3)] in auto)
  have "shape_wf ?sh"
    using wf chained_remove [OF w(1) i ks] un del len by (simp add: shape_wf_def cleared_def [of ?pl])
  moreover have "ents (cleared ?pl i) ?n (vals[i := x]) = filter (\<lambda>(b, _). b \<noteq> a) (ents ?p ?n vals)" for vals :: "'v list" and x
  proof -
    have "unique_names ?pl ?n" using unique_names_cong [OF lv] at(1) w(3) by blast
    then have "ents (cleared ?pl i) ?n (vals[i := x]) = filter (\<lambda>(b, _). b \<noteq> a) (ents ?pl ?n vals)"
      using ents_cleared [of i ?pl ?n a vals x] i il(1) len pi by simp
    also have "ents ?pl ?n vals = ents ?p ?n vals" by (rule ents_cong) (use at in auto)
    finally show ?thesis .
  qed
  ultimately show ?thesis using run by (intro exI [of _ ?sh]) simp
qed

section \<open>Compaction\<close>

lemma ents_all_live: "(\<forall>k < j. atom (pl ! k) \<noteq> 0) \<Longrightarrow> live pl j = [0..<j]"
  unfolding live_def by (rule filter_True) auto

lemma live_of_ents: "ents pl j v = ents q n w \<Longrightarrow> map (\<lambda>i. atom (pl ! i)) (live pl j) = map (\<lambda>i. atom (q ! i)) (live q n)"
  by (drule arg_cong [of _ _ "map fst"]) (simp add: ents_def comp_def)

lemma unique_names_distinct: "unique_names pl n \<longleftrightarrow> distinct (map (\<lambda>i. atom (pl ! i)) (live pl n))"
  by (simp add: unique_names_def distinct_map)

lemma compact_properties_ok:
  assumes i: "rt_inv ext {} rt" and o: "own ext rt p ob sh" and h: "\<not> is_hashed sh" and sz: "2 \<le> prop_size sh"
  shows "okw (compact_properties rt p) (\<lambda>(r, rt'). rt_inv ext {} rt' \<and> others_same p rt rt' \<and> obj_entries rt' p = obj_entries rt p \<and>
    objs rt' p \<noteq> None)"
proof -
  let ?s = "oshape ob" and ?n = "prop_count sh" and ?k = "max JS_PROP_INITIAL_SIZE (prop_count sh - deleted_prop_count sh)"
  have p: "objs rt p = Some ob" and s: "shapes rt ?s = Some sh" "users (objs rt) ?s = {p}" "ext ?s = 0" "sh_ref_count sh = 1"
    using o by (auto simp: own_def)
  have wf: "shape_wf sh" by (rule rt_invD(1) [OF i s(1)])
  have w: "length (sh_prop sh) = prop_size sh" "?n \<le> prop_size sh" "?n < 2 ^ 26" "unique_names (sh_prop sh) ?n"
    "length (live (sh_prop sh) ?n) = ?n - deleted_prop_count sh" "prop_size sh < 2 ^ 27"
    using wf by (auto simp: shape_wf_def chained_def)
  have vl: "?n \<le> length (oprop ob)" using rt_inv_object [OF i p] s(1) w(2) by (auto simp: obj_ok_def)
  have k: "?k \<le> prop_size sh" "0 < ?k" using sz w(2) by auto
  obtain m where m: "shrink_hash (hash_size sh) ?k = Some m" "0 < m" "m \<le> hash_size sh"
    using shrink_hash_ok [OF k(2) hash_size_le(1)] by blast
  then have m32: "m \<le> 2 ^ 32" using hash_size_le(2) [of sh] by linarith
  let ?msk = "of_nat m - 1 :: u32"
  obtain s' rt1 where j: "js_malloc rt = (s', rt1)" by fastforce
  note c = js_malloc_core [OF j i]
  have le: "(is_hashed sh \<or> prop_size sh < ?k) = False" using h k(1) by (metis not_le)
  have pre: "compact_properties rt p =
      (if s' = 0 then Some (- 1, rt1)
       else do {
         let rt = rt1\<lparr>gc_obj_list := remove1 ?s (gc_obj_list rt1) @ [s']\<rparr>;
         (j, prop, tab, vals) \<leftarrow> compact_loop ?msk (sh_prop sh) ?n 0 0
            (replicate ?k (junk_prop rt), replicate m 0, oprop ob);
         if j \<noteq> ?n - deleted_prop_count sh then None
         else do {
           let rt = set_shape rt s' (sh\<lparr>prop_hash_mask := ?msk, prop_hash := tab, sh_prop := prop,
             prop_size := ?k, deleted_prop_count := 0, prop_count := j\<rparr>);
           let rt = rt\<lparr>objs := (objs rt)(p \<mapsto> ob\<lparr>oshape := s', oprop := vals\<rparr>), shapes := (shapes rt)(?s := None)\<rparr>;
           (_, rt) \<leftarrow> realloc_prop rt p ?k;
           Some (0, rt)
         }
       })"
    by (simp only: compact_properties_def p s(1) Option.bind.bind_lunit Let_def le if_False m(1) j prod.case)
  show ?thesis
  proof (cases "s' = 0")
    case True
    then show ?thesis
      unfolding pre using same_core_inv [OF i c(1)] same_core_others [OF c(1)] same_core_entries [OF c(1)] c(1) p
      by (simp add: same_core_def)
  next
    case False
    let ?g = "rt1\<lparr>gc_obj_list := remove1 ?s (gc_obj_list rt1) @ [s']\<rparr>"
    have cg: "same_core rt ?g" using c(1) by (simp add: same_core_def)
    have f: "shapes rt s' = None" "0 < s'" "s' < next_ptr rt1" using c(2) False rt_inv_fresh [OF i] by auto
    then have ne: "s' \<noteq> ?s" using s(1) by auto
    have "chained (replicate ?k (junk_prop ?g)) 0 ?msk (replicate m 0)"
      by (rule chained_empty) (use hash_mask [OF m(2) m32] in auto)
    then have st: "compacted (sh_prop sh) (oprop ob) ?msk 0 0 (replicate ?k (junk_prop ?g), replicate m 0, oprop ob)"
      by (simp add: compacted_def live_def ents_def)
    have "?n \<le> length (sh_prop sh)" "length (live (sh_prop sh) ?n) \<le> length (replicate ?k (junk_prop ?g))" using w by auto
    from compact_loop_ok [OF st le0 this(1) vl this(2) w(3)]
    obtain j' q tab vals where L: "compact_loop ?msk (sh_prop sh) ?n 0 0 (replicate ?k (junk_prop ?g), replicate m 0, oprop ob) = Some (j', q, tab, vals)"
      "compacted (sh_prop sh) (oprop ob) ?msk ?n j' (q, tab, vals)" "length q = ?k" by fastforce
    have J: "j' = ?n - deleted_prop_count sh" "chained q j' ?msk tab" "\<forall>k < j'. atom (q ! k) \<noteq> 0"
      "ents q j' vals = ents (sh_prop sh) ?n (oprop ob)" "length vals = length (oprop ob)"
      using L(2) w(5) by (auto simp: compacted_def)
    let ?sh = "sh\<lparr>prop_hash_mask := ?msk, prop_hash := tab, sh_prop := q, prop_size := ?k, deleted_prop_count := 0, prop_count := j'\<rparr>"
    let ?rt2 = "set_shape ?g s' ?sh"
    let ?rt3 = "?rt2\<lparr>objs := (objs ?rt2)(p \<mapsto> ob\<lparr>oshape := s', oprop := vals\<rparr>), shapes := (shapes ?rt2)(?s := None)\<rparr>"
    have "unique_names q j'" using live_of_ents [OF J(4)] w(4) by (simp add: unique_names_distinct)
    then have wf': "shape_wf ?sh"
      using J(2) L(3) ents_all_live [OF J(3)] w(3) J(1) k(1) w(6) by (auto simp: shape_wf_def)
    have r3: "shapes ?rt3 = (shapes rt)(?s := None, s' \<mapsto> ?sh)" "objs ?rt3 = (objs rt)(p \<mapsto> ob\<lparr>oshape := s', oprop := vals\<rparr>)"
      "next_ptr rt \<le> next_ptr ?rt3" "shape_hash_tab ?rt3 = shape_hash_tab rt" "shape_hash_bits ?rt3 = shape_hash_bits rt"
      using cg ne by (auto simp: same_core_def set_shape_def fun_eq_iff)
    have l: "linked (shapes ?rt3) {} = linked (shapes rt) {}"
      using s(1) h f(1) unfolding r3(1) by (auto simp: linked_def hkey_def fun_eq_iff)
    have s': "s' = ?s \<or> shapes rt s' = None \<and> 0 < s'" "s' < next_ptr ?rt3" using f by (auto simp: set_shape_def)
    have sh': "sh_ref_count ?sh = 1" "prop_size ?sh \<le> length vals"
      using s(4) J(5) k(1) rt_inv_object [OF i p] s(1) by (auto simp: obj_ok_def)
    note R = rt_inv_replace [OF i p refl s(1-3) s' wf' sh' r3 l]
    have p3: "objs ?rt3 p = Some (ob\<lparr>oshape := s', oprop := vals\<rparr>)" "shapes ?rt3 (oshape (ob\<lparr>oshape := s', oprop := vals\<rparr>)) = Some ?sh"
      using r3(1,2) by simp_all
    obtain ok rt4 where 4: "realloc_prop ?rt3 p ?k = Some (ok, rt4)" "rt_inv ext {} rt4" "others_same p ?rt3 rt4"
      "obj_entries rt4 p = obj_entries ?rt3 p" "objs rt4 p \<noteq> None"
      using okw_ex [OF realloc_prop_ok [OF R(1) p3, of ?k]] by auto
    have "obj_entries rt4 p = obj_entries rt p" using 4(4) R(3) J(4) p s(1) by (simp add: obj_entries_def)
    moreover have "compact_properties rt p = Some (0, rt4)"
      unfolding pre if_not_P [OF False] Let_def L(1) Option.bind.bind_lunit prod.case using J(1) 4(1) by simp
    ultimately show ?thesis using 4(2,5) others_same_trans [OF R(2) 4(3)] by simp
  qed
qed

section \<open>Deleting a property\<close>

definition deleted_ok :: "(ptr \<Rightarrow> int) \<Rightarrow> 'v rt \<Rightarrow> ptr \<Rightarrow> u32 \<Rightarrow> int \<times> 'v rt \<Rightarrow> bool" where
  "deleted_ok ext rt p a z \<longleftrightarrow> (case z of (r, rt') \<Rightarrow> rt_inv ext {} rt' \<and> others_same p rt rt' \<and> r \<in> {0, 1, - 1} \<and> objs rt' p \<noteq> None \<and>
     obj_entries rt' p = (if r = 1 then filter (\<lambda>(b, _). b \<noteq> a) (obj_entries rt p) else obj_entries rt p) \<and>
     (r = 0 \<longrightarrow> (\<exists>f v. map_of (obj_entries rt p) a = Some (f, v) \<and> f AND JS_PROP_CONFIGURABLE = 0)))"

lemma delete_property_ok:
  assumes i: "rt_inv ext {} rt" and e: "\<forall>s. 0 \<le> ext s" and p: "objs rt p = Some ob" and a: "a \<noteq> 0"
  shows "okw (delete_property rt p a) (deleted_ok ext rt p a)"
proof -
  let ?s = "oshape ob"
  obtain sh where s: "shapes rt ?s = Some sh" "prop_size sh \<le> length (oprop ob)" using rt_inv_obj [OF i p] by blast
  let ?n = "prop_count sh" and ?p = "sh_prop sh" and ?h = "hash_slot a (prop_hash_mask sh)"
  note wf = rt_invD(1) [OF i s(1)]
  have w: "chained ?p ?n (prop_hash_mask sh) (prop_hash sh)" "unique_names ?p ?n" "length ?p = prop_size sh"
    "?n = deleted_prop_count sh + length (live ?p ?n)"
    using wf by (auto simp: shape_wf_def)
  have h: "rd (prop_hash sh) ?h = Some (prop_hash sh ! ?h)"
    using w(1) hash_slot_less [of a "prop_hash_mask sh"] by (simp add: rd_def chained_def)
  have en: "obj_entries rt p = ents ?p ?n (oprop ob)" using p s(1) by (simp add: obj_entries_def)
  consider "\<forall>i < ?n. atom (?p ! i) \<noteq> a" "find_prev_loop ?p a None (prop_hash sh ! ?h) = Some None"
    | us k vs where "k < ?n" "atom (?p ! k) = a" "chain_of ?p ?n (prop_hash_mask sh) ?h = us @ k # vs"
      "find_prev_loop ?p a None (prop_hash sh ! ?h) = Some (Some (if us = [] then None else Some (last us), k))"
    using find_prev_ok [OF w(1,2) a] by blast
  then show ?thesis
  proof cases
    case 1
    have "a \<notin> fst ` set (obj_entries rt p)" unfolding en ents_names using 1(1) by blast
    then have "filter (\<lambda>(b, _). b \<noteq> a) (obj_entries rt p) = obj_entries rt p" by (force intro!: filter_True)
    then have "deleted_ok ext rt p a (1, rt)" using i p by (simp add: deleted_ok_def others_same_refl)
    then show ?thesis unfolding delete_property_def p s(1) Option.bind.bind_lunit h 1(2) by simp
  next
    case 2
    have rdk: "rd ?p k = Some (?p ! k)" using 2(1) w(1) by (auto simp: rd_def chained_def)
    show ?thesis
    proof (cases "prflags (?p ! k) AND JS_PROP_CONFIGURABLE = 0")
      case True
      have "map_of (obj_entries rt p) a = Some (prflags (?p ! k), oprop ob ! k)"
        unfolding en using map_of_ents(1) [OF w(2) 2(1,2) a] .
      then have "deleted_ok ext rt p a (0, rt)" using i p True by (auto simp: deleted_ok_def others_same_refl)
      then show ?thesis
        unfolding delete_property_def p s(1) Option.bind.bind_lunit h 2(4) using True by (simp add: rdk)
    next
      case False
      obtain z where z: "js_shape_prepare_update rt p = Some z" "prepared ext rt p ob sh z"
        using okw_ex [OF js_shape_prepare_update_ok [OF i e p s(1)]] by blast
      obtain r rt1 where zr: "z = (r, rt1)" by fastforce
      have 1: "rt_inv ext {} rt1" "others_same p rt rt1" "obj_entries rt1 p = obj_entries rt p" "r = 0 \<or> r = - 1" "objs rt1 p \<noteq> None"
        using z(2) zr by (auto simp: prepared_def)
      show ?thesis
      proof (cases "r = 0")
        case r: False
        then have "deleted_ok ext rt p a (- 1, rt1)" using 1 by (simp add: deleted_ok_def)
        then show ?thesis
          unfolding delete_property_def p s(1) Option.bind.bind_lunit h 2(4) using False r by (simp add: rdk z(1) zr)
      next
        case r: True
        let ?sh1 = "sh\<lparr>sh_ref_count := 1, is_hashed := False\<rparr>"
        obtain s1 where o1: "own ext rt1 p (ob\<lparr>oshape := s1\<rparr>) ?sh1" using z(2) zr r by (auto simp: prepared_def)
        let ?ob1 = "ob\<lparr>oshape := s1\<rparr>"
        have p1: "objs rt1 p = Some ?ob1" "shapes rt1 s1 = Some ?sh1" using o1 by (auto simp: own_def)
        have wf1: "shape_wf ?sh1" by (rule rt_invD(1) [OF 1(1) p1(2)])
        obtain sh2 where u: "unlink_prop ?sh1 a (if us = [] then None else Some (last us)) k = Some sh2" "shape_wf sh2"
          "sh_ref_count sh2 = 1" "\<not> is_hashed sh2" "prop_count sh2 = ?n" "prop_size sh2 = prop_size sh"
          "ents (sh_prop sh2) ?n ((oprop ob)[k := JS_UNDEFINED]) = filter (\<lambda>(b, _). b \<noteq> a) (ents ?p ?n (oprop ob))"
          using unlink_prop_ok [OF wf1, of k a us vs, where ?'v = "'a slot"] 2(1-3) a by auto
        let ?v = "oprop ob ! k"
        have rdv: "rd (oprop ob) k = Some ?v" using 2(1) s(2) w by (auto simp: rd_def chained_def)
        let ?rt2 = "js_free_atom (rt1\<lparr>released := released rt1 @ [(?v, prflags (?p ! k))]\<rparr>) a"
        have c2: "same_core rt1 ?rt2" by (auto simp: same_core_def js_free_atom_def)
        let ?rt3 = "set_shape ?rt2 s1 sh2"
        let ?rt4 = "?rt3\<lparr>objs := (objs ?rt3)(p \<mapsto> ?ob1\<lparr>oprop := (oprop ?ob1)[k := JS_UNDEFINED]\<rparr>)\<rparr>"
        have i2: "rt_inv ext {} ?rt2" by (rule same_core_inv [OF 1(1) c2])
        have p2: "objs ?rt2 p = Some ?ob1" "shapes ?rt2 s1 = Some ?sh1" using c2 p1 by (auto simp: same_core_def)
        have l: "linked ((shapes ?rt2)(s1 \<mapsto> sh2)) {} = linked (shapes ?rt2) {}"
          using p2(2) u(4) by (auto simp: linked_def hkey_def fun_eq_iff)
        have "rt_inv (ext(s1 := ext s1 + 0)) {} ?rt3"
          by (rule rt_inv_upd_shape [OF i2 p2(2) u(2) _ _ _ _ l]) (use u in \<open>simp_all add: set_shape_def\<close>)
        then have i3: "rt_inv ext {} ?rt3" by (simp only: add_0_right fun_upd_triv)
        have us1: "users (objs rt1) s1 = {p}" using o1 by (simp add: own_def)
        have o23: "others_same p ?rt2 ?rt3"
        proof -
          have "oshape b \<noteq> s1" if "objs ?rt2 q = Some b" "q \<noteq> p" for q b
            using us1 c2 that by (auto simp: users_def same_core_def)
          then show ?thesis by (auto simp: others_same_def obj_entries_def set_shape_def split: option.splits)
        qed
        have p3: "objs ?rt3 p = Some ?ob1" "shapes ?rt3 (oshape ?ob1) = Some sh2" using p2 by (simp_all add: set_shape_def)
        have sz3: "prop_size sh2 \<le> length ((oprop ?ob1)[k := JS_UNDEFINED])" using u(6) s(2) by simp
        have r4: "shapes ?rt4 = shapes ?rt3" "objs ?rt4 = (objs ?rt3)(p \<mapsto> ?ob1\<lparr>oprop := (oprop ?ob1)[k := JS_UNDEFINED]\<rparr>)"
          "next_ptr ?rt4 = next_ptr ?rt3" "shape_hash_tab ?rt4 = shape_hash_tab ?rt3" "shape_hash_bits ?rt4 = shape_hash_bits ?rt3"
          by simp_all
        note 4 = rt_inv_set_values [OF i3 p3 sz3 r4]
        have e4: "obj_entries ?rt4 p = filter (\<lambda>(b, _). b \<noteq> a) (obj_entries rt p)"
          using 4(3) u(5,7) en by simp
        have o4: "others_same p rt ?rt4"
          by (rule others_same_trans [OF 1(2) others_same_trans [OF same_core_others [OF c2] others_same_trans [OF o23 4(2)]]])
        let ?ob4 = "?ob1\<lparr>oprop := (oprop ?ob1)[k := JS_UNDEFINED]\<rparr>"
        have own4: "own ext ?rt4 p ?ob4 sh2"
        proof -
          have b: "objs ?rt4 p = Some ?ob4" "shapes ?rt4 s1 = Some sh2" by (simp_all add: set_shape_def)
          show ?thesis using only_user [OF 4(1) b(2) u(3) _ b(1)] e b u(3) by (simp add: own_def)
        qed
        have del: "deleted_ok ext rt p a (1, ?rt4)" using 4(1) o4 e4 by (simp add: deleted_ok_def)
        have w2: "prop_count sh2 \<le> prop_size sh2" "prop_count sh2 = deleted_prop_count sh2 + length (live (sh_prop sh2) ?n)"
          using u(2,5) by (auto simp: shape_wf_def chained_def)
        have "okw (if deleted_prop_count sh2 \<ge> 8 \<and> deleted_prop_count sh2 \<ge> prop_count sh2 div 2
              then do { (_, rt) \<leftarrow> compact_properties ?rt4 p; Some rt } else Some ?rt4) (\<lambda>rt5. deleted_ok ext rt p a (1, rt5))"
        proof (cases "deleted_prop_count sh2 \<ge> 8 \<and> deleted_prop_count sh2 \<ge> prop_count sh2 div 2")
          case True
          then have "2 \<le> prop_size sh2" using w2 by linarith
          then obtain r5 rt5 where 5: "compact_properties ?rt4 p = Some (r5, rt5)" "rt_inv ext {} rt5" "others_same p ?rt4 rt5"
            "obj_entries rt5 p = obj_entries ?rt4 p" "objs rt5 p \<noteq> None"
            using okw_ex [OF compact_properties_ok [OF 4(1) own4 u(4)]] by auto
          have "deleted_ok ext rt p a (1, rt5)"
            using 5(2,4,5) e4 others_same_trans [OF o4 5(3)] by (simp add: deleted_ok_def)
          then show ?thesis using True 5(1) by simp
        next
          case False
          show ?thesis unfolding if_not_P [OF False] using del by simp
        qed
        then obtain rt5 where f: "(if deleted_prop_count sh2 \<ge> 8 \<and> deleted_prop_count sh2 \<ge> prop_count sh2 div 2
              then do { (_, rt) \<leftarrow> compact_properties ?rt4 p; Some rt } else Some ?rt4) = Some rt5" "deleted_ok ext rt p a (1, rt5)"
          using okw_ex by blast
        have o: "oshape ?ob1 = s1" "oprop ?ob1 = oprop ob" by simp_all
        have "delete_property rt p a = Some (1, rt5)"
          unfolding delete_property_def p s(1) Option.bind.bind_lunit h 2(4) option.case prod.case rdk if_not_P [OF False] z(1) zr
            p1(1) Let_def o
          by (simp only: r p1(2) Option.bind.bind_lunit u(1) rdv f(1) [unfolded o] not_True_eq_False simp_thms if_False)
        then show ?thesis using f(2) by simp
      qed
    qed
  qed
qed

end
