(* ===== verification/Shape_Make.thy ===== *)
theory Shape_Make
  imports Shape_Delete
begin

text \<open>
  Lookup, changing the flags of a property, and the creation of objects with the growth of the
  runtime's table of shapes.
\<close>

section \<open>Lookup\<close>

lemma find_own_property_ok:
  assumes i: "rt_inv ext U rt" and p: "objs rt p = Some ob"
  shows "okw (find_own_property rt p a) (\<lambda>r. map_option snd r = map_of (obj_entries rt p) a)"
proof -
  obtain sh where s: "shapes rt (oshape ob) = Some sh" "prop_size sh \<le> length (oprop ob)" using rt_inv_obj [OF i p] by blast
  have w: "chained (sh_prop sh) (prop_count sh) (prop_hash_mask sh) (prop_hash sh)" "unique_names (sh_prop sh) (prop_count sh)"
    "length (sh_prop sh) = prop_size sh"
    using rt_invD(1) [OF i s(1)] by (auto simp: shape_wf_def)
  obtain r where r: "find_shape_property sh a = Some r" "case r of
       None \<Rightarrow> \<forall>i < prop_count sh. atom (sh_prop sh ! i) \<noteq> 0 \<longrightarrow> atom (sh_prop sh ! i) \<noteq> a
     | Some i \<Rightarrow> i < prop_count sh \<and> atom (sh_prop sh ! i) = a \<and> a \<noteq> 0"
    using find_loop_ok [OF w(1), of a] unfolding find_shape_property_def by blast
  have en: "obj_entries rt p = ents (sh_prop sh) (prop_count sh) (oprop ob)" using p s(1) by (simp add: obj_entries_def)
  show ?thesis
  proof (cases r)
    case None
    then show ?thesis
      using map_of_ents(2) [OF w(2), of a "oprop ob"] r p s(1) by (simp add: find_own_property_def en)
  next
    case (Some i)
    then have k: "i < prop_count sh" "atom (sh_prop sh ! i) = a" "a \<noteq> 0" using r(2) by auto
    have "rd (sh_prop sh) i = Some (sh_prop sh ! i)" "rd (oprop ob) i = Some (oprop ob ! i)"
      using k(1) w(1,3) s(2) by (auto simp: rd_def chained_def)
    then show ?thesis
      using map_of_ents(1) [OF w(2) k, of "oprop ob"] r(1) p s(1) Some by (simp add: find_own_property_def en)
  qed
qed

section \<open>Changing the flags\<close>

definition with_flags :: "u32 \<Rightarrow> nat \<Rightarrow> (u32 \<times> nat \<times> 'v) list \<Rightarrow> (u32 \<times> nat \<times> 'v) list" where
  "with_flags a f = map (\<lambda>(b, g, v). if b = a then (b, f, v) else (b, g, v))"

lemma set_flags_ents:
  assumes u: "unique_names pl n" and i: "i < n" "n \<le> length pl" "atom (pl ! i) = a" "a \<noteq> 0"
  shows "ents (pl[i := (pl ! i)\<lparr>prflags := f\<rparr>]) n vals = with_flags a f (ents pl n vals)"
proof -
  let ?q = "pl[i := (pl ! i)\<lparr>prflags := f\<rparr>]"
  have at: "atom (?q ! k) = atom (pl ! k)" for k using i by (cases "k = i") auto
  have l: "live ?q n = live pl n" by (rule live_cong) (rule at)
  have "(atom (?q ! k), prflags (?q ! k), vals ! k) =
      (\<lambda>(b, g, v). if b = a then (b, f, v) else (b, g, v)) (atom (pl ! k), prflags (pl ! k), vals ! k)"
    if k: "k \<in> set (live pl n)" for k
  proof (cases "k = i")
    case False
    then have "atom (pl ! k) \<noteq> a" using unique_namesD [OF u, of k i] k i by auto
    then show ?thesis using False i by simp
  qed (use i in simp)
  then show ?thesis by (simp add: ents_def with_flags_def l)
qed

lemma set_flags_wf:
  assumes wf: "shape_wf sh" and i: "i < prop_count sh"
  shows "shape_wf (sh\<lparr>sh_prop := (sh_prop sh)[i := (sh_prop sh ! i)\<lparr>prflags := f\<rparr>]\<rparr>)"
proof -
  let ?p = "sh_prop sh" and ?q = "(sh_prop sh)[i := (sh_prop sh ! i)\<lparr>prflags := f\<rparr>]" and ?n = "prop_count sh"
  have w: "chained ?p ?n (prop_hash_mask sh) (prop_hash sh)" "unique_names ?p ?n" using wf by (auto simp: shape_wf_def)
  have il: "i < length ?p" using i w(1) by (simp add: chained_def)
  have at: "atom (?q ! k) = atom (?p ! k)" "hash_next (?q ! k) = hash_next (?p ! k)" for k
    using il by (cases "k = i"; simp)+
  have l: "live ?q ?n = live ?p ?n" by (rule live_cong) (rule at)
  have c: "chain_of ?q ?n msk h = chain_of ?p ?n msk h" for msk h by (rule chain_of_cong) (rule at)
  have "chained ?q ?n (prop_hash_mask sh) (prop_hash sh)"
    unfolding chained_def c
  proof (intro conjI allI impI)
    fix h
    assume "h < length (prop_hash sh)"
    then have "is_chain ?p (prop_hash sh ! h) (chain_of ?p ?n (prop_hash_mask sh) h)" using w(1) by (simp add: chained_def)
    then show "is_chain ?q (prop_hash sh ! h) (chain_of ?p ?n (prop_hash_mask sh) h)"
      by (rule is_chain_cong) (simp_all only: at length_list_update le_refl)
  qed (use w(1) in \<open>simp_all add: chained_def\<close>)
  moreover have "unique_names ?q ?n" using unique_names_cong [OF l] at(1) w(2) by blast
  ultimately show ?thesis using wf by (simp add: shape_wf_def l)
qed

definition flagged :: "(ptr \<Rightarrow> int) \<Rightarrow> 'v rt \<Rightarrow> ptr \<Rightarrow> u32 \<Rightarrow> nat \<Rightarrow> int \<times> 'v rt \<Rightarrow> bool" where
  "flagged ext rt p a f z \<longleftrightarrow> (case z of (r, rt') \<Rightarrow> rt_inv ext {} rt' \<and> others_same p rt rt' \<and> r \<in> {0, - 1} \<and>
     obj_entries rt' p = (if r = 0 then with_flags a f (obj_entries rt p) else obj_entries rt p))"

lemma js_update_property_flags_ok:
  assumes i: "rt_inv ext {} rt" and e: "\<forall>s. 0 \<le> ext s" and p: "objs rt p = Some ob" "shapes rt (oshape ob) = Some sh"
    and k: "k < prop_count sh" "atom (sh_prop sh ! k) = a" "a \<noteq> 0" and f: "flags < 64"
  shows "okw (js_update_property_flags rt p k flags) (flagged ext rt p a flags)"
proof -
  let ?p = "sh_prop sh" and ?n = "prop_count sh"
  have w: "chained ?p ?n (prop_hash_mask sh) (prop_hash sh)" "unique_names ?p ?n"
    using rt_invD(1) [OF i p(2)] by (auto simp: shape_wf_def)
  have n: "?n \<le> length ?p" and rdk: "rd ?p k = Some (?p ! k)" using w(1) k by (auto simp: rd_def chained_def)
  have en: "obj_entries rt p = ents ?p ?n (oprop ob)" using p by (simp add: obj_entries_def)
  note E = set_flags_ents [OF w(2) k(1) n k(2,3), of flags]
  show ?thesis
  proof (cases "flags = prflags (?p ! k)")
    case True
    then have "?p[k := (?p ! k)\<lparr>prflags := flags\<rparr>] = ?p" by simp
    then have "with_flags a flags (obj_entries rt p) = obj_entries rt p" using E unfolding en by metis
    then have "flagged ext rt p a flags (0, rt)" using i by (simp add: flagged_def others_same_refl)
    then show ?thesis using True p rdk by (simp add: js_update_property_flags_def)
  next
    case False
    obtain r rt1 where z: "js_shape_prepare_update rt p = Some (r, rt1)" "prepared ext rt p ob sh (r, rt1)"
      using okw_ex [OF js_shape_prepare_update_ok [OF i e p]] by auto
    have 1: "rt_inv ext {} rt1" "others_same p rt rt1" "obj_entries rt1 p = obj_entries rt p" "r = 0 \<or> r = - 1"
      using z(2) by (auto simp: prepared_def)
    show ?thesis
    proof (cases "r = 0")
      case r: False
      then have "flagged ext rt p a flags (r, rt1)" using 1 by (auto simp: flagged_def)
      then show ?thesis using False r p rdk z(1) 1(4) by (simp add: js_update_property_flags_def)
    next
      case r: True
      let ?sh1 = "sh\<lparr>sh_ref_count := 1, is_hashed := False\<rparr>"
      obtain s1 where o1: "own ext rt1 p (ob\<lparr>oshape := s1\<rparr>) ?sh1" using z(2) r by (auto simp: prepared_def)
      have p1: "objs rt1 p = Some (ob\<lparr>oshape := s1\<rparr>)" "shapes rt1 s1 = Some ?sh1" "users (objs rt1) s1 = {p}"
        using o1 by (auto simp: own_def)
      let ?sh2 = "?sh1\<lparr>sh_prop := ?p[k := (?p ! k)\<lparr>prflags := flags\<rparr>]\<rparr>"
      let ?rt2 = "set_shape rt1 s1 ?sh2"
      have wf2: "shape_wf ?sh2" using set_flags_wf [OF rt_invD(1) [OF 1(1) p1(2)], of k] k(1) by simp
      have l: "linked ((shapes rt1)(s1 \<mapsto> ?sh2)) {} = linked (shapes rt1) {}"
        using p1(2) by (auto simp: linked_def hkey_def fun_eq_iff)
      have "rt_inv (ext(s1 := ext s1 + 0)) {} ?rt2"
        by (rule rt_inv_upd_shape [OF 1(1) p1(2) wf2 _ _ _ _ l]) (simp_all add: set_shape_def)
      then have i2: "rt_inv ext {} ?rt2" by (simp only: add_0_right fun_upd_triv)
      have "oshape b \<noteq> s1" if "objs rt1 q = Some b" "q \<noteq> p" for q b using p1(3) that by (auto simp: users_def)
      then have "others_same p rt1 ?rt2" by (auto simp: others_same_def obj_entries_def set_shape_def split: option.splits)
      then have o2: "others_same p rt ?rt2" by (rule others_same_trans [OF 1(2)])
      have "obj_entries ?rt2 p = with_flags a flags (obj_entries rt p)"
        using p1 E by (simp add: obj_entries_def set_shape_def en p)
      then have "flagged ext rt p a flags (0, ?rt2)" using i2 o2 by (simp add: flagged_def)
      moreover have "js_update_property_flags rt p k flags = Some (0, ?rt2)"
        using False r p rdk z(1) p1(1,2) f by (simp add: js_update_property_flags_def)
      ultimately show ?thesis by simp
    qed
  qed
qed

end
