(* ===== verification/Shape_New.thy ===== *)
theory Shape_New
  imports Shape_Make
begin

text \<open>
  The creation of objects: the initial shape of a prototype, shared when the runtime's table has it,
  and the growth of that table.
\<close>

section \<open>Growing the table\<close>

lemma distinct_concatI:
  "(\<forall>i < length t. distinct (t ! i)) \<Longrightarrow> (\<forall>i j. i < j \<longrightarrow> j < length t \<longrightarrow> set (t ! i) \<inter> set (t ! j) = {}) \<Longrightarrow>
   distinct (concat t)"
proof (induction t rule: rev_induct)
  case (snoc x t)
  have "\<forall>i < length t. distinct (t ! i)" using snoc.prems(1) by (auto simp: nth_append dest: less_SucI)
  moreover have "\<forall>i j. i < j \<longrightarrow> j < length t \<longrightarrow> set (t ! i) \<inter> set (t ! j) = {}"
  proof (intro allI impI)
    fix i j
    assume "i < j" "j < length t"
    then show "set (t ! i) \<inter> set (t ! j) = {}" using spec [OF spec [OF snoc.prems(2), of i], of j] by (simp add: nth_append)
  qed
  ultimately have "distinct (concat t)" by (rule snoc.IH)
  moreover have "distinct x" using snoc.prems(1) by (auto simp: nth_append dest: spec [of _ "length t"])
  moreover have "set (t ! i) \<inter> set x = {}" if "i < length t" for i
    using snoc.prems(2) that by (force simp: nth_append)
  then have "set (concat t) \<inter> set x = {}" by (auto simp: in_set_conv_nth [of _ t]) blast
  ultimately show ?case by simp
qed simp

lemma table_ok_concat:
  assumes t: "table_ok S bits tab {}"
  shows "distinct (concat tab)" "s \<in> set (concat tab) \<longleftrightarrow> hkey S s \<noteq> None"
proof -
  have b: "set (tab ! h) = {s. \<exists>k. hkey S s = Some k \<and> get_shape_hash k bits = h}" "distinct (tab ! h)" if "h < length tab" for h
    using t that by (auto simp: table_ok_def linked_def)
  show "distinct (concat tab)" by (rule distinct_concatI) (use b in auto)
  have "s \<in> set (concat tab) \<longleftrightarrow> (\<exists>h < length tab. s \<in> set (tab ! h))"
    by (simp, metis in_set_conv_nth)
  also have "\<dots> \<longleftrightarrow> hkey S s \<noteq> None"
  proof
    assume "\<exists>h < length tab. s \<in> set (tab ! h)"
    then show "hkey S s \<noteq> None" using b(1) by blast
  next
    assume "hkey S s \<noteq> None"
    then obtain k where k: "hkey S s = Some k" by blast
    have h: "get_shape_hash k bits < length tab" using t get_shape_hash_less by (auto simp: table_ok_def)
    then have "s \<in> set (tab ! get_shape_hash k bits)" using b(1) k by blast
    then show "\<exists>h < length tab. s \<in> set (tab ! h)" using h by blast
  qed
  finally show "s \<in> set (concat tab) \<longleftrightarrow> hkey S s \<noteq> None" .
qed

lemma rehash_shapes_ok:
  "distinct ss \<Longrightarrow> set ss \<subseteq> U \<Longrightarrow> (\<forall>s \<in> set ss. hkey S s \<noteq> None) \<Longrightarrow> table_ok S bits tab U \<Longrightarrow>
   okw (rehash_shapes S bits ss tab) (\<lambda>tab'. table_ok S bits tab' (U - set ss))"
proof (induction ss arbitrary: U tab)
  case (Cons s ss)
  obtain sh where s: "S s = Some sh" "is_hashed sh" using Cons.prems(3) by (auto simp: hkey_def split: option.splits if_splits)
  let ?h = "get_shape_hash (sh_hash sh) bits"
  have l: "linked S U s = None" "linked S (U - {s}) = (linked S U)(s \<mapsto> sh_hash sh)"
    using Cons.prems(2) s by (auto simp: linked_def hkey_def fun_eq_iff)
  note t = table_link [OF Cons.prems(4) l]
  have "okw (rehash_shapes S bits ss (tab[?h := s # tab ! ?h])) (\<lambda>tab'. table_ok S bits tab' (U - {s} - set ss))"
    by (rule Cons.IH) (use Cons.prems t(2) in auto)
  moreover have "U - {s} - set ss = U - set (s # ss)" by auto
  ultimately show ?case using s(1) t(1) by (simp add: rd_Some Let_def)
qed simp

lemma resize_shape_hash_ok:
  assumes i: "rt_inv ext {} rt" and b: "bits \<le> 32"
  shows "okw (resize_shape_hash rt bits) (\<lambda>(r, rt'). rt_inv ext {} rt' \<and> shapes rt' = shapes rt \<and> objs rt' = objs rt \<and>
    next_ptr rt \<le> next_ptr rt')"
proof -
  obtain q rt1 where m: "js_malloc rt = (q, rt1)" by fastforce
  note c = js_malloc_core(1) [OF m i]
  have i1: "rt_inv ext {} rt1" by (rule same_core_inv [OF i c])
  note t = table_ok_concat [OF rt_inv_table [OF i1]]
  let ?S = "shapes rt1" and ?ss = "concat (shape_hash_tab rt1)"
  have "table_ok ?S bits (replicate (2 ^ bits) []) UNIV" using b by (simp add: table_ok_def linked_def)
  then obtain tab where 1: "rehash_shapes ?S bits ?ss (replicate (2 ^ bits) []) = Some tab" "table_ok ?S bits tab (UNIV - set ?ss)"
    using okw_ex [OF rehash_shapes_ok [OF t(1), of UNIV ?S bits]] t(2) by blast
  have "linked ?S {} = linked ?S (UNIV - set ?ss)" using t(2) by (auto simp: linked_def fun_eq_iff)
  then have "table_ok ?S bits tab {}" by (rule table_ok_cong [OF 1(2)])
  then have "rt_inv ext {} (rt1\<lparr>shape_hash_bits := bits, shape_hash_tab := tab\<rparr>)" using i1 by (simp add: rt_inv_def)
  then show ?thesis using m c i1 1(1) by (simp add: resize_shape_hash_def same_core_def)
qed

section \<open>New shapes\<close>

definition new_shape_ok :: "(ptr \<Rightarrow> int) \<Rightarrow> 'v rt \<Rightarrow> ptr \<Rightarrow> ptr \<times> 'v rt \<Rightarrow> bool" where
  "new_shape_ok ext rt pr z \<longleftrightarrow> (case z of (s, rt') \<Rightarrow> objs rt' = objs rt \<and> (\<forall>q. obj_entries rt' q = obj_entries rt q) \<and>
     (if s = 0 then rt_inv ext {} rt'
      else shapes rt s = None \<and> rt_inv (ext(s := 1)) {} rt' \<and>
        (\<exists>sh. shapes rt' s = Some sh \<and> is_hashed sh \<and> proto sh = pr \<and> prop_count sh = 0)))"

lemma js_new_shape2_ok:
  assumes i: "rt_inv ext {} rt" and b: "shape_hash_bits rt < 32"
    and h: "0 < hs" "hs \<le> 2 ^ 32" "psize < 2 ^ 27"
  shows "okw (js_new_shape2 rt pr hs psize) (new_shape_ok ext rt pr)"
proof -
  let ?grow = "if 2 * (shape_hash_count rt + 1) > length (shape_hash_tab rt)
    then resize_shape_hash rt (shape_hash_bits rt + 1) else Some (0, rt)"
  have "okw ?grow (\<lambda>(r, rt'). rt_inv ext {} rt' \<and> shapes rt' = shapes rt \<and> objs rt' = objs rt \<and> next_ptr rt \<le> next_ptr rt')"
    using resize_shape_hash_ok [OF i, of "shape_hash_bits rt + 1"] b i by simp
  then obtain r rt0 where 0: "?grow = Some (r, rt0)" "rt_inv ext {} rt0" "shapes rt0 = shapes rt" "objs rt0 = objs rt"
    using okw_ex by fastforce
  obtain s rt1 where m: "js_malloc rt0 = (s, rt1)" by fastforce
  note c = js_malloc_core [OF m 0(2)]
  have i1: "rt_inv ext {} rt1" by (rule same_core_inv [OF 0(2) c(1)])
  have e0: "obj_entries rt1 q = obj_entries rt q" for q
    using same_core_entries [OF c(1), of q] 0(3,4) by (simp add: obj_entries_def split: option.splits)
  show ?thesis
  proof (cases "s = 0")
    case True
    then have "new_shape_ok ext rt pr (0, rt1)" using i1 c(1) 0(4) e0 by (simp add: new_shape_ok_def same_core_def)
    then show ?thesis using True 0(1) m by (simp add: js_new_shape2_def)
  next
    case False
    have f: "shapes rt1 s = None" "0 < s" "s < next_ptr rt1" "shapes rt s = None"
      using c False rt_inv_fresh [OF 0(2), of s] 0(3) by (auto simp: same_core_def)
    let ?rt2 = "dup_proto (rt1\<lparr>gc_obj_list := gc_obj_list rt1 @ [s]\<rparr>) pr"
    let ?sh = "\<lparr>sh_ref_count = 1, is_hashed = True, has_small_array_index = False,
             sh_hash = shape_initial_hash pr, prop_hash = replicate hs 0,
             prop_hash_mask = of_nat hs - 1, prop_size = psize, prop_count = 0,
             deleted_prop_count = 0, proto = pr, sh_prop = replicate psize (junk_prop ?rt2)\<rparr>"
    let ?rt3 = "set_shape ?rt2 s ?sh"
    have c2: "same_core rt1 ?rt2" by (auto simp: same_core_def dup_proto_def)
    have "chained (replicate psize (junk_prop ?rt2)) 0 (of_nat hs - 1) (replicate hs 0)"
      by (rule chained_empty) (use hash_mask [OF h(1,2)] in auto)
    then have wf: "shape_wf ?sh" using h(3) by (simp add: shape_wf_def unique_names_def live_def)
    have f2: "shapes ?rt2 s = None" "s < next_ptr ?rt2" using f c2 by (auto simp: same_core_def)
    have i2: "rt_inv ext {} ?rt2" by (rule same_core_inv [OF i1 c2])
    have r3: "shapes ?rt3 = (shapes ?rt2)(s \<mapsto> ?sh)" "objs ?rt3 = objs ?rt2" "next_ptr ?rt3 = next_ptr ?rt2"
      "shape_hash_tab ?rt3 = shape_hash_tab ?rt2" "shape_hash_bits ?rt3 = shape_hash_bits ?rt2"
      by (simp_all add: set_shape_def)
    have i3: "rt_inv (ext(s := 1)) {s} ?rt3" using rt_inv_new_shape(1) [OF i2 f2(1) f(2) f2(2) wf _ r3] by simp
    have e3: "obj_entries ?rt3 q = obj_entries ?rt2 q" for q
      using rt_inv_new_shape(2) [OF i2 f2(1) f(2) f2(2) wf _ r3] by simp
    have s3: "shapes ?rt3 s = Some ?sh" "is_hashed ?sh" by (simp_all add: r3(1))
    obtain rt4 where 4: "js_shape_hash_link ?rt3 s = Some rt4" "rt_inv (ext(s := 1)) ({s} - {s}) rt4" "shapes rt4 = shapes ?rt3" "objs rt4 = objs ?rt3"
      using okw_ex [OF js_shape_hash_link_ok [OF i3 s3]] by auto
    have "obj_entries rt4 q = obj_entries rt q" for q
      using core_same [OF 4(3,4), of 0 q] e3 [of q] same_core_entries [OF c2, of q] e0 [of q] by simp
    moreover have "objs rt4 = objs rt" using 4(4) r3(2) c2 c(1) 0(4) by (simp add: same_core_def)
    ultimately have "new_shape_ok ext rt pr (s, rt4)"
      using False f(4) 4(2,3) s3(1) by (simp add: new_shape_ok_def)
    moreover have "js_new_shape2 rt pr hs psize = Some (s, rt4)"
      unfolding js_new_shape2_def 0(1) Option.bind.bind_lunit prod.case m if_not_P [OF False] Let_def 4(1) ..
    ultimately show ?thesis by simp
  qed
qed

section \<open>New objects\<close>

lemma rt_inv_new_obj:
  assumes i: "rt_inv ext U rt" and p: "objs rt p = None" "0 < p" "p < next_ptr rt"
    and s: "shapes rt s = Some sh" "prop_size sh \<le> length vals"
    and r: "shapes rt' = shapes rt" "objs rt' = (objs rt)(p \<mapsto> \<lparr>oshape = s, oprop = vals\<rparr>)" "next_ptr rt' = next_ptr rt"
      "shape_hash_tab rt' = shape_hash_tab rt" "shape_hash_bits rt' = shape_hash_bits rt"
  shows "rt_inv (ext(s := ext s - 1)) U rt'" "others_same p rt rt'" "obj_entries rt' p = ents (sh_prop sh) (prop_count sh) vals"
proof -
  let ?ext = "ext(s := ext s - 1)"
  have u: "users (objs rt') s = insert p (users (objs rt) s)" "t \<noteq> s \<Longrightarrow> users (objs rt') t = users (objs rt) t" for t
    using p(1) by (auto simp: users_def r)
  have fin: "finite (users (objs rt) s)" by (rule rt_inv_finite [OF i])
  have "p \<notin> users (objs rt) s" using p(1) by (auto simp: users_def)
  then have c: "int (card (users (objs rt') s)) = int (card (users (objs rt) s)) + 1" using u(1) fin by simp
  have "shape_ok (next_ptr rt') (objs rt') ?ext t x" if t: "shapes rt t = Some x" for t x
  proof -
    have "int (card (users (objs rt') t)) + ?ext t = int (card (users (objs rt) t)) + ext t"
      using c u(2) [of t] by auto
    then show ?thesis using rt_inv_shape [OF i t] unfolding shape_ok_def r(3) by metis
  qed
  moreover have "obj_ok (next_ptr rt') (shapes rt) q b" if "objs rt' q = Some b" for q b
    using rt_inv_object [OF i, of q b] that s p by (auto simp: obj_ok_def r split: if_splits)
  moreover have "finite (dom (objs rt'))" using i by (simp add: r rt_inv_def)
  ultimately show "rt_inv ?ext U rt'"
    using i s(1) unfolding rt_inv_def r(1,4,5) by (auto simp: r(3))
  show "others_same p rt rt'" by (auto simp: others_same_def obj_entries_def r split: option.splits)
  show "obj_entries rt' p = ents (sh_prop sh) (prop_count sh) vals" using s(1) by (simp add: obj_entries_def r)
qed

definition created :: "(ptr \<Rightarrow> int) \<Rightarrow> 'v rt \<Rightarrow> ptr \<Rightarrow> ptr \<times> 'v rt \<Rightarrow> bool" where
  "created ext rt pr z \<longleftrightarrow> (case z of (p, rt') \<Rightarrow> rt_inv ext {} rt' \<and> others_same p rt rt' \<and>
     (if p = 0 then objs rt' = objs rt
      else objs rt p = None \<and> obj_entries rt' p = [] \<and>
        (\<exists>ob sh. objs rt' p = Some ob \<and> shapes rt' (oshape ob) = Some sh \<and> proto sh = pr)))"

lemma js_new_object_from_shape_ok:
  assumes i: "rt_inv ext {} rt" and s: "shapes rt s = Some sh" "1 \<le> ext s" "proto sh = pr" "prop_count sh = 0"
  shows "okw (js_new_object_from_shape rt s) (created (ext(s := ext s - 1)) rt pr)"
proof -
  have fail: "okw (do { rt \<leftarrow> js_free_shape rt1 s; Some (0 :: ptr, rt) }) (created (ext(s := ext s - 1)) rt pr)"
    if c: "same_core rt rt1" for rt1
  proof -
    have i1: "rt_inv ext {} rt1" and s1: "shapes rt1 s = Some sh"
      using same_core_inv [OF i c] c s(1) by (auto simp: same_core_def)
    have "users (objs rt1) s = {}" if "sh_ref_count sh = 1"
    proof -
      have "card (users (objs rt1) s) = 0" using rt_invD(4) [OF i1 s1] that s(2) by linarith
      then show ?thesis using rt_inv_finite [OF i1, of s] by simp
    qed
    then obtain rt2 where 2: "js_free_shape rt1 s = Some rt2" "rt_inv (ext(s := ext s - 1)) {} rt2" "others_same 0 rt1 rt2" "objs rt2 = objs rt1"
      using okw_ex [OF js_free_shape_ok [OF i1 s1, of 0]] by auto
    then have "created (ext(s := ext s - 1)) rt pr (0, rt2)"
      using c others_same_trans [OF same_core_others [OF c] 2(3)] by (simp add: created_def same_core_def)
    then show ?thesis using 2(1) by simp
  qed
  obtain p rt1 where m: "js_malloc rt = (p, rt1)" by fastforce
  note c = js_malloc_core [OF m i]
  have i1: "rt_inv ext {} rt1" by (rule same_core_inv [OF i c(1)])
  have s1: "shapes rt1 s = Some sh" using s(1) c(1) by (simp add: same_core_def)
  show ?thesis
  proof (cases "p = 0")
    case True
    then show ?thesis using fail [OF c(1)] m by (simp add: js_new_object_from_shape_def)
  next
    case p: False
    obtain q rt2 where n: "js_malloc rt1 = (q, rt2)" by fastforce
    note c2 = js_malloc_core(1) [OF n i1]
    note c12 = same_core_trans [OF c(1) c2]
    have i2: "rt_inv ext {} rt2" by (rule same_core_inv [OF i1 c2])
    show ?thesis
    proof (cases "q = 0")
      case True
      then show ?thesis using fail [OF c12] m n p s1 by (simp add: js_new_object_from_shape_def)
    next
      case False
      let ?ob = "\<lparr>oshape = s, oprop = replicate (prop_size sh) (junk_slot rt2)\<rparr>"
      let ?rt3 = "rt2\<lparr>objs := (objs rt2)(p \<mapsto> ?ob), gc_obj_list := gc_obj_list rt2 @ [p]\<rparr>"
      have f: "objs rt p = None" "objs rt2 p = None" "0 < p" "p < next_ptr rt2"
        using c c2 p rt_inv_fresh [OF i, of p] by (auto simp: same_core_def)
      have s2: "shapes rt2 s = Some sh" using s1 c2 by (simp add: same_core_def)
      note N = rt_inv_new_obj [OF i2 f(2-4) s2, of "oprop ?ob" ?rt3]
      have "others_same p rt ?rt3"
        using others_same_trans [OF same_core_others [OF c12]] N(2) by simp
      moreover have "obj_entries ?rt3 p = []" using N(3) s(4) by (simp add: ents_def live_def)
      ultimately have "created (ext(s := ext s - 1)) rt pr (p, ?rt3)"
        using p f(1) N(1) s(3) s2 by (simp add: created_def)
      then show ?thesis using p False m n s1 by (simp add: js_new_object_from_shape_def)
    qed
  qed
qed

lemma find_proto_loop_ok:
  "(\<forall>s \<in> set ss. 0 < s \<and> S s \<noteq> None) \<Longrightarrow> okw (find_proto_loop S h pr ss)
    (\<lambda>s. s \<noteq> 0 \<longrightarrow> s \<in> set ss \<and> (\<exists>sh. S s = Some sh \<and> proto sh = pr \<and> prop_count sh = 0))"
  by (induction ss) (auto elim!: okw_mono)

lemma js_new_object_proto_ok:
  assumes i: "rt_inv ext {} rt" and b: "shape_hash_bits rt < 32" and e: "\<forall>s. 0 \<le> ext s"
  shows "okw (js_new_object_proto rt pr) (created ext rt pr)"
proof -
  let ?h = "get_shape_hash (shape_initial_hash pr) (shape_hash_bits rt)" and ?tab = "shape_hash_tab rt"
  have T: "table_ok (shapes rt) (shape_hash_bits rt) ?tab {}" by (rule rt_inv_table [OF i])
  then have h: "?h < length ?tab" using get_shape_hash_less by (auto simp: table_ok_def)
  have "hkey (shapes rt) s \<noteq> None" if "s \<in> set (?tab ! ?h)" for s
    using T h that by (auto simp: table_ok_def linked_def)
  then have B: "\<exists>sh. shapes rt s = Some sh \<and> is_hashed sh \<and> 0 < s" if "s \<in> set (?tab ! ?h)" for s
    using that rt_invD(2) [OF i] by (fastforce simp: hkey_def split: option.splits if_splits)
  then have "\<forall>s \<in> set (?tab ! ?h). 0 < s \<and> shapes rt s \<noteq> None" by fastforce
  from okw_ex [OF find_proto_loop_ok [OF this, of "shape_initial_hash pr" pr]]
  obtain s where 1: "find_proto_loop (shapes rt) (shape_initial_hash pr) pr (?tab ! ?h) = Some s"
    "s \<noteq> 0 \<longrightarrow> s \<in> set (?tab ! ?h) \<and> (\<exists>sh. shapes rt s = Some sh \<and> proto sh = pr \<and> prop_count sh = 0)" by blast
  have F: "find_hashed_shape_proto rt pr = Some s" using h 1(1) by (simp add: find_hashed_shape_proto_def rd_Some Let_def)
  show ?thesis
  proof (cases "s = 0")
    case False
    then obtain sh where s: "shapes rt s = Some sh" "is_hashed sh" "proto sh = pr" "prop_count sh = 0" using 1(2) B by force
    let ?sh = "sh\<lparr>sh_ref_count := sh_ref_count sh + 1\<rparr>"
    obtain rt1 where 2: "js_dup_shape rt s = Some rt1" "rt_inv (ext(s := ext s + 1)) {} rt1" "others_same 0 rt rt1"
      "objs rt1 = objs rt" "shapes rt1 = (shapes rt)(s \<mapsto> ?sh)"
      using okw_ex [OF js_dup_shape_ok [OF i s(1,2), of 0]] by auto
    have x: "(ext(s := ext s + 1))(s := (ext(s := ext s + 1)) s - 1) = ext" by (auto simp: fun_eq_iff)
    have e1: "1 \<le> (ext(s := ext s + 1)) s" using e by simp
    have "okw (js_new_object_from_shape rt1 s) (created ext rt1 pr)"
      using js_new_object_from_shape_ok [OF 2(2) _ e1, of ?sh pr] 2(5) s unfolding x by simp
    moreover have "created ext rt pr z" if "created ext rt1 pr z" for z
    proof -
      have "obj_entries rt1 q = obj_entries rt q" for q
        using 2(4,5) s(1) by (simp add: obj_entries_def split: option.splits)
      then have "others_same q rt rt1" for q using 2(4) by (simp add: others_same_def)
      then show ?thesis using that others_same_trans 2(4) by (fastforce simp: created_def split: if_splits)
    qed
    ultimately show ?thesis using False F 2(1) by (auto simp: js_new_object_proto_def elim: okw_mono)
  next
    case True
    have "okw (js_new_shape rt pr) (new_shape_ok ext rt pr)"
      unfolding js_new_shape_def by (rule js_new_shape2_ok [OF i b]) simp_all
    then obtain t rt1 where 2: "js_new_shape rt pr = Some (t, rt1)" "new_shape_ok ext rt pr (t, rt1)" using okw_ex by fastforce
    have 3: "objs rt1 = objs rt" "obj_entries rt1 q = obj_entries rt q" for q using 2(2) by (auto simp: new_shape_ok_def)
    then have o1: "others_same q rt rt1" for q by (simp add: others_same_def)
    show ?thesis
    proof (cases "t = 0")
      case t: True
      then have "created ext rt pr (0, rt1)" using 2(2) 3(1) o1 by (simp add: new_shape_ok_def created_def)
      then show ?thesis using True F 2(1) t by (simp add: js_new_object_proto_def)
    next
      case t: False
      then obtain sh where s: "shapes rt t = None" "rt_inv (ext(t := 1)) {} rt1" "shapes rt1 t = Some sh" "proto sh = pr" "prop_count sh = 0"
        using 2(2) by (auto simp: new_shape_ok_def)
      have "ext t = 0" using i s(1) by (simp add: rt_inv_def)
      then have x: "(ext(t := 1))(t := (ext(t := 1)) t - 1) = ext" by (auto simp: fun_eq_iff)
      have "okw (js_new_object_from_shape rt1 t) (created ext rt1 pr)"
        using js_new_object_from_shape_ok [OF s(2,3) _ s(4,5)] unfolding x by simp
      moreover have "created ext rt pr z" if "created ext rt1 pr z" for z
        using that 3(1) others_same_trans [OF o1] by (auto simp: created_def split: if_splits)
      ultimately show ?thesis using True t F 2(1) by (auto simp: js_new_object_proto_def elim: okw_mono)
    qed
  qed
qed

lemma init_rt_ok: "rt_inv (\<lambda>_. 0) {} (init_rt ok)"
  by (simp add: rt_inv_def init_rt_def table_ok_def linked_def hkey_def)

end
