(* ===== verification/Object_Heap.thy ===== *)
theory Object_Heap
  imports Shape_New
begin

text \<open>
  The destruction of objects, the states the operations on objects reach from the empty runtime, and
  the theorems on them.
\<close>

section \<open>Destruction\<close>

text \<open>\<open>free_property\<close> of each entry, in order. The object is plain: it has no finalizer and no weak
  references.\<close>

definition free_object :: "'v rt \<Rightarrow> ptr \<Rightarrow> 'v rt option" where
  "free_object rt p = do {
     ob \<leftarrow> objs rt p;
     sh \<leftarrow> shapes rt (oshape ob);
     prs \<leftarrow> mem_read (sh_prop sh) 0 (prop_count sh);
     vs \<leftarrow> mem_read (oprop ob) 0 (prop_count sh);
     let rt = rt\<lparr>released := released rt @ zip vs (map prflags prs)\<rparr>;
     rt \<leftarrow> js_free_shape rt (oshape ob);
     Some (rt\<lparr>gc_obj_list := remove1 p (gc_obj_list rt), objs := (objs rt)(p := None)\<rparr>)
   }"

text \<open>Releasing a shape and removing an object commute.\<close>

lemma js_free_shape_objs:
  "js_free_shape (rt\<lparr>objs := B\<rparr>) s = map_option (\<lambda>r. r\<lparr>objs := B\<rparr>) (js_free_shape rt s)"
proof -
  have a: "js_free_atom (r\<lparr>objs := B\<rparr>) x = (js_free_atom r x)\<lparr>objs := B\<rparr>" for r x
    by (simp add: js_free_atom_def atom_is_const_def)
  have f: "fold (\<lambda>x rt. js_free_atom rt (atom x)) xs (r\<lparr>objs := B\<rparr>) = (fold (\<lambda>x rt. js_free_atom rt (atom x)) xs r)\<lparr>objs := B\<rparr>" for xs r
    by (induction xs arbitrary: r) (simp_all add: a)
  have g: "free_proto (r\<lparr>objs := B\<rparr>) q = (free_proto r q)\<lparr>objs := B\<rparr>" for r q by (simp add: free_proto_def)
  have u: "js_shape_hash_unlink (r\<lparr>objs := B\<rparr>) s = map_option (\<lambda>r. r\<lparr>objs := B\<rparr>) (js_shape_hash_unlink r s)" for r
    by (simp add: js_shape_hash_unlink_def Let_def split: Option.bind_split)
  have m: "\<lbrakk>x = map_option k y; \<And>r. F (k r) = map_option k (G r)\<rbrakk> \<Longrightarrow> x \<bind> F = map_option k (y \<bind> G)"
    for x y F G and k :: "'a rt \<Rightarrow> 'a rt" by (cases y) simp_all
  have h: "js_free_shape0 (r\<lparr>objs := B\<rparr>) s = map_option (\<lambda>r. r\<lparr>objs := B\<rparr>) (js_free_shape0 r s)" for r
  proof (cases "shapes r s")
    case (Some sh)
    let ?U = "\<lambda>r. if is_hashed sh then js_shape_hash_unlink r s else Some r"
    have "?U (r\<lparr>objs := B\<rparr>) = map_option (\<lambda>r. r\<lparr>objs := B\<rparr>) (?U r)" using u by simp
    from m [OF this] show ?thesis
      unfolding js_free_shape0_def Let_def using Some
      by (cases "mem_read (sh_prop sh) 0 (prop_count sh)") (simp_all add: g f)
  qed (simp add: js_free_shape0_def)
  have "set_shape (rt\<lparr>objs := B\<rparr>) s x = (set_shape rt s x)\<lparr>objs := B\<rparr>" for x by (simp add: set_shape_def)
  then show ?thesis by (cases "shapes rt s") (simp_all add: js_free_shape_def Let_def h)
qed

lemma rt_inv_del_obj:
  assumes i: "rt_inv ext U rt" and p: "objs rt p = Some ob" "oshape ob = s"
    and r: "shapes rt' = shapes rt" "objs rt' = (objs rt)(p := None)" "next_ptr rt' = next_ptr rt"
      "shape_hash_tab rt' = shape_hash_tab rt" "shape_hash_bits rt' = shape_hash_bits rt"
  shows "rt_inv (ext(s := ext s + 1)) U rt'" "others_same p rt rt'"
proof -
  let ?ext = "ext(s := ext s + 1)"
  have u: "users (objs rt') s = users (objs rt) s - {p}" "t \<noteq> s \<Longrightarrow> users (objs rt') t = users (objs rt) t" for t
    using p by (auto simp: users_def r)
  have fin: "finite (users (objs rt) s)" by (rule rt_inv_finite [OF i])
  have "p \<in> users (objs rt) s" using p by (auto simp: users_def)
  then have c: "int (card (users (objs rt') s)) = int (card (users (objs rt) s)) - 1"
    using fin card_Suc_Diff1 [of "users (objs rt) s" p] unfolding u(1) by linarith
  obtain sh where s: "shapes rt s = Some sh" using rt_inv_obj [OF i p(1)] p(2) by auto
  have "shape_ok (next_ptr rt') (objs rt') ?ext t x" if t: "shapes rt t = Some x" for t x
  proof -
    have "int (card (users (objs rt') t)) + ?ext t = int (card (users (objs rt) t)) + ext t"
      using c u(2) [of t] by (cases "t = s") simp_all
    then show ?thesis using rt_inv_shape [OF i t] unfolding shape_ok_def r(3) by metis
  qed
  moreover have "obj_ok (next_ptr rt') (shapes rt) q b" if "objs rt' q = Some b" for q b
    using rt_inv_object [OF i, of q b] that by (auto simp: r split: if_splits)
  moreover have "finite (dom (objs rt'))" using i by (simp add: r rt_inv_def)
  ultimately show "rt_inv ?ext U rt'"
    using i s unfolding rt_inv_def r(1,4,5) by (auto simp: r(3))
  show "others_same p rt rt'" by (auto simp: others_same_def obj_entries_def r split: option.splits)
qed

lemma free_object_ok:
  assumes i: "rt_inv ext {} rt" and e: "\<forall>s. 0 \<le> ext s" and p: "objs rt p = Some ob"
  shows "okw (free_object rt p) (\<lambda>rt'. rt_inv ext {} rt' \<and> others_same p rt rt' \<and> objs rt' p = None)"
proof -
  let ?s = "oshape ob"
  obtain sh where s: "shapes rt ?s = Some sh" "prop_size sh \<le> length (oprop ob)" using rt_inv_obj [OF i p] by blast
  have w: "prop_count sh \<le> length (sh_prop sh)" "prop_count sh \<le> length (oprop ob)"
    using rt_invD(1) [OF i s(1)] s(2) by (auto simp: shape_wf_def chained_def)
  then have m: "mem_read (sh_prop sh) 0 (prop_count sh) = Some (take (prop_count sh) (sh_prop sh))"
    "mem_read (oprop ob) 0 (prop_count sh) = Some (take (prop_count sh) (oprop ob))"
    by (simp_all add: mem_read_def)
  let ?rt1 = "rt\<lparr>released := released rt @ zip (take (prop_count sh) (oprop ob)) (map prflags (take (prop_count sh) (sh_prop sh)))\<rparr>"
  let ?rt2 = "?rt1\<lparr>objs := (objs rt)(p := None)\<rparr>"
  have r: "shapes ?rt2 = shapes rt" "objs ?rt2 = (objs rt)(p := None)" "next_ptr ?rt2 = next_ptr rt"
    "shape_hash_tab ?rt2 = shape_hash_tab rt" "shape_hash_bits ?rt2 = shape_hash_bits rt" by simp_all
  note D = rt_inv_del_obj [OF i p refl r]
  have s2: "shapes ?rt2 ?s = Some sh" using s(1) by simp
  have "users (objs ?rt2) ?s = {}" if "sh_ref_count sh = 1"
  proof -
    have "card (users (objs ?rt2) ?s) = 0" using rt_invD(4) [OF D(1) s2] that e [rule_format, of ?s] by simp
    then show ?thesis using rt_inv_finite [OF D(1), of ?s] by simp
  qed
  then obtain rt3 where 3: "js_free_shape ?rt2 ?s = Some rt3" "others_same p ?rt2 rt3" "objs rt3 = objs ?rt2"
    "rt_inv ((ext(?s := ext ?s + 1))(?s := (ext(?s := ext ?s + 1)) ?s - 1)) {} rt3"
    using okw_ex [OF js_free_shape_ok [OF D(1) s2, of p]] by auto
  have "(ext(?s := ext ?s + 1))(?s := (ext(?s := ext ?s + 1)) ?s - 1) = ext" by (auto simp: fun_eq_iff)
  then have i3: "rt_inv ext {} rt3" using 3(4) by simp
  obtain rt4 where 4: "js_free_shape ?rt1 ?s = Some rt4" "rt3 = rt4\<lparr>objs := (objs rt)(p := None)\<rparr>"
    using 3(1) js_free_shape_objs [of "(objs rt)(p := None)" ?rt1 ?s] by auto
  let ?rt5 = "rt4\<lparr>gc_obj_list := remove1 p (gc_obj_list rt4), objs := (objs rt4)(p := None)\<rparr>"
  have "js_free_shape (?rt1\<lparr>objs := objs rt\<rparr>) ?s = Some (rt4\<lparr>objs := objs rt\<rparr>)" using js_free_shape_objs [of "objs rt" ?rt1 ?s] 4(1) by simp
  then have o4: "objs rt4 = objs rt" using 4(1) by simp (metis rt.select_convs(2) rt.surjective rt.update_convs(2))
  have c: "same_core rt3 ?rt5" using 4(2) o4 by (simp add: same_core_def)
  have "free_object rt p = Some ?rt5" using p s(1) m 4(1) by (simp add: free_object_def Let_def)
  moreover have "rt_inv ext {} ?rt5" by (rule same_core_inv [OF i3 c])
  moreover have "others_same p rt ?rt5"
    by (rule others_same_trans [OF D(2) others_same_trans [OF 3(2) same_core_others [OF c]]])
  ultimately show ?thesis by simp
qed

section \<open>Reachable states\<close>

text \<open>A caller stores the value of a property through the address that \<open>add_property\<close> or
  \<open>find_own_property\<close> returned.\<close>

definition store_value :: "'v rt \<Rightarrow> ptr \<Rightarrow> nat \<Rightarrow> 'v slot \<Rightarrow> 'v rt option" where
  "store_value rt p i v = do {
     ob \<leftarrow> objs rt p;
     _ \<leftarrow> rd (oprop ob) i;
     Some (rt\<lparr>objs := (objs rt)(p \<mapsto> ob\<lparr>oprop := (oprop ob)[i := v]\<rparr>)\<rparr>)
   }"

text \<open>What is below the widths of the bit fields.\<close>

definition room :: "'v rt \<Rightarrow> ptr \<Rightarrow> bool" where
  "room rt p \<longleftrightarrow> (case objs rt p of None \<Rightarrow> False | Some ob \<Rightarrow>
     (case shapes rt (oshape ob) of None \<Rightarrow> False | Some sh \<Rightarrow> prop_count sh + 1 < 2 ^ 26))"

inductive reachable :: "'v rt \<Rightarrow> bool" where
  init: "reachable (init_rt ok)"
| new: "\<lbrakk>reachable rt; shape_hash_bits rt < 32; js_new_object_proto rt pr = Some (p, rt')\<rbrakk> \<Longrightarrow> reachable rt'"
| add: "\<lbrakk>reachable rt; room rt p; find_own_property rt p a = Some None; a \<noteq> 0; flags < 64;
     add_property rt p a flags = Some (r, rt')\<rbrakk> \<Longrightarrow> reachable rt'"
| store: "\<lbrakk>reachable rt; store_value rt p i v = Some rt'\<rbrakk> \<Longrightarrow> reachable rt'"
| flags: "\<lbrakk>reachable rt; find_own_property rt p a = Some (Some (i, f, v)); flags < 64;
     js_update_property_flags rt p i flags = Some (r, rt')\<rbrakk> \<Longrightarrow> reachable rt'"
| delete: "\<lbrakk>reachable rt; objs rt p = Some ob; a \<noteq> 0; delete_property rt p a = Some (r, rt')\<rbrakk> \<Longrightarrow> reachable rt'"
| free: "\<lbrakk>reachable rt; free_object rt p = Some rt'\<rbrakk> \<Longrightarrow> reachable rt'"

abbreviation (input) "inv0 \<equiv> rt_inv (\<lambda>_. 0) {}"


lemma store_value_ok:
  assumes i: "inv0 rt" and r: "store_value rt p k v = Some rt'"
  shows "inv0 rt'" "others_same p rt rt'"
proof -
  obtain ob where p: "objs rt p = Some ob" "rt' = rt\<lparr>objs := (objs rt)(p \<mapsto> ob\<lparr>oprop := (oprop ob)[k := v]\<rparr>)\<rparr>"
    using r by (auto simp: store_value_def split: Option.bind_splits)
  obtain sh where s: "shapes rt (oshape ob) = Some sh" "prop_size sh \<le> length (oprop ob)" using rt_inv_obj [OF i p(1)] by blast
  have "prop_size sh \<le> length ((oprop ob)[k := v])" using s(2) by simp
  note V = rt_inv_set_values [OF i p(1) s(1) this, of rt']
  show "inv0 rt'" "others_same p rt rt'" by (rule V; simp add: p(2))+
qed

lemma found_names: "inv0 rt \<Longrightarrow> find_own_property rt p a = Some r \<Longrightarrow> map_option snd r = map_of (obj_entries rt p) a"
  using find_own_property_ok [of "\<lambda>_. 0" "{}" rt p _ a] by (cases "objs rt p") (auto simp: find_own_property_def)

lemma found_index:
  assumes i: "inv0 rt" and p: "objs rt p = Some ob" "shapes rt (oshape ob) = Some sh"
    and f: "find_own_property rt p a = Some (Some (k, g, v))"
  shows "k < prop_count sh" "atom (sh_prop sh ! k) = a" "a \<noteq> 0"
proof -
  have w: "chained (sh_prop sh) (prop_count sh) (prop_hash_mask sh) (prop_hash sh)"
    using rt_invD(1) [OF i p(2)] by (simp add: shape_wf_def)
  have "find_shape_property sh a = Some (Some k)"
    using f p by (auto simp: find_own_property_def split: Option.bind_splits option.splits)
  then show "k < prop_count sh" "atom (sh_prop sh ! k) = a" "a \<noteq> 0"
    using find_loop_ok [OF w, of a] by (auto simp: find_shape_property_def)
qed

lemma add_ok:
  assumes i: "inv0 rt" and r: "room rt p" and a: "map_of (obj_entries rt p) a = None" "a \<noteq> 0" "flags < 64"
  shows "okw (add_property rt p a flags) (added (\<lambda>_. 0) rt p a flags)"
proof -
  obtain ob sh where p: "objs rt p = Some ob" "shapes rt (oshape ob) = Some sh" "prop_count sh + 1 < 2 ^ 26"
    using r by (auto simp: room_def split: option.splits)
  have n: "a \<notin> fst ` set (obj_entries rt p)" using a(1) by (simp add: map_of_eq_None_iff)
  show ?thesis by (rule add_property_ok [OF i _ p a(2) n a(3)]) simp
qed

lemma flags_ok:
  assumes i: "inv0 rt" and f: "find_own_property rt p a = Some (Some (k, g, v))" "flags < 64"
  shows "okw (js_update_property_flags rt p k flags) (flagged (\<lambda>_. 0) rt p a flags)"
proof -
  obtain ob where p: "objs rt p = Some ob" using f(1) by (auto simp: find_own_property_def split: Option.bind_splits)
  obtain sh where s: "shapes rt (oshape ob) = Some sh" using rt_inv_obj [OF i p] by blast
  show ?thesis by (rule js_update_property_flags_ok [OF i _ p s found_index [OF i p s f(1)] f(2)]) simp
qed

lemma reachable_inv: "reachable rt \<Longrightarrow> inv0 rt"
proof (induction rule: reachable.induct)
  case (init ok)
  show ?case by (rule init_rt_ok)
next
  case (new rt pr p rt')
  have "okw (js_new_object_proto rt pr) (created (\<lambda>_. 0) rt pr)" by (rule js_new_object_proto_ok [OF new.IH new.hyps(2)]) simp
  from okw_eqD [OF this new.hyps(3)] show ?case by (simp add: created_def)
next
  case (add rt p a flags r rt')
  have "map_of (obj_entries rt p) a = None" using found_names [OF add.IH add.hyps(3)] by simp
  from okw_eqD [OF add_ok [OF add.IH add.hyps(2) this add.hyps(4,5)] add.hyps(6)] show ?case by (simp add: added_def)
next
  case (store rt p i v rt')
  then show ?case using store_value_ok(1) by blast
next
  case (flags rt p a i f v flags r rt')
  from okw_eqD [OF flags_ok [OF flags.IH flags.hyps(2,3)] flags.hyps(4)] show ?case by (simp add: flagged_def)
next
  case (delete rt p ob a r rt')
  have "okw (delete_property rt p a) (deleted_ok (\<lambda>_. 0) rt p a)" by (rule delete_property_ok [OF delete.IH _ delete.hyps(2,3)]) simp
  from okw_eqD [OF this delete.hyps(4)] show ?case by (simp add: deleted_ok_def)
next
  case (free rt p rt')
  then obtain ob where "objs rt p = Some ob" by (auto simp: free_object_def split: Option.bind_splits)
  from okw_eqD [OF free_object_ok [OF free.IH _ this] free.hyps(2)] show ?case by simp
qed

end
