(* ===== verification/Object_Spec.thy ===== *)
theory Object_Spec
  imports Object_Heap
begin

text \<open>
  What the engine relies on: each object is a finite map from names to flags and values that keeps
  the order of insertion, whatever shapes are shared behind it.
\<close>

section \<open>The interface\<close>

locale object_store =
  fixes wf :: "'s \<Rightarrow> bool" and has_room :: "'s \<Rightarrow> ptr \<Rightarrow> bool"
    and entries :: "'s \<Rightarrow> ptr \<Rightarrow> (u32 \<times> nat \<times> 'v slot) list"
    and look :: "'s \<Rightarrow> ptr \<Rightarrow> u32 \<Rightarrow> (nat \<times> nat \<times> 'v slot) option option"
    and add :: "'s \<Rightarrow> ptr \<Rightarrow> u32 \<Rightarrow> nat \<Rightarrow> (nat option \<times> 's) option"
    and del :: "'s \<Rightarrow> ptr \<Rightarrow> u32 \<Rightarrow> (int \<times> 's) option"
    and live_obj :: "'s \<Rightarrow> ptr \<Rightarrow> bool"
  assumes look_law: "\<lbrakk>wf s; live_obj s p\<rbrakk> \<Longrightarrow> \<exists>r. look s p a = Some r \<and> map_option snd r = map_of (entries s p) a"
    and add_law: "\<lbrakk>wf s; has_room s p; map_of (entries s p) a = None; a \<noteq> 0; f < 64; add s p a f = Some (Some k, s')\<rbrakk> \<Longrightarrow>
      wf s' \<and> live_obj s' p \<and> (\<exists>v. entries s' p = entries s p @ [(a, f, v)]) \<and> (\<forall>q. q \<noteq> p \<longrightarrow> entries s' q = entries s q)"
    and del_law: "\<lbrakk>wf s; live_obj s p; a \<noteq> 0; del s p a = Some (1, s')\<rbrakk> \<Longrightarrow>
      wf s' \<and> live_obj s' p \<and> entries s' p = filter (\<lambda>(b, _). b \<noteq> a) (entries s p) \<and> (\<forall>q. q \<noteq> p \<longrightarrow> entries s' q = entries s q)"
begin

lemma look_after_add:
  assumes "wf s" "has_room s p" "map_of (entries s p) a = None" "a \<noteq> 0" "f < 64" "add s p a f = Some (Some k, s')"
  shows "\<exists>r v. look s' p b = Some r \<and> map_option snd r = (if b = a then Some (f, v) else map_of (entries s p) b)"
proof -
  obtain v where s': "wf s'" "live_obj s' p" "entries s' p = entries s p @ [(a, f, v)]" using add_law [OF assms] by blast
  have "map_of (entries s' p) b = (if b = a then Some (f, v) else map_of (entries s p) b)"
    using assms(3) by (auto simp: s'(3) map_add_def split: option.splits)
  then show ?thesis using look_law [OF s'(1,2), of b] by auto
qed

lemma look_after_del:
  assumes "wf s" "live_obj s p" "a \<noteq> 0" "del s p a = Some (1, s')"
  shows "\<exists>r. look s' p b = Some r \<and> map_option snd r = (if b = a then None else map_of (entries s p) b)"
proof -
  have s': "wf s'" "live_obj s' p" "entries s' p = filter (\<lambda>(b, _). b \<noteq> a) (entries s p)" using del_law [OF assms] by auto
  have m: "map_of (filter (\<lambda>(b, _). b \<noteq> a) xs) b = (if b = a then None else map_of xs b)" for xs :: "(u32 \<times> nat \<times> 'b slot) list"
    by (induction xs) auto
  show ?thesis using look_law [OF s'(1,2), of b] unfolding s'(3) m .
qed

text \<open>Deleting what was just added restores every object.\<close>

lemma add_then_del:
  assumes a: "wf s" "has_room s p" "map_of (entries s p) a = None" "a \<noteq> 0" "f < 64" "add s p a f = Some (Some k, s')"
    and d: "del s' p a = Some (1, s'')"
  shows "wf s'' \<and> entries s'' q = entries s q"
proof -
  obtain v where s': "wf s'" "live_obj s' p" "entries s' p = entries s p @ [(a, f, v)]" "\<forall>q. q \<noteq> p \<longrightarrow> entries s' q = entries s q"
    using add_law [OF a] by blast
  have "a \<notin> fst ` set (entries s p)" using a(3) by (simp add: map_of_eq_None_iff)
  then have "filter (\<lambda>(b, _). b \<noteq> a) (entries s p) = entries s p" by (force intro!: filter_True)
  then show ?thesis using del_law [OF s'(1,2) a(4) d] s'(3,4) by (cases "q = p") auto
qed

end

interpretation js: object_store reachable room obj_entries find_own_property add_property delete_property "\<lambda>rt p. objs rt p \<noteq> None"
proof unfold_locales
  fix s :: "'v rt" and p a
  assume "reachable s" "objs s p \<noteq> None"
  then show "\<exists>r. find_own_property s p a = Some r \<and> map_option snd r = map_of (obj_entries s p) a"
    using okw_ex [OF find_own_property_ok [OF reachable_inv]] by blast
next
  fix s s' :: "'v rt" and p a f k
  assume a: "reachable s" "room s p" "map_of (obj_entries s p) a = None" "a \<noteq> 0" "f < 64" "add_property s p a f = Some (Some k, s')"
  note i = reachable_inv [OF a(1)]
  have A: "added (\<lambda>_. 0) s p a f (Some k, s')" by (rule okw_eqD [OF add_ok [OF i a(2-5)] a(6)])
  obtain ob where "objs s p = Some ob" using a(2) by (auto simp: room_def split: option.splits)
  then obtain r where "find_own_property s p a = Some r" "map_option snd r = map_of (obj_entries s p) a"
    using okw_ex [OF find_own_property_ok [OF i]] by blast
  then have "find_own_property s p a = Some None" using a(3) by simp
  then have "reachable s'" by (rule reachable.add [OF a(1,2) _ a(4-6)])
  then show "reachable s' \<and> objs s' p \<noteq> None \<and> (\<exists>v. obj_entries s' p = obj_entries s p @ [(a, f, v)]) \<and>
      (\<forall>q. q \<noteq> p \<longrightarrow> obj_entries s' q = obj_entries s q)"
    using A by (auto simp: added_def others_same_def)
next
  fix s s' :: "'v rt" and p a
  assume a: "reachable s" "objs s p \<noteq> None" "a \<noteq> 0" "delete_property s p a = Some (1, s')"
  then obtain ob where p: "objs s p = Some ob" by blast
  note i = reachable_inv [OF a(1)]
  have D: "deleted_ok (\<lambda>_. 0) s p a (1, s')" by (rule okw_eqD [OF delete_property_ok [OF i _ p a(3)] a(4)]) simp
  have "reachable s'" by (rule reachable.delete [OF a(1) p a(3,4)])
  then show "reachable s' \<and> objs s' p \<noteq> None \<and> obj_entries s' p = filter (\<lambda>(b, _). b \<noteq> a) (obj_entries s p) \<and>
      (\<forall>q. q \<noteq> p \<longrightarrow> obj_entries s' q = obj_entries s q)"
    using D by (auto simp: deleted_ok_def others_same_def)
qed

section \<open>A concrete runtime\<close>

text \<open>The first object of a runtime, after its creation and after its first property.\<close>

definition ex_rt :: "shape \<Rightarrow> ptr list list \<Rightarrow> (u32 \<Rightarrow> int) \<Rightarrow> nat rt" where
  "ex_rt sh tab refs = \<lparr>shapes = [1 \<mapsto> sh],
     objs = [2 \<mapsto> \<lparr>oshape = 1, oprop = [JS_UNDEFINED, JS_UNDEFINED]\<rparr>], shape_hash_bits = 4,
     shape_hash_tab = tab, shape_hash_count = 1, gc_obj_list = [1, 2],
     atom_refs = refs, proto_refs = \<lambda>_. 0, released = [], malloc_ok = \<lambda>_. True, malloc_clock = 3, next_ptr = 4,
     atom_end = 229, junk_prop = \<lparr>hash_next = 0, prflags = 0, atom = 0\<rparr>, junk_slot = JS_UNDEFINED\<rparr>"

definition ex_shape :: "u32 \<Rightarrow> shape_prop list \<Rightarrow> nat list \<Rightarrow> nat \<Rightarrow> shape" where
  "ex_shape h ps tab n = \<lparr>sh_ref_count = 1, is_hashed = True, has_small_array_index = False, sh_hash = h,
       prop_hash = tab, prop_hash_mask = 3, prop_size = 2, prop_count = n, deleted_prop_count = 0, proto = 0,
       sh_prop = ps @ replicate (2 - n) \<lparr>hash_next = 0, prflags = 0, atom = 0\<rparr>\<rparr>"

definition ex_object :: "nat rt" where
  "ex_object = ex_rt (ex_shape 2654404609 [] [0, 0, 0, 0] 0) ((replicate 16 [])[9 := [1]]) (\<lambda>_. 0)"

definition ex_added :: "nat rt" where
  "ex_added = ex_rt (ex_shape 4279107892 [\<lparr>hash_next = 0, prflags = 7, atom = 300\<rparr>] [1, 0, 0, 0] 1)
     ((replicate 16 [])[15 := [1]]) ((\<lambda>_. 0)(300 := 1))"

lemma replicate_numeral: "replicate (numeral k) x = x # replicate (pred_numeral k) x"
  by (simp add: numeral_eq_Suc)

lemmas run_simps = replicate_numeral shape_initial_hash_def shape_hash_def get_shape_hash_def hash_slot_def Let_def rd_def
  unat_drop_bit_eq drop_bit_eq_div js_malloc_def dup_proto_def set_shape_def js_shape_hash_link_def js_shape_hash_unlink_def
  js_dup_atom_def atom_is_const_def hash_link_def ex_rt_def ex_shape_def ex_object_def ex_added_def

lemma ex_object_run: "js_new_object_proto (init_rt (\<lambda>_. True)) 0 = Some (2, ex_object)"
  by (simp add: run_simps js_new_object_proto_def init_rt_def find_hashed_shape_proto_def js_new_shape_def js_new_shape2_def
    js_new_object_from_shape_def) (simp add: numeral_eq_Suc)

lemma ex_added_run: "add_property ex_object 2 300 7 = Some (Some 0, ex_added)"
  by (simp add: run_simps add_property_def find_hashed_shape_prop_def add_unshared_def add_shape_property_def)
    (simp add: fun_eq_iff)

lemma ex_object_facts: "room ex_object 2" "obj_entries ex_object 2 = []" "find_own_property ex_object 2 300 = Some None"
  by (simp_all add: run_simps room_def obj_entries_def ents_def live_def find_own_property_def find_shape_property_def find_loop.simps)

lemma ex_added_facts:
  "find_own_property ex_added 2 300 = Some (Some (0, 7, JS_UNDEFINED))" "\<exists>ob. objs ex_added 2 = Some ob"
  "obj_entries ex_added 2 = [(300, 7, JS_UNDEFINED)]"
  by (simp_all add: run_simps obj_entries_def ents_def live_def find_own_property_def find_shape_property_def find_loop.simps)

lemma ex_object_reachable: "reachable ex_object"
  by (rule reachable.new [OF reachable.init _ ex_object_run]) (simp add: init_rt_def)

lemma ex_added_reachable: "reachable ex_added"
  by (rule reachable.add [OF ex_object_reachable ex_object_facts(1,3) _ _ ex_added_run]) simp_all

lemma ex_deleted_run: "\<exists>rt. delete_property ex_added 2 300 = Some (1, rt)"
  by (simp add: run_simps delete_property_def find_prev_loop.simps js_shape_prepare_update_def unlink_prop_def js_free_atom_def)

section \<open>Theorems\<close>

text \<open>C9: In every state that creating, filling, changing and destroying objects can reach, the
  reference count of each shape is exactly the number of objects that use it and at least one, so no
  shape leaks and none is freed while it is in use; a shape outside the runtime's table has one
  user, the chains of each shape hold its named entries once each, and each object has room for the
  values of all entries of its shape.\<close>

theorem shape_references_exact:
  assumes "reachable rt"
  shows "(\<forall>s sh. shapes rt s = Some sh \<longrightarrow> shape_wf sh \<and>
      sh_ref_count sh = int (card (users (objs rt) s)) \<and> 1 \<le> sh_ref_count sh \<and> (is_hashed sh \<or> sh_ref_count sh = 1)) \<and>
    (\<forall>p ob. objs rt p = Some ob \<longrightarrow> (\<exists>sh. shapes rt (oshape ob) = Some sh \<and> prop_size sh \<le> length (oprop ob))) \<and>
    table_ok (shapes rt) (shape_hash_bits rt) (shape_hash_tab rt) {}"
proof -
  note i = reachable_inv [OF assms]
  have "shape_wf sh \<and> sh_ref_count sh = int (card (users (objs rt) s)) \<and> 1 \<le> sh_ref_count sh \<and>
      (is_hashed sh \<or> sh_ref_count sh = 1)" if "shapes rt s = Some sh" for s sh
    using rt_invD [OF i that] by auto
  moreover have "\<exists>sh. shapes rt (oshape ob) = Some sh \<and> prop_size sh \<le> length (oprop ob)" if "objs rt p = Some ob" for p ob
    using rt_inv_obj [OF i that] by blast
  ultimately show ?thesis using rt_inv_table [OF i] by blast
qed

theorem shape_references_exact_witness:
  "\<exists>sh. shapes ex_added 1 = Some sh \<and> sh_ref_count sh = int (card (users (objs ex_added) 1))"
proof -
  obtain sh where "shapes ex_added 1 = Some sh" by (simp add: run_simps)
  then show ?thesis using shape_references_exact [OF ex_added_reachable] by blast
qed

text \<open>C17: Looking up an own property always returns, and finds exactly the flags and the value that
  the object's list of properties has for that name, or nothing when it has none.\<close>

theorem find_own_property_lookup:
  assumes "reachable rt" and "objs rt p = Some ob"
  shows "\<exists>r. find_own_property rt p a = Some r \<and> map_option snd r = map_of (obj_entries rt p) a"
  by (rule js.look_law [OF assms(1)]) (use assms(2) in simp)

theorem find_own_property_lookup_witness:
  "\<exists>r. find_own_property ex_added 2 300 = Some r \<and> map_option snd r = Some (7, JS_UNDEFINED)"
proof -
  obtain ob where "objs ex_added 2 = Some ob" using ex_added_facts(2) by blast
  from find_own_property_lookup [OF ex_added_reachable this, of 300] show ?thesis by (simp add: ex_added_facts(3))
qed

text \<open>C8: Adding a property that the object does not have never accesses memory out of bounds. It
  appends the name with its flags to the object's properties, or, when an allocation fails, leaves
  them as they are; the properties of every other object stay the same, also of those that shared
  the object's shape, and the state is again a reachable one.\<close>

theorem add_property_appends:
  assumes "reachable rt" and "room rt p" and "find_own_property rt p a = Some None" and "a \<noteq> 0" "flags < 64"
  shows "\<exists>r rt'. add_property rt p a flags = Some (r, rt') \<and> reachable rt' \<and>
    (\<forall>q. q \<noteq> p \<longrightarrow> obj_entries rt' q = obj_entries rt q) \<and>
    (case r of None \<Rightarrow> obj_entries rt' p = obj_entries rt p
     | Some k \<Rightarrow> \<exists>ob. objs rt' p = Some ob \<and> k < length (oprop ob) \<and>
         obj_entries rt' p = obj_entries rt p @ [(a, flags, oprop ob ! k)])"
proof -
  note i = reachable_inv [OF assms(1)]
  have n: "map_of (obj_entries rt p) a = None" using found_names [OF i assms(3)] by simp
  obtain r rt' where 1: "add_property rt p a flags = Some (r, rt')" "added (\<lambda>_. 0) rt p a flags (r, rt')"
    using okw_ex [OF add_ok [OF i assms(2) n assms(4,5)]] by auto
  have "reachable rt'" by (rule reachable.add [OF assms 1(1)])
  then show ?thesis using 1 by (fastforce simp: added_def others_same_def split: option.splits)
qed

theorem add_property_appends_witness:
  "\<exists>r rt'. add_property ex_object 2 300 7 = Some (r, rt') \<and> reachable rt'"
  using add_property_appends [OF ex_object_reachable ex_object_facts(1,3), of 7] by auto



text \<open>C18: Changing the flags of a property that was found changes the flags of that property of
  that object and nothing else, although the shape that holds the flags may be shared.\<close>

theorem update_flags_isolated:
  assumes "reachable rt" and "find_own_property rt p a = Some (Some (i, f, v))" and "flags < 64"
  shows "\<exists>r rt'. js_update_property_flags rt p i flags = Some (r, rt') \<and> reachable rt' \<and>
    (\<forall>q. q \<noteq> p \<longrightarrow> obj_entries rt' q = obj_entries rt q) \<and>
    (r = 0 \<and> obj_entries rt' p = map (\<lambda>(b, g, w). if b = a then (b, flags, w) else (b, g, w)) (obj_entries rt p) \<or>
     r = - 1 \<and> obj_entries rt' p = obj_entries rt p)"
proof -
  obtain r rt' where 1: "js_update_property_flags rt p i flags = Some (r, rt')" "flagged (\<lambda>_. 0) rt p a flags (r, rt')"
    using okw_ex [OF flags_ok [OF reachable_inv [OF assms(1)] assms(2,3)]] by auto
  have "reachable rt'" by (rule reachable.flags [OF assms 1(1)])
  then show ?thesis using 1 by (auto simp: flagged_def others_same_def with_flags_def)
qed

theorem update_flags_isolated_witness:
  "\<exists>r rt'. js_update_property_flags ex_added 2 0 6 = Some (r, rt') \<and> reachable rt'"
  using update_flags_isolated [OF ex_added_reachable ex_added_facts(1), of 6] by auto

text \<open>C19: Creating an object returns a fresh address with no properties and the given prototype,
  or 0 when an allocation failed, also when the runtime's table of shapes has to grow; no other
  object changes.\<close>

theorem new_object_empty:
  assumes "reachable rt" and "shape_hash_bits rt < 32"
  shows "\<exists>p rt'. js_new_object_proto rt pr = Some (p, rt') \<and> reachable rt' \<and>
    (\<forall>q. q \<noteq> p \<longrightarrow> objs rt' q = objs rt q \<and> obj_entries rt' q = obj_entries rt q) \<and>
    (p \<noteq> 0 \<longrightarrow> objs rt p = None \<and> obj_entries rt' p = [] \<and>
      (\<exists>ob sh. objs rt' p = Some ob \<and> shapes rt' (oshape ob) = Some sh \<and> proto sh = pr))"
proof -
  obtain p rt' where 1: "js_new_object_proto rt pr = Some (p, rt')" "created (\<lambda>_. 0) rt pr (p, rt')"
    using okw_ex [OF js_new_object_proto_ok [OF reachable_inv [OF assms(1)] assms(2)]] by fastforce
  have "reachable rt'" by (rule reachable.new [OF assms 1(1)])
  then show ?thesis using 1 by (auto simp: created_def others_same_def)
qed

theorem new_object_empty_witness:
  "\<exists>p rt'. js_new_object_proto ex_added 7 = Some (p, rt') \<and> reachable rt'"
proof -
  have "shape_hash_bits ex_added < 32" by (simp add: run_simps)
  from new_object_empty [OF ex_added_reachable this, of 7] show ?thesis by blast
qed

text \<open>C20: A property that was added and then deleted leaves no trace: every object has the
  properties it had before, and the state is a reachable one.\<close>

theorem add_delete_roundtrip:
  assumes "reachable rt" and "room rt p" and "find_own_property rt p a = Some None" and "a \<noteq> 0" "flags < 64"
    and "add_property rt p a flags = Some (Some k, rt1)" and "delete_property rt1 p a = Some (1, rt2)"
  shows "reachable rt2 \<and> obj_entries rt2 q = obj_entries rt q"
proof -
  have n: "map_of (obj_entries rt p) a = None" using found_names [OF reachable_inv [OF assms(1)] assms(3)] by simp
  show ?thesis by (rule js.add_then_del [OF assms(1,2) n assms(4-7)])
qed

theorem add_delete_roundtrip_witness:
  "\<exists>rt. delete_property ex_added 2 300 = Some (1, rt) \<and> reachable rt \<and> obj_entries rt 2 = []"
proof -
  obtain rt where d: "delete_property ex_added 2 300 = Some (1, rt)" using ex_deleted_run by blast
  from add_delete_roundtrip [OF ex_object_reachable ex_object_facts(1,3) _ _ ex_added_run d, of 2]
  show ?thesis using d by (simp add: ex_object_facts(2))
qed

end
