(* ===== verification/Intrusive_List.thy ===== *)
theory Intrusive_List
  imports Prelude
begin

text \<open>
  The intrusive doubly linked lists of \<^verbatim>\<open>list.h\<close>: circular lists through a head that is not an
  element. A heap of links maps the addresses of \<open>struct list_head\<close> to their contents; \<open>0\<close> is NULL.
  The address of an element stands for the address of the \<open>link\<close> field inside it, so that
  \<open>list_entry\<close> is the identity.
\<close>

section \<open>The operations\<close>

type_synonym addr = nat

record list_head =
  lprev :: addr
  lnext :: addr

type_synonym links = "addr \<Rightarrow> list_head option"

definition get_next :: "links \<Rightarrow> addr \<Rightarrow> addr option" where
  "get_next h p = map_option lnext (h p)"

definition get_prev :: "links \<Rightarrow> addr \<Rightarrow> addr option" where
  "get_prev h p = map_option lprev (h p)"

definition set_next :: "links \<Rightarrow> addr \<Rightarrow> addr \<Rightarrow> links option" where
  "set_next h p v = do { n \<leftarrow> h p; Some (h(p \<mapsto> n\<lparr>lnext := v\<rparr>)) }"

definition set_prev :: "links \<Rightarrow> addr \<Rightarrow> addr \<Rightarrow> links option" where
  "set_prev h p v = do { n \<leftarrow> h p; Some (h(p \<mapsto> n\<lparr>lprev := v\<rparr>)) }"

definition init_list_head :: "links \<Rightarrow> addr \<Rightarrow> links option" where
  "init_list_head h head = do { h \<leftarrow> set_prev h head head; set_next h head head }"

definition list_insert :: "links \<Rightarrow> addr \<Rightarrow> addr \<Rightarrow> addr \<Rightarrow> links option" where
  "list_insert h el p n = do {
     h \<leftarrow> set_next h p el;
     h \<leftarrow> set_prev h el p;
     h \<leftarrow> set_next h el n;
     set_prev h n el
   }"

definition list_add :: "links \<Rightarrow> addr \<Rightarrow> addr \<Rightarrow> links option" where
  "list_add h el head = do { n \<leftarrow> get_next h head; list_insert h el head n }"

definition list_add_tail :: "links \<Rightarrow> addr \<Rightarrow> addr \<Rightarrow> links option" where
  "list_add_tail h el head = do { p \<leftarrow> get_prev h head; list_insert h el p head }"

definition list_del :: "links \<Rightarrow> addr \<Rightarrow> links option" where
  "list_del h el = do {
     p \<leftarrow> get_prev h el;
     n \<leftarrow> get_next h el;
     h \<leftarrow> set_next h p n;
     h \<leftarrow> set_prev h n p;
     h \<leftarrow> set_prev h el 0;
     set_next h el 0
   }"

definition list_empty :: "links \<Rightarrow> addr \<Rightarrow> bool option" where
  "list_empty h el = map_option (\<lambda>n. n = el) (get_next h el)"

section \<open>What a heap stands for\<close>

text \<open>From \<open>a\<close> through \<open>xs\<close> to \<open>b\<close>, in both directions.\<close>

fun linked_chain :: "links \<Rightarrow> addr \<Rightarrow> addr list \<Rightarrow> addr \<Rightarrow> bool" where
  "linked_chain h a [] b \<longleftrightarrow> get_next h a = Some b \<and> get_prev h b = Some a"
| "linked_chain h a (x # xs) b \<longleftrightarrow> get_next h a = Some x \<and> get_prev h x = Some a \<and> linked_chain h x xs b"

definition ilist :: "links \<Rightarrow> addr \<Rightarrow> addr list \<Rightarrow> bool" where
  "ilist h head xs \<longleftrightarrow> distinct (head # xs) \<and> linked_chain h head xs head"

lemma linked_chain_append:
  "linked_chain h a (us @ x # vs) b \<longleftrightarrow> linked_chain h a us x \<and> linked_chain h x vs b"
  by (induction us arbitrary: a) auto

lemma linked_chain_cong:
  "linked_chain h a xs b \<Longrightarrow> (\<And>p. p = a \<or> p \<in> set xs \<Longrightarrow> get_next h' p = get_next h p) \<Longrightarrow>
   (\<And>p. p = b \<or> p \<in> set xs \<Longrightarrow> get_prev h' p = get_prev h p) \<Longrightarrow> linked_chain h' a xs b"
  by (induction xs arbitrary: a) auto

lemma linked_chain_ends:
  "linked_chain h a xs b \<Longrightarrow> get_next h a = Some (hd (xs @ [b])) \<and> get_prev h b = Some (last (a # xs))"
  by (induction xs arbitrary: a) auto

lemma linked_chain_dom: "linked_chain h a xs b \<Longrightarrow> x = a \<or> x = b \<or> x \<in> set xs \<Longrightarrow> \<exists>n. h x = Some n"
  by (induction xs arbitrary: a) (auto simp: get_next_def get_prev_def)

lemma ilist_frame: "ilist h head xs \<Longrightarrow> (\<And>p. p = head \<or> p \<in> set xs \<Longrightarrow> h' p = h p) \<Longrightarrow> ilist h' head xs"
  unfolding ilist_def using linked_chain_cong [of h head xs head h'] by (auto simp: get_next_def get_prev_def)

lemma ilist_dom: "ilist h head xs \<Longrightarrow> x = head \<or> x \<in> set xs \<Longrightarrow> \<exists>n. h x = Some n"
  unfolding ilist_def using linked_chain_dom by blast

lemma ilist_empty: "ilist h head xs \<Longrightarrow> list_empty h head = Some (xs = [])"
  by (cases xs) (auto simp: ilist_def list_empty_def)

lemma ilist_first: "ilist h head (x # xs) \<Longrightarrow> get_next h head = Some x"
  by (simp add: ilist_def)

lemma ilist_none: "ilist h head [] \<Longrightarrow> get_next h head = Some head"
  by (simp add: ilist_def)

lemma ilist_next: "ilist h head (us @ x # vs) \<Longrightarrow> get_next h x = Some (case vs of [] \<Rightarrow> head | v # _ \<Rightarrow> v)"
  unfolding ilist_def linked_chain_append by (cases vs) auto

lemma init_list_head_ok: "h head \<noteq> None \<Longrightarrow>
  okw (init_list_head h head) (\<lambda>h'. ilist h' head [] \<and> (\<forall>q. q \<noteq> head \<longrightarrow> h' q = h q))"
  by (auto simp: init_list_head_def set_prev_def set_next_def ilist_def get_next_def get_prev_def)

section \<open>Insertion and removal\<close>

definition moved :: "links \<Rightarrow> links \<Rightarrow> addr set \<Rightarrow> bool" where
  "moved h h' X \<longleftrightarrow> (\<forall>q. q \<notin> X \<longrightarrow> h' q = h q) \<and> dom h' = dom h"

lemma moved_mono: "moved h h' X \<Longrightarrow> X \<subseteq> Y \<Longrightarrow> moved h h' Y"
  by (auto simp: moved_def)

lemma moved_trans: "moved h h' X \<Longrightarrow> moved h' h'' Y \<Longrightarrow> moved h h'' (X \<union> Y)"
  by (auto simp: moved_def)

lemma set_ok:
  assumes "p \<in> dom h"
  shows "\<exists>h'. set_next h p v = Some h' \<and> get_next h' = (get_next h)(p := Some v) \<and> get_prev h' = get_prev h \<and> moved h h' {p}"
    and "\<exists>h'. set_prev h p v = Some h' \<and> get_next h' = get_next h \<and> get_prev h' = (get_prev h)(p := Some v) \<and> moved h h' {p}"
proof -
  obtain n where n: "h p = Some n" using assms by blast
  show "\<exists>h'. set_next h p v = Some h' \<and> get_next h' = (get_next h)(p := Some v) \<and> get_prev h' = get_prev h \<and> moved h h' {p}"
    by (intro exI [of _ "h(p \<mapsto> n\<lparr>lnext := v\<rparr>)"])
      (use n in \<open>auto simp: set_next_def get_next_def get_prev_def moved_def fun_eq_iff\<close>)
  show "\<exists>h'. set_prev h p v = Some h' \<and> get_next h' = get_next h \<and> get_prev h' = (get_prev h)(p := Some v) \<and> moved h h' {p}"
    by (intro exI [of _ "h(p \<mapsto> n\<lparr>lprev := v\<rparr>)"])
      (use n in \<open>auto simp: set_prev_def get_next_def get_prev_def moved_def fun_eq_iff\<close>)
qed

lemma list_insert_run:
  assumes "p \<in> dom h" "n \<in> dom h" "el \<in> dom h"
  shows "\<exists>h'. list_insert h el p n = Some h' \<and> get_next h' = (get_next h)(p := Some el, el := Some n) \<and>
    get_prev h' = (get_prev h)(el := Some p, n := Some el) \<and> moved h h' {p, n, el}"
proof -
  obtain h1 where 1: "set_next h p el = Some h1" "get_next h1 = (get_next h)(p := Some el)" "get_prev h1 = get_prev h"
    "moved h h1 {p}"
    using set_ok(1) [OF assms(1)] by blast
  have d1: "dom h1 = dom h" using 1(4) by (simp add: moved_def)
  obtain h2 where 2: "set_prev h1 el p = Some h2" "get_next h2 = get_next h1" "get_prev h2 = (get_prev h1)(el := Some p)"
    "moved h1 h2 {el}"
    using set_ok(2) [of el h1] assms(3) d1 by blast
  have d2: "dom h2 = dom h" using 2(4) d1 by (simp add: moved_def)
  obtain h3 where 3: "set_next h2 el n = Some h3" "get_next h3 = (get_next h2)(el := Some n)" "get_prev h3 = get_prev h2"
    "moved h2 h3 {el}"
    using set_ok(1) [of el h2] assms(3) d2 by blast
  have d3: "dom h3 = dom h" using 3(4) d2 by (simp add: moved_def)
  obtain h4 where 4: "set_prev h3 n el = Some h4" "get_next h4 = get_next h3" "get_prev h4 = (get_prev h3)(n := Some el)"
    "moved h3 h4 {n}"
    using set_ok(2) [of n h3] assms(2) d3 by blast
  have "moved h h4 {p, n, el}"
    using moved_trans [OF moved_trans [OF moved_trans [OF 1(4) 2(4)] 3(4)] 4(4)] by (rule moved_mono) auto
  then show ?thesis using 1(1-3) 2(1-3) 3(1-3) 4(1-3) by (simp add: list_insert_def)
qed

lemma linked_chain_dom_iff: "ilist h head xs \<Longrightarrow> x = head \<or> x \<in> set xs \<Longrightarrow> x \<in> dom h"
  using ilist_dom by blast

lemma list_add_tail_ok:
  assumes l: "ilist h head xs" and e: "el \<noteq> head" "el \<notin> set xs" "h el \<noteq> None"
  shows "okw (list_add_tail h el head) (\<lambda>h'. ilist h' head (xs @ [el]) \<and> moved h h' (insert head (insert el (set xs))))"
proof -
  let ?p = "last (head # xs)"
  have p: "get_prev h head = Some ?p" "?p = head \<or> ?p \<in> set xs" using l linked_chain_ends [of h head xs head] by (auto simp: ilist_def)
  obtain h' where h': "list_insert h el ?p head = Some h'" "get_next h' = (get_next h)(?p := Some el, el := Some head)"
    "get_prev h' = (get_prev h)(el := Some ?p, head := Some el)" "moved h h' {?p, head, el}"
    using list_insert_run [of ?p h head el] linked_chain_dom_iff [OF l] p(2) e(3) by blast
  have "linked_chain h' head xs el"
  proof (cases xs rule: rev_cases)
    case (snoc us z)
    then have d: "distinct (head # us @ [z])" "linked_chain h head us z" using l by (auto simp: ilist_def linked_chain_append)
    have "linked_chain h' head us z"
      by (rule linked_chain_cong [OF d(2)]) (use d(1) e snoc in \<open>auto simp: h'(2,3)\<close>)
    then show ?thesis using snoc e by (auto simp: linked_chain_append h'(2,3))
  qed (use e in \<open>auto simp: h'(2,3)\<close>)
  moreover have "linked_chain h' el [] head" using e by (simp add: h'(2,3))
  ultimately have "ilist h' head (xs @ [el])" using l e by (auto simp: ilist_def linked_chain_append)
  moreover have "moved h h' (insert head (insert el (set xs)))"
    by (rule moved_mono [OF h'(4)]) (use p(2) in blast)
  ultimately show ?thesis using p(1) h'(1) by (simp add: list_add_tail_def)
qed

lemma list_add_ok:
  assumes l: "ilist h head xs" and e: "el \<noteq> head" "el \<notin> set xs" "h el \<noteq> None"
  shows "okw (list_add h el head) (\<lambda>h'. ilist h' head (el # xs) \<and> moved h h' (insert head (insert el (set xs))))"
proof -
  let ?n = "hd (xs @ [head])"
  have n: "get_next h head = Some ?n" "?n = head \<or> ?n \<in> set xs" 
    using l linked_chain_ends [of h head xs head] by (simp add: ilist_def) (cases xs, simp_all)
  obtain h' where h': "list_insert h el head ?n = Some h'" "get_next h' = (get_next h)(head := Some el, el := Some ?n)"
    "get_prev h' = (get_prev h)(el := Some head, ?n := Some el)" "moved h h' {head, ?n, el}"
    using list_insert_run [of head h ?n el] linked_chain_dom_iff [OF l] n(2) e(3) by blast
  have "linked_chain h' el xs head"
  proof (cases xs)
    case (Cons z us)
    then have d: "distinct (head # z # us)" "linked_chain h z us head" using l by (auto simp: ilist_def)
    have "linked_chain h' z us head"
      by (rule linked_chain_cong [OF d(2)]) (use d(1) e Cons in \<open>auto simp: h'(2,3)\<close>)
    then show ?thesis using Cons e by (auto simp: h'(2,3))
  qed (use e in \<open>auto simp: h'(2,3)\<close>)
  moreover have "get_next h' head = Some el" "get_prev h' el = Some head" using e n(2) by (auto simp: h'(2,3))
  ultimately have "ilist h' head (el # xs)" using l e by (auto simp: ilist_def)
  moreover have "moved h h' (insert head (insert el (set xs)))"
    by (rule moved_mono [OF h'(4)]) (use n(2) in blast)
  ultimately show ?thesis using n(1) h'(1) by (simp add: list_add_def)
qed

lemma list_del_run:
  assumes "get_prev h el = Some p" "get_next h el = Some n" "p \<in> dom h" "n \<in> dom h"
  shows "\<exists>h'. list_del h el = Some h' \<and> get_next h' = (get_next h)(p := Some n, el := Some 0) \<and>
    get_prev h' = (get_prev h)(n := Some p, el := Some 0) \<and> moved h h' {p, n, el}"
proof -
  have el: "el \<in> dom h" using assms(1) by (auto simp: get_prev_def)
  obtain h1 where 1: "set_next h p n = Some h1" "get_next h1 = (get_next h)(p := Some n)" "get_prev h1 = get_prev h"
    "moved h h1 {p}"
    using set_ok(1) [OF assms(3)] by blast
  have d1: "dom h1 = dom h" using 1(4) by (simp add: moved_def)
  obtain h2 where 2: "set_prev h1 n p = Some h2" "get_next h2 = get_next h1" "get_prev h2 = (get_prev h1)(n := Some p)"
    "moved h1 h2 {n}"
    using set_ok(2) [of n h1] assms(4) d1 by blast
  have d2: "dom h2 = dom h" using 2(4) d1 by (simp add: moved_def)
  obtain h3 where 3: "set_prev h2 el 0 = Some h3" "get_next h3 = get_next h2" "get_prev h3 = (get_prev h2)(el := Some 0)"
    "moved h2 h3 {el}"
    using set_ok(2) [of el h2] el d2 by blast
  have d3: "dom h3 = dom h" using 3(4) d2 by (simp add: moved_def)
  obtain h4 where 4: "set_next h3 el 0 = Some h4" "get_next h4 = (get_next h3)(el := Some 0)" "get_prev h4 = get_prev h3"
    "moved h3 h4 {el}"
    using set_ok(1) [of el h3] el d3 by blast
  have "moved h h4 {p, n, el}"
    using moved_trans [OF moved_trans [OF moved_trans [OF 1(4) 2(4)] 3(4)] 4(4)] by (rule moved_mono) auto
  then show ?thesis using assms(1,2) 1(1-3) 2(1-3) 3(1-3) 4(1-3) by (simp add: list_del_def)
qed

lemma list_del_ok:
  assumes l: "ilist h head (us @ el # vs)"
  shows "okw (list_del h el) (\<lambda>h'. ilist h' head (us @ vs) \<and> moved h h' (insert head (insert el (set us \<union> set vs))))"
proof -
  let ?p = "last (head # us)" and ?n = "hd (vs @ [head])"
  have c: "linked_chain h head us el" "linked_chain h el vs head" and d: "distinct (head # us @ el # vs)"
    using l by (auto simp: ilist_def linked_chain_append)
  have pn: "get_prev h el = Some ?p" "get_next h el = Some ?n" "?p = head \<or> ?p \<in> set us" "?n = head \<or> ?n \<in> set vs"
    using linked_chain_ends [OF c(1)] linked_chain_ends [OF c(2)] by (auto simp: hd_append)
  obtain h' where h': "list_del h el = Some h'" "get_next h' = (get_next h)(?p := Some ?n, el := Some 0)"
    "get_prev h' = (get_prev h)(?n := Some ?p, el := Some 0)" "moved h h' {?p, ?n, el}"
    using list_del_run [OF pn(1,2)] linked_chain_dom_iff [OF l] pn(3,4) by auto
  have "linked_chain h' head (us @ vs) head"
  proof (cases us rule: rev_cases)
    case Nil
    show ?thesis
    proof (cases vs)
      case (Cons n vs')
      have "linked_chain h' n vs' head"
        by (rule linked_chain_cong [of h]) (use c(2) d Cons Nil in \<open>auto simp: h'(2,3)\<close>)
      then show ?thesis using d Cons Nil by (auto simp: h'(2,3))
    qed (use d Nil in \<open>auto simp: h'(2,3)\<close>)
  next
    case (snoc us' p)
    have 1: "linked_chain h' head us' p"
      by (rule linked_chain_cong [of h]) (use c(1) d snoc pn(4) in \<open>auto simp: h'(2,3) linked_chain_append\<close>)
    show ?thesis
    proof (cases vs)
      case Nil
      then show ?thesis using 1 d snoc by (auto simp: h'(2,3) linked_chain_append)
    next
      case (Cons n vs')
      have "linked_chain h' n vs' head"
        by (rule linked_chain_cong [of h]) (use c(2) d Cons snoc in \<open>auto simp: h'(2,3)\<close>)
      then show ?thesis using 1 d Cons snoc by (auto simp: h'(2,3) linked_chain_append)
    qed
  qed
  then have "ilist h' head (us @ vs)" using d by (auto simp: ilist_def)
  moreover have "moved h h' (insert head (insert el (set us \<union> set vs)))"
    by (rule moved_mono [OF h'(4)]) (use pn(3,4) in blast)
  ultimately show ?thesis using h'(1) by simp
qed

end
