(* ===== verification/Gc.thy ===== *)
theory Gc
  imports Intrusive_List
begin

text \<open>
  The cycle collector of \<^verbatim>\<open>quickjs.c\<close>: trial deletion over the intrusive list of all objects with a
  header. \<open>gc_decref\<close> takes away the references between the objects and moves what is left without
  references to \<open>tmp_obj_list\<close>; \<open>gc_scan\<close> brings back what the others reach and restores the counts.
  What remains in \<open>tmp_obj_list\<close> is garbage. Everything the code asserts is a branch to \<open>None\<close>.
\<close>

section \<open>Objects with a header\<close>

text \<open>A value counts for the collector when its tag is \<open>JS_TAG_OBJECT\<close> or
  \<open>JS_TAG_FUNCTION_BYTECODE\<close>.\<close>

datatype js_value = JS_TAG_OBJECT addr | JS_TAG_FUNCTION_BYTECODE addr | JS_TAG_OTHER

datatype gc_property =
    PROP_NORMAL js_value
  | PROP_GETSET addr addr
  | PROP_VARREF addr bool
  | PROP_AUTOINIT addr

record async_state =
  cur_func :: js_value
  this_val :: js_value
  stack :: "js_value list option"

text \<open>An exported entry of a module: whether it is local, and its variable.\<close>

record js_module =
  export_entries :: "(bool \<times> addr) list"
  module_ns :: js_value
  func_obj :: js_value
  eval_exception :: js_value
  meta_obj :: js_value

text \<open>An object carries its shape, its properties with their atoms and what the \<open>gc_mark\<close> function
  of its class marks; a context its modules, its values in the order of \<open>JS_MarkContext\<close> and
  \<open>array_shape\<close>.\<close>

datatype gc_obj =
    GC_JS_OBJECT addr "(u32 \<times> gc_property) list" "addr list"
  | GC_FUNCTION_BYTECODE "js_value list" addr
  | GC_SHAPE addr
  | GC_VAR_REF bool js_value
  | GC_ASYNC_FUNCTION bool async_state js_value js_value
  | GC_JS_CONTEXT "js_module list" "js_value list" addr

record gc_header =
  ref_count :: int
  gmark :: nat

record gc_rt =
  hdr :: "addr \<Rightarrow> gc_header option"
  body :: "addr \<Rightarrow> gc_obj option"
  links :: links
  gc_obj_list :: addr
  tmp_obj_list :: addr

section \<open>Children\<close>

text \<open>The marking functions call \<open>mark_func\<close> on one object after the other; here they give the list of
  these objects in the order of the calls.\<close>

fun js_mark_value :: "js_value \<Rightarrow> addr list" where
  "js_mark_value (JS_TAG_OBJECT p) = [p]"
| "js_mark_value (JS_TAG_FUNCTION_BYTECODE p) = [p]"
| "js_mark_value JS_TAG_OTHER = []"

definition mark_ptr :: "addr \<Rightarrow> addr list" where
  "mark_ptr p = (if p \<noteq> 0 then [p] else [])"

fun mark_property :: "u32 \<times> gc_property \<Rightarrow> addr list" where
  "mark_property (a, pr) =
     (if a = 0 then []
      else (case pr of
          PROP_NORMAL v \<Rightarrow> js_mark_value v
        | PROP_GETSET g s \<Rightarrow> mark_ptr g @ mark_ptr s
        | PROP_VARREF r detached \<Rightarrow> (if detached then [r] else [])
        | PROP_AUTOINIT realm \<Rightarrow> [realm]))"

definition async_func_mark :: "async_state \<Rightarrow> addr list" where
  "async_func_mark s = js_mark_value (cur_func s) @ js_mark_value (this_val s) @
     (case stack s of None \<Rightarrow> [] | Some vs \<Rightarrow> concat (map js_mark_value vs))"

definition js_mark_module_def :: "js_module \<Rightarrow> addr list" where
  "js_mark_module_def m =
     concat (map (\<lambda>(is_local, v). if is_local then mark_ptr v else []) (export_entries m)) @
     js_mark_value (module_ns m) @ js_mark_value (func_obj m) @ js_mark_value (eval_exception m) @ js_mark_value (meta_obj m)"

definition js_mark_context :: "js_module list \<Rightarrow> js_value list \<Rightarrow> addr \<Rightarrow> addr list" where
  "js_mark_context modules vs array_shape =
     concat (map js_mark_module_def modules) @ concat (map js_mark_value vs) @ mark_ptr array_shape"

fun children :: "gc_obj \<Rightarrow> addr list option" where
  "children (GC_JS_OBJECT sh prs cls) = Some (sh # concat (map mark_property prs) @ cls)"
| "children (GC_FUNCTION_BYTECODE cpool realm) = Some (concat (map js_mark_value cpool) @ mark_ptr realm)"
| "children (GC_VAR_REF is_detached v) = (if is_detached then Some (js_mark_value v) else None)"
| "children (GC_ASYNC_FUNCTION is_active s r0 r1) =
     Some ((if is_active then async_func_mark s else []) @ js_mark_value r0 @ js_mark_value r1)"
| "children (GC_SHAPE pr) = Some (mark_ptr pr)"
| "children (GC_JS_CONTEXT modules vs sh) = Some (js_mark_context modules vs sh)"

fun mark_all :: "(gc_rt \<Rightarrow> addr \<Rightarrow> gc_rt option) \<Rightarrow> addr list \<Rightarrow> gc_rt \<Rightarrow> gc_rt option" where
  "mark_all mark_func [] rt = Some rt"
| "mark_all mark_func (q # qs) rt = do { rt \<leftarrow> mark_func rt q; mark_all mark_func qs rt }"

definition mark_children :: "gc_rt \<Rightarrow> addr \<Rightarrow> (gc_rt \<Rightarrow> addr \<Rightarrow> gc_rt option) \<Rightarrow> gc_rt option" where
  "mark_children rt gp mark_func = do {
     b \<leftarrow> body rt gp;
     cs \<leftarrow> children b;
     mark_all mark_func cs rt
   }"

section \<open>The two passes\<close>

definition set_hdr :: "gc_rt \<Rightarrow> addr \<Rightarrow> gc_header \<Rightarrow> gc_rt" where
  "set_hdr rt p h = rt\<lparr>hdr := (hdr rt)(p \<mapsto> h)\<rparr>"

text \<open>\<open>list_del\<close> followed by \<open>list_add_tail\<close>.\<close>

definition move_tail :: "gc_rt \<Rightarrow> addr \<Rightarrow> addr \<Rightarrow> gc_rt option" where
  "move_tail rt p head = do {
     l \<leftarrow> list_del (links rt) p;
     l \<leftarrow> list_add_tail l p head;
     Some (rt\<lparr>links := l\<rparr>)
   }"

definition gc_decref_child :: "gc_rt \<Rightarrow> addr \<Rightarrow> gc_rt option" where
  "gc_decref_child rt p = do {
     h \<leftarrow> hdr rt p;
     if ref_count h \<le> 0 then None
     else do {
       let h = h\<lparr>ref_count := ref_count h - 1\<rparr>;
       let rt = set_hdr rt p h;
       if ref_count h = 0 \<and> gmark h = 1 then move_tail rt p (tmp_obj_list rt) else Some rt
     }
   }"

text \<open>The body of the loop of \<open>gc_decref\<close>.\<close>

definition gc_decref_step :: "gc_rt \<Rightarrow> addr \<Rightarrow> gc_rt option" where
  "gc_decref_step rt p = do {
     h \<leftarrow> hdr rt p;
     if gmark h \<noteq> 0 then None
     else do {
       rt \<leftarrow> mark_children rt p gc_decref_child;
       h \<leftarrow> hdr rt p;
       let rt = set_hdr rt p (h\<lparr>gmark := 1\<rparr>);
       if ref_count h = 0 then move_tail rt p (tmp_obj_list rt) else Some rt
     }
   }"

partial_function (option) gc_decref_loop :: "addr \<Rightarrow> addr \<Rightarrow> gc_rt \<Rightarrow> gc_rt option" where
  "gc_decref_loop el el1 rt =
     (if el = gc_obj_list rt then Some rt
      else do {
        rt \<leftarrow> gc_decref_step rt el;
        n \<leftarrow> get_next (links rt) el1;
        gc_decref_loop el1 n rt
      })"

definition gc_decref :: "gc_rt \<Rightarrow> gc_rt option" where
  "gc_decref rt = do {
     l \<leftarrow> init_list_head (links rt) (tmp_obj_list rt);
     let rt = rt\<lparr>links := l\<rparr>;
     el \<leftarrow> get_next (links rt) (gc_obj_list rt);
     el1 \<leftarrow> get_next (links rt) el;
     gc_decref_loop el el1 rt
   }"

definition gc_scan_incref_child :: "gc_rt \<Rightarrow> addr \<Rightarrow> gc_rt option" where
  "gc_scan_incref_child rt p = do {
     h \<leftarrow> hdr rt p;
     let h = h\<lparr>ref_count := ref_count h + 1\<rparr>;
     if ref_count h = 1 then do {
       rt \<leftarrow> move_tail (set_hdr rt p h) p (gc_obj_list rt);
       Some (set_hdr rt p (h\<lparr>gmark := 0\<rparr>))
     }
     else Some (set_hdr rt p h)
   }"

definition gc_scan_incref_child2 :: "gc_rt \<Rightarrow> addr \<Rightarrow> gc_rt option" where
  "gc_scan_incref_child2 rt p = do {
     h \<leftarrow> hdr rt p;
     Some (set_hdr rt p (h\<lparr>ref_count := ref_count h + 1\<rparr>))
   }"

definition gc_scan_step :: "gc_rt \<Rightarrow> addr \<Rightarrow> gc_rt option" where
  "gc_scan_step rt p = do {
     h \<leftarrow> hdr rt p;
     if ref_count h \<le> 0 then None
     else mark_children (set_hdr rt p (h\<lparr>gmark := 0\<rparr>)) p gc_scan_incref_child
   }"

text \<open>\<open>list_for_each\<close>: the next element is read after the body.\<close>

partial_function (option) gc_scan_loop :: "addr \<Rightarrow> gc_rt \<Rightarrow> gc_rt option" where
  "gc_scan_loop el rt =
     (if el = gc_obj_list rt then Some rt
      else do {
        rt \<leftarrow> gc_scan_step rt el;
        n \<leftarrow> get_next (links rt) el;
        gc_scan_loop n rt
      })"

partial_function (option) gc_restore_loop :: "addr \<Rightarrow> gc_rt \<Rightarrow> gc_rt option" where
  "gc_restore_loop el rt =
     (if el = tmp_obj_list rt then Some rt
      else do {
        rt \<leftarrow> mark_children rt el gc_scan_incref_child2;
        n \<leftarrow> get_next (links rt) el;
        gc_restore_loop n rt
      })"

declare gc_decref_loop.simps [code] gc_scan_loop.simps [code] gc_restore_loop.simps [code]

definition gc_scan :: "gc_rt \<Rightarrow> gc_rt option" where
  "gc_scan rt = do {
     el \<leftarrow> get_next (links rt) (gc_obj_list rt);
     rt \<leftarrow> gc_scan_loop el rt;
     el \<leftarrow> get_next (links rt) (tmp_obj_list rt);
     gc_restore_loop el rt
   }"

text \<open>The two passes of \<open>JS_RunGC\<close> before \<open>gc_free_cycles\<close>.\<close>

definition js_run_gc_passes :: "gc_rt \<Rightarrow> gc_rt option" where
  "js_run_gc_passes rt = do { rt \<leftarrow> gc_decref rt; gc_scan rt }"

section \<open>Registration\<close>

definition add_gc_object :: "gc_rt \<Rightarrow> addr \<Rightarrow> gc_rt option" where
  "add_gc_object rt p = do {
     h \<leftarrow> hdr rt p;
     let rt = set_hdr rt p (h\<lparr>gmark := 0\<rparr>);
     l \<leftarrow> list_add_tail (links rt) p (gc_obj_list rt);
     Some (rt\<lparr>links := l\<rparr>)
   }"

definition remove_gc_object :: "gc_rt \<Rightarrow> addr \<Rightarrow> gc_rt option" where
  "remove_gc_object rt p = do { l \<leftarrow> list_del (links rt) p; Some (rt\<lparr>links := l\<rparr>) }"

end
