(* ===== verification/Gc_Spec.thy ===== *)
theory Gc_Spec
  imports Gc
begin

text \<open>
  What the two passes compute: the objects that stay in \<open>gc_obj_list\<close> are exactly those that an
  external reference reaches, and every reference count is what it was.
\<close>

section \<open>The graph\<close>

definition kids :: "(addr \<Rightarrow> gc_obj option) \<Rightarrow> addr \<Rightarrow> addr list" where
  "kids B p = (case B p of None \<Rightarrow> [] | Some b \<Rightarrow> (case children b of None \<Rightarrow> [] | Some cs \<Rightarrow> cs))"

text \<open>The references to \<open>q\<close> from the objects in \<open>S\<close>.\<close>

definition refs :: "(addr \<Rightarrow> addr list) \<Rightarrow> addr set \<Rightarrow> addr \<Rightarrow> int" where
  "refs K S q = int (\<Sum>p \<in> S. count_list (K p) q)"

inductive live_obj :: "(addr \<Rightarrow> addr list) \<Rightarrow> (addr \<Rightarrow> int) \<Rightarrow> addr set \<Rightarrow> addr \<Rightarrow> bool" for K e N where
  root: "p \<in> N \<Longrightarrow> 0 < e p \<Longrightarrow> live_obj K e N p"
| child: "live_obj K e N p \<Longrightarrow> q \<in> set (K p) \<Longrightarrow> live_obj K e N q"

lemma refs_nonneg: "0 \<le> refs K S q"
  by (simp add: refs_def sum_nonneg)

lemma refs_empty [simp]: "refs K {} q = 0"
  by (simp add: refs_def)

lemma refs_insert: "finite S \<Longrightarrow> p \<notin> S \<Longrightarrow> refs K (insert p S) q = int (count_list (K p) q) + refs K S q"
  by (simp add: refs_def)

lemma refs_union: "finite S \<Longrightarrow> finite T \<Longrightarrow> S \<inter> T = {} \<Longrightarrow> refs K (S \<union> T) q = refs K S q + refs K T q"
  by (simp add: refs_def sum.union_disjoint)

section \<open>States\<close>

type_synonym gc_env = "addr \<times> addr \<times> (addr \<Rightarrow> gc_obj option)"

definition gc_state :: "gc_env \<Rightarrow> gc_rt \<Rightarrow> addr list \<Rightarrow> addr list \<Rightarrow> (addr \<Rightarrow> int) \<Rightarrow> (addr \<Rightarrow> nat) \<Rightarrow> bool" where
  "gc_state c rt G T rc mk \<longleftrightarrow> (case c of (gl, th, B) \<Rightarrow>
     gc_obj_list rt = gl \<and> tmp_obj_list rt = th \<and> body rt = B \<and>
     ilist (links rt) gl G \<and> ilist (links rt) th T \<and> set (gl # G) \<inter> set (th # T) = {} \<and>
     (\<forall>p \<in> set G \<union> set T. hdr rt p = Some \<lparr>ref_count = rc p, gmark = mk p\<rparr>))"

lemma move_lists:
  assumes a: "ilist l h1 (us @ p # vs)" "ilist l h2 ys" "set (h1 # us @ p # vs) \<inter> set (h2 # ys) = {}"
  shows "okw (do { l \<leftarrow> list_del l p; list_add_tail l p h2 })
    (\<lambda>l'. ilist l' h1 (us @ vs) \<and> ilist l' h2 (ys @ [p]))"
proof -
  obtain l1 where 1: "list_del l p = Some l1" "ilist l1 h1 (us @ vs)" "moved l l1 (insert h1 (insert p (set us \<union> set vs)))"
    using okw_ex [OF list_del_ok [OF a(1)]] by auto
  have i2: "ilist l1 h2 ys"
    by (rule ilist_frame [OF a(2)]) (use a(3) 1(3) in \<open>auto simp: moved_def\<close>)
  have "l p \<noteq> None" using ilist_dom [OF a(1)] by auto
  then have e: "p \<noteq> h2" "p \<notin> set ys" "l1 p \<noteq> None" using a(3) 1(3) by (auto simp: moved_def)
  obtain l2 where 2: "list_add_tail l1 p h2 = Some l2" "ilist l2 h2 (ys @ [p])" "moved l1 l2 (insert h2 (insert p (set ys)))"
    using okw_ex [OF list_add_tail_ok [OF i2 e]] by auto
  have "distinct (h1 # us @ p # vs)" using a(1) by (simp add: ilist_def)
  then have "ilist l2 h1 (us @ vs)"
    by (intro ilist_frame [OF 1(2)]) (use a(3) 2(3) in \<open>auto simp: moved_def\<close>)
  then show ?thesis using 1(1) 2(1,2) by simp
qed

lemma move_to_tmp:
  assumes "gc_state c rt (us @ p # vs) T rc mk"
  shows "okw (move_tail rt p (tmp_obj_list rt)) (\<lambda>rt'. gc_state c rt' (us @ vs) (T @ [p]) rc mk)"
proof -
  obtain gl th B where c: "c = (gl, th, B)" by (metis prod_cases3)
  have s: "ilist (links rt) gl (us @ p # vs)" "ilist (links rt) th T" "set (gl # us @ p # vs) \<inter> set (th # T) = {}"
    "tmp_obj_list rt = th" "gc_obj_list rt = gl" "body rt = B"
    "\<forall>q \<in> set (us @ p # vs) \<union> set T. hdr rt q = Some \<lparr>ref_count = rc q, gmark = mk q\<rparr>"
    using assms by (auto simp: gc_state_def c)
  obtain l1 l2 where l: "list_del (links rt) p = Some l1" "list_add_tail l1 p th = Some l2" "ilist l2 gl (us @ vs)" "ilist l2 th (T @ [p])"
    using okw_ex [OF move_lists [OF s(1-3)]] by (auto split: Option.bind_splits)
  have d: "distinct (gl # us @ p # vs)" using s(1) by (simp add: ilist_def)
  have "gc_state c (rt\<lparr>links := l2\<rparr>) (us @ vs) (T @ [p]) rc mk"
    using s(3-7) l(3,4) d by (auto simp: gc_state_def c)
  then show ?thesis using l(1,2) s(4) by (simp add: move_tail_def)
qed

lemma move_to_gc:
  assumes "gc_state c rt G (us @ p # vs) rc mk"
  shows "okw (move_tail rt p (gc_obj_list rt)) (\<lambda>rt'. gc_state c rt' (G @ [p]) (us @ vs) rc mk)"
proof -
  obtain gl th B where c: "c = (gl, th, B)" by (metis prod_cases3)
  have s: "ilist (links rt) th (us @ p # vs)" "ilist (links rt) gl G" "set (th # us @ p # vs) \<inter> set (gl # G) = {}"
    "gc_obj_list rt = gl" "tmp_obj_list rt = th" "body rt = B"
    "\<forall>q \<in> set G \<union> set (us @ p # vs). hdr rt q = Some \<lparr>ref_count = rc q, gmark = mk q\<rparr>"
    using assms by (auto simp: gc_state_def c)
  obtain l1 l2 where l: "list_del (links rt) p = Some l1" "list_add_tail l1 p gl = Some l2" "ilist l2 th (us @ vs)" "ilist l2 gl (G @ [p])"
    using okw_ex [OF move_lists [OF s(1-3)]] by (auto split: Option.bind_splits)
  have d: "distinct (th # us @ p # vs)" using s(1) by (simp add: ilist_def)
  have "gc_state c (rt\<lparr>links := l2\<rparr>) (G @ [p]) (us @ vs) rc mk"
    using s(3-7) l(3,4) d by (auto simp: gc_state_def c)
  then show ?thesis using l(1,2) s(4) by (simp add: move_tail_def)
qed

lemma gc_state_hdr: "gc_state c rt G T rc mk \<Longrightarrow> p \<in> set G \<union> set T \<Longrightarrow> hdr rt p = Some \<lparr>ref_count = rc p, gmark = mk p\<rparr>"
  by (auto simp: gc_state_def split: prod.splits)

lemma gc_state_distinct: "gc_state c rt G T rc mk \<Longrightarrow> distinct G \<and> distinct T \<and> set G \<inter> set T = {}"
  by (auto simp: gc_state_def ilist_def split: prod.splits)

lemma set_hdr_fields [simp]:
  "tmp_obj_list (set_hdr rt p h) = tmp_obj_list rt" "gc_obj_list (set_hdr rt p h) = gc_obj_list rt"
  "body (set_hdr rt p h) = body rt" "links (set_hdr rt p h) = links rt"
  by (simp_all add: set_hdr_def)

lemma gc_state_set_hdr:
  assumes "gc_state c rt G T rc mk" and "p \<in> set G \<union> set T"
  shows "gc_state c (set_hdr rt p \<lparr>ref_count = r, gmark = m\<rparr>) G T (rc(p := r)) (mk(p := m))"
  using assms by (auto simp: gc_state_def set_hdr_def split: prod.splits)

lemma gc_state_cong:
  "gc_state c rt G T rc mk \<Longrightarrow> (\<And>p. p \<in> set G \<union> set T \<Longrightarrow> rc' p = rc p \<and> mk' p = mk p) \<Longrightarrow> gc_state c rt G T rc' mk'"
  by (auto simp: gc_state_def split: prod.splits)

section \<open>Trial deletion\<close>

text \<open>\<open>A\<close> and \<open>T\<close> are done, \<open>U\<close> is not.\<close>

definition dec :: "gc_env \<Rightarrow> gc_rt \<Rightarrow> addr list \<Rightarrow> addr list \<Rightarrow> addr list \<Rightarrow> (addr \<Rightarrow> int) \<Rightarrow> bool" where
  "dec c rt A U T rc \<longleftrightarrow> gc_state c rt (A @ U) T rc (\<lambda>p. if p \<in> set U then 0 else 1) \<and>
     (\<forall>p \<in> set A. 0 < rc p) \<and> (\<forall>p \<in> set T. rc p = 0)"

lemma gc_decref_child_ok:
  assumes d: "dec c rt A U T rc" and q: "q \<in> set A \<union> set U \<union> set T" "0 < rc q"
  shows "okw (gc_decref_child rt q) (\<lambda>rt'. \<exists>A' T'. dec c rt' A' U T' (rc(q := rc q - 1)) \<and> set A' \<union> set T' = set A \<union> set T)"
proof -
  let ?mk = "\<lambda>p. if p \<in> set U then 0 else 1 :: nat" and ?rc = "rc(q := rc q - 1)"
  have s: "gc_state c rt (A @ U) T rc ?mk" and al: "\<forall>p \<in> set A. 0 < rc p" and t: "\<forall>p \<in> set T. rc p = 0"
    using d by (auto simp: dec_def)
  have qn: "q \<in> set (A @ U) \<union> set T" "q \<notin> set T" using q t by auto
  have h: "hdr rt q = Some \<lparr>ref_count = rc q, gmark = ?mk q\<rparr>" by (rule gc_state_hdr [OF s qn(1)])
  let ?rt = "set_hdr rt q \<lparr>ref_count = rc q - 1, gmark = ?mk q\<rparr>"
  have triv: "?mk(q := ?mk q) = ?mk" by auto
  have s1: "gc_state c ?rt (A @ U) T ?rc ?mk"
    using gc_state_set_hdr [OF s qn(1), of "rc q - 1" "?mk q"] unfolding triv .
  note ds = gc_state_distinct [OF s]
  show ?thesis
  proof (cases "rc q = 1 \<and> q \<notin> set U")
    case True
    then obtain us vs where A: "A = us @ q # vs" using q(1) qn(2) by (meson UnE split_list)
    have s2: "gc_state c ?rt (us @ q # (vs @ U)) T ?rc ?mk" using s1 unfolding A by simp
    obtain rt1 where 1: "move_tail ?rt q (tmp_obj_list rt) = Some rt1" "gc_state c rt1 (us @ (vs @ U)) (T @ [q]) ?rc ?mk"
      using okw_ex [OF move_to_tmp [OF s2]] by auto
    have "\<forall>p \<in> set (us @ vs). 0 < ?rc p" "\<forall>p \<in> set (T @ [q]). ?rc p = 0"
      using al t True ds unfolding A by auto
    then have "dec c rt1 (us @ vs) U (T @ [q]) ?rc" using 1(2) unfolding dec_def by (simp only: append_assoc)
    moreover have "set (us @ vs) \<union> set (T @ [q]) = set A \<union> set T" by (auto simp: A)
    ultimately have "\<exists>A' T'. dec c rt1 A' U T' ?rc \<and> set A' \<union> set T' = set A \<union> set T" by blast
    moreover have "gc_decref_child rt q = Some rt1" using True h 1(1) by (simp add: gc_decref_child_def Let_def)
    ultimately show ?thesis by (simp only: okw_Some)
  next
    case False
    have "\<forall>p \<in> set A. 0 < ?rc p" "\<forall>p \<in> set T. ?rc p = 0" using al t False q(2) ds qn(2) by auto
    then have "dec c ?rt A U T ?rc" using s1 by (simp add: dec_def)
    then have "\<exists>A' T'. dec c ?rt A' U T' ?rc \<and> set A' \<union> set T' = set A \<union> set T" by blast
    moreover have "gc_decref_child rt q = Some ?rt" using False q(2) h by (auto simp: gc_decref_child_def Let_def)
    ultimately show ?thesis by (simp only: okw_Some)
  qed
qed

lemma dec_mark_all_ok:
  "dec c rt A U T rc \<Longrightarrow> set cs \<subseteq> set A \<union> set U \<union> set T \<Longrightarrow> (\<forall>q. int (count_list cs q) \<le> rc q \<or> q \<notin> set cs) \<Longrightarrow>
   okw (mark_all gc_decref_child cs rt) (\<lambda>rt'. \<exists>A' T'. dec c rt' A' U T' (\<lambda>q. rc q - int (count_list cs q)) \<and>
     set A' \<union> set T' = set A \<union> set T)"
proof (induction cs arbitrary: rt A T rc)
  case Nil
  then show ?case by auto
next
  case (Cons q cs)
  have "0 < rc q" using Cons.prems(3) [rule_format, of q] by auto
  then obtain rt1 A1 T1 where 1: "gc_decref_child rt q = Some rt1" "dec c rt1 A1 U T1 (rc(q := rc q - 1))"
    "set A1 \<union> set T1 = set A \<union> set T"
    using okw_ex [OF gc_decref_child_ok [OF Cons.prems(1), of q]] Cons.prems(2) by auto
  have "okw (mark_all gc_decref_child cs rt1) (\<lambda>rt'. \<exists>A' T'. dec c rt' A' U T' (\<lambda>p. (rc(q := rc q - 1)) p - int (count_list cs p)) \<and>
     set A' \<union> set T' = set A1 \<union> set T1)"
  proof (rule Cons.IH [OF 1(2)])
    show "set cs \<subseteq> set A1 \<union> set U \<union> set T1" using Cons.prems(2) 1(3) by auto
    show "\<forall>p. int (count_list cs p) \<le> (rc(q := rc q - 1)) p \<or> p \<notin> set cs"
      using Cons.prems(3) by (auto split: if_splits)
  qed
  moreover have "(\<lambda>p. (rc(q := rc q - 1)) p - int (count_list cs p)) = (\<lambda>p. rc p - int (count_list (q # cs) p))"
    by (auto simp: fun_eq_iff)
  ultimately show ?case using 1(1,3) by simp
qed

lemma gc_decref_step_ok:
  assumes d: "dec c rt A (p # U) T rc" and b: "body rt p = Some b" "children b = Some cs"
    and cs: "set cs \<subseteq> set A \<union> set (p # U) \<union> set T" "\<forall>q \<in> set cs. int (count_list cs q) \<le> rc q"
    and nn: "0 \<le> rc p - int (count_list cs p)"
  shows "okw (gc_decref_step rt p) (\<lambda>rt'. \<exists>A' T'. dec c rt' A' U T' (\<lambda>q. rc q - int (count_list cs q)) \<and>
    set A' \<union> set T' = insert p (set A \<union> set T))"
proof -
  have s: "gc_state c rt (A @ p # U) T rc (\<lambda>q. if q \<in> set (p # U) then 0 else 1)" using d by (simp add: dec_def)
  have h: "hdr rt p = Some \<lparr>ref_count = rc p, gmark = 0\<rparr>" using gc_state_hdr [OF s, of p] by simp
  let ?rc = "\<lambda>q. rc q - int (count_list cs q)"
  obtain rt1 A1 T1 where 1: "mark_all gc_decref_child cs rt = Some rt1" "dec c rt1 A1 (p # U) T1 ?rc" "set A1 \<union> set T1 = set A \<union> set T"
    using okw_ex [OF dec_mark_all_ok [OF d cs(1)]] cs(2) by blast
  have s1: "gc_state c rt1 (A1 @ p # U) T1 ?rc (\<lambda>q. if q \<in> set (p # U) then 0 else 1)"
    and a1: "\<forall>q \<in> set A1. 0 < ?rc q" "\<forall>q \<in> set T1. ?rc q = 0"
    using 1(2) by (auto simp: dec_def)
  have h1: "hdr rt1 p = Some \<lparr>ref_count = ?rc p, gmark = 0\<rparr>" using gc_state_hdr [OF s1, of p] by simp
  let ?rt2 = "set_hdr rt1 p \<lparr>ref_count = ?rc p, gmark = 1\<rparr>"
  have ds: "distinct (A1 @ p # U)" "set (A1 @ p # U) \<inter> set T1 = {}" using gc_state_distinct [OF s1] by auto
  have "gc_state c ?rt2 (A1 @ p # U) T1 (?rc(p := ?rc p)) ((\<lambda>q. if q \<in> set (p # U) then 0 else 1)(p := 1))"
    by (rule gc_state_set_hdr [OF s1]) simp
  then have s2: "gc_state c ?rt2 (A1 @ p # U) T1 ?rc (\<lambda>q. if q \<in> set U then 0 else 1)"
    by (rule gc_state_cong) (use ds in auto)
  have run: "gc_decref_step rt p = (if ?rc p = 0 then move_tail ?rt2 p (tmp_obj_list ?rt2) else Some ?rt2)"
    using h b 1(1) h1 by (simp add: gc_decref_step_def mark_children_def Let_def)
  show ?thesis
  proof (cases "?rc p = 0")
    case True
    obtain rt3 where 3: "move_tail ?rt2 p (tmp_obj_list ?rt2) = Some rt3"
      "gc_state c rt3 (A1 @ U) (T1 @ [p]) ?rc (\<lambda>q. if q \<in> set U then 0 else 1)"
      using okw_ex [OF move_to_tmp [OF s2]] by blast
    have "dec c rt3 A1 U (T1 @ [p]) ?rc" using 3(2) a1 True by (simp add: dec_def)
    moreover have "set A1 \<union> set (T1 @ [p]) = insert p (set A \<union> set T)" using 1(3) by auto
    ultimately have "\<exists>A' T'. dec c rt3 A' U T' ?rc \<and> set A' \<union> set T' = insert p (set A \<union> set T)" by blast
    moreover have "gc_decref_step rt p = Some rt3" unfolding run if_P [OF True] by (rule 3(1))
    ultimately show ?thesis by (simp only: okw_Some)
  next
    case False
    have "\<forall>q \<in> set (A1 @ [p]). 0 < ?rc q" using a1(1) False nn by auto
    then have "dec c ?rt2 (A1 @ [p]) U T1 ?rc" using s2 a1(2) by (simp add: dec_def)
    moreover have "set (A1 @ [p]) \<union> set T1 = insert p (set A \<union> set T)" using 1(3) by auto
    ultimately have "\<exists>A' T'. dec c ?rt2 A' U T' ?rc \<and> set A' \<union> set T' = insert p (set A \<union> set T)" by blast
    moreover have "gc_decref_step rt p = Some ?rt2" unfolding run if_not_P [OF False] ..
    ultimately show ?thesis by (simp only: okw_Some)
  qed
qed

text \<open>What the collector assumes of the graph: children are nodes.\<close>

definition graph_ok :: "gc_env \<Rightarrow> addr set \<Rightarrow> bool" where
  "graph_ok c N \<longleftrightarrow> finite N \<and> (\<forall>p \<in> N. \<exists>b. snd (snd c) p = Some b \<and> children b = Some (kids (snd (snd c)) p)) \<and>
     (\<forall>p \<in> N. set (kids (snd (snd c)) p) \<subseteq> N)"

lemma gc_state_body: "gc_state c rt G T rc mk \<Longrightarrow> body rt = snd (snd c) \<and> gc_obj_list rt = fst c \<and> tmp_obj_list rt = fst (snd c)"
  by (auto simp: gc_state_def split: prod.splits)

lemma gc_state_lists: "gc_state c rt G T rc mk \<Longrightarrow> ilist (links rt) (fst c) G \<and> ilist (links rt) (fst (snd c)) T"
  by (auto simp: gc_state_def split: prod.splits)

lemma gc_decref_loop_ok:
  assumes g: "graph_ok c N" and e: "\<forall>q. 0 \<le> e q"
  shows "dec c rt A U T (\<lambda>q. e q + refs (kids (snd (snd c))) (set U) q) \<Longrightarrow> set A \<union> set U \<union> set T = N \<Longrightarrow>
    el = hd (U @ [fst c]) \<Longrightarrow> (U \<noteq> [] \<longrightarrow> el1 = hd (tl U @ [fst c])) \<Longrightarrow>
    okw (gc_decref_loop el el1 rt) (\<lambda>rt'. \<exists>A' T'. dec c rt' A' [] T' e \<and> set A' \<union> set T' = N)"
proof (induction U arbitrary: rt A T el el1)
  case Nil
  then have "gc_state c rt A T e (\<lambda>q. 1)" "el = fst c" by (simp_all add: dec_def)
  then have "gc_obj_list rt = el" using gc_state_body [of c rt A T e] by simp
  then have "gc_decref_loop el el1 rt = Some rt" by (simp add: gc_decref_loop.simps)
  moreover have "set A \<union> set T = N" using Nil.prems(2) by simp
  ultimately show ?case using Nil.prems(1) by auto
next
  case (Cons p U)
  let ?K = "kids (snd (snd c))"
  have s: "gc_state c rt (A @ p # U) T (\<lambda>q. e q + refs ?K (set (p # U)) q) (\<lambda>q. if q \<in> set (p # U) then 0 else 1)"
    using Cons.prems(1) by (simp add: dec_def)
  have dist: "p \<notin> set U" "p \<noteq> fst c" using gc_state_lists [OF s] by (auto simp: ilist_def)
  have pN: "p \<in> N" using Cons.prems(2) by auto
  obtain b where b: "body rt p = Some b" "children b = Some (?K p)"
    using g pN gc_state_body [OF s] by (auto simp: graph_ok_def)
  have rf: "refs ?K (insert p (set U)) q = int (count_list (?K p) q) + refs ?K (set U) q" for q
    using dist(1) by (simp add: refs_insert)
  have sub: "set (?K p) \<subseteq> set A \<union> set (p # U) \<union> set T" using g pN Cons.prems(2) by (auto simp: graph_ok_def)
  have "\<forall>q \<in> set (?K p). int (count_list (?K p) q) \<le> e q + refs ?K (set (p # U)) q"
    "0 \<le> e p + refs ?K (set (p # U)) p - int (count_list (?K p) p)"
    using e refs_nonneg [of ?K "set U"] by (simp_all add: rf)
  from okw_ex [OF gc_decref_step_ok [OF Cons.prems(1) b sub this]]
  obtain rt1 A1 T1 where 1: "gc_decref_step rt p = Some rt1"
    "dec c rt1 A1 U T1 (\<lambda>q. e q + refs ?K (set (p # U)) q - int (count_list (?K p) q))"
    "set A1 \<union> set T1 = insert p (set A \<union> set T)" by blast
  have d1: "dec c rt1 A1 U T1 (\<lambda>q. e q + refs ?K (set U) q)" using 1(2) by (simp add: rf)
  then have s1: "gc_state c rt1 (A1 @ U) T1 (\<lambda>q. e q + refs ?K (set U) q) (\<lambda>q. if q \<in> set U then 0 else 1)" by (simp add: dec_def)
  have el: "el = p" "el1 = hd (U @ [fst c])" using Cons.prems(3,4) by simp_all
  have "\<exists>n. get_next (links rt1) el1 = Some n \<and> (U \<noteq> [] \<longrightarrow> n = hd (tl U @ [fst c]))"
  proof (cases U)
    case Nil
    then have "el1 = fst c" using el(2) by simp
    then show ?thesis using ilist_dom [OF conjunct1 [OF gc_state_lists [OF s1]], of el1] Nil by (auto simp: get_next_def)
  next
    case (Cons u U')
    then have "ilist (links rt1) (fst c) (A1 @ u # U')" "el1 = u" using gc_state_lists [OF s1] el(2) by simp_all
    then show ?thesis using ilist_next [of "links rt1" "fst c" A1 u U'] Cons by (cases U') auto
  qed
  then obtain n where n: "get_next (links rt1) el1 = Some n" "U \<noteq> [] \<longrightarrow> n = hd (tl U @ [fst c])" by blast
  have "set A1 \<union> set U \<union> set T1 = N" using 1(3) Cons.prems(2) by auto
  from Cons.IH [OF d1 this el(2) n(2)]
  show ?case using 1(1) n(1) el(1) dist(2) gc_state_body [OF s]
    by (subst gc_decref_loop.simps) simp
qed

section \<open>The scan\<close>

text \<open>\<open>P\<close> was scanned, \<open>R\<close> is still to be scanned, \<open>T\<close> is garbage as far as known.\<close>

definition scan :: "gc_env \<Rightarrow> gc_rt \<Rightarrow> addr list \<Rightarrow> addr list \<Rightarrow> addr list \<Rightarrow> (addr \<Rightarrow> int) \<Rightarrow> bool" where
  "scan c rt P R T rc \<longleftrightarrow> (\<exists>mk. gc_state c rt (P @ R) T rc mk \<and> (\<forall>p \<in> set P. mk p = 0)) \<and>
     (\<forall>p \<in> set P \<union> set R. 0 < rc p) \<and> (\<forall>p \<in> set T. rc p = 0)"

lemma gc_scan_incref_child_ok:
  assumes s: "scan c rt P R T rc" and q: "q \<in> set P \<union> set R \<union> set T"
  shows "okw (gc_scan_incref_child rt q) (\<lambda>rt'. \<exists>R' T'. scan c rt' P R' T' (rc(q := rc q + 1)) \<and>
    set R \<subseteq> set R' \<and> set R' \<subseteq> insert q (set R) \<and> q \<in> set P \<union> set R' \<and> set R' \<union> set T' = set R \<union> set T)"
proof -
  let ?rc = "rc(q := rc q + 1)"
  obtain mk where g: "gc_state c rt (P @ R) T rc mk" "\<forall>p \<in> set P. mk p = 0"
    and a: "\<forall>p \<in> set P \<union> set R. 0 < rc p" "\<forall>p \<in> set T. rc p = 0"
    using s by (auto simp: scan_def)
  have qn: "q \<in> set (P @ R) \<union> set T" using q by auto
  have h: "hdr rt q = Some \<lparr>ref_count = rc q, gmark = mk q\<rparr>" by (rule gc_state_hdr [OF g(1) qn])
  let ?rt = "set_hdr rt q \<lparr>ref_count = rc q + 1, gmark = mk q\<rparr>"
  have g1: "gc_state c ?rt (P @ R) T ?rc mk"
    using gc_state_set_hdr [OF g(1) qn, of "rc q + 1" "mk q"] by simp
  note ds = gc_state_distinct [OF g(1)]
  show ?thesis
  proof (cases "rc q = 0")
    case True
    then have "q \<notin> set P \<union> set R" using a(1) [rule_format, of q] by linarith
    then have qT: "q \<in> set T" "q \<notin> set P" "q \<notin> set R" using q by auto
    then obtain us vs where T: "T = us @ q # vs" by (meson split_list)
    have g2: "gc_state c ?rt (P @ R) (us @ q # vs) ?rc mk" using g1 unfolding T .
    obtain rt1 where 1: "move_tail ?rt q (gc_obj_list rt) = Some rt1" "gc_state c rt1 ((P @ R) @ [q]) (us @ vs) ?rc mk"
      using okw_ex [OF move_to_gc [OF g2]] by auto
    let ?rt2 = "set_hdr rt1 q \<lparr>ref_count = rc q + 1, gmark = 0\<rparr>"
    have "gc_state c ?rt2 ((P @ R) @ [q]) (us @ vs) (?rc(q := rc q + 1)) (mk(q := 0))"
      by (rule gc_state_set_hdr [OF 1(2)]) simp
    then have "gc_state c ?rt2 (P @ (R @ [q])) (us @ vs) ?rc (mk(q := 0))" by simp
    moreover have "\<forall>p \<in> set P. (mk(q := 0)) p = 0" using g(2) by simp
    moreover have "\<forall>p \<in> set P \<union> set (R @ [q]). 0 < ?rc p" using a(1) True by auto
    moreover have "\<forall>p \<in> set (us @ vs). ?rc p = 0" using a(2) ds T by auto
    ultimately have "scan c ?rt2 P (R @ [q]) (us @ vs) ?rc" unfolding scan_def by blast
    moreover have "set (R @ [q]) \<union> set (us @ vs) = set R \<union> set T" using T by auto
    moreover have "set R \<subseteq> set (R @ [q])" "set (R @ [q]) \<subseteq> insert q (set R)" "q \<in> set P \<union> set (R @ [q])" by auto
    ultimately have "\<exists>R' T'. scan c ?rt2 P R' T' ?rc \<and> set R \<subseteq> set R' \<and> set R' \<subseteq> insert q (set R) \<and>
        q \<in> set P \<union> set R' \<and> set R' \<union> set T' = set R \<union> set T" by blast
    moreover have "gc_scan_incref_child rt q = Some ?rt2"
      using True h 1(1) by (simp add: gc_scan_incref_child_def Let_def)
    ultimately show ?thesis by (simp only: okw_Some)
  next
    case False
    then have "q \<notin> set T" using a(2) by auto
    have "0 < ?rc p" if "p \<in> set P \<union> set R" for p using a(1) [rule_format, OF that] by (cases "p = q") auto
    then have "scan c ?rt P R T ?rc" using g1 g(2) a(2) \<open>q \<notin> set T\<close> unfolding scan_def by auto
    moreover have "q \<in> set P \<union> set R" using qn \<open>q \<notin> set T\<close> by auto
    ultimately have "\<exists>R' T'. scan c ?rt P R' T' ?rc \<and> set R \<subseteq> set R' \<and> set R' \<subseteq> insert q (set R) \<and>
        q \<in> set P \<union> set R' \<and> set R' \<union> set T' = set R \<union> set T" by blast
    moreover have "gc_scan_incref_child rt q = Some ?rt"
      using False h by (simp add: gc_scan_incref_child_def Let_def)
    ultimately show ?thesis by (simp only: okw_Some)
  qed
qed

lemma scan_mark_all_ok:
  "scan c rt P R T rc \<Longrightarrow> set cs \<subseteq> set P \<union> set R \<union> set T \<Longrightarrow>
   okw (mark_all gc_scan_incref_child cs rt) (\<lambda>rt'. \<exists>R' T'. scan c rt' P R' T' (\<lambda>q. rc q + int (count_list cs q)) \<and>
     set R \<subseteq> set R' \<and> set R' \<subseteq> set R \<union> set cs \<and> set cs \<subseteq> set P \<union> set R' \<and> set R' \<union> set T' = set R \<union> set T)"
proof (induction cs arbitrary: rt R T rc)
  case Nil
  then show ?case by auto
next
  case (Cons q cs)
  obtain rt1 R1 T1 where 1: "gc_scan_incref_child rt q = Some rt1" "scan c rt1 P R1 T1 (rc(q := rc q + 1))"
    "set R \<subseteq> set R1" "set R1 \<subseteq> insert q (set R)" "q \<in> set P \<union> set R1" "set R1 \<union> set T1 = set R \<union> set T"
    using okw_ex [OF gc_scan_incref_child_ok [OF Cons.prems(1), of q]] Cons.prems(2) by auto
  have "set cs \<subseteq> set P \<union> set R1 \<union> set T1" using Cons.prems(2) 1(6) by auto
  from okw_ex [OF Cons.IH [OF 1(2) this]]
  obtain rt2 R2 T2 where 2: "mark_all gc_scan_incref_child cs rt1 = Some rt2"
    "scan c rt2 P R2 T2 (\<lambda>p. (rc(q := rc q + 1)) p + int (count_list cs p))" "set R1 \<subseteq> set R2" "set R2 \<subseteq> set R1 \<union> set cs"
    "set cs \<subseteq> set P \<union> set R2" "set R2 \<union> set T2 = set R1 \<union> set T1" by blast
  have "(\<lambda>p. (rc(q := rc q + 1)) p + int (count_list cs p)) = (\<lambda>p. rc p + int (count_list (q # cs) p))"
    by (auto simp: fun_eq_iff)
  then have "scan c rt2 P R2 T2 (\<lambda>p. rc p + int (count_list (q # cs) p))" using 2(2) by simp
  moreover have "set R \<subseteq> set R2" "set R2 \<subseteq> set R \<union> set (q # cs)" "set (q # cs) \<subseteq> set P \<union> set R2" "set R2 \<union> set T2 = set R \<union> set T"
    using 1(3-6) 2(3-6) by auto
  ultimately have "\<exists>R' T'. scan c rt2 P R' T' (\<lambda>p. rc p + int (count_list (q # cs) p)) \<and> set R \<subseteq> set R' \<and>
      set R' \<subseteq> set R \<union> set (q # cs) \<and> set (q # cs) \<subseteq> set P \<union> set R' \<and> set R' \<union> set T' = set R \<union> set T" by blast
  moreover have "mark_all gc_scan_incref_child (q # cs) rt = Some rt2" using 1(1) 2(1) by simp
  ultimately show ?case by (simp only: okw_Some)
qed

lemma gc_scan_step_ok:
  assumes s: "scan c rt P (p # R) T rc" and b: "body rt p = Some b" "children b = Some cs"
    and cs: "set cs \<subseteq> set P \<union> set (p # R) \<union> set T"
  shows "okw (gc_scan_step rt p) (\<lambda>rt'. \<exists>R' T'. scan c rt' (P @ [p]) R' T' (\<lambda>q. rc q + int (count_list cs q)) \<and>
    set R \<subseteq> set R' \<and> set R' \<subseteq> set R \<union> set cs \<and> set cs \<subseteq> insert p (set P) \<union> set R' \<and> set R' \<union> set T' = set R \<union> set T)"
proof -
  obtain mk where g: "gc_state c rt (P @ p # R) T rc mk" "\<forall>q \<in> set P. mk q = 0"
    and a: "\<forall>q \<in> set P \<union> set (p # R). 0 < rc q" "\<forall>q \<in> set T. rc q = 0"
    using s by (auto simp: scan_def)
  have h: "hdr rt p = Some \<lparr>ref_count = rc p, gmark = mk p\<rparr>" using gc_state_hdr [OF g(1), of p] by simp
  let ?rt = "set_hdr rt p \<lparr>ref_count = rc p, gmark = 0\<rparr>"
  have "gc_state c ?rt (P @ p # R) T (rc(p := rc p)) (mk(p := 0))" by (rule gc_state_set_hdr [OF g(1)]) simp
  then have "gc_state c ?rt ((P @ [p]) @ R) T rc (mk(p := 0))" by simp
  moreover have "\<forall>q \<in> set (P @ [p]). (mk(p := 0)) q = 0" using g(2) by simp
  moreover have "\<forall>q \<in> set (P @ [p]) \<union> set R. 0 < rc q" using a(1) by auto
  ultimately have s1: "scan c ?rt (P @ [p]) R T rc" using a(2) unfolding scan_def by blast
  have "okw (mark_all gc_scan_incref_child cs ?rt) (\<lambda>rt'. \<exists>R' T'. scan c rt' (P @ [p]) R' T' (\<lambda>q. rc q + int (count_list cs q)) \<and>
     set R \<subseteq> set R' \<and> set R' \<subseteq> set R \<union> set cs \<and> set cs \<subseteq> set (P @ [p]) \<union> set R' \<and> set R' \<union> set T' = set R \<union> set T)"
    by (rule scan_mark_all_ok [OF s1]) (use cs in auto)
  then show ?thesis using h b a(1) by (simp add: gc_scan_step_def mark_children_def Un_assoc)
qed

lemma gc_scan_loop_ok:
  assumes g: "graph_ok c N" and e: "\<forall>q. 0 \<le> e q"
  shows "scan c rt P R T (\<lambda>q. e q + refs (kids (snd (snd c))) (set P) q) \<Longrightarrow> set P \<union> set R \<union> set T = N \<Longrightarrow>
    (\<forall>p \<in> set P. set (kids (snd (snd c)) p) \<subseteq> set P \<union> set R) \<Longrightarrow>
    (\<forall>p \<in> set P \<union> set R. live_obj (kids (snd (snd c))) e N p) \<Longrightarrow> el = hd (R @ [fst c]) \<Longrightarrow>
    okw (gc_scan_loop el rt) (\<lambda>rt'. \<exists>P' T'. scan c rt' P' [] T' (\<lambda>q. e q + refs (kids (snd (snd c))) (set P') q) \<and>
      set P' \<union> set T' = N \<and> (\<forall>p \<in> set P'. set (kids (snd (snd c)) p) \<subseteq> set P') \<and>
      (\<forall>p \<in> set P'. live_obj (kids (snd (snd c))) e N p))"
proof (induction "card (N - set P)" arbitrary: rt P R T el rule: less_induct)
  case less
  let ?K = "kids (snd (snd c))"
  note prems = less.prems
  obtain mk where s: "gc_state c rt (P @ R) T (\<lambda>q. e q + refs ?K (set P) q) mk" using prems(1) by (auto simp: scan_def)
  show ?case
  proof (cases R)
    case Nil
    then have "gc_obj_list rt = el" using gc_state_body [OF s] prems(5) by simp
    then have "gc_scan_loop el rt = Some rt" by (simp add: gc_scan_loop.simps)
    then show ?thesis using prems(1-4) Nil by auto
  next
    case (Cons p R0)
    have s': "gc_state c rt (P @ p # R0) T (\<lambda>q. e q + refs ?K (set P) q) mk" using s unfolding Cons .
    have pN: "p \<in> N" and el: "el = p" using prems(2,5) Cons by auto
    have dist: "p \<notin> set P" "p \<noteq> fst c" using gc_state_lists [OF s'] by (auto simp: ilist_def)
    obtain b where b: "body rt p = Some b" "children b = Some (?K p)"
      using g pN gc_state_body [OF s] by (auto simp: graph_ok_def)
    have sub: "set (?K p) \<subseteq> set P \<union> set (p # R0) \<union> set T" using g pN prems(2) Cons by (auto simp: graph_ok_def)
    obtain rt1 R1 T1 where 1: "gc_scan_step rt p = Some rt1"
      "scan c rt1 (P @ [p]) R1 T1 (\<lambda>q. e q + refs ?K (set P) q + int (count_list (?K p) q))"
      "set R0 \<subseteq> set R1" "set R1 \<subseteq> set R0 \<union> set (?K p)" "set (?K p) \<subseteq> insert p (set P) \<union> set R1" "set R1 \<union> set T1 = set R0 \<union> set T"
      using okw_ex [OF gc_scan_step_ok [OF _ b sub]] prems(1) unfolding Cons by blast
    have rf: "e q + refs ?K (set P) q + int (count_list (?K p) q) = e q + refs ?K (set (P @ [p])) q" for q
      using dist(1) by (simp add: refs_insert)
    have sc1: "scan c rt1 (P @ [p]) R1 T1 (\<lambda>q. e q + refs ?K (set (P @ [p])) q)" using 1(2) unfolding rf .
    then obtain mk1 where s1: "gc_state c rt1 (P @ p # R1) T1 (\<lambda>q. e q + refs ?K (set (P @ [p])) q) mk1" by (auto simp: scan_def)
    have n: "get_next (links rt1) p = Some (hd (R1 @ [fst c]))"
      using ilist_next [OF conjunct1 [OF gc_state_lists [OF s1]]] by (cases R1) auto
    have "card (N - set (P @ [p])) < card (N - set P)"
      by (rule psubset_card_mono) (use g pN dist(1) in \<open>auto simp: graph_ok_def\<close>)
    moreover have "set (P @ [p]) \<union> set R1 \<union> set T1 = N" using 1(6) prems(2) Cons by auto
    moreover have "\<forall>x \<in> set (P @ [p]). set (?K x) \<subseteq> set (P @ [p]) \<union> set R1" using prems(3) 1(3,5) Cons by auto
    moreover have "\<forall>x \<in> set (P @ [p]) \<union> set R1. live_obj ?K e N x"
      using prems(4) 1(4) Cons live_obj.child [of ?K e N p] by auto
    ultimately have "okw (gc_scan_loop (hd (R1 @ [fst c])) rt1) (\<lambda>rt'. \<exists>P' T'. scan c rt' P' [] T' (\<lambda>q. e q + refs ?K (set P') q) \<and>
      set P' \<union> set T' = N \<and> (\<forall>p \<in> set P'. set (?K p) \<subseteq> set P') \<and> (\<forall>p \<in> set P'. live_obj ?K e N p))"
      using less.hyps [OF _ sc1 _ _ _ refl] by blast
    moreover have "gc_scan_loop el rt = gc_scan_loop (hd (R1 @ [fst c])) rt1"
      using 1(1) n el dist(2) gc_state_body [OF s] by (subst gc_scan_loop.simps) simp
    ultimately show ?thesis by simp
  qed
qed

section \<open>Restoring the counts\<close>

lemma restore_mark_all_ok:
  "gc_state c rt G T rc mk \<Longrightarrow> set cs \<subseteq> set G \<union> set T \<Longrightarrow>
   okw (mark_all gc_scan_incref_child2 cs rt) (\<lambda>rt'. gc_state c rt' G T (\<lambda>q. rc q + int (count_list cs q)) mk)"
proof (induction cs arbitrary: rt rc)
  case (Cons q cs)
  have q: "q \<in> set G \<union> set T" using Cons.prems(2) by auto
  have h: "hdr rt q = Some \<lparr>ref_count = rc q, gmark = mk q\<rparr>" by (rule gc_state_hdr [OF Cons.prems(1) q])
  have "gc_state c (set_hdr rt q \<lparr>ref_count = rc q + 1, gmark = mk q\<rparr>) G T (rc(q := rc q + 1)) mk"
    using gc_state_set_hdr [OF Cons.prems(1) q, of "rc q + 1" "mk q"] by simp
  then have "okw (mark_all gc_scan_incref_child2 cs (set_hdr rt q \<lparr>ref_count = rc q + 1, gmark = mk q\<rparr>))
      (\<lambda>rt'. gc_state c rt' G T (\<lambda>p. (rc(q := rc q + 1)) p + int (count_list cs p)) mk)"
    by (rule Cons.IH) (use Cons.prems(2) in simp)
  moreover have "(\<lambda>p. (rc(q := rc q + 1)) p + int (count_list cs p)) = (\<lambda>p. rc p + int (count_list (q # cs) p))"
    by (auto simp: fun_eq_iff)
  moreover have "gc_scan_incref_child2 rt q = Some (set_hdr rt q \<lparr>ref_count = rc q + 1, gmark = mk q\<rparr>)"
    using h by (simp add: gc_scan_incref_child2_def)
  ultimately show ?case by simp
qed simp

lemma gc_restore_loop_ok:
  assumes g: "graph_ok c N"
  shows "gc_state c rt G (D @ R) rc mk \<Longrightarrow> set G \<union> set (D @ R) = N \<Longrightarrow> el = hd (R @ [fst (snd c)]) \<Longrightarrow>
    okw (gc_restore_loop el rt) (\<lambda>rt'. gc_state c rt' G (D @ R) (\<lambda>q. rc q + refs (kids (snd (snd c))) (set R) q) mk)"
proof (induction R arbitrary: rt D rc el)
  case Nil
  have "tmp_obj_list rt = el" using gc_state_body [OF Nil.prems(1)] Nil.prems(3) by simp
  then have "gc_restore_loop el rt = Some rt" by (simp add: gc_restore_loop.simps)
  then show ?case using Nil.prems(1) by simp
next
  case (Cons p R)
  let ?K = "kids (snd (snd c))"
  note s = Cons.prems(1)
  have pN: "p \<in> N" and el: "el = p" using Cons.prems(2,3) by auto
  have dist: "p \<notin> set R" "p \<noteq> fst (snd c)" using gc_state_lists [OF s] by (auto simp: ilist_def)
  obtain b where b: "body rt p = Some b" "children b = Some (?K p)"
    using g pN gc_state_body [OF s] by (auto simp: graph_ok_def)
  have "set (?K p) \<subseteq> set G \<union> set (D @ p # R)" using g pN Cons.prems(2) by (auto simp: graph_ok_def)
  from okw_ex [OF restore_mark_all_ok [OF s this]]
  obtain rt1 where 1: "mark_all gc_scan_incref_child2 (?K p) rt = Some rt1"
    "gc_state c rt1 G (D @ p # R) (\<lambda>q. rc q + int (count_list (?K p) q)) mk" by blast
  have n: "get_next (links rt1) p = Some (hd (R @ [fst (snd c)]))"
    using ilist_next [OF conjunct2 [OF gc_state_lists [OF 1(2)]]] by (cases R) auto
  have s1: "gc_state c rt1 G ((D @ [p]) @ R) (\<lambda>q. rc q + int (count_list (?K p) q)) mk" using 1(2) by simp
  have "set G \<union> set ((D @ [p]) @ R) = N" using Cons.prems(2) by simp
  from Cons.IH [OF s1 this refl]
  have "okw (gc_restore_loop (hd (R @ [fst (snd c)])) rt1)
      (\<lambda>rt'. gc_state c rt' G (D @ p # R) (\<lambda>q. rc q + int (count_list (?K p) q) + refs ?K (set R) q) mk)" by simp
  moreover have "(\<lambda>q. rc q + int (count_list (?K p) q) + refs ?K (set R) q) = (\<lambda>q. rc q + refs ?K (set (p # R)) q)"
    using dist(1) by (simp add: refs_insert fun_eq_iff)
  moreover have "gc_restore_loop el rt = gc_restore_loop (hd (R @ [fst (snd c)])) rt1"
    using 1(1) n el dist(2) gc_state_body [OF s] b by (subst gc_restore_loop.simps) (simp add: mark_children_def)
  ultimately show ?case by simp
qed

section \<open>Both passes\<close>

definition external :: "gc_rt \<Rightarrow> addr list \<Rightarrow> addr \<Rightarrow> int" where
  "external rt G p = (case hdr rt p of None \<Rightarrow> 0 | Some h \<Rightarrow> ref_count h - refs (kids (body rt)) (set G) p)"

text \<open>\<open>G\<close> is the list of all objects, none of them marked, and each reference from an object is
  counted.\<close>

definition gc_ready :: "gc_rt \<Rightarrow> addr list \<Rightarrow> bool" where
  "gc_ready rt G \<longleftrightarrow> ilist (links rt) (gc_obj_list rt) G \<and> links rt (tmp_obj_list rt) \<noteq> None \<and>
     tmp_obj_list rt \<notin> set (gc_obj_list rt # G) \<and> graph_ok (gc_obj_list rt, tmp_obj_list rt, body rt) (set G) \<and>
     (\<forall>p \<in> set G. \<exists>h. hdr rt p = Some h \<and> gmark h = 0 \<and> 0 \<le> external rt G p)"

abbreviation gc_live :: "gc_rt \<Rightarrow> addr list \<Rightarrow> addr \<Rightarrow> bool" where
  "gc_live rt G \<equiv> live_obj (kids (body rt)) (external rt G) (set G)"

lemma gc_decref_ok:
  assumes r: "gc_ready rt G"
  shows "okw (gc_decref rt) (\<lambda>rt'. \<exists>A T. dec (gc_obj_list rt, tmp_obj_list rt, body rt) rt' A [] T (\<lambda>q. if q \<in> set G then external rt G q else 0) \<and>
    set A \<union> set T = set G)"
proof -
  let ?gl = "gc_obj_list rt" and ?th = "tmp_obj_list rt" and ?c = "(gc_obj_list rt, tmp_obj_list rt, body rt)"
  let ?K = "kids (body rt)" and ?e = "\<lambda>q. if q \<in> set G then external rt G q else 0"
  have i: "ilist (links rt) ?gl G" "links rt ?th \<noteq> None" "?th \<notin> set (?gl # G)" and g: "graph_ok ?c (set G)"
    and h: "\<forall>p \<in> set G. \<exists>h. hdr rt p = Some h \<and> gmark h = 0 \<and> 0 \<le> external rt G p"
    using r by (auto simp: gc_ready_def)
  obtain l where l: "init_list_head (links rt) ?th = Some l" "ilist l ?th []" "\<forall>q. q \<noteq> ?th \<longrightarrow> l q = links rt q"
    using okw_ex [OF init_list_head_ok [of "links rt" ?th]] i(2) by blast
  have lg: "ilist l ?gl G" by (rule ilist_frame [OF i(1)]) (use i(3) l(3) in force)
  let ?rt = "rt\<lparr>links := l\<rparr>"
  have "hdr rt p = Some \<lparr>ref_count = ?e p + refs ?K (set G) p, gmark = 0\<rparr>" if p: "p \<in> set G" for p
  proof -
    obtain h1 where "hdr rt p = Some h1" "gmark h1 = 0" using h p by blast
    then show ?thesis using p by (cases h1) (simp add: external_def)
  qed
  then have "gc_state ?c ?rt ([] @ G) [] (\<lambda>q. ?e q + refs ?K (set G) q) (\<lambda>p. if p \<in> set G then 0 else 1)"
    using lg l(2) i(3) by (auto simp: gc_state_def)
  then have d: "dec ?c ?rt [] G [] (\<lambda>q. ?e q + refs (kids (snd (snd ?c))) (set G) q)" by (simp add: dec_def)
  have e: "\<forall>q. 0 \<le> ?e q" using h by auto
  obtain el where el: "get_next l ?gl = Some el" "el = hd (G @ [fst ?c])"
    using lg by (cases G) (auto simp: ilist_def)
  have "\<exists>el1. get_next l el = Some el1 \<and> (G \<noteq> [] \<longrightarrow> el1 = hd (tl G @ [fst ?c]))"
  proof (cases G)
    case Nil
    then show ?thesis using el lg by (auto simp: ilist_def)
  next
    case (Cons p G')
    then show ?thesis using ilist_next [of l ?gl "[]" p G'] lg el(2) by (cases G') auto
  qed
  then obtain el1 where el1: "get_next l el = Some el1" "G \<noteq> [] \<longrightarrow> el1 = hd (tl G @ [fst ?c])" by blast
  have "okw (gc_decref_loop el el1 ?rt) (\<lambda>rt'. \<exists>A' T'. dec ?c rt' A' [] T' ?e \<and> set A' \<union> set T' = set G)"
    by (rule gc_decref_loop_ok [OF g e d _ el(2) el1(2)]) simp
  then show ?thesis using l(1) el(1) el1(1) by (simp add: gc_decref_def)
qed

lemma live_obj_in: "live_obj K e N p \<Longrightarrow> (\<forall>p \<in> N. set (K p) \<subseteq> N) \<Longrightarrow> p \<in> N"
  by (induction rule: live_obj.induct) auto

lemma live_obj_closed:
  "live_obj K e N p \<Longrightarrow> (\<And>q. q \<in> N \<Longrightarrow> 0 < e q \<Longrightarrow> q \<in> P) \<Longrightarrow> (\<forall>q \<in> P. set (K q) \<subseteq> P) \<Longrightarrow> p \<in> P"
  by (induction rule: live_obj.induct) auto

lemma live_obj_cong: "(\<And>q. q \<in> N \<Longrightarrow> e q = e' q) \<Longrightarrow> live_obj K e N p \<Longrightarrow> live_obj K e' N p"
proof (rotate_tac, induction rule: live_obj.induct)
  case (root p)
  then show ?case by (auto intro: live_obj.root)
next
  case (child p q)
  then show ?case by (auto intro: live_obj.child)
qed

lemma js_run_gc_passes_ok:
  assumes r: "gc_ready rt G"
  shows "okw (js_run_gc_passes rt) (\<lambda>rt'. \<exists>L T mk. gc_state (gc_obj_list rt, tmp_obj_list rt, body rt) rt' L T
      (\<lambda>p. if p \<in> set G then ref_count (the (hdr rt p)) else refs (kids (body rt)) (set G) p) mk \<and>
    (\<forall>p \<in> set L. mk p = 0) \<and> set L = {p. gc_live rt G p} \<and> set T = set G - set L)"
proof -
  let ?c = "(gc_obj_list rt, tmp_obj_list rt, body rt)" and ?K = "kids (body rt)"
  let ?e = "\<lambda>q. if q \<in> set G then external rt G q else 0"
  have g: "graph_ok ?c (set G)" and h: "\<forall>p \<in> set G. \<exists>h. hdr rt p = Some h \<and> gmark h = 0 \<and> 0 \<le> external rt G p"
    using r by (auto simp: gc_ready_def)
  have e: "\<forall>q. 0 \<le> ?e q" using h by auto
  obtain rt1 A T where 1: "gc_decref rt = Some rt1" "dec ?c rt1 A [] T ?e" "set A \<union> set T = set G"
    using okw_ex [OF gc_decref_ok [OF r]] by blast
  have s1: "gc_state ?c rt1 A T ?e (\<lambda>p. 1)" "\<forall>p \<in> set A. 0 < ?e p" "\<forall>p \<in> set T. ?e p = 0"
    using 1(2) by (auto simp: dec_def)
  have "scan ?c rt1 [] A T (\<lambda>q. ?e q + refs (kids (snd (snd ?c))) (set []) q)" using s1 by (auto simp: scan_def)
  moreover have "\<forall>p \<in> set [] \<union> set A. live_obj (kids (snd (snd ?c))) ?e (set G) p"
    using s1(2) 1(3) by (auto intro!: live_obj.root)
  ultimately obtain rt2 P T2 where 2: "gc_scan_loop (hd (A @ [fst ?c])) rt1 = Some rt2"
    "scan ?c rt2 P [] T2 (\<lambda>q. ?e q + refs ?K (set P) q)" "set P \<union> set T2 = set G" "\<forall>p \<in> set P. set (?K p) \<subseteq> set P"
    "\<forall>p \<in> set P. live_obj ?K ?e (set G) p"
    using okw_ex [OF gc_scan_loop_ok [OF g e, of rt1 "[]" A T, OF _ _ _ _ refl]] 1(3) by auto
  obtain mk where s2: "gc_state ?c rt2 P T2 (\<lambda>q. ?e q + refs ?K (set P) q) mk" "\<forall>p \<in> set P. mk p = 0"
    "\<forall>p \<in> set T2. ?e p + refs ?K (set P) p = 0"
    using 2(2) by (auto simp: scan_def)
  note ds = gc_state_distinct [OF s2(1)]
  have rel: "get_next (links rt1) (gc_obj_list rt1) = Some (hd (A @ [fst ?c]))"
    using gc_state_lists [OF s1(1)] gc_state_body [OF s1(1)] by (cases A) (auto simp: ilist_def)
  have tel: "get_next (links rt2) (tmp_obj_list rt2) = Some (hd (T2 @ [fst (snd ?c)]))"
    using gc_state_lists [OF s2(1)] gc_state_body [OF s2(1)] by (cases T2) (auto simp: ilist_def)
  have "set P \<union> set ([] @ T2) = set G" "gc_state ?c rt2 P ([] @ T2) (\<lambda>q. ?e q + refs ?K (set P) q) mk" using 2(3) s2(1) by simp_all
  from okw_ex [OF gc_restore_loop_ok [OF g this(2,1) refl]]
  obtain rt3 where 3: "gc_restore_loop (hd (T2 @ [fst (snd ?c)])) rt2 = Some rt3"
    "gc_state ?c rt3 P T2 (\<lambda>q. ?e q + refs ?K (set P) q + refs ?K (set T2) q) mk" by auto
  have run: "js_run_gc_passes rt = Some rt3"
    using 1(1) 2(1) 3(1) rel tel by (simp add: js_run_gc_passes_def gc_scan_def)
  have "refs ?K (set G) q = refs ?K (set P) q + refs ?K (set T2) q" for q
    unfolding 2(3) [symmetric] by (rule refs_union) (use ds in auto)
  then have "?e q + refs ?K (set P) q + refs ?K (set T2) q =
      (if q \<in> set G then ref_count (the (hdr rt q)) else refs ?K (set G) q)" for q
    using h by (auto simp: external_def)
  then have s3: "gc_state ?c rt3 P T2 (\<lambda>p. if p \<in> set G then ref_count (the (hdr rt p)) else refs ?K (set G) p) mk"
    using 3(2) by simp
  have "p \<in> set P \<longleftrightarrow> gc_live rt G p" for p
  proof
    assume "p \<in> set P"
    then have "live_obj ?K ?e (set G) p" using 2(5) by blast
    then show "gc_live rt G p" by (rule live_obj_cong [rotated]) simp
  next
    assume "gc_live rt G p"
    then show "p \<in> set P"
    proof (rule live_obj_closed)
      fix q
      assume q: "q \<in> set G" "0 < external rt G q"
      then have "\<not> ?e q + refs ?K (set P) q = 0" using refs_nonneg [of ?K "set P" q] by simp
      then show "q \<in> set P" using s2(3) 2(3) q(1) by blast
    qed (rule 2(4))
  qed
  then have "set P = {p. gc_live rt G p}" "set T2 = set G - set P" using 2(3) ds by auto
  then show ?thesis unfolding run okw_Some using s3 s2(2) by blast
qed

end
