(* ===== verification/Gc_Theorems.thy ===== *)
theory Gc_Theorems
  imports Gc_Spec
begin

text \<open>The theorems on the intrusive lists and on the collector.\<close>

section \<open>Lists\<close>

text \<open>C37: The operations of \<open>list.h\<close> on a circular list with the elements \<open>xs\<close> do what they say on
  \<open>xs\<close>, in both directions of the links: testing for emptiness, adding at either end and removing
  an element wherever it stands; no other link changes, so lists without a common node do not disturb
  each other.\<close>

theorem list_operations_refine:
  assumes "ilist h head xs" and "ilist h other ys" and "set (head # xs) \<inter> set (other # ys) = {}"
    and "el \<notin> set (head # xs) \<union> set (other # ys)" and "h el \<noteq> None"
  shows "list_empty h head = Some (xs = []) \<and>
    (\<exists>h'. list_add_tail h el head = Some h' \<and> ilist h' head (xs @ [el]) \<and> ilist h' other ys) \<and>
    (\<exists>h'. list_add h el head = Some h' \<and> ilist h' head (el # xs) \<and> ilist h' other ys) \<and>
    (\<forall>x \<in> set xs. \<exists>h'. list_del h x = Some h' \<and> ilist h' head (remove1 x xs) \<and> ilist h' other ys)"
proof -
  have e: "el \<noteq> head" "el \<notin> set xs" using assms(4) by auto
  have f: "ilist h' other ys" if "moved h h' (insert head (insert el (set xs)))" for h'
    by (rule ilist_frame [OF assms(2)]) (use that assms(3,4) in \<open>auto simp: moved_def\<close>)
  have "\<exists>h'. list_del h x = Some h' \<and> ilist h' head (remove1 x xs) \<and> ilist h' other ys" if x: "x \<in> set xs" for x
  proof -
    obtain us vs where xs: "xs = us @ x # vs" "x \<notin> set us" using x by (meson split_list_first)
    obtain h' where h': "list_del h x = Some h'" "ilist h' head (us @ vs)" "moved h h' (insert head (insert x (set us \<union> set vs)))"
      using okw_ex [OF list_del_ok [OF assms(1) [unfolded xs(1)]]] by blast
    have "ilist h' other ys"
      by (rule ilist_frame [OF assms(2)]) (use h'(3) assms(3) xs(1) in \<open>auto simp: moved_def\<close>)
    then show ?thesis using h'(1,2) xs by (simp add: remove1_append)
  qed
  then show ?thesis
    using ilist_empty [OF assms(1)] okw_ex [OF list_add_tail_ok [OF assms(1) e assms(5)]]
      okw_ex [OF list_add_ok [OF assms(1) e assms(5)]] f by blast
qed

definition ex_links :: links where
  "ex_links = [1 \<mapsto> \<lparr>lprev = 3, lnext = 3\<rparr>, 3 \<mapsto> \<lparr>lprev = 1, lnext = 1\<rparr>, 2 \<mapsto> \<lparr>lprev = 2, lnext = 2\<rparr>, 4 \<mapsto> \<lparr>lprev = 0, lnext = 0\<rparr>]"

theorem list_operations_refine_witness:
  "list_empty ex_links 1 = Some False \<and> (\<exists>h'. list_del ex_links 3 = Some h' \<and> ilist h' 1 [] \<and> ilist h' 2 [])"
proof -
  have a: "ilist ex_links 1 [3]" "ilist ex_links 2 []" "set [1, 3] \<inter> set [2 :: addr] = {}"
    "4 \<notin> set [1, 3 :: addr] \<union> set [2]" "ex_links 4 \<noteq> None"
    by (simp_all add: ilist_def ex_links_def get_next_def get_prev_def)
  show ?thesis using list_operations_refine [OF a] by simp
qed

section \<open>The collector\<close>

text \<open>C11: The two passes of the collector end and never fail an assertion, whatever the graph of
  objects, self references and shared children included. Afterwards \<open>gc_obj_list\<close> holds exactly the
  objects that some reference from outside the heap reaches, \<open>tmp_obj_list\<close> all the others, every
  reference count has its old value again, and the marks of the survivors are cleared for the next
  run.\<close>

theorem run_gc_passes_exact:
  assumes "gc_ready rt G"
  shows "\<exists>rt' L T. js_run_gc_passes rt = Some rt' \<and> ilist (links rt') (gc_obj_list rt') L \<and> ilist (links rt') (tmp_obj_list rt') T \<and>
    set L = {p. gc_live rt G p} \<and> set T = set G - set L \<and>
    (\<forall>p \<in> set G. map_option ref_count (hdr rt' p) = map_option ref_count (hdr rt p)) \<and>
    (\<forall>p \<in> set L. map_option gmark (hdr rt' p) = Some 0)"
proof -
  let ?rc = "\<lambda>p. if p \<in> set G then ref_count (the (hdr rt p)) else refs (kids (body rt)) (set G) p"
  obtain rt' L T mk where 1: "js_run_gc_passes rt = Some rt'" "gc_state (gc_obj_list rt, tmp_obj_list rt, body rt) rt' L T ?rc mk"
    "\<forall>p \<in> set L. mk p = 0" "set L = {p. gc_live rt G p}" "set T = set G - set L"
    using okw_ex [OF js_run_gc_passes_ok [OF assms]] by blast
  have "ilist (links rt') (gc_obj_list rt') L" "ilist (links rt') (tmp_obj_list rt') T"
    using gc_state_lists [OF 1(2)] gc_state_body [OF 1(2)] by simp_all
  moreover have "map_option ref_count (hdr rt' p) = map_option ref_count (hdr rt p)" if p: "p \<in> set G" for p
  proof -
    obtain h where "hdr rt p = Some h" using assms p by (auto simp: gc_ready_def)
    moreover have "p \<in> set L \<union> set T" using p 1(5) by auto
    ultimately show ?thesis using gc_state_hdr [OF 1(2), of p] p by simp
  qed
  moreover have "map_option gmark (hdr rt' p) = Some 0" if "p \<in> set L" for p
    using gc_state_hdr [OF 1(2), of p] 1(3) that by simp
  ultimately show ?thesis using 1(1,4,5) by blast
qed

text \<open>A live object 6 and a dead cycle 3, 4, all with the shape 5.\<close>

definition ex_body :: "addr \<Rightarrow> gc_obj option" where
  "ex_body = [3 \<mapsto> GC_JS_OBJECT 5 [(1, PROP_NORMAL (JS_TAG_OBJECT 4))] [],
     4 \<mapsto> GC_JS_OBJECT 5 [(1, PROP_NORMAL (JS_TAG_OBJECT 3))] [],
     5 \<mapsto> GC_SHAPE 0, 6 \<mapsto> GC_JS_OBJECT 5 [] []]"

definition ex_gc :: gc_rt where
  "ex_gc = \<lparr>hdr = [3 \<mapsto> \<lparr>ref_count = 1, gmark = 0\<rparr>, 4 \<mapsto> \<lparr>ref_count = 1, gmark = 0\<rparr>,
       5 \<mapsto> \<lparr>ref_count = 3, gmark = 0\<rparr>, 6 \<mapsto> \<lparr>ref_count = 1, gmark = 0\<rparr>],
     body = ex_body,
     links = [1 \<mapsto> \<lparr>lprev = 6, lnext = 3\<rparr>, 2 \<mapsto> \<lparr>lprev = 0, lnext = 0\<rparr>, 3 \<mapsto> \<lparr>lprev = 1, lnext = 4\<rparr>,
       4 \<mapsto> \<lparr>lprev = 3, lnext = 5\<rparr>, 5 \<mapsto> \<lparr>lprev = 4, lnext = 6\<rparr>, 6 \<mapsto> \<lparr>lprev = 5, lnext = 1\<rparr>],
     gc_obj_list = 1, tmp_obj_list = 2\<rparr>"

lemma ex_kids: "kids ex_body 3 = [5, 4]" "kids ex_body 4 = [5, 3]" "kids ex_body 5 = []" "kids ex_body 6 = [5]"
  by (simp_all add: kids_def ex_body_def mark_ptr_def)

lemma ex_gc_ready: "gc_ready ex_gc [3, 4, 5, 6]"
proof -
  have "graph_ok (1, 2, ex_body) {3, 4, 5, 6}"
    using ex_kids by (simp add: graph_ok_def) (simp add: ex_body_def kids_def mark_ptr_def)
  moreover have "ilist (links ex_gc) 1 [3, 4, 5, 6]" by (simp add: ilist_def ex_gc_def get_next_def get_prev_def)
  moreover have "external ex_gc [3, 4, 5, 6] 3 = 0" "external ex_gc [3, 4, 5, 6] 4 = 0"
    "external ex_gc [3, 4, 5, 6] 5 = 0" "external ex_gc [3, 4, 5, 6] 6 = 1"
    by (simp_all add: external_def refs_def ex_gc_def ex_kids)
  ultimately show ?thesis by (simp add: gc_ready_def) (simp add: ex_gc_def)
qed

theorem run_gc_passes_exact_witness:
  "\<exists>rt' L T. js_run_gc_passes ex_gc = Some rt' \<and> set L = {p. gc_live ex_gc [3, 4, 5, 6] p} \<and> set T = {3, 4, 5, 6} - set L"
  using run_gc_passes_exact [OF ex_gc_ready] by auto

end
