(* ===== verification/Jobs.thy ===== *)
theory Jobs
  imports Intrusive_List
begin

text \<open>
  The queue of pending jobs (promise reactions) of \<^verbatim>\<open>quickjs.c\<close> and the loop of \<^verbatim>\<open>quickjs-libc.c\<close> that
  runs them, on the intrusive list of \<^verbatim>\<open>list.h\<close>. The C function of a job is a parameter \<open>call\<close>: it
  takes the context, the arguments and the runtime, and may enqueue further jobs. \<open>ran\<close> records
  the jobs in the order in which their functions are called.
\<close>

section \<open>The queue\<close>

record ('f, 'v) job =
  job_ctx :: addr
  job_func :: 'f
  job_argv :: "'v list"

datatype 'v job_result = JOB_EXCEPTION | JOB_VALUE 'v

record ('f, 'v) job_rt =
  jheap :: links
  jobs :: "addr \<Rightarrow> ('f, 'v) job option"
  job_list :: addr
  job_malloc_ok :: "nat \<Rightarrow> bool"
  job_clock :: nat
  job_next :: addr
  value_refs :: "'v \<Rightarrow> int"
  ran :: "('f, 'v) job list"

definition dup_values :: "'v list \<Rightarrow> ('f, 'v) job_rt \<Rightarrow> ('f, 'v) job_rt" where
  "dup_values vs rt = rt\<lparr>value_refs := \<lambda>v. value_refs rt v + int (count_list vs v)\<rparr>"

definition free_values :: "'v list \<Rightarrow> ('f, 'v) job_rt \<Rightarrow> ('f, 'v) job_rt" where
  "free_values vs rt = rt\<lparr>value_refs := \<lambda>v. value_refs rt v - int (count_list vs v)\<rparr>"

definition js_enqueue_job :: "('f, 'v) job_rt \<Rightarrow> addr \<Rightarrow> 'f \<Rightarrow> 'v list \<Rightarrow> (int \<times> ('f, 'v) job_rt) option" where
  "js_enqueue_job rt ctx f argv =
     (if \<not> job_malloc_ok rt (job_clock rt) then Some (- 1, rt\<lparr>job_clock := job_clock rt + 1\<rparr>)
      else do {
        let e = job_next rt;
        let rt = rt\<lparr>job_clock := job_clock rt + 1, job_next := e + 1,
          jheap := (jheap rt)(e \<mapsto> \<lparr>lprev = 0, lnext = 0\<rparr>),
          jobs := (jobs rt)(e \<mapsto> \<lparr>job_ctx = ctx, job_func = f, job_argv = argv\<rparr>)\<rparr>;
        let rt = dup_values argv rt;
        l \<leftarrow> list_add_tail (jheap rt) e (job_list rt);
        Some (0, rt\<lparr>jheap := l\<rparr>)
      })"

definition js_is_job_pending :: "('f, 'v) job_rt \<Rightarrow> bool option" where
  "js_is_job_pending rt = map_option Not (list_empty (jheap rt) (job_list rt))"

type_synonym ('f, 'v) call =
  "'f \<Rightarrow> addr \<Rightarrow> 'v list \<Rightarrow> ('f, 'v) job_rt \<Rightarrow> ('v job_result \<times> ('f, 'v) job_rt) option"

text \<open>The result and \<open>*pctx\<close>.\<close>

definition js_execute_pending_job ::
  "('f, 'v) call \<Rightarrow> ('f, 'v) job_rt \<Rightarrow> (int \<times> addr \<times> ('f, 'v) job_rt) option" where
  "js_execute_pending_job call rt = do {
     empty \<leftarrow> list_empty (jheap rt) (job_list rt);
     if empty then Some (0, 0, rt)
     else do {
       e \<leftarrow> get_next (jheap rt) (job_list rt);
       l \<leftarrow> list_del (jheap rt) e;
       let rt = rt\<lparr>jheap := l\<rparr>;
       j \<leftarrow> jobs rt e;
       (res, rt) \<leftarrow> call (job_func j) (job_ctx j) (job_argv j) (rt\<lparr>ran := ran rt @ [j]\<rparr>);
       j' \<leftarrow> jobs rt e;
       let rt = free_values (job_argv j') rt;
       let ret = (case res of JOB_EXCEPTION \<Rightarrow> - 1 | JOB_VALUE _ \<Rightarrow> 1);
       let rt = (case res of JOB_EXCEPTION \<Rightarrow> rt | JOB_VALUE v \<Rightarrow> free_values [v] rt);
       Some (ret, job_ctx j, rt\<lparr>jobs := (jobs rt)(e := None), jheap := (jheap rt)(e := None)\<rparr>)
     }
   }"

text \<open>The inner loop of \<open>js_std_loop\<close>.\<close>

partial_function (option) pending_jobs_loop ::
  "('f, 'v) call \<Rightarrow> ('f, 'v) job_rt \<Rightarrow> (int \<times> ('f, 'v) job_rt) option" where
  "pending_jobs_loop call rt = do {
     (err, ctx1, rt) \<leftarrow> js_execute_pending_job call rt;
     if err \<le> 0 then Some (err, rt) else pending_jobs_loop call rt
   }"

declare pending_jobs_loop.simps [code]

text \<open>\<open>n\<close> calls, whatever they return.\<close>

fun run_jobs :: "('f, 'v) call \<Rightarrow> nat \<Rightarrow> ('f, 'v) job_rt \<Rightarrow> ('f, 'v) job_rt option" where
  "run_jobs call 0 rt = Some rt"
| "run_jobs call (Suc n) rt = do { (_, _, rt) \<leftarrow> js_execute_pending_job call rt; run_jobs call n rt }"

section \<open>What the queue holds\<close>

definition queue_at :: "('f, 'v) job_rt \<Rightarrow> addr list \<Rightarrow> ('f, 'v) job list \<Rightarrow> bool" where
  "queue_at rt es js \<longleftrightarrow> ilist (jheap rt) (job_list rt) es \<and> map (jobs rt) es = map Some js \<and>
     (\<forall>e. job_next rt \<le> e \<longrightarrow> jheap rt e = None \<and> jobs rt e = None)"

definition queue :: "('f, 'v) job_rt \<Rightarrow> ('f, 'v) job list \<Rightarrow> bool" where
  "queue rt js \<longleftrightarrow> (\<exists>es. queue_at rt es js)"

lemma queue_pending: "queue rt js \<Longrightarrow> js_is_job_pending rt = Some (js \<noteq> [])"
  by (auto simp: queue_def queue_at_def js_is_job_pending_def dest!: ilist_empty)

text \<open>What may happen to the queue while a job runs: jobs are enqueued, no entry is freed and no old
  one comes back.\<close>

definition extends_queue :: "('f, 'v) job_rt \<Rightarrow> ('f, 'v) job_rt \<Rightarrow> ('f, 'v) job list \<Rightarrow> bool" where
  "extends_queue rt rt' ys \<longleftrightarrow>
     (\<forall>es js. queue_at rt es js \<longrightarrow> (\<exists>es'. queue_at rt' es' (js @ ys) \<and> set es' \<inter> dom (jobs rt) \<subseteq> set es)) \<and>
     ran rt' = ran rt \<and> job_list rt' = job_list rt \<and> (\<forall>e j. jobs rt e = Some j \<longrightarrow> jobs rt' e = Some j)"

lemma extends_queue_refl: "extends_queue rt rt []"
  by (auto simp: extends_queue_def)

lemma extends_queue_trans:
  assumes a: "extends_queue rt rt1 ys" and b: "extends_queue rt1 rt2 zs"
  shows "extends_queue rt rt2 (ys @ zs)"
proof -
  have d: "dom (jobs rt) \<subseteq> dom (jobs rt1)" using a unfolding extends_queue_def dom_def by blast
  have "\<exists>es2. queue_at rt2 es2 (js @ ys @ zs) \<and> set es2 \<inter> dom (jobs rt) \<subseteq> set es" if q: "queue_at rt es js" for es js
  proof -
    obtain es1 where 1: "queue_at rt1 es1 (js @ ys)" "set es1 \<inter> dom (jobs rt) \<subseteq> set es"
      using a q unfolding extends_queue_def by blast
    obtain es2 where 2: "queue_at rt2 es2 ((js @ ys) @ zs)" "set es2 \<inter> dom (jobs rt1) \<subseteq> set es1"
      using b 1(1) unfolding extends_queue_def by blast
    have "set es2 \<inter> dom (jobs rt) \<subseteq> set es" using 1(2) 2(2) d by blast
    then show ?thesis using 2(1) by auto
  qed
  then show ?thesis using a b unfolding extends_queue_def by simp
qed

lemma js_enqueue_job_ok:
  assumes q: "queue rt js0"
  shows "okw (js_enqueue_job rt ctx f argv) (\<lambda>(r, rt').
    r = 0 \<and> extends_queue rt rt' [\<lparr>job_ctx = ctx, job_func = f, job_argv = argv\<rparr>] \<or> r = - 1 \<and> extends_queue rt rt' [])"
proof (cases "job_malloc_ok rt (job_clock rt)")
  case False
  then show ?thesis by (auto simp: js_enqueue_job_def extends_queue_def queue_at_def)
next
  case True
  let ?e = "job_next rt" and ?j = "\<lparr>job_ctx = ctx, job_func = f, job_argv = argv\<rparr>"
  let ?h = "(jheap rt)(job_next rt \<mapsto> \<lparr>lprev = 0, lnext = 0\<rparr>)"
  have fr: "\<forall>e. ?e \<le> e \<longrightarrow> jheap rt e = None \<and> jobs rt e = None" using q by (auto simp: queue_def queue_at_def)
  have new: "?e \<noteq> job_list rt \<and> ?e \<notin> set es" if "ilist (jheap rt) (job_list rt) es" for es
    using ilist_dom [OF that, of ?e] fr by auto
  have h: "ilist ?h (job_list rt) es" if "ilist (jheap rt) (job_list rt) es" for es
    by (rule ilist_frame [OF that]) (use new [OF that] in auto)
  have app: "okw (list_add_tail ?h ?e (job_list rt)) (\<lambda>l. ilist l (job_list rt) (es @ [?e]) \<and> dom l = dom ?h)"
    if "ilist (jheap rt) (job_list rt) es" for es
    by (rule okw_mono [OF list_add_tail_ok [OF h [OF that]]]) (use new [OF that] in \<open>auto simp: moved_def\<close>)
  obtain es0 where "ilist (jheap rt) (job_list rt) es0" using q by (auto simp: queue_def queue_at_def)
  from okw_ex [OF app [OF this]] obtain l where l: "list_add_tail ?h ?e (job_list rt) = Some l" "dom l = dom ?h" by blast
  have dl: "l e = None \<longleftrightarrow> ?h e = None" for e using l(2) by (metis domIff)
  let ?rt = "(dup_values argv (rt\<lparr>job_clock := job_clock rt + 1, job_next := ?e + 1, jheap := ?h,
    jobs := (jobs rt)(?e \<mapsto> ?j)\<rparr>))\<lparr>jheap := l\<rparr>"
  have "queue_at ?rt (es @ [?e]) (js @ [?j]) \<and> set (es @ [?e]) \<inter> dom (jobs rt) \<subseteq> set es" if a: "queue_at rt es js" for es js
  proof -
    have i: "ilist (jheap rt) (job_list rt) es" "map (jobs rt) es = map Some js" using a by (auto simp: queue_at_def)
    have "map ((jobs rt)(?e \<mapsto> ?j)) es = map Some js" using i(2) new [OF i(1)] by (metis fun_upd_apply map_cong)
    then show ?thesis using okw_eqD [OF app [OF i(1)] l(1)] dl fr by (auto simp: queue_at_def dup_values_def)
  qed
  then have "\<exists>es'. queue_at ?rt es' (js @ [?j]) \<and> set es' \<inter> dom (jobs rt) \<subseteq> set es" if "queue_at rt es js" for es js
    using that by blast
  moreover have "jobs rt ?e = None" using fr by simp
  then have "\<forall>e j. jobs rt e = Some j \<longrightarrow> jobs ?rt e = Some j" by (auto simp: dup_values_def)
  ultimately have "extends_queue rt ?rt [?j]" unfolding extends_queue_def by (auto simp: dup_values_def)
  moreover have "js_enqueue_job rt ctx f argv = Some (0, ?rt)"
    using True l(1) by (simp add: js_enqueue_job_def Let_def dup_values_def)
  ultimately show ?thesis by simp
qed

section \<open>Functions of jobs\<close>

text \<open>\<open>may_spawn j ys\<close> bounds the jobs that the function of \<open>j\<close> enqueues.\<close>

locale job_functions =
  fixes call :: "('f, 'v) call" and may_spawn :: "('f, 'v) job \<Rightarrow> ('f, 'v) job list \<Rightarrow> bool"
  assumes call_law: "queue rt js \<Longrightarrow> \<exists>res rt' ys. call (job_func j) (job_ctx j) (job_argv j) rt = Some (res, rt') \<and>
    extends_queue rt rt' ys \<and> may_spawn j ys"
begin

text \<open>Everything about one call, with the function's result.\<close>

lemma execute_run:
  assumes q: "queue rt (j # js)"
  shows "\<exists>res rt1 rt2 rt' ys. queue rt1 js \<and> call (job_func j) (job_ctx j) (job_argv j) rt1 = Some (res, rt2) \<and>
    may_spawn j ys \<and> queue rt' (js @ ys) \<and> ran rt' = ran rt @ [j] \<and>
    js_execute_pending_job call rt = Some (case res of JOB_EXCEPTION \<Rightarrow> - 1 | JOB_VALUE _ \<Rightarrow> 1, job_ctx j, rt')"
proof -
  obtain e es where es: "ilist (jheap rt) (job_list rt) (e # es)" "jobs rt e = Some j" "map (jobs rt) es = map Some js"
    and fr: "\<forall>e. job_next rt \<le> e \<longrightarrow> jheap rt e = None \<and> jobs rt e = None"
    using q by (auto simp: queue_def queue_at_def)
  have d: "distinct (job_list rt # e # es)" using es(1) by (simp add: ilist_def)
  obtain l where l: "list_del (jheap rt) e = Some l" "ilist l (job_list rt) es" "dom l = dom (jheap rt)"
    using okw_ex [OF list_del_ok [of "jheap rt" "job_list rt" "[]" e es]] es(1) by (auto simp: moved_def)
  let ?rt1 = "rt\<lparr>jheap := l, ran := ran rt @ [j]\<rparr>"
  have "l x = None \<longleftrightarrow> jheap rt x = None" for x using l(3) by (metis domIff)
  then have q1: "queue_at ?rt1 es js" using l(2) es(3) fr by (simp add: queue_at_def)
  then have "queue ?rt1 js" by (auto simp: queue_def)
  from call_law [OF this] obtain res rt2 ys where
    2: "call (job_func j) (job_ctx j) (job_argv j) ?rt1 = Some (res, rt2)" "extends_queue ?rt1 rt2 ys" "may_spawn j ys" by blast
  obtain es2 where es2: "queue_at rt2 es2 (js @ ys)" "set es2 \<inter> dom (jobs ?rt1) \<subseteq> set es"
    using 2(2) q1 unfolding extends_queue_def by blast
  have je: "jobs rt2 e = Some j" "job_list rt2 = job_list rt" "ran rt2 = ran rt @ [j]" using 2(2) es(2) by (auto simp: extends_queue_def)
  have ne: "e \<notin> set es2" "e \<noteq> job_list rt" using es2(2) d es(2) by auto
  let ?rt3 = "case res of JOB_EXCEPTION \<Rightarrow> free_values (job_argv j) rt2 | JOB_VALUE v \<Rightarrow> free_values [v] (free_values (job_argv j) rt2)"
  let ?rt' = "?rt3\<lparr>jobs := (jobs ?rt3)(e := None), jheap := (jheap ?rt3)(e := None)\<rparr>"
  have r3: "jheap ?rt3 = jheap rt2" "jobs ?rt3 = jobs rt2" "job_list ?rt3 = job_list rt2" "job_next ?rt3 = job_next rt2" "ran ?rt3 = ran rt2"
    by (simp_all add: free_values_def split: job_result.split)
  have "ilist ((jheap rt2)(e := None)) (job_list rt2) es2"
    by (rule ilist_frame [of "jheap rt2"]) (use es2(1) ne je(2) in \<open>auto simp: queue_at_def\<close>)
  moreover have "map ((jobs rt2)(e := None)) es2 = map Some (js @ ys)"
  proof -
    have "map (jobs rt2) es2 = map Some (js @ ys)" using es2(1) by (simp add: queue_at_def)
    then show ?thesis using ne(1) by (metis (no_types, lifting) fun_upd_apply map_cong)
  qed
  ultimately have "queue_at ?rt' es2 (js @ ys)" using es2(1) unfolding queue_at_def by (simp add: r3)
  moreover have "js_execute_pending_job call rt = Some (case res of JOB_EXCEPTION \<Rightarrow> - 1 | JOB_VALUE _ \<Rightarrow> 1, job_ctx j, ?rt')"
  proof -
    have "js_execute_pending_job call rt = do {
       let rt = free_values (job_argv j) rt2;
       let rt = (case res of JOB_EXCEPTION \<Rightarrow> rt | JOB_VALUE v \<Rightarrow> free_values [v] rt);
       Some (case res of JOB_EXCEPTION \<Rightarrow> - 1 | JOB_VALUE _ \<Rightarrow> 1, job_ctx j, rt\<lparr>jobs := (jobs rt)(e := None), jheap := (jheap rt)(e := None)\<rparr>)
     }"
      using ilist_empty [OF es(1)] ilist_first [OF es(1)] l(1) es(2) 2(1) je(1) by (simp add: js_execute_pending_job_def)
    then show ?thesis by (simp add: Let_def)
  qed
  moreover have "ran ?rt' = ran rt @ [j]" using je(3) r3(5) by simp
  ultimately show ?thesis using 2 \<open>queue ?rt1 js\<close> unfolding queue_def by blast
qed

lemma run_jobs_ok:
  "queue rt js \<Longrightarrow> n \<le> length js \<Longrightarrow>
   \<exists>rt' ys. run_jobs call n rt = Some rt' \<and> ran rt' = ran rt @ take n js \<and> queue rt' (drop n js @ ys)"
proof (induction n arbitrary: rt js)
  case 0
  then show ?case by (auto intro!: exI [of _ "[]"])
next
  case (Suc n)
  then obtain j js' where js: "js = j # js'" by (cases js) auto
  obtain r rt1 ys where 1: "js_execute_pending_job call rt = Some (r, job_ctx j, rt1)" "queue rt1 (js' @ ys)" "ran rt1 = ran rt @ [j]"
    using execute_run [of rt j js'] Suc.prems(1) js by blast
  have "n \<le> length (js' @ ys)" "n \<le> length js'" using Suc.prems(2) js by auto
  with Suc.IH [OF 1(2)] obtain rt' zs where
    2: "run_jobs call n rt1 = Some rt'" "ran rt' = ran rt1 @ take n (js' @ ys)" "queue rt' (drop n (js' @ ys) @ zs)" by blast
  have "take n (js' @ ys) = take n js'" "drop n (js' @ ys) = drop n js' @ ys" using \<open>n \<le> length js'\<close> by simp_all
  then show ?case using 1 2 js by (intro exI [of _ rt'] exI [of _ "ys @ zs"]) simp
qed

end

text \<open>Jobs that spawn less than they are.\<close>

locale finite_jobs = job_functions call may_spawn
  for call :: "('f, 'v) call" and may_spawn :: "('f, 'v) job \<Rightarrow> ('f, 'v) job list \<Rightarrow> bool" +
  fixes weight :: "('f, 'v) job \<Rightarrow> nat"
  assumes spawn: "may_spawn j ys \<Longrightarrow> sum_list (map weight ys) < weight j"
begin

lemma pending_jobs_loop_ok:
  "queue rt js \<Longrightarrow> okw (pending_jobs_loop call rt) (\<lambda>(err, rt'). (err = 0 \<and> queue rt' [] \<or> err = - 1 \<and> (\<exists>js'. queue rt' js')) \<and>
    (\<exists>xs. ran rt' = ran rt @ xs \<and> (err = 0 \<longrightarrow> take (length js) xs = js)))"
proof (induction "sum_list (map weight js)" arbitrary: rt js rule: less_induct)
  case less
  show ?case
  proof (cases js)
    case Nil
    then obtain es where "ilist (jheap rt) (job_list rt) es" "es = []" using less.prems by (auto simp: queue_def queue_at_def)
    then have "js_execute_pending_job call rt = Some (0, 0, rt)" using ilist_empty by (fastforce simp: js_execute_pending_job_def)
    then show ?thesis using less.prems Nil by (subst pending_jobs_loop.simps) (auto simp: queue_def)
  next
    case (Cons j js')
    obtain res rt1 rt2 rt' ys where 1: "queue rt1 js'" "call (job_func j) (job_ctx j) (job_argv j) rt1 = Some (res, rt2)"
      "may_spawn j ys" "queue rt' (js' @ ys)" "ran rt' = ran rt @ [j]"
      "js_execute_pending_job call rt = Some (case res of JOB_EXCEPTION \<Rightarrow> - 1 | JOB_VALUE _ \<Rightarrow> 1, job_ctx j, rt')"
      using execute_run [of rt j js'] less.prems Cons by blast
    show ?thesis
    proof (cases res)
      case JOB_EXCEPTION
      then show ?thesis using 1(4-6) by (subst pending_jobs_loop.simps) auto
    next
      case (JOB_VALUE v)
      have "sum_list (map weight ys) < weight j" by (rule spawn [OF 1(3)])
      then have "sum_list (map weight (js' @ ys)) < sum_list (map weight js)" using Cons by simp
      from okw_ex [OF less.hyps [OF this 1(4)]] obtain err rt3 xs where
        3: "pending_jobs_loop call rt' = Some (err, rt3)" "err = 0 \<and> queue rt3 [] \<or> err = - 1 \<and> (\<exists>js'. queue rt3 js')"
        "ran rt3 = ran rt' @ xs" "err = 0 \<longrightarrow> take (length (js' @ ys)) xs = js' @ ys" by auto
      have "err = 0 \<longrightarrow> take (length js) (j # xs) = js"
        using 3(4) Cons by (auto dest: arg_cong [of _ _ "take (length js')"])
      then show ?thesis using 1(5,6) 3 JOB_VALUE by (subst pending_jobs_loop.simps) auto
    qed
  qed
qed

end

end
