(* ===== verification/Jobs_Spec.thy ===== *)
theory Jobs_Spec
  imports Jobs "HOL-Library.Sublist"
begin

text \<open>
  Jobs whose functions are scripts of enqueue requests, an instance of both interfaces of \<open>Jobs\<close>, and
  the theorems on the queue.
\<close>

section \<open>Scripts\<close>

text \<open>What the function of a job does to the queue: the jobs it enqueues, and its result.\<close>

datatype 'v script = Script "(addr \<times> 'v script \<times> 'v list) list" "'v job_result"

fun enqueue_all :: "(addr \<times> 'v script \<times> 'v list) list \<Rightarrow> ('v script, 'v) job_rt \<Rightarrow> ('v script, 'v) job_rt option" where
  "enqueue_all [] rt = Some rt"
| "enqueue_all ((ctx, f, argv) # cs) rt = do { (_, rt) \<leftarrow> js_enqueue_job rt ctx f argv; enqueue_all cs rt }"

fun script_call :: "('v script, 'v) call" where
  "script_call (Script cs res) ctx argv rt = do { rt \<leftarrow> enqueue_all cs rt; Some (res, rt) }"

lemma size_sub_script: "x \<in> set cs \<Longrightarrow> size (fst (snd x)) < size (Script cs res)"
proof (induction cs)
  case (Cons y cs)
  then show ?case by (cases y) auto
qed simp

function tree_size :: "'v script \<Rightarrow> nat" where
  "tree_size (Script cs res) = 1 + sum_list (map (\<lambda>x. tree_size (fst (snd x))) cs)"
  by pat_completeness auto

termination
proof (relation "measure size")
  show "\<And>cs res x. x \<in> set cs \<Longrightarrow> (fst (snd x), Script cs res) \<in> measure size"
    unfolding in_measure by (rule size_sub_script)
qed simp

definition script_job :: "addr \<times> 'v script \<times> 'v list \<Rightarrow> ('v script, 'v) job" where
  "script_job x = \<lparr>job_ctx = fst x, job_func = fst (snd x), job_argv = snd (snd x)\<rparr>"

definition spawns :: "('v script, 'v) job \<Rightarrow> ('v script, 'v) job list \<Rightarrow> bool" where
  "spawns j ys \<longleftrightarrow> (case job_func j of Script cs res \<Rightarrow> \<exists>xs. subseq xs cs \<and> ys = map script_job xs)"

lemma enqueue_all_ok:
  "queue rt js \<Longrightarrow> \<exists>rt' xs. enqueue_all cs rt = Some rt' \<and> extends_queue rt rt' (map script_job xs) \<and> subseq xs cs"
proof (induction cs arbitrary: rt js)
  case Nil
  then show ?case by (auto intro!: extends_queue_refl exI [of _ "[]"])
next
  case (Cons c cs)
  obtain ctx f argv where c: "c = (ctx, f, argv)" by (metis prod_cases3)
  obtain r rt1 where 1: "js_enqueue_job rt ctx f argv = Some (r, rt1)"
    "extends_queue rt rt1 [script_job c] \<or> extends_queue rt rt1 []"
    using okw_ex [OF js_enqueue_job_ok [OF Cons.prems, of ctx f argv]] by (auto simp: script_job_def c)
  then obtain ys where ys: "extends_queue rt rt1 (map script_job ys)" "ys = [c] \<or> ys = []" by (metis list.simps(8,9))
  then obtain js1 where "queue rt1 js1" using Cons.prems unfolding extends_queue_def queue_def by blast
  from Cons.IH [OF this] obtain rt' xs where
    2: "enqueue_all cs rt1 = Some rt'" "extends_queue rt1 rt' (map script_job xs)" "subseq xs cs" by blast
  have "extends_queue rt rt' (map script_job (ys @ xs))" using extends_queue_trans [OF ys(1) 2(2)] by simp
  moreover have "subseq (ys @ xs) (c # cs)" using ys(2) 2(3) by auto
  moreover have "enqueue_all (c # cs) rt = Some rt'" using 1(1) 2(1) by (simp add: c)
  ultimately show ?case by blast
qed

interpretation scripts: job_functions script_call spawns
proof
  fix rt :: "('v script, 'v) job_rt" and js and j :: "('v script, 'v) job"
  assume q: "queue rt js"
  obtain cs res where f: "job_func j = Script cs res" by (cases "job_func j")
  from enqueue_all_ok [OF q, of cs] obtain rt' xs where
    1: "enqueue_all cs rt = Some rt'" "extends_queue rt rt' (map script_job xs)" "subseq xs cs" by blast
  then show "\<exists>res rt' ys. script_call (job_func j) (job_ctx j) (job_argv j) rt = Some (res, rt') \<and> extends_queue rt rt' ys \<and> spawns j ys"
    by (auto simp: f spawns_def)
qed

lemma subseq_sum_le: "subseq xs cs \<Longrightarrow> sum_list (map g xs) \<le> (sum_list (map g cs) :: nat)"
  by (induction rule: list_emb.induct) auto

interpretation scripts: finite_jobs script_call spawns "\<lambda>j. tree_size (job_func j)"
proof
  fix j :: "('v script, 'v) job" and ys
  assume s: "spawns j ys"
  obtain cs res where f: "job_func j = Script cs res" by (cases "job_func j")
  obtain xs where xs: "subseq xs cs" "ys = map script_job xs" using s by (auto simp: spawns_def f)
  have "sum_list (map (\<lambda>j. tree_size (job_func j)) ys) = sum_list (map (\<lambda>x. tree_size (fst (snd x))) xs)"
    by (simp add: xs(2) script_job_def comp_def)
  also have "\<dots> \<le> sum_list (map (\<lambda>x. tree_size (fst (snd x))) cs)" by (rule subseq_sum_le [OF xs(1)])
  finally show "sum_list (map (\<lambda>j. tree_size (job_func j)) ys) < tree_size (job_func j)" by (simp add: f)
qed

section \<open>A concrete queue\<close>

definition ex_jobs :: "(nat script, nat) job_rt" where
  "ex_jobs = \<lparr>jheap = [1 \<mapsto> \<lparr>lprev = 1, lnext = 1\<rparr>], jobs = (\<lambda>_. None), job_list = 1, job_malloc_ok = \<lambda>_. True,
     job_clock = 0, job_next = 2, value_refs = \<lambda>_. 0, ran = []\<rparr>"

lemma ex_jobs_queue: "queue ex_jobs []"
  by (auto simp: queue_def queue_at_def ex_jobs_def ilist_def get_next_def get_prev_def intro!: exI [of _ "[]"])

definition ex_job :: "nat \<Rightarrow> (nat script, nat) job" where
  "ex_job n = \<lparr>job_ctx = 7, job_func = Script [(7, Script [] (JOB_VALUE 0), [])] (JOB_VALUE 0), job_argv = [n]\<rparr>"

text \<open>Two jobs that each enqueue another one.\<close>

definition ex_two_jobs :: "(nat script, nat) job_rt" where
  "ex_two_jobs = the (enqueue_all [(7, job_func (ex_job 0), [10]), (7, job_func (ex_job 0), [20])] ex_jobs)"

lemma ex_two_jobs_queue: "queue ex_two_jobs [ex_job 10, ex_job 20]"
proof -
  have run: "\<exists>rt'. enqueue_all [(7, job_func (ex_job 0), [10]), (7, job_func (ex_job 0), [20])] ex_jobs = Some rt' \<and>
      queue_at rt' [2, 3] [ex_job 10, ex_job 20]"
    by (simp add: ex_jobs_def js_enqueue_job_def ex_job_def dup_values_def list_add_tail_def get_prev_def get_next_def list_insert_def
        set_next_def set_prev_def queue_at_def ilist_def)
  then show ?thesis unfolding ex_two_jobs_def queue_def by auto
qed

section \<open>Theorems\<close>

text \<open>C12: Whatever the functions of jobs enqueue and whether they throw or not, pending jobs run
  first in, first out: after \<open>n\<close> calls of \<open>JS_ExecutePendingJob\<close> exactly the first \<open>n\<close> of the jobs that
  were pending have run, in order, and the others wait in front of everything enqueued since. So
  every pending job runs.\<close>

theorem pending_jobs_run_in_order:
  assumes "\<And>rt js f ctx argv. queue rt js \<Longrightarrow> \<exists>res rt' ys. call f ctx argv rt = Some (res, rt') \<and> extends_queue rt rt' ys"
    and "queue rt js" and "n \<le> length js"
  shows "\<exists>rt' ys. run_jobs call n rt = Some rt' \<and> ran rt' = ran rt @ take n js \<and> queue rt' (drop n js @ ys)"
proof -
  have "job_functions call (\<lambda>_ _. True)" by (rule job_functions.intro) (use assms(1) in simp)
  then show ?thesis by (rule job_functions.run_jobs_ok [OF _ assms(2,3)])
qed

theorem pending_jobs_run_in_order_witness:
  "\<exists>rt' ys. run_jobs script_call 2 ex_two_jobs = Some rt' \<and> ran rt' = ran ex_two_jobs @ [ex_job 10, ex_job 20] \<and> queue rt' ys"
proof -
  have law: "\<exists>res rt' ys. script_call f ctx argv rt = Some (res, rt') \<and> extends_queue rt rt' ys"
    if "queue rt js" for rt :: "(nat script, nat) job_rt" and js f ctx argv
    using scripts.call_law [OF that, of "\<lparr>job_ctx = ctx, job_func = f, job_argv = argv\<rparr>"] by auto
  show ?thesis using pending_jobs_run_in_order [where call = script_call and n = 2, OF law ex_two_jobs_queue] by auto
qed



end
