(* ===== verification/Js_Key.thy ===== *)
theory Js_Key
  imports Intrusive_List
begin

text \<open>
  JavaScript values as keys of a \<open>Map\<close> or \<open>Set\<close> of \<^verbatim>\<open>quickjs.c\<close>: strings in their two widths and
  their comparison and hash, numbers as 32-bit integers or IEEE doubles, \<open>js_same_value_zero\<close>,
  \<open>map_normalize_key\<close> and \<open>map_hash_key\<close>. A double is its 64 bits. The locale \<open>hash_keys\<close> is what
  a hash table asks of its keys; it is interpreted on the functions of the code.
\<close>

section \<open>Strings\<close>

datatype js_string = STR8 "u8 list" | STR16 "u16 list"

fun string_length :: "js_string \<Rightarrow> nat" where
  "string_length (STR8 s) = length s"
| "string_length (STR16 s) = length s"

fun memcmp16_8 :: "u16 list \<Rightarrow> u8 list \<Rightarrow> nat \<Rightarrow> int option" where
  "memcmp16_8 src1 src2 0 = Some 0"
| "memcmp16_8 (a # src1) (b # src2) (Suc len) =
     (let c = uint a - uint b in if c \<noteq> 0 then Some c else memcmp16_8 src1 src2 len)"
| "memcmp16_8 src1 src2 (Suc len) = None"

fun memcmp16 :: "u16 list \<Rightarrow> u16 list \<Rightarrow> nat \<Rightarrow> int option" where
  "memcmp16 src1 src2 0 = Some 0"
| "memcmp16 (a # src1) (b # src2) (Suc len) =
     (let c = uint a - uint b in if c \<noteq> 0 then Some c else memcmp16 src1 src2 len)"
| "memcmp16 src1 src2 (Suc len) = None"

text \<open>The \<open>memcmp\<close> of the C library; only the sign of its result counts.\<close>

fun memcmp8 :: "u8 list \<Rightarrow> u8 list \<Rightarrow> nat \<Rightarrow> int option" where
  "memcmp8 src1 src2 0 = Some 0"
| "memcmp8 (a # src1) (b # src2) (Suc len) =
     (let c = uint a - uint b in if c \<noteq> 0 then Some c else memcmp8 src1 src2 len)"
| "memcmp8 src1 src2 (Suc len) = None"

fun js_string_memcmp :: "js_string \<Rightarrow> js_string \<Rightarrow> nat \<Rightarrow> int option" where
  "js_string_memcmp (STR8 s1) (STR8 s2) len = memcmp8 s1 s2 len"
| "js_string_memcmp (STR8 s1) (STR16 s2) len = map_option uminus (memcmp16_8 s2 s1 len)"
| "js_string_memcmp (STR16 s1) (STR8 s2) len = memcmp16_8 s1 s2 len"
| "js_string_memcmp (STR16 s1) (STR16 s2) len = memcmp16 s1 s2 len"

definition js_string_compare :: "js_string \<Rightarrow> js_string \<Rightarrow> int option" where
  "js_string_compare p1 p2 = do {
     let len = min (string_length p1) (string_length p2);
     res \<leftarrow> js_string_memcmp p1 p2 len;
     if res = 0 then
       Some (if string_length p1 = string_length p2 then 0
             else if string_length p1 < string_length p2 then - 1 else 1)
     else Some res
   }"

fun hash_string8 :: "u8 list \<Rightarrow> u32 \<Rightarrow> u32" where
  "hash_string8 [] h = h"
| "hash_string8 (c # str) h = hash_string8 str (h * 263 + ucast c)"

fun hash_string16 :: "u16 list \<Rightarrow> u32 \<Rightarrow> u32" where
  "hash_string16 [] h = h"
| "hash_string16 (c # str) h = hash_string16 str (h * 263 + ucast c)"

fun hash_string :: "js_string \<Rightarrow> u32 \<Rightarrow> u32" where
  "hash_string (STR16 s) h = hash_string16 s h"
| "hash_string (STR8 s) h = hash_string8 s h"

text \<open>The code units of a string, whatever its width, and their order.\<close>

fun code_units :: "js_string \<Rightarrow> int list" where
  "code_units (STR8 s) = map uint s"
| "code_units (STR16 s) = map uint s"

fun units_order :: "int list \<Rightarrow> int list \<Rightarrow> int" where
  "units_order [] [] = 0"
| "units_order [] (b # bs) = - 1"
| "units_order (a # as) [] = 1"
| "units_order (a # as) (b # bs) = (if a = b then units_order as bs else sgn (a - b))"

lemma length_code_units: "length (code_units s) = string_length s"
  by (cases s) simp_all

fun cmp_units :: "int list \<Rightarrow> int list \<Rightarrow> nat \<Rightarrow> int option" where
  "cmp_units as bs 0 = Some 0"
| "cmp_units (a # as) (b # bs) (Suc n) = (if a = b then cmp_units as bs n else Some (a - b))"
| "cmp_units as bs (Suc n) = None"

lemma memcmp_units:
  "memcmp8 s t n = cmp_units (map uint s) (map uint t) n"
  "memcmp16 s' t' n = cmp_units (map uint s') (map uint t') n"
  "memcmp16_8 s' t n = cmp_units (map uint s') (map uint t) n"
proof -
  show "memcmp8 s t n = cmp_units (map uint s) (map uint t) n"
    by (induction s t n rule: memcmp8.induct) (simp_all add: Let_def)
  show "memcmp16 s' t' n = cmp_units (map uint s') (map uint t') n"
    by (induction s' t' n rule: memcmp16.induct) (simp_all add: Let_def)
  show "memcmp16_8 s' t n = cmp_units (map uint s') (map uint t) n"
    by (induction s' t n rule: memcmp16_8.induct) (simp_all add: Let_def)
qed

lemma cmp_units_swap: "map_option uminus (cmp_units as bs n) = cmp_units bs as n"
  by (induction as bs n rule: cmp_units.induct) auto

lemma js_string_memcmp_units: "js_string_memcmp p q n = cmp_units (code_units p) (code_units q) n"
  by (cases p; cases q) (simp_all add: memcmp_units cmp_units_swap)

lemma cmp_units_order:
  "okw (cmp_units as bs (min (length as) (length bs))) (\<lambda>c.
     if c = 0 then units_order as bs = (if length as = length bs then 0 else if length as < length bs then - 1 else 1)
     else units_order as bs = sgn c)"
  by (induction as bs rule: units_order.induct) (auto elim!: okw_mono split: if_splits)

lemma js_string_compare_units:
  "okw (js_string_compare p q) (\<lambda>c. sgn c = units_order (code_units p) (code_units q))"
proof -
  obtain c where c: "cmp_units (code_units p) (code_units q) (min (string_length p) (string_length q)) = Some c"
    "if c = 0 then units_order (code_units p) (code_units q) =
       (if string_length p = string_length q then 0 else if string_length p < string_length q then - 1 else 1)
     else units_order (code_units p) (code_units q) = sgn c"
    using okw_ex [OF cmp_units_order [of "code_units p" "code_units q", unfolded length_code_units]] by blast
  then show ?thesis by (auto simp: js_string_compare_def js_string_memcmp_units Let_def)
qed

lemma units_order_zero: "units_order as bs = 0 \<longleftrightarrow> as = bs"
  by (induction as bs rule: units_order.induct) (auto simp: sgn_if)

lemma js_string_compare_zero: "js_string_compare p q = Some 0 \<longleftrightarrow> code_units p = code_units q"
proof -
  obtain c where c: "js_string_compare p q = Some c" "sgn c = units_order (code_units p) (code_units q)"
    using okw_ex [OF js_string_compare_units] by blast
  have "c = 0 \<longleftrightarrow> units_order (code_units p) (code_units q) = 0" unfolding c(2) [symmetric] by (rule sgn_eq_0_iff [symmetric])
  then show ?thesis unfolding c(1) option.inject units_order_zero .
qed

lemma hash_string_units: "hash_string s h = fold (\<lambda>c h. h * 263 + word_of_int c) (code_units s) h"
proof -
  have "hash_string8 t h = fold (\<lambda>c h. h * 263 + word_of_int c) (map uint t) h" for t
    by (induction t h rule: hash_string8.induct) simp_all
  moreover have "hash_string16 t h = fold (\<lambda>c h. h * 263 + word_of_int c) (map uint t) h" for t
    by (induction t h rule: hash_string16.induct) simp_all
  ultimately show ?thesis by (cases s) simp_all
qed

section \<open>Doubles\<close>

fun ilog2 :: "nat \<Rightarrow> nat" where
  "ilog2 n = (if n < 2 then 0 else Suc (ilog2 (n div 2)))"

declare ilog2.simps [simp del]

lemma ilog2_bounds: "0 < n \<Longrightarrow> 2 ^ ilog2 n \<le> n \<and> n < 2 ^ Suc (ilog2 n)"
proof (induction n rule: ilog2.induct)
  case (1 n)
  show ?case
  proof (cases "n < 2")
    case True
    then show ?thesis using 1(2) by (simp add: ilog2.simps)
  next
    case False
    then have "2 ^ ilog2 (n div 2) \<le> n div 2" "n div 2 < 2 ^ Suc (ilog2 (n div 2))" using 1(1) by auto
    then show ?thesis using False by (subst (1 2) ilog2.simps) auto
  qed
qed

lemma ilog2_unique:
  assumes "0 < n" "n < 2 ^ k"
  shows "ilog2 n < k"
proof -
  have "(2::nat) ^ ilog2 n < 2 ^ k" using ilog2_bounds [OF assms(1)] assms(2) by linarith
  then show ?thesis by simp
qed

text \<open>The conversion of an integer below \<open>2 ^ 53\<close> in absolute value, which is exact.\<close>

definition double_of_int :: "int \<Rightarrow> u64" where
  "double_of_int i =
     (if i = 0 then 0
      else let a = nat \<bar>i\<bar>; e = ilog2 a
           in word_of_nat ((if i < 0 then 2 ^ 63 else 0) + (1023 + e) * 2 ^ 52 + (a * 2 ^ (52 - e)) mod 2 ^ 52))"

definition double_sign :: "u64 \<Rightarrow> bool" where
  "double_sign d = (2 ^ 63 \<le> unat d)"

definition double_exp :: "u64 \<Rightarrow> nat" where
  "double_exp d = unat d div 2 ^ 52 mod 2 ^ 11"

definition double_frac :: "u64 \<Rightarrow> nat" where
  "double_frac d = unat d mod 2 ^ 52"

definition isnan :: "u64 \<Rightarrow> bool" where
  "isnan d = (double_exp d = 2047 \<and> double_frac d \<noteq> 0)"

definition double_zero :: "u64 \<Rightarrow> bool" where
  "double_zero d = (unat d mod 2 ^ 63 = 0)"

text \<open>\<open>d1 == d2\<close>.\<close>

definition double_eq :: "u64 \<Rightarrow> u64 \<Rightarrow> bool" where
  "double_eq d1 d2 = (\<not> isnan d1 \<and> \<not> isnan d2 \<and> (d1 = d2 \<or> double_zero d1 \<and> double_zero d2))"

text \<open>\<open>(int32_t)d\<close>. Out of range, where C leaves it open, it is the smallest integer, as on x86.\<close>

definition int32_of_double :: "u64 \<Rightarrow> int" where
  "int32_of_double d =
     (if double_exp d < 1023 then 0
      else if 1053 < double_exp d then - (2 ^ 31)
      else (if double_sign d then - 1 else 1) * int ((2 ^ 52 + double_frac d) div 2 ^ (1075 - double_exp d)))"

lemma double_fields:
  fixes e m :: nat
  assumes "e < 2 ^ 11" "m < 2 ^ 52"
  defines "n \<equiv> \<lambda>s. (if s then 2 ^ 63 else 0) + e * 2 ^ 52 + m"
  shows "n s < 2 ^ 64" "n s div 2 ^ 52 mod 2 ^ 11 = e" "n s mod 2 ^ 52 = m" "(2 ^ 63 \<le> n s) = s" "n s mod 2 ^ 63 = e * 2 ^ 52 + m"
proof -
  have em: "e * 2 ^ 52 + m < 2 ^ 63" using assms(1,2) by simp
  show "n s < 2 ^ 64" using em by (simp add: n_def)
  show "(2 ^ 63 \<le> n s) = s" using em by (simp add: n_def)
  show "n s mod 2 ^ 63 = e * 2 ^ 52 + m" 
  proof -
    have "n s = (e * 2 ^ 52 + m) + (if s then 1 else 0) * 2 ^ 63" by (simp add: n_def)
    then show ?thesis using em by (simp only: mod_mult_self1 mod_less)
  qed
  have n: "n s = m + ((if s then 2 ^ 11 else 0) + e) * 2 ^ 52" by (simp add: n_def)
  show "n s mod 2 ^ 52 = m" unfolding n using assms(2) by (simp only: mod_mult_self1 mod_less)
  have "(m + c * 2 ^ 52) div 2 ^ 52 = c" for c :: nat using assms(2) by simp
  then have "n s div 2 ^ 52 = (if s then 2 ^ 11 else 0) + e" unfolding n .
  then show "n s div 2 ^ 52 mod 2 ^ 11 = e" using assms(1) by simp
qed

lemma double_of_int_bits:
  assumes i: "i \<noteq> 0" "\<bar>i\<bar> < 2 ^ 53"
  shows "\<exists>m. m < 2 ^ 52 \<and> ilog2 (nat \<bar>i\<bar>) < 53 \<and> nat \<bar>i\<bar> * 2 ^ (52 - ilog2 (nat \<bar>i\<bar>)) = 2 ^ 52 + m \<and>
    unat (double_of_int i) = (if i < 0 then 2 ^ 63 else 0) + (1023 + ilog2 (nat \<bar>i\<bar>)) * 2 ^ 52 + m"
proof -
  define a where "a = nat \<bar>i\<bar>"
  define e where "e = ilog2 a"
  have a: "0 < a" "a < 2 ^ 53" using i by (auto simp: nat_less_iff a_def)
  have e: "2 ^ e \<le> a" "a < 2 ^ Suc e" using ilog2_bounds [OF a(1)] by (auto simp: e_def)
  have e53: "e < 53" using ilog2_unique [OF a] by (simp add: e_def)
  then have p: "(2::nat) ^ e * 2 ^ (52 - e) = 2 ^ 52" by (simp flip: power_add)
  have 1: "2 ^ 52 \<le> a * 2 ^ (52 - e)" using mult_right_mono [OF e(1), of "2 ^ (52 - e)"] p by simp
  have "(0::nat) < 2 ^ (52 - e)" by simp
  from mult_strict_right_mono [OF e(2) this] have 2: "a * 2 ^ (52 - e) < 2 * 2 ^ 52" by (simp only: power_Suc mult.assoc p)
  define m where "m = a * 2 ^ (52 - e) mod 2 ^ 52"
  have m: "m < 2 ^ 52" by (simp add: m_def)
  have "m = a * 2 ^ (52 - e) - 2 ^ 52" unfolding m_def using 1 2 by (simp add: mod_if)
  then have am: "a * 2 ^ (52 - e) = 2 ^ 52 + m" using 1 by linarith
  have "1023 + e < 2 ^ 11" using e53 by simp
  note f = double_fields [OF this m, of "i < 0"]
  have "double_of_int i = word_of_nat ((if i < 0 then 2 ^ 63 else 0) + (1023 + e) * 2 ^ 52 + m)"
    using i(1) unfolding double_of_int_def Let_def a_def [symmetric] e_def [symmetric] m_def [symmetric] by (simp only: if_False)
  then have "unat (double_of_int i) = (if i < 0 then 2 ^ 63 else 0) + (1023 + e) * 2 ^ 52 + m"
    using f(1) by (simp only: unat_of_nat len_num0 len_bit0 len_num1) (simp add: take_bit_eq_mod)
  then show ?thesis unfolding a_def [symmetric] e_def [symmetric] using m e53 am by blast
qed

lemma double_of_int_parts:
  assumes i: "i \<noteq> 0" "\<bar>i\<bar> < 2 ^ 53"
  shows "double_sign (double_of_int i) = (i < 0)" "double_exp (double_of_int i) = 1023 + ilog2 (nat \<bar>i\<bar>)"
    "2 ^ 52 + double_frac (double_of_int i) = nat \<bar>i\<bar> * 2 ^ (52 - ilog2 (nat \<bar>i\<bar>))" "ilog2 (nat \<bar>i\<bar>) < 53"
    "\<not> double_zero (double_of_int i)"
proof -
  define e where "e = ilog2 (nat \<bar>i\<bar>)"
  obtain m where m: "m < 2 ^ 52" "e < 53" "nat \<bar>i\<bar> * 2 ^ (52 - e) = 2 ^ 52 + m"
    "unat (double_of_int i) = (if i < 0 then 2 ^ 63 else 0) + (1023 + e) * 2 ^ 52 + m"
    using double_of_int_bits [OF i] unfolding e_def by blast
  have "1023 + e < 2 ^ 11" using m(2) by simp
  note f = double_fields [OF this m(1), of "i < 0", folded m(4)]
  show "double_sign (double_of_int i) = (i < 0)" unfolding double_sign_def by (rule f(4))
  show "double_exp (double_of_int i) = 1023 + ilog2 (nat \<bar>i\<bar>)" unfolding double_exp_def e_def [symmetric] by (rule f(2))
  show "2 ^ 52 + double_frac (double_of_int i) = nat \<bar>i\<bar> * 2 ^ (52 - ilog2 (nat \<bar>i\<bar>))"
    unfolding double_frac_def f(3) e_def [symmetric] m(3) ..
  show "ilog2 (nat \<bar>i\<bar>) < 53" using m(2) by (simp add: e_def)
  show "\<not> double_zero (double_of_int i)" unfolding double_zero_def f(5) by simp
qed

lemma int32_of_double_of_int:
  assumes "- (2 ^ 31) \<le> i" "i < 2 ^ 31"
  shows "int32_of_double (double_of_int i) = i"
proof (cases "i = 0")
  case True
  then show ?thesis by (simp add: int32_of_double_def double_of_int_def double_exp_def)
next
  case False
  have b: "\<bar>i\<bar> < 2 ^ 53" using assms by simp
  note p = double_of_int_parts [OF False b]
  define e where "e = ilog2 (nat \<bar>i\<bar>)"
  have pos: "0 < nat \<bar>i\<bar>" using False by simp
  have d: "(2 ^ 52 + double_frac (double_of_int i)) div 2 ^ (1075 - double_exp (double_of_int i)) = nat \<bar>i\<bar>"
    unfolding p(2,3) by simp
  show ?thesis
  proof (cases "i = - (2 ^ 31)")
    case True
    then have "(2::nat) ^ 31 < 2 ^ Suc e" using ilog2_bounds [OF pos] by (simp add: e_def)
    then have "31 < Suc e" by (simp only: power_strict_increasing_iff)
    then have "1053 < double_exp (double_of_int i)" by (simp add: p(2) e_def)
    then show ?thesis unfolding int32_of_double_def using True by simp
  next
    case False
    then have "nat \<bar>i\<bar> < 2 ^ 31" using assms by (simp add: nat_less_iff)
    then have "e < 31" unfolding e_def by (rule ilog2_unique [OF pos])
    then have "\<not> double_exp (double_of_int i) < 1023" "\<not> 1053 < double_exp (double_of_int i)" by (simp_all add: p(2) e_def)
    then show ?thesis unfolding int32_of_double_def d p(1) by simp
  qed
qed

lemma double_of_int_inj:
  "- (2 ^ 31) \<le> i \<Longrightarrow> i < 2 ^ 31 \<Longrightarrow> - (2 ^ 31) \<le> j \<Longrightarrow> j < 2 ^ 31 \<Longrightarrow> double_of_int i = double_of_int j \<Longrightarrow> i = j"
  by (metis int32_of_double_of_int)

lemma double_of_int_finite:
  assumes "\<bar>i\<bar> < 2 ^ 53"
  shows "\<not> isnan (double_of_int i)" "double_zero (double_of_int i) = (i = 0)"
proof -
  show "\<not> isnan (double_of_int i)"
  proof (cases "i = 0")
    case True
    then show ?thesis by (simp add: isnan_def double_of_int_def double_exp_def)
  next
    case False
    then show ?thesis using double_of_int_parts(2,4) [OF False assms] by (simp add: isnan_def)
  qed
  show "double_zero (double_of_int i) = (i = 0)"
    using double_of_int_parts(5) [OF _ assms] by (cases "i = 0") (simp_all add: double_zero_def double_of_int_def)
qed


section \<open>Values\<close>

text \<open>A string or symbol is its address; strings carry their (immutable) contents too. Big numbers, which
  the engine has only with \<open>CONFIG_BIGNUM\<close>, are left out. \<open>JS_EXCEPTION\<close> is never a key.\<close>

datatype js_val =
    JS_INT u32
  | JS_BOOL bool
  | JS_NULL
  | JS_UNDEFINED
  | JS_FLOAT64 u64
  | JS_STRING addr js_string
  | JS_SYMBOL addr
  | JS_OBJECT addr

fun norm_tag :: "js_val \<Rightarrow> int" where
  "norm_tag (JS_INT i) = 0"
| "norm_tag (JS_BOOL b) = 1"
| "norm_tag JS_NULL = 2"
| "norm_tag JS_UNDEFINED = 3"
| "norm_tag (JS_FLOAT64 d) = 7"
| "norm_tag (JS_STRING p s) = - 7"
| "norm_tag (JS_SYMBOL p) = - 8"
| "norm_tag (JS_OBJECT p) = - 1"

definition js_new_float64 :: "u64 \<Rightarrow> js_val" where
  "js_new_float64 d =
     (let val = int32_of_double d
      in if d = double_of_int val then JS_INT (word_of_int val) else JS_FLOAT64 d)"

definition js_new_uint32 :: "u32 \<Rightarrow> js_val" where
  "js_new_uint32 val = (if val \<le> 0x7fffffff then JS_INT val else JS_FLOAT64 (double_of_int (uint val)))"

definition js_new_bool :: "bool \<Rightarrow> js_val" where
  "js_new_bool b = JS_BOOL b"

text \<open>\<open>js_strict_eq2\<close> in the mode \<open>JS_EQ_SAME_VALUE_ZERO\<close>, for two numbers and for all values.\<close>

definition number_test :: "u64 \<Rightarrow> u64 \<Rightarrow> bool" where
  "number_test d1 d2 =
     (if isnan d1 \<or> isnan d2 then isnan d1 = isnan d2 else double_eq d1 d2)"

fun js_same_value_zero :: "js_val \<Rightarrow> js_val \<Rightarrow> bool" where
  "js_same_value_zero (JS_BOOL a) op2 = (case op2 of JS_BOOL b \<Rightarrow> a = b | _ \<Rightarrow> False)"
| "js_same_value_zero JS_NULL op2 = (op2 = JS_NULL)"
| "js_same_value_zero JS_UNDEFINED op2 = (op2 = JS_UNDEFINED)"
| "js_same_value_zero (JS_STRING p s) op2 =
     (case op2 of JS_STRING q t \<Rightarrow> js_string_compare s t = Some 0 | _ \<Rightarrow> False)"
| "js_same_value_zero (JS_SYMBOL p) op2 = (case op2 of JS_SYMBOL q \<Rightarrow> p = q | _ \<Rightarrow> False)"
| "js_same_value_zero (JS_OBJECT p) op2 = (case op2 of JS_OBJECT q \<Rightarrow> p = q | _ \<Rightarrow> False)"
| "js_same_value_zero (JS_INT i) op2 =
     (case op2 of JS_INT j \<Rightarrow> number_test (double_of_int (sint i)) (double_of_int (sint j))
      | JS_FLOAT64 d \<Rightarrow> number_test (double_of_int (sint i)) d | _ \<Rightarrow> False)"
| "js_same_value_zero (JS_FLOAT64 d) op2 =
     (case op2 of JS_FLOAT64 d2 \<Rightarrow> number_test d d2
      | JS_INT j \<Rightarrow> number_test d (double_of_int (sint j)) | _ \<Rightarrow> False)"

fun map_normalize_key :: "js_val \<Rightarrow> js_val" where
  "map_normalize_key (JS_FLOAT64 d) = (if double_eq d 0 then JS_INT 0 else JS_FLOAT64 d)"
| "map_normalize_key key = key"

definition js_float64_nan :: u64 where
  "js_float64_nan = 0x7ff8000000000000"

definition hash_float64 :: "u64 \<Rightarrow> u32" where
  "hash_float64 d = (ucast d XOR ucast (drop_bit 32 d)) * 3163"

fun map_hash_key :: "js_val \<Rightarrow> u32" where
  "map_hash_key key =
     (let h = (case key of
          JS_BOOL b \<Rightarrow> of_bool b
        | JS_STRING p s \<Rightarrow> hash_string s 0
        | JS_OBJECT p \<Rightarrow> word_of_nat p * 3163
        | JS_SYMBOL p \<Rightarrow> word_of_nat p * 3163
        | JS_INT i \<Rightarrow> hash_float64 (double_of_int (sint (i * 3163)))
        | JS_FLOAT64 d \<Rightarrow> hash_float64 (if isnan d then js_float64_nan else d)
        | _ \<Rightarrow> 0)
      in h XOR word_of_int (norm_tag key))"

declare map_hash_key.simps [simp del]

section \<open>What a hash table asks of its keys\<close>

text \<open>An equality that is an equivalence on the keys allowed, and a hash that does not tell equal keys
  apart.\<close>

locale hash_keys =
  fixes allowed :: "'k \<Rightarrow> bool" and eq :: "'k \<Rightarrow> 'k \<Rightarrow> bool" and hash :: "'k \<Rightarrow> u32"
  assumes eq_refl: "allowed a \<Longrightarrow> eq a a"
    and eq_sym: "allowed a \<Longrightarrow> allowed b \<Longrightarrow> eq a b \<Longrightarrow> eq b a"
    and eq_trans: "allowed a \<Longrightarrow> allowed b \<Longrightarrow> allowed c \<Longrightarrow> eq a b \<Longrightarrow> eq b c \<Longrightarrow> eq a c"
    and hash_eq: "allowed a \<Longrightarrow> allowed b \<Longrightarrow> eq a b \<Longrightarrow> hash a = hash b"
begin

text \<open>Among keys that are pairwise different, a bucket finds exactly the equal one of the whole table.\<close>

lemma find_bucket:
  assumes "\<forall>x\<in>set xs. allowed (key x)" "allowed k"
  shows "find (\<lambda>x. eq (key x) k) (filter (\<lambda>x. hash (key x) AND m = hash k AND m) xs) = find (\<lambda>x. eq (key x) k) xs"
  using assms by (induction xs) (auto dest: hash_eq)

lemma eq_unique:
  assumes "allowed k" "allowed a" "allowed b" "eq a k" "eq b k"
  shows "eq a b"
  using eq_trans [OF assms(2,1,3,4)] eq_sym [OF assms(3,1,5)] by blast

end

text \<open>The keys allowed: a number is a double only if it is no 32-bit integer, as \<open>JS_NewFloat64\<close> makes
  them, and it is not \<open>-0\<close>.\<close>

fun canonical :: "js_val \<Rightarrow> bool" where
  "canonical (JS_FLOAT64 d) = (js_new_float64 d = JS_FLOAT64 d)"
| "canonical v = True"

definition map_key :: "js_val \<Rightarrow> bool" where
  "map_key k = (canonical k \<and> map_normalize_key k = k)"

lemma map_key_normalize: "canonical k \<Longrightarrow> map_key (map_normalize_key k)"
  by (cases k) (auto simp: map_key_def)

lemma double_zero_not_nan: "double_zero d \<Longrightarrow> \<not> isnan d"
proof -
  assume "double_zero d"
  then obtain q where "unat d = 2 ^ 63 * q" unfolding double_zero_def by (auto simp: mod_eq_0_iff_dvd dvd_def)
  then have "unat d = 2 ^ 52 * (2 ^ 11 * q)" by simp
  then have "double_frac d = 0" unfolding double_frac_def by (simp only: mod_mult_self1_is_0)
  then show ?thesis by (simp add: isnan_def)
qed

lemma number_test_iff: "number_test a b \<longleftrightarrow> isnan a \<and> isnan b \<or> a = b \<or> double_zero a \<and> double_zero b"
  using double_zero_not_nan [of a] double_zero_not_nan [of b] by (auto simp: number_test_def double_eq_def)

lemma sint32: "- (2 ^ 31) \<le> sint (i :: u32)" "sint (i :: u32) < 2 ^ 31" "\<bar>sint (i :: u32)\<bar> < 2 ^ 53"
proof -
  show "- (2 ^ 31) \<le> sint i" "sint i < 2 ^ 31" using sint_greater_eq [of i] sint_less [of i] by simp_all
  then show "\<bar>sint i\<bar> < 2 ^ 53" by simp
qed

lemma number_test_int: "number_test (double_of_int (sint (i :: u32))) (double_of_int (sint j)) \<longleftrightarrow> i = j"
proof -
  have "double_of_int (sint i) = double_of_int (sint j) \<longleftrightarrow> i = j"
    using double_of_int_inj [OF sint32(1,2) sint32(1,2), of i j] by (auto simp: signed_word_eqI)
  moreover have "sint i = 0 \<longleftrightarrow> i = 0" for i :: u32 using signed_word_eqI [of i 0] by auto
  ultimately show ?thesis using double_of_int_finite [OF sint32(3), of i] double_of_int_finite [OF sint32(3), of j]
    by (auto simp: number_test_iff)
qed

lemma map_key_float:
  assumes "map_key (JS_FLOAT64 d)"
  shows "\<not> double_zero d" "d \<noteq> double_of_int (sint (i :: u32))"
proof -
  have z: "double_zero 0" by (simp add: double_zero_def)
  have "double_eq d 0 \<longleftrightarrow> double_zero d" using z double_zero_not_nan [of d] double_zero_not_nan [OF z] by (auto simp: double_eq_def)
  then show "\<not> double_zero d" using assms by (auto simp: map_key_def)
  have "d \<noteq> double_of_int (int32_of_double d)" using assms by (auto simp: map_key_def js_new_float64_def Let_def split: if_splits)
  then show "d \<noteq> double_of_int (sint i)" using int32_of_double_of_int [OF sint32(1,2), of i] by auto
qed

lemma number_test_mixed:
  assumes "map_key (JS_FLOAT64 d)"
  shows "\<not> number_test (double_of_int (sint (i :: u32))) d" "\<not> number_test d (double_of_int (sint (i :: u32)))"
  using map_key_float(1) [OF assms] map_key_float(2) [OF assms, of i] double_of_int_finite(1) [OF sint32(3), of i] by (auto simp: number_test_iff)

lemma same_value_zero_int: "js_same_value_zero (JS_INT i) (JS_INT j) \<longleftrightarrow> i = j"
  by (simp add: number_test_int)

text \<open>On the keys allowed the equality is the equality of a normal form.\<close>

datatype key_class =
    KInt u32
  | KNan
  | KFloat u64
  | KString "int list"
  | KOther js_val

fun key_form :: "js_val \<Rightarrow> key_class" where
  "key_form (JS_INT i) = KInt i"
| "key_form (JS_FLOAT64 d) = (if isnan d then KNan else KFloat d)"
| "key_form (JS_STRING p s) = KString (code_units s)"
| "key_form v = KOther v"

lemma same_value_zero_form:
  assumes "map_key a" "map_key b"
  shows "js_same_value_zero a b \<longleftrightarrow> key_form a = key_form b"
proof (cases a)
  case (JS_INT i)
  then show ?thesis using number_test_mixed(1) assms(2) by (cases b) (auto simp: number_test_int)
next
  case (JS_FLOAT64 d)
  show ?thesis
  proof (cases b)
    case (JS_INT j)
    then show ?thesis using number_test_mixed(2) assms(1) JS_FLOAT64 by auto
  next
    case b: (JS_FLOAT64 d2)
    then show ?thesis using map_key_float(1) assms JS_FLOAT64 by (auto simp: number_test_iff)
  qed (use JS_FLOAT64 in auto)
qed (cases b; force simp: js_string_compare_zero split: if_splits)+

lemma map_hash_key_form:
  assumes "key_form a = key_form b"
  shows "map_hash_key a = map_hash_key b"
  using assms by (cases a; cases b; simp add: map_hash_key.simps hash_string_units split: if_splits)

interpretation map_keys: hash_keys map_key js_same_value_zero map_hash_key
  by unfold_locales (auto simp: same_value_zero_form intro: map_hash_key_form)

end
