(* ===== verification/Js_Map.thy ===== *)
theory Js_Map
  imports Js_Key
begin

text \<open>
  \<open>Map\<close>, \<open>Set\<close>, \<open>WeakMap\<close> and \<open>WeakSet\<close> of \<^verbatim>\<open>quickjs.c\<close>: records in insertion order on an intrusive
  list, a hash table of intrusive lists through the same records, deletion that keeps a record
  which an iterator stands on, and iteration. The address of a record stands for both of its list
  links, which live in two heaps (\<open>mlinks\<close> for \<open>link\<close>, \<open>hlinks\<close> for \<open>hash_link\<close> and the buckets). A
  record that has been freed is in no heap, so that using it is \<open>None\<close>.
\<close>

section \<open>The state\<close>

record map_record =
  mr_ref_count :: int
  mr_empty :: bool
  mr_map :: addr
  mr_next_weak_ref :: addr
  mr_key :: js_val
  mr_value :: js_val

text \<open>\<open>JSMapState\<close>, with the class of its object: \<open>0\<close> for \<open>Map\<close>, \<open>MAGIC_SET\<close> and \<open>MAGIC_WEAK\<close> as bits. It
  is known by the address of its object; \<open>records_head\<close> is the address of its \<open>records\<close>.\<close>

record map_state =
  map_class :: nat
  is_weak :: bool
  records_head :: addr
  record_count :: u32
  hash_table :: addr
  hash_size :: u32
  record_count_threshold :: u32

datatype iterator_kind = JS_ITERATOR_KIND_KEY | JS_ITERATOR_KIND_VALUE | JS_ITERATOR_KIND_KEY_AND_VALUE

record map_iterator =
  it_class :: nat
  it_obj :: js_val
  it_kind :: iterator_kind
  it_cur_record :: addr

text \<open>\<open>map_usable\<close> answers the allocations: the number of bytes given for the request of that number, at
  that time, or none. \<open>map_refs\<close> are the references to values that this code took and not yet gave
  back.\<close>

record map_rt =
  mlinks :: links
  hlinks :: links
  recs :: "addr \<Rightarrow> map_record option"
  maps :: "addr \<Rightarrow> map_state option"
  iters :: "addr \<Rightarrow> map_iterator option"
  first_weak_ref :: "addr \<Rightarrow> addr"
  map_usable :: "nat \<Rightarrow> nat \<Rightarrow> nat option"
  map_clock :: nat
  map_next :: addr
  map_refs :: "js_val \<Rightarrow> int"

datatype map_result = MAP_EXCEPTION | MAP_VALUE js_val | MAP_ARRAY "js_val list"

text \<open>What \<open>JS_FreeValue\<close> does beyond giving back the reference, when it was the last one: the
  finalizers that run.\<close>

type_synonym finalizers = "js_val \<Rightarrow> map_rt \<Rightarrow> map_rt option"

definition sizeof_list_head :: nat where "sizeof_list_head = 16"

definition sizeof_map_record :: nat where "sizeof_map_record = 88"

definition magic_set :: "nat \<Rightarrow> bool" where
  "magic_set magic = odd magic"

definition magic_weak :: "nat \<Rightarrow> bool" where
  "magic_weak magic = odd (magic div 2)"

definition dup_val :: "js_val \<Rightarrow> map_rt \<Rightarrow> map_rt" where
  "dup_val v rt = rt\<lparr>map_refs := (map_refs rt)(v := map_refs rt v + 1)\<rparr>"

definition free_val :: "finalizers \<Rightarrow> js_val \<Rightarrow> map_rt \<Rightarrow> map_rt option" where
  "free_val fin v rt = fin v (rt\<lparr>map_refs := (map_refs rt)(v := map_refs rt v - 1)\<rparr>)"

text \<open>\<open>js_malloc\<close> of an object that takes \<open>n\<close> addresses; \<open>0\<close> when there is no memory.\<close>

definition map_malloc :: "nat \<Rightarrow> nat \<Rightarrow> map_rt \<Rightarrow> addr \<times> map_rt" where
  "map_malloc bytes n rt =
     (case map_usable rt (map_clock rt) bytes of
        None \<Rightarrow> (0, rt\<lparr>map_clock := map_clock rt + 1\<rparr>)
      | Some _ \<Rightarrow> (map_next rt, rt\<lparr>map_clock := map_clock rt + 1, map_next := map_next rt + n\<rparr>))"

definition set_rec :: "map_rt \<Rightarrow> addr \<Rightarrow> map_record \<Rightarrow> map_rt" where
  "set_rec rt mr r = rt\<lparr>recs := (recs rt)(mr \<mapsto> r)\<rparr>"

definition set_map :: "map_rt \<Rightarrow> addr \<Rightarrow> map_state \<Rightarrow> map_rt" where
  "set_map rt s m = rt\<lparr>maps := (maps rt)(s \<mapsto> m)\<rparr>"

text \<open>\<open>js_free_rt\<close> of a record.\<close>

definition free_rec :: "map_rt \<Rightarrow> addr \<Rightarrow> map_rt" where
  "free_rec rt mr =
     rt\<lparr>recs := (recs rt)(mr := None), mlinks := (mlinks rt)(mr := None), hlinks := (hlinks rt)(mr := None)\<rparr>"

section \<open>Records and the hash table\<close>

definition bucket_of :: "map_state \<Rightarrow> js_val \<Rightarrow> addr" where
  "bucket_of m key = hash_table m + unat (map_hash_key key AND (hash_size m - 1))"

partial_function (option) map_find_loop :: "map_rt \<Rightarrow> js_val \<Rightarrow> addr \<Rightarrow> addr \<Rightarrow> addr option" where
  "map_find_loop rt key head el =
     (if el = head then Some 0
      else do {
        mr \<leftarrow> recs rt el;
        if js_same_value_zero (mr_key mr) key then Some el
        else do {
          n \<leftarrow> get_next (hlinks rt) el;
          map_find_loop rt key head n
        }
      })"

declare map_find_loop.simps [code]

definition map_find_record :: "map_rt \<Rightarrow> addr \<Rightarrow> js_val \<Rightarrow> addr option" where
  "map_find_record rt s key = do {
     m \<leftarrow> maps rt s;
     let b = bucket_of m key;
     el \<leftarrow> get_next (hlinks rt) b;
     map_find_loop rt key b el
   }"

fun init_buckets :: "links \<Rightarrow> addr \<Rightarrow> nat \<Rightarrow> links option" where
  "init_buckets h t 0 = Some h"
| "init_buckets h t (Suc n) = do { h \<leftarrow> init_list_head h t; init_buckets h (t + 1) n }"

partial_function (option) map_rehash_loop :: "map_rt \<Rightarrow> map_state \<Rightarrow> addr \<Rightarrow> links \<Rightarrow> links option" where
  "map_rehash_loop rt m el hl =
     (if el = records_head m then Some hl
      else do {
        mr \<leftarrow> recs rt el;
        hl \<leftarrow> (if \<not> mr_empty mr then list_add_tail hl el (bucket_of m (mr_key mr)) else Some hl);
        n \<leftarrow> get_next (mlinks rt) el;
        map_rehash_loop rt m n hl
      })"

declare map_rehash_loop.simps [code]

text \<open>\<open>js_realloc2\<close> moves the table to a new block and gives up the old one. Its contents do not matter:
  every bucket is initialised.\<close>

definition new_table :: "links \<Rightarrow> addr \<Rightarrow> nat \<Rightarrow> addr \<Rightarrow> nat \<Rightarrow> links" where
  "new_table h old n t k = (\<lambda>a.
     if t \<le> a \<and> a < t + k then Some \<lparr>lprev = 0, lnext = 0\<rparr>
     else if old \<le> a \<and> a < old + n then None
     else h a)"

definition map_hash_resize :: "map_rt \<Rightarrow> addr \<Rightarrow> map_rt option" where
  "map_hash_resize rt s = do {
     m \<leftarrow> maps rt s;
     let new_hash_size = (if hash_size m = 1 then 4 else hash_size m * 2);
     let bytes = sizeof_list_head * unat new_hash_size;
     let usable = map_usable rt (map_clock rt) bytes;
     let rt = rt\<lparr>map_clock := map_clock rt + 1\<rparr>;
     case usable of
       None \<Rightarrow> Some rt
     | Some usable \<Rightarrow> do {
         let slack = usable - bytes;
         let k = unat new_hash_size + slack div sizeof_list_head;
         let new_hash_size = new_hash_size + word_of_nat (slack div sizeof_list_head);
         let t = map_next rt;
         let rt = rt\<lparr>map_next := t + k, hlinks := new_table (hlinks rt) (hash_table m) (unat (hash_size m)) t k\<rparr>;
         hl \<leftarrow> init_buckets (hlinks rt) t (unat new_hash_size);
         let m = m\<lparr>hash_table := t, hash_size := new_hash_size, record_count_threshold := new_hash_size * 2\<rparr>;
         el \<leftarrow> get_next (mlinks rt) (records_head m);
         hl \<leftarrow> map_rehash_loop rt m el hl;
         Some (set_map (rt\<lparr>hlinks := hl\<rparr>) s m)
       }
   }"

text \<open>The weak reference that a new record adds to its object.\<close>

definition add_weak_ref :: "map_rt \<Rightarrow> addr \<Rightarrow> map_rt option" where
  "add_weak_ref rt mr = do {
     r \<leftarrow> recs rt mr;
     case mr_key r of
       JS_OBJECT p \<Rightarrow>
         Some ((set_rec rt mr (r\<lparr>mr_next_weak_ref := first_weak_ref rt p\<rparr>))\<lparr>first_weak_ref := (first_weak_ref rt)(p := mr)\<rparr>)
     | _ \<Rightarrow> None
   }"

definition map_add_record :: "map_rt \<Rightarrow> addr \<Rightarrow> js_val \<Rightarrow> (addr \<times> map_rt) option" where
  "map_add_record rt s key = do {
     m \<leftarrow> maps rt s;
     let (mr, rt) = map_malloc sizeof_map_record 1 rt;
     if mr = 0 then Some (0, rt)
     else do {
       let rt = rt\<lparr>mlinks := (mlinks rt)(mr \<mapsto> \<lparr>lprev = 0, lnext = 0\<rparr>),
         hlinks := (hlinks rt)(mr \<mapsto> \<lparr>lprev = 0, lnext = 0\<rparr>)\<rparr>;
       let rt = set_rec rt mr \<lparr>mr_ref_count = 1, mr_empty = False, mr_map = s, mr_next_weak_ref = 0, mr_key = key,
         mr_value = JS_UNDEFINED\<rparr>;
       rt \<leftarrow> (if is_weak m then add_weak_ref rt mr else Some (dup_val key rt));
       hl \<leftarrow> list_add_tail (hlinks rt) mr (bucket_of m key);
       ml \<leftarrow> list_add_tail (mlinks rt) mr (records_head m);
       let m = m\<lparr>record_count := record_count m + 1\<rparr>;
       let rt = set_map (rt\<lparr>hlinks := hl, mlinks := ml\<rparr>) s m;
       if record_count_threshold m \<le> record_count m then do {
         rt \<leftarrow> map_hash_resize rt s;
         Some (mr, rt)
       }
       else Some (mr, rt)
     }
   }"

text \<open>The walk of \<open>delete_weak_ref\<close>: the record before \<open>mr\<close>, or \<open>0\<close> for the object itself.\<close>

partial_function (option) weak_ref_before :: "map_rt \<Rightarrow> addr \<Rightarrow> addr \<Rightarrow> addr \<Rightarrow> addr option" where
  "weak_ref_before rt mr before mr1 =
     (if mr1 = 0 then None
      else if mr1 = mr then Some before
      else do { r \<leftarrow> recs rt mr1; weak_ref_before rt mr mr1 (mr_next_weak_ref r) })"

declare weak_ref_before.simps [code]

definition delete_weak_ref :: "map_rt \<Rightarrow> addr \<Rightarrow> map_rt option" where
  "delete_weak_ref rt mr = do {
     r \<leftarrow> recs rt mr;
     case mr_key r of
       JS_OBJECT p \<Rightarrow> do {
         before \<leftarrow> weak_ref_before rt mr 0 (first_weak_ref rt p);
         if before = 0 then Some (rt\<lparr>first_weak_ref := (first_weak_ref rt)(p := mr_next_weak_ref r)\<rparr>)
         else do {
           b \<leftarrow> recs rt before;
           Some (set_rec rt before (b\<lparr>mr_next_weak_ref := mr_next_weak_ref r\<rparr>))
         }
       }
     | _ \<Rightarrow> None
   }"

text \<open>\<open>list_del(&mr->link)\<close> and \<open>js_free_rt\<close>.\<close>

definition unlink_rec :: "map_rt \<Rightarrow> addr \<Rightarrow> map_rt option" where
  "unlink_rec rt mr = do { ml \<leftarrow> list_del (mlinks rt) mr; Some (free_rec (rt\<lparr>mlinks := ml\<rparr>) mr) }"

definition map_delete_record :: "finalizers \<Rightarrow> map_rt \<Rightarrow> addr \<Rightarrow> addr \<Rightarrow> map_rt option" where
  "map_delete_record fin rt s mr = do {
     r \<leftarrow> recs rt mr;
     if mr_empty r then Some rt
     else do {
       hl \<leftarrow> list_del (hlinks rt) mr;
       let rt = rt\<lparr>hlinks := hl\<rparr>;
       m \<leftarrow> maps rt s;
       rt \<leftarrow> (if is_weak m then delete_weak_ref rt mr else free_val fin (mr_key r) rt);
       r \<leftarrow> recs rt mr;
       rt \<leftarrow> free_val fin (mr_value r) rt;
       r \<leftarrow> recs rt mr;
       let r = r\<lparr>mr_ref_count := mr_ref_count r - 1\<rparr>;
       rt \<leftarrow> (if mr_ref_count r = 0 then unlink_rec rt mr
         else Some (set_rec rt mr (r\<lparr>mr_empty := True, mr_key := JS_UNDEFINED, mr_value := JS_UNDEFINED\<rparr>)));
       m \<leftarrow> maps rt s;
       Some (set_map rt s (m\<lparr>record_count := record_count m - 1\<rparr>))
     }
   }"

definition map_decref_record :: "map_rt \<Rightarrow> addr \<Rightarrow> map_rt option" where
  "map_decref_record rt mr = do {
     r \<leftarrow> recs rt mr;
     let r = r\<lparr>mr_ref_count := mr_ref_count r - 1\<rparr>;
     if mr_ref_count r = 0 then if mr_empty r then unlink_rec rt mr else None
     else Some (set_rec rt mr r)
   }"

text \<open>The two passes of \<open>reset_weak_ref\<close>, when an object with weak references dies.\<close>

partial_function (option) reset_weak_unlink :: "map_rt \<Rightarrow> addr \<Rightarrow> map_rt option" where
  "reset_weak_unlink rt mr =
     (if mr = 0 then Some rt
      else do {
        r \<leftarrow> recs rt mr;
        s \<leftarrow> maps rt (mr_map r);
        if \<not> is_weak s \<or> mr_empty r then None
        else do {
          hl \<leftarrow> list_del (hlinks rt) mr;
          ml \<leftarrow> list_del (mlinks rt) mr;
          reset_weak_unlink (rt\<lparr>hlinks := hl, mlinks := ml\<rparr>) (mr_next_weak_ref r)
        }
      })"

declare reset_weak_unlink.simps [code]

partial_function (option) reset_weak_free :: "finalizers \<Rightarrow> map_rt \<Rightarrow> addr \<Rightarrow> map_rt option" where
  "reset_weak_free fin rt mr =
     (if mr = 0 then Some rt
      else do {
        r \<leftarrow> recs rt mr;
        rt \<leftarrow> free_val fin (mr_value r) rt;
        reset_weak_free fin (free_rec rt mr) (mr_next_weak_ref r)
      })"

declare reset_weak_free.simps [code]

definition reset_weak_ref :: "finalizers \<Rightarrow> map_rt \<Rightarrow> addr \<Rightarrow> map_rt option" where
  "reset_weak_ref fin rt p = do {
     rt \<leftarrow> reset_weak_unlink rt (first_weak_ref rt p);
     rt \<leftarrow> reset_weak_free fin rt (first_weak_ref rt p);
     Some (rt\<lparr>first_weak_ref := (first_weak_ref rt)(p := 0)\<rparr>)
   }"

section \<open>The functions of the prototype\<close>

text \<open>\<open>JS_GetOpaque2(ctx, this_val, JS_CLASS_MAP + magic)\<close>.\<close>

definition get_map :: "map_rt \<Rightarrow> js_val \<Rightarrow> nat \<Rightarrow> addr option" where
  "get_map rt v magic =
     (case v of
        JS_OBJECT p \<Rightarrow> (case maps rt p of Some m \<Rightarrow> if map_class m = magic then Some p else None | None \<Rightarrow> None)
      | _ \<Rightarrow> None)"

fun is_object :: "js_val \<Rightarrow> bool" where
  "is_object (JS_OBJECT p) = True"
| "is_object v = False"

text \<open>The constructor, up to the iterable argument.\<close>

definition js_map_constructor :: "map_rt \<Rightarrow> nat \<Rightarrow> map_result \<times> map_rt" where
  "js_map_constructor rt magic =
     (let (obj, rt) = map_malloc 1 1 rt in
      if obj = 0 then (MAP_EXCEPTION, rt)
      else let (s, rt) = map_malloc 1 1 rt in
        if s = 0 then (MAP_EXCEPTION, rt)
        else let rt = rt\<lparr>mlinks := (mlinks rt)(s \<mapsto> \<lparr>lprev = s, lnext = s\<rparr>)\<rparr>;
            (t, rt) = map_malloc sizeof_list_head 1 rt in
          if t = 0 then (MAP_EXCEPTION, rt\<lparr>mlinks := (mlinks rt)(s := None)\<rparr>)
          else (MAP_VALUE (JS_OBJECT obj),
            (set_map rt obj \<lparr>map_class = magic, is_weak = magic_weak magic, records_head = s, record_count = 0,
               hash_table = t, hash_size = 1, record_count_threshold = 4\<rparr>)
            \<lparr>hlinks := (hlinks rt)(t \<mapsto> \<lparr>lprev = t, lnext = t\<rparr>)\<rparr>))"

definition js_map_set :: "finalizers \<Rightarrow> map_rt \<Rightarrow> js_val \<Rightarrow> nat \<Rightarrow> js_val \<Rightarrow> js_val \<Rightarrow> (map_result \<times> map_rt) option" where
  "js_map_set fin rt this_val magic arg0 arg1 =
     (case get_map rt this_val magic of
        None \<Rightarrow> Some (MAP_EXCEPTION, rt)
      | Some s \<Rightarrow> do {
          m \<leftarrow> maps rt s;
          let key = map_normalize_key arg0;
          if is_weak m \<and> \<not> is_object key then Some (MAP_EXCEPTION, rt)
          else do {
            let val = (if magic_set magic then JS_UNDEFINED else arg1);
            mr \<leftarrow> map_find_record rt s key;
            (mr, rt) \<leftarrow> (if mr \<noteq> 0 then do {
                r \<leftarrow> recs rt mr;
                rt \<leftarrow> free_val fin (mr_value r) rt;
                Some (mr, rt)
              } else map_add_record rt s key);
            if mr = 0 then Some (MAP_EXCEPTION, rt)
            else do {
              r \<leftarrow> recs rt mr;
              Some (MAP_VALUE this_val, dup_val this_val (set_rec (dup_val val rt) mr (r\<lparr>mr_value := val\<rparr>)))
            }
          }
        })"

definition js_map_get :: "map_rt \<Rightarrow> js_val \<Rightarrow> nat \<Rightarrow> js_val \<Rightarrow> (map_result \<times> map_rt) option" where
  "js_map_get rt this_val magic arg0 =
     (case get_map rt this_val magic of
        None \<Rightarrow> Some (MAP_EXCEPTION, rt)
      | Some s \<Rightarrow> do {
          mr \<leftarrow> map_find_record rt s (map_normalize_key arg0);
          if mr = 0 then Some (MAP_VALUE JS_UNDEFINED, rt)
          else do {
            r \<leftarrow> recs rt mr;
            Some (MAP_VALUE (mr_value r), dup_val (mr_value r) rt)
          }
        })"

definition js_map_has :: "map_rt \<Rightarrow> js_val \<Rightarrow> nat \<Rightarrow> js_val \<Rightarrow> (map_result \<times> map_rt) option" where
  "js_map_has rt this_val magic arg0 =
     (case get_map rt this_val magic of
        None \<Rightarrow> Some (MAP_EXCEPTION, rt)
      | Some s \<Rightarrow> do {
          mr \<leftarrow> map_find_record rt s (map_normalize_key arg0);
          Some (MAP_VALUE (js_new_bool (mr \<noteq> 0)), rt)
        })"

definition js_map_delete :: "finalizers \<Rightarrow> map_rt \<Rightarrow> js_val \<Rightarrow> nat \<Rightarrow> js_val \<Rightarrow> (map_result \<times> map_rt) option" where
  "js_map_delete fin rt this_val magic arg0 =
     (case get_map rt this_val magic of
        None \<Rightarrow> Some (MAP_EXCEPTION, rt)
      | Some s \<Rightarrow> do {
          mr \<leftarrow> map_find_record rt s (map_normalize_key arg0);
          if mr = 0 then Some (MAP_VALUE (JS_BOOL False), rt)
          else do {
            rt \<leftarrow> map_delete_record fin rt s mr;
            Some (MAP_VALUE (JS_BOOL True), rt)
          }
        })"

text \<open>\<open>list_for_each_safe\<close>: the next element is read before the body, and the one after it from there.\<close>

partial_function (option) map_clear_loop :: "finalizers \<Rightarrow> addr \<Rightarrow> addr \<Rightarrow> addr \<Rightarrow> addr \<Rightarrow> map_rt \<Rightarrow> map_rt option" where
  "map_clear_loop fin s head el el1 rt =
     (if el = head then Some rt
      else do {
        rt \<leftarrow> map_delete_record fin rt s el;
        n \<leftarrow> get_next (mlinks rt) el1;
        map_clear_loop fin s head el1 n rt
      })"

declare map_clear_loop.simps [code]

definition js_map_clear :: "finalizers \<Rightarrow> map_rt \<Rightarrow> js_val \<Rightarrow> nat \<Rightarrow> (map_result \<times> map_rt) option" where
  "js_map_clear fin rt this_val magic =
     (case get_map rt this_val magic of
        None \<Rightarrow> Some (MAP_EXCEPTION, rt)
      | Some s \<Rightarrow> do {
          m \<leftarrow> maps rt s;
          el \<leftarrow> get_next (mlinks rt) (records_head m);
          el1 \<leftarrow> get_next (mlinks rt) el;
          rt \<leftarrow> map_clear_loop fin s (records_head m) el el1 rt;
          Some (MAP_VALUE JS_UNDEFINED, rt)
        })"

definition js_map_get_size :: "map_rt \<Rightarrow> js_val \<Rightarrow> nat \<Rightarrow> (map_result \<times> map_rt) option" where
  "js_map_get_size rt this_val magic =
     (case get_map rt this_val magic of
        None \<Rightarrow> Some (MAP_EXCEPTION, rt)
      | Some s \<Rightarrow> do { m \<leftarrow> maps rt s; Some (MAP_VALUE (js_new_uint32 (record_count m)), rt) })"

text \<open>The function called for each record is a parameter: it may do anything to the map.\<close>

type_synonym map_callback = "js_val list \<Rightarrow> map_rt \<Rightarrow> (map_result \<times> map_rt) option"

partial_function (option) map_for_each_loop ::
  "finalizers \<Rightarrow> map_callback \<Rightarrow> js_val \<Rightarrow> nat \<Rightarrow> addr \<Rightarrow> addr \<Rightarrow> map_rt \<Rightarrow> (map_result \<times> map_rt) option" where
  "map_for_each_loop fin call this_val magic head el rt =
     (if el = head then Some (MAP_VALUE JS_UNDEFINED, rt)
      else do {
        r \<leftarrow> recs rt el;
        if \<not> mr_empty r then do {
          let rt = set_rec rt el (r\<lparr>mr_ref_count := mr_ref_count r + 1\<rparr>);
          let rt = dup_val (mr_key r) rt;
          let arg0 = (if magic \<noteq> 0 then mr_key r else mr_value r);
          let rt = (if magic \<noteq> 0 then rt else dup_val (mr_value r) rt);
          (ret, rt) \<leftarrow> call [arg0, mr_key r, this_val] rt;
          rt \<leftarrow> free_val fin arg0 rt;
          rt \<leftarrow> (if magic = 0 then free_val fin (mr_key r) rt else Some rt);
          n \<leftarrow> get_next (mlinks rt) el;
          rt \<leftarrow> map_decref_record rt el;
          case ret of
            MAP_EXCEPTION \<Rightarrow> Some (MAP_EXCEPTION, rt)
          | MAP_VALUE v \<Rightarrow> do {
              rt \<leftarrow> free_val fin v rt;
              map_for_each_loop fin call this_val magic head n rt
            }
          | MAP_ARRAY vs \<Rightarrow> map_for_each_loop fin call this_val magic head n rt
        }
        else do {
          n \<leftarrow> get_next (mlinks rt) el;
          map_for_each_loop fin call this_val magic head n rt
        }
      })"

declare map_for_each_loop.simps [code]

definition js_map_for_each ::
  "finalizers \<Rightarrow> bool \<Rightarrow> map_callback \<Rightarrow> map_rt \<Rightarrow> js_val \<Rightarrow> nat \<Rightarrow> (map_result \<times> map_rt) option" where
  "js_map_for_each fin is_function call rt this_val magic =
     (case get_map rt this_val magic of
        None \<Rightarrow> Some (MAP_EXCEPTION, rt)
      | Some s \<Rightarrow>
          if \<not> is_function then Some (MAP_EXCEPTION, rt)
          else do {
            m \<leftarrow> maps rt s;
            el \<leftarrow> get_next (mlinks rt) (records_head m);
            map_for_each_loop fin call this_val magic (records_head m) el rt
          })"

partial_function (option) map_finalize_loop :: "finalizers \<Rightarrow> addr \<Rightarrow> bool \<Rightarrow> addr \<Rightarrow> addr \<Rightarrow> map_rt \<Rightarrow> map_rt option" where
  "map_finalize_loop fin head weak el el1 rt =
     (if el = head then Some rt
      else do {
        r \<leftarrow> recs rt el;
        rt \<leftarrow> (if mr_empty r then Some rt
          else do {
            rt \<leftarrow> (if weak then delete_weak_ref rt el else free_val fin (mr_key r) rt);
            free_val fin (mr_value r) rt
          });
        let rt = free_rec rt el;
        n \<leftarrow> get_next (mlinks rt) el1;
        map_finalize_loop fin head weak el1 n rt
      })"

declare map_finalize_loop.simps [code]

definition js_map_finalizer :: "finalizers \<Rightarrow> map_rt \<Rightarrow> addr \<Rightarrow> map_rt option" where
  "js_map_finalizer fin rt s =
     (case maps rt s of
        None \<Rightarrow> Some rt
      | Some m \<Rightarrow> do {
          el \<leftarrow> get_next (mlinks rt) (records_head m);
          el1 \<leftarrow> get_next (mlinks rt) el;
          rt \<leftarrow> map_finalize_loop fin (records_head m) (is_weak m) el el1 rt;
          Some (rt\<lparr>maps := (maps rt)(s := None), mlinks := (mlinks rt)(records_head m := None),
            hlinks := (\<lambda>a. if hash_table m \<le> a \<and> a < hash_table m + unat (hash_size m) then None else hlinks rt a)\<rparr>)
        })"

section \<open>Iterators\<close>

definition js_create_map_iterator ::
  "map_rt \<Rightarrow> js_val \<Rightarrow> nat \<Rightarrow> iterator_kind \<Rightarrow> map_result \<times> map_rt" where
  "js_create_map_iterator rt this_val magic kind =
     (case get_map rt this_val magic of
        None \<Rightarrow> (MAP_EXCEPTION, rt)
      | Some s \<Rightarrow>
          let (obj, rt) = map_malloc 1 1 rt in
          if obj = 0 then (MAP_EXCEPTION, rt)
          else let (it, rt) = map_malloc 1 0 rt in
            if it = 0 then (MAP_EXCEPTION, rt)
            else (MAP_VALUE (JS_OBJECT obj),
              (dup_val this_val rt)\<lparr>iters := (iters rt)(obj \<mapsto>
                \<lparr>it_class = magic, it_obj = this_val, it_kind = kind, it_cur_record = 0\<rparr>)\<rparr>))"

definition set_iter :: "map_rt \<Rightarrow> addr \<Rightarrow> map_iterator \<Rightarrow> map_rt" where
  "set_iter rt i it = rt\<lparr>iters := (iters rt)(i \<mapsto> it)\<rparr>"

text \<open>The loop of \<open>js_map_iterator_next\<close>: the next record that is not deleted, or the head.\<close>

partial_function (option) map_next_loop :: "map_rt \<Rightarrow> addr \<Rightarrow> addr \<Rightarrow> addr option" where
  "map_next_loop rt head el =
     (if el = head then Some head
      else do {
        r \<leftarrow> recs rt el;
        if \<not> mr_empty r then Some el
        else do { n \<leftarrow> get_next (mlinks rt) el; map_next_loop rt head n }
      })"

declare map_next_loop.simps [code]

definition map_iterator_result :: "map_rt \<Rightarrow> nat \<Rightarrow> iterator_kind \<Rightarrow> map_record \<Rightarrow> map_result \<times> map_rt" where
  "map_iterator_result rt magic kind r =
     (case kind of
        JS_ITERATOR_KIND_KEY \<Rightarrow> (MAP_VALUE (mr_key r), dup_val (mr_key r) rt)
      | _ \<Rightarrow>
        let v = (if magic \<noteq> 0 then mr_key r else mr_value r) in
        if kind = JS_ITERATOR_KIND_VALUE then (MAP_VALUE v, dup_val v rt)
        else let (a, rt) = map_malloc 1 1 rt in
          if a = 0 then (MAP_EXCEPTION, rt) else (MAP_ARRAY [mr_key r, v], dup_val v (dup_val (mr_key r) rt)))"

text \<open>Where \<open>js_map_iterator_next\<close> begins; the record left can be freed here.\<close>

definition map_iterator_start :: "map_rt \<Rightarrow> map_state \<Rightarrow> map_iterator \<Rightarrow> (addr \<times> map_rt) option" where
  "map_iterator_start rt m it =
     (if it_cur_record it = 0 then do {
        el \<leftarrow> get_next (mlinks rt) (records_head m);
        Some (el, rt)
      } else do {
        el \<leftarrow> get_next (mlinks rt) (it_cur_record it);
        rt \<leftarrow> map_decref_record rt (it_cur_record it);
        Some (el, rt)
      })"

text \<open>The result, \<open>*pdone\<close> and the state.\<close>

definition js_map_iterator_next ::
  "finalizers \<Rightarrow> map_rt \<Rightarrow> js_val \<Rightarrow> nat \<Rightarrow> (map_result \<times> bool \<times> map_rt) option" where
  "js_map_iterator_next fin rt this_val magic =
     (case this_val of
        JS_OBJECT i \<Rightarrow>
          (case iters rt i of
             None \<Rightarrow> Some (MAP_EXCEPTION, False, rt)
           | Some it \<Rightarrow>
               if it_class it \<noteq> magic then Some (MAP_EXCEPTION, False, rt)
               else if it_obj it = JS_UNDEFINED then Some (MAP_VALUE JS_UNDEFINED, True, rt)
               else do {
                 s \<leftarrow> get_map rt (it_obj it) magic;
                 m \<leftarrow> maps rt s;
                 (el, rt) \<leftarrow> map_iterator_start rt m it;
                 el \<leftarrow> map_next_loop rt (records_head m) el;
                 if el = records_head m then do {
                   rt \<leftarrow> free_val fin (it_obj it) (set_iter rt i (it\<lparr>it_cur_record := 0\<rparr>));
                   Some (MAP_VALUE JS_UNDEFINED, True, set_iter rt i (it\<lparr>it_cur_record := 0, it_obj := JS_UNDEFINED\<rparr>))
                 } else do {
                   r \<leftarrow> recs rt el;
                   let rt = set_iter (set_rec rt el (r\<lparr>mr_ref_count := mr_ref_count r + 1\<rparr>)) i (it\<lparr>it_cur_record := el\<rparr>);
                   let (ret, rt) = map_iterator_result rt magic (it_kind it) r;
                   Some (ret, False, rt)
                 }
               })
      | _ \<Rightarrow> Some (MAP_EXCEPTION, False, rt))"

text \<open>An object is live while its map is there.\<close>

definition js_map_iterator_finalizer :: "finalizers \<Rightarrow> map_rt \<Rightarrow> addr \<Rightarrow> map_rt option" where
  "js_map_iterator_finalizer fin rt i =
     (case iters rt i of
        None \<Rightarrow> Some rt
      | Some it \<Rightarrow> do {
          rt \<leftarrow> (case it_obj it of
               JS_OBJECT p \<Rightarrow>
                 (if maps rt p \<noteq> None \<and> it_cur_record it \<noteq> 0 then map_decref_record rt (it_cur_record it) else Some rt)
             | _ \<Rightarrow> Some rt);
          rt \<leftarrow> free_val fin (it_obj it) rt;
          Some (rt\<lparr>iters := (iters rt)(i := None)\<rparr>)
        })"

end
