(* ===== verification/Js_Map_Inv.thy ===== *)
theory Js_Map_Inv
  imports Js_Map
begin

text \<open>
  The invariant of a map of \<^verbatim>\<open>quickjs.c\<close> and what its internal routines do to it: the list of the
  records with their entries, in insertion order, where a deleted record that an iterator stands on
  has no entry any more.
\<close>

section \<open>What a heap says of a map\<close>

type_synonym entry = "js_val \<times> js_val"
type_synonym cells = "(addr \<times> entry option) list"

definition live :: "cells \<Rightarrow> (addr \<times> entry) list" where
  "live xs = List.map_filter (\<lambda>(a, x). map_option (Pair a) x) xs"

lemma live_simps [simp]:
  "live [] = []" "live ((a, Some e) # xs) = (a, e) # live xs" "live ((a, None) # xs) = live xs"
  "live (xs @ ys) = live xs @ live ys"
  by (simp_all add: live_def List.map_filter_def)

lemma live_Cons: "live (c # xs) = (case snd c of None \<Rightarrow> [] | Some e \<Rightarrow> [(fst c, e)]) @ live xs"
  by (cases c) (simp split: option.split)

lemma live_iff: "(a, e) \<in> set (live xs) \<longleftrightarrow> (a, Some e) \<in> set xs"
proof (induction xs)
  case (Cons c xs)
  then show ?case by (cases c; cases e) (auto simp: live_Cons split: option.splits)
qed simp

lemma live_fst: "fst ` set (live xs) \<subseteq> fst ` set xs"
  by (force simp: live_iff)

definition bucket :: "map_state \<Rightarrow> cells \<Rightarrow> addr \<Rightarrow> addr list" where
  "bucket m xs b = map fst (filter (\<lambda>(a, k, v). bucket_of m k = b) (live xs))"

lemma bucket_simps [simp]:
  "bucket m [] b = []"
  "bucket m ((a, Some (k, v)) # xs) b = (if bucket_of m k = b then [a] else []) @ bucket m xs b"
  "bucket m ((a, None) # xs) b = bucket m xs b"
  "bucket m (xs @ ys) b = bucket m xs b @ bucket m ys b"
  by (simp_all add: bucket_def)

lemma set_bucket: "a \<in> set (bucket m xs b) \<Longrightarrow> a \<in> fst ` set xs"
  using live_fst [of xs] by (force simp: bucket_def)

text \<open>\<open>lk a\<close> is the number of iterators and loops that hold the record \<open>a\<close>.\<close>

definition rec_ok :: "(addr \<Rightarrow> nat) \<Rightarrow> addr \<Rightarrow> entry option \<Rightarrow> map_record \<Rightarrow> bool" where
  "rec_ok lk a x r \<longleftrightarrow> mr_ref_count r = of_bool (x \<noteq> None) + int (lk a) \<and> mr_empty r = (x = None) \<and>
     (case x of None \<Rightarrow> 0 < lk a | Some (k, v) \<Rightarrow> mr_key r = k \<and> mr_value r = v)"

definition recs_ok :: "map_rt \<Rightarrow> cells \<Rightarrow> (addr \<Rightarrow> nat) \<Rightarrow> bool" where
  "recs_ok rt xs lk \<longleftrightarrow> (\<forall>(a, x)\<in>set xs. \<exists>r. recs rt a = Some r \<and> rec_ok lk a x r) \<and>
     (\<forall>a. a \<notin> fst ` set xs \<longrightarrow> lk a = 0)"

definition in_table :: "map_state \<Rightarrow> addr \<Rightarrow> bool" where
  "in_table m a \<longleftrightarrow> hash_table m \<le> a \<and> a < hash_table m + unat (hash_size m)"

definition table_ok :: "links \<Rightarrow> map_state \<Rightarrow> cells \<Rightarrow> bool" where
  "table_ok h m xs \<longleftrightarrow> 0 < hash_size m \<and> hash_size m < 2 ^ 31 \<and> (\<forall>b. in_table m b \<longrightarrow> ilist h b (bucket m xs b)) \<and>
     (\<forall>a\<in>fst ` set xs. \<not> in_table m a)"

definition keys_ok :: "cells \<Rightarrow> bool" where
  "keys_ok xs \<longleftrightarrow> (\<forall>(a, k, v)\<in>set (live xs). map_key k) \<and> distinct (map (\<lambda>(a, k, v). key_form k) (live xs))"

definition fresh_ok :: "map_rt \<Rightarrow> map_state \<Rightarrow> cells \<Rightarrow> bool" where
  "fresh_ok rt m xs \<longleftrightarrow> (\<forall>a\<in>fst ` set xs. 0 < a \<and> a < map_next rt) \<and> records_head m < map_next rt \<and> 0 < map_next rt \<and>
     hash_table m + unat (hash_size m) \<le> map_next rt \<and> 0 < hash_table m"

definition map_at :: "map_rt \<Rightarrow> addr \<Rightarrow> map_state \<Rightarrow> cells \<Rightarrow> (addr \<Rightarrow> nat) \<Rightarrow> bool" where
  "map_at rt s m xs lk \<longleftrightarrow> maps rt s = Some m \<and> \<not> is_weak m \<and> ilist (mlinks rt) (records_head m) (map fst xs) \<and>
     recs_ok rt xs lk \<and> table_ok (hlinks rt) m xs \<and> keys_ok xs \<and> record_count m = word_of_nat (length (live xs)) \<and>
     fresh_ok rt m xs"

text \<open>The blocks given are large enough, and smaller than \<open>2 ^ 35\<close> bytes.\<close>

definition usable_ok :: "map_rt \<Rightarrow> bool" where
  "usable_ok rt \<longleftrightarrow> (\<forall>c n u. map_usable rt c n = Some u \<longrightarrow> n \<le> u \<and> u < 2 ^ 35)"

definition quiet :: "finalizers \<Rightarrow> bool" where
  "quiet fin \<longleftrightarrow> (\<forall>v rt. fin v rt = Some rt)"

definition same_env :: "map_rt \<Rightarrow> map_rt \<Rightarrow> bool" where
  "same_env rt rt' \<longleftrightarrow> iters rt' = iters rt \<and> map_usable rt' = map_usable rt \<and> map_next rt \<le> map_next rt' \<and>
     (\<forall>s m. maps rt s = Some m \<longrightarrow> (\<exists>m'. maps rt' s = Some m' \<and> map_class m' = map_class m \<and> records_head m' = records_head m)) \<and>
     (\<forall>s. maps rt s = None \<longrightarrow> maps rt' s = None)"

lemma same_env_refl [simp]: "same_env rt rt"
  by (simp add: same_env_def)

lemma same_env_trans: "same_env rt rt1 \<Longrightarrow> same_env rt1 rt2 \<Longrightarrow> same_env rt rt2"
  unfolding same_env_def by (metis order_trans)

lemma map_atD:
  assumes "map_at rt s m xs lk"
  shows "maps rt s = Some m" "\<not> is_weak m" "ilist (mlinks rt) (records_head m) (map fst xs)" "recs_ok rt xs lk"
    "table_ok (hlinks rt) m xs" "keys_ok xs" "record_count m = word_of_nat (length (live xs))" "fresh_ok rt m xs"
    "distinct (map fst xs)"
  using assms by (simp_all add: map_at_def ilist_def)

lemma map_at_cong:
  "map_at rt s m xs lk \<Longrightarrow> mlinks rt' = mlinks rt \<Longrightarrow> hlinks rt' = hlinks rt \<Longrightarrow> recs rt' = recs rt \<Longrightarrow> maps rt' = maps rt \<Longrightarrow>
   map_next rt \<le> map_next rt' \<Longrightarrow> map_at rt' s m xs lk"
  unfolding map_at_def recs_ok_def fresh_ok_def by fastforce

lemma recs_okD: "recs_ok rt xs lk \<Longrightarrow> (a, x) \<in> set xs \<Longrightarrow> \<exists>r. recs rt a = Some r \<and> rec_ok lk a x r"
  by (auto simp: recs_ok_def)

lemma rec_ok_live: "rec_ok lk a (Some (k, v)) r \<longleftrightarrow>
    mr_ref_count r = 1 + int (lk a) \<and> \<not> mr_empty r \<and> mr_key r = k \<and> mr_value r = v"
  by (auto simp: rec_ok_def)

lemma rec_ok_dead: "rec_ok lk a None r \<longleftrightarrow> mr_ref_count r = int (lk a) \<and> mr_empty r \<and> 0 < lk a"
  by (auto simp: rec_ok_def)

section \<open>Lookup\<close>

definition find_key :: "cells \<Rightarrow> js_val \<Rightarrow> addr" where
  "find_key xs k = (case find (\<lambda>(a, k', v). js_same_value_zero k' k) (live xs) of None \<Rightarrow> 0 | Some (a, _) \<Rightarrow> a)"

lemma in_table_bucket: "0 < hash_size m \<Longrightarrow> in_table m (bucket_of m k)"
proof -
  assume "0 < hash_size m"
  then have "map_hash_key k AND (hash_size m - 1) < hash_size m"
    using word_and_le1 [of "map_hash_key k" "hash_size m - 1"] by (simp add: word_le_nat_alt word_less_nat_alt unat_sub_if')
  then show ?thesis by (simp add: in_table_def bucket_of_def word_less_nat_alt)
qed

lemma map_find_loop_ok:
  assumes "ilist (hlinks rt) b (us @ map fst vs)" "\<forall>(a, k', v)\<in>set vs. \<exists>r. recs rt a = Some r \<and> mr_key r = k'"
  shows "map_find_loop rt k b (case vs of [] \<Rightarrow> b | c # _ \<Rightarrow> fst c) =
    Some (case find (\<lambda>(a, k', v). js_same_value_zero k' k) vs of None \<Rightarrow> 0 | Some (a, _) \<Rightarrow> a)"
  using assms
proof (induction vs arbitrary: us)
  case Nil
  then show ?case by (subst map_find_loop.simps) simp
next
  case (Cons c vs)
  obtain a k' v where c: "c = (a, k', v)" by (cases c) auto
  obtain r where r: "recs rt a = Some r" "mr_key r = k'" using Cons.prems(2) by (auto simp: c)
  have ab: "a \<noteq> b" using Cons.prems(1) by (auto simp: ilist_def c)
  have n: "get_next (hlinks rt) a = Some (case vs of [] \<Rightarrow> b | c # _ \<Rightarrow> fst c)"
    using ilist_next [of "hlinks rt" b us a "map fst vs"] Cons.prems(1) by (cases vs) (simp_all add: c)
  have "ilist (hlinks rt) b ((us @ [a]) @ map fst vs)" using Cons.prems(1) by (simp add: c)
  note IH = Cons.IH [OF this]
  show ?case using IH Cons.prems(2) ab r n by (subst map_find_loop.simps) (simp add: c)
qed

lemma map_find_record_ok:
  assumes m: "map_at rt s m xs lk" and k: "map_key k"
  shows "map_find_record rt s k = Some (find_key xs k)"
proof -
  note M = map_atD [OF m]
  let ?b = "bucket_of m k"
  define vs where "vs = filter (\<lambda>(a, k', v). bucket_of m k' = ?b) (live xs)"
  have "in_table m ?b" using M(5) in_table_bucket by (simp add: table_ok_def)
  then have l: "ilist (hlinks rt) ?b ([] @ map fst vs)" using M(5) by (simp add: table_ok_def bucket_def vs_def)
  have "\<forall>(a, k', v)\<in>set vs. \<exists>r. recs rt a = Some r \<and> mr_key r = k'"
    using recs_okD [OF M(4)] by (fastforce simp: vs_def live_iff rec_ok_live)
  note f = map_find_loop_ok [OF l this, of k]
  have n: "get_next (hlinks rt) ?b = Some (case vs of [] \<Rightarrow> ?b | c # _ \<Rightarrow> fst c)"
    using l by (cases vs) (auto simp: ilist_def)
  have "\<forall>x\<in>set (live xs). map_key (fst (snd x))" using M(6) by (auto simp: keys_ok_def)
  from map_keys.find_bucket [OF this k, of "hash_size m - 1"]
  have "find (\<lambda>(a, k', v). js_same_value_zero k' k) vs = find (\<lambda>(a, k', v). js_same_value_zero k' k) (live xs)"
    by (simp add: vs_def bucket_of_def case_prod_unfold word_unat_eq_iff)
  then show ?thesis using f n M(1) by (simp add: map_find_record_def find_key_def)
qed

lemma find_key_cases:
  assumes m: "map_at rt s m xs lk"
  obtains "find_key xs k = 0" "\<forall>(a, k', v)\<in>set (live xs). \<not> js_same_value_zero k' k"
  | us a k' v vs where "find_key xs k = a" "0 < a" "xs = us @ (a, Some (k', v)) # vs" "js_same_value_zero k' k"
      "\<forall>(b, k', v)\<in>set (live us). \<not> js_same_value_zero k' k"
proof (cases "find (\<lambda>(a, k', v). js_same_value_zero k' k) (live xs)")
  case None
  moreover have "\<forall>(a, k', v)\<in>set (live xs). \<not> js_same_value_zero k' k" using None unfolding find_None_iff by blast
  ultimately show ?thesis using that(1) by (simp add: find_key_def)
next
  case (Some c)
  obtain a k' v where c: "c = (a, k', v)" by (cases c) auto
  have "\<exists>us vs. xs = us @ (a, Some (k', v)) # vs \<and> js_same_value_zero k' k \<and> (\<forall>(b, k', v)\<in>set (live us). \<not> js_same_value_zero k' k)"
    using Some unfolding c
  proof (induction xs)
    case (Cons d xs)
    obtain b x where d: "d = (b, x)" by (cases d)
    show ?case
    proof (cases "\<exists>k' v. x = Some (k', v) \<and> js_same_value_zero k' k")
      case True
      then show ?thesis using Cons.prems by (intro exI [of _ "[]"] exI [of _ xs]) (auto simp: d)
    next
      case False
      then have "find (\<lambda>(a, k', v). js_same_value_zero k' k) (live xs) = Some (a, k', v)"
        using Cons.prems by (cases x) (auto simp: d)
      from Cons.IH [OF this] obtain us vs where "xs = us @ (a, Some (k', v)) # vs" "js_same_value_zero k' k"
        "\<forall>(b, k', v)\<in>set (live us). \<not> js_same_value_zero k' k" by blast
      then show ?thesis using False by (intro exI [of _ "d # us"] exI [of _ vs]) (auto simp: d live_Cons split: option.splits)
    qed
  qed simp
  then obtain us vs where u: "xs = us @ (a, Some (k', v)) # vs" "js_same_value_zero k' k"
    "\<forall>(b, k', v)\<in>set (live us). \<not> js_same_value_zero k' k" by blast
  moreover have "0 < a" using map_atD(8) [OF m] u(1) by (simp add: fresh_ok_def)
  moreover have "find_key xs k = a" using Some by (simp add: find_key_def c)
  ultimately show ?thesis using that(2) by blast
qed

section \<open>Holding and releasing a record\<close>

lemma recs_ok_upd:
  assumes "recs_ok rt (us @ (a, x) # vs) lk" "distinct (map fst (us @ (a, x) # vs))" "rec_ok (lk(a := n)) a y r"
  shows "recs_ok (set_rec rt a r) (us @ (a, y) # vs) (lk(a := n))"
proof -
  have "\<exists>r'. recs (set_rec rt a r) b = Some r' \<and> rec_ok (lk(a := n)) b z r'" if b: "(b, z) \<in> set (us @ (a, y) # vs)" for b z
  proof (cases "b = a")
    case True
    then have "z = y" using b assms(2) by force
    then show ?thesis using True assms(3) by (simp add: set_rec_def)
  next
    case False
    then show ?thesis using b recs_okD [OF assms(1), of b z] by (auto simp: set_rec_def rec_ok_def)
  qed
  then show ?thesis using assms(1) unfolding recs_ok_def by (auto simp: case_prod_unfold)
qed

lemma recs_ok_del:
  assumes "recs_ok rt (us @ (a, x) # vs) lk" "distinct (map fst (us @ (a, x) # vs))"
    "\<And>b. b \<noteq> a \<Longrightarrow> recs rt' b = recs rt b"
  shows "recs_ok rt' (us @ vs) (lk(a := 0))"
proof -
  have "\<exists>r'. recs rt' b = Some r' \<and> rec_ok (lk(a := 0)) b z r'" if b: "(b, z) \<in> set (us @ vs)" for b z
  proof -
    have "b \<noteq> a" using b assms(2) by force
    then show ?thesis using b recs_okD [OF assms(1), of b z] assms(3) [of b] by (auto simp: rec_ok_def)
  qed
  then show ?thesis using assms(1) unfolding recs_ok_def by (auto simp: case_prod_unfold)
qed

lemma map_at_set_rec:
  assumes m: "map_at rt s m (us @ (a, x) # vs) lk" and r: "rec_ok (lk(a := n)) a x r"
  shows "map_at (set_rec rt a r) s m (us @ (a, x) # vs) (lk(a := n))"
  using m recs_ok_upd [OF map_atD(4,9) [OF m] r] unfolding map_at_def fresh_ok_def by (simp add: set_rec_def)

lemma map_lock_ok:
  assumes m: "map_at rt s m (us @ (a, x) # vs) lk" and r: "recs rt a = Some r"
  shows "map_at (set_rec rt a (r\<lparr>mr_ref_count := mr_ref_count r + 1\<rparr>)) s m (us @ (a, x) # vs) (lk(a := lk a + 1))"
proof -
  have "rec_ok lk a x r" using recs_okD [OF map_atD(4) [OF m], of a x] r by auto
  then show ?thesis by (intro map_at_set_rec [OF m]) (auto simp: rec_ok_def split: option.splits)
qed

text \<open>A record leaves the list and the heaps.\<close>

lemma unlink_rec_ok:
  assumes m: "ilist (mlinks rt) (records_head m) (map fst (us @ (a, x) # vs))"
  shows "\<exists>ml. unlink_rec rt a = Some (free_rec (rt\<lparr>mlinks := ml\<rparr>) a) \<and> ilist (ml(a := None)) (records_head m) (map fst (us @ vs))"
proof -
  have "ilist (mlinks rt) (records_head m) (map fst us @ a # map fst vs)" using m by simp
  from okw_ex [OF list_del_ok [OF this]] obtain ml where ml: "list_del (mlinks rt) a = Some ml"
    "ilist ml (records_head m) (map fst us @ map fst vs)" by blast
  have "ilist (ml(a := None)) (records_head m) (map fst us @ map fst vs)"
    by (rule ilist_frame [OF ml(2)]) (use m in \<open>auto simp: ilist_def\<close>)
  then show ?thesis using ml(1) by (auto simp: unlink_rec_def)
qed

lemma ilist_notin_frame:
  assumes "ilist h b xs" "a \<noteq> b" "a \<notin> set xs"
  shows "ilist (h(a := v)) b xs"
  by (rule ilist_frame [OF assms(1)]) (use assms(2,3) in auto)

lemma table_ok_free:
  assumes t: "table_ok h m (us @ (a, None) # vs)" and d: "distinct (map fst (us @ (a, None) # vs))"
  shows "table_ok (h(a := None)) m (us @ vs)"
proof -
  have "ilist (h(a := None)) b (bucket m (us @ vs) b)" if "in_table m b" for b
  proof (rule ilist_notin_frame)
    show "ilist h b (bucket m (us @ vs) b)" using t that by (simp add: table_ok_def)
    show "a \<noteq> b" using t that by (auto simp: table_ok_def)
    show "a \<notin> set (bucket m (us @ vs) b)" using set_bucket [of a m "us @ vs" b] d by auto
  qed
  then show ?thesis using t by (auto simp: table_ok_def)
qed

lemma map_decref_record_ok:
  assumes m: "map_at rt s m (us @ (a, x) # vs) lk" and l: "0 < lk a"
  shows "\<exists>rt'. map_decref_record rt a = Some rt' \<and> same_env rt rt' \<and> map_refs rt' = map_refs rt \<and>
    map_at rt' s m (if x = None \<and> lk a = 1 then us @ vs else us @ (a, x) # vs) (lk(a := lk a - 1))"
proof -
  note M = map_atD [OF m]
  obtain r where r: "recs rt a = Some r" "rec_ok lk a x r" using recs_okD [OF M(4), of a x] by auto
  show ?thesis
  proof (cases "x = None \<and> lk a = 1")
    case True
    then have rr: "mr_ref_count r = 1" "mr_empty r" using r(2) by (auto simp: rec_ok_dead)
    obtain ml where ml: "unlink_rec rt a = Some (free_rec (rt\<lparr>mlinks := ml\<rparr>) a)"
      "ilist (ml(a := None)) (records_head m) (map fst (us @ vs))"
      using unlink_rec_ok [OF M(3)] by blast
    let ?rt = "free_rec (rt\<lparr>mlinks := ml\<rparr>) a"
    have "recs_ok ?rt (us @ vs) (lk(a := 0))" by (rule recs_ok_del [OF M(4,9)]) (simp add: free_rec_def)
    moreover have "table_ok (hlinks ?rt) m (us @ vs)" using table_ok_free [of "hlinks rt" m us a vs] M(5,9) True by (simp add: free_rec_def)
    ultimately have "map_at ?rt s m (us @ vs) (lk(a := 0))"
      using M ml(2) True unfolding map_at_def by (auto simp: free_rec_def keys_ok_def fresh_ok_def)
    then show ?thesis using True r(1) rr ml(1) by (auto simp: map_decref_record_def Let_def same_env_def free_rec_def)
  next
    case False
    let ?r = "r\<lparr>mr_ref_count := mr_ref_count r - 1\<rparr>"
    have "rec_ok (lk(a := lk a - 1)) a x ?r" using r(2) l False by (auto simp: rec_ok_def split: option.splits)
    then have "map_at (set_rec rt a ?r) s m (us @ (a, x) # vs) (lk(a := lk a - 1))" by (rule map_at_set_rec [OF m])
    moreover have "mr_ref_count r \<noteq> 1" using r(2) l False by (auto simp: rec_ok_def split: if_splits)
    ultimately show ?thesis using r(1) False by (auto simp: map_decref_record_def Let_def same_env_def set_rec_def)
  qed
qed

end
