(* ===== verification/Js_Map_Ops.thy ===== *)
theory Js_Map_Ops
  imports Js_Map_Inv
begin

text \<open>
  The routines that change the hash table: deletion of a record, growth of the table, insertion of
  a record. Each keeps the invariant of the map, for every answer of the allocator.
\<close>

section \<open>Frames\<close>

lemma free_val_quiet: "quiet fin \<Longrightarrow> free_val fin v rt = Some (rt\<lparr>map_refs := (map_refs rt)(v := map_refs rt v - 1)\<rparr>)"
  by (simp add: quiet_def free_val_def)

lemma bucket_of_count [simp]: "bucket_of (m\<lparr>record_count := c\<rparr>) k = bucket_of m k"
  by (simp add: bucket_of_def)

lemma bucket_count [simp]: "bucket (m\<lparr>record_count := c\<rparr>) xs b = bucket m xs b"
  by (simp add: bucket_def)

lemma in_table_count [simp]: "in_table (m\<lparr>record_count := c\<rparr>) b = in_table m b"
  by (simp add: in_table_def)

lemma table_ok_count [simp]: "table_ok h (m\<lparr>record_count := c\<rparr>) xs = table_ok h m xs"
  by (simp add: table_ok_def)

lemma fresh_ok_count [simp]: "fresh_ok rt (m\<lparr>record_count := c\<rparr>) xs = fresh_ok rt m xs"
  by (simp add: fresh_ok_def)

lemma bucket_iff: "a \<in> set (bucket m xs b) \<longleftrightarrow> (\<exists>k v. (a, Some (k, v)) \<in> set xs \<and> bucket_of m k = b)"
  by (force simp: bucket_def live_iff)

lemma bucket_disjoint:
  assumes "distinct (map fst xs)" "a \<in> set (bucket m xs b)" "a \<in> set (bucket m xs b')"
  shows "b = b'"
proof -
  obtain k v k' v' where "(a, Some (k, v)) \<in> set xs" "bucket_of m k = b" "(a, Some (k', v')) \<in> set xs" "bucket_of m k' = b'"
    using assms(2,3) by (auto simp: bucket_iff)
  then show ?thesis using eq_key_imp_eq_value [OF assms(1)] by fastforce
qed

lemma other_bucket:
  assumes t: "table_ok h m xs" and d: "distinct (map fst xs)" and b: "in_table m b" "b \<noteq> b0" "in_table m b0"
    and a: "a \<notin> set (bucket m xs b)" "\<not> in_table m a"
    and h: "moved h h' (insert b0 (insert a (set us)))" "set us \<subseteq> set (bucket m xs b0)"
  shows "ilist h' b (bucket m xs b)"
proof (rule ilist_frame)
  show "ilist h b (bucket m xs b)" using t b(1) by (simp add: table_ok_def)
  fix p assume p: "p = b \<or> p \<in> set (bucket m xs b)"
  have ne: "q \<in> set (bucket m xs c) \<Longrightarrow> \<not> in_table m q" for q c using t set_bucket [of q m xs c] by (auto simp: table_ok_def)
  have "p \<noteq> b0" using p b ne by blast
  moreover have "p \<noteq> a" using p a b(1) by blast
  moreover have "p \<notin> set us" using p b(1,2) ne h(2) bucket_disjoint [OF d, of p m b b0] by blast
  ultimately show "h' p = h p" using h(1) by (simp add: moved_def)
qed

section \<open>Deletion\<close>

lemma keys_ok_del: "keys_ok (us @ (a, Some e) # vs) \<Longrightarrow> keys_ok (us @ vs) \<and> keys_ok (us @ (a, None) # vs)"
  by (cases e) (auto simp: keys_ok_def)

lemma word_count_del: "(word_of_nat (length (live (us @ (a, Some e) # vs))) :: u32) - 1 = word_of_nat (length (live (us @ vs)))"
  by simp

lemma table_ok_unhash:
  assumes t: "table_ok h m (us @ (a, Some (k, v)) # vs)" and d: "distinct (map fst (us @ (a, Some (k, v)) # vs))"
    and m: "in_table m (bucket_of m k)"
  shows "\<exists>h'. list_del h a = Some h' \<and> table_ok h' m (us @ (a, None) # vs)"
proof -
  let ?xs = "us @ (a, Some (k, v)) # vs" and ?b = "bucket_of m k"
  have "ilist h ?b (bucket m ?xs ?b)" using t m unfolding table_ok_def by blast
  then have "ilist h ?b (bucket m us ?b @ a # bucket m vs ?b)" by simp
  from okw_ex [OF list_del_ok [OF this]] obtain h' where h': "list_del h a = Some h'" "ilist h' ?b (bucket m us ?b @ bucket m vs ?b)"
    "moved h h' (insert ?b (insert a (set (bucket m us ?b @ bucket m vs ?b))))"
    by auto
  have "ilist h' b (bucket m (us @ (a, None) # vs) b)" if b: "in_table m b" for b
  proof (cases "b = ?b")
    case False
    have "a \<notin> set (bucket m ?xs b)" using False bucket_disjoint [OF d, of a m b ?b] by auto
    moreover have "\<not> in_table m a" using t by (auto simp: table_ok_def)
    ultimately have "ilist h' b (bucket m ?xs b)"
      by (intro other_bucket [OF t d b False m _ _ h'(3)]) auto
    then show ?thesis using False by simp
  qed (use h'(2) in simp)
  then show ?thesis using t h'(1) by (auto simp: table_ok_def)
qed

lemma map_delete_record_ok:
  assumes q: "quiet fin" and m: "map_at rt s m (us @ (a, Some (k, v)) # vs) lk"
  shows "\<exists>rt' m'. map_delete_record fin rt s a = Some rt' \<and> same_env rt rt' \<and> records_head m' = records_head m \<and>
    map_refs rt' = ((map_refs rt)(k := map_refs rt k - 1))(v := ((map_refs rt)(k := map_refs rt k - 1)) v - 1) \<and>
    map_at rt' s m' (if lk a = 0 then us @ vs else us @ (a, None) # vs) lk"
proof -
  let ?xs = "us @ (a, Some (k, v)) # vs"
  note M = map_atD [OF m]
  obtain r where r: "recs rt a = Some r" "rec_ok lk a (Some (k, v)) r" using recs_okD [OF M(4), of a "Some (k, v)"] by auto
  have rr: "\<not> mr_empty r" "mr_key r = k" "mr_value r = v" "mr_ref_count r = 1 + int (lk a)" using r(2) by (auto simp: rec_ok_live)
  have bt: "in_table m (bucket_of m k)" using M(5) in_table_bucket by (simp add: table_ok_def)
  obtain hl where hl: "list_del (hlinks rt) a = Some hl" "table_ok hl m (us @ (a, None) # vs)"
    using table_ok_unhash [OF M(5,9) bt] by blast
  define f1 where "f1 = (map_refs rt)(k := map_refs rt k - 1)"
  define f where "f = f1(v := f1 v - 1)"
  have s1: "free_val fin k (rt\<lparr>hlinks := hl\<rparr>) = Some (rt\<lparr>hlinks := hl, map_refs := f1\<rparr>)"
    by (simp add: free_val_quiet [OF q] f1_def)
  have s2: "free_val fin v (rt\<lparr>hlinks := hl, map_refs := f1\<rparr>) = Some (rt\<lparr>hlinks := hl, map_refs := f\<rparr>)"
    by (simp add: free_val_quiet [OF q] f_def)
  let ?r = "r\<lparr>mr_ref_count := mr_ref_count r - 1\<rparr>"
  let ?m = "m\<lparr>record_count := record_count m - 1\<rparr>"
  let ?rt = "rt\<lparr>hlinks := hl, map_refs := f\<rparr>"
  have k: "keys_ok (us @ vs)" "keys_ok (us @ (a, None) # vs)" using keys_ok_del [OF M(6)] by auto
  have c: "record_count m - 1 = word_of_nat (length (live (us @ vs)))" unfolding M(7) by (rule word_count_del)
  show ?thesis
  proof (cases "lk a = 0")
    case True
    obtain ml where ml: "unlink_rec ?rt a = Some (free_rec (?rt\<lparr>mlinks := ml\<rparr>) a)" "ilist (ml(a := None)) (records_head m) (map fst (us @ vs))"
      using unlink_rec_ok [of ?rt m us a "Some (k, v)" vs] M(3) by auto
    let ?rt' = "set_map (free_rec (?rt\<lparr>mlinks := ml\<rparr>) a) s ?m"
    have "lk(a := 0) = lk" using True by auto
    moreover have "recs_ok ?rt' (us @ vs) (lk(a := 0))"
      by (rule recs_ok_del [OF M(4,9)]) (simp add: free_rec_def set_map_def)
    moreover have "table_ok (hl(a := None)) m (us @ vs)" by (rule table_ok_free [OF hl(2)]) (use M(9) in simp)
    ultimately have "map_at ?rt' s ?m (us @ vs) lk"
      unfolding map_at_def using M(2,8) ml(2) k c by (auto simp: free_rec_def set_map_def fresh_ok_def)
    moreover have "map_delete_record fin rt s a = Some ?rt'"
      using r(1) rr True M(1,2) hl(1) ml(1) s1 s2 by (simp add: map_delete_record_def Let_def free_rec_def)
    moreover have "same_env rt ?rt'" using M(1) by (auto simp: same_env_def set_map_def free_rec_def)
    ultimately show ?thesis using True by (intro exI [of _ ?rt'] exI [of _ ?m]) (simp add: set_map_def free_rec_def f_def f1_def)
  next
    case False
    let ?r0 = "?r\<lparr>mr_empty := True, mr_key := JS_UNDEFINED, mr_value := JS_UNDEFINED\<rparr>"
    let ?rt' = "set_map (set_rec ?rt a ?r0) s ?m"
    have "rec_ok (lk(a := lk a)) a None ?r0" using False rr by (simp add: rec_ok_def)
    from recs_ok_upd [OF M(4,9) this] have "recs_ok (set_rec rt a ?r0) (us @ (a, None) # vs) lk" by simp
    then have "recs_ok ?rt' (us @ (a, None) # vs) lk" by (simp add: recs_ok_def set_rec_def set_map_def)
    then have "map_at ?rt' s ?m (us @ (a, None) # vs) lk"
      unfolding map_at_def using M(2,3,8) hl(2) k c by (auto simp: set_rec_def set_map_def fresh_ok_def)
    moreover have "map_delete_record fin rt s a = Some ?rt'"
      using r(1) rr False M(1,2) hl(1) s1 s2 by (simp add: map_delete_record_def Let_def set_rec_def)
    moreover have "same_env rt ?rt'" using M(1) by (auto simp: same_env_def set_map_def set_rec_def)
    ultimately show ?thesis using False by (intro exI [of _ ?rt'] exI [of _ ?m]) (simp add: set_map_def set_rec_def f_def f1_def)
  qed
qed

section \<open>Growth of the table\<close>

lemma init_buckets_ok:
  "(\<And>b. t \<le> b \<Longrightarrow> b < t + n \<Longrightarrow> h b \<noteq> None) \<Longrightarrow>
   \<exists>h'. init_buckets h t n = Some h' \<and> (\<forall>b. t \<le> b \<and> b < t + n \<longrightarrow> ilist h' b []) \<and> (\<forall>b. b < t \<or> t + n \<le> b \<longrightarrow> h' b = h b)"
proof (induction n arbitrary: h t)
  case (Suc n)
  have "h t \<noteq> None" using Suc.prems [of t] by simp
  from okw_ex [OF init_list_head_ok [of h t, OF this]] obtain h1 where h1: "init_list_head h t = Some h1" "ilist h1 t []" "\<forall>q. q \<noteq> t \<longrightarrow> h1 q = h q"
    by blast
  have "h1 b \<noteq> None" if "t + 1 \<le> b" "b < t + 1 + n" for b using Suc.prems [of b] h1(3) that by simp
  from Suc.IH [of "t + 1" h1, OF this] obtain h2 where h2: "init_buckets h1 (t + 1) n = Some h2"
    "\<forall>b. t + 1 \<le> b \<and> b < t + 1 + n \<longrightarrow> ilist h2 b []" "\<forall>b. b < t + 1 \<or> t + 1 + n \<le> b \<longrightarrow> h2 b = h1 b" by blast
  have "ilist h2 t []" by (rule ilist_frame [OF h1(2)]) (use h2(3) in simp)
  then have "\<forall>b. t \<le> b \<and> b < t + Suc n \<longrightarrow> ilist h2 b []" 
  proof (intro allI impI)
    fix b assume b: "t \<le> b \<and> b < t + Suc n"
    show "ilist h2 b []" using \<open>ilist h2 t []\<close> h2(2) b by (cases "b = t") auto
  qed
  then show ?case using h1 h2 by (auto intro!: exI [of _ h2])
qed auto

lemma map_rehash_loop_ok:
  assumes "ilist (mlinks rt) (records_head m) (map fst (us @ vs))" "recs_ok rt (us @ vs) lk" "distinct (map fst (us @ vs))"
    "\<forall>b. in_table m b \<longrightarrow> ilist hl b (bucket m us b)" "\<forall>a\<in>fst ` set (us @ vs). \<not> in_table m a" "0 < hash_size m"
    "\<forall>(a, e)\<in>set (live vs). hl a \<noteq> None"
  shows "\<exists>hl'. map_rehash_loop rt m (case vs of [] \<Rightarrow> records_head m | c # _ \<Rightarrow> fst c) hl = Some hl' \<and>
    (\<forall>b. in_table m b \<longrightarrow> ilist hl' b (bucket m (us @ vs) b))"
  using assms
proof (induction vs arbitrary: us hl)
  case Nil
  then show ?case by (subst map_rehash_loop.simps) simp
next
  case (Cons c vs)
  obtain a x where c: "c = (a, x)" by (cases c)
  obtain r where r: "recs rt a = Some r" "rec_ok lk a x r" using recs_okD [OF Cons.prems(2), of a x] by (auto simp: c)
  have ah: "a \<noteq> records_head m" using Cons.prems(1) by (auto simp: ilist_def c)
  have n: "get_next (mlinks rt) a = Some (case vs of [] \<Rightarrow> records_head m | c # _ \<Rightarrow> fst c)"
    using ilist_next [of "mlinks rt" "records_head m" "map fst us" a "map fst vs"] Cons.prems(1) by (cases vs) (simp_all add: c)
  let ?us = "us @ [c]"
  have e: "?us @ vs = us @ c # vs" by simp
  note IH = Cons.IH [of ?us, unfolded e, OF Cons.prems(1-3) _ Cons.prems(5,6)]
  show ?case
  proof (cases x)
    case None
    have "\<exists>hl'. map_rehash_loop rt m (case vs of [] \<Rightarrow> records_head m | c # _ \<Rightarrow> fst c) hl = Some hl' \<and>
      (\<forall>b. in_table m b \<longrightarrow> ilist hl' b (bucket m (us @ c # vs) b))"
      by (rule IH) (use Cons.prems(4,7) in \<open>auto simp: c None\<close>)
    then show ?thesis using r ah n by (subst map_rehash_loop.simps) (simp add: c None rec_ok_dead)
  next
    case (Some kv)
    obtain k v where kv: "kv = (k, v)" by (cases kv)
    let ?b = "bucket_of m k"
    have b: "in_table m ?b" by (rule in_table_bucket [OF Cons.prems(6)])
    have nb: "p \<in> set (bucket m us b) \<Longrightarrow> p \<in> fst ` set us" for p b using set_bucket [of p m us b] .
    have "a \<noteq> ?b" using Cons.prems(5) b by (auto simp: c)
    moreover have an: "a \<notin> set (bucket m us b)" for b using nb [of a b] Cons.prems(3) by (auto simp: c)
    moreover have "hl a \<noteq> None" using Cons.prems(7) by (auto simp: c Some)
    ultimately obtain hl1 where hl1: "list_add_tail hl a ?b = Some hl1" "ilist hl1 ?b (bucket m us ?b @ [a])"
      "moved hl hl1 (insert ?b (insert a (set (bucket m us ?b))))"
      using okw_ex [OF list_add_tail_ok [OF Cons.prems(4) [rule_format, OF b]]] by blast
    have "\<forall>b. in_table m b \<longrightarrow> ilist hl1 b (bucket m ?us b)"
    proof (intro allI impI)
      fix b assume b': "in_table m b"
      show "ilist hl1 b (bucket m ?us b)"
      proof (cases "b = ?b")
        case False
        have "ilist hl1 b (bucket m us b)"
        proof (rule ilist_frame [OF Cons.prems(4) [rule_format, OF b']])
          fix p assume p: "p = b \<or> p \<in> set (bucket m us b)"
          have nt: "p \<in> set (bucket m us b) \<Longrightarrow> \<not> in_table m p" for p b using nb [of p b] Cons.prems(5) by auto
          have "p \<noteq> ?b" using p False nt b by blast
          moreover have "p \<noteq> a" using p an [of b] Cons.prems(5) b' by (auto simp: c)
          moreover have "p \<notin> set (bucket m us ?b)"
            using p False b' nt [of p ?b] bucket_disjoint [of us p m b ?b] Cons.prems(3) by auto
          ultimately show "hl1 p = hl p" using hl1(3) by (simp add: moved_def)
        qed
        then show ?thesis using False by (simp add: c Some kv)
      qed (use hl1(2) in \<open>simp add: c Some kv\<close>)
    qed
    moreover have "\<forall>(p, e)\<in>set (live vs). hl1 p \<noteq> None"
    proof -
      have "dom hl1 = dom hl" using hl1(3) by (simp add: moved_def)
      then show ?thesis using Cons.prems(7) by (fastforce simp: c Some)
    qed
    ultimately have "\<exists>hl'. map_rehash_loop rt m (case vs of [] \<Rightarrow> records_head m | c # _ \<Rightarrow> fst c) hl1 = Some hl' \<and>
      (\<forall>b. in_table m b \<longrightarrow> ilist hl' b (bucket m (us @ c # vs) b))"
      by (intro IH)
    moreover have "\<not> mr_empty r" "mr_key r = k" using r(2) by (auto simp: rec_ok_live Some kv)
    ultimately show ?thesis using r(1) ah n hl1(1) by (subst map_rehash_loop.simps) (simp add: c)
  qed
qed

lemma resized_block:
  assumes "usable_ok rt" "map_usable rt c (sizeof_list_head * unat n) = Some u"
  defines "k \<equiv> unat n + (u - sizeof_list_head * unat n) div sizeof_list_head"
  shows "unat (n + word_of_nat ((u - sizeof_list_head * unat n) div sizeof_list_head)) = k" "k < 2 ^ 31" "unat (n :: u32) \<le> k"
proof -
  have u: "16 * unat n \<le> u" "u < 2 ^ 35" using assms(1,2) unfolding usable_ok_def sizeof_list_head_def by blast+
  obtain w where "u = 16 * unat n + w" using le_Suc_ex [OF u(1)] by blast
  then have "k = u div 16" by (simp add: k_def sizeof_list_head_def)
  then show k: "k < 2 ^ 31" "unat n \<le> k" using u by auto
  have "n + word_of_nat ((u - sizeof_list_head * unat n) div sizeof_list_head) = word_of_nat k"
    by (simp add: k_def)
  then show "unat (n + word_of_nat ((u - sizeof_list_head * unat n) div sizeof_list_head)) = k"
    using k(1) by (simp add: unat_of_nat)
qed

lemma map_hash_resize_ok:
  assumes u: "usable_ok rt" and m: "map_at rt s m xs lk"
  shows "\<exists>rt' m'. map_hash_resize rt s = Some rt' \<and> same_env rt rt' \<and> map_refs rt' = map_refs rt \<and>
    recs rt' = recs rt \<and> records_head m' = records_head m \<and> map_at rt' s m' xs lk"
proof -
  note M = map_atD [OF m]
  define n where "n = (if hash_size m = 1 then 4 else hash_size m * 2)"
  define c where "c = map_clock rt"
  show ?thesis
  proof (cases "map_usable rt c (sizeof_list_head * unat n)")
    case None
    have "map_at (rt\<lparr>map_clock := map_clock rt + 1\<rparr>) s m xs lk" by (rule map_at_cong [OF m]) simp_all
    then show ?thesis using None M(1)
      by (intro exI [of _ "rt\<lparr>map_clock := map_clock rt + 1\<rparr>"] exI [of _ m])
        (simp add: map_hash_resize_def Let_def n_def [symmetric] c_def same_env_def)
  next
    case (Some usable)
    define k where "k = unat n + (usable - sizeof_list_head * unat n) div sizeof_list_head"
    define n' where "n' = n + word_of_nat ((usable - sizeof_list_head * unat n) div sizeof_list_head)"
    note blk = resized_block [OF u Some, folded k_def n'_def]
    define t where "t = map_next rt"
    define h where "h = new_table (hlinks rt) (hash_table m) (unat (hash_size m)) t k"
    define m1 where "m1 = m\<lparr>hash_table := t, hash_size := n', record_count_threshold := n' * 2\<rparr>"
    let ?rt = "rt\<lparr>map_clock := map_clock rt + 1, map_next := t + k, hlinks := h\<rparr>"
    have hs: "0 < hash_size m" "hash_size m < 2 ^ 31" using M(5) by (auto simp: table_ok_def)
    have "0 < unat n"
    proof (cases "hash_size m = 1")
      case False
      have "unat (hash_size m) < 2 ^ 31" using hs(2) by (simp add: word_less_nat_alt)
      then have "unat (hash_size m * 2) = unat (hash_size m) * 2" by (simp add: unat_mult_lem [THEN iffD1])
      then show ?thesis using False hs(1) by (simp add: n_def word_less_nat_alt)
    qed (simp add: n_def)
    then have n': "0 < n'" "n' < 2 ^ 31" using blk by (auto simp: word_less_nat_alt)
    have it: "in_table m1 b \<longleftrightarrow> t \<le> b \<and> b < t + k" for b by (simp add: in_table_def m1_def blk(1))
    have F: "\<forall>a\<in>fst ` set xs. a < t" "records_head m < t" "hash_table m + unat (hash_size m) \<le> t" "0 < t"
      using M(8) by (auto simp: fresh_ok_def t_def)
    have "h b \<noteq> None" if "t \<le> b" "b < t + unat n'" for b using that by (simp add: h_def new_table_def blk(1))
    from init_buckets_ok [of t "unat n'" h, OF this] obtain h1 where h1: "init_buckets h t (unat n') = Some h1"
      "\<forall>b. t \<le> b \<and> b < t + k \<longrightarrow> ilist h1 b []" "\<forall>b. b < t \<or> t + k \<le> b \<longrightarrow> h1 b = h b"
      by (auto simp: blk(1))
    have L: "h1 a \<noteq> None" if a: "(a, e) \<in> set (live xs)" for a e
    proof -
      obtain k v where e: "e = (k, v)" by (cases e)
      have "a < t" "\<not> in_table m a" using F(1) M(5) a live_fst [of xs] by (force simp: table_ok_def)+
      then have "h1 a = hlinks rt a" using h1(3) by (auto simp: h_def new_table_def in_table_def)
      moreover have "ilist (hlinks rt) (bucket_of m k) (bucket m xs (bucket_of m k))"
        using M(5) in_table_bucket [OF hs(1)] unfolding table_ok_def by blast
      then have "hlinks rt a \<noteq> None" using ilist_dom [of "hlinks rt" "bucket_of m k" _ a] a by (fastforce simp: bucket_iff live_iff e)
      ultimately show ?thesis by simp
    qed
    have "\<exists>hl'. map_rehash_loop ?rt m1 (case xs of [] \<Rightarrow> records_head m1 | c # _ \<Rightarrow> fst c) h1 = Some hl' \<and>
      (\<forall>b. in_table m1 b \<longrightarrow> ilist hl' b (bucket m1 ([] @ xs) b))"
    proof (rule map_rehash_loop_ok)
      show "ilist (mlinks ?rt) (records_head m1) (map fst ([] @ xs))" using M(3) by (simp add: m1_def)
      show "recs_ok ?rt ([] @ xs) lk" using M(4) by (simp add: recs_ok_def)
      show "distinct (map fst ([] @ xs))" using M(9) by simp
      show "\<forall>b. in_table m1 b \<longrightarrow> ilist h1 b (bucket m1 [] b)" using h1(2) by (simp add: it)
      show "\<forall>a\<in>fst ` set ([] @ xs). \<not> in_table m1 a" using F(1) by (auto simp: it)
      show "0 < hash_size m1" using n'(1) by (simp add: m1_def)
      show "\<forall>(a, e)\<in>set (live xs). h1 a \<noteq> None" using L by blast
    qed
    then obtain h2 where h2: "map_rehash_loop ?rt m1 (case xs of [] \<Rightarrow> records_head m1 | c # _ \<Rightarrow> fst c) h1 = Some h2"
      "\<forall>b. in_table m1 b \<longrightarrow> ilist h2 b (bucket m1 xs b)"
      by auto
    have el: "get_next (mlinks rt) (records_head m) = Some (case xs of [] \<Rightarrow> records_head m1 | c # _ \<Rightarrow> fst c)"
      using M(3) by (cases xs) (auto simp: ilist_def m1_def)
    let ?rt' = "set_map (?rt\<lparr>hlinks := h2\<rparr>) s m1"
    have "map_hash_resize rt s = Some ?rt'"
      using M(1) Some h1(1) h2(1) el
      by (simp add: map_hash_resize_def Let_def n_def [symmetric] c_def k_def [symmetric] n'_def [symmetric] t_def [symmetric]
          h_def [symmetric] m1_def [symmetric] del: of_nat_add distrib_right_numeral)
    moreover have "map_at ?rt' s m1 xs lk"
      unfolding map_at_def
    proof (intro conjI)
      show "recs_ok ?rt' xs lk" using M(4) by (simp add: recs_ok_def set_map_def)
      show "table_ok (hlinks ?rt') m1 xs" using h2(2) n' F(1) by (auto simp: table_ok_def set_map_def it) (auto simp: m1_def)
      show "fresh_ok ?rt' m1 xs" using M(8) F(4) blk(1) by (auto simp: fresh_ok_def set_map_def m1_def t_def)
    qed (use M in \<open>simp_all add: set_map_def m1_def\<close>)
    moreover have "same_env rt ?rt'" using M(1) by (auto simp: same_env_def set_map_def t_def m1_def)
    ultimately show ?thesis by (intro exI [of _ ?rt'] exI [of _ m1]) (simp add: set_map_def m1_def)
  qed
qed

section \<open>Insertion\<close>

lemma table_ok_add:
  assumes t: "table_ok h m xs" and d: "distinct (map fst xs)" and a: "a \<notin> fst ` set xs" "\<not> in_table m a"
  shows "\<exists>h'. list_add_tail (h(a \<mapsto> l)) a (bucket_of m k) = Some h' \<and> table_ok h' m (xs @ [(a, Some (k, v))])"
proof -
  let ?h = "h(a \<mapsto> l)" and ?b = "bucket_of m k"
  have bt: "in_table m ?b" using t in_table_bucket by (simp add: table_ok_def)
  have an: "a \<notin> set (bucket m xs b)" for b using set_bucket [of a m xs b] a(1) by blast
  have th: "ilist ?h b (bucket m xs b)" if b: "in_table m b" for b
    by (rule ilist_notin_frame) (use t b a(2) an in \<open>auto simp: table_ok_def\<close>)
  then have t': "table_ok ?h m xs" using t by (simp add: table_ok_def)
  have "a \<noteq> ?b" using a(2) bt by auto
  then obtain h' where h': "list_add_tail ?h a ?b = Some h'" "ilist h' ?b (bucket m xs ?b @ [a])"
    "moved ?h h' (insert ?b (insert a (set (bucket m xs ?b))))"
    using okw_ex [OF list_add_tail_ok [OF th [OF bt], of a]] an by auto
  have "ilist h' b (bucket m (xs @ [(a, Some (k, v))]) b)" if b: "in_table m b" for b
  proof (cases "b = ?b")
    case False
    have "ilist h' b (bucket m xs b)" by (rule other_bucket [OF t' d b False bt an a(2) h'(3)]) simp
    then show ?thesis using False by simp
  qed (use h'(2) in simp)
  then show ?thesis using h'(1) t a by (auto simp: table_ok_def)
qed

lemma map_malloc_fails: "map_usable rt (map_clock rt) n = None \<Longrightarrow> map_malloc n j rt = (0, rt\<lparr>map_clock := map_clock rt + 1\<rparr>)"
  by (simp add: map_malloc_def)

lemma map_malloc_gives: "map_usable rt (map_clock rt) n = Some u \<Longrightarrow>
   map_malloc n j rt = (map_next rt, rt\<lparr>map_clock := map_clock rt + 1, map_next := map_next rt + j\<rparr>)"
  by (simp add: map_malloc_def)

lemma map_at_clock: "map_at (rt\<lparr>map_clock := c\<rparr>) s m xs lk = map_at rt s m xs lk"
  by (simp add: map_at_def recs_ok_def fresh_ok_def)

lemma map_at_refs: "map_at (rt\<lparr>map_refs := f\<rparr>) s m xs lk = map_at rt s m xs lk"
  by (simp add: map_at_def recs_ok_def fresh_ok_def)

lemma keys_ok_add:
  assumes "keys_ok xs" "map_key k" "\<forall>(a, k', v)\<in>set (live xs). \<not> js_same_value_zero k' k"
  shows "keys_ok (xs @ [(a, Some (k, v))])"
proof -
  have "key_form k \<noteq> key_form k'" if "(b, k', w) \<in> set (live xs)" for b k' w
    using that assms same_value_zero_form [of k' k] by (fastforce simp: keys_ok_def)
  then show ?thesis using assms(1,2) by (force simp: keys_ok_def)
qed

lemma map_add_record_ok:
  assumes u: "usable_ok rt" and m: "map_at rt s m xs lk" and k: "map_key k"
    and new: "\<forall>(a, k', v)\<in>set (live xs). \<not> js_same_value_zero k' k"
    and us: "map_usable rt (map_clock rt) sizeof_map_record = Some bytes"
  defines "mr \<equiv> map_next rt"
  shows "\<exists>rt' m'. map_add_record rt s k = Some (mr, rt') \<and> same_env rt rt' \<and> 0 < mr \<and>
    map_refs rt' = (map_refs rt)(k := map_refs rt k + 1) \<and> records_head m' = records_head m \<and>
    map_at rt' s m' (xs @ [(mr, Some (k, JS_UNDEFINED))]) lk"
proof -
  note M = map_atD [OF m]
  let ?xs = "xs @ [(mr, Some (k, JS_UNDEFINED))]"
  have fr: "mr \<notin> fst ` set xs" "mr \<noteq> records_head m" "\<not> in_table m mr" "0 < mr"
    using M(8) by (auto simp: fresh_ok_def mr_def in_table_def)
  define l where "l = \<lparr>lprev = 0, lnext = 0 :: addr\<rparr>"
  obtain hl where hl: "list_add_tail ((hlinks rt)(mr \<mapsto> l)) mr (bucket_of m k) = Some hl" "table_ok hl m ?xs"
    using table_ok_add [OF M(5,9) fr(1,3)] by blast
  have "ilist ((mlinks rt)(mr \<mapsto> l)) (records_head m) (map fst xs)" by (rule ilist_notin_frame [OF M(3)]) (use fr in auto)
  from okw_ex [OF list_add_tail_ok [OF this, of mr]] fr obtain ml where
    ml: "list_add_tail ((mlinks rt)(mr \<mapsto> l)) mr (records_head m) = Some ml" "ilist ml (records_head m) (map fst xs @ [mr])"
    by auto
  let ?r = "\<lparr>mr_ref_count = 1, mr_empty = False, mr_map = s, mr_next_weak_ref = 0, mr_key = k, mr_value = JS_UNDEFINED\<rparr>"
  let ?m = "m\<lparr>record_count := record_count m + 1\<rparr>"
  let ?rt = "rt\<lparr>map_clock := map_clock rt + 1, map_next := mr + 1, recs := (recs rt)(mr \<mapsto> ?r),
    map_refs := (map_refs rt)(k := map_refs rt k + 1), hlinks := hl, mlinks := ml, maps := (maps rt)(s \<mapsto> ?m)\<rparr>"
  have lk0: "lk mr = 0" using M(4) fr(1) by (simp add: recs_ok_def)
  have "recs_ok ?rt ?xs lk"
    unfolding recs_ok_def
  proof (intro conjI ballI allI impI)
    fix c assume c: "c \<in> set ?xs"
    show "case c of (a, x) \<Rightarrow> \<exists>r. recs ?rt a = Some r \<and> rec_ok lk a x r"
    proof (cases "c \<in> set xs")
      case True
      then have "fst c \<noteq> mr" using fr(1) by auto
      then show ?thesis using recs_okD [OF M(4), of "fst c" "snd c"] True by (simp add: case_prod_unfold)
    next
      case False
      then show ?thesis using c lk0 by (auto simp: rec_ok_live)
    qed
  qed (use M(4) in \<open>auto simp: recs_ok_def\<close>)
  moreover have "fresh_ok ?rt ?m ?xs" using M(8) fr(4) by (auto simp: fresh_ok_def mr_def)
  ultimately have at: "map_at ?rt s ?m ?xs lk"
    unfolding map_at_def using M(2,7) ml(2) hl(2) keys_ok_add [OF M(6) k new] by simp
  have run: "map_add_record rt s k =
    (if record_count_threshold ?m \<le> record_count ?m then do { rt \<leftarrow> map_hash_resize ?rt s; Some (mr, rt) } else Some (mr, ?rt))"
    using M(1,2) map_malloc_gives [OF us, of 1] fr(4) hl(1) ml(1)
    by (simp add: map_add_record_def Let_def mr_def [symmetric] set_rec_def set_map_def dup_val_def l_def)
  have env: "same_env rt ?rt" using M(1) by (auto simp: same_env_def mr_def)
  show ?thesis
  proof (cases "record_count_threshold ?m \<le> record_count ?m")
    case True
    have "usable_ok ?rt" using u by (simp add: usable_ok_def)
    from map_hash_resize_ok [OF this at] obtain rt' m' where r: "map_hash_resize ?rt s = Some rt'" "same_env ?rt rt'"
      "map_refs rt' = map_refs ?rt" "records_head m' = records_head ?m" "map_at rt' s m' ?xs lk" by blast
    show ?thesis using run True r same_env_trans [OF env r(2)] fr(4) by auto
  next
    case False
    then show ?thesis using run at env fr(4) by (intro exI [of _ ?rt] exI [of _ ?m]) simp
  qed
qed

lemma map_set_value_ok:
  assumes m: "map_at rt s m (us @ (a, Some (k, v)) # vs) lk" and r: "recs rt a = Some r"
  shows "map_at (set_rec rt a (r\<lparr>mr_value := v'\<rparr>)) s m (us @ (a, Some (k, v')) # vs) lk"
proof -
  note M = map_atD [OF m]
  have "rec_ok lk a (Some (k, v)) r" using recs_okD [OF M(4), of a "Some (k, v)"] r by auto
  then have "rec_ok (lk(a := lk a)) a (Some (k, v')) (r\<lparr>mr_value := v'\<rparr>)" by (simp add: rec_ok_live)
  from recs_ok_upd [OF M(4,9) this] show ?thesis
    using M unfolding map_at_def by (simp add: set_rec_def table_ok_def keys_ok_def fresh_ok_def)
qed

end
