(* ===== verification/Js_Map_Spec.thy ===== *)
theory Js_Map_Spec
  imports Js_Map_Ops
begin

text \<open>
  The \<open>Map\<close> and \<open>Set\<close> objects as the language defines them: a list of entries in which a deleted one
  stays as an empty place, and iterators that are an index into this list. The relation
  \<open>represents\<close> says which such object a heap stands for: the records of the heap are the places
  that are not empty, and some of the empty ones.
\<close>

section \<open>The language's definition\<close>

type_synonym spec_entries = "entry option list"

fun spec_get :: "spec_entries \<Rightarrow> js_val \<Rightarrow> js_val option" where
  "spec_get [] k = None"
| "spec_get (None # es) k = spec_get es k"
| "spec_get (Some (k', v) # es) k = (if js_same_value_zero k' k then Some v else spec_get es k)"

fun spec_set :: "spec_entries \<Rightarrow> js_val \<Rightarrow> js_val \<Rightarrow> spec_entries" where
  "spec_set [] k v = [Some (k, v)]"
| "spec_set (None # es) k v = None # spec_set es k v"
| "spec_set (Some (k', v') # es) k v =
     (if js_same_value_zero k' k then Some (k', v) # es else Some (k', v') # spec_set es k v)"

fun spec_delete :: "spec_entries \<Rightarrow> js_val \<Rightarrow> spec_entries" where
  "spec_delete [] k = []"
| "spec_delete (None # es) k = None # spec_delete es k"
| "spec_delete (Some (k', v') # es) k =
     (if js_same_value_zero k' k then None # es else Some (k', v') # spec_delete es k)"

definition spec_clear :: "spec_entries \<Rightarrow> spec_entries" where
  "spec_clear es = map (\<lambda>_. None) es"

definition spec_size :: "spec_entries \<Rightarrow> nat" where
  "spec_size es = length (filter (\<lambda>e. e \<noteq> None) es)"

text \<open>The first entry at or after an index.\<close>

function spec_next :: "spec_entries \<Rightarrow> nat \<Rightarrow> (nat \<times> entry) option" where
  "spec_next es n =
     (if length es \<le> n then None
      else (case es ! n of Some e \<Rightarrow> Some (n, e) | None \<Rightarrow> spec_next es (n + 1)))"
  by pat_completeness auto
termination by (relation "measure (\<lambda>(es, n). length es - n)") auto

declare spec_next.simps [simp del]

text \<open>The object and the iterators on it; an iterator that has come to the end has no index any more.\<close>

record spec_map =
  sentries :: spec_entries
  siters :: "addr \<Rightarrow> (iterator_kind \<times> nat option) option"

datatype map_op =
    OP_SET js_val js_val
  | OP_GET js_val
  | OP_HAS js_val
  | OP_DELETE js_val
  | OP_CLEAR
  | OP_SIZE
  | OP_ITERATOR iterator_kind
  | OP_NEXT js_val
  | OP_RELEASE addr

definition spec_item :: "nat \<Rightarrow> iterator_kind \<Rightarrow> entry \<Rightarrow> map_result" where
  "spec_item magic kind e =
     (let v = (if magic \<noteq> 0 then fst e else snd e) in
      case kind of JS_ITERATOR_KIND_KEY \<Rightarrow> MAP_VALUE (fst e)
      | JS_ITERATOR_KIND_VALUE \<Rightarrow> MAP_VALUE v
      | JS_ITERATOR_KIND_KEY_AND_VALUE \<Rightarrow> MAP_ARRAY [fst e, v])"

text \<open>A step: the operation, its answer (with \<open>done\<close>), and the object after it. With \<open>oom\<close> an operation
  that allocates may fail: \<open>set\<close> and the creation of an iterator then change nothing.\<close>

inductive spec_step :: "bool \<Rightarrow> nat \<Rightarrow> js_val \<Rightarrow> spec_map \<Rightarrow> map_op \<Rightarrow> map_result \<times> bool \<Rightarrow> spec_map \<Rightarrow> bool"
  for oom :: bool and magic :: nat and this :: js_val where
  spec_step_set: "spec_step oom magic this \<sigma> (OP_SET k v) (MAP_VALUE this, False)
      (\<sigma>\<lparr>sentries := spec_set (sentries \<sigma>) (map_normalize_key k) (if magic_set magic then JS_UNDEFINED else v)\<rparr>)"
| spec_step_set_oom: "oom \<Longrightarrow> spec_get (sentries \<sigma>) (map_normalize_key k) = None \<Longrightarrow>
    spec_step oom magic this \<sigma> (OP_SET k v) (MAP_EXCEPTION, False) \<sigma>"
| spec_step_get: "spec_step oom magic this \<sigma> (OP_GET k)
    (MAP_VALUE (case spec_get (sentries \<sigma>) (map_normalize_key k) of None \<Rightarrow> JS_UNDEFINED | Some v \<Rightarrow> v), False) \<sigma>"
| spec_step_has: "spec_step oom magic this \<sigma> (OP_HAS k)
    (MAP_VALUE (JS_BOOL (spec_get (sentries \<sigma>) (map_normalize_key k) \<noteq> None)), False) \<sigma>"
| spec_step_delete: "spec_step oom magic this \<sigma> (OP_DELETE k)
    (MAP_VALUE (JS_BOOL (spec_get (sentries \<sigma>) (map_normalize_key k) \<noteq> None)), False)
    (\<sigma>\<lparr>sentries := spec_delete (sentries \<sigma>) (map_normalize_key k)\<rparr>)"
| spec_step_clear: "spec_step oom magic this \<sigma> OP_CLEAR (MAP_VALUE JS_UNDEFINED, False)
    (\<sigma>\<lparr>sentries := spec_clear (sentries \<sigma>)\<rparr>)"
| spec_step_size: "spec_step oom magic this \<sigma> OP_SIZE (MAP_VALUE (js_new_uint32 (word_of_nat (spec_size (sentries \<sigma>)))), False) \<sigma>"
| spec_step_iterator: "siters \<sigma> i = None \<Longrightarrow>
    spec_step oom magic this \<sigma> (OP_ITERATOR kind) (MAP_VALUE (JS_OBJECT i), False) (\<sigma>\<lparr>siters := (siters \<sigma>)(i \<mapsto> (kind, Some 0))\<rparr>)"
| spec_step_iterator_oom: "oom \<Longrightarrow> spec_step oom magic this \<sigma> (OP_ITERATOR kind) (MAP_EXCEPTION, False) \<sigma>"
| spec_step_not_iterator: "(\<And>i. v = JS_OBJECT i \<Longrightarrow> siters \<sigma> i = None) \<Longrightarrow>
    spec_step oom magic this \<sigma> (OP_NEXT v) (MAP_EXCEPTION, False) \<sigma>"
| spec_step_ended: "siters \<sigma> i = Some (kind, None) \<Longrightarrow>
    spec_step oom magic this \<sigma> (OP_NEXT (JS_OBJECT i)) (MAP_VALUE JS_UNDEFINED, True) \<sigma>"
| spec_step_end: "siters \<sigma> i = Some (kind, Some n) \<Longrightarrow> spec_next (sentries \<sigma>) n = None \<Longrightarrow>
    spec_step oom magic this \<sigma> (OP_NEXT (JS_OBJECT i)) (MAP_VALUE JS_UNDEFINED, True) (\<sigma>\<lparr>siters := (siters \<sigma>)(i \<mapsto> (kind, None))\<rparr>)"
| spec_step_next: "siters \<sigma> i = Some (kind, Some n) \<Longrightarrow> spec_next (sentries \<sigma>) n = Some (j, e) \<Longrightarrow>
    ret = spec_item magic kind e \<or> oom \<and> kind = JS_ITERATOR_KIND_KEY_AND_VALUE \<and> ret = MAP_EXCEPTION \<Longrightarrow>
    spec_step oom magic this \<sigma> (OP_NEXT (JS_OBJECT i)) (ret, False) (\<sigma>\<lparr>siters := (siters \<sigma>)(i \<mapsto> (kind, Some (j + 1)))\<rparr>)"
| spec_step_release: "spec_step oom magic this \<sigma> (OP_RELEASE i) (MAP_VALUE JS_UNDEFINED, False) (\<sigma>\<lparr>siters := (siters \<sigma>)(i := None)\<rparr>)"

inductive spec_run :: "bool \<Rightarrow> nat \<Rightarrow> js_val \<Rightarrow> spec_map \<Rightarrow> map_op list \<Rightarrow> (map_result \<times> bool) list \<Rightarrow> spec_map \<Rightarrow> bool"
  for oom :: bool and magic :: nat and this :: js_val where
  spec_run_nil: "spec_run oom magic this \<sigma> [] [] \<sigma>"
| spec_run_step: "spec_step oom magic this \<sigma> p r \<sigma>1 \<Longrightarrow> spec_run oom magic this \<sigma>1 ps rs \<sigma>2 \<Longrightarrow>
    spec_run oom magic this \<sigma> (p # ps) (r # rs) \<sigma>2"

section \<open>The code's operations\<close>

definition no_done :: "(map_result \<times> map_rt) option \<Rightarrow> ((map_result \<times> bool) \<times> map_rt) option" where
  "no_done = map_option (\<lambda>(r, rt). ((r, False), rt))"

fun map_op_run :: "finalizers \<Rightarrow> js_val \<Rightarrow> nat \<Rightarrow> map_op \<Rightarrow> map_rt \<Rightarrow> ((map_result \<times> bool) \<times> map_rt) option" where
  "map_op_run fin this magic (OP_SET k v) rt = no_done (js_map_set fin rt this magic k v)"
| "map_op_run fin this magic (OP_GET k) rt = no_done (js_map_get rt this magic k)"
| "map_op_run fin this magic (OP_HAS k) rt = no_done (js_map_has rt this magic k)"
| "map_op_run fin this magic (OP_DELETE k) rt = no_done (js_map_delete fin rt this magic k)"
| "map_op_run fin this magic OP_CLEAR rt = no_done (js_map_clear fin rt this magic)"
| "map_op_run fin this magic OP_SIZE rt = no_done (js_map_get_size rt this magic)"
| "map_op_run fin this magic (OP_ITERATOR kind) rt = no_done (Some (js_create_map_iterator rt this magic kind))"
| "map_op_run fin this magic (OP_NEXT v) rt = map_option (\<lambda>(r, b, rt). ((r, b), rt)) (js_map_iterator_next fin rt v magic)"
| "map_op_run fin this magic (OP_RELEASE i) rt =
     map_option (\<lambda>rt. ((MAP_VALUE JS_UNDEFINED, False), rt)) (js_map_iterator_finalizer fin rt i)"

fun map_script :: "finalizers \<Rightarrow> js_val \<Rightarrow> nat \<Rightarrow> map_op list \<Rightarrow> map_rt \<Rightarrow> ((map_result \<times> bool) list \<times> map_rt) option" where
  "map_script fin this magic [] rt = Some ([], rt)"
| "map_script fin this magic (p # ps) rt = do {
     (r, rt) \<leftarrow> map_op_run fin this magic p rt;
     (rs, rt) \<leftarrow> map_script fin this magic ps rt;
     Some (r # rs, rt)
   }"

fun op_keys :: "map_op \<Rightarrow> js_val list" where
  "op_keys (OP_SET k v) = [k]"
| "op_keys (OP_GET k) = [k]"
| "op_keys (OP_HAS k) = [k]"
| "op_keys (OP_DELETE k) = [k]"
| "op_keys _ = []"

section \<open>Which object a heap stands for\<close>

text \<open>The places of the object, each with the record that still stands for it.\<close>

type_synonym places = "(addr option \<times> entry option) list"

definition cells :: "places \<Rightarrow> cells" where
  "cells G = List.map_filter (\<lambda>(p, x). map_option (\<lambda>a. (a, x)) p) G"

lemma cells_simps [simp]:
  "cells [] = []" "cells ((Some a, x) # G) = (a, x) # cells G" "cells ((None, x) # G) = cells G" "cells (G @ H) = cells G @ cells H"
  by (simp_all add: cells_def List.map_filter_def)

definition places_ok :: "places \<Rightarrow> bool" where
  "places_ok G \<longleftrightarrow> (\<forall>c\<in>set G. fst c = None \<longrightarrow> snd c = None)"

definition place :: "places \<Rightarrow> nat \<Rightarrow> addr \<Rightarrow> bool" where
  "place G n a \<longleftrightarrow> n < length G \<and> fst (G ! n) = Some a"

text \<open>Who holds the record \<open>a\<close>: the iterators that stand on it, and loops (\<open>held\<close>, with the index).\<close>

definition iter_locks :: "map_rt \<Rightarrow> addr \<Rightarrow> nat" where
  "iter_locks rt a = card {i. \<exists>it. iters rt i = Some it \<and> it_cur_record it = a}"

definition locks :: "map_rt \<Rightarrow> (addr \<times> nat) list \<Rightarrow> addr \<Rightarrow> nat" where
  "locks rt held a = (if a = 0 then 0 else iter_locks rt a + count_list (map fst held) a)"

definition iter_rel :: "addr \<Rightarrow> nat \<Rightarrow> places \<Rightarrow> map_iterator \<Rightarrow> iterator_kind \<times> nat option \<Rightarrow> bool" where
  "iter_rel s magic G it st \<longleftrightarrow> it_class it = magic \<and> it_kind it = fst st \<and>
     (case snd st of
        None \<Rightarrow> it_obj it = JS_UNDEFINED \<and> it_cur_record it = 0
      | Some n \<Rightarrow> it_obj it = JS_OBJECT s \<and>
          (if n = 0 then it_cur_record it = 0 else it_cur_record it \<noteq> 0 \<and> place G (n - 1) (it_cur_record it)))"

definition iters_rel :: "map_rt \<Rightarrow> addr \<Rightarrow> nat \<Rightarrow> places \<Rightarrow> spec_map \<Rightarrow> bool" where
  "iters_rel rt s magic G \<sigma> \<longleftrightarrow> (\<forall>i. rel_option (iter_rel s magic G) (iters rt i) (siters \<sigma> i)) \<and>
     finite (dom (iters rt)) \<and> (\<forall>i\<in>dom (iters rt). i < map_next rt)"

definition places_at :: "map_rt \<Rightarrow> addr \<Rightarrow> nat \<Rightarrow> map_state \<Rightarrow> places \<Rightarrow> (addr \<times> nat) list \<Rightarrow> spec_map \<Rightarrow> bool" where
  "places_at rt s magic m G held \<sigma> \<longleftrightarrow> map_at rt s m (cells G) (locks rt held) \<and> places_ok G \<and> map snd G = sentries \<sigma> \<and>
     map_class m = magic \<and> iters_rel rt s magic G \<sigma> \<and> (\<forall>(a, n)\<in>set held. a \<noteq> 0 \<and> place G n a) \<and> usable_ok rt"

definition represents :: "map_rt \<Rightarrow> addr \<Rightarrow> nat \<Rightarrow> (addr \<times> nat) list \<Rightarrow> spec_map \<Rightarrow> bool" where
  "represents rt s magic held \<sigma> \<longleftrightarrow> (\<exists>m G. places_at rt s magic m G held \<sigma>)"

lemma cells_split:
  "cells G = us @ (a, x) # vs \<Longrightarrow> \<exists>gu gv. G = gu @ (Some a, x) # gv \<and> cells gu = us \<and> cells gv = vs"
proof (induction G arbitrary: us)
  case (Cons c G)
  obtain p y where c: "c = (p, y)" by (cases c)
  show ?case
  proof (cases p)
    case None
    then obtain gu gv where "G = gu @ (Some a, x) # gv" "cells gu = us" "cells gv = vs" using Cons by (auto simp: c)
    then show ?thesis using None c by (intro exI [of _ "c # gu"] exI [of _ gv]) simp
  next
    case (Some b)
    show ?thesis
    proof (cases us)
      case Nil
      then show ?thesis using Cons.prems Some c by (intro exI [of _ "[]"] exI [of _ G]) simp
    next
      case (Cons d us')
      then have "cells G = us' @ (a, x) # vs" "d = (b, y)" using Cons.prems Some c by auto
      with Cons.IH obtain gu gv where "G = gu @ (Some a, x) # gv" "cells gu = us'" "cells gv = vs" by blast
      then show ?thesis using Some c \<open>us = d # us'\<close> \<open>d = (b, y)\<close> by (intro exI [of _ "c # gu"] exI [of _ gv]) simp
    qed
  qed
qed simp

lemma places_ok_simps [simp]:
  "places_ok []" "places_ok (c # G) \<longleftrightarrow> (fst c = None \<longrightarrow> snd c = None) \<and> places_ok G" "places_ok (G @ H) \<longleftrightarrow> places_ok G \<and> places_ok H"
  by (auto simp: places_ok_def)

lemma live_cells: "places_ok G \<Longrightarrow> map snd (live (cells G)) = List.map_filter id (map snd G)"
proof (induction G)
  case (Cons c G)
  then show ?case by (cases c; cases "fst c"; cases "snd c") (auto simp: List.map_filter_def)
qed (simp add: List.map_filter_def)

lemma length_live_cells: "places_ok G \<Longrightarrow> length (live (cells G)) = spec_size (map snd G)"
proof -
  assume "places_ok G"
  from arg_cong [OF live_cells [OF this], of length] show ?thesis
    by (simp add: spec_size_def List.map_filter_def o_def)
qed

text \<open>What lookup means for the places.\<close>

definition no_match :: "places \<Rightarrow> js_val \<Rightarrow> bool" where
  "no_match G k \<longleftrightarrow> (\<forall>(a, k', v)\<in>set (live (cells G)). \<not> js_same_value_zero k' k)"

lemma no_match_simps [simp]:
  "no_match [] k" "no_match ((None, x) # G) k = no_match G k" "no_match ((Some a, None) # G) k = no_match G k"
  "no_match ((Some a, Some (k', v)) # G) k \<longleftrightarrow> \<not> js_same_value_zero k' k \<and> no_match G k"
  by (auto simp: no_match_def)

lemma spec_no_match:
  assumes "places_ok G" "no_match G k"
  shows "spec_get (map snd G) k = None" "spec_set (map snd G) k v = map snd G @ [Some (k, v)]" "spec_delete (map snd G) k = map snd G"
proof -
  have "spec_get (map snd G) k = None \<and> spec_set (map snd G) k v = map snd G @ [Some (k, v)] \<and> spec_delete (map snd G) k = map snd G"
    using assms
  proof (induction G)
    case (Cons c G)
    obtain p x where c: "c = (p, x)" by (cases c)
    show ?case using Cons by (cases p; cases x) (auto simp: c)
  qed simp
  then show "spec_get (map snd G) k = None" "spec_set (map snd G) k v = map snd G @ [Some (k, v)]" "spec_delete (map snd G) k = map snd G"
    by simp_all
qed

lemma spec_match:
  assumes "places_ok G" "no_match G k" "js_same_value_zero k' k"
  shows "spec_get (map snd G @ Some (k', v') # es) k = Some v'"
    "spec_set (map snd G @ Some (k', v') # es) k v = map snd G @ Some (k', v) # es"
    "spec_delete (map snd G @ Some (k', v') # es) k = map snd G @ None # es"
proof -
  have "spec_get (map snd G @ Some (k', v') # es) k = Some v' \<and>
    spec_set (map snd G @ Some (k', v') # es) k v = map snd G @ Some (k', v) # es \<and>
    spec_delete (map snd G @ Some (k', v') # es) k = map snd G @ None # es"
    using assms
  proof (induction G)
    case (Cons c G)
    obtain p x where c: "c = (p, x)" by (cases c)
    show ?case using Cons by (cases p; cases x) (auto simp: c)
  qed simp
  then show "spec_get (map snd G @ Some (k', v') # es) k = Some v'"
    "spec_set (map snd G @ Some (k', v') # es) k v = map snd G @ Some (k', v) # es"
    "spec_delete (map snd G @ Some (k', v') # es) k = map snd G @ None # es"
    by simp_all
qed

lemma find_place:
  assumes p: "places_at rt s magic m G held \<sigma>"
  obtains "find_key (cells G) k = 0" "no_match G k"
  | gu a k' v' gv where "find_key (cells G) k = a" "0 < a" "G = gu @ (Some a, Some (k', v')) # gv" "js_same_value_zero k' k" "no_match gu k"
proof -
  have m: "map_at rt s m (cells G) (locks rt held)" using p by (simp add: places_at_def)
  show thesis
  proof (rule find_key_cases [OF m, of k])
    assume "find_key (cells G) k = 0" "\<forall>(a, k', v)\<in>set (live (cells G)). \<not> js_same_value_zero k' k"
    then show thesis using that(1) by (simp add: no_match_def)
  next
    fix us a k' v vs
    assume a: "find_key (cells G) k = a" "0 < a" "cells G = us @ (a, Some (k', v)) # vs" "js_same_value_zero k' k"
      "\<forall>(b, k', v)\<in>set (live us). \<not> js_same_value_zero k' k"
    then obtain gu gv where "G = gu @ (Some a, Some (k', v)) # gv" "cells gu = us" using cells_split by blast
    then show thesis using that(2) a by (simp add: no_match_def)
  qed
qed

text \<open>The next entry, among the places and among the records.\<close>

lemma spec_next_places:
  assumes "places_ok G" "n \<le> length G"
  shows "case spec_next (map snd G) n of
      None \<Rightarrow> live (cells (drop n G)) = []
    | Some (j, e) \<Rightarrow> n \<le> j \<and> (\<exists>a ys. place G j a \<and> snd (G ! j) = Some e \<and> live (cells (drop n G)) = (a, e) # ys)"
  using assms
proof (induction "length G - n" arbitrary: n)
  case 0
  then show ?case by (subst spec_next.simps) simp
next
  case (Suc d)
  then have n: "n < length G" by simp
  obtain p x where c: "G ! n = (p, x)" by (cases "G ! n")
  have dr: "drop n G = (p, x) # drop (Suc n) G" using n c by (simp add: Cons_nth_drop_Suc [symmetric])
  have ok: "p = None \<Longrightarrow> x = None" using Suc.prems(1) n c unfolding places_ok_def by (metis fst_conv nth_mem snd_conv)
  show ?case
  proof (cases x)
    case None
    have "live (cells (drop n G)) = live (cells (drop (Suc n) G))" using dr None by (cases p) simp_all
    moreover have "spec_next (map snd G) n = spec_next (map snd G) (Suc n)"
      by (subst spec_next.simps) (use n c None in simp)
    moreover have "d = length G - Suc n" "Suc n \<le> length G" using Suc.hyps(2) n by auto
    from Suc.hyps(1) [OF this(1) Suc.prems(1) this(2)] have "case spec_next (map snd G) (Suc n) of
      None \<Rightarrow> live (cells (drop (Suc n) G)) = []
    | Some (j, e) \<Rightarrow> Suc n \<le> j \<and> (\<exists>a ys. place G j a \<and> snd (G ! j) = Some e \<and> live (cells (drop (Suc n) G)) = (a, e) # ys)" .
    ultimately show ?thesis by (auto split: option.splits)
  next
    case (Some e)
    then obtain a where p: "p = Some a" using ok by (cases p) auto
    have "spec_next (map snd G) n = Some (n, e)" by (subst spec_next.simps) (use n c Some in simp)
    then show ?thesis using n c Some p dr by (simp add: place_def)
  qed
qed

end
