(* ===== verification/Js_Map_Sim.thy ===== *)
theory Js_Map_Sim
  imports Js_Map_Spec
begin

text \<open>
  The functions of the prototype of \<open>Map\<close> and \<open>Set\<close> do what the language says: from a heap that
  represents an object each returns, without touching a freed record, with the answer of a step of
  the specification, in a heap that represents the object after this step.
\<close>

section \<open>From heap to heap\<close>

definition may_fail :: "map_rt \<Rightarrow> bool" where
  "may_fail rt \<longleftrightarrow> (\<exists>c n. map_usable rt c n = None)"

definition same_world :: "map_rt \<Rightarrow> map_rt \<Rightarrow> addr \<Rightarrow> bool" where
  "same_world rt rt' s \<longleftrightarrow> map_usable rt' = map_usable rt \<and> map_option records_head (maps rt' s) = map_option records_head (maps rt s)"

lemma same_env_world: "same_env rt rt' \<Longrightarrow> same_world rt rt' s"
  unfolding same_env_def same_world_def by (cases "maps rt s"; fastforce)

lemma same_world_refl [simp]: "same_world rt rt s"
  by (simp add: same_world_def)

definition simulated ::
  "finalizers \<Rightarrow> map_rt \<Rightarrow> addr \<Rightarrow> nat \<Rightarrow> (addr \<times> nat) list \<Rightarrow> spec_map \<Rightarrow> map_op \<Rightarrow> bool" where
  "simulated fin rt s magic held \<sigma> p \<longleftrightarrow> (\<exists>r rt' \<sigma>'. map_op_run fin (JS_OBJECT s) magic p rt = Some (r, rt') \<and>
     spec_step (may_fail rt) magic (JS_OBJECT s) \<sigma> p r \<sigma>' \<and> represents rt' s magic held \<sigma>' \<and>
     same_world rt rt' s)"

lemma places_atD:
  assumes "places_at rt s magic m G held \<sigma>"
  shows "map_at rt s m (cells G) (locks rt held)" "places_ok G" "map snd G = sentries \<sigma>" "map_class m = magic"
    "iters_rel rt s magic G \<sigma>" "\<forall>(a, n)\<in>set held. a \<noteq> 0 \<and> place G n a" "usable_ok rt" "maps rt s = Some m"
  using assms by (simp_all add: places_at_def map_at_def)

lemma get_map_this: "places_at rt s magic m G held \<sigma> \<Longrightarrow> get_map rt (JS_OBJECT s) magic = Some s"
  using places_atD(4,8) by (fastforce simp: get_map_def)

lemma locks_cong: "iters rt' = iters rt \<Longrightarrow> locks rt' held = locks rt held"
  by (simp add: locks_def iter_locks_def fun_eq_iff)

lemma iter_locks_pos:
  assumes "finite (dom (iters rt))" "iters rt i = Some it" "it_cur_record it = a"
  shows "0 < iter_locks rt a"
proof -
  have "finite {i. \<exists>it. iters rt i = Some it \<and> it_cur_record it = a}" by (rule finite_subset [OF _ assms(1)]) auto
  then show ?thesis using assms(2,3) by (auto simp: iter_locks_def card_gt_0_iff)
qed

lemma held_count: "(a, n) \<in> set held \<Longrightarrow> 0 < count_list (map fst held) a"
  by (induction held) auto

text \<open>The iterators and loops are not disturbed when no place changes that one of them stands on.\<close>

lemma places_at_step:
  assumes p: "places_at rt s magic m G held \<sigma>" and e: "same_env rt rt'"
    and m: "map_at rt' s m' (cells G') (locks rt held)" and G': "places_ok G'" "map snd G' = es"
    and pl: "\<And>n a. place G n a \<Longrightarrow> 0 < locks rt held a \<Longrightarrow> place G' n a"
  shows "places_at rt' s magic m' G' held (\<sigma>\<lparr>sentries := es\<rparr>)"
proof -
  note P = places_atD [OF p]
  have it: "iters rt' = iters rt" "map_usable rt' = map_usable rt" "map_next rt \<le> map_next rt'" using e by (auto simp: same_env_def)
  have "map_class m' = magic" using e P(4,8) map_atD(1) [OF m] unfolding same_env_def by fastforce
  moreover have "iters_rel rt' s magic G' (\<sigma>\<lparr>sentries := es\<rparr>)"
    unfolding iters_rel_def it
  proof (intro conjI allI ballI)
    fix i
    have "rel_option (iter_rel s magic G) (iters rt i) (siters \<sigma> i)" using P(5) by (simp add: iters_rel_def)
    moreover have "iter_rel s magic G' itr st" if i: "iters rt i = Some itr" "iter_rel s magic G itr st" for itr st
    proof -
      have "0 < locks rt held (it_cur_record itr)" if "it_cur_record itr \<noteq> 0"
        using iter_locks_pos [of rt i itr] P(5) i(1) that by (simp add: locks_def iters_rel_def)
      then show ?thesis using i(2) pl by (auto simp: iter_rel_def split: option.splits if_splits)
    qed
    ultimately show "rel_option (iter_rel s magic G') (iters rt i) (siters (\<sigma>\<lparr>sentries := es\<rparr>) i)"
      by (cases "iters rt i"; cases "siters \<sigma> i") auto
  next
    show "finite (dom (iters rt))" using P(5) by (simp add: iters_rel_def)
    fix i assume "i \<in> dom (iters rt)"
    then show "i < map_next rt'" using P(5) it(3) unfolding iters_rel_def by (meson order_less_le_trans)
  qed
  moreover have "\<forall>(a, n)\<in>set held. a \<noteq> 0 \<and> place G' n a"
  proof clarify
    fix a n assume h: "(a, n) \<in> set held"
    then have "a \<noteq> 0" "place G n a" using P(6) by auto
    moreover have "0 < count_list (map fst held) a" using h by (rule held_count)
    ultimately show "a \<noteq> 0 \<and> place G' n a" using pl by (simp add: locks_def)
  qed
  ultimately show ?thesis
    using m G' P(7) it locks_cong [OF it(1), of held] by (simp add: places_at_def usable_ok_def)
qed

lemma places_at_cong:
  assumes "places_at rt s magic m G held \<sigma>" "mlinks rt' = mlinks rt" "hlinks rt' = hlinks rt" "recs rt' = recs rt" "maps rt' = maps rt"
    "iters rt' = iters rt" "map_usable rt' = map_usable rt" "map_next rt \<le> map_next rt'"
  shows "places_at rt' s magic m G held \<sigma>"
proof -
  have "same_env rt rt'" using assms(5-8) by (simp add: same_env_def)
  moreover have "map_at rt' s m (cells G) (locks rt held)" by (rule map_at_cong [OF places_atD(1) [OF assms(1)]]) (use assms in simp_all)
  ultimately have "places_at rt' s magic m G held (\<sigma>\<lparr>sentries := sentries \<sigma>\<rparr>)"
    by (rule places_at_step [OF assms(1)]) (use places_atD(2,3) [OF assms(1)] in simp_all)
  then show ?thesis by simp
qed

lemma represents_at: "places_at rt s magic m G held \<sigma> \<Longrightarrow> represents rt s magic held \<sigma>"
  by (auto simp: represents_def)

lemma simulatedI:
  "map_op_run fin (JS_OBJECT s) magic p rt = Some (r, rt') \<Longrightarrow> spec_step (may_fail rt) magic (JS_OBJECT s) \<sigma> p r \<sigma>' \<Longrightarrow>
   places_at rt' s magic m G held \<sigma>' \<Longrightarrow> same_world rt rt' s \<Longrightarrow> simulated fin rt s magic held \<sigma> p"
  unfolding simulated_def represents_def by blast

lemma find_record_place:
  "places_at rt s magic m G held \<sigma> \<Longrightarrow> canonical k \<Longrightarrow>
   map_find_record rt s (map_normalize_key k) = Some (find_key (cells G) (map_normalize_key k))"
  using map_find_record_ok [OF places_atD(1) map_key_normalize] by blast

lemma rec_at_place:
  assumes "places_at rt s magic m (gu @ (Some a, x) # gv) held \<sigma>"
  obtains r where "recs rt a = Some r" "rec_ok (locks rt held) a x r"
  using recs_okD [OF map_atD(4) [OF places_atD(1) [OF assms]], of a x] by auto

section \<open>Lookup\<close>

lemma js_map_get_simulated:
  assumes p: "places_at rt s magic m G held \<sigma>" and k: "canonical k"
  shows "simulated fin rt s magic held \<sigma> (OP_GET k)"
proof -
  let ?k = "map_normalize_key k"
  note P = places_atD [OF p]
  have step: "spec_step (may_fail rt) magic (JS_OBJECT s) \<sigma> (OP_GET k)
    (MAP_VALUE (case spec_get (sentries \<sigma>) ?k of None \<Rightarrow> JS_UNDEFINED | Some v \<Rightarrow> v), False) \<sigma>"
    by (rule spec_step_get)
  show ?thesis
  proof (rule find_place [OF p, of ?k])
    assume a: "find_key (cells G) ?k = 0" "no_match G ?k"
    then have "spec_get (sentries \<sigma>) ?k = None" using spec_no_match(1) [OF P(2)] P(3) by simp
    then have "map_op_run fin (JS_OBJECT s) magic (OP_GET k) rt =
      Some ((MAP_VALUE (case spec_get (sentries \<sigma>) ?k of None \<Rightarrow> JS_UNDEFINED | Some v \<Rightarrow> v), False), rt)"
      using find_record_place [OF p k] a(1) get_map_this [OF p] by (simp add: js_map_get_def no_done_def)
    from simulatedI [OF this step p] show ?thesis by simp
  next
    fix gu a k' v' gv
    assume a: "find_key (cells G) ?k = a" "0 < a" "G = gu @ (Some a, Some (k', v')) # gv" "js_same_value_zero k' ?k" "no_match gu ?k"
    obtain r where r: "recs rt a = Some r" "rec_ok (locks rt held) a (Some (k', v')) r"
      using rec_at_place [of rt s magic m gu a "Some (k', v')" gv] p a(3) by blast
    have "sentries \<sigma> = map snd gu @ Some (k', v') # map snd gv" using P(3) a(3) by auto
    then have g: "spec_get (sentries \<sigma>) ?k = Some v'" using spec_match(1) [OF _ a(5,4)] P(2) a(3) by simp
    have at: "places_at (dup_val v' rt) s magic m G held \<sigma>" by (rule places_at_cong [OF p]) (simp_all add: dup_val_def)
    have "map_op_run fin (JS_OBJECT s) magic (OP_GET k) rt =
      Some ((MAP_VALUE (case spec_get (sentries \<sigma>) ?k of None \<Rightarrow> JS_UNDEFINED | Some v \<Rightarrow> v), False), dup_val v' rt)"
      using find_record_place [OF p k] a(1,2) r get_map_this [OF p] g by (simp add: js_map_get_def no_done_def rec_ok_live)
    from simulatedI [OF this step at] show ?thesis by (simp add: dup_val_def same_world_def)
  qed
qed

lemma js_map_has_simulated:
  assumes p: "places_at rt s magic m G held \<sigma>" and k: "canonical k"
  shows "simulated fin rt s magic held \<sigma> (OP_HAS k)"
proof -
  let ?k = "map_normalize_key k"
  note P = places_atD [OF p]
  have "spec_get (sentries \<sigma>) ?k \<noteq> None \<longleftrightarrow> find_key (cells G) ?k \<noteq> 0"
  proof (rule find_place [OF p, of ?k])
    fix gu a k' v' gv
    assume a: "find_key (cells G) ?k = a" "0 < a" "G = gu @ (Some a, Some (k', v')) # gv" "js_same_value_zero k' ?k" "no_match gu ?k"
    have "sentries \<sigma> = map snd gu @ Some (k', v') # map snd gv" using P(3) a(3) by auto
    then show ?thesis using spec_match(1) [OF _ a(5,4)] P(2) a(1-3) by simp
  qed (use spec_no_match(1) [OF P(2)] P(3) in simp)
  then have "map_op_run fin (JS_OBJECT s) magic (OP_HAS k) rt = Some ((MAP_VALUE (JS_BOOL (spec_get (sentries \<sigma>) ?k \<noteq> None)), False), rt)"
    using find_record_place [OF p k] get_map_this [OF p] by (simp add: js_map_has_def no_done_def js_new_bool_def)
  from simulatedI [OF this spec_step_has p] show ?thesis by simp
qed

lemma js_map_get_size_simulated:
  assumes p: "places_at rt s magic m G held \<sigma>"
  shows "simulated fin rt s magic held \<sigma> OP_SIZE"
proof -
  note P = places_atD [OF p]
  have "record_count m = word_of_nat (spec_size (sentries \<sigma>))"
    using map_atD(7) [OF P(1)] length_live_cells [OF P(2)] P(3) by simp
  then have "map_op_run fin (JS_OBJECT s) magic OP_SIZE rt = Some ((MAP_VALUE (js_new_uint32 (word_of_nat (spec_size (sentries \<sigma>)))), False), rt)"
    using get_map_this [OF p] P(8) by (simp add: js_map_get_size_def no_done_def)
  from simulatedI [OF this spec_step_size p] show ?thesis by simp
qed

section \<open>Changes\<close>

lemma js_map_set_simulated:
  assumes q: "quiet fin" and p: "places_at rt s magic m G held \<sigma>" and k: "canonical k"
  shows "simulated fin rt s magic held \<sigma> (OP_SET k v)"
proof -
  let ?k = "map_normalize_key k" and ?self = "JS_OBJECT s"
  define w where "w = (if magic_set magic then JS_UNDEFINED else v)"
  note P = places_atD [OF p] and g = get_map_this [OF p]
  have nw: "\<not> is_weak m" by (rule map_atD(2) [OF P(1)])
  have step: "spec_step (may_fail rt) magic ?self \<sigma> (OP_SET k v) (MAP_VALUE ?self, False) (\<sigma>\<lparr>sentries := spec_set (sentries \<sigma>) ?k w\<rparr>)"
    unfolding w_def by (rule spec_step_set)
  show ?thesis
  proof (rule find_place [OF p, of ?k])
    fix gu a k' v' gv
    assume a: "find_key (cells G) ?k = a" "0 < a" "G = gu @ (Some a, Some (k', v')) # gv" "js_same_value_zero k' ?k" "no_match gu ?k"
    obtain r where r: "recs rt a = Some r" "rec_ok (locks rt held) a (Some (k', v')) r"
      using rec_at_place [of rt s magic m gu a "Some (k', v')" gv] p a(3) by blast
    let ?G = "gu @ (Some a, Some (k', w)) # gv" and ?r = "r\<lparr>mr_value := w\<rparr>"
    obtain f where f: "map_op_run fin ?self magic (OP_SET k v) rt = Some ((MAP_VALUE ?self, False), (set_rec rt a ?r)\<lparr>map_refs := f\<rparr>)"
      using find_record_place [OF p k] a(1,2) r(1) g P(8) nw
      by (simp add: js_map_set_def no_done_def Let_def free_val_quiet [OF q] w_def [symmetric] set_rec_def dup_val_def)
    let ?rt = "(set_rec rt a ?r)\<lparr>map_refs := f\<rparr>"
    have "map_at (set_rec rt a ?r) s m (cells ?G) (locks rt held)"
      using map_set_value_ok [of rt s m "cells gu" a k' v' "cells gv", OF _ r(1)] P(1) a(3) by simp
    then have at: "map_at ?rt s m (cells ?G) (locks rt held)" by (simp only: map_at_refs)
    have "sentries \<sigma> = map snd gu @ Some (k', v') # map snd gv" using P(3) a(3) by auto
    then have es: "map snd ?G = spec_set (sentries \<sigma>) ?k w" using spec_match(2) [OF _ a(5,4)] P(2) a(3) by simp
    have "places_at ?rt s magic m ?G held (\<sigma>\<lparr>sentries := spec_set (sentries \<sigma>) ?k w\<rparr>)"
      by (rule places_at_step [OF p _ at _ es])
        (use P(2) a(3) in \<open>auto simp: same_env_def set_rec_def place_def nth_append nth_Cons' split: if_splits\<close>)
    from simulatedI [OF f step this] show ?thesis by (simp add: set_rec_def same_world_def)
  next
    assume a: "find_key (cells G) ?k = 0" "no_match G ?k"
    show ?thesis
    proof (cases "map_usable rt (map_clock rt) sizeof_map_record")
      case None
      let ?rt = "rt\<lparr>map_clock := map_clock rt + 1\<rparr>"
      have run: "map_op_run fin ?self magic (OP_SET k v) rt = Some ((MAP_EXCEPTION, False), ?rt)"
        using find_record_place [OF p k] a(1) g P(8) nw map_malloc_fails [OF None, of 1]
        by (simp add: js_map_set_def no_done_def Let_def map_add_record_def)
      have at: "places_at ?rt s magic m G held \<sigma>" by (rule places_at_cong [OF p]) simp_all
      have "spec_get (sentries \<sigma>) ?k = None" using spec_no_match(1) [OF P(2) a(2)] P(3) by simp
      then have "spec_step (may_fail rt) magic ?self \<sigma> (OP_SET k v) (MAP_EXCEPTION, False) \<sigma>"
        by (rule spec_step_set_oom [rotated]) (use None in \<open>auto simp: may_fail_def\<close>)
      from simulatedI [OF run this at] show ?thesis by (simp add: same_world_def)
    next
      case (Some bytes)
      define mr where "mr = map_next rt"
      obtain rt1 m1 where add: "map_add_record rt s ?k = Some (mr, rt1)" "same_env rt rt1" "0 < mr"
        "map_at rt1 s m1 (cells G @ [(mr, Some (?k, JS_UNDEFINED))]) (locks rt held)"
        using map_add_record_ok [OF P(7,1) map_key_normalize [OF k] _ Some] a(2) unfolding no_match_def mr_def by blast
      obtain r where r: "recs rt1 mr = Some r" using recs_okD [OF map_atD(4) [OF add(4)], of mr] by auto
      let ?G = "G @ [(Some mr, Some (?k, w))]" and ?r = "r\<lparr>mr_value := w\<rparr>"
      obtain f where f: "map_op_run fin ?self magic (OP_SET k v) rt = Some ((MAP_VALUE ?self, False), (set_rec rt1 mr ?r)\<lparr>map_refs := f\<rparr>)"
        using find_record_place [OF p k] a(1) r(1) g P(8) nw add(1,3)
        by (simp add: js_map_set_def no_done_def Let_def w_def [symmetric] set_rec_def dup_val_def)
      let ?rt = "(set_rec rt1 mr ?r)\<lparr>map_refs := f\<rparr>"
      have "map_at (set_rec rt1 mr ?r) s m1 (cells ?G) (locks rt held)"
        using map_set_value_ok [OF add(4) r] by simp
      then have at: "map_at ?rt s m1 (cells ?G) (locks rt held)" by (simp only: map_at_refs)
      have es: "map snd ?G = spec_set (sentries \<sigma>) ?k w" using spec_no_match(2) [OF P(2) a(2)] P(3) by simp
      have env: "same_env rt ?rt" by (rule same_env_trans [OF add(2)]) (auto simp: same_env_def set_rec_def)
      have "places_at ?rt s magic m1 ?G held (\<sigma>\<lparr>sentries := spec_set (sentries \<sigma>) ?k w\<rparr>)"
        by (rule places_at_step [OF p env at _ es]) (use P(2) in \<open>auto simp: place_def nth_append\<close>)
      from simulatedI [OF f step this] same_env_world [OF env] show ?thesis by simp
    qed
  qed
qed

text \<open>A place loses its entry, and its record unless someone holds it.\<close>

definition emptied :: "(addr \<Rightarrow> nat) \<Rightarrow> addr option \<times> entry option \<Rightarrow> addr option \<times> entry option" where
  "emptied lk c = (case fst c of Some a \<Rightarrow> if lk a = 0 then (None, None) else (Some a, None) | None \<Rightarrow> (None, None))"

lemma snd_emptied [simp]: "snd (emptied lk c) = None"
  by (simp add: emptied_def split: option.split)

lemma fst_emptied: "fst c = Some a \<Longrightarrow> 0 < lk a \<Longrightarrow> fst (emptied lk c) = Some a"
  by (simp add: emptied_def)

lemma js_map_delete_simulated:
  assumes q: "quiet fin" and p: "places_at rt s magic m G held \<sigma>" and k: "canonical k"
  shows "simulated fin rt s magic held \<sigma> (OP_DELETE k)"
proof -
  let ?k = "map_normalize_key k" and ?self = "JS_OBJECT s" and ?lk = "locks rt held"
  note P = places_atD [OF p] and g = get_map_this [OF p]
  have step: "spec_step (may_fail rt) magic ?self \<sigma> (OP_DELETE k) (MAP_VALUE (JS_BOOL (spec_get (sentries \<sigma>) ?k \<noteq> None)), False)
    (\<sigma>\<lparr>sentries := spec_delete (sentries \<sigma>) ?k\<rparr>)"
    by (rule spec_step_delete)
  show ?thesis
  proof (rule find_place [OF p, of ?k])
    assume a: "find_key (cells G) ?k = 0" "no_match G ?k"
    then have "spec_get (sentries \<sigma>) ?k = None" "spec_delete (sentries \<sigma>) ?k = sentries \<sigma>"
      using spec_no_match(1,3) [OF P(2) a(2)] P(3) by simp_all
    moreover from this have run: "map_op_run fin ?self magic (OP_DELETE k) rt = Some ((MAP_VALUE (JS_BOOL (spec_get (sentries \<sigma>) ?k \<noteq> None)), False), rt)"
      using find_record_place [OF p k] a(1) g by (simp add: js_map_delete_def no_done_def)
    ultimately have "places_at rt s magic m G held (\<sigma>\<lparr>sentries := spec_delete (sentries \<sigma>) ?k\<rparr>)" using p by simp
    from simulatedI [OF run step this] show ?thesis by simp
  next
    fix gu a k' v' gv
    assume a: "find_key (cells G) ?k = a" "0 < a" "G = gu @ (Some a, Some (k', v')) # gv" "js_same_value_zero k' ?k" "no_match gu ?k"
    have "map_at rt s m (cells gu @ (a, Some (k', v')) # cells gv) ?lk" using P(1) a(3) by simp
    from map_delete_record_ok [OF q this] obtain rt' m' where d: "map_delete_record fin rt s a = Some rt'" "same_env rt rt'"
      "map_at rt' s m' (if ?lk a = 0 then cells gu @ cells gv else cells gu @ (a, None) # cells gv) ?lk" by blast
    let ?G = "gu @ emptied ?lk (Some a, Some (k', v')) # gv"
    have at: "map_at rt' s m' (cells ?G) ?lk" using d(3) by (simp add: emptied_def split: if_splits)
    have e: "sentries \<sigma> = map snd gu @ Some (k', v') # map snd gv" using P(3) a(3) by auto
    have es: "map snd ?G = spec_delete (sentries \<sigma>) ?k" using spec_match(3) [OF _ a(5,4)] P(2) a(3) e by simp
    have at: "places_at rt' s magic m' ?G held (\<sigma>\<lparr>sentries := spec_delete (sentries \<sigma>) ?k\<rparr>)"
      by (rule places_at_step [OF p d(2) at _ es])
        (use P(2) a(3) in \<open>auto simp: place_def nth_append nth_Cons' fst_emptied split: if_splits\<close>)
    have "spec_get (sentries \<sigma>) ?k = Some v'" using spec_match(1) [OF _ a(5,4)] P(2) a(3) e by simp
    then have run: "map_op_run fin ?self magic (OP_DELETE k) rt = Some ((MAP_VALUE (JS_BOOL (spec_get (sentries \<sigma>) ?k \<noteq> None)), False), rt')"
      using find_record_place [OF p k] a(1,2) g d(1) by (simp add: js_map_delete_def no_done_def)
    from simulatedI [OF run step at] same_env_world [OF d(2)] show ?thesis by simp
  qed
qed

definition first_cell :: "addr \<Rightarrow> cells \<Rightarrow> addr" where
  "first_cell head xs = (case xs of [] \<Rightarrow> head | c # _ \<Rightarrow> fst c)"

lemma first_cell_simps [simp]: "first_cell head [] = head" "first_cell head (c # xs) = fst c"
  by (simp_all add: first_cell_def)

lemma first_cell_head: "ilist h head (map fst xs) \<Longrightarrow> get_next h head = Some (first_cell head xs)"
  by (cases xs) (auto simp: ilist_def)

lemma first_cell_next: "ilist h head (map fst (us @ (a, x) # vs)) \<Longrightarrow> get_next h a = Some (first_cell head vs)"
  using ilist_next [of h head "map fst us" a "map fst vs"] by (cases vs) simp_all

lemma first_cell_some: "ilist h head (map fst (us @ vs)) \<Longrightarrow> \<exists>n. get_next h (first_cell head vs) = Some n"
  using first_cell_head [of h head "us @ vs"] first_cell_next [of h head us] by (cases vs) fastforce+

lemma map_clear_loop_ok:
  assumes q: "quiet fin" and "map_at rt s m (us @ vs) lk" "vs \<noteq> [] \<Longrightarrow> el1 = first_cell (records_head m) (tl vs)"
    "records_head m = head"
  shows "\<exists>rt' m'. map_clear_loop fin s head (first_cell head vs) el1 rt = Some rt' \<and> same_env rt rt' \<and>
    map_at rt' s m' (us @ [(a, None). (a, x) \<leftarrow> vs, lk a \<noteq> 0]) lk"
  using assms(2-)
proof (induction vs arbitrary: rt m us el1)
  case Nil
  then show ?case by (subst map_clear_loop.simps) auto
next
  case (Cons c vs)
  obtain a x where c: "c = (a, x)" by (cases c)
  note M = map_atD [OF Cons.prems(1)]
  have ah: "a \<noteq> head" using M(3) Cons.prems(3) by (auto simp: ilist_def c)
  obtain r where r: "recs rt a = Some r" "rec_ok lk a x r" using recs_okD [OF M(4), of a x] by (auto simp: c)
  let ?cs = "if lk a = 0 then [] else [(a, None)]"
  have "\<exists>rt1 m1. map_delete_record fin rt s a = Some rt1 \<and> same_env rt rt1 \<and> records_head m1 = records_head m \<and>
    map_at rt1 s m1 ((us @ ?cs) @ vs) lk"
  proof (cases x)
    case None
    then have "map_delete_record fin rt s a = Some rt" "0 < lk a" using r by (auto simp: map_delete_record_def rec_ok_dead)
    then show ?thesis using Cons.prems(1) None by (intro exI [of _ rt] exI [of _ m]) (simp add: c)
  next
    case (Some e)
    then show ?thesis using map_delete_record_ok [OF q, of rt s m us a "fst e" "snd e" vs lk] Cons.prems(1) by (cases "lk a = 0") (force simp: c)+
  qed
  then obtain rt1 m1 where d: "map_delete_record fin rt s a = Some rt1" "same_env rt rt1" "records_head m1 = head"
    "map_at rt1 s m1 ((us @ ?cs) @ vs) lk" using Cons.prems(3) by blast
  have el1: "el1 = first_cell head vs" using Cons.prems(2,3) by simp
  note l = map_atD(3) [OF d(4), unfolded d(3)]
  obtain n where n: "get_next (mlinks rt1) el1 = Some n" using first_cell_some [OF l] el1 by blast
  have "n = first_cell (records_head m1) (tl vs)" if ne: "vs \<noteq> []"
  proof -
    obtain b y ws where vs: "vs = (b, y) # ws" using ne by (cases vs) auto
    have "get_next (mlinks rt1) b = Some (first_cell head ws)" by (rule first_cell_next [OF l [unfolded vs]])
    then show ?thesis using n el1 vs d(3) by simp
  qed
  from Cons.IH [OF d(4) this d(3)] obtain rt' m' where IH: "map_clear_loop fin s head (first_cell head vs) n rt1 = Some rt'" "same_env rt1 rt'"
    "map_at rt' s m' ((us @ ?cs) @ [(a, None). (a, x) \<leftarrow> vs, lk a \<noteq> 0]) lk" by blast
  have "map_clear_loop fin s head (first_cell head (c # vs)) el1 rt = Some rt'"
    using ah d(1) n IH(1) el1 by (subst map_clear_loop.simps) (simp add: c)
  then show ?case using same_env_trans [OF d(2) IH(2)] IH(3) by (intro exI [of _ rt'] exI [of _ m'], cases "lk a = 0") (simp_all add: c)
qed

lemma cells_emptied: "cells (map (emptied lk) G) = [(a, None). (a, x) \<leftarrow> cells G, lk a \<noteq> 0]"
proof (induction G)
  case (Cons c G)
  then show ?case by (cases c; cases "fst c") (simp_all add: emptied_def)
qed simp

lemma js_map_clear_simulated:
  assumes q: "quiet fin" and p: "places_at rt s magic m G held \<sigma>"
  shows "simulated fin rt s magic held \<sigma> OP_CLEAR"
proof -
  let ?lk = "locks rt held" and ?h = "records_head m" and ?G = "map (emptied (locks rt held)) G"
  note P = places_atD [OF p] and g = get_map_this [OF p]
  note l = map_atD(3) [OF P(1)]
  have el: "get_next (mlinks rt) ?h = Some (first_cell ?h (cells G))" by (rule first_cell_head [OF l])
  obtain n where n: "get_next (mlinks rt) (first_cell ?h (cells G)) = Some n" using first_cell_some [of _ _ "[]" "cells G"] l by auto
  have m0: "map_at rt s m ([] @ cells G) ?lk" using P(1) by simp
  have n1: "n = first_cell ?h (tl (cells G))" if ne: "cells G \<noteq> []"
  proof -
    obtain b y ws where vs: "cells G = (b, y) # ws" using ne by (cases "cells G") auto
    then show ?thesis using n first_cell_next [of "mlinks rt" ?h "[]" b y ws] l by simp
  qed
  obtain rt' m' where
    c: "map_clear_loop fin s ?h (first_cell ?h (cells G)) n rt = Some rt'" "same_env rt rt'" "map_at rt' s m' (cells ?G) ?lk"
    using map_clear_loop_ok [OF q m0 n1 refl] unfolding cells_emptied append_Nil by blast
  have es: "map snd ?G = spec_clear (sentries \<sigma>)" by (simp add: spec_clear_def o_def flip: P(3))
  have "places_at rt' s magic m' ?G held (\<sigma>\<lparr>sentries := spec_clear (sentries \<sigma>)\<rparr>)"
    by (rule places_at_step [OF p c(2,3) _ es]) (auto simp: place_def fst_emptied places_ok_def)
  moreover have run: "map_op_run fin (JS_OBJECT s) magic OP_CLEAR rt = Some ((MAP_VALUE JS_UNDEFINED, False), rt')"
    using g P(8) el n c(1) by (simp add: js_map_clear_def no_done_def)
  ultimately show ?thesis using simulatedI [OF run spec_step_clear] same_env_world [OF c(2)] by blast
qed

end
