(* ===== verification/Js_Map_Iter.thy ===== *)
theory Js_Map_Iter
  imports Js_Map_Sim
begin

text \<open>
  Iterators of \<open>Map\<close> and \<open>Set\<close>: creation, \<open>next\<close> and release follow the specification, whatever is
  deleted or added between two steps, and never touch a record that has been freed.
\<close>

section \<open>The holders of a record\<close>

lemma iter_locks_upd:
  assumes "finite (dom (iters rt))" "iters rt' = (iters rt)(i := y)"
  shows "iter_locks rt' a + of_bool (map_option it_cur_record (iters rt i) = Some a) =
    iter_locks rt a + of_bool (map_option it_cur_record y = Some a)"
proof -
  let ?A = "{j. j \<noteq> i \<and> (\<exists>it. iters rt j = Some it \<and> it_cur_record it = a)}"
  have f: "finite ?A" by (rule finite_subset [OF _ assms(1)]) auto
  have "{j. \<exists>it. iters rt j = Some it \<and> it_cur_record it = a} = (if map_option it_cur_record (iters rt i) = Some a then insert i ?A else ?A)"
    by auto
  then have 1: "iter_locks rt a = card ?A + of_bool (map_option it_cur_record (iters rt i) = Some a)"
    using f by (simp add: iter_locks_def)
  have "{j. \<exists>it. iters rt' j = Some it \<and> it_cur_record it = a} = (if map_option it_cur_record y = Some a then insert i ?A else ?A)"
    using assms(2) by auto
  then have "iter_locks rt' a = card ?A + of_bool (map_option it_cur_record y = Some a)"
    using f by (simp add: iter_locks_def)
  then show ?thesis using 1 by simp
qed

lemma places_atI:
  assumes "map_at rt s m (cells G) (locks rt held)" "places_ok G" "map snd G = sentries \<sigma>" "map_class m = magic"
    "iters_rel rt s magic G \<sigma>" "\<forall>(a, n)\<in>set held. a \<noteq> 0 \<and> place G n a" "usable_ok rt"
  shows "places_at rt s magic m G held \<sigma>"
  using assms by (simp add: places_at_def)

text \<open>An iterator that stands nowhere may come, change and go.\<close>

lemma iters_rel_upd:
  assumes "iters_rel rt s magic G \<sigma>" "iters rt' = (iters rt)(i := y)" "rel_option (iter_rel s magic G) y st"
    "map_next rt \<le> map_next rt'" "i < map_next rt'"
  shows "iters_rel rt' s magic G (\<sigma>\<lparr>siters := (siters \<sigma>)(i := st)\<rparr>)"
  unfolding iters_rel_def
proof (intro conjI allI ballI)
  show "rel_option (iter_rel s magic G) (iters rt' j) (siters (\<sigma>\<lparr>siters := (siters \<sigma>)(i := st)\<rparr>) j)" for j
    using assms(1-3) by (simp add: iters_rel_def)
  show "finite (dom (iters rt'))" using assms(1,2) by (simp add: iters_rel_def)
  fix j assume j: "j \<in> dom (iters rt')"
  show "j < map_next rt'"
  proof (cases "j = i")
    case False
    then have "j \<in> dom (iters rt)" using j False assms(2) by (cases y) auto
    then show ?thesis using assms(1,4) unfolding iters_rel_def by (meson order_less_le_trans)
  qed (use assms(5) in simp)
qed

lemma iters_rel_next:
  "iters_rel rt s magic G \<sigma> \<Longrightarrow> iters rt' = iters rt \<Longrightarrow> map_next rt \<le> map_next rt' \<Longrightarrow> iters_rel rt' s magic G \<sigma>"
  unfolding iters_rel_def by (metis order_less_le_trans)

lemma idle_iterator:
  assumes p: "places_at rt s magic m G held \<sigma>"
    and i: "map_option it_cur_record (iters rt i) \<in> {None, Some 0}" "map_option it_cur_record y \<in> {None, Some 0}"
    and rt': "iters rt' = (iters rt)(i := y)" "mlinks rt' = mlinks rt" "hlinks rt' = hlinks rt" "recs rt' = recs rt" "maps rt' = maps rt"
      "map_usable rt' = map_usable rt" "map_next rt \<le> map_next rt'" "i < map_next rt'"
    and st: "rel_option (iter_rel s magic G) y st"
  shows "places_at rt' s magic m G held (\<sigma>\<lparr>siters := (siters \<sigma>)(i := st)\<rparr>)"
proof (rule places_atI)
  note P = places_atD [OF p]
  have f: "finite (dom (iters rt))" using P(5) by (simp add: iters_rel_def)
  have "locks rt' held = locks rt held"
  proof
    fix a
    show "locks rt' held a = locks rt held a"
      using iter_locks_upd [OF f rt'(1), of a] i by (cases "a = 0") (auto simp: locks_def)
  qed
  moreover have "map_at rt' s m (cells G) (locks rt held)" by (rule map_at_cong [OF P(1)]) (use rt' in simp_all)
  ultimately show "map_at rt' s m (cells G) (locks rt' held)" by simp
  show "iters_rel rt' s magic G (\<sigma>\<lparr>siters := (siters \<sigma>)(i := st)\<rparr>)" by (rule iters_rel_upd [OF P(5) rt'(1) st rt'(7,8)])
  show "usable_ok rt'" using P(7) rt'(6) by (simp add: usable_ok_def)
qed (use places_atD [OF p] in auto)

lemma js_create_map_iterator_simulated:
  assumes p: "places_at rt s magic m G held \<sigma>"
  shows "simulated fin rt s magic held \<sigma> (OP_ITERATOR kind)"
proof -
  note P = places_atD [OF p] and g = get_map_this [OF p]
  let ?i = "map_next rt" and ?c = "map_clock rt"
  have pos: "0 < ?i" using map_atD(8) [OF P(1)] by (simp add: fresh_ok_def)
  have new: "iters rt ?i = None" using P(5) by (auto simp: iters_rel_def)
  have "rel_option (iter_rel s magic G) (iters rt ?i) (siters \<sigma> ?i)" using P(5) by (simp add: iters_rel_def)
  then have snew: "siters \<sigma> ?i = None" using new by (cases "siters \<sigma> ?i") auto
  have oom: "map_usable rt c n = None \<Longrightarrow> spec_step (may_fail rt) magic (JS_OBJECT s) \<sigma> (OP_ITERATOR kind) (MAP_EXCEPTION, False) \<sigma>" for c n
    by (rule spec_step_iterator_oom) (auto simp: may_fail_def)
  show ?thesis
  proof (cases "map_usable rt ?c 1")
    case None
    let ?rt = "rt\<lparr>map_clock := ?c + 1\<rparr>"
    have at: "places_at ?rt s magic m G held \<sigma>" by (rule places_at_cong [OF p]) simp_all
    have run: "map_op_run fin (JS_OBJECT s) magic (OP_ITERATOR kind) rt = Some ((MAP_EXCEPTION, False), ?rt)"
      using g None by (simp add: js_create_map_iterator_def no_done_def map_malloc_def)
    show ?thesis by (rule simulatedI [OF run oom [OF None] at]) (simp add: same_world_def)
  next
    case (Some u)
    show ?thesis
    proof (cases "map_usable rt (?c + 1) 1")
      case None
      let ?rt = "rt\<lparr>map_clock := ?c + 2, map_next := ?i + 1\<rparr>"
      have at: "places_at ?rt s magic m G held \<sigma>" by (rule places_at_cong [OF p]) simp_all
      have run: "map_op_run fin (JS_OBJECT s) magic (OP_ITERATOR kind) rt = Some ((MAP_EXCEPTION, False), ?rt)"
        using g None Some pos by (simp add: js_create_map_iterator_def no_done_def map_malloc_def)
      show ?thesis by (rule simulatedI [OF run oom [OF None] at]) (simp add: same_world_def)
    next
      case s2: (Some u2)
      let ?it = "\<lparr>it_class = magic, it_obj = JS_OBJECT s, it_kind = kind, it_cur_record = 0\<rparr>"
      define rt' where "rt' = (dup_val (JS_OBJECT s) (rt\<lparr>map_clock := ?c + 2, map_next := ?i + 1\<rparr>))\<lparr>iters := (iters rt)(?i \<mapsto> ?it)\<rparr>"
      have r: "map_op_run fin (JS_OBJECT s) magic (OP_ITERATOR kind) rt = Some ((MAP_VALUE (JS_OBJECT ?i), False), rt')"
        using g s2 Some pos by (simp add: js_create_map_iterator_def no_done_def map_malloc_def dup_val_def rt'_def)
      have "places_at rt' s magic m G held (\<sigma>\<lparr>siters := (siters \<sigma>)(?i := Some (kind, Some 0))\<rparr>)"
        by (rule idle_iterator [OF p, of ?i "Some ?it"]) (use new in \<open>simp_all add: iter_rel_def rt'_def dup_val_def\<close>)
      moreover have "same_world rt rt' s" by (simp add: rt'_def dup_val_def same_world_def)
      ultimately show ?thesis using simulatedI [OF r spec_step_iterator [OF snew]] by blast
    qed
  qed
qed

section \<open>Leaving and taking a record\<close>

lemma place_unique: "distinct (map fst (cells G)) \<Longrightarrow> place G n a \<Longrightarrow> place G n' a \<Longrightarrow> n = n'"
proof (induction G arbitrary: n n')
  case (Cons c G)
  obtain p x where c: "c = (p, x)" by (cases c)
  have in_cells: "place G k a \<Longrightarrow> a \<in> fst ` set (cells G)" for k
  proof -
    assume k: "place G k a"
    then obtain gu y gv where "G = gu @ (Some a, y) # gv" unfolding place_def by (metis id_take_nth_drop prod.collapse)
    then show ?thesis by simp
  qed
  show ?case
  proof (cases n)
    case 0
    then show ?thesis
      using Cons.prems in_cells [of "n' - 1"] by (cases n') (auto simp: place_def c)
  next
    case (Suc k)
    note n = this
    show ?thesis
    proof (cases n')
      case 0
      then show ?thesis using n Cons.prems in_cells [of k] by (auto simp: place_def c)
    next
      case (Suc k')
      have "distinct (map fst (cells G))" using Cons.prems(1) by (cases p) (auto simp: c)
      moreover have "place G k a" "place G k' a" using Cons.prems(2,3) n Suc by (auto simp: place_def)
      ultimately show ?thesis using Cons.IH n Suc by simp
    qed
  qed
qed (simp add: place_def)

lemma place_split:
  assumes "place G n a"
  obtains gu x gv where "G = gu @ (Some a, x) # gv" "length gu = n" "drop (Suc n) G = gv"
proof -
  have "G = take n G @ (Some a, snd (G ! n)) # drop (Suc n) G"
    using assms id_take_nth_drop [of n G] unfolding place_def by (metis prod.collapse)
  then show ?thesis using that [of "take n G" "snd (G ! n)" "drop (Suc n) G"] assms by (simp add: place_def)
qed

text \<open>Giving up a record: the iterator goes back to the start, or the loop is gone.\<close>

lemma iters_rel_place:
  assumes "iters_rel rt s magic G \<sigma>" "\<And>n a. 0 < iter_locks rt a \<Longrightarrow> a \<noteq> 0 \<Longrightarrow> place G n a \<Longrightarrow> place G' n a"
  shows "iters_rel rt s magic G' \<sigma>"
  unfolding iters_rel_def
proof (intro conjI allI)
  fix i
  have r: "rel_option (iter_rel s magic G) (iters rt i) (siters \<sigma> i)" using assms(1) by (simp add: iters_rel_def)
  moreover have "iter_rel s magic G' itr st" if i: "iters rt i = Some itr" "iter_rel s magic G itr st" for itr st
  proof -
    have "0 < iter_locks rt (it_cur_record itr)" using iter_locks_pos [of rt i itr] assms(1) i(1) by (simp add: iters_rel_def)
    then show ?thesis using i(2) assms(2) by (auto simp: iter_rel_def split: option.splits if_splits)
  qed
  ultimately show "rel_option (iter_rel s magic G') (iters rt i) (siters \<sigma> i)" by (cases "iters rt i"; cases "siters \<sigma> i") auto
qed (use assms(1) in \<open>simp_all add: iters_rel_def\<close>)

lemma same_env_maps: "same_env rt rt' \<Longrightarrow> maps rt s = Some m \<Longrightarrow> maps rt' s = Some m' \<Longrightarrow> map_class m' = map_class m"
  unfolding same_env_def by fastforce

lemma release_place:
  assumes p: "places_at rt s magic m G held \<sigma>" and a: "place G n a" "a \<noteq> 0" "0 < locks rt held a"
    and l: "locks rt' held' = (locks rt held)(a := locks rt held a - 1)"
    and it: "iters_rel (rt\<lparr>iters := iters rt'\<rparr>) s magic G \<sigma>'" and es: "sentries \<sigma>' = sentries \<sigma>" and h: "set held' \<subseteq> set held"
  shows "\<exists>rt1 G1. map_decref_record rt a = Some rt1 \<and> same_env rt rt1 \<and> map_refs rt1 = map_refs rt \<and>
    drop (Suc n) G1 = drop (Suc n) G \<and> length G1 = length G \<and>
    places_at (rt1\<lparr>iters := iters rt'\<rparr>) s magic m G1 held' \<sigma>'"
proof -
  note P = places_atD [OF p]
  obtain gu x gv where g: "G = gu @ (Some a, x) # gv" "length gu = n" "drop (Suc n) G = gv" by (rule place_split [OF a(1)])
  have "map_at rt s m (cells gu @ (a, x) # cells gv) (locks rt held)" using P(1) g(1) by simp
  from map_decref_record_ok [OF this a(3)] obtain rt1 where d: "map_decref_record rt a = Some rt1" "same_env rt rt1" "map_refs rt1 = map_refs rt"
    "map_at rt1 s m (if x = None \<and> locks rt held a = 1 then cells gu @ cells gv else cells gu @ (a, x) # cells gv) (locks rt' held')"
    unfolding l by blast
  define c where "c = (if x = None \<and> locks rt held a = 1 then (None, None) else (Some a, x))"
  let ?G = "gu @ c # gv" and ?rt = "rt1\<lparr>iters := iters rt'\<rparr>"
  have env: "iters rt1 = iters rt" "map_usable rt1 = map_usable rt" "map_next rt \<le> map_next rt1" using d(2) by (auto simp: same_env_def)
  have lk: "locks ?rt held' = locks rt' held'" by (rule locks_cong) simp
  have "map_at rt1 s m (cells ?G) (locks rt' held')" using d(4) by (cases "x = None \<and> locks rt held a = 1") (auto simp: c_def)
  then have "map_at ?rt s m (cells ?G) (locks ?rt held')" unfolding lk by (rule map_at_cong) simp_all
  moreover have keep: "place ?G n' b" if "place G n' b" "0 < locks rt' held' b" for n' b
  proof -
    have "c = (Some a, x)" if "b = a" using \<open>0 < locks rt' held' b\<close> that unfolding l c_def by auto
    moreover have "b = a" if "n' = n" using \<open>place G n' b\<close> that g(1,2) by (simp add: place_def nth_append)
    ultimately show ?thesis using \<open>place G n' b\<close> g(1,2) by (cases "n' = n") (auto simp: place_def nth_append nth_Cons')
  qed
  have "iters_rel (rt\<lparr>iters := iters rt'\<rparr>) s magic ?G \<sigma>'"
  proof (rule iters_rel_place [OF it])
    fix n' b assume b: "0 < iter_locks (rt\<lparr>iters := iters rt'\<rparr>) b" "b \<noteq> 0" "place G n' b"
    then have "0 < locks rt' held' b" by (simp add: locks_def iter_locks_def)
    then show "place ?G n' b" by (rule keep [OF b(3)])
  qed
  then have "iters_rel ?rt s magic ?G \<sigma>'" by (rule iters_rel_next) (use env(3) in simp_all)
  moreover have "\<forall>(b, n')\<in>set held'. b \<noteq> 0 \<and> place ?G n' b"
  proof clarify
    fix b n' assume b: "(b, n') \<in> set held'"
    then have "b \<noteq> 0" "place G n' b" using P(6) h by auto
    moreover have "0 < count_list (map fst held') b" using b by (rule held_count)
    ultimately show "b \<noteq> 0 \<and> place ?G n' b" using keep by (simp add: locks_def)
  qed
  ultimately have "places_at ?rt s magic m ?G held' \<sigma>'"
    using P(2-4,7) g(1) env by (intro places_atI) (auto simp: es c_def usable_ok_def)
  then show ?thesis using d(1-3) g by (intro exI [of _ rt1] exI [of _ ?G]) simp
qed

text \<open>Taking hold of one.\<close>

lemma take_place:
  assumes p: "places_at rt s magic m G held \<sigma>" and a: "place G n a" "a \<noteq> 0" and r: "recs rt a = Some r"
    and l: "locks rt' held' = (locks rt held)(a := locks rt held a + 1)"
    and rt': "recs rt' = (recs rt)(a \<mapsto> r\<lparr>mr_ref_count := mr_ref_count r + 1\<rparr>)" "mlinks rt' = mlinks rt" "hlinks rt' = hlinks rt" "maps rt' = maps rt"
      "map_usable rt' = map_usable rt" "map_next rt \<le> map_next rt'"
    and it: "iters_rel rt' s magic G \<sigma>'" and es: "sentries \<sigma>' = sentries \<sigma>" and h: "set held' \<subseteq> insert (a, n) (set held)"
  shows "places_at rt' s magic m G held' \<sigma>'"
proof -
  note P = places_atD [OF p]
  obtain gu x gv where g: "G = gu @ (Some a, x) # gv" by (rule place_split [OF a(1)])
  have "map_at rt s m (cells gu @ (a, x) # cells gv) (locks rt held)" using P(1) g by simp
  from map_lock_ok [OF this r] have "map_at (set_rec rt a (r\<lparr>mr_ref_count := mr_ref_count r + 1\<rparr>)) s m (cells G) (locks rt' held')"
    using g l by simp
  then have "map_at rt' s m (cells G) (locks rt' held')" by (rule map_at_cong) (use rt' in \<open>simp_all add: set_rec_def\<close>)
  then show ?thesis using P(2-4,6,7) it es h a rt'(5) by (intro places_atI) (auto simp: usable_ok_def)
qed

section \<open>The next entry\<close>

lemma cells_take_drop: "cells G = cells (take n G) @ cells (drop n G)"
  by (metis append_take_drop_id cells_simps(4))

lemma map_next_loop_ok:
  assumes "map_at rt s m (us @ vs) lk" "records_head m = head"
  shows "map_next_loop rt head (first_cell head vs) = Some (case live vs of [] \<Rightarrow> head | c # _ \<Rightarrow> fst c)"
  using assms
proof (induction vs arbitrary: us)
  case Nil
  then show ?case by (subst map_next_loop.simps) simp
next
  case (Cons c vs)
  obtain a x where c: "c = (a, x)" by (cases c)
  note M = map_atD [OF Cons.prems(1)]
  obtain r where r: "recs rt a = Some r" "rec_ok lk a x r" using recs_okD [OF M(4), of a x] by (auto simp: c)
  have l: "ilist (mlinks rt) head (map fst (us @ (a, x) # vs))" using M(3) Cons.prems(2) by (simp add: c)
  then have ah: "a \<noteq> head" by (auto simp: ilist_def)
  have "map_at rt s m ((us @ [c]) @ vs) lk" using Cons.prems(1) by simp
  note IH = Cons.IH [OF this Cons.prems(2)]
  show ?case
  proof (cases x)
    case None
    then show ?thesis using IH r ah first_cell_next [OF l] by (subst map_next_loop.simps) (simp add: c rec_ok_dead)
  next
    case (Some e)
    then show ?thesis using r ah by (subst map_next_loop.simps) (simp add: c rec_ok_def)
  qed
qed

lemma map_iterator_result_ok:
  "\<exists>ret rt'. map_iterator_result rt magic kind r = (ret, rt') \<and>
    (ret = spec_item magic kind (mr_key r, mr_value r) \<or> may_fail rt \<and> kind = JS_ITERATOR_KIND_KEY_AND_VALUE \<and> ret = MAP_EXCEPTION) \<and>
    mlinks rt' = mlinks rt \<and> hlinks rt' = hlinks rt \<and> recs rt' = recs rt \<and> maps rt' = maps rt \<and> iters rt' = iters rt \<and>
    map_usable rt' = map_usable rt \<and> map_next rt \<le> map_next rt'"
  if "0 < map_next rt"
  using that
  by (cases kind; cases "map_usable rt (map_clock rt) 1")
    (auto simp: map_iterator_result_def spec_item_def Let_def dup_val_def map_malloc_def may_fail_def)

definition at_rest :: "map_rt \<Rightarrow> addr \<Rightarrow> map_iterator \<Rightarrow> map_rt \<Rightarrow> map_rt" where
  "at_rest rt i it rt1 = rt1\<lparr>iters := (iters rt)(i \<mapsto> it\<lparr>it_cur_record := 0\<rparr>)\<rparr>"

text \<open>An iterator leaves its record; where it goes on has been read before.\<close>

lemma iterator_leave:
  assumes p: "places_at rt s magic m G held \<sigma>" and i: "iters rt i = Some it" "siters \<sigma> i = Some (kind, Some n)"
  shows "\<exists>rt1 G1. get_next (mlinks rt) (if it_cur_record it = 0 then records_head m else it_cur_record it) =
      Some (first_cell (records_head m) (cells (drop n G1))) \<and>
    (if it_cur_record it = 0 then rt1 = rt else map_decref_record rt (it_cur_record it) = Some rt1) \<and> n \<le> length G1 \<and>
    same_env rt rt1 \<and> places_at (at_rest rt i it rt1) s magic m G1 held (\<sigma>\<lparr>siters := (siters \<sigma>)(i \<mapsto> (kind, Some 0))\<rparr>)"
proof -
  note P = places_atD [OF p]
  note l = map_atD(3) [OF P(1)]
  have ir: "iter_rel s magic G it (kind, Some n)" using P(5) i unfolding iters_rel_def by (metis option.rel_inject(2))
  have i_next: "i < map_next rt" "finite (dom (iters rt))" using P(5) i(1) by (auto simp: iters_rel_def)
  let ?it = "it\<lparr>it_cur_record := 0\<rparr>"
  have rest: "iter_rel s magic G' ?it (kind, Some 0)" for G' using ir by (simp add: iter_rel_def)
  show ?thesis
  proof (cases "n = 0")
    case True
    have "places_at (at_rest rt i it rt) s magic m G held (\<sigma>\<lparr>siters := (siters \<sigma>)(i := Some (kind, Some 0))\<rparr>)"
      by (rule idle_iterator [OF p, of i "Some ?it"]) (use ir i True i_next in \<open>simp_all add: at_rest_def iter_rel_def\<close>)
    moreover have "it_cur_record it = 0" using ir True by (simp add: iter_rel_def)
    ultimately show ?thesis using first_cell_head [OF l] True by (intro exI [of _ rt] exI [of _ G]) simp
  next
    case False
    define a where "a = it_cur_record it"
    have a: "a \<noteq> 0" "place G (n - 1) a" using ir False by (auto simp: iter_rel_def a_def)
    define rt' where "rt' = rt\<lparr>iters := (iters rt)(i \<mapsto> ?it)\<rparr>"
    have "iter_locks rt' b + of_bool (b = a) = iter_locks rt b + of_bool (b = 0)" for b
      using iter_locks_upd [OF i_next(2), of rt' i "Some ?it" b] i(1) by (auto simp: rt'_def a_def)
    then have lk: "locks rt' held = (locks rt held)(a := locks rt held a - 1)"
    proof -
      assume *: "\<And>b. iter_locks rt' b + of_bool (b = a) = iter_locks rt b + of_bool (b = 0)"
      show ?thesis
      proof
        fix b
        show "locks rt' held b = ((locks rt held)(a := locks rt held a - 1)) b"
          using * [of b] a(1) by (auto simp: locks_def split: if_splits)
      qed
    qed
    have pos: "0 < locks rt held a" using iter_locks_pos [OF i_next(2) i(1)] a(1) by (simp add: locks_def a_def)
    have "iters_rel (rt\<lparr>iters := iters rt'\<rparr>) s magic G (\<sigma>\<lparr>siters := (siters \<sigma>)(i := Some (kind, Some 0))\<rparr>)"
      by (rule iters_rel_upd [OF P(5), of _ i "Some ?it"]) (use rest i_next in \<open>simp_all add: rt'_def\<close>)
    from release_place [OF p a(2,1) pos lk this] obtain rt1 G1 where d: "map_decref_record rt a = Some rt1" "same_env rt rt1"
      "drop (Suc (n - 1)) G1 = drop (Suc (n - 1)) G" "length G1 = length G"
      "places_at (rt1\<lparr>iters := iters rt'\<rparr>) s magic m G1 held (\<sigma>\<lparr>siters := (siters \<sigma>)(i := Some (kind, Some 0))\<rparr>)"
      by auto
    obtain gu x gv where g: "G = gu @ (Some a, x) # gv" "length gu = n - 1" "drop (Suc (n - 1)) G = gv" by (rule place_split [OF a(2)])
    have "get_next (mlinks rt) a = Some (first_cell (records_head m) (cells gv))"
      by (rule first_cell_next [of _ _ "cells gu" a x]) (use l g(1) in simp)
    moreover have "n \<le> length G1" using a(2) d(4) unfolding place_def by linarith
    ultimately show ?thesis using d False g(3) a(1) by (intro exI [of _ rt1] exI [of _ G1]) (simp add: a_def at_rest_def rt'_def)
  qed
qed

lemma js_map_iterator_next_simulated:
  assumes q: "quiet fin" and p: "places_at rt s magic m G held \<sigma>"
  shows "simulated fin rt s magic held \<sigma> (OP_NEXT v)"
proof (cases "\<exists>i. v = JS_OBJECT i \<and> siters \<sigma> i \<noteq> None")
  case False
  note P = places_atD [OF p]
  have none: "iters rt i = None" if "v = JS_OBJECT i" for i
  proof -
    have "rel_option (iter_rel s magic G) (iters rt i) (siters \<sigma> i)" using P(5) by (simp add: iters_rel_def)
    then show ?thesis using False that by (cases "iters rt i"; cases "siters \<sigma> i") auto
  qed
  have run: "map_op_run fin (JS_OBJECT s) magic (OP_NEXT v) rt = Some ((MAP_EXCEPTION, False), rt)"
    using none by (cases v) (simp_all add: js_map_iterator_next_def)
  have "spec_step (may_fail rt) magic (JS_OBJECT s) \<sigma> (OP_NEXT v) (MAP_EXCEPTION, False) \<sigma>"
    by (rule spec_step_not_iterator) (use False in blast)
  from simulatedI [OF run this p] show ?thesis by simp
next
  case True
  note P = places_atD [OF p]
  obtain i kind st where v: "v = JS_OBJECT i" and si: "siters \<sigma> i = Some (kind, st)" using True by auto
  obtain it where it: "iters rt i = Some it" "iter_rel s magic G it (kind, st)"
    using P(5) si unfolding iters_rel_def by (metis option_rel_Some2)
  have i_next: "i < map_next rt" "finite (dom (iters rt))" using P(5) it(1) by (auto simp: iters_rel_def)
  have cls: "it_class it = magic" "it_kind it = kind" using it(2) by (auto simp: iter_rel_def)
  show ?thesis
  proof (cases st)
    case None
    then have run: "map_op_run fin (JS_OBJECT s) magic (OP_NEXT v) rt = Some ((MAP_VALUE JS_UNDEFINED, True), rt)"
      using it cls by (simp add: js_map_iterator_next_def v iter_rel_def)
    have "spec_step (may_fail rt) magic (JS_OBJECT s) \<sigma> (OP_NEXT v) (MAP_VALUE JS_UNDEFINED, True) \<sigma>"
      unfolding v by (rule spec_step_ended) (use si None in simp)
    from simulatedI [OF run this p] show ?thesis by simp
  next
    case (Some n)
    have obj: "it_obj it = JS_OBJECT s" using it(2) Some by (simp add: iter_rel_def)
    note sin = si [unfolded Some]
    let ?h = "records_head m" and ?\<sigma>0 = "\<sigma>\<lparr>siters := (siters \<sigma>)(i \<mapsto> (kind, Some 0))\<rparr>"
    obtain rt1 G1 where l: "get_next (mlinks rt) (if it_cur_record it = 0 then ?h else it_cur_record it) =
        Some (first_cell ?h (cells (drop n G1)))"
      "if it_cur_record it = 0 then rt1 = rt else map_decref_record rt (it_cur_record it) = Some rt1" "n \<le> length G1"
      "same_env rt rt1" "places_at (at_rest rt i it rt1) s magic m G1 held ?\<sigma>0"
      using iterator_leave [OF p it(1) sin] by blast
    note Q = places_atD [OF l(5)]
    define rt0 where "rt0 = at_rest rt i it rt1"
    define lk where "lk = locks rt0 held"
    have at1: "map_at rt1 s m (cells (take n G1) @ cells (drop n G1)) lk"
      unfolding cells_take_drop [of G1 n, symmetric] lk_def rt0_def by (rule map_at_cong [OF Q(1)]) (simp_all add: at_rest_def)
    have loop: "map_next_loop rt1 ?h (first_cell ?h (cells (drop n G1))) =
      Some (case live (cells (drop n G1)) of [] \<Rightarrow> ?h | c # _ \<Rightarrow> fst c)"
      by (rule map_next_loop_ok [OF at1 refl])
    have start: "map_iterator_start rt m it = Some (first_cell ?h (cells (drop n G1)), rt1)"
      using l(1,2) by (cases "it_cur_record it = 0") (simp_all add: map_iterator_start_def)
    have es: "map snd G1 = sentries \<sigma>" using Q(3) by simp
    note sn = spec_next_places [OF Q(2) l(3), unfolded es]
    have env: "iters rt1 = iters rt" "map_usable rt1 = map_usable rt" "map_next rt \<le> map_next rt1" using l(4) by (auto simp: same_env_def)
    show ?thesis
    proof (cases "spec_next (sentries \<sigma>) n")
      case None
      then have el: "map_next_loop rt1 ?h (first_cell ?h (cells (drop n G1))) = Some ?h" using sn loop by simp
      define rt2 where "rt2 = set_iter (rt1\<lparr>map_refs := (map_refs rt1)(JS_OBJECT s := map_refs rt1 (JS_OBJECT s) - 1)\<rparr>) i
        (it\<lparr>it_cur_record := 0, it_obj := JS_UNDEFINED\<rparr>)"
      have run: "map_op_run fin (JS_OBJECT s) magic (OP_NEXT v) rt = Some ((MAP_VALUE JS_UNDEFINED, True), rt2)"
        using it(1) cls obj get_map_this [OF p] P(8) start el
        by (simp add: js_map_iterator_next_def v free_val_quiet [OF q] set_iter_def rt2_def)
      have "places_at rt2 s magic m G1 held (?\<sigma>0\<lparr>siters := (siters ?\<sigma>0)(i := Some (kind, None))\<rparr>)"
        by (rule idle_iterator [OF l(5), of i "Some (it\<lparr>it_cur_record := 0, it_obj := JS_UNDEFINED\<rparr>)"])
          (use cls i_next env in \<open>simp_all add: at_rest_def rt2_def set_iter_def iter_rel_def\<close>)
      then have at: "places_at rt2 s magic m G1 held (\<sigma>\<lparr>siters := (siters \<sigma>)(i \<mapsto> (kind, None))\<rparr>)" by simp
      have "spec_step (may_fail rt) magic (JS_OBJECT s) \<sigma> (OP_NEXT v) (MAP_VALUE JS_UNDEFINED, True) (\<sigma>\<lparr>siters := (siters \<sigma>)(i \<mapsto> (kind, None))\<rparr>)"
        unfolding v by (rule spec_step_end [OF sin None])
      from simulatedI [OF run this at] show ?thesis using same_env_world [OF l(4), of s] by (simp add: rt2_def set_iter_def same_world_def)
    next
      case some: (Some je)
      obtain j e where je: "je = (j, e)" by (cases je)
      obtain a ys where a: "n \<le> j" "place G1 j a" "snd (G1 ! j) = Some e" "live (cells (drop n G1)) = (a, e) # ys"
        using sn some by (auto simp: je)
      have el: "map_next_loop rt1 ?h (first_cell ?h (cells (drop n G1))) = Some a" using loop a(4) by simp
      have "G1 ! j \<in> set G1" using a(2) by (simp add: place_def)
      moreover have "G1 ! j = (Some a, Some e)" using a(2,3) by (simp add: place_def prod_eq_iff)
      ultimately have "(a, Some e) \<in> set (cells G1)" by (force simp: cells_def List.map_filter_def)
      then have ac: "(a, Some e) \<in> set (cells (take n G1) @ cells (drop n G1))" by (simp only: cells_take_drop [symmetric])
      obtain r where r: "recs rt1 a = Some r" "rec_ok lk a (Some e) r" using recs_okD [OF map_atD(4) [OF at1] ac] by blast
      have re: "(mr_key r, mr_value r) = e" using r(2) by (cases e) (simp add: rec_ok_live)
      have a0: "a \<noteq> 0" using map_atD(8) [OF at1] ac by (force simp: fresh_ok_def)
      have ah: "a \<noteq> ?h" using map_atD(3) [OF at1] ac by (force simp: ilist_def)
      let ?it = "it\<lparr>it_cur_record := a\<rparr>"
      define rt2 where "rt2 = set_iter (set_rec rt1 a (r\<lparr>mr_ref_count := mr_ref_count r + 1\<rparr>)) i ?it"
      have "0 < map_next rt2" using map_atD(8) [OF at1] by (simp add: fresh_ok_def rt2_def set_iter_def set_rec_def)
      from map_iterator_result_ok [OF this, of magic kind r] obtain ret rt3 where
        res: "map_iterator_result rt2 magic kind r = (ret, rt3)"
        "ret = spec_item magic kind e \<or> may_fail rt2 \<and> kind = JS_ITERATOR_KIND_KEY_AND_VALUE \<and> ret = MAP_EXCEPTION"
        "mlinks rt3 = mlinks rt2" "hlinks rt3 = hlinks rt2" "recs rt3 = recs rt2" "maps rt3 = maps rt2" "iters rt3 = iters rt2"
        "map_usable rt3 = map_usable rt2" "map_next rt2 \<le> map_next rt3" unfolding re by blast
      have run: "map_op_run fin (JS_OBJECT s) magic (OP_NEXT v) rt = Some ((ret, False), rt3)"
        using it(1) cls obj get_map_this [OF p] P(8) start el ah r(1) res(1)
        by (simp add: js_map_iterator_next_def v rt2_def Let_def)
      let ?\<sigma>' = "\<sigma>\<lparr>siters := (siters \<sigma>)(i \<mapsto> (kind, Some (j + 1)))\<rparr>"
      have it2: "iters rt2 = (iters rt)(i \<mapsto> ?it)" "map_next rt2 = map_next rt1" by (simp_all add: rt2_def set_iter_def set_rec_def env)
      have "iter_locks rt2 b + of_bool (0 = b) = iter_locks rt0 b + of_bool (a = b)" for b
        using iter_locks_upd [of rt0 rt2 i "Some ?it" b] i_next(2) by (simp add: it2 rt0_def at_rest_def)
      then have lk2: "locks rt2 held = (locks rt0 held)(a := locks rt0 held a + 1)"
      proof -
        assume *: "\<And>b. iter_locks rt2 b + of_bool (0 = b) = iter_locks rt0 b + of_bool (a = b)"
        show ?thesis
        proof
          fix b
          show "locks rt2 held b = ((locks rt0 held)(a := locks rt0 held a + 1)) b"
            using * [of b] a0 by (auto simp: locks_def split: if_splits)
        qed
      qed
      have "iters_rel rt2 s magic G1 (?\<sigma>0\<lparr>siters := (siters ?\<sigma>0)(i := Some (kind, Some (j + 1)))\<rparr>)"
        by (rule iters_rel_upd [OF Q(5), of _ i "Some ?it"])
          (use cls obj a0 a(2) i_next env in \<open>simp_all add: at_rest_def it2 iter_rel_def\<close>)
      then have ir: "iters_rel rt2 s magic G1 ?\<sigma>'" by simp
      have "places_at rt2 s magic m G1 held ?\<sigma>'"
        by (rule take_place [OF l(5) a(2) a0 _ _ _ _ _ _ _ _ ir, of r])
          (use r(1) lk2 in \<open>simp_all add: at_rest_def rt0_def rt2_def set_iter_def set_rec_def subset_insertI\<close>)
      then have at: "places_at rt3 s magic m G1 held ?\<sigma>'" by (rule places_at_cong) (use res in simp_all)
      have us: "map_usable rt2 = map_usable rt" using env(2) by (simp add: rt2_def set_iter_def set_rec_def)
      have "spec_step (may_fail rt) magic (JS_OBJECT s) \<sigma> (OP_NEXT v) (ret, False) ?\<sigma>'"
        unfolding v by (rule spec_step_next [OF sin some [unfolded je]]) (use res(2) us in \<open>simp add: may_fail_def\<close>)
      from simulatedI [OF run this at] show ?thesis
        using res(6,8) us same_env_world [OF l(4), of s] by (simp add: same_world_def rt2_def set_iter_def set_rec_def)
    qed
  qed
qed

lemma js_map_iterator_finalizer_simulated:
  assumes q: "quiet fin" and p: "places_at rt s magic m G held \<sigma>"
  shows "simulated fin rt s magic held \<sigma> (OP_RELEASE i)"
proof (cases "siters \<sigma> i")
  case None
  note P = places_atD [OF p]
  have "rel_option (iter_rel s magic G) (iters rt i) (siters \<sigma> i)" using P(5) by (simp add: iters_rel_def)
  then have "iters rt i = None" using None by (cases "iters rt i") auto
  then have run: "map_op_run fin (JS_OBJECT s) magic (OP_RELEASE i) rt = Some ((MAP_VALUE JS_UNDEFINED, False), rt)"
    by (simp add: js_map_iterator_finalizer_def)
  have "\<sigma>\<lparr>siters := (siters \<sigma>)(i := None)\<rparr> = \<sigma>" using None by (simp add: fun_upd_idem)
  then have "places_at rt s magic m G held (\<sigma>\<lparr>siters := (siters \<sigma>)(i := None)\<rparr>)" using p by simp
  from simulatedI [OF run spec_step_release this] show ?thesis by simp
next
  case (Some ks)
  obtain kind st where ks: "ks = (kind, st)" by (cases ks)
  note P = places_atD [OF p]
  note si = Some [unfolded ks]
  obtain it where it: "iters rt i = Some it" "iter_rel s magic G it (kind, st)"
    using P(5) si unfolding iters_rel_def by (metis option_rel_Some2)
  have i_next: "i < map_next rt" using P(5) it(1) by (auto simp: iters_rel_def)
  let ?\<sigma> = "\<sigma>\<lparr>siters := (siters \<sigma>)(i := None)\<rparr>"
  have "\<exists>rt1 G1 \<sigma>1 it1. (case it_obj it of
      JS_OBJECT p \<Rightarrow> (if maps rt p \<noteq> None \<and> it_cur_record it \<noteq> 0 then map_decref_record rt (it_cur_record it) else Some rt)
    | _ \<Rightarrow> Some rt) = Some rt1 \<and> places_at (rt1\<lparr>iters := (iters rt)(i \<mapsto> it1)\<rparr>) s magic m G1 held \<sigma>1 \<and> it_cur_record it1 = 0 \<and>
    \<sigma>1\<lparr>siters := (siters \<sigma>1)(i := None)\<rparr> = ?\<sigma> \<and> same_world rt rt1 s \<and> iters rt1 = iters rt \<and> map_next rt \<le> map_next rt1"
  proof (cases st)
    case None
    then have o: "it_obj it = JS_UNDEFINED" "it_cur_record it = 0" using it(2) by (auto simp: iter_rel_def)
    have "rt\<lparr>iters := (iters rt)(i \<mapsto> it)\<rparr> = rt" using it(1) by (simp add: fun_upd_idem)
    then show ?thesis using o p by (intro exI [of _ rt] exI [of _ G] exI [of _ \<sigma>] exI [of _ it]) simp
  next
    case (Some n)
    have obj: "it_obj it = JS_OBJECT s" using it(2) Some by (simp add: iter_rel_def)
    obtain rt1 G1 where l: "if it_cur_record it = 0 then rt1 = rt else map_decref_record rt (it_cur_record it) = Some rt1"
      "same_env rt rt1" "places_at (at_rest rt i it rt1) s magic m G1 held (\<sigma>\<lparr>siters := (siters \<sigma>)(i \<mapsto> (kind, Some 0))\<rparr>)"
      using iterator_leave [OF p it(1) si [unfolded Some]] by blast
    have "same_world rt rt1 s" "iters rt1 = iters rt" "map_next rt \<le> map_next rt1" using l(2) same_env_world [OF l(2)] by (auto simp: same_env_def)
    then show ?thesis using l(1,3) obj P(8)
      by (intro exI [of _ rt1] exI [of _ G1] exI [of _ "\<sigma>\<lparr>siters := (siters \<sigma>)(i \<mapsto> (kind, Some 0))\<rparr>"] exI [of _ "it\<lparr>it_cur_record := 0\<rparr>"])
        (auto simp: at_rest_def)
  qed
  then obtain rt1 G1 \<sigma>1 it1 where d: "(case it_obj it of
      JS_OBJECT p \<Rightarrow> (if maps rt p \<noteq> None \<and> it_cur_record it \<noteq> 0 then map_decref_record rt (it_cur_record it) else Some rt)
    | _ \<Rightarrow> Some rt) = Some rt1" "places_at (rt1\<lparr>iters := (iters rt)(i \<mapsto> it1)\<rparr>) s magic m G1 held \<sigma>1" "it_cur_record it1 = 0"
    "\<sigma>1\<lparr>siters := (siters \<sigma>1)(i := None)\<rparr> = ?\<sigma>" "same_world rt rt1 s" "iters rt1 = iters rt" "map_next rt \<le> map_next rt1"
    by blast
  define rt2 where "rt2 = rt1\<lparr>map_refs := (map_refs rt1)(it_obj it := map_refs rt1 (it_obj it) - 1), iters := (iters rt)(i := None)\<rparr>"
  have run: "map_op_run fin (JS_OBJECT s) magic (OP_RELEASE i) rt = Some ((MAP_VALUE JS_UNDEFINED, False), rt2)"
    using it(1) d(1,6) by (simp add: js_map_iterator_finalizer_def free_val_quiet [OF q] rt2_def)
  have "places_at rt2 s magic m G1 held (\<sigma>1\<lparr>siters := (siters \<sigma>1)(i := None)\<rparr>)"
    by (rule idle_iterator [OF d(2), of i None]) (use d(3,7) i_next in \<open>simp_all add: rt2_def\<close>)
  then have "places_at rt2 s magic m G1 held ?\<sigma>" unfolding d(4) .
  from simulatedI [OF run spec_step_release this] show ?thesis using d(5) by (simp add: rt2_def same_world_def)
qed

section \<open>Scripts\<close>

lemma map_op_simulated:
  assumes "quiet fin" "represents rt s magic held \<sigma>" "\<forall>k\<in>set (op_keys p). canonical k"
  shows "simulated fin rt s magic held \<sigma> p"
proof -
  obtain m G where p: "places_at rt s magic m G held \<sigma>" using assms(2) by (auto simp: represents_def)
  show ?thesis
    using assms(3) js_map_set_simulated [OF assms(1) p] js_map_get_simulated [OF p] js_map_has_simulated [OF p]
      js_map_delete_simulated [OF assms(1) p] js_map_clear_simulated [OF assms(1) p] js_map_get_size_simulated [OF p]
      js_create_map_iterator_simulated [OF p] js_map_iterator_next_simulated [OF assms(1) p]
      js_map_iterator_finalizer_simulated [OF assms(1) p]
    by (cases p) simp_all
qed

lemma map_script_simulated:
  assumes "quiet fin" "represents rt s magic held \<sigma>" "\<forall>p\<in>set ps. \<forall>k\<in>set (op_keys p). canonical k"
  shows "\<exists>rs rt' \<sigma>'. map_script fin (JS_OBJECT s) magic ps rt = Some (rs, rt') \<and>
    spec_run (may_fail rt) magic (JS_OBJECT s) \<sigma> ps rs \<sigma>' \<and> represents rt' s magic held \<sigma>' \<and> same_world rt rt' s"
  using assms(2,3)
proof (induction ps arbitrary: rt \<sigma>)
  case Nil
  then show ?case using spec_run_nil [of _ _ _ \<sigma>] by auto
next
  case (Cons p ps)
  have "simulated fin rt s magic held \<sigma> p" by (rule map_op_simulated [OF assms(1) Cons.prems(1)]) (use Cons.prems(2) in simp)
  then obtain r rt1 \<sigma>1 where 1: "map_op_run fin (JS_OBJECT s) magic p rt = Some (r, rt1)"
    "spec_step (may_fail rt) magic (JS_OBJECT s) \<sigma> p r \<sigma>1" "represents rt1 s magic held \<sigma>1" "same_world rt rt1 s"
    unfolding simulated_def by blast
  have "may_fail rt1 = may_fail rt" using 1(4) by (simp add: may_fail_def same_world_def)
  then obtain rs rt2 \<sigma>2 where 2: "map_script fin (JS_OBJECT s) magic ps rt1 = Some (rs, rt2)"
    "spec_run (may_fail rt) magic (JS_OBJECT s) \<sigma>1 ps rs \<sigma>2" "represents rt2 s magic held \<sigma>2" "same_world rt1 rt2 s"
    using Cons.IH [OF 1(3)] Cons.prems(2) by auto
  have "map_script fin (JS_OBJECT s) magic (p # ps) rt = Some (r # rs, rt2)" using 1(1) 2(1) by simp
  then show ?case using spec_run_step [OF 1(2) 2(2)] 2(3,4) 1(4) by (auto simp: same_world_def)
qed

end
