(* ===== verification/Js_Map_Each.thy ===== *)
theory Js_Map_Each
  imports Js_Map_Iter
begin

text \<open>
  \<open>js_map_forEach\<close> with a callback that uses the map in any way, and the constructor. The callback is
  a script of operations that depends on its arguments, and the result it returns.
\<close>

section \<open>The specification\<close>

definition scripted ::
  "finalizers \<Rightarrow> js_val \<Rightarrow> nat \<Rightarrow> (js_val list \<Rightarrow> map_op list) \<Rightarrow> (js_val list \<Rightarrow> map_result) \<Rightarrow> map_callback" where
  "scripted fin this magic f res args rt = do { (rs, rt) \<leftarrow> map_script fin this magic (f args) rt; Some (res args, rt) }"

definition each_args :: "nat \<Rightarrow> js_val \<Rightarrow> entry \<Rightarrow> js_val list" where
  "each_args magic this e = [if magic \<noteq> 0 then fst e else snd e, fst e, this]"

text \<open>From an index on: the calls, with their arguments, the result and the object afterwards. Entries
  added by a call are visited, deleted ones are not.\<close>

inductive spec_for_each ::
  "bool \<Rightarrow> nat \<Rightarrow> js_val \<Rightarrow> (js_val list \<Rightarrow> map_op list) \<Rightarrow> (js_val list \<Rightarrow> map_result) \<Rightarrow>
   spec_map \<Rightarrow> nat \<Rightarrow> js_val list list \<Rightarrow> map_result \<Rightarrow> spec_map \<Rightarrow> bool"
  for oom :: bool and magic :: nat and this :: js_val and f :: "js_val list \<Rightarrow> map_op list" and res :: "js_val list \<Rightarrow> map_result" where
  spec_each_end: "spec_next (sentries \<sigma>) n = None \<Longrightarrow> spec_for_each oom magic this f res \<sigma> n [] (MAP_VALUE JS_UNDEFINED) \<sigma>"
| spec_each_step: "spec_next (sentries \<sigma>) n = Some (j, e) \<Longrightarrow> spec_run oom magic this \<sigma> (f (each_args magic this e)) rs \<sigma>1 \<Longrightarrow>
    res (each_args magic this e) \<noteq> MAP_EXCEPTION \<Longrightarrow> spec_for_each oom magic this f res \<sigma>1 (j + 1) cs r \<sigma>2 \<Longrightarrow>
    spec_for_each oom magic this f res \<sigma> n (each_args magic this e # cs) r \<sigma>2"
| spec_each_stop: "spec_next (sentries \<sigma>) n = Some (j, e) \<Longrightarrow> spec_run oom magic this \<sigma> (f (each_args magic this e)) rs \<sigma>1 \<Longrightarrow>
    res (each_args magic this e) = MAP_EXCEPTION \<Longrightarrow>
    spec_for_each oom magic this f res \<sigma> n [each_args magic this e] MAP_EXCEPTION \<sigma>1"

inductive_cases spec_step_casesE: "spec_step oom magic this \<sigma> p r \<sigma>'"

section \<open>Scripts that add nothing\<close>

definition adds :: "map_op \<Rightarrow> bool" where
  "adds p = (case p of OP_SET k v \<Rightarrow> True | _ \<Rightarrow> False)"

lemma length_spec_delete: "length (spec_delete es k) = length es"
  by (induction es k rule: spec_delete.induct) auto

lemma spec_step_length: "spec_step oom magic this \<sigma> p r \<sigma>' \<Longrightarrow> \<not> adds p \<Longrightarrow> length (sentries \<sigma>') = length (sentries \<sigma>)"
  by (induction rule: spec_step.induct) (auto simp: adds_def length_spec_delete spec_clear_def)

lemma spec_run_length: "spec_run oom magic this \<sigma> ps rs \<sigma>' \<Longrightarrow> \<forall>p\<in>set ps. \<not> adds p \<Longrightarrow> length (sentries \<sigma>') = length (sentries \<sigma>)"
  by (induction rule: spec_run.induct) (auto simp: spec_step_length)

section \<open>The loop\<close>

lemma spec_next_skip:
  assumes "n \<le> q" "q \<le> length es" "\<And>i. n \<le> i \<Longrightarrow> i < q \<Longrightarrow> es ! i = None"
  shows "spec_next es n = spec_next es q"
  using assms
proof (induction "q - n" arbitrary: n)
  case (Suc d)
  then have n: "n < q" by simp
  have "spec_next es n = spec_next es (n + 1)" by (subst spec_next.simps) (use n Suc.prems in simp)
  also have "\<dots> = spec_next es q" by (rule Suc.hyps(1)) (use Suc n in simp_all)
  finally show ?case .
qed simp

lemma spec_for_each_index:
  assumes "spec_for_each oom magic this f res \<sigma> n cs r \<sigma>'" "spec_next (sentries \<sigma>) n' = spec_next (sentries \<sigma>) n"
  shows "spec_for_each oom magic this f res \<sigma> n' cs r \<sigma>'"
  using assms by (cases rule: spec_for_each.cases) (auto intro: spec_for_each.intros)

lemma cells_Nil: "cells gu = [] \<Longrightarrow> c \<in> set gu \<Longrightarrow> fst c = None"
proof (induction gu)
  case (Cons d gu)
  then show ?case by (cases d; cases "fst d") auto
qed simp

lemma first_place:
  assumes "places_ok G" "cells (drop n G) = (a, x) # ws"
  obtains p where "n \<le> p" "place G p a" "snd (G ! p) = x" "cells (drop (Suc p) G) = ws" "\<forall>i. n \<le> i \<and> i < p \<longrightarrow> snd (G ! i) = None"
proof -
  obtain gu gv where g: "drop n G = gu @ (Some a, x) # gv" "cells gu = []" "cells gv = ws"
    using cells_split [of "drop n G" "[]"] assms(2) by auto
  define p where "p = n + length gu"
  have n: "n < length G" using g(1) by (metis append_is_Nil_conv drop_eq_Nil2 linorder_not_le list.distinct(1))
  have nth: "G ! (n + i) = drop n G ! i" for i using n by simp
  have "length G = n + length (drop n G)" using n by simp
  then have lp: "p < length G" by (simp add: g(1) p_def)
  have gp: "G ! p = (Some a, x)" unfolding p_def nth g(1) by simp
  have dr: "drop (Suc p) G = gv"
  proof -
    have "drop (Suc p) G = drop (Suc (length gu)) (drop n G)" by (simp add: p_def add.commute)
    then show ?thesis by (simp add: g(1))
  qed
  have "snd (G ! i) = None" if i: "n \<le> i" "i < p" for i
  proof -
    have l: "i - n < length gu" using i by (simp add: p_def)
    then have "G ! i = gu ! (i - n)" using i(1) nth [of "i - n"] g(1) by (simp add: nth_append)
    moreover have "gu ! (i - n) \<in> set gu" using l by simp
    moreover have "fst c = None" if "c \<in> set gu" for c by (rule cells_Nil [OF g(2) that])
    moreover have "G ! i \<in> set G" using i lp by simp
    ultimately show ?thesis using assms(1) unfolding places_ok_def by metis
  qed
  then show ?thesis using that [of p] lp gp dr g(3) by (simp add: p_def place_def)
qed

lemma locks_Cons: "a \<noteq> 0 \<Longrightarrow> locks rt ((a, p) # held) = (locks rt held)(a := locks rt held a + 1)"
  by (auto simp: locks_def)

lemma map_for_each_loop_simulated:
  assumes q: "quiet fin" and f: "\<And>args p. p \<in> set (f args) \<Longrightarrow> \<not> adds p \<and> (\<forall>k\<in>set (op_keys p). canonical k)"
    and p: "places_at rt s magic m G held \<sigma>" "n \<le> length G" "records_head m = head"
  defines "this \<equiv> JS_OBJECT s"
  shows "\<exists>r cs rt' \<sigma>'. map_for_each_loop fin (scripted fin this magic f res) this magic head (first_cell head (cells (drop n G))) rt = Some (r, rt') \<and>
    spec_for_each (may_fail rt) magic this f res \<sigma> n cs r \<sigma>' \<and> represents rt' s magic held \<sigma>'"
  using p
proof (induction "length G - n" arbitrary: rt m G n \<sigma> rule: less_induct)
  case less
  note p = less.prems(1)
  note P = places_atD [OF p]
  let ?call = "scripted fin this magic f res" and ?lk = "locks rt held"
  show ?case
  proof (cases "cells (drop n G)")
    case Nil
    then have "spec_next (sentries \<sigma>) n = None" using spec_next_places [OF P(2) less.prems(2)] P(3) by (auto split: option.splits)
    then have "spec_for_each (may_fail rt) magic this f res \<sigma> n [] (MAP_VALUE JS_UNDEFINED) \<sigma>" by (rule spec_each_end)
    moreover have "map_for_each_loop fin ?call this magic head (first_cell head (cells (drop n G))) rt = Some (MAP_VALUE JS_UNDEFINED, rt)"
      by (subst map_for_each_loop.simps) (simp add: Nil)
    ultimately show ?thesis using represents_at [OF p] by blast
  next
    case (Cons c ws)
    obtain a x where c: "c = (a, x)" by (cases c)
    obtain k where k: "n \<le> k" "place G k a" "snd (G ! k) = x" "cells (drop (Suc k) G) = ws"
      "\<forall>i. n \<le> i \<and> i < k \<longrightarrow> snd (G ! i) = None"
      by (rule first_place [OF P(2) Cons [unfolded c]])
    have kl: "k < length G" using k(2) by (simp add: place_def)
    have sk: "spec_next (sentries \<sigma>) n = spec_next (sentries \<sigma>) k"
      by (rule spec_next_skip) (use k(1,5) kl in \<open>auto simp flip: P(3)\<close>)
    obtain gu gv where g: "G = gu @ (Some a, x) # gv" "drop (Suc k) G = gv"
      using place_split [OF k(2)] k(3) by (metis nth_append_length snd_conv)
    obtain r where r: "recs rt a = Some r" "rec_ok ?lk a x r" using rec_at_place [OF p [unfolded g(1)]] by blast
    have l: "ilist (mlinks rt) head (map fst (cells gu @ (a, x) # ws))"
      using map_atD(3) [OF P(1)] less.prems(3) g k(4) by simp
    have ah: "a \<noteq> head" using l by (auto simp: ilist_def)
    have a0: "a \<noteq> 0" using map_atD(8) [OF P(1)] g(1) by (auto simp: fresh_ok_def)
    show ?thesis
    proof (cases x)
      case None
      have n1: "length G - Suc k < length G - n" using k(1) kl by simp
      have "spec_next (sentries \<sigma>) k = spec_next (sentries \<sigma>) (Suc k)"
        by (rule spec_next_skip) (use k(3) kl None in \<open>auto simp: le_Suc_eq less_Suc_eq simp flip: P(3)\<close>)
      then have sn: "spec_next (sentries \<sigma>) n = spec_next (sentries \<sigma>) (Suc k)" using sk by simp
      have run: "map_for_each_loop fin ?call this magic head (first_cell head (cells (drop n G))) rt =
        map_for_each_loop fin ?call this magic head (first_cell head (cells (drop (Suc k) G))) rt"
        by (subst map_for_each_loop.simps) (use r ah None first_cell_next [OF l] in \<open>simp add: Cons c k(4) rec_ok_dead\<close>)
      from less.hyps [OF n1 p _ less.prems(3)] kl show ?thesis unfolding run using spec_for_each_index [OF _ sn] by fastforce
    next
      case (Some e)
      have sn: "spec_next (sentries \<sigma>) n = Some (k, e)"
        unfolding sk by (subst spec_next.simps) (use k(3) kl Some in \<open>simp flip: P(3)\<close>)
      have re: "\<not> mr_empty r" "mr_key r = fst e" "mr_value r = snd e" using r(2) by (cases e; simp add: Some rec_ok_live)+
      let ?args = "each_args magic this e" and ?held = "(a, k) # held"
      define rt1 where "rt1 = (let rt = dup_val (mr_key r) (set_rec rt a (r\<lparr>mr_ref_count := mr_ref_count r + 1\<rparr>)) in
        if magic \<noteq> 0 then rt else dup_val (mr_value r) rt)"
      have rt1: "recs rt1 = (recs rt)(a \<mapsto> r\<lparr>mr_ref_count := mr_ref_count r + 1\<rparr>)" "mlinks rt1 = mlinks rt" "hlinks rt1 = hlinks rt"
        "maps rt1 = maps rt" "map_usable rt1 = map_usable rt" "map_next rt1 = map_next rt" "iters rt1 = iters rt"
        by (simp_all add: rt1_def Let_def dup_val_def set_rec_def)
      have it1: "iters_rel rt1 s magic G \<sigma>" by (rule iters_rel_next [OF P(5)]) (simp_all add: rt1)
      have lk1: "locks rt1 ?held = (locks rt held)(a := locks rt held a + 1)"
        unfolding locks_Cons [OF a0] locks_cong [OF rt1(7)] ..
      have "places_at rt1 s magic m G ?held \<sigma>"
        by (rule take_place [OF p k(2) a0 r(1) lk1 rt1(1-5) _ it1]) (use rt1 in simp_all)
      from map_script_simulated [OF q represents_at [OF this], of "f ?args"] f obtain rs rt2 \<sigma>1 where
        2: "map_script fin this magic (f ?args) rt1 = Some (rs, rt2)" "spec_run (may_fail rt1) magic this \<sigma> (f ?args) rs \<sigma>1"
        "represents rt2 s magic ?held \<sigma>1" "same_world rt1 rt2 s"
        unfolding this_def by blast
      have mf: "may_fail rt1 = may_fail rt" by (simp add: may_fail_def rt1)
      obtain m2 G2 where p2: "places_at rt2 s magic m2 G2 ?held \<sigma>1" using 2(3) by (auto simp: represents_def)
      note Q = places_atD [OF p2]
      have h2: "records_head m2 = head" using 2(4) Q(8) P(8) rt1(4) less.prems(3) by (simp add: same_world_def)
      have pl2: "place G2 k a" using Q(6) by simp
      have len: "length G2 = length G"
        using spec_run_length [OF 2(2)] f Q(3) P(3) by (metis length_map)
      define h where "h = map_refs rt2"
      define rt3 where "rt3 = rt2\<lparr>map_refs := (let h = h(hd ?args := h (hd ?args) - 1) in if magic = 0 then h(mr_key r := h (mr_key r) - 1) else h)\<rparr>"
      have p3: "places_at rt3 s magic m2 G2 ?held \<sigma>1" by (rule places_at_cong [OF p2]) (simp_all add: rt3_def)
      note R = places_atD [OF p3]
      have pos: "0 < locks rt3 ?held a" using a0 by (simp add: locks_def)
      have lk3: "locks rt3 held = (locks rt3 ?held)(a := locks rt3 ?held a - 1)" unfolding locks_Cons [OF a0] by auto
      have "iters_rel (rt3\<lparr>iters := iters rt3\<rparr>) s magic G2 \<sigma>1" using R(5) by simp
      from release_place [OF p3 pl2 a0 pos lk3 this] obtain rt4 G4 where 4: "map_decref_record rt3 a = Some rt4" "same_env rt3 rt4"
        "drop (Suc k) G4 = drop (Suc k) G2" "length G4 = length G2" "places_at (rt4\<lparr>iters := iters rt3\<rparr>) s magic m2 G4 held \<sigma>1" by auto
      have p4: "places_at rt4 s magic m2 G4 held \<sigma>1" by (rule places_at_cong [OF 4(5)]) (use 4(2) in \<open>simp_all add: same_env_def\<close>)
      obtain gu2 x2 gv2 where g2: "G2 = gu2 @ (Some a, x2) # gv2" "drop (Suc k) G2 = gv2" using place_split [OF pl2] by metis
      have "ilist (mlinks rt3) head (map fst (cells gu2 @ (a, x2) # cells gv2))" using map_atD(3) [OF R(1)] h2 g2(1) by simp
      from first_cell_next [OF this] have nx: "get_next (mlinks rt3) a = Some (first_cell head (cells (drop (Suc k) G4)))"
        using 4(3) g2(2) by simp
      have us: "map_usable rt4 = map_usable rt" using 4(2) 2(4) rt1(5) by (simp add: same_env_def same_world_def rt3_def)
      have run0: "map_for_each_loop fin ?call this magic head (first_cell head (cells (drop n G))) rt =
        (case res ?args of
            MAP_EXCEPTION \<Rightarrow> Some (MAP_EXCEPTION, rt4)
          | MAP_VALUE v \<Rightarrow> do {
              rt \<leftarrow> free_val fin v rt4;
              map_for_each_loop fin ?call this magic head (first_cell head (cells (drop (Suc k) G4))) rt
            }
          | MAP_ARRAY vs \<Rightarrow> map_for_each_loop fin ?call this magic head (first_cell head (cells (drop (Suc k) G4))) rt4)"
      proof -
        have c1: "?call ?args rt1 = Some (res ?args, rt2)" using 2(1) by (simp add: scripted_def)
        show ?thesis
        proof (cases "magic = 0")
          case True
          have c2: "?call [mr_value r, mr_key r, this] (dup_val (mr_value r)
              (dup_val (mr_key r) (set_rec rt a (r\<lparr>mr_ref_count := mr_ref_count r + 1\<rparr>)))) = Some (res ?args, rt2)"
            using c1 True by (simp add: rt1_def each_args_def re)
          define rt2' where "rt2' = rt2\<lparr>map_refs := h(mr_value r := h (mr_value r) - 1)\<rparr>"
          have f1: "free_val fin (mr_value r) rt2 = Some rt2'" by (simp add: free_val_quiet [OF q] h_def rt2'_def)
          have f2: "free_val fin (mr_key r) rt2' = Some rt3"
            using True by (simp add: free_val_quiet [OF q] rt2'_def rt3_def Let_def each_args_def re)
          show ?thesis
            using True by (subst map_for_each_loop.simps) (simp add: Cons c ah r(1) re(1) Let_def c2 [unfolded True] f1 f2 nx 4(1))
        next
          case False
          then have c2: "?call [mr_key r, mr_key r, this]
              (dup_val (mr_key r) (set_rec rt a (r\<lparr>mr_ref_count := mr_ref_count r + 1\<rparr>))) = Some (res ?args, rt2)"
            using c1 by (simp add: rt1_def each_args_def re)
          have f1: "free_val fin (mr_key r) rt2 = Some rt3"
            using False by (simp add: free_val_quiet [OF q] rt3_def h_def each_args_def re)
          show ?thesis
            using False by (subst map_for_each_loop.simps) (simp add: Cons c ah r(1) re(1) Let_def c2 f1 nx 4(1))
        qed
      qed
      show ?thesis
      proof (cases "res ?args = MAP_EXCEPTION")
        case True
        have "spec_for_each (may_fail rt) magic this f res \<sigma> n [?args] MAP_EXCEPTION \<sigma>1"
          by (rule spec_each_stop [of \<sigma> n k e _ _ _ f rs \<sigma>1 res, OF sn 2(2) [unfolded mf] True])
        then show ?thesis using run0 True represents_at [OF p4] by force
      next
        case False
        define rt5 where "rt5 = (case res ?args of MAP_VALUE v \<Rightarrow> rt4\<lparr>map_refs := (map_refs rt4)(v := map_refs rt4 v - 1)\<rparr> | _ \<Rightarrow> rt4)"
        have run: "map_for_each_loop fin ?call this magic head (first_cell head (cells (drop n G))) rt =
          map_for_each_loop fin ?call this magic head (first_cell head (cells (drop (Suc k) G4))) rt5"
          unfolding run0 using False by (cases "res ?args") (simp_all add: rt5_def free_val_quiet [OF q])
        have p5: "places_at rt5 s magic m2 G4 held \<sigma>1" by (rule places_at_cong [OF p4]) (simp_all add: rt5_def split: map_result.splits)
        have "length G4 - Suc k < length G - n" "Suc k \<le> length G4" using k(1) kl len 4(4) by simp_all
        from less.hyps [OF this(1) p5 this(2) h2] obtain r' cs rt' \<sigma>' where
          "map_for_each_loop fin ?call this magic head (first_cell head (cells (drop (Suc k) G4))) rt5 = Some (r', rt')"
          "spec_for_each (may_fail rt5) magic this f res \<sigma>1 (Suc k) cs r' \<sigma>'" "represents rt' s magic held \<sigma>'" by blast
        moreover have "may_fail rt5 = may_fail rt" using us by (simp add: may_fail_def rt5_def split: map_result.splits)
        ultimately show ?thesis
          using spec_each_step [of \<sigma> n k e _ _ _ f rs \<sigma>1 res cs r' \<sigma>', OF sn 2(2) [unfolded mf] False] unfolding run by auto
      qed
    qed
  qed
qed

lemma js_map_for_each_simulated:
  assumes q: "quiet fin" and f: "\<And>args p. p \<in> set (f args) \<Longrightarrow> \<not> adds p \<and> (\<forall>k\<in>set (op_keys p). canonical k)"
    and p: "represents rt s magic held \<sigma>"
  shows "\<exists>r cs rt' \<sigma>'. js_map_for_each fin True (scripted fin (JS_OBJECT s) magic f res) rt (JS_OBJECT s) magic = Some (r, rt') \<and>
    spec_for_each (may_fail rt) magic (JS_OBJECT s) f res \<sigma> 0 cs r \<sigma>' \<and> represents rt' s magic held \<sigma>'"
proof -
  obtain m G where p: "places_at rt s magic m G held \<sigma>" using p by (auto simp: represents_def)
  note P = places_atD [OF p]
  from map_for_each_loop_simulated [OF q f p le0 refl, where res = res]
  show ?thesis
    using get_map_this [OF p] P(8) first_cell_head [OF map_atD(3) [OF P(1)]] by (simp add: js_map_for_each_def)
qed

section \<open>The constructor\<close>

definition new_runtime :: "(nat \<Rightarrow> nat \<Rightarrow> nat option) \<Rightarrow> map_rt" where
  "new_runtime usable = \<lparr>mlinks = (\<lambda>_. None), hlinks = (\<lambda>_. None), recs = (\<lambda>_. None), maps = (\<lambda>_. None), iters = (\<lambda>_. None),
    first_weak_ref = (\<lambda>_. 0), map_usable = usable, map_clock = 0, map_next = 1, map_refs = (\<lambda>_. 0)\<rparr>"

definition spec_new :: spec_map where
  "spec_new = \<lparr>sentries = [], siters = (\<lambda>_. None)\<rparr>"

lemma js_map_constructor_represents:
  assumes u: "usable_ok rt" "iters rt = (\<lambda>_. None)" "0 < map_next rt" "\<not> magic_weak magic" and new: "js_map_constructor rt magic = (MAP_VALUE v, rt')"
  shows "\<exists>s. v = JS_OBJECT s \<and> represents rt' s magic [] spec_new \<and> map_usable rt' = map_usable rt"
proof -
  have al: "map_malloc n j rt = (if map_usable rt (map_clock rt) n = None then 0 else map_next rt,
    rt\<lparr>map_clock := map_clock rt + 1, map_next := (if map_usable rt (map_clock rt) n = None then map_next rt else map_next rt + j)\<rparr>)" for n j rt
    by (simp add: map_malloc_def split: option.splits)
  let ?s = "map_next rt" and ?c = "map_clock rt"
  let ?m = "\<lparr>map_class = magic, is_weak = False, records_head = ?s + 1, record_count = 0, hash_table = ?s + 2, hash_size = 1, record_count_threshold = 4\<rparr>"
  define rt1 where "rt1 = rt\<lparr>map_clock := ?c + 3, map_next := ?s + 3, mlinks := (mlinks rt)(?s + 1 \<mapsto> \<lparr>lprev = ?s + 1, lnext = ?s + 1\<rparr>),
    maps := (maps rt)(?s \<mapsto> ?m), hlinks := (hlinks rt)(?s + 2 \<mapsto> \<lparr>lprev = ?s + 2, lnext = ?s + 2\<rparr>)\<rparr>"
  have r: "v = JS_OBJECT ?s" "rt' = rt1"
    using new u(3,4) unfolding js_map_constructor_def al Let_def
    by (auto simp: set_map_def rt1_def numeral_eq_Suc split: if_splits)
  have "map_at rt1 ?s ?m (cells []) (locks rt1 [])"
    unfolding map_at_def recs_ok_def table_ok_def keys_ok_def fresh_ok_def
    using u(2) by (auto simp: rt1_def ilist_def get_next_def get_prev_def in_table_def locks_def iter_locks_def)
  then have "places_at rt1 ?s magic ?m [] [] spec_new"
    using u(1,2) by (intro places_atI) (simp_all add: spec_new_def iters_rel_def rt1_def usable_ok_def)
  then show ?thesis using r represents_at by (auto simp: rt1_def)
qed

end
