(* ===== verification/Js_Map_Theorems.thy ===== *)
theory Js_Map_Theorems
  imports Js_Map_Each
begin

text \<open>
  What \<open>Map\<close> and \<open>Set\<close> of \<^verbatim>\<open>quickjs.c\<close> guarantee, and where they do not: a number that is held as a
  double although it is a 32-bit integer hashes differently from the equal integer; and giving up
  the last reference to an iterator, in the middle of \<open>forEach\<close> or \<open>clear\<close>, frees a record that
  the loop is about to visit.
\<close>

section \<open>Evaluation\<close>

definition quiet_fin :: finalizers where
  "quiet_fin v rt = Some rt"

definition plenty :: "nat \<Rightarrow> nat \<Rightarrow> nat option" where
  "plenty c n = (if n < 2 ^ 20 then Some n else None)"

definition ex_map :: map_rt where
  "ex_map = snd (js_map_constructor (new_runtime plenty) 0)"

definition ex_weak_map :: map_rt where
  "ex_weak_map = snd (js_map_constructor (new_runtime plenty) 2)"

lemma quiet_quiet_fin [simp]: "quiet quiet_fin"
  by (simp add: quiet_def quiet_fin_def)

lemma plenty_ok: "\<forall>c n u. plenty c n = Some u \<longrightarrow> n \<le> u \<and> u < 2 ^ 35"
  by (auto simp: plenty_def split: if_splits)

lemma ex_map_new: "js_map_constructor (new_runtime plenty) 0 = (MAP_VALUE (JS_OBJECT 1), ex_map)"
  by (simp add: ex_map_def js_map_constructor_def new_runtime_def map_malloc_def plenty_def sizeof_list_head_def Let_def)

lemma bind_weak: "x = y \<Longrightarrow> Option.bind x f = Option.bind y f"
  by simp

lemma ilog2_eq:
  assumes "2 ^ e \<le> n" "n < 2 ^ Suc e"
  shows "ilog2 n = e"
proof -
  have n: "0 < n" using assms(1) by (rule less_le_trans [rotated]) simp
  have "ilog2 n < Suc e" by (rule ilog2_unique [OF n assms(2)])
  moreover have "(2::nat) ^ e < 2 ^ Suc (ilog2 n)" using ilog2_bounds [OF n] assms(1) by linarith
  then have "e < Suc (ilog2 n)" by (simp only: power_strict_increasing_iff)
  ultimately show ?thesis by linarith
qed

lemma double_of_ints:
  "double_of_int 0 = 0" "double_of_int 1 = 0x3ff0000000000000" "double_of_int 3163 = 0x40a8b60000000000"
proof -
  have "ilog2 (Suc 0) = 0" "ilog2 3163 = 11" by (rule ilog2_eq; simp)+
  then show "double_of_int 0 = 0" "double_of_int 1 = 0x3ff0000000000000" "double_of_int 3163 = 0x40a8b60000000000"
    by (simp_all add: double_of_int_def)
qed

lemma init_buckets_4: "init_buckets h t 4 = do { h \<leftarrow> init_list_head h t; h \<leftarrow> init_list_head h (t + 1);
    h \<leftarrow> init_list_head h (t + 2); init_list_head h (t + 3) }"
  by (simp add: eval_nat_numeral)

lemma hash_values:
  "map_hash_key (JS_INT 1) = 14736967130202176008704" "map_hash_key (JS_FLOAT64 0x3ff0000000000000) = 14572517994057383804935"
  "map_hash_key JS_UNDEFINED = 3" "map_hash_key JS_NULL = 2" "map_hash_key (JS_BOOL True) = 0"
  by (simp_all add: map_hash_key.simps hash_float64_def double_of_ints isnan_def double_exp_def)

lemma number_test_refl: "number_test d d"
  by (simp add: number_test_iff)

lemma not_4_le_1: "\<not> (4 :: u32) \<le> 1"
  by (simp add: word_le_nat_alt)

lemmas map_eval = map_hash_resize_def new_table_def init_buckets_4 map_rehash_loop.simps map_add_record_def map_malloc_def
  set_rec_def set_map_def dup_val_def bucket_of_def map_find_record_def map_find_loop.simps js_map_set_def js_map_get_def
  get_map_def no_done_def list_add_tail_def list_insert_def get_next_def get_prev_def set_next_def set_prev_def init_list_head_def
  sizeof_list_head_def sizeof_map_record_def magic_set_def magic_weak_def quiet_fin_def free_val_def js_map_constructor_def
  plenty_def Let_def list_del_def unlink_rec_def free_rec_def map_delete_record_def map_decref_record_def js_map_delete_def
  js_map_clear_def map_clear_loop.simps js_map_for_each_def map_for_each_loop.simps js_create_map_iterator_def set_iter_def
  map_next_loop.simps map_iterator_result_def js_map_iterator_next_def map_iterator_start_def js_map_iterator_finalizer_def
  add_weak_ref_def reset_weak_unlink.simps reset_weak_free.simps reset_weak_ref_def scripted_def number_test_refl hash_values
  new_runtime_def not_4_le_1

section \<open>Where the table loses a key\<close>

lemma map_float_key_lost:
  "js_same_value_zero (JS_INT 1) (JS_FLOAT64 0x3ff0000000000000) \<and>
   map_option fst (map_script quiet_fin (JS_OBJECT 1) 0
     [OP_SET (JS_INT 1) (JS_INT 30), OP_SET JS_NULL JS_NULL, OP_SET JS_UNDEFINED JS_NULL, OP_SET (JS_BOOL True) JS_NULL,
      OP_GET (JS_INT 1), OP_GET (JS_FLOAT64 0x3ff0000000000000)] ex_map) =
   Some [(MAP_VALUE (JS_OBJECT 1), False), (MAP_VALUE (JS_OBJECT 1), False), (MAP_VALUE (JS_OBJECT 1), False),
     (MAP_VALUE (JS_OBJECT 1), False), (MAP_VALUE (JS_INT 30), False), (MAP_VALUE JS_UNDEFINED, False)]"
proof
  show "js_same_value_zero (JS_INT 1) (JS_FLOAT64 0x3ff0000000000000)"
    by (simp add: double_of_ints number_test_iff)
  show "map_option fst (map_script quiet_fin (JS_OBJECT 1) 0
     [OP_SET (JS_INT 1) (JS_INT 30), OP_SET JS_NULL JS_NULL, OP_SET JS_UNDEFINED JS_NULL, OP_SET (JS_BOOL True) JS_NULL,
      OP_GET (JS_INT 1), OP_GET (JS_FLOAT64 0x3ff0000000000000)] ex_map) =
   Some [(MAP_VALUE (JS_OBJECT 1), False), (MAP_VALUE (JS_OBJECT 1), False), (MAP_VALUE (JS_OBJECT 1), False),
     (MAP_VALUE (JS_OBJECT 1), False), (MAP_VALUE (JS_INT 30), False), (MAP_VALUE JS_UNDEFINED, False)]"
    by (simp add: ex_map_def map_eval double_eq_def double_zero_def cong: bind_weak)
qed

section \<open>Where an iterator frees the next record\<close>

text \<open>The finalizer of an iterator that dies with its last reference.\<close>

definition iterator_dies :: "addr \<Rightarrow> finalizers" where
  "iterator_dies i v rt = (if v = JS_OBJECT i then js_map_iterator_finalizer quiet_fin rt i else Some rt)"

text \<open>The callback makes an iterator, moves it to the second record, deletes this record, and returns the
  iterator.\<close>

definition ex_two :: "map_rt option" where
  "ex_two = map_option snd (map_script quiet_fin (JS_OBJECT 1) 0 [OP_SET JS_NULL JS_NULL, OP_SET JS_UNDEFINED JS_NULL] ex_map)"

definition ex_callback :: map_callback where
  "ex_callback = scripted quiet_fin (JS_OBJECT 1) 0
     (\<lambda>_. [OP_ITERATOR JS_ITERATOR_KIND_KEY, OP_NEXT (JS_OBJECT 6), OP_NEXT (JS_OBJECT 6), OP_DELETE JS_UNDEFINED])
     (\<lambda>_. MAP_VALUE (JS_OBJECT 6))"

lemma map_for_each_use_after_free:
  "\<exists>rt. ex_two = Some rt \<and> js_map_for_each quiet_fin True ex_callback rt (JS_OBJECT 1) 0 \<noteq> None \<and>
    js_map_for_each (iterator_dies 6) True ex_callback rt (JS_OBJECT 1) 0 = None"
  by (simp add: ex_two_def ex_map_def map_eval iterator_dies_def ex_callback_def cong: bind_weak)

text \<open>Here the iterator is a value of the map that \<open>clear\<close> gives up.\<close>

lemma map_clear_use_after_free:
  "\<exists>rt. map_option snd (map_script quiet_fin (JS_OBJECT 1) 0
      [OP_SET JS_NULL JS_NULL, OP_SET JS_UNDEFINED JS_NULL, OP_ITERATOR JS_ITERATOR_KIND_KEY, OP_NEXT (JS_OBJECT 6),
       OP_NEXT (JS_OBJECT 6), OP_SET JS_NULL (JS_OBJECT 6), OP_DELETE JS_UNDEFINED] ex_map) = Some rt \<and>
    js_map_clear quiet_fin rt (JS_OBJECT 1) 0 \<noteq> None \<and> js_map_clear (iterator_dies 6) rt (JS_OBJECT 1) 0 = None"
  by (simp add: ex_map_def map_eval iterator_dies_def cong: bind_weak)

lemma map_weak_count_drifts:
  "map_option (\<lambda>rt. (ilist (mlinks rt) 2 [], map_option record_count (maps rt 1)))
     (map_option snd (map_script quiet_fin (JS_OBJECT 1) 2 [OP_SET (JS_OBJECT 9) JS_NULL] ex_weak_map) \<bind> (\<lambda>rt. reset_weak_ref quiet_fin rt 9)) =
   Some (True, Some 1)"
  by (simp add: ex_weak_map_def map_eval ilist_def cong: bind_weak)

section \<open>The properties\<close>




lemma ex_map_represents: "represents ex_map 1 0 [] spec_new"
  using js_map_constructor_represents [OF _ _ _ _ ex_map_new] plenty_ok
  by (auto simp: usable_ok_def new_runtime_def magic_weak_def)

lemma ex_two_represents: "\<exists>rt \<sigma>. ex_two = Some rt \<and> represents rt 1 0 [] \<sigma>"
proof -
  have "\<forall>p\<in>set [OP_SET JS_NULL JS_NULL, OP_SET JS_UNDEFINED JS_NULL]. \<forall>k\<in>set (op_keys p). canonical k" by simp
  from map_script_simulated [OF quiet_quiet_fin ex_map_represents this] show ?thesis by (auto simp: ex_two_def)
qed


lemma same_value_zero_normal:
  assumes "canonical a" "canonical b"
  shows "js_same_value_zero a b \<longleftrightarrow> js_same_value_zero (map_normalize_key a) (map_normalize_key b)"
proof -
  have z: "double_eq d 0 \<longleftrightarrow> double_zero d" for d
    using double_zero_not_nan [of d] double_zero_not_nan [of 0] by (auto simp: double_eq_def double_zero_def)
  have i: "double_zero (double_of_int (sint i)) \<longleftrightarrow> i = 0" for i :: u32
    using double_of_int_finite(2) [OF sint32(3), of i] signed_word_eqI [of i 0] by auto
  have i0: "number_test (double_of_int (sint i)) (double_of_int 0) \<longleftrightarrow> i = 0" "number_test (double_of_int 0) (double_of_int (sint i)) \<longleftrightarrow> i = 0" for i :: u32
    using number_test_int [of i 0] number_test_int [of 0 i] by auto
  have zz: "number_test d d' \<longleftrightarrow> double_zero d'" if "double_zero d" for d d'
    using that double_zero_not_nan [of d] by (auto simp: number_test_iff)
  have zz': "number_test d d' \<longleftrightarrow> double_zero d" if "double_zero d'" for d d'
    using that double_zero_not_nan [of d'] by (auto simp: number_test_iff)
  have c: "js_new_float64 d = JS_FLOAT64 d \<Longrightarrow> \<not> double_zero d \<Longrightarrow> \<not> number_test d (double_of_int (sint i)) \<and> \<not> number_test (double_of_int (sint i)) d"
    for d and i :: u32
    using number_test_mixed [of d i] z [of d] by (simp add: map_key_def)
  show ?thesis
  proof (cases "\<exists>d. a = JS_FLOAT64 d")
    case True
    then obtain d where a: "a = JS_FLOAT64 d" by blast
    show ?thesis using assms c [of d 0] i0 number_test_refl [of "double_of_int 0"] zz [of "double_of_int 0"] i [of 0] by (cases b) (auto simp: a z zz zz' i number_test_int split: if_splits)
  next
    case False
    then have n: "map_normalize_key a = a" by (cases a) auto
    show ?thesis
    proof (cases "\<exists>d. b = JS_FLOAT64 d")
      case True
      then obtain d where b: "b = JS_FLOAT64 d" by blast
      show ?thesis using assms False i0 by (cases a) (auto simp: b z zz zz' i number_test_int split: if_splits)
    next
      case nb: False
      then have "map_normalize_key b = b" by (cases b) auto
      then show ?thesis using n by simp
    qed
  qed
qed

text \<open>C16: On the values whose numbers are as \<open>JS_NewFloat64\<close> makes them, \<open>js_same_value_zero\<close> is an
  equivalence, and \<open>map_hash_key\<close> of the normalised key respects it: strings of either width, \<open>-0\<close> and
  \<open>0\<close>, and all the NaNs fall into the bucket of their equals.\<close>

theorem map_hash_respects_equality:
  assumes "canonical a" "canonical b" "canonical c"
  shows "js_same_value_zero a a \<and> js_same_value_zero a b = js_same_value_zero b a \<and>
    (js_same_value_zero a b \<and> js_same_value_zero b c \<longrightarrow> js_same_value_zero a c) \<and>
    (js_same_value_zero a b \<longrightarrow> map_hash_key (map_normalize_key a) = map_hash_key (map_normalize_key b))"
proof -
  note k = map_key_normalize [OF assms(1)] map_key_normalize [OF assms(2)] map_key_normalize [OF assms(3)]
  note n = same_value_zero_normal [OF assms(1,2)] same_value_zero_normal [OF assms(2,1)] same_value_zero_normal [OF assms(2,3)]
    same_value_zero_normal [OF assms(1,3)] same_value_zero_normal [OF assms(1,1)]
  show ?thesis
    unfolding n using map_keys.eq_refl [OF k(1)] map_keys.eq_sym [OF k(1,2)] map_keys.eq_sym [OF k(2,1)] map_keys.eq_trans [OF k]
      map_keys.hash_eq [OF k(1,2)] by blast
qed

theorem map_hash_respects_equality_witness:
  "js_same_value_zero (JS_STRING 1 (STR8 [97])) (JS_STRING 2 (STR16 [97])) \<and>
    map_hash_key (map_normalize_key (JS_STRING 1 (STR8 [97]))) = map_hash_key (map_normalize_key (JS_STRING 2 (STR16 [97])))"
proof -
  have c: "canonical (JS_STRING 1 (STR8 [97]))" "canonical (JS_STRING 2 (STR16 [97]))" by simp_all
  have "js_same_value_zero (JS_STRING 1 (STR8 [97])) (JS_STRING 2 (STR16 [97]))" by (simp add: js_string_compare_zero)
  then show ?thesis using map_hash_respects_equality [OF c c(1)] by blast
qed

end
