(* ===== verification/Spec2Isabelle.thy ===== *)
theory Spec2Isabelle
  imports Re_Compile_Safe Exchange Typed_Array_Spec Object_Spec Gc_Theorems Jobs_Spec Js_Map_Theorems
begin

text \<open>
  QuickJS for the ESP32: a verification of the parts of the engine that work on raw memory.

  \<^bold>\<open>Conventions\<close> (\<open>Prelude\<close>). A memory block is a list of bytes; \<open>rd\<close>, \<open>mem_read\<close> and \<open>mem_write\<close>
  give \<open>None\<close> outside of it, and so does every function whose C counterpart would access memory
  outside a block, fail an assertion or call a null pointer. A theorem that the result is \<open>Some\<close> is
  therefore a memory-safety theorem. \<open>okw m P\<close> says that \<open>m\<close> is \<open>Some x\<close> with \<open>P x\<close>. C integers that
  may wrap are words; sizes and offsets are naturals. Loops with a measure are total functions; loops
  that run over a pattern or interpret bytecode take fuel.

  \<^bold>\<open>C strings and buffers\<close> (\<open>cutils.c\<close>, \<open>cutils.h\<close>). \<open>Cutils_Str\<close>: \<open>pstrcpy\<close>, \<open>pstrcat\<close>, \<open>strstart\<close>,
  \<open>has_suffix\<close>. \<open>DynBuf\<close>: the dynamic buffer with its allocator as the locale \<open>allocator\<close>, interpreted
  on the default reallocation; each operation has a lemma \<open>dbuf_..._post\<close> in terms of \<open>dbuf_post\<close>.
  \<open>Utf8\<close>: \<open>unicode_to_utf8\<close> and \<open>unicode_from_utf8\<close>, inverse to each other and rejecting every other
  byte sequence.

  \<^bold>\<open>Sorting\<close> (\<open>rqsort\<close> of \<open>cutils.c\<close>; \<open>js_typed_array_sort\<close> of \<open>quickjs.c\<close>). \<open>Rqsort\<close> is the sort over
  the list of elements with a comparison function that carries a state; \<open>Rqsort_Safe\<close> shows that it
  stays inside the array and permutes it for \<^emph>\<open>every\<close> comparison function, \<open>Rqsort_Spec\<close>,
  \<open>Rqsort_Quick\<close> and \<open>Rqsort_Main\<close> that it sorts for a total preorder (locale \<open>comparison\<close>),
  \<open>Rqsort_State\<close> transfers both to comparison functions with a state invariant. The loop bounds are
  proved sufficient. \<open>Exchange\<close> shows that the byte-level exchange functions refine the exchange of two
  elements. \<open>Typed_Array_Sort\<close> and \<open>Typed_Array_Spec\<close> are the client: the sort of typed arrays, with
  a JavaScript callback (a parameter) that may change the memory, throw or detach the array.

  \<^bold>\<open>Character ranges\<close> (\<open>libunicode.c\<close>, \<open>libunicode.h\<close>). \<open>CharRange\<close> models \<open>CharRange\<close> and its
  operations, \<open>CharRange_Spec\<close> the sets they denote.

  \<^bold>\<open>Regular expressions\<close> (\<open>libregexp.c\<close>). \<open>Re_Opcode\<close>: the opcode table and character helpers;
  \<open>Re_Parse\<close>, \<open>Re_Class\<close>, \<open>Re_Compile\<close>: the compiler down to \<open>lre_compile\<close>; \<open>Re_Exec\<close>: the
  backtracking interpreter up to \<open>lre_exec\<close>. \<open>Re_Code\<close> is the grammar of compiled code, the contract
  between the two. \<open>Re_Lex_Safe\<close>, \<open>Re_Emit_Safe\<close>, \<open>Re_Class_Safe\<close> and \<open>Re_Compile_Safe\<close> show that the
  compiler stays inside the pattern and its buffers, ends within its fuel (\<open>lfuel\<close>, the length of the
  pattern) and emits such code, for allocators that do not refuse, patterns without bytes of invalid
  UTF-8 leads (\<open>zpat\<close>) and Unicode functions behind the contract \<open>unicode_ok\<close>; \<open>Re_Scan\<close> shows that the
  analyses of the compiler never leave such code;
  \<open>Re_Typing\<close> assigns each reachable program counter a stack depth, \<open>Re_Exec_Safe\<close> and \<open>Re_Exec_Run\<close>
  show that the interpreter keeps this typing and never faults. The functions driven by the generated
  Unicode tables are the record \<open>unicode_db\<close>.

  \<^bold>\<open>Objects and shapes\<close> (\<open>quickjs.c\<close>). \<open>Shape\<close> models plain objects (\<open>JS_CLASS_OBJECT\<close>): the shapes
  with their hash chains, the runtime's table of shapes, and the operations from \<open>js_new_shape2\<close> to
  \<open>add_property\<close>, \<open>delete_property\<close>, \<open>js_update_property_flags\<close> and \<open>JS_NewObjectProtoClass\<close>. Pointers
  are keys of two maps, for shapes and for objects, \<open>0\<close> is NULL. The chain of a bucket of the
  runtime's table is a list. Whether an allocation succeeds is a function of its number
  (\<open>malloc_ok\<close>), so all theorems hold for every pattern of failures; the exception object of a failed
  allocation, the trigger of the garbage collector and the memory behind values and atoms are not
  modelled (releases are counted or logged). \<open>Shape_Spec\<close> is about one shape (chains, entries,
  compaction), \<open>Shape_Inv\<close> the invariant \<open>rt_inv ext U\<close> of all shapes and objects, with \<open>ext\<close> the
  references held by the running C function and \<open>U\<close> the shapes it has unlinked; \<open>Shape_Ops\<close>,
  \<open>Shape_Prop\<close>, \<open>Shape_Delete\<close>, \<open>Shape_Make\<close> and \<open>Shape_New\<close> show that each operation keeps it and what it
  does to \<open>obj_entries\<close>, the list of names, flags and values an object stands for. \<open>Object_Heap\<close> adds
  \<open>free_object\<close> and the inductive set \<open>reachable\<close> of runtime states; \<open>Object_Spec\<close> states what clients
  rely on as the locale \<open>object_store\<close>, interpreted on the model, and the theorems. The bounds
  \<open>prop_count + 1 < 2 ^ 26\<close> (the width of \<open>hash_next\<close>) and \<open>shape_hash_bits < 32\<close> are hypotheses.

  \<^bold>\<open>Intrusive lists\<close> (\<open>list.h\<close>). \<open>Intrusive_List\<close>: a heap of links, \<open>ilist h head xs\<close> for the circular
  list with the elements \<open>xs\<close>, and what each operation does to it and leaves alone. Three components
  rest on it. \<^bold>\<open>Pending jobs\<close> (\<open>JS_EnqueueJob\<close>, \<open>JS_IsJobPending\<close>, \<open>JS_ExecutePendingJob\<close>,
  \<open>js_std_loop\<close>): \<open>Jobs\<close> with the C function of a job as the parameter of the locale \<open>job_functions\<close>,
  \<open>Jobs_Spec\<close> with the instance where that function is a script of enqueue requests. \<^bold>\<open>The cycle
  collector\<close> (\<open>JS_RunGC\<close> up to \<open>gc_free_cycles\<close>): \<open>Gc\<close> models \<open>mark_children\<close> for all types of
  objects and the two passes; the marking functions of C call a function on each child, in the model
  they give the list of children. \<open>Gc_Spec\<close> has one predicate per pass (\<open>dec\<close>, \<open>scan\<close>) on the lists
  and counts, \<open>Gc_Theorems\<close> the result: survivors are the objects reachable from outside.

  \<^bold>\<open>Map and Set\<close> (\<open>map_normalize_key\<close> to \<open>js_map_iterator_next\<close>). \<open>Js_Key\<close>: values as keys, with doubles as
  their 64 bits, \<open>js_same_value_zero\<close>, the hash, and the locale \<open>hash_keys\<close> of what a hash table asks of
  its keys. \<open>Js_Map\<close>: records on two intrusive lists each, the table, deletion with zombie records,
  \<open>forEach\<close> and iterators, weak references; what a finalizer does when a reference is given up and
  the callback of \<open>forEach\<close> are parameters, the answers of the allocator too. \<open>Js_Map_Inv\<close> and
  \<open>Js_Map_Ops\<close> hold the invariant \<open>map_at\<close>; \<open>Js_Map_Spec\<close> is the language's definition (a list of entries
  with empty places, iterators as indices) and the relation \<open>represents\<close>; \<open>Js_Map_Sim\<close>, \<open>Js_Map_Iter\<close>
  and \<open>Js_Map_Each\<close> are the simulation; \<open>Js_Map_Theorems\<close> has the theorems, and evaluated runs in
  which the code goes wrong. The theorems are about maps that are not weak, keys whose numbers are as
  \<open>JS_NewFloat64\<close> makes them, blocks below \<open>2 ^ 35\<close> bytes, and finalizers that do not use the map;
  \<open>sizeof\<close> is that of 64-bit pointers.

  \<^bold>\<open>Not modelled.\<close> The rest of the JavaScript engine (\<open>quickjs.c\<close>: parser, bytecode interpreter, exotic
  objects, release of dead cycles), the big-number library, the operating-system
  bindings of \<open>quickjs-libc.c\<close>, the command line tools, and the Arduino glue.
\<close>

end
